(* ===== verification/Orbit_Prelude.thy ===== *)
theory Orbit_Prelude
  imports Main "HOL-Library.Sublist" "HOL-Library.Word"
begin

text \<open>
  The vocabulary every component of the development shares.

  \<^item> C++ characters and strings: a \<^verbatim>\<open>char\<close> is a HOL \<open>char\<close> (one byte), a
    \<^verbatim>\<open>std::string\<close>, \<^verbatim>\<open>std::string_view\<close> or \<^verbatim>\<open>std::vector<char>\<close> is a
    \<open>string\<close>. The classification functions of \<^verbatim>\<open><cctype>\<close> are those of the "C" locale.
  \<^item> The string searches of the standard library: an index that may be \<^verbatim>\<open>npos\<close> is an
    \<open>option\<close>; a loop that advances an index over a view is a recursion over the remaining suffix.
  \<^item> \<^verbatim>\<open>std::to_string\<close> and \<^verbatim>\<open>std::from_chars\<close> on integers.
  \<^item> Case-insensitive maps (\<^verbatim>\<open>utils/CaseInsensitive.hpp\<close>), used for header sections.
  \<^item> The collections \<open>str_simps\<close> (rewrite rules on strings) and
    \<open>shrinks\<close> (length facts the termination proofs use).
\<close>

unbundle bit_operations_syntax

named_theorems str_simps \<open>rewrite rules on the string functions of the model\<close>
named_theorems shrinks \<open>length facts that justify the recursion of the scanners\<close>

section \<open>Step relations\<close>

text \<open>The components with several threads are step relations; a property of all their reachable states is an invariant.\<close>

lemma steps_invariant:
  assumes "step\<^sup>*\<^sup>* s t" "P s" "\<And>x y. step x y \<Longrightarrow> P x \<Longrightarrow> P y"
  shows "P t"
  using assms(1,2) by (induction rule: rtranclp_induct) (auto intro: assms(3))

section \<open>Characters\<close>

definition byte_of :: "char \<Rightarrow> nat" where
  "byte_of c = of_char c"

definition tolower :: "char \<Rightarrow> char" where
  "tolower c = (if 65 \<le> byte_of c \<and> byte_of c \<le> 90 then char_of (byte_of c + 32) else c)"

definition isdigit :: "char \<Rightarrow> bool" where
  "isdigit c \<longleftrightarrow> 48 \<le> byte_of c \<and> byte_of c \<le> 57"

definition isalpha :: "char \<Rightarrow> bool" where
  "isalpha c \<longleftrightarrow> 65 \<le> byte_of c \<and> byte_of c \<le> 90 \<or> 97 \<le> byte_of c \<and> byte_of c \<le> 122"

definition isalnum :: "char \<Rightarrow> bool" where
  "isalnum c \<longleftrightarrow> isdigit c \<or> isalpha c"

definition isxdigit :: "char \<Rightarrow> bool" where
  "isxdigit c \<longleftrightarrow> isdigit c \<or> 65 \<le> byte_of c \<and> byte_of c \<le> 70 \<or> 97 \<le> byte_of c \<and> byte_of c \<le> 102"

definition is_ows :: "char \<Rightarrow> bool" where
  "is_ows c \<longleftrightarrow> c = CHR '' '' \<or> c = CHR 0x09"

abbreviation CR :: char where "CR \<equiv> CHR 0x0D"
abbreviation LF :: char where "LF \<equiv> CHR 0x0A"
abbreviation NUL :: char where "NUL \<equiv> CHR 0x00"
abbreviation CRLF :: string where "CRLF \<equiv> [CR, LF]"

lemma byte_of_less: "byte_of c < 256"
  by (simp add: byte_of_def)

lemma byte_of_char_of [simp]: "n < 256 \<Longrightarrow> byte_of (char_of n) = n"
  by (simp add: byte_of_def)

lemma char_of_byte_of [simp]: "char_of (byte_of c) = c"
  by (simp add: byte_of_def)

lemma byte_of_inj: "byte_of a = byte_of b \<longleftrightarrow> a = b"
  by (metis char_of_byte_of)

lemma tolower_idem [simp]: "tolower (tolower c) = tolower c"
  using byte_of_less [of c] by (auto simp: tolower_def)

section \<open>Strings\<close>

text \<open>
  \<open>split_at c s\<close> is \<^verbatim>\<open>find(c)\<close> with the two pieces it is used for: what comes
  before the first \<open>c\<close> (\<^verbatim>\<open>substr(0, pos)\<close>) and what comes after it
  (\<^verbatim>\<open>substr(pos + 1)\<close>), \<open>None\<close> where \<^verbatim>\<open>find\<close> gives \<^verbatim>\<open>npos\<close>.
\<close>

fun split_at :: "char \<Rightarrow> string \<Rightarrow> string \<times> string option" where
  "split_at c [] = ([], None)"
| "split_at c (x # xs) =
     (if x = c then ([], Some xs) else (case split_at c xs of (a, r) \<Rightarrow> (x # a, r)))"

text \<open>\<open>find_sub n s\<close> is \<^verbatim>\<open>s.find(n)\<close>.\<close>

fun find_sub :: "string \<Rightarrow> string \<Rightarrow> nat option" where
  "find_sub n [] = (if n = [] then Some 0 else None)"
| "find_sub n (x # xs) =
     (if prefix n (x # xs) then Some 0 else map_option Suc (find_sub n xs))"

definition ltrim :: "string \<Rightarrow> string" where
  "ltrim s = dropWhile is_ows s"

definition rtrim :: "string \<Rightarrow> string" where
  "rtrim s = rev (dropWhile is_ows (rev s))"

definition trim :: "string \<Rightarrow> string" where
  "trim s = rtrim (ltrim s)"

definition contains_char :: "char \<Rightarrow> string \<Rightarrow> bool" where
  "contains_char c s \<longleftrightarrow> c \<in> set s"

lemma split_at_char:
  "(case snd (split_at c s) of None \<Rightarrow> fst (split_at c s) = s \<and> c \<notin> set s
     | Some r \<Rightarrow> s = fst (split_at c s) @ c # r \<and> c \<notin> set (fst (split_at c s)))"
proof (induction s)
  case Nil
  then show ?case by simp
next
  case (Cons x s)
  obtain a r where "split_at c s = (a, r)" by fastforce
  with Cons show ?case by (cases r) auto
qed

lemma split_at_app: "c \<notin> set a \<Longrightarrow> split_at c (a @ s) = (a @ fst (split_at c s), snd (split_at c s))"
  by (induction a) auto

lemma split_at_eq_None: "split_at c s = (a, None) \<longleftrightarrow> a = s \<and> c \<notin> set s"
proof
  assume "split_at c s = (a, None)"
  then show "a = s \<and> c \<notin> set s" using split_at_char [of c s] by simp
next
  assume "a = s \<and> c \<notin> set s"
  then show "split_at c s = (a, None)" using split_at_app [of c s "[]"] by simp
qed

lemma split_at_eq_Some: "split_at c s = (a, Some r) \<longleftrightarrow> s = a @ c # r \<and> c \<notin> set a"
proof
  assume "split_at c s = (a, Some r)"
  then show "s = a @ c # r \<and> c \<notin> set a" using split_at_char [of c s] by simp
next
  assume "s = a @ c # r \<and> c \<notin> set a"
  then show "split_at c s = (a, Some r)" by (simp add: split_at_app)
qed

lemma split_at_None [str_simps]: "snd (split_at c s) = None \<longleftrightarrow> c \<notin> set s"
  by (metis prod.collapse split_at_eq_None snd_conv)

lemma split_at_append_mem [simp]: "c \<notin> set a \<Longrightarrow> split_at c (a @ c # r) = (a, Some r)"
  by (simp add: split_at_eq_Some)

lemma split_at_notin [simp]: "c \<notin> set s \<Longrightarrow> split_at c s = (s, None)"
  by (simp add: split_at_eq_None)

lemma split_at_shrinks [shrinks]: "split_at c s = (a, Some r) \<Longrightarrow> length r < length s"
  by (auto simp: split_at_eq_Some)

lemma split_at_snd_shrinks [shrinks]: "snd (split_at c s) = Some r \<Longrightarrow> length r < length s"
  by (metis prod.collapse split_at_shrinks)

lemma split_at_shrinks_fst [shrinks]: "split_at c s = (a, r) \<Longrightarrow> length a \<le> length s"
  by (cases r) (auto simp: split_at_eq_Some split_at_eq_None)

lemma find_sub_Some:
  "find_sub n s = Some i \<Longrightarrow> i + length n \<le> length s \<and> take (length n) (drop i s) = n"
proof (induction s arbitrary: i)
  case Nil
  then show ?case by (auto split: if_splits)
next
  case (Cons x xs)
  show ?case
  proof (cases "prefix n (x # xs)")
    case True
    with Cons.prems have "i = 0" by simp
    with True show ?thesis by (metis add_0 drop0 prefix_def prefix_length_le append_eq_conv_conj)
  next
    case False
    with Cons.prems obtain j where "find_sub n xs = Some j" "i = Suc j" by auto
    with Cons.IH [of j] show ?thesis by simp
  qed
qed

lemma find_sub_advance [shrinks]:
  assumes "find_sub k (drop pos s) = Some i" "k \<noteq> []"
  shows "length s - (pos + i + length k) < length s - pos"
proof -
  have "i + length k \<le> length s - pos" using find_sub_Some [OF assms(1)] by simp
  moreover have "0 < length k" using assms(2) by simp
  ultimately show ?thesis by linarith
qed

lemma find_sub_first:
  "find_sub n s = Some i \<Longrightarrow> j < i \<Longrightarrow> \<not> prefix n (drop j s)"
proof (induction s arbitrary: i j)
  case Nil
  then show ?case by (auto split: if_splits)
next
  case (Cons x xs)
  then show ?case
    by (cases j) (auto split: if_splits)
qed

lemma find_sub_eqI:
  "prefix n (drop i s) \<Longrightarrow> i \<le> length s \<Longrightarrow> (\<And>j. j < i \<Longrightarrow> \<not> prefix n (drop j s)) \<Longrightarrow> find_sub n s = Some i"
proof (induction s arbitrary: i)
  case Nil
  then show ?case by simp
next
  case (Cons x xs)
  show ?case
  proof (cases i)
    case 0
    with Cons.prems(1) show ?thesis by simp
  next
    case (Suc k)
    have "find_sub n xs = Some k"
      using Cons.prems Suc Cons.prems(3) [of "Suc j" for j] by (intro Cons.IH) auto
    moreover have "\<not> prefix n (x # xs)" using Cons.prems(3) [of 0] Suc by simp
    ultimately show ?thesis using Suc by simp
  qed
qed

lemma find_sub_None: "find_sub n s = None \<longleftrightarrow> (\<forall>i \<le> length s. \<not> prefix n (drop i s))"
proof (induction s)
  case Nil
  then show ?case by simp
next
  case (Cons x xs)
  have "(\<forall>i \<le> Suc (length xs). P i) \<longleftrightarrow> P 0 \<and> (\<forall>i \<le> length xs. P (Suc i))" for P
    by (metis Suc_le_mono le0 not0_implies_Suc)
  from this [of "\<lambda>i. \<not> prefix n (drop i (x # xs))"] Cons.IH show ?case by simp
qed

text \<open>
  \<open>split_on c s\<close> is the loop that walks a view from one \<open>c\<close> to the next: the pieces
  between them, always at least one. \<open>join c ss\<close> puts the separator back.
\<close>

function split_on :: "char \<Rightarrow> string \<Rightarrow> string list" where
  "split_on c s = (case split_at c s of (a, None) \<Rightarrow> [a] | (a, Some r) \<Rightarrow> a # split_on c r)"
  by pat_completeness auto
termination
  by (relation "measure (\<lambda>(c, s). length s)") (auto dest: split_at_shrinks [OF sym])

declare split_on.simps [simp del]

fun join :: "string \<Rightarrow> string list \<Rightarrow> string" where
  "join sep [] = []"
| "join sep [s] = s"
| "join sep (s # t # ss) = s @ sep @ join sep (t # ss)"

text \<open>
  The loop \<^verbatim>\<open>while (!s.empty())\<close> over the pieces stops at an empty remainder, so a trailing separator
  adds no piece.
\<close>

definition list_elements :: "char \<Rightarrow> string \<Rightarrow> string list" where
  "list_elements c s = (let ps = split_on c s in if last ps = [] then butlast ps else ps)"

lemma split_on_notin: "c \<notin> set s \<Longrightarrow> split_on c s = [s]"
  by (simp add: split_on.simps [of c s])

lemma split_on_nonempty [simp]: "split_on c s \<noteq> []"
  by (subst split_on.simps) (auto split: prod.split option.split)

lemma split_on_append: "c \<notin> set a \<Longrightarrow> split_on c (a @ c # r) = a # split_on c r"
  by (simp add: split_on.simps [of c "a @ c # r"])

lemma split_on_join:
  "ss \<noteq> [] \<Longrightarrow> \<forall>s \<in> set ss. c \<notin> set s \<Longrightarrow> split_on c (join [c] ss) = ss"
  by (induction "[c]" ss rule: join.induct) (simp_all add: split_on_notin split_on_append)

lemma join_split_on: "join [c] (split_on c s) = s"
proof (induction c s rule: split_on.induct)
  case (1 c s)
  obtain a r where s: "split_at c s = (a, r)" by fastforce
  show ?case
  proof (cases r)
    case None
    with s show ?thesis by (simp add: split_on.simps [of c s] split_at_eq_None)
  next
    case (Some q)
    moreover obtain t ts where "split_on c q = t # ts"
      by (meson list.exhaust split_on_nonempty)
    ultimately show ?thesis using 1 s by (simp add: split_at_eq_Some split_on_append)
  qed
qed

lemma split_on_sep: "t \<in> set (split_on c s) \<Longrightarrow> c \<notin> set t \<and> set t \<subseteq> set s"
proof (induction c s rule: split_on.induct)
  case (1 c s)
  obtain a r where s: "split_at c s = (a, r)" by fastforce
  with 1 show ?case
    by (cases r) (auto simp: split_on.simps [of c s] split_at_eq_Some split_at_eq_None)
qed

lemma ltrim_Nil [simp]: "ltrim [] = []" and rtrim_Nil [simp]: "rtrim [] = []"
  by (simp_all add: ltrim_def rtrim_def)

lemma set_ltrim: "set (ltrim s) \<subseteq> set s" and set_rtrim: "set (rtrim s) \<subseteq> set s"
  by (auto simp: ltrim_def rtrim_def dest: set_dropWhileD)

lemma set_trim: "set (trim s) \<subseteq> set s"
  using set_ltrim [of s] set_rtrim [of "ltrim s"] by (auto simp: trim_def)

lemma length_ltrim [shrinks]: "length (ltrim s) \<le> length s"
  by (simp add: ltrim_def length_dropWhile_le)

lemma length_rtrim [shrinks]: "length (rtrim s) \<le> length s"
  by (simp add: rtrim_def) (metis length_dropWhile_le length_rev)

lemma length_trim [shrinks]: "length (trim s) \<le> length s"
  unfolding trim_def by (rule order_trans [OF length_rtrim length_ltrim])

section \<open>Integers as text\<close>

definition digit_char :: "nat \<Rightarrow> char" where
  "digit_char d = char_of (48 + d)"

definition digit_val :: "char \<Rightarrow> nat" where
  "digit_val c = byte_of c - 48"

definition hex_lower :: "nat \<Rightarrow> char" where
  "hex_lower n = ''0123456789abcdef'' ! n"

fun show_hex :: "nat \<Rightarrow> string" where
  "show_hex n = (if n < 16 then [hex_lower n] else show_hex (n div 16) @ [hex_lower (n mod 16)])"

declare show_hex.simps [simp del]

fun show_nat :: "nat \<Rightarrow> string" where
  "show_nat n = (if n < 10 then [digit_char n] else show_nat (n div 10) @ [digit_char (n mod 10)])"

definition show_int :: "int \<Rightarrow> string" where
  "show_int i = (if i < 0 then CHR ''-'' # show_nat (nat (- i)) else show_nat (nat i))"

definition dec_value :: "string \<Rightarrow> nat" where
  "dec_value s = foldl (\<lambda>acc c. 10 * acc + digit_val c) 0 s"

text \<open>
  \<^verbatim>\<open>std::from_chars(first, last, value)\<close> for an unsigned type with maximum \<open>m\<close>: the longest
  run of digits at the front, an error when there is none or the value is out of range. The result
  is the value and the text left over (\<^verbatim>\<open>ptr\<close> to \<^verbatim>\<open>last\<close>). A signed type also takes one
  leading minus sign.
\<close>

definition from_chars_unsigned :: "nat \<Rightarrow> string \<Rightarrow> (nat \<times> string) option" where
  "from_chars_unsigned m s =
     (let ds = takeWhile isdigit s; v = dec_value ds
      in if ds = [] \<or> v > m then None else Some (v, dropWhile isdigit s))"

definition from_chars_signed :: "int \<Rightarrow> int \<Rightarrow> string \<Rightarrow> (int \<times> string) option" where
  "from_chars_signed lo hi s =
     (let neg = (s \<noteq> [] \<and> hd s = CHR ''-''); t = (if neg then tl s else s);
          ds = takeWhile isdigit t; v = (if neg then - int (dec_value ds) else int (dec_value ds))
      in if ds = [] \<or> v < lo \<or> v > hi then None else Some (v, dropWhile isdigit t))"

declare show_nat.simps [simp del]

lemma isdigit_digit_char [simp]: "d < 10 \<Longrightarrow> isdigit (digit_char d)"
  by (simp add: isdigit_def digit_char_def)

lemma digit_val_digit_char [simp]: "d < 10 \<Longrightarrow> digit_val (digit_char d) = d"
  by (simp add: digit_val_def digit_char_def)

lemma show_nat_digits: "list_all isdigit (show_nat n)"
proof (induction n rule: show_nat.induct)
  case (1 n)
  then show ?case by (subst show_nat.simps) auto
qed

lemma show_nat_nonempty [simp]: "show_nat n \<noteq> []"
  by (subst show_nat.simps) simp

lemma dec_value_snoc: "dec_value (s @ [c]) = 10 * dec_value s + digit_val c"
  by (simp add: dec_value_def)

lemma dec_value_show_nat [simp]: "dec_value (show_nat n) = n"
proof (induction n rule: show_nat.induct)
  case (1 n)
  show ?case
  proof (cases "n < 10")
    case True
    then show ?thesis by (subst show_nat.simps) (simp add: dec_value_def)
  next
    case False
    with 1 have "dec_value (show_nat (n div 10)) = n div 10" by simp
    with False show ?thesis by (subst show_nat.simps) (simp add: dec_value_snoc)
  qed
qed

lemma takeWhile_show_nat:
  "(s = [] \<or> \<not> isdigit (hd s)) \<Longrightarrow> takeWhile isdigit (show_nat n @ s) = show_nat n"
  and dropWhile_show_nat:
  "(s = [] \<or> \<not> isdigit (hd s)) \<Longrightarrow> dropWhile isdigit (show_nat n @ s) = s"
  using show_nat_digits [of n]
  by (cases s; auto simp: takeWhile_append2 dropWhile_append2 list_all_iff)+

lemma from_chars_show_nat:
  "n \<le> m \<Longrightarrow> (s = [] \<or> \<not> isdigit (hd s)) \<Longrightarrow> from_chars_unsigned m (show_nat n @ s) = Some (n, s)"
  by (simp add: from_chars_unsigned_def takeWhile_show_nat dropWhile_show_nat Let_def)

section \<open>Case-insensitive maps\<close>

text \<open>
  \<^verbatim>\<open>utils::CaseInsensitiveEqual\<close>: equal lengths, then a byte by byte comparison of the lower-cased
  characters. A map keyed by it is an association list; \<^verbatim>\<open>headers[k] = v\<close> overwrites the value of
  an equal key (whose spelling stays) or adds an entry.
\<close>

definition iequals :: "string \<Rightarrow> string \<Rightarrow> bool" where
  "iequals a b \<longleftrightarrow> length a = length b \<and> list_all2 (\<lambda>x y. tolower x = tolower y) a b"

type_synonym headers = "(string \<times> string) list"

fun hdr_find :: "string \<Rightarrow> headers \<Rightarrow> string option" where
  "hdr_find k [] = None"
| "hdr_find k ((k', v) # hs) = (if iequals k' k then Some v else hdr_find k hs)"

fun hdr_set :: "string \<Rightarrow> string \<Rightarrow> headers \<Rightarrow> headers" where
  "hdr_set k v [] = [(k, v)]"
| "hdr_set k v ((k', v') # hs) =
     (if iequals k' k then (k', v) # hs else (k', v') # hdr_set k v hs)"

definition hdr_wf :: "headers \<Rightarrow> bool" where
  "hdr_wf hs \<longleftrightarrow> distinct (map (map tolower \<circ> fst) hs)"

lemma iequals_iff: "iequals a b \<longleftrightarrow> map tolower a = map tolower b"
proof -
  have "list_all2 (\<lambda>x y. tolower x = tolower y) a b \<longleftrightarrow> list_all2 (=) (map tolower a) (map tolower b)"
    by (simp add: list_all2_map1 list_all2_map2)
  then show ?thesis by (auto simp: iequals_def list.rel_eq list_all2_lengthD)
qed

lemma iequals_refl [simp]: "iequals a a"
  and iequals_sym: "iequals a b \<Longrightarrow> iequals b a"
  and iequals_trans: "iequals a b \<Longrightarrow> iequals b c \<Longrightarrow> iequals a c"
  by (simp_all add: iequals_iff)

lemma hdr_find_set [simp]:
  "hdr_find k (hdr_set k' v hs) = (if iequals k' k then Some v else hdr_find k hs)"
  by (induction hs) (auto simp: iequals_iff)

lemma hdr_find_iequals: "iequals k k' \<Longrightarrow> hdr_find k hs = hdr_find k' hs"
  by (induction hs) (auto simp: iequals_iff)

lemma hdr_set_keys:
  "set (map (map tolower \<circ> fst) (hdr_set k v hs)) =
   insert (map tolower k) (set (map (map tolower \<circ> fst) hs))"
proof (induction hs)
  case Nil
  then show ?case by simp
next
  case (Cons h hs)
  obtain k' v' where h: "h = (k', v')" by fastforce
  show ?case
  proof (cases "iequals k' k")
    case True
    with h show ?thesis by (simp add: iequals_iff)
  next
    case False
    with h Cons.IH show ?thesis by (simp add: insert_commute)
  qed
qed

lemma hdr_wf_set [simp]: "hdr_wf hs \<Longrightarrow> hdr_wf (hdr_set k v hs)"
proof (induction hs)
  case Nil
  then show ?case by (simp add: hdr_wf_def)
next
  case (Cons h hs)
  obtain k' v' where h: "h = (k', v')" by fastforce
  have tl: "hdr_wf hs" and nin: "map tolower k' \<notin> set (map (map tolower \<circ> fst) hs)"
    using Cons.prems h by (simp_all add: hdr_wf_def)
  show ?case
  proof (cases "iequals k' k")
    case True
    with Cons.prems h show ?thesis by (simp add: hdr_wf_def)
  next
    case False
    then have "map tolower k' \<notin> set (map (map tolower \<circ> fst) (hdr_set k v hs))"
      using nin by (simp only: hdr_set_keys) (simp add: iequals_iff)
    with Cons.IH [OF tl] h False show ?thesis by (simp add: hdr_wf_def)
  qed
qed

lemma hdr_wf_Nil [simp]: "hdr_wf []"
  by (simp add: hdr_wf_def)

lemma hdr_set_mem: "(a, b) \<in> set (hdr_set k v hs) \<Longrightarrow> b = v \<or> (a, b) \<in> set hs"
  by (induction hs) (auto split: if_splits)

lemma hdr_find_mem: "hdr_find k hs = Some v \<Longrightarrow> \<exists>k'. (k', v) \<in> set hs \<and> iequals k' k"
  by (induction hs) (auto split: if_splits)

section \<open>Plain maps\<close>

text \<open>Assigning a list of entries one after the other, as the decoders do: the last one wins.\<close>

fun put_all :: "('k \<rightharpoonup> 'v) \<Rightarrow> ('k \<times> 'v) list \<Rightarrow> ('k \<rightharpoonup> 'v)" where
  "put_all m [] = m"
| "put_all m ((k, v) # es) = put_all (m(k \<mapsto> v)) es"

lemma put_all_map_of: "put_all m es = m ++ map_of (rev es)"
proof (induction es arbitrary: m)
  case (Cons e es)
  obtain k v where "e = (k, v)" by fastforce
  moreover have "put_all (m(k \<mapsto> v)) es = m(k \<mapsto> v) ++ map_of (rev es)" by (rule Cons.IH)
  ultimately show ?case by simp
qed simp

end
