(* ===== verification/WebSocket_Frames.thy ===== *)
theory WebSocket_Frames
  imports Orbit_Prelude
begin

text \<open>
  The frame layer of \<^verbatim>\<open>src/http/WebSocketConnection.cpp\<close> (namespace \<^verbatim>\<open>detail\<close> and
  \<^verbatim>\<open>write_frame_locked\<close>): the RFC 6455 frame header as a record with the widths of the C++
  struct, the incremental header parser \<open>inspect_frame\<close>, the frame writer, masking, UTF-8
  validation and the close-code table. \<^verbatim>\<open>size_t\<close> lengths of buffers are \<open>nat\<close>; the
  payload length a peer announces is a \<open>64 word\<close>.

  The lemmas show that the writer and the parser agree, that the parser's verdict is stable when
  more bytes arrive, that unmasking is an involution and that the UTF-8 validator accepts
  exactly the encodings of sequences of Unicode scalar values.
\<close>

section \<open>Bytes as machine words\<close>

definition u8 :: "char \<Rightarrow> 8 word" where
  "u8 c = of_nat (byte_of c)"

definition chr8 :: "8 word \<Rightarrow> char" where
  "chr8 w = char_of (unat w)"

lemma u8_chr8 [simp]: "u8 (chr8 w) = w"
proof -
  have "unat w < 256" using unsigned_less [of w, where ?'a = nat] by simp
  then show ?thesis by (simp add: u8_def chr8_def)
qed

lemma chr8_u8 [simp]: "chr8 (u8 c) = c"
  using byte_of_less [of c] by (simp add: u8_def chr8_def unat_of_nat)

lemma u8_inj [simp]: "u8 a = u8 b \<longleftrightarrow> a = b"
  by (metis chr8_u8)

section \<open>Frame headers\<close>

record frame_header =
  fh_fin :: bool
  fh_opcode :: "8 word"
  fh_masked :: bool
  fh_payload_length :: "64 word"
  fh_mask_key :: "8 word list"
  fh_header_length :: nat

datatype frame_status = NeedHeader | NeedPayload | Complete | Invalid

text \<open>The opcodes of section 5.2.\<close>

definition kContinuation :: "8 word" where "kContinuation = 0x0"
definition kText :: "8 word" where "kText = 0x1"
definition kBinary :: "8 word" where "kBinary = 0x2"
definition kClose :: "8 word" where "kClose = 0x8"
definition kPing :: "8 word" where "kPing = 0x9"
definition kPong :: "8 word" where "kPong = 0xA"

lemmas opcode_defs = kContinuation_def kText_def kBinary_def kClose_def kPing_def kPong_def

text \<open>
  \<open>inspect_frame\<close> in the order of the source: the two fixed bytes, the extended length, the
  control-frame rule, the masking key and last the payload. The header is an in-out parameter, so
  an early return hands back what was filled in so far.
\<close>

definition inspect_rest :: "string \<Rightarrow> frame_header \<Rightarrow> frame_status \<times> frame_header" where
  "inspect_rest buffer h =
     (if fh_opcode h AND 0x08 \<noteq> 0 \<and> (fh_payload_length h > 125 \<or> \<not> fh_fin h) then (Invalid, h)
      else if fh_masked h \<and> length buffer < fh_header_length h + 4 then (NeedHeader, h)
      else
        let h' = (if fh_masked h
                  then h\<lparr>fh_mask_key := map u8 (take 4 (drop (fh_header_length h) buffer)),
                         fh_header_length := fh_header_length h + 4\<rparr>
                  else h)
        in if length buffer - fh_header_length h' < unat (fh_payload_length h')
           then (NeedPayload, h') else (Complete, h'))"

definition be_decode :: "string \<Rightarrow> 64 word" where
  "be_decode s = foldl (\<lambda>acc c. push_bit 8 acc OR ucast (u8 c)) 0 s"

definition inspect_frame :: "string \<Rightarrow> frame_header \<Rightarrow> frame_status \<times> frame_header" where
  "inspect_frame buffer header =
     (if length buffer < 2 then (NeedHeader, header)
      else
        let byte0 = u8 (buffer ! 0);
            byte1 = u8 (buffer ! 1);
            initial_len = byte1 AND 0x7F;
            h = header\<lparr>fh_fin := (byte0 AND 0x80 \<noteq> 0), fh_opcode := byte0 AND 0x0F,
                       fh_masked := (byte1 AND 0x80 \<noteq> 0),
                       fh_header_length := 2, fh_payload_length := ucast initial_len\<rparr>
        in if initial_len = 126 then
             (if length buffer < 4 then (NeedHeader, h)
              else inspect_rest buffer
                     (h\<lparr>fh_payload_length := be_decode (take 2 (drop 2 buffer)),
                        fh_header_length := fh_header_length h + 2\<rparr>))
           else if initial_len = 127 then
             (if length buffer < 10 then (NeedHeader, h)
              else
                let host_len = be_decode (take 8 (drop 2 buffer))
                in if host_len AND push_bit 63 1 \<noteq> 0 then (Invalid, h)
                   else inspect_rest buffer
                          (h\<lparr>fh_payload_length := host_len,
                             fh_header_length := fh_header_length h + 8\<rparr>))
           else inspect_rest buffer h)"

definition parse_frame_header :: "string \<Rightarrow> frame_header \<Rightarrow> bool \<times> frame_header" where
  "parse_frame_header buffer header =
     (case inspect_frame buffer header of (st, h) \<Rightarrow> (st = Complete, h))"

text \<open>The frame writer: one unmasked frame, its length in the shortest of the three forms.\<close>

definition len_byte :: "nat \<Rightarrow> nat \<Rightarrow> char" where
  "len_byte len i = chr8 (ucast (drop_bit (i * 8) (of_nat len :: 64 word) AND 0xFF))"

definition write_frame :: "8 word \<Rightarrow> string \<Rightarrow> string" where
  "write_frame first_byte payload =
     (let len = length payload in
      [chr8 first_byte] @
      (if len \<le> 125 then [chr8 (of_nat len)]
       else if len \<le> 65535 then [chr8 126, len_byte len 1, len_byte len 0]
       else chr8 127 # map (len_byte len) [7, 6, 5, 4, 3, 2, 1, 0])
      @ payload)"

definition unmask_payload :: "string \<Rightarrow> 8 word list \<Rightarrow> string" where
  "unmask_payload payload mask_key =
     map (\<lambda>i. chr8 (u8 (payload ! i) XOR mask_key ! (i mod 4))) [0..<length payload]"

definition is_valid_close_code :: "16 word \<Rightarrow> bool" where
  "is_valid_close_code code \<longleftrightarrow>
     (3000 \<le> code \<and> code \<le> 4999) \<or>
     code \<in> {1000, 1001, 1002, 1003, 1007, 1008, 1009, 1010, 1011}"

text \<open>
  \<open>is_valid_utf8\<close>: the loop over the view is a recursion over the rest of it. The code point is
  a \<^verbatim>\<open>uint32_t\<close> that never holds more than 21 bits, so the shifts do not overflow and it is a
  \<open>nat\<close>.
\<close>

definition utf8_lead :: "nat \<Rightarrow> (nat \<times> nat) option" where
  "utf8_lead c =
     (if 0xC2 \<le> c \<and> c \<le> 0xDF then Some (2, c AND 0x1F)
      else if 0xE0 \<le> c \<and> c \<le> 0xEF then Some (3, c AND 0x0F)
      else if 0xF0 \<le> c \<and> c \<le> 0xF4 then Some (4, c AND 0x07)
      else None)"

fun utf8_cont :: "nat \<Rightarrow> string \<Rightarrow> nat option" where
  "utf8_cont cp [] = Some cp"
| "utf8_cont cp (c # cs) =
     (if byte_of c AND 0xC0 \<noteq> 0x80 then None
      else utf8_cont (push_bit 6 cp OR (byte_of c AND 0x3F)) cs)"

definition utf8_range_ok :: "nat \<Rightarrow> nat \<Rightarrow> bool" where
  "utf8_range_ok len cp \<longleftrightarrow>
     \<not> ((len = 3 \<and> cp < 0x800) \<or> (len = 4 \<and> cp < 0x10000)) \<and>
     \<not> (cp > 0x10FFFF \<or> (0xD800 \<le> cp \<and> cp \<le> 0xDFFF))"

fun is_valid_utf8 :: "string \<Rightarrow> bool" where
  "is_valid_utf8 [] = True"
| "is_valid_utf8 (c # rest) =
     (if byte_of c < 0x80 then is_valid_utf8 rest
      else case utf8_lead (byte_of c) of
        None \<Rightarrow> False
      | Some (len, cp0) \<Rightarrow>
          if Suc (length rest) < len then False
          else case utf8_cont cp0 (take (len - 1) rest) of
            None \<Rightarrow> False
          | Some cp \<Rightarrow>
              if \<not> utf8_range_ok len cp then False
              else is_valid_utf8 (drop (len - 1) rest))"

section \<open>The parser's results\<close>

lemma be_decode_snoc: "be_decode (s @ [c]) = push_bit 8 (be_decode s) OR ucast (u8 c)"
  by (simp add: be_decode_def)

lemma inspect_rest_bounds:
  assumes "inspect_rest buffer h = (st, h')" and "fh_header_length h \<le> length buffer"
    and "2 \<le> fh_header_length h"
  shows "st = Complete \<Longrightarrow> 2 \<le> fh_header_length h' \<and>
           fh_header_length h' + unat (fh_payload_length h') \<le> length buffer"
    and "2 \<le> fh_header_length h' \<and> fh_header_length h' \<le> length buffer"
  using assms by (auto simp: inspect_rest_def Let_def split: if_splits)

lemma inspect_frame_bounds:
  assumes "inspect_frame buffer h = (Complete, h')"
  shows "2 \<le> fh_header_length h'"
    and "fh_header_length h' + unat (fh_payload_length h') \<le> length buffer"
proof -
  have "2 \<le> fh_header_length h' \<and>
    fh_header_length h' + unat (fh_payload_length h') \<le> length buffer"
    using assms unfolding inspect_frame_def Let_def
    by (auto split: if_splits dest!: inspect_rest_bounds(1))
  then show "2 \<le> fh_header_length h'"
    and "fh_header_length h' + unat (fh_payload_length h') \<le> length buffer" by auto
qed

section \<open>More bytes do not change a verdict\<close>

text \<open>
  \<open>extends\<close> compares two verdicts on a buffer and on a longer one: a missing header may turn
  into anything, a missing payload may become complete, and a final verdict stays.
\<close>

fun extends :: "frame_status \<times> frame_header \<Rightarrow> frame_status \<times> frame_header \<Rightarrow> bool" where
  "extends (NeedHeader, h) r = True"
| "extends (NeedPayload, h) (st, h') = (h' = h \<and> (st = NeedPayload \<or> st = Complete))"
| "extends (st, h) r = (r = (st, h))"

lemma inspect_rest_append:
  assumes "fh_header_length h \<le> length buffer"
  shows "extends (inspect_rest buffer h) (inspect_rest (buffer @ bytes) h)"
  using assms by (auto simp: inspect_rest_def Let_def)

lemma inspect_frame_append:
  "extends (inspect_frame buffer h) (inspect_frame (buffer @ bytes) h)"
  unfolding inspect_frame_def Let_def
  by (auto simp: nth_append intro!: inspect_rest_append)

section \<open>Writer and parser agree\<close>

lemma be_decode_acc:
  "foldl (\<lambda>acc c. push_bit 8 acc OR ucast (u8 c)) acc s = push_bit (8 * length s) acc OR be_decode s"
proof (induction s rule: rev_induct)
  case Nil
  then show ?case by (simp add: be_decode_def)
next
  case (snoc c s)
  then show ?case
    by (simp add: be_decode_snoc push_bit_or or.assoc push_bit_push_bit add.commute)
qed

lemma be_decode_Cons: "be_decode (c # s) = push_bit (8 * length s) (ucast (u8 c)) OR be_decode s"
  using be_decode_acc [of "ucast (u8 c)" s] by (simp add: be_decode_def)

lemma join_byte:
  fixes w :: "64 word"
  shows "push_bit n (ucast (ucast (drop_bit n w AND 0xFF) :: 8 word)) OR take_bit n w = take_bit (n + 8) w"
proof -
  have "(0xFF :: 64 word) = mask 8" by (simp add: mask_eq_exp_minus_1)
  show ?thesis unfolding \<open>0xFF = mask 8\<close>
    by (intro bit_word_eqI) (auto simp: bit_simps bit_mask_iff)
qed

lemma be_decode_len_bytes:
  "be_decode (map (len_byte n) (rev [0..<k])) = take_bit (8 * k) (of_nat n :: 64 word)"
proof (induction k)
  case 0
  then show ?case by (simp add: be_decode_def)
next
  case (Suc k)
  then show ?case
    using join_byte [of "8 * k" "of_nat n"]
    by (simp add: be_decode_Cons len_byte_def mult.commute add.commute)
qed

text \<open>The header the parser reads back from a written frame.\<close>

definition written_header :: "8 word \<Rightarrow> string \<Rightarrow> frame_header \<Rightarrow> frame_header" where
  "written_header b payload h =
     h\<lparr>fh_fin := (b AND 0x80 \<noteq> 0), fh_opcode := b AND 0x0F, fh_masked := False,
       fh_payload_length := of_nat (length payload),
       fh_header_length := length (write_frame b payload) - length payload\<rparr>"

lemma and_mask_of_nat:
  assumes "n < 128"
  shows "(of_nat n :: 8 word) AND 0x7F = of_nat n" and "(of_nat n :: 8 word) AND 0x80 = 0"
proof -
  have "(of_nat n :: 8 word) AND mask 7 = of_nat n"
    using assms by (simp flip: take_bit_eq_mask add: take_bit_of_nat take_bit_nat_eq_self)
  then show 1: "(of_nat n :: 8 word) AND 0x7F = of_nat n"
    by (simp add: mask_eq_exp_minus_1)
  have "(of_nat n :: 8 word) AND 0x80 = (of_nat n AND 0x7F) AND 0x80" using 1 by simp
  also have "\<dots> = of_nat n AND (0x7F AND 0x80)" by (simp only: and.assoc)
  finally show "(of_nat n :: 8 word) AND 0x80 = 0" by simp
qed

lemma rev_upt_2: "rev [0..<2] = [1, 0]" and rev_upt_8: "rev [0..<8] = [7, 6, 5, 4, 3, 2, 1, 0]"
  by code_simp+

lemma write_frame_small:
  "length p \<le> 125 \<Longrightarrow> write_frame b p = [chr8 b, chr8 (of_nat (length p))] @ p"
  by (simp add: write_frame_def)

lemma write_frame_medium:
  "125 < length p \<Longrightarrow> length p \<le> 65535 \<Longrightarrow>
   write_frame b p = [chr8 b, chr8 126] @ map (len_byte (length p)) (rev [0..<2]) @ p"
  by (simp add: write_frame_def Let_def rev_upt_2 rev_upt_8)

lemma write_frame_large:
  "65535 < length p \<Longrightarrow>
   write_frame b p = [chr8 b, chr8 127] @ map (len_byte (length p)) (rev [0..<8]) @ p"
  by (simp add: write_frame_def Let_def rev_upt_2 rev_upt_8)

lemma inspect_rest_unmasked:
  assumes "\<not> fh_masked h" and "fh_opcode h AND 0x08 = 0 \<or> fh_payload_length h \<le> 125 \<and> fh_fin h"
    and "length buffer = fh_header_length h + n" and "unat (fh_payload_length h) \<le> n"
  shows "inspect_rest buffer h = (Complete, h)"
  using assms by (auto simp: inspect_rest_def)

lemma len_word_small:
  assumes "n < 2 ^ 63"
  shows "unat (of_nat n :: 64 word) = n" and "(of_nat n :: 64 word) AND push_bit 63 1 = 0"
    and "of_nat n \<le> (125 :: 64 word) \<longleftrightarrow> n \<le> 125"
proof -
  show u: "unat (of_nat n :: 64 word) = n" using assms by (simp add: unat_of_nat)
  show "of_nat n \<le> (125 :: 64 word) \<longleftrightarrow> n \<le> 125" using u by (simp add: word_le_nat_alt)
  have "take_bit 63 (of_nat n :: 64 word) = of_nat n"
    using assms by (simp add: take_bit_of_nat take_bit_nat_eq_self)
  then have top: "\<not> bit (of_nat n :: 64 word) 63"
    by (metis bit_take_bit_iff less_irrefl)
  have one: "bit (push_bit 63 (1 :: 64 word)) k \<longleftrightarrow> k = 63" for k
    by (simp only: bit_push_bit_iff bit_1_iff possible_bit_word) (auto simp: len_of_numeral_defs)
  show "(of_nat n :: 64 word) AND push_bit 63 1 = 0"
    by (rule bit_word_eqI) (use top in \<open>simp only: bit_and_iff one bit_0_eq bot_apply bot_bool_def\<close>, blast)
qed

lemma inspect_write_frame:
  assumes "length p < 2 ^ 63" and "b AND 0x08 = 0 \<or> length p \<le> 125 \<and> b AND 0x80 \<noteq> 0"
  shows "inspect_frame (write_frame b p @ rest) h = (Complete, written_header b p h)"
proof -
  note w = len_word_small [OF assms(1)]
  have op: "(b AND 0x0F) AND 0x08 = b AND 0x08" by (simp add: and.assoc)
  consider "length p \<le> 125" | "125 < length p" "length p \<le> 65535" | "65535 < length p" by linarith
  then show ?thesis
  proof cases
    case 1
    have len: "unat (of_nat (length p) :: 8 word) = length p" using 1 by (simp add: unat_of_nat)
    have "(of_nat (length p) :: 8 word) \<noteq> 126" "(of_nat (length p) :: 8 word) \<noteq> 127"
      using len 1 by auto
    moreover have "(ucast (of_nat (length p) :: 8 word) :: 64 word) = of_nat (length p)"
      using len by (simp add: unsigned_of_nat)
    ultimately show ?thesis
      using 1 w assms(2) op
      by (simp add: inspect_frame_def write_frame_small and_mask_of_nat written_header_def
          inspect_rest_unmasked)
  next
    case 2
    let ?l = "map (len_byte (length p)) (rev [0..<2])"
    have dec: "be_decode ?l = of_nat (length p)"
      using 2 by (simp add: be_decode_len_bytes take_bit_of_nat take_bit_nat_eq_self)
    then show ?thesis
      using 2 w assms(2) op
      by (simp add: inspect_frame_def write_frame_medium written_header_def inspect_rest_unmasked)
  next
    case 3
    let ?l = "map (len_byte (length p)) (rev [0..<8])"
    have dec: "be_decode ?l = of_nat (length p)"
      using assms(1) by (simp add: be_decode_len_bytes take_bit_of_nat take_bit_nat_eq_self)
    then show ?thesis
      using 3 w assms(2) op
      by (simp add: inspect_frame_def write_frame_large written_header_def inspect_rest_unmasked)
  qed
qed

section \<open>Masking\<close>

lemma length_unmask [simp]: "length (unmask_payload p k) = length p"
  by (simp add: unmask_payload_def)

lemma unmask_unmask: "unmask_payload (unmask_payload p k) k = p"
  by (rule nth_equalityI) (simp_all add: unmask_payload_def xor.assoc)

section \<open>UTF-8\<close>

text \<open>The reference: RFC 3629, section 3, as an encoder of scalar values.\<close>

definition is_scalar :: "nat \<Rightarrow> bool" where
  "is_scalar cp \<longleftrightarrow> cp \<le> 0x10FFFF \<and> \<not> (0xD800 \<le> cp \<and> cp \<le> 0xDFFF)"

definition utf8_encode :: "nat \<Rightarrow> string" where
  "utf8_encode cp = map char_of
     (if cp < 0x80 then [cp]
      else if cp < 0x800 then [0xC0 + cp div 64, 0x80 + cp mod 64]
      else if cp < 0x10000 then [0xE0 + cp div 4096, 0x80 + cp div 64 mod 64, 0x80 + cp mod 64]
      else [0xF0 + cp div 262144, 0x80 + cp div 4096 mod 64, 0x80 + cp div 64 mod 64, 0x80 + cp mod 64])"

lemma nat_and_mask:
  fixes n :: nat
  shows "n AND 0x3F = n mod 64" and "n AND 0x1F = n mod 32" and "n AND 0x0F = n mod 16"
    and "n AND 0x07 = n mod 8"
proof -
  have m: "n AND mask k = n mod 2 ^ k" for k
    by (simp flip: take_bit_eq_mask add: take_bit_eq_mod)
  from m [of 6] m [of 5] m [of 4] m [of 3] show "n AND 0x3F = n mod 64" and "n AND 0x1F = n mod 32"
    and "n AND 0x0F = n mod 16" and "n AND 0x07 = n mod 8"
    by (simp_all add: mask_eq_exp_minus_1)
qed

lemma nat_and_mask3: "(n :: nat) AND 3 = n mod 4"
proof -
  have "n AND mask 2 = n mod 2 ^ 2" by (simp flip: take_bit_eq_mask add: take_bit_eq_mod)
  then show ?thesis by (simp add: mask_eq_exp_minus_1)
qed

lemma shift_or_low:
  fixes a b :: nat
  assumes "b < 64"
  shows "push_bit 6 a OR b = a * 64 + b"
proof -
  have "b = take_bit 6 b" using assms by (simp add: take_bit_nat_eq_self)
  then have "\<not> bit (push_bit 6 a) n \<or> \<not> bit b n" for n
    by (metis bit_push_bit_iff bit_take_bit_iff not_le)
  then have "push_bit 6 a + b = push_bit 6 a OR b" by (rule disjunctive_add)
  then show ?thesis by (simp add: push_bit_eq_mult)
qed

lemma and_push_bit: "b AND push_bit k c = push_bit k (drop_bit k b AND c)" for b c :: nat
  by (rule bit_eqI) (simp add: bit_and_iff bit_push_bit_iff bit_drop_bit_eq, metis le_add_diff_inverse)

lemma cont_byte_iff:
  assumes "b < 256"
  shows "b AND 0xC0 = (0x80 :: nat) \<longleftrightarrow> 0x80 \<le> b \<and> b < 0xC0"
proof -
  have "b AND push_bit 6 3 = push_bit 6 (drop_bit 6 b AND 3)" by (rule and_push_bit)
  moreover have "drop_bit 6 b AND 3 = b div 64"
    using assms nat_and_mask3 [of "b div 64"] by (simp add: drop_bit_eq_div)
  ultimately have e: "b AND 0xC0 = 64 * (b div 64)" by (simp add: push_bit_eq_mult)
  have "b div 64 = 2 \<longleftrightarrow> 0x80 \<le> b \<and> b < 0xC0"
    using div_nat_eqI [of 64 2 b] by auto
  then show ?thesis unfolding e by simp
qed

text \<open>What the validator does with the encoding of one scalar value, by the four lengths.\<close>

lemma mod_low: "m < k \<Longrightarrow> (a * k + m) mod k = m" for a k m :: nat
  by simp

lemma utf8_cont_step:
  "utf8_cont cp (char_of (0x80 + m) # cs) = utf8_cont (cp * 64 + m) cs" if "m < 64"
proof -
  have "(0x80 + m) mod 64 = m" using mod_low [OF that, of 2] by simp
  with that show ?thesis by (simp add: cont_byte_iff nat_and_mask shift_or_low)
qed

lemma base64_digits:
  fixes n :: nat
  shows "n div 64 * 64 + n mod 64 = n"
    and "(n div 4096 * 64 + n div 64 mod 64) * 64 + n mod 64 = n"
    and "((n div 262144 * 64 + n div 4096 mod 64) * 64 + n div 64 mod 64) * 64 + n mod 64 = n"
proof -
  have d: "n div 4096 = n div 64 div 64" "n div 262144 = n div 64 div 64 div 64"
    by (simp_all flip: div_mult2_eq)
  show "n div 64 * 64 + n mod 64 = n"
    and "(n div 4096 * 64 + n div 64 mod 64) * 64 + n mod 64 = n"
    and "((n div 262144 * 64 + n div 4096 mod 64) * 64 + n div 64 mod 64) * 64 + n mod 64 = n"
    by (simp_all only: d div_mult_mod_eq)
qed

declare utf8_cont.simps(2) [simp del]

lemma is_valid_utf8_multi:
  assumes "utf8_lead (byte_of c) = Some (Suc (length cs), cp0)" and "utf8_cont cp0 cs = Some cp"
  shows "is_valid_utf8 (c # cs @ s) = (utf8_range_ok (Suc (length cs)) cp \<and> is_valid_utf8 s)"
proof -
  have "\<not> byte_of c < 0x80" using assms(1) by (auto simp: utf8_lead_def split: if_splits)
  with assms show ?thesis by simp
qed

lemma utf8_lead_encode:
  "2 \<le> m \<Longrightarrow> m < 32 \<Longrightarrow> utf8_lead (0xC0 + m) = Some (2, m)"
  "m < 16 \<Longrightarrow> utf8_lead (0xE0 + m) = Some (3, m)"
  "m < 5 \<Longrightarrow> utf8_lead (0xF0 + m) = Some (4, m)"
proof -
  have "m < 32 \<Longrightarrow> (0xC0 + m) mod 32 = m" "m < 16 \<Longrightarrow> (0xE0 + m) mod 16 = m"
    "m < 5 \<Longrightarrow> (0xF0 + m) mod 8 = m"
    using mod_low [of m 32 6] mod_low [of m 16 14] mod_low [of m 8 30] by simp_all
  then show "2 \<le> m \<Longrightarrow> m < 32 \<Longrightarrow> utf8_lead (0xC0 + m) = Some (2, m)"
    and "m < 16 \<Longrightarrow> utf8_lead (0xE0 + m) = Some (3, m)"
    and "m < 5 \<Longrightarrow> utf8_lead (0xF0 + m) = Some (4, m)"
    by (simp_all add: utf8_lead_def nat_and_mask)
qed

lemma is_valid_utf8_encode:
  assumes "is_scalar cp"
  shows "is_valid_utf8 (utf8_encode cp @ s) = is_valid_utf8 s"
proof -
  consider "cp < 0x80" | "0x80 \<le> cp" "cp < 0x800" | "0x800 \<le> cp" "cp < 0x10000"
    | "0x10000 \<le> cp" "cp \<le> 0x10FFFF"
    using assms unfolding is_scalar_def by linarith
  then show ?thesis
  proof cases
    case 1
    then show ?thesis by (simp add: utf8_encode_def)
  next
    case 2
    let ?cs = "[char_of (0x80 + cp mod 64)]"
    have l: "2 \<le> cp div 64" "cp div 64 < 32" using 2 by linarith+
    then have "is_valid_utf8 (char_of (0xC0 + cp div 64) # ?cs @ s) =
        (utf8_range_ok (Suc (length ?cs)) cp \<and> is_valid_utf8 s)"
      by (intro is_valid_utf8_multi)
        (simp add: utf8_lead_encode, simp only: utf8_cont_step mod_less_divisor zero_less_numeral
          utf8_cont.simps(1) base64_digits)
    with 2 assms show ?thesis by (simp add: utf8_encode_def utf8_range_ok_def is_scalar_def)
  next
    case 3
    let ?cs = "[char_of (0x80 + cp div 64 mod 64), char_of (0x80 + cp mod 64)]"
    have l: "cp div 4096 < 16" using 3 by linarith
    then have "is_valid_utf8 (char_of (0xE0 + cp div 4096) # ?cs @ s) =
        (utf8_range_ok (Suc (length ?cs)) cp \<and> is_valid_utf8 s)"
      by (intro is_valid_utf8_multi)
        (simp add: utf8_lead_encode, simp only: utf8_cont_step mod_less_divisor zero_less_numeral
          utf8_cont.simps(1) base64_digits)
    with 3 assms show ?thesis by (simp add: utf8_encode_def utf8_range_ok_def is_scalar_def)
  next
    case 4
    let ?cs = "[char_of (0x80 + cp div 4096 mod 64), char_of (0x80 + cp div 64 mod 64),
                char_of (0x80 + cp mod 64)]"
    have l: "cp div 262144 < 5" using 4 by linarith
    then have "is_valid_utf8 (char_of (0xF0 + cp div 262144) # ?cs @ s) =
        (utf8_range_ok (Suc (length ?cs)) cp \<and> is_valid_utf8 s)"
      by (intro is_valid_utf8_multi)
        (simp add: utf8_lead_encode, simp only: utf8_cont_step mod_less_divisor zero_less_numeral
          utf8_cont.simps(1) base64_digits)
    with 4 assms show ?thesis by (simp add: utf8_encode_def utf8_range_ok_def is_scalar_def)
  qed
qed

text \<open>Conversely, whatever the validator reads as one character is an encoding.\<close>

lemma utf8_cont_ConsD:
  assumes "utf8_cont cp (c # cs) = Some r"
  obtains m where "m < 64" and "c = char_of (0x80 + m)" and "utf8_cont (cp * 64 + m) cs = Some r"
proof -
  have b: "0x80 \<le> byte_of c" "byte_of c < 0xC0"
    using assms byte_of_less [of c] by (auto simp: utf8_cont.simps cont_byte_iff split: if_splits)
  define m where "m = byte_of c - 0x80"
  have m: "m < 64" "byte_of c = 0x80 + m" using b by (auto simp: m_def)
  then have "c = char_of (0x80 + m)" by (metis char_of_byte_of)
  with that [OF m(1)] assms m(1) show thesis by (simp add: utf8_cont_step)
qed

lemma utf8_lead_SomeD:
  assumes "utf8_lead (byte_of c) = Some (len, m)"
  shows "len = 2 \<and> 2 \<le> m \<and> m < 32 \<and> c = char_of (0xC0 + m) \<or>
         len = 3 \<and> m < 16 \<and> c = char_of (0xE0 + m) \<or>
         len = 4 \<and> m < 5 \<and> c = char_of (0xF0 + m)"
proof -
  let ?b = "byte_of c"
  consider "0xC2 \<le> ?b" "?b \<le> 0xDF" | "0xE0 \<le> ?b" "?b \<le> 0xEF" | "0xF0 \<le> ?b" "?b \<le> 0xF4"
    using assms by (auto simp: utf8_lead_def split: if_splits)
  then show ?thesis
  proof cases
    case 1
    define k where "k = ?b - 0xC0"
    have k: "?b = 0xC0 + k" "2 \<le> k" "k < 32" using 1 by (auto simp: k_def)
    with assms utf8_lead_encode(1) [of k] show ?thesis by (metis char_of_byte_of option.inject prod.inject)
  next
    case 2
    define k where "k = ?b - 0xE0"
    have k: "?b = 0xE0 + k" "k < 16" using 2 by (auto simp: k_def)
    with assms utf8_lead_encode(2) [of k] show ?thesis by (metis char_of_byte_of option.inject prod.inject)
  next
    case 3
    define k where "k = ?b - 0xF0"
    have k: "?b = 0xF0 + k" "k < 5" using 3 by (auto simp: k_def)
    with assms utf8_lead_encode(3) [of k] show ?thesis by (metis char_of_byte_of option.inject prod.inject)
  qed
qed

lemma utf8_step_encodes:
  assumes "utf8_lead (byte_of c) = Some (Suc (length cs), cp0)" and "utf8_cont cp0 cs = Some cp"
    and "utf8_range_ok (Suc (length cs)) cp"
  shows "is_scalar cp" and "c # cs = utf8_encode cp"
proof -
  show "is_scalar cp" using assms(3) by (auto simp: utf8_range_ok_def is_scalar_def)
  have d: "(a * 64 + m) div 64 = a" "(a * 64 + m) mod 64 = m"
    "(a * 64 + m) div 4096 = a div 64" "(a * 64 + m) div 262144 = a div 4096" if "m < 64" for a m :: nat
    using that div_mult2_eq [of "a * 64 + m" 64 64] div_mult2_eq [of "a * 64 + m" 64 4096] by simp_all
  from utf8_lead_SomeD [OF assms(1)] consider
      (two) "length cs = 1" "2 \<le> cp0" "cp0 < 32" "c = char_of (0xC0 + cp0)"
    | (three) "length cs = 2" "cp0 < 16" "c = char_of (0xE0 + cp0)"
    | (four) "length cs = 3" "cp0 < 5" "c = char_of (0xF0 + cp0)" by auto
  then show "c # cs = utf8_encode cp"
  proof cases
    case two
    then obtain x where cs: "cs = [x]" by (auto simp: length_Suc_conv)
    from utf8_cont_ConsD [OF assms(2) [unfolded cs]] obtain m
      where "m < 64" "x = char_of (0x80 + m)" "cp = cp0 * 64 + m" by auto
    with two cs show ?thesis by (simp add: utf8_encode_def d)
  next
    case three
    then obtain x y where cs: "cs = [x, y]" by (auto simp: length_Suc_conv numeral_2_eq_2)
    from utf8_cont_ConsD [OF assms(2) [unfolded cs]] obtain m
      where m: "m < 64" "x = char_of (0x80 + m)" and c: "utf8_cont (cp0 * 64 + m) [y] = Some cp" by auto
    from utf8_cont_ConsD [OF c] obtain n
      where n: "n < 64" "y = char_of (0x80 + n)" "cp = (cp0 * 64 + m) * 64 + n" by auto
    have lo: "0x800 \<le> cp" using assms(3) three by (auto simp: utf8_range_ok_def)
    have hi: "cp < 0x10000" using three(2) m(1) n(1) unfolding n(3) by (simp add: algebra_simps)
    have "cp div 4096 = cp0" "cp div 64 mod 64 = m" "cp mod 64 = n"
      by (simp_all only: n(3) d [OF n(1)] d [OF m(1)])
    with lo hi three cs m(2) n(2) show ?thesis by (simp add: utf8_encode_def)
  next
    case four
    then obtain x y z where cs: "cs = [x, y, z]" by (auto simp: length_Suc_conv numeral_3_eq_3)
    from utf8_cont_ConsD [OF assms(2) [unfolded cs]] obtain m
      where m: "m < 64" "x = char_of (0x80 + m)" and c: "utf8_cont (cp0 * 64 + m) [y, z] = Some cp" by auto
    from utf8_cont_ConsD [OF c] obtain n
      where n: "n < 64" "y = char_of (0x80 + n)"
        and e: "utf8_cont ((cp0 * 64 + m) * 64 + n) [z] = Some cp" by auto
    from utf8_cont_ConsD [OF e] obtain l
      where l: "l < 64" "z = char_of (0x80 + l)" "cp = ((cp0 * 64 + m) * 64 + n) * 64 + l" by auto
    have lo: "0x10000 \<le> cp" using assms(3) four by (auto simp: utf8_range_ok_def)
    have "cp div 262144 = cp0" "cp div 4096 mod 64 = m" "cp div 64 mod 64 = n" "cp mod 64 = l"
      by (simp_all only: l(3) d [OF l(1)] d [OF n(1)] d [OF m(1)])
    with lo four cs m(2) n(2) l(2) show ?thesis by (simp add: utf8_encode_def)
  qed
qed

lemma is_valid_utf8_decodes:
  "is_valid_utf8 s \<Longrightarrow> \<exists>cps. list_all is_scalar cps \<and> s = concat (map utf8_encode cps)"
proof (induction s rule: is_valid_utf8.induct)
  case 1
  then show ?case by (intro exI [of _ "[]"]) simp
next
  case (2 c rest)
  show ?case
  proof (cases "byte_of c < 0x80")
    case True
    with 2 obtain cps where cps: "list_all is_scalar cps" "rest = concat (map utf8_encode cps)" by auto
    have "utf8_encode (byte_of c) = [c]" "is_scalar (byte_of c)"
      using True by (simp_all add: utf8_encode_def is_scalar_def)
    with cps show ?thesis by (intro exI [of _ "byte_of c # cps"]) simp
  next
    case False
    with "2.prems" obtain len cp0 cp where l: "utf8_lead (byte_of c) = Some (len, cp0)"
      "len \<le> Suc (length rest)" "utf8_cont cp0 (take (len - 1) rest) = Some cp"
      "utf8_range_ok len cp" "is_valid_utf8 (drop (len - 1) rest)"
      by (auto split: option.splits prod.splits if_splits)
    with 2 False obtain cps where cps: "list_all is_scalar cps"
      "drop (len - 1) rest = concat (map utf8_encode cps)" by fastforce
    have len: "len = Suc (length (take (len - 1) rest))"
      using l(1,2) utf8_lead_SomeD [OF l(1)] by auto
    have "is_scalar cp" "c # take (len - 1) rest = utf8_encode cp"
      using utf8_step_encodes [of c "take (len - 1) rest" cp0 cp] l len by metis+
    with cps show ?thesis
      by (intro exI [of _ "cp # cps"]) (simp, metis append_Cons append_take_drop_id)
  qed
qed

lemma is_valid_utf8_concat:
  "list_all is_scalar cps \<Longrightarrow> is_valid_utf8 (concat (map utf8_encode cps))"
  by (induction cps) (simp_all add: is_valid_utf8_encode)

section \<open>Frames from a client\<close>

text \<open>The reference for the other direction: a masked frame as RFC 6455, section 5.2, lays it out.\<close>

definition client_frame :: "8 word \<Rightarrow> 8 word list \<Rightarrow> string \<Rightarrow> string" where
  "client_frame b key p =
     [chr8 b] @
     (if length p \<le> 125 then [chr8 (0x80 OR of_nat (length p))]
      else if length p \<le> 65535 then chr8 254 # map (len_byte (length p)) (rev [0..<2])
      else chr8 255 # map (len_byte (length p)) (rev [0..<8]))
     @ map chr8 key @ unmask_payload p key"

definition client_header :: "8 word \<Rightarrow> 8 word list \<Rightarrow> string \<Rightarrow> frame_header \<Rightarrow> frame_header" where
  "client_header b key p h =
     h\<lparr>fh_fin := (b AND 0x80 \<noteq> 0), fh_opcode := b AND 0x0F, fh_masked := True,
       fh_payload_length := of_nat (length p), fh_mask_key := key,
       fh_header_length := length (client_frame b key p) - length p\<rparr>"

lemma or_mask_of_nat:
  assumes "n \<le> 125"
  shows "(0x80 OR (of_nat n :: 8 word)) AND 0x7F = of_nat n"
    and "(0x80 OR (of_nat n :: 8 word)) AND 0x80 \<noteq> 0"
  using assms and_mask_of_nat [of n] by (simp_all add: bit.conj_disj_distrib2)

lemma inspect_rest_masked:
  assumes "fh_masked h" and "fh_opcode h AND 0x08 = 0 \<or> fh_payload_length h \<le> 125 \<and> fh_fin h"
    and "buffer = pre @ map chr8 key @ body" and "fh_header_length h = length pre"
    and "length key = 4" and "unat (fh_payload_length h) \<le> length body"
  shows "inspect_rest buffer h =
           (Complete, h\<lparr>fh_mask_key := key, fh_header_length := length pre + 4\<rparr>)"
  using assms by (auto simp: inspect_rest_def Let_def comp_def)

lemma inspect_client_frame:
  assumes "length p < 2 ^ 63" and "b AND 0x08 = 0 \<or> length p \<le> 125 \<and> b AND 0x80 \<noteq> 0"
    and key: "length key = 4"
  shows "inspect_frame (client_frame b key p @ rest) h = (Complete, client_header b key p h)"
proof -
  note w = len_word_small [OF assms(1)]
  have op: "(b AND 0x0F) AND 0x08 = b AND 0x08" by (simp add: and.assoc)
  let ?body = "unmask_payload p key @ rest"
  consider "length p \<le> 125" | "125 < length p" "length p \<le> 65535" | "65535 < length p" by linarith
  then show ?thesis
  proof cases
    case 1
    have len: "unat (of_nat (length p) :: 8 word) = length p" using 1 by (simp add: unat_of_nat)
    have "(of_nat (length p) :: 8 word) \<noteq> 126" "(of_nat (length p) :: 8 word) \<noteq> 127"
      using len 1 by auto
    moreover have "(ucast (of_nat (length p) :: 8 word) :: 64 word) = of_nat (length p)"
      using len by (simp add: unsigned_of_nat)
    ultimately show ?thesis
      using 1 w assms(2) op key
      by (simp add: inspect_frame_def client_frame_def or_mask_of_nat client_header_def
          inspect_rest_masked [where pre = "[chr8 b, chr8 (0x80 OR of_nat (length p))]" and body = ?body])
  next
    case 2
    let ?l = "map (len_byte (length p)) (rev [0..<2])"
    have dec: "be_decode ?l = of_nat (length p)"
      using 2 by (simp add: be_decode_len_bytes take_bit_of_nat take_bit_nat_eq_self)
    then show ?thesis
      using 2 w assms(2) op key
      by (simp add: inspect_frame_def client_frame_def client_header_def
          inspect_rest_masked [where pre = "[chr8 b, chr8 254] @ ?l" and body = ?body])
  next
    case 3
    let ?l = "map (len_byte (length p)) (rev [0..<8])"
    have dec: "be_decode ?l = of_nat (length p)"
      using assms(1) by (simp add: be_decode_len_bytes take_bit_of_nat take_bit_nat_eq_self)
    then show ?thesis
      using 3 w assms(2) op key
      by (simp add: inspect_frame_def client_frame_def client_header_def
          inspect_rest_masked [where pre = "[chr8 b, chr8 255] @ ?l" and body = ?body])
  qed
qed

section \<open>Properties\<close>

text \<open>
  Every frame the server writes is read back by the frame parser, at every payload length and
  in each of the three length encodings: the parser reports a complete frame with the FIN bit,
  opcode and length that were written, and the payload is what follows the header it measured.
\<close>

theorem ws_frame_roundtrip:
  assumes "length p < 2 ^ 63" and "b AND 0x08 = 0 \<or> length p \<le> 125 \<and> b AND 0x80 \<noteq> 0"
  shows "\<exists>h. inspect_frame (write_frame b p @ rest) h0 = (Complete, h) \<and>
             fh_fin h = (b AND 0x80 \<noteq> 0) \<and> fh_opcode h = b AND 0x0F \<and> \<not> fh_masked h \<and>
             take (unat (fh_payload_length h)) (drop (fh_header_length h) (write_frame b p @ rest)) = p"
proof -
  have "drop (length (write_frame b p) - length p) (write_frame b p) = p"
    by (simp add: write_frame_def Let_def)
  moreover have "unat (of_nat (length p) :: 64 word) = length p" by (rule len_word_small [OF assms(1)])
  moreover have "length p \<le> length (write_frame b p)" by (simp add: write_frame_def Let_def)
  ultimately show ?thesis
    using inspect_write_frame [OF assms, of rest h0] by (simp add: written_header_def)
qed

theorem ws_frame_roundtrip_witness:
  "\<exists>h. inspect_frame (write_frame 0x81 (replicate 300 (CHR ''x'')) @ ''tail'')
        \<lparr>fh_fin = False, fh_opcode = 0, fh_masked = False, fh_payload_length = 0, fh_mask_key = [],
         fh_header_length = 0\<rparr> = (Complete, h) \<and> fh_opcode h = 1"
  using ws_frame_roundtrip [of "replicate 300 (CHR ''x'')" "0x81" "''tail''"
      "\<lparr>fh_fin = False, fh_opcode = 0, fh_masked = False, fh_payload_length = 0, fh_mask_key = [],
        fh_header_length = 0\<rparr>"]
  by auto

text \<open>
  C38: The UTF-8 validator accepts exactly the strings that are a sequence of Unicode scalar values
  in their RFC 3629 encoding: no overlong form, no surrogate, nothing above U+10FFFF, no truncated
  sequence.
\<close>

theorem utf8_validator_exact:
  "is_valid_utf8 s \<longleftrightarrow> (\<exists>cps. list_all is_scalar cps \<and> s = concat (map utf8_encode cps))"
  using is_valid_utf8_decodes is_valid_utf8_concat by blast

end
