(* ===== verification/WebSocket_Session.thy ===== *)
theory WebSocket_Session
  imports WebSocket_Frames
begin

text \<open>
  The class \<^verbatim>\<open>WebSocketConnection\<close> of \<^verbatim>\<open>src/http/WebSocketConnection.cpp\<close>: its fields as a
  record, one definition per member function, and the receive loop \<open>process_raw_data\<close>.

  \<^item> What leaves the object is kept in the state: the frames handed to \<^verbatim>\<open>transport_.write\<close>, the
    calls of \<^verbatim>\<open>transport_.close\<close> and the calls of the application's handlers, in order. The
    calls of \<^verbatim>\<open>set_max_message_size\<close> stand among the latter, so that the trace says which limit
    was in force at every delivery.
  \<^item> The application's message handlers are part of the environment: a handler maps the message
    to the calls it makes on the connection (\<open>ws_op\<close>). What a close handler calls on the
    connection sends nothing, because it runs when the connection is closed (lemma
    \<open>run_op_closed\<close>), and a limit it sets meets no further message, so only the fact that it runs
    is kept.
  \<^item> zlib is a parameter: \<open>z_inflate input k\<close> is the result of the \<open>k\<close>-th call of
    \<^verbatim>\<open>inflate\<close> on the message (whether it failed, and the output block of at most 16384 bytes), and
    \<open>z_deflate\<close> is the whole output of the compression loop (\<open>None\<close> for a stream error).
  \<^item> The mutex serialises the member functions; a run is a sequence of them.
\<close>

section \<open>State and environment\<close>

text \<open>
  The member functions an application calls. A limit on the message size is taken below
  \<open>2 ^ 63\<close>: no \<^verbatim>\<open>std::vector<char>\<close> holds more, and the sum of a buffer's size and a
  frame's length, computed in 64 bits, does not wrap below it.
\<close>

datatype ws_op = OpSend string | OpSendBinary string | OpPing | OpClose "16 word"
  | OpSetMaxSize "63 word"

text \<open>
  A handler call: which handler ran, and for a message the opcode it arrived under; or a call of
  \<^verbatim>\<open>set_max_message_size\<close>.
\<close>

datatype ws_event = OnMessage "8 word" string | OnBinary string | OnClose | LimitSet "64 word"

record ws_conn =
  ws_written :: "string list"
  ws_transport_closes :: nat
  ws_events :: "ws_event list"
  is_closed :: bool
  max_message_size :: "64 word"
  fragment_opcode :: "8 word"
  fragment_compressed :: bool
  fragment_payload :: string
  deflate_enabled :: bool

record ws_env =
  message_handler :: "(string \<Rightarrow> ws_op list) option"
  binary_handler :: "(string \<Rightarrow> ws_op list) option"
  close_handler :: bool
  z_inflate :: "string \<Rightarrow> nat \<Rightarrow> bool \<times> string"
  z_deflate :: "string \<Rightarrow> string option"

definition ws_init :: "bool \<Rightarrow> ws_conn" where
  "ws_init enable_deflate =
     \<lparr>ws_written = [], ws_transport_closes = 0, ws_events = [], is_closed = False,
      max_message_size = 16 * 1024 * 1024, fragment_opcode = 0, fragment_compressed = False,
      fragment_payload = [], deflate_enabled = enable_deflate\<rparr>"

definition set_max_message_size :: "64 word \<Rightarrow> ws_conn \<Rightarrow> ws_conn" where
  "set_max_message_size bytes c =
     c\<lparr>max_message_size := bytes, ws_events := ws_events c @ [LimitSet bytes]\<rparr>"

section \<open>Compression\<close>

definition sync_trailer :: string where
  "sync_trailer = [CHR 0x00, CHR 0x00, CHR 0xFF, CHR 0xFF]"

definition deflate_payload :: "ws_env \<Rightarrow> string \<Rightarrow> string" where
  "deflate_payload env payload =
     (case z_deflate env payload of
        None \<Rightarrow> payload
      | Some out \<Rightarrow>
          if length out \<ge> 4 \<and> drop (length out - 4) out = sync_trailer
          then take (length out - 4) out else out)"

text \<open>The loop of \<open>inflate_payload\<close>: it goes on as long as the output block came back full.\<close>

function inflate_loop :: "(nat \<Rightarrow> bool \<times> string) \<Rightarrow> nat \<Rightarrow> nat \<Rightarrow> string \<Rightarrow> string option" where
  "inflate_loop call max_size k out =
     (case call k of (err, block) \<Rightarrow>
        if err then None
        else if length out + length block > max_size then None
        else if length block = 16384 then inflate_loop call max_size (Suc k) (out @ block)
        else Some (out @ block))"
  by pat_completeness auto
termination
  by (relation "measure (\<lambda>(call, max_size, k, out). Suc max_size - length out)") auto

definition inflate_payload :: "ws_env \<Rightarrow> 64 word \<Rightarrow> string \<Rightarrow> string option" where
  "inflate_payload env max_size payload =
     inflate_loop (z_inflate env (payload @ sync_trailer)) (unat max_size) 0 []"

section \<open>Sending and closing\<close>

definition write_frame_locked :: "8 word \<Rightarrow> string \<Rightarrow> ws_conn \<Rightarrow> ws_conn" where
  "write_frame_locked first_byte payload c =
     c\<lparr>ws_written := ws_written c @ [write_frame first_byte payload]\<rparr>"

definition transport_close :: "ws_conn \<Rightarrow> ws_conn" where
  "transport_close c = c\<lparr>ws_transport_closes := Suc (ws_transport_closes c)\<rparr>"

definition fire_close :: "ws_env \<Rightarrow> ws_conn \<Rightarrow> ws_conn" where
  "fire_close env c = (if close_handler env then c\<lparr>ws_events := ws_events c @ [OnClose]\<rparr> else c)"

definition send_frame :: "ws_env \<Rightarrow> 8 word \<Rightarrow> string \<Rightarrow> ws_conn \<Rightarrow> ws_conn" where
  "send_frame env opcode payload c =
     (if is_closed c then c
      else if deflate_enabled c \<and> (opcode = kText \<or> opcode = kBinary)
      then write_frame_locked ((0x80 OR opcode) OR 0x40) (deflate_payload env payload) c
      else write_frame_locked (0x80 OR opcode) payload c)"

definition ws_send :: "ws_env \<Rightarrow> string \<Rightarrow> ws_conn \<Rightarrow> ws_conn" where
  "ws_send env message c = send_frame env kText message c"

definition ws_ping :: "ws_conn \<Rightarrow> ws_conn" where
  "ws_ping c = (if is_closed c then c else write_frame_locked (0x80 OR kPing) [] c)"

definition ws_send_binary :: "ws_env \<Rightarrow> string \<Rightarrow> ws_conn \<Rightarrow> ws_conn" where
  "ws_send_binary env data c = send_frame env kBinary data c"

text \<open>The two bytes of a status code, most significant first.\<close>

definition code_bytes :: "16 word \<Rightarrow> string" where
  "code_bytes code = [chr8 (ucast (drop_bit 8 code AND 0xFF)), chr8 (ucast (code AND 0xFF))]"

definition ws_close :: "ws_env \<Rightarrow> 16 word \<Rightarrow> ws_conn \<Rightarrow> ws_conn" where
  "ws_close env status_code c =
     (if is_closed c then c
      else fire_close env
             (transport_close
               (write_frame_locked (0x80 OR kClose) (code_bytes status_code)
                 (c\<lparr>is_closed := True\<rparr>))))"

definition handle_transport_closed :: "ws_env \<Rightarrow> ws_conn \<Rightarrow> ws_conn" where
  "handle_transport_closed env c =
     (if is_closed c then c else fire_close env (c\<lparr>is_closed := True\<rparr>))"

definition fail_connection :: "ws_env \<Rightarrow> 16 word \<Rightarrow> ws_conn \<Rightarrow> ws_conn" where
  "fail_connection env status_code c =
     (if is_closed c then c
      else fire_close env
             (transport_close
               (write_frame_locked (0x80 OR kClose) (code_bytes status_code)
                 (c\<lparr>is_closed := True\<rparr>))))"

definition payload_code :: "string \<Rightarrow> 16 word" where
  "payload_code payload = push_bit 8 (ucast (u8 (payload ! 0))) OR ucast (u8 (payload ! 1))"

definition handle_close_frame :: "ws_env \<Rightarrow> string \<Rightarrow> ws_conn \<Rightarrow> ws_conn" where
  "handle_close_frame env payload c =
     (if length payload = 1 then fail_connection env 1002 c
      else if length payload \<ge> 2 \<and> \<not> is_valid_close_code (payload_code payload)
      then fail_connection env 1002 c
      else if length payload \<ge> 2 \<and> \<not> is_valid_utf8 (drop 2 payload)
      then fail_connection env 1007 c
      else
        let reply = (if length payload \<ge> 2 then take 2 payload else []);
            c1 = (if is_closed c then c
                  else write_frame_locked (0x80 OR kClose) reply (c\<lparr>is_closed := True\<rparr>))
        in fire_close env (transport_close c1))"

section \<open>Delivering messages\<close>

fun run_op :: "ws_env \<Rightarrow> ws_op \<Rightarrow> ws_conn \<Rightarrow> ws_conn" where
  "run_op env (OpSend m) c = ws_send env m c"
| "run_op env (OpSendBinary d) c = ws_send_binary env d c"
| "run_op env OpPing c = ws_ping c"
| "run_op env (OpClose code) c = ws_close env code c"
| "run_op env (OpSetMaxSize bytes) c = set_max_message_size (ucast bytes) c"

definition call_handler :: "ws_env \<Rightarrow> (string \<Rightarrow> ws_op list) \<Rightarrow> ws_event \<Rightarrow> string \<Rightarrow> ws_conn \<Rightarrow> ws_conn" where
  "call_handler env h ev payload c =
     fold (run_op env) (h payload) (c\<lparr>ws_events := ws_events c @ [ev]\<rparr>)"

definition dispatch_message :: "ws_env \<Rightarrow> 8 word \<Rightarrow> string \<Rightarrow> ws_conn \<Rightarrow> ws_conn" where
  "dispatch_message env opcode payload c =
     (case (opcode = kBinary, binary_handler env, message_handler env) of
        (True, Some h, _) \<Rightarrow> call_handler env h (OnBinary payload) payload c
      | (_, _, Some h) \<Rightarrow> call_handler env h (OnMessage opcode payload) payload c
      | _ \<Rightarrow> c)"

definition deliver_message :: "ws_env \<Rightarrow> 8 word \<Rightarrow> bool \<Rightarrow> string \<Rightarrow> ws_conn \<Rightarrow> bool \<times> ws_conn" where
  "deliver_message env opcode compressed payload c =
     (case (if compressed then inflate_payload env (max_message_size c) payload else Some payload) of
        None \<Rightarrow> (False, fail_connection env 1009 c)
      | Some message \<Rightarrow>
          if opcode = kText \<and> \<not> is_valid_utf8 message then (False, fail_connection env 1007 c)
          else (let c' = dispatch_message env opcode message c in (\<not> is_closed c', c')))"

section \<open>The receive loop\<close>

definition frame_header_init :: frame_header where
  "frame_header_init =
     \<lparr>fh_fin = False, fh_opcode = 0, fh_masked = False, fh_payload_length = 0, fh_mask_key = [],
      fh_header_length = 0\<rparr>"

definition protocol_error :: "ws_conn \<Rightarrow> 8 word \<Rightarrow> frame_header \<Rightarrow> bool" where
  "protocol_error c byte0 h \<longleftrightarrow>
     (let rsv1 = (byte0 AND 0x40 \<noteq> 0);
          is_control = (fh_opcode h AND 0x08 \<noteq> 0);
          is_data = (fh_opcode h = kText \<or> fh_opcode h = kBinary)
      in \<not> fh_masked h \<or>
         byte0 AND 0x30 \<noteq> 0 \<or>
         (rsv1 \<and> \<not> (deflate_enabled c \<and> is_data)) \<or>
         (\<not> is_data \<and> \<not> is_control \<and> fh_opcode h \<noteq> kContinuation) \<or>
         (is_control \<and> fh_opcode h \<noteq> kClose \<and> fh_opcode h \<noteq> kPing \<and> fh_opcode h \<noteq> kPong) \<or>
         (fh_opcode h = kContinuation \<and> fragment_opcode c = 0) \<or>
         (is_data \<and> fragment_opcode c \<noteq> 0))"

definition too_big :: "ws_conn \<Rightarrow> frame_header \<Rightarrow> bool" where
  "too_big c h \<longleftrightarrow>
     (let already = (if fh_opcode h = kContinuation then of_nat (length (fragment_payload c)) else 0)
      in fh_payload_length h > max_message_size c \<or>
         already + fh_payload_length h > max_message_size c)"

text \<open>
  One pass of the loop body. \<open>Leave\<close> is a \<^verbatim>\<open>break\<close> or \<^verbatim>\<open>return\<close> with the buffer as it
  is left behind, \<open>Next\<close> the \<^verbatim>\<open>continue\<close> with what follows the frame.
\<close>

datatype ws_pass = Leave ws_conn string | Next ws_conn string

definition deliver_pass :: "bool \<times> ws_conn \<Rightarrow> string \<Rightarrow> ws_pass" where
  "deliver_pass r rest = (if fst r then Next (snd r) rest else Leave (snd r) [])"

definition handle_frame :: "ws_env \<Rightarrow> ws_conn \<Rightarrow> 8 word \<Rightarrow> frame_header \<Rightarrow> string \<Rightarrow> string \<Rightarrow> ws_pass" where
  "handle_frame env c byte0 h payload rest =
     (let rsv1 = (byte0 AND 0x40 \<noteq> 0);
          is_data = (fh_opcode h = kText \<or> fh_opcode h = kBinary)
      in if fh_opcode h = kClose then Leave (handle_close_frame env payload c) []
         else if fh_opcode h = kPing
         then Next (if is_closed c then c else write_frame_locked (0x80 OR kPong) payload c) rest
         else if fh_opcode h = kPong then Next c rest
         else if is_data then
           (if fh_fin h then deliver_pass (deliver_message env (fh_opcode h) rsv1 payload c) rest
            else Next (c\<lparr>fragment_opcode := fh_opcode h, fragment_compressed := rsv1,
                         fragment_payload := payload\<rparr>) rest)
         else
           (let c1 = c\<lparr>fragment_payload := fragment_payload c @ payload\<rparr>
            in if fh_fin h
               then deliver_pass
                      (deliver_message env (fragment_opcode c1) (fragment_compressed c1)
                        (fragment_payload c1)
                        (c1\<lparr>fragment_opcode := 0, fragment_compressed := False,
                            fragment_payload := []\<rparr>))
                      rest
               else Next c1 rest))"

definition process_frame :: "ws_env \<Rightarrow> ws_conn \<Rightarrow> string \<Rightarrow> ws_pass" where
  "process_frame env c buffer =
     (case inspect_frame buffer frame_header_init of (status, h) \<Rightarrow>
        if status = Invalid then Leave (fail_connection env 1002 c) []
        else if status = NeedHeader then Leave c buffer
        else
          let byte0 = u8 (buffer ! 0) in
          if protocol_error c byte0 h then Leave (fail_connection env 1002 c) []
          else if too_big c h then Leave (fail_connection env 1009 c) []
          else if status = NeedPayload then Leave c buffer
          else
            let len = unat (fh_payload_length h);
                payload = unmask_payload (take len (drop (fh_header_length h) buffer)) (fh_mask_key h)
            in handle_frame env c byte0 h payload (drop (fh_header_length h + len) buffer))"

lemma handle_frame_rest:
  "handle_frame env c byte0 h payload rest = Next c' b' \<Longrightarrow> b' = rest"
  by (auto simp: handle_frame_def Let_def deliver_pass_def split: if_splits)

lemma process_frame_shrinks [shrinks]:
  assumes "process_frame env c buffer = Next c' b'"
  shows "length b' < length buffer"
proof -
  obtain st h where i: "inspect_frame buffer frame_header_init = (st, h)" by fastforce
  with assms have "st = Complete"
    by (cases st) (auto simp: process_frame_def Let_def split: if_splits)
  with assms i have "b' = drop (fh_header_length h + unat (fh_payload_length h)) buffer"
    by (auto simp: process_frame_def Let_def split: if_splits dest!: handle_frame_rest)
  with inspect_frame_bounds [of buffer frame_header_init h] i \<open>st = Complete\<close> show ?thesis by simp
qed

function process_raw_data :: "ws_env \<Rightarrow> ws_conn \<Rightarrow> string \<Rightarrow> ws_conn \<times> string" where
  "process_raw_data env c buffer =
     (if buffer = [] \<or> is_closed c then (c, buffer)
      else case process_frame env c buffer of
             Leave c' b' \<Rightarrow> (c', b')
           | Next c' b' \<Rightarrow> process_raw_data env c' b')"
  by pat_completeness auto
termination
  by (relation "measure (\<lambda>(env, c, buffer). length buffer)") (auto intro: process_frame_shrinks)

declare process_raw_data.simps [simp del]
declare inflate_loop.simps [simp del]

section \<open>Frame properties of the operations\<close>

lemmas ws_basic_defs = write_frame_locked_def transport_close_def fire_close_def send_frame_def
  ws_send_def ws_send_binary_def ws_ping_def ws_close_def handle_transport_closed_def fail_connection_def

lemma opcode_distinct [simp]:
  "kPing \<noteq> kClose" "kPong \<noteq> kClose" "kPong \<noteq> kPing"
  "kText \<noteq> kClose" "kText \<noteq> kPing" "kText \<noteq> kPong"
  "kBinary \<noteq> kClose" "kBinary \<noteq> kPing" "kBinary \<noteq> kPong" "kBinary \<noteq> kText"
  "kContinuation \<noteq> kClose" "kContinuation \<noteq> kPing" "kContinuation \<noteq> kPong"
  "kContinuation \<noteq> kText" "kContinuation \<noteq> kBinary" "kText \<noteq> 0" "kBinary \<noteq> 0"
  by (simp_all add: opcode_defs)

lemmas opcode_distinct_sym [simp] = opcode_distinct [symmetric]

lemma run_op_closed:
  "is_closed c \<Longrightarrow>
     run_op env op c = (case op of OpSetMaxSize bytes \<Rightarrow> set_max_message_size (ucast bytes) c | _ \<Rightarrow> c)"
  by (cases op) (simp_all add: ws_basic_defs)

lemma is_closed_simps [simp]:
  "is_closed (write_frame_locked b p c) = is_closed c"
  "is_closed (transport_close c) = is_closed c"
  "is_closed (fire_close env c) = is_closed c"
  "is_closed (fail_connection env code c)"
  "is_closed (ws_close env code c)"
  "is_closed (handle_close_frame env p c)"
  by (simp_all add: ws_basic_defs handle_close_frame_def Let_def)

lemma inflate_loop_bound:
  "inflate_loop call max_size k out = Some r \<Longrightarrow> length r \<le> max_size"
proof (induction call max_size k out rule: inflate_loop.induct)
  case (1 call max_size k out)
  obtain err block where "call k = (err, block)" by fastforce
  with 1 show ?case
    by (subst (asm) (2) inflate_loop.simps) (auto split: if_splits)
qed

lemma inflate_payload_bound: "inflate_payload env m p = Some r \<Longrightarrow> length r \<le> unat m"
  unfolding inflate_payload_def by (rule inflate_loop_bound)

section \<open>Bytes may arrive in pieces of any size\<close>

text \<open>
  A pass over a longer buffer does what the pass over the shorter one did, with the extra bytes
  left over; only a pass that waits for bytes may do more.
\<close>

lemma deliver_pass_closed:
  "deliver_pass (deliver_message env opc z payload c) rest = Leave c' b' \<Longrightarrow> is_closed c' \<and> b' = []"
  by (auto simp: deliver_pass_def deliver_message_def Let_def split: if_splits option.splits)

lemma deliver_pass_append:
  "deliver_pass r (rest @ bytes) =
     (case deliver_pass r rest of Next c' b' \<Rightarrow> Next c' (b' @ bytes) | Leave c' b' \<Rightarrow> Leave c' b')"
  by (simp add: deliver_pass_def)

lemma handle_frame_closed:
  "handle_frame env c byte0 h payload rest = Leave c' b' \<Longrightarrow> is_closed c' \<and> b' = []"
  by (auto simp: handle_frame_def Let_def split: if_splits dest: deliver_pass_closed)

lemma handle_frame_append:
  "handle_frame env c byte0 h payload (rest @ bytes) =
     (case handle_frame env c byte0 h payload rest of
        Next c' b' \<Rightarrow> Next c' (b' @ bytes) | Leave c' b' \<Rightarrow> Leave c' b')"
  by (simp add: handle_frame_def Let_def deliver_pass_append)

lemma process_frame_Leave:
  "process_frame env c buffer = Leave c' b' \<Longrightarrow> (c' = c \<and> b' = buffer) \<or> (is_closed c' \<and> b' = [])"
  by (auto simp: process_frame_def Let_def split: if_splits prod.splits dest: handle_frame_closed)

lemma process_frame_append:
  assumes "process_frame env c buffer = r" and "buffer \<noteq> []"
  shows "case r of
           Next c' b' \<Rightarrow> process_frame env c (buffer @ bytes) = Next c' (b' @ bytes)
         | Leave c' b' \<Rightarrow> (c' = c \<and> b' = buffer) \<or> process_frame env c (buffer @ bytes) = Leave c' []"
proof -
  obtain st h where i: "inspect_frame buffer frame_header_init = (st, h)" by fastforce
  obtain st' h' where i': "inspect_frame (buffer @ bytes) frame_header_init = (st', h')" by fastforce
  have e: "extends (st, h) (st', h')" using inspect_frame_append [of buffer frame_header_init bytes] i i' by simp
  have b0: "(buffer @ bytes) ! 0 = buffer ! 0" using assms(2) by (cases buffer) simp_all
  show ?thesis
  proof (cases st)
    case Complete
    with e have "st' = Complete" "h' = h" by auto
    moreover have "fh_header_length h + unat (fh_payload_length h) \<le> length buffer"
      using inspect_frame_bounds [of buffer frame_header_init h] i Complete by simp
    ultimately show ?thesis
      using i i' Complete assms(1) b0
      by (auto simp: process_frame_def Let_def handle_frame_append split: ws_pass.splits)
        (auto dest: handle_frame_closed)
  next
    case NeedPayload
    with e have "h' = h" "st' = NeedPayload \<or> st' = Complete" by auto
    with i i' NeedPayload assms(1) b0 show ?thesis
      by (auto simp: process_frame_def Let_def)
  next
    case NeedHeader
    with i assms(1) show ?thesis by (auto simp: process_frame_def)
  next
    case Invalid
    with e have "st' = Invalid" "h' = h" by auto
    with i i' Invalid assms(1) show ?thesis by (auto simp: process_frame_def)
  qed
qed

definition same_outcome :: "ws_conn \<times> string \<Rightarrow> ws_conn \<times> string \<Rightarrow> bool" where
  "same_outcome x y \<longleftrightarrow> fst x = fst y \<and> (is_closed (fst x) \<or> snd x = snd y)"

lemma same_outcome_refl [simp]: "same_outcome x x"
  by (simp add: same_outcome_def)

lemma process_raw_data_closed: "is_closed c \<Longrightarrow> process_raw_data env c buffer = (c, buffer)"
  by (simp add: process_raw_data.simps)

lemma process_raw_data_append:
  "same_outcome (process_raw_data env c (a @ b))
     (case process_raw_data env c a of (c1, r) \<Rightarrow> process_raw_data env c1 (r @ b))"
proof (induction env c a rule: process_raw_data.induct)
  case (1 env c buffer)
  show ?case
  proof (cases "buffer = [] \<or> is_closed c")
    case True
    then show ?thesis by (auto simp: process_raw_data.simps [of env c])
  next
    case False
    then have nb: "buffer \<noteq> []" "\<not> is_closed c" by auto
    show ?thesis
    proof (cases "process_frame env c buffer")
      case (Next c' b')
      with process_frame_append [OF this nb(1), of b] 1 nb show ?thesis
        by (simp add: process_raw_data.simps [of env c])
    next
      case (Leave c' b')
      from process_frame_Leave [OF Leave] show ?thesis
      proof
        assume "c' = c \<and> b' = buffer"
        with Leave nb show ?thesis by (simp add: process_raw_data.simps [of env c buffer])
      next
        assume "is_closed c' \<and> b' = []"
        with process_frame_append [OF Leave nb(1), of b] Leave nb show ?thesis
          by (auto simp: process_raw_data.simps [of env c] process_raw_data_closed same_outcome_def)
      qed
    qed
  qed
qed

text \<open>The bytes as they arrive: each piece is appended to what the last call left in the buffer.\<close>

definition receive_chunks :: "ws_env \<Rightarrow> ws_conn \<Rightarrow> string list \<Rightarrow> ws_conn \<times> string" where
  "receive_chunks env c chunks =
     fold (\<lambda>chunk (c, pending). process_raw_data env c (pending @ chunk)) chunks (c, [])"

lemma receive_chunks_concat:
  "same_outcome (receive_chunks env c chunks) (process_raw_data env c (concat chunks))"
proof (induction chunks rule: rev_induct)
  case Nil
  then show ?case by (simp add: receive_chunks_def process_raw_data.simps same_outcome_def)
next
  case (snoc chunk chunks)
  obtain c1 r1 where 1: "receive_chunks env c chunks = (c1, r1)" by fastforce
  obtain c2 r2 where 2: "process_raw_data env c (concat chunks) = (c2, r2)" by fastforce
  have s: "receive_chunks env c (chunks @ [chunk]) = process_raw_data env c1 (r1 @ chunk)"
    using 1 by (simp add: receive_chunks_def)
  with snoc.IH 1 2 process_raw_data_append [of env c "concat chunks" chunk] show ?case
    by (auto simp: same_outcome_def process_raw_data_closed)
qed

section \<open>Invariants of the receive loop\<close>

text \<open>
  What a property of the connection has to be stable under so that the whole receive loop keeps
  it: the state changes the loop makes, each under the conditions the loop makes it.
\<close>

locale ws_invariant =
  fixes env :: ws_env and P :: "ws_conn \<Rightarrow> bool"
  assumes fail_P: "P c \<Longrightarrow> P (fail_connection env code c)"
    and close_frame_P: "\<lbrakk>P c; \<not> is_closed c\<rbrakk> \<Longrightarrow> P (handle_close_frame env p c)"
    and pong_P: "\<lbrakk>P c; \<not> is_closed c\<rbrakk> \<Longrightarrow> P (write_frame_locked (0x80 OR kPong) p c)"
    and op_P: "P c \<Longrightarrow> P (run_op env op c)"
    and start_P: "\<lbrakk>P c; opc = kText \<or> opc = kBinary; length p \<le> unat (max_message_size c)\<rbrakk> \<Longrightarrow>
      P (c\<lparr>fragment_opcode := opc, fragment_compressed := z, fragment_payload := p\<rparr>)"
    and grow_P: "\<lbrakk>P c; fragment_opcode c \<noteq> 0;
        length (fragment_payload c @ p) \<le> unat (max_message_size c)\<rbrakk> \<Longrightarrow>
      P (c\<lparr>fragment_payload := fragment_payload c @ p\<rparr>)"
    and clear_P: "P c \<Longrightarrow>
      P (c\<lparr>fragment_opcode := 0, fragment_compressed := False, fragment_payload := []\<rparr>)"
    and message_P: "\<lbrakk>P c; \<not> is_closed c; opc = kText \<or> opc = kBinary;
        length m \<le> unat (max_message_size c); opc = kText \<longrightarrow> is_valid_utf8 m;
        ev = OnMessage opc m \<or> ev = OnBinary m \<and> opc = kBinary\<rbrakk> \<Longrightarrow>
      P (c\<lparr>ws_events := ws_events c @ [ev]\<rparr>)"
    and bound: "P c \<Longrightarrow> length (fragment_payload c) < 2 ^ 63 \<and>
        unat (max_message_size c) < 2 ^ 63 \<and> fragment_opcode c \<in> {0, kText, kBinary}"
begin

lemma run_ops_P: "P c \<Longrightarrow> P (fold (run_op env) ops c)"
  by (induction ops arbitrary: c) (simp_all add: op_P)

lemma dispatch_P:
  assumes "P c" "\<not> is_closed c" "opc = kText \<or> opc = kBinary"
    and "length m \<le> unat (max_message_size c)" "opc = kText \<longrightarrow> is_valid_utf8 m"
  shows "P (dispatch_message env opc m c)"
  using assms
  by (auto simp: dispatch_message_def call_handler_def split: option.split bool.split
      intro!: run_ops_P intro: message_P)

lemma deliver_P:
  assumes "P c" "\<not> is_closed c" "opc = kText \<or> opc = kBinary"
    and "length p \<le> unat (max_message_size c)"
  shows "P (snd (deliver_message env opc z p c))"
  using assms
  by (auto simp: deliver_message_def Let_def fail_P
      split: option.split intro!: dispatch_P dest: inflate_payload_bound)

lemma deliver_pass_P:
  assumes "P (snd r)"
  shows "case deliver_pass r rest of Leave c' b' \<Rightarrow> P c' | Next c' b' \<Rightarrow> P c'"
  using assms by (simp add: deliver_pass_def)

lemma not_too_big:
  assumes "P c" "\<not> too_big c h" "length p = unat (fh_payload_length h)"
  shows "length p \<le> unat (max_message_size c)"
    and "fh_opcode h = kContinuation \<Longrightarrow>
           length (fragment_payload c @ p) \<le> unat (max_message_size c)"
proof -
  let ?m = "unat (max_message_size c)" and ?f = "length (fragment_payload c)"
  have le: "unat (fh_payload_length h) \<le> ?m"
    using assms(2) by (simp add: too_big_def Let_def word_less_nat_alt)
  then show "length p \<le> ?m" using assms(3) by simp
  have b: "?f < 2 ^ 63" "?m < 2 ^ 63" using bound [OF assms(1)] by auto
  then have "unat (of_nat ?f :: 64 word) = ?f"
    by (simp add: unat_of_nat take_bit_nat_eq_self)
  moreover have "?f + unat (fh_payload_length h) < 2 ^ 64" using b le by simp
  ultimately have "unat (of_nat ?f + fh_payload_length h) = ?f + length p"
    using assms(3) by (simp add: unat_word_ariths)
  then show "length (fragment_payload c @ p) \<le> ?m" if "fh_opcode h = kContinuation"
    using assms(2) that by (simp add: too_big_def Let_def word_less_nat_alt)
qed

lemma handle_frame_P:
  assumes "P c" "\<not> is_closed c" "\<not> protocol_error c byte0 h" "\<not> too_big c h"
    and "length p = unat (fh_payload_length h)"
  shows "case handle_frame env c byte0 h p rest of Leave c' b' \<Rightarrow> P c' | Next c' b' \<Rightarrow> P c'"
proof -
  note len = not_too_big [OF assms(1,4,5)]
  let ?g = "c\<lparr>fragment_payload := fragment_payload c @ p\<rparr>"
  let ?k = "?g\<lparr>fragment_opcode := 0, fragment_compressed := False, fragment_payload := []\<rparr>"
  consider "fh_opcode h = kClose" | "fh_opcode h = kPing" | "fh_opcode h = kPong"
    | "fh_opcode h = kText \<or> fh_opcode h = kBinary"
    | "fh_opcode h = kContinuation" "fragment_opcode c \<noteq> 0"
    using assms(3) by (auto simp: protocol_error_def Let_def)
  then show ?thesis
  proof cases
    case 4
    have "P (snd (deliver_message env (fh_opcode h) z p c))" for z
      using deliver_P [OF assms(1,2) 4 len(1)] by simp
    from deliver_pass_P [OF this] 4 assms(1) len(1) show ?thesis
      by (auto simp: handle_frame_def Let_def intro!: start_P)
  next
    case 5
    have opc: "fragment_opcode c = kText \<or> fragment_opcode c = kBinary"
      using bound [OF assms(1)] 5(2) by auto
    have g: "P ?g" by (rule grow_P [OF assms(1) 5(2) len(2) [OF 5(1)]])
    have "P (snd (deliver_message env (fragment_opcode c) z (fragment_payload c @ p) ?k))" for z
      using deliver_P [OF clear_P [OF g], of "fragment_opcode c" "fragment_payload c @ p" z]
        assms(2) opc len(2) [OF 5(1)] by simp
    from deliver_pass_P [OF this] 5(1) g show ?thesis
      by (auto simp: handle_frame_def Let_def)
  qed (use assms(1,2) in \<open>auto simp: handle_frame_def Let_def intro: close_frame_P pong_P\<close>)
qed

lemma process_frame_P:
  assumes "P c" "\<not> is_closed c"
  shows "case process_frame env c buffer of Leave c' b' \<Rightarrow> P c' | Next c' b' \<Rightarrow> P c'"
proof -
  obtain st h where i: "inspect_frame buffer frame_header_init = (st, h)" by fastforce
  show ?thesis
  proof (cases st)
    case Complete
    then have "fh_header_length h + unat (fh_payload_length h) \<le> length buffer"
      using inspect_frame_bounds [of buffer frame_header_init h] i by simp
    with handle_frame_P [OF assms] i Complete assms show ?thesis
      by (simp add: process_frame_def Let_def fail_P)
  qed (use i assms in \<open>simp_all add: process_frame_def Let_def fail_P\<close>)
qed

lemma process_raw_data_P: "P c \<Longrightarrow> P (fst (process_raw_data env c buffer))"
proof (induction buffer arbitrary: c rule: length_induct)
  case (1 buffer)
  then show ?case
    using process_frame_P [of c buffer] process_frame_shrinks [of env c buffer]
    by (subst process_raw_data.simps) (auto split: ws_pass.split)
qed

end

section \<open>The invariant of a connection\<close>

text \<open>
  The limit in force after a trace of calls (the latest first), the largest one it ever was, and
  what the trace has to respect: a message is within the limit in force when it is delivered, and
  text is valid UTF-8.
\<close>

definition default_limit :: nat where
  "default_limit = 16 * 1024 * 1024"

fun limit_in_force :: "ws_event list \<Rightarrow> nat" where
  "limit_in_force [] = default_limit"
| "limit_in_force (LimitSet n # es) = unat n"
| "limit_in_force (_ # es) = limit_in_force es"

fun largest_limit :: "ws_event list \<Rightarrow> nat" where
  "largest_limit [] = default_limit"
| "largest_limit (LimitSet n # es) = max (unat n) (largest_limit es)"
| "largest_limit (_ # es) = largest_limit es"

fun event_ok :: "nat \<Rightarrow> ws_event \<Rightarrow> bool" where
  "event_ok limit (OnMessage opc m) \<longleftrightarrow>
     length m \<le> limit \<and> opc \<in> {kText, kBinary} \<and> (opc = kText \<longrightarrow> is_valid_utf8 m)"
| "event_ok limit (OnBinary m) \<longleftrightarrow> length m \<le> limit"
| "event_ok limit OnClose \<longleftrightarrow> True"
| "event_ok limit (LimitSet n) \<longleftrightarrow> True"

fun events_ok :: "ws_event list \<Rightarrow> bool" where
  "events_ok [] \<longleftrightarrow> True"
| "events_ok (e # es) \<longleftrightarrow> event_ok (limit_in_force es) e \<and> events_ok es"

lemma limit_in_force_le_largest: "limit_in_force es \<le> largest_limit es"
  by (induction es rule: largest_limit.induct) simp_all

lemma events_ok_split: "events_ok (post @ e # pre) \<Longrightarrow> event_ok (limit_in_force pre) e"
  by (induction post) simp_all

definition ws_bounded :: "ws_conn \<Rightarrow> bool" where
  "ws_bounded c \<longleftrightarrow>
     unat (max_message_size c) = limit_in_force (rev (ws_events c)) \<and>
     largest_limit (rev (ws_events c)) < 2 ^ 63 \<and>
     length (fragment_payload c) \<le> largest_limit (rev (ws_events c)) \<and>
     fragment_opcode c \<in> {0, kText, kBinary} \<and>
     (fragment_opcode c = 0 \<longrightarrow> fragment_payload c = []) \<and>
     events_ok (rev (ws_events c))"

text \<open>
  The closing handshake: an open connection has sent no close frame and run no close handler; a
  closed one ran the close handler exactly once and either sent one close frame, as its last
  frame, and closed the transport once, or lost its transport and did neither.
\<close>

definition is_close_frame :: "string \<Rightarrow> bool" where
  "is_close_frame f \<longleftrightarrow> f \<noteq> [] \<and> u8 (f ! 0) AND 0x0F = kClose"

definition ws_closing :: "ws_env \<Rightarrow> ws_conn \<Rightarrow> bool" where
  "ws_closing env c \<longleftrightarrow>
     (if is_closed c
      then count_list (ws_events c) OnClose = (if close_handler env then 1 else 0) \<and>
           (ws_transport_closes c = 1 \<and> ws_written c \<noteq> [] \<and>
              is_close_frame (last (ws_written c)) \<and> \<not> list_ex is_close_frame (butlast (ws_written c)) \<or>
            ws_transport_closes c = 0 \<and> \<not> list_ex is_close_frame (ws_written c))
      else count_list (ws_events c) OnClose = 0 \<and> ws_transport_closes c = 0 \<and>
           \<not> list_ex is_close_frame (ws_written c))"

lemma is_close_write_frame [simp]:
  "is_close_frame (write_frame b p) \<longleftrightarrow> b AND 0x0F = kClose"
  by (simp add: is_close_frame_def write_frame_def Let_def)

lemma ws_bounded_cong:
  "\<lbrakk>max_message_size d = max_message_size c; fragment_payload d = fragment_payload c;
    fragment_opcode d = fragment_opcode c; ws_events d = ws_events c \<or> ws_events d = ws_events c @ [OnClose]\<rbrakk>
   \<Longrightarrow> ws_bounded d = ws_bounded c"
  by (auto simp: ws_bounded_def)

lemma ws_bounded_set_max: "ws_bounded c \<Longrightarrow> ws_bounded (set_max_message_size (ucast (n :: 63 word)) c)"
proof -
  have "unat (ucast n :: 64 word) < 2 ^ 63"
    using unsigned_less [of n, where ?'a = nat] by (simp add: unsigned_ucast_eq take_bit_nat_eq_self)
  then show "ws_bounded c \<Longrightarrow> ws_bounded (set_max_message_size (ucast n) c)"
    by (auto simp: ws_bounded_def set_max_message_size_def)
qed

lemma ws_bounded_run_op: "ws_bounded c \<Longrightarrow> ws_bounded (run_op env op c)"
proof (cases op)
  case (OpSetMaxSize n)
  then show "ws_bounded c \<Longrightarrow> ws_bounded (run_op env op c)" by (simp add: ws_bounded_set_max)
qed (erule ws_bounded_cong [THEN iffD2, rotated -1]; simp add: ws_basic_defs)+

lemma ws_bounded_fail: "ws_bounded c \<Longrightarrow> ws_bounded (fail_connection env code c)"
  by (erule ws_bounded_cong [THEN iffD2, rotated -1]) (simp_all add: ws_basic_defs)

lemma ws_bounded_close_frame: "ws_bounded c \<Longrightarrow> ws_bounded (handle_close_frame env p c)"
  by (erule ws_bounded_cong [THEN iffD2, rotated -1])
    (simp_all add: handle_close_frame_def Let_def ws_basic_defs)

interpretation bounded: ws_invariant env ws_bounded
proof unfold_locales
  fix c and p :: string
  assume "ws_bounded c"
  then show "ws_bounded (write_frame_locked (0x80 OR kPong) p c)"
    by (erule_tac ws_bounded_cong [THEN iffD2, rotated -1]) (simp_all add: ws_basic_defs)
next
  fix c :: ws_conn
  assume "ws_bounded c"
  then show "length (fragment_payload c) < 2 ^ 63 \<and> unat (max_message_size c) < 2 ^ 63 \<and>
      fragment_opcode c \<in> {0, kText, kBinary}"
    using limit_in_force_le_largest [of "rev (ws_events c)"] by (auto simp: ws_bounded_def)
next
  fix c opc z and p :: string
  assume "ws_bounded c" "opc = kText \<or> opc = kBinary" "length p \<le> unat (max_message_size c)"
  then show "ws_bounded (c\<lparr>fragment_opcode := opc, fragment_compressed := z, fragment_payload := p\<rparr>)"
    using limit_in_force_le_largest [of "rev (ws_events c)"] by (auto simp: ws_bounded_def)
next
  fix c and p :: string
  assume "ws_bounded c" "fragment_opcode c \<noteq> 0"
    "length (fragment_payload c @ p) \<le> unat (max_message_size c)"
  then show "ws_bounded (c\<lparr>fragment_payload := fragment_payload c @ p\<rparr>)"
    using limit_in_force_le_largest [of "rev (ws_events c)"] by (auto simp: ws_bounded_def)
qed (auto simp: ws_bounded_fail ws_bounded_close_frame ws_bounded_run_op,
     auto simp: ws_bounded_def)

lemma ws_closing_run_op: "ws_closing env c \<Longrightarrow> ws_closing env (run_op env op c)"
  by (cases "is_closed c"; cases op)
    (simp_all add: run_op_closed ws_closing_def ws_basic_defs set_max_message_size_def opcode_defs)

lemma ws_closing_fail: "ws_closing env c \<Longrightarrow> ws_closing env (fail_connection env code c)"
  by (cases "is_closed c") (simp_all add: ws_closing_def ws_basic_defs opcode_defs)

lemma ws_closing_close_frame:
  "ws_closing env c \<Longrightarrow> \<not> is_closed c \<Longrightarrow> ws_closing env (handle_close_frame env p c)"
  by (simp add: handle_close_frame_def Let_def ws_closing_fail)
    (simp add: ws_closing_def ws_basic_defs opcode_defs)

interpretation closing: ws_invariant env "\<lambda>c. ws_bounded c \<and> ws_closing env c"
proof (unfold_locales, goal_cases)
  case (3 c p)
  then show ?case
    using bounded.pong_P [of c p] by (simp add: ws_closing_def ws_basic_defs opcode_defs)
next
  case (8 c opc m ev)
  then have "ws_bounded (c\<lparr>ws_events := ws_events c @ [ev]\<rparr>)"
    using bounded.message_P [of c opc m ev] by blast
  with 8 show ?case by (auto simp: ws_closing_def)
next
  case (5 c opc p z)
  then show ?case
    using bounded.start_P [of c opc p z] by (auto simp: ws_closing_def)
next
  case (6 c p)
  then show ?case
    using bounded.grow_P [of c p] by (auto simp: ws_closing_def)
next
  case (7 c)
  then show ?case
    using bounded.clear_P [of c] by (auto simp: ws_closing_def)
next
  case (9 c)
  then show ?case
    using bounded.bound [of c] by auto
qed (simp_all add: ws_bounded_fail ws_bounded_close_frame ws_bounded_run_op
      ws_closing_fail ws_closing_close_frame ws_closing_run_op)

text \<open>
  A connection with the bytes received and not yet consumed, from the upgrade on: bytes arrive,
  the application calls, the transport is lost, in any order.
\<close>

inductive ws_reachable :: "ws_env \<Rightarrow> ws_conn \<Rightarrow> string \<Rightarrow> bool" for env where
  upgraded: "ws_reachable env (ws_init deflate) []"
| received: "ws_reachable env c pending \<Longrightarrow> process_raw_data env c (pending @ bytes) = (c', rest) \<Longrightarrow>
    ws_reachable env c' rest"
| called: "ws_reachable env c pending \<Longrightarrow> ws_reachable env (run_op env op c) pending"
| transport_lost: "ws_reachable env c pending \<Longrightarrow> ws_reachable env (handle_transport_closed env c) pending"

lemma ws_reachable_ok: "ws_reachable env c pending \<Longrightarrow> ws_bounded c \<and> ws_closing env c"
proof (induction rule: ws_reachable.induct)
  case (upgraded deflate)
  then show ?case
    by (simp add: ws_bounded_def ws_closing_def ws_init_def default_limit_def)
next
  case (received c pending bytes c' rest)
  then show ?case
    using closing.process_raw_data_P [of c env "pending @ bytes"] by simp
next
  case (called c pending op)
  then show ?case by (simp add: ws_bounded_run_op ws_closing_run_op)
next
  case (transport_lost c pending)
  then have "ws_bounded (handle_transport_closed env c)"
    by (elim conjE, elim ws_bounded_cong [THEN iffD2, rotated -1]) (simp_all add: ws_basic_defs)
  with transport_lost show ?case by (cases "is_closed c") (simp_all add: ws_closing_def ws_basic_defs)
qed

section \<open>Delivery\<close>

lemma client_frame_nth0 [simp]: "(client_frame b key p @ rest) ! 0 = chr8 b"
  by (simp add: client_frame_def)

lemma drop_client_frame:
  assumes "length key = 4"
  shows "drop (length (client_frame b key p) - length p) (client_frame b key p @ rest) =
           unmask_payload p key @ rest"
  using assms by (simp add: client_frame_def)

lemma length_client_frame: "length p \<le> length (client_frame b key p)"
  by (simp add: client_frame_def)

text \<open>A frame from a client that passes the header checks is handled with its plain payload.\<close>

lemma process_frame_client:
  assumes "length key = 4" "length p < 2 ^ 63" "b AND 0x08 = 0 \<or> length p \<le> 125 \<and> b AND 0x80 \<noteq> 0"
    and "h = client_header b key p frame_header_init"
    and "\<not> protocol_error c b h" "\<not> too_big c h"
  shows "process_frame env c (client_frame b key p @ rest) = handle_frame env c b h p rest"
proof -
  have "unat (of_nat (length p) :: 64 word) = length p"
    using len_word_small [OF assms(2)] by simp
  moreover have "drop (length (client_frame b key p) - length p + length p)
      (client_frame b key p @ rest) = rest"
    using length_client_frame [of p b key] by simp
  ultimately show ?thesis
    using assms drop_client_frame [OF assms(1), of b p rest]
      inspect_client_frame [OF assms(2,3,1), of rest frame_header_init]
    by (simp add: process_frame_def Let_def client_header_def unmask_unmask)
qed

lemma client_not_too_big:
  assumes "length p < 2 ^ 63" "length p \<le> unat (max_message_size c)"
    and "b AND 0x0F = kContinuation \<Longrightarrow> length (fragment_payload c) + length p < 2 ^ 63 \<and>
           length (fragment_payload c) + length p \<le> unat (max_message_size c)"
  shows "\<not> too_big c (client_header b key p h)"
proof -
  have 1: "(of_nat m + of_nat n :: 64 word) \<le> max_message_size c"
    if "m + n < 2 ^ 63" "m + n \<le> unat (max_message_size c)" for m n
    using len_word_small(1) [OF that(1)] that(2) by (simp add: word_le_nat_alt flip: of_nat_add)
  then show ?thesis
    using assms(3) 1 [of 0 "length p"] assms(1,2)
    by (auto simp: too_big_def client_header_def Let_def not_less)
qed

lemma deliver_pass_process:
  assumes "process_frame env c buffer = deliver_pass r rest" "\<not> is_closed c" "buffer \<noteq> []"
    and "fst r \<longleftrightarrow> \<not> is_closed (snd r)"
  shows "fst (process_raw_data env c buffer) = fst (process_raw_data env (snd r) rest)"
  using assms by (simp add: process_raw_data.simps [of env c] process_raw_data.simps [of env "snd r"] deliver_pass_def)

lemma client_frame_Nil [simp]: "client_frame b key p \<noteq> []"
  by (simp add: client_frame_def)

lemma last_frame_delivered:
  assumes key: "length key = 4" and open_c: "\<not> is_closed c"
    and opc: "fragment_opcode c = kText \<or> fragment_opcode c = kBinary"
    and z: "\<not> fragment_compressed c"
    and len: "length (fragment_payload c @ p) < 2 ^ 63"
      "length (fragment_payload c @ p) \<le> unat (max_message_size c)"
    and utf: "fragment_opcode c = kText \<Longrightarrow> is_valid_utf8 (fragment_payload c @ p)"
  shows "fst (process_raw_data env c (client_frame 0x80 key p @ rest)) =
         fst (process_raw_data env
               (dispatch_message env (fragment_opcode c) (fragment_payload c @ p)
                 (c\<lparr>fragment_opcode := 0, fragment_compressed := False, fragment_payload := []\<rparr>)) rest)"
proof -
  let ?h = "client_header 0x80 key p frame_header_init"
  let ?k = "c\<lparr>fragment_opcode := 0, fragment_compressed := False, fragment_payload := []\<rparr>"
  have "\<not> protocol_error c 0x80 ?h"
    using opc by (auto simp: protocol_error_def client_header_def Let_def opcode_defs)
  then have "process_frame env c (client_frame 0x80 key p @ rest) = handle_frame env c 0x80 ?h p rest"
    using key len by (intro process_frame_client client_not_too_big) simp_all
  also have "\<dots> = deliver_pass (deliver_message env (fragment_opcode c) False (fragment_payload c @ p) ?k) rest"
    using z by (simp add: handle_frame_def client_header_def Let_def opcode_defs)
  finally have p: "process_frame env c (client_frame 0x80 key p @ rest) = \<dots>" .
  have "deliver_message env (fragment_opcode c) False (fragment_payload c @ p) ?k =
      (let d = dispatch_message env (fragment_opcode c) (fragment_payload c @ p) ?k in (\<not> is_closed d, d))"
    using utf by (auto simp: deliver_message_def)
  with deliver_pass_process [OF p open_c] show ?thesis by (simp add: Let_def)
qed

lemma first_fragment:
  assumes key: "length key = 4" and open_c: "\<not> is_closed c" and fresh: "fragment_opcode c = 0"
    and b: "b = kText \<or> b = kBinary"
    and len: "length p < 2 ^ 63" "length p \<le> unat (max_message_size c)"
  shows "fst (process_raw_data env c (client_frame b key p @ rest)) =
         fst (process_raw_data env
               (c\<lparr>fragment_opcode := b, fragment_compressed := False, fragment_payload := p\<rparr>) rest)"
proof -
  let ?h = "client_header b key p frame_header_init"
  have "\<not> protocol_error c b ?h"
    using b fresh by (auto simp: protocol_error_def client_header_def Let_def opcode_defs)
  then have "process_frame env c (client_frame b key p @ rest) = handle_frame env c b ?h p rest"
    using key len b by (intro process_frame_client client_not_too_big) (auto simp: opcode_defs)
  also have "\<dots> = Next (c\<lparr>fragment_opcode := b, fragment_compressed := False, fragment_payload := p\<rparr>) rest"
    using b by (elim disjE) (simp_all add: handle_frame_def client_header_def Let_def opcode_defs)
  finally show ?thesis using open_c by (simp add: process_raw_data.simps [of env c])
qed

lemma middle_fragments:
  assumes key: "length key = 4" and open_c: "\<not> is_closed c"
    and opc: "fragment_opcode c = kText \<or> fragment_opcode c = kBinary"
    and len: "length (fragment_payload c @ concat ps) < 2 ^ 63"
      "length (fragment_payload c @ concat ps) \<le> unat (max_message_size c)"
  shows "fst (process_raw_data env c (concat (map (client_frame 0 key) ps) @ rest)) =
         fst (process_raw_data env (c\<lparr>fragment_payload := fragment_payload c @ concat ps\<rparr>) rest)"
  using open_c opc len
proof (induction ps arbitrary: c)
  case (Cons p ps)
  let ?h = "client_header 0 key p frame_header_init"
  let ?c = "c\<lparr>fragment_payload := fragment_payload c @ p\<rparr>"
  let ?rest = "concat (map (client_frame 0 key) ps) @ rest"
  have "\<not> protocol_error c 0 ?h"
    using Cons.prems by (auto simp: protocol_error_def client_header_def Let_def opcode_defs)
  then have "process_frame env c (client_frame 0 key p @ ?rest) = handle_frame env c 0 ?h p ?rest"
    using key Cons.prems by (intro process_frame_client client_not_too_big) auto
  also have "\<dots> = Next ?c ?rest"
    by (simp add: handle_frame_def client_header_def Let_def opcode_defs)
  finally have "fst (process_raw_data env c (client_frame 0 key p @ ?rest)) =
      fst (process_raw_data env ?c ?rest)"
    using Cons.prems by (simp add: process_raw_data.simps [of env c])
  also have "\<dots> = fst (process_raw_data env (?c\<lparr>fragment_payload := fragment_payload ?c @ concat ps\<rparr>) rest)"
    by (rule Cons.IH) (use Cons.prems in auto)
  finally show ?case by simp
qed simp

section \<open>Properties\<close>

text \<open>
  An environment for the witnesses: an application that echoes text messages, but lowers the
  limit to four bytes when it is asked to.
\<close>

definition echo_env :: ws_env where
  "echo_env =
     \<lparr>message_handler = Some (\<lambda>m. if m = ''lower'' then [OpSetMaxSize 4] else [OpSend m]), binary_handler = None, close_handler = True,
      z_inflate = (\<lambda>_ _. (True, [])), z_deflate = (\<lambda>_. None)\<rparr>"

definition echo_conn :: ws_conn where
  "echo_conn = set_max_message_size 100 (ws_init False)"

lemma echo_conn_reachable: "ws_reachable echo_env echo_conn []"
  using ws_reachable.called [OF ws_reachable.upgraded [of echo_env False], of "OpSetMaxSize 100"]
  by (simp add: echo_conn_def)

lemma echo_conn_received:
  "ws_reachable echo_env (fst (process_raw_data echo_env echo_conn bytes))
     (snd (process_raw_data echo_env echo_conn bytes))"
  by (rule ws_reachable.received [OF echo_conn_reachable, of bytes]) simp

text \<open>
  C35: The WebSocket receive loop does not depend on how TCP cuts the byte stream: after any
  sequence of reads, the connection (frames written, handler calls, fragment state) is the one
  that a single read of all the bytes gives.
\<close>

theorem ws_chunk_independent:
  "fst (receive_chunks env c chunks) = fst (process_raw_data env c (concat chunks))"
  using receive_chunks_concat [of env c chunks] by (simp add: same_outcome_def)

text \<open>
  C34: In every state a WebSocket connection can reach, whatever the client sends and whatever the
  handlers call (among it \<open>set_max_message_size\<close>, at any moment and with any limit below
  \<open>2 ^ 63\<close>; the limit is 16 MiB until it is set): every message delivered to the application was,
  after inflation, within the limit in force at its delivery, every text message is valid UTF-8,
  and the reassembly buffer is never larger than the largest limit that was in force so far.
\<close>

theorem ws_messages_bounded:
  assumes "ws_reachable env c pending"
  shows "(\<forall>earlier later opc m. ws_events c = earlier @ OnMessage opc m # later \<longrightarrow>
            length m \<le> limit_in_force (rev earlier) \<and> (opc = kText \<longrightarrow> is_valid_utf8 m)) \<and>
         (\<forall>earlier later m. ws_events c = earlier @ OnBinary m # later \<longrightarrow>
            length m \<le> limit_in_force (rev earlier)) \<and>
         length (fragment_payload c) \<le> largest_limit (rev (ws_events c)) \<and>
         unat (max_message_size c) = limit_in_force (rev (ws_events c))"
proof -
  have b: "ws_bounded c" using ws_reachable_ok [OF assms] by simp
  have "event_ok (limit_in_force (rev earlier)) ev" if "ws_events c = earlier @ ev # later"
    for earlier ev later
    using b that events_ok_split [of "rev later" ev "rev earlier"] by (simp add: ws_bounded_def)
  then have "\<forall>earlier later opc m. ws_events c = earlier @ OnMessage opc m # later \<longrightarrow>
      event_ok (limit_in_force (rev earlier)) (OnMessage opc m)"
    and "\<forall>earlier later m. ws_events c = earlier @ OnBinary m # later \<longrightarrow>
      event_ok (limit_in_force (rev earlier)) (OnBinary m)"
    by blast+
  with b show ?thesis by (simp add: ws_bounded_def)
qed

text \<open>
  Three messages: the second lowers the limit to four bytes, so that the third, of five, is
  refused, although the second itself was longer than that when it was delivered.
\<close>

theorem ws_messages_bounded_witness:
  "let c = fst (process_raw_data echo_env echo_conn
                  (client_frame 0x81 [1, 2, 3, 4] ''Hello'' @ client_frame 0x81 [1, 2, 3, 4] ''lower'' @
                   client_frame 0x81 [1, 2, 3, 4] ''Hello''))
   in ws_events c =
        [LimitSet 100, OnMessage kText ''Hello'', OnMessage kText ''lower'', LimitSet 4, OnClose] \<and>
      length ''Hello'' \<le> limit_in_force [LimitSet 100] \<and>
      length ''lower'' \<le> limit_in_force [OnMessage kText ''Hello'', LimitSet 100] \<and>
      unat (max_message_size c) = 4"
proof -
  let ?b = "client_frame 0x81 [1, 2, 3, 4] ''Hello'' @ client_frame 0x81 [1, 2, 3, 4] ''lower'' @
            client_frame 0x81 [1, 2, 3, 4] ''Hello''"
  let ?c = "fst (process_raw_data echo_env echo_conn ?b)"
  have e: "ws_events ?c =
      [LimitSet 100, OnMessage kText ''Hello'', OnMessage kText ''lower'', LimitSet 4, OnClose]"
    by code_simp
  note b = ws_messages_bounded [OF echo_conn_received, of ?b]
  have "ws_events ?c = [LimitSet 100] @ OnMessage kText ''Hello'' #
      [OnMessage kText ''lower'', LimitSet 4, OnClose]"
    "ws_events ?c = [LimitSet 100, OnMessage kText ''Hello''] @ OnMessage kText ''lower'' #
      [LimitSet 4, OnClose]"
    using e by simp_all
  with b have "length ''Hello'' \<le> limit_in_force (rev [LimitSet 100])"
    "length ''lower'' \<le> limit_in_force (rev [LimitSet 100, OnMessage kText ''Hello''])"
    "unat (max_message_size ?c) = limit_in_force (rev (ws_events ?c))"
    by blast+
  with e show ?thesis by (simp add: Let_def)
qed

text \<open>
  The closing handshake happens at most once in any run of a connection: an open connection
  has sent no close frame; a closed one has called the close handler exactly once (when there is
  one) and either has sent exactly one close frame, after which it sent nothing, and closed the
  transport once, or lost the transport without sending one.
\<close>

theorem ws_close_handshake_once:
  assumes "ws_reachable env c pending"
  shows "count_list (ws_events c) OnClose = (if is_closed c \<and> close_handler env then 1 else 0) \<and>
         (\<not> is_closed c \<longrightarrow> ws_transport_closes c = 0 \<and> \<not> list_ex is_close_frame (ws_written c)) \<and>
         (is_closed c \<longrightarrow>
            (ws_transport_closes c = 1 \<and>
               (\<exists>fs f. ws_written c = fs @ [f] \<and> is_close_frame f \<and> \<not> list_ex is_close_frame fs)) \<or>
            (ws_transport_closes c = 0 \<and> \<not> list_ex is_close_frame (ws_written c)))"
proof -
  have "ws_closing env c" using ws_reachable_ok [OF assms] by simp
  moreover have "ws_written c \<noteq> [] \<and> is_close_frame (last (ws_written c)) \<and>
      \<not> list_ex is_close_frame (butlast (ws_written c)) \<longleftrightarrow>
      (\<exists>fs f. ws_written c = fs @ [f] \<and> is_close_frame f \<and> \<not> list_ex is_close_frame fs)"
    by (cases "ws_written c" rule: rev_cases) auto
  ultimately show ?thesis by (simp add: ws_closing_def split: if_splits)
qed

theorem ws_close_handshake_once_witness:
  "let c = fst (process_raw_data echo_env echo_conn
                  (client_frame 0x88 [1, 2, 3, 4] [] @ client_frame 0x81 [1, 2, 3, 4] ''Hi''))
   in is_closed c \<and> count_list (ws_events c) OnClose = 1"
proof -
  let ?b = "client_frame 0x88 [1, 2, 3, 4] [] @ client_frame 0x81 [1, 2, 3, 4] ''Hi''"
  have "is_closed (fst (process_raw_data echo_env echo_conn ?b))" by code_simp
  with ws_close_handshake_once [OF echo_conn_received, of ?b] show ?thesis
    by (simp add: Let_def echo_env_def)
qed

text \<open>
  An uncompressed message that a client sends in any number of fragments reaches the
  application once, as the concatenation of the fragments' unmasked payloads, under the opcode of
  the first fragment, and the connection is left ready for the next message; the bytes that follow
  are then processed.
\<close>

theorem ws_fragments_reassembled:
  assumes "\<not> is_closed c" "fragment_opcode c = 0" "fragment_payload c = []" "\<not> fragment_compressed c"
    and "b = kText \<or> b = kBinary" "length key = 4"
    and "length (p @ concat ps @ q) < 2 ^ 63"
    and "length (p @ concat ps @ q) \<le> unat (max_message_size c)"
    and "b = kText \<longrightarrow> is_valid_utf8 (p @ concat ps @ q)"
  shows "fst (process_raw_data env c
               (client_frame b key p @ concat (map (client_frame 0 key) ps) @ client_frame 0x80 key q @ rest)) =
         fst (process_raw_data env (dispatch_message env b (p @ concat ps @ q) c) rest)"
proof -
  let ?c1 = "c\<lparr>fragment_opcode := b, fragment_compressed := False, fragment_payload := p\<rparr>"
  let ?c2 = "?c1\<lparr>fragment_payload := fragment_payload ?c1 @ concat ps\<rparr>"
  have k: "c\<lparr>fragment_opcode := 0, fragment_compressed := False, fragment_payload := []\<rparr> = c"
    using assms(2-4) by (cases c) simp
  have "fst (process_raw_data env c
               (client_frame b key p @ concat (map (client_frame 0 key) ps) @ client_frame 0x80 key q @ rest)) =
      fst (process_raw_data env (dispatch_message env b (p @ concat ps @ q)
        (c\<lparr>fragment_opcode := 0, fragment_compressed := False, fragment_payload := []\<rparr>)) rest)"
    using assms first_fragment [of key c b p env] middle_fragments [of key ?c1 ps env]
      last_frame_delivered [of key ?c2 q env rest]
    by simp
  then show ?thesis by (simp only: k)
qed

theorem ws_fragments_reassembled_witness:
  "fst (process_raw_data echo_env echo_conn
         (client_frame kText [1, 2, 3, 4] ''He'' @ client_frame 0 [1, 2, 3, 4] ''ll'' @
          client_frame 0x80 [1, 2, 3, 4] ''o'')) =
   dispatch_message echo_env kText ''Hello'' echo_conn"
proof -
  have "process_raw_data echo_env d [] = (d, [])" for d by (simp add: process_raw_data.simps)
  moreover have "\<not> is_closed echo_conn" "fragment_opcode echo_conn = 0" "fragment_payload echo_conn = []"
    "\<not> fragment_compressed echo_conn" "unat (max_message_size echo_conn) = 100" "is_valid_utf8 ''Hello''"
    by code_simp+
  ultimately show ?thesis
    using ws_fragments_reassembled [of echo_conn kText "[1, 2, 3, 4]" "''He''" "[''ll'']" "''o''" echo_env "[]"]
    by simp
qed

text \<open>
  A frame whose header breaks the protocol (unmasked, a reserved bit or opcode, a continuation
  of nothing, a new message inside a fragmented one) is refused as soon as its header is there,
  whatever part of the payload has arrived: the buffer is dropped, exactly one close frame with
  status 1002 is sent, the connection is closed and no message handler runs.
\<close>

theorem ws_protocol_error_refused:
  assumes "\<not> is_closed c" and "inspect_frame buffer frame_header_init = (st, h)"
    and "st = NeedPayload \<or> st = Complete" and "protocol_error c (u8 (buffer ! 0)) h"
  shows "process_raw_data env c buffer =
           (c\<lparr>is_closed := True,
              ws_written := ws_written c @ [write_frame 0x88 (code_bytes 1002)],
              ws_transport_closes := Suc (ws_transport_closes c),
              ws_events := ws_events c @ (if close_handler env then [OnClose] else [])\<rparr>, [])"
proof -
  have "buffer \<noteq> []" using assms(2,3) by (auto simp: inspect_frame_def)
  moreover have "process_frame env c buffer = Leave (fail_connection env 1002 c) []"
    using assms by (auto simp: process_frame_def)
  ultimately show ?thesis
    using assms(1) by (simp add: process_raw_data.simps [of env c] ws_basic_defs opcode_defs)
qed

theorem ws_protocol_error_refused_witness:
  "ws_written (fst (process_raw_data echo_env echo_conn [chr8 0x81, chr8 0x05])) =
     [write_frame 0x88 (code_bytes 1002)]"
proof -
  have "inspect_frame [chr8 0x81, chr8 0x05] frame_header_init =
      (NeedPayload, snd (inspect_frame [chr8 0x81, chr8 0x05] frame_header_init))"
    and "protocol_error echo_conn (u8 ([chr8 0x81, chr8 0x05] ! 0))
           (snd (inspect_frame [chr8 0x81, chr8 0x05] frame_header_init))"
    and "\<not> is_closed echo_conn" "ws_written echo_conn = []"
    by code_simp+
  with ws_protocol_error_refused [of echo_conn "[chr8 0x81, chr8 0x05]" NeedPayload _ echo_env] show ?thesis
    by simp
qed

end
