(* ===== verification/Http_Text.thy ===== *)
theory Http_Text
  imports Orbit_Prelude
begin

text \<open>
  The text formats around a request: \<^verbatim>\<open>src/http/HttpParser.cpp\<close> (percent-decoding, form bodies,
  cookies, list-valued headers, methods), \<^verbatim>\<open>include/orbit/http/HttpRequest.hpp\<close> (the request and
  its typed parameters) and the URL encoder of \<^verbatim>\<open>src/middleware/OAuth2.cpp\<close>. An
  \<^verbatim>\<open>std::unordered_map<std::string, std::string>\<close> is a HOL map. A decoder that returns
  \<^verbatim>\<open>false\<close> gives \<open>None\<close>.
\<close>

section \<open>Requests\<close>

datatype HttpMethod = GET | POST | PUT | PATCH | DELETE | OPTIONS | HEAD | UNKNOWN

type_synonym fields = "string \<rightharpoonup> string"

record HttpRequest =
  req_method :: HttpMethod
  req_uri :: string
  req_target :: string
  req_query :: fields
  http_version :: string
  req_headers :: headers
  req_body :: string
  req_params :: fields
  req_cookies :: fields
  client_ip :: string
  peer_ip :: string
  session_id :: string
  request_id :: string
  trace_id :: string
  span_id :: string
  owned_header_storage :: "string list"

definition empty_request :: HttpRequest where
  "empty_request =
     \<lparr>req_method = UNKNOWN, req_uri = [], req_target = [], req_query = Map.empty, http_version = [],
      req_headers = [], req_body = [], req_params = Map.empty, req_cookies = Map.empty,
      client_ip = [], peer_ip = [], session_id = [], request_id = [], trace_id = [], span_id = [],
      owned_header_storage = []\<rparr>"

definition parse_method :: "string \<Rightarrow> HttpMethod" where
  "parse_method m =
     (if m = ''GET'' then GET else if m = ''POST'' then POST else if m = ''PUT'' then PUT
      else if m = ''PATCH'' then PATCH else if m = ''DELETE'' then DELETE
      else if m = ''OPTIONS'' then OPTIONS else if m = ''HEAD'' then HEAD else UNKNOWN)"

definition set_header :: "string \<Rightarrow> string \<Rightarrow> HttpRequest \<Rightarrow> HttpRequest" where
  "set_header name val r =
     r\<lparr>owned_header_storage := owned_header_storage r @ [name, val],
       req_headers := hdr_set name val (req_headers r)\<rparr>"

text \<open>\<open>parse_param\<close> at its string, Boolean and integral instances (an integral type is given by
  its least and greatest value; \<^verbatim>\<open>from_chars\<close> takes a sign only for a signed type).\<close>

definition parse_param_bool :: "string \<Rightarrow> bool option" where
  "parse_param_bool t =
     (if t = ''true'' \<or> t = ''1'' then Some True
      else if t = ''false'' \<or> t = ''0'' then Some False else None)"

definition parse_param_signed :: "int \<Rightarrow> int \<Rightarrow> string \<Rightarrow> int option" where
  "parse_param_signed lo hi t =
     (case from_chars_signed lo hi t of Some (v, []) \<Rightarrow> Some v | _ \<Rightarrow> None)"

definition parse_param_unsigned :: "nat \<Rightarrow> string \<Rightarrow> nat option" where
  "parse_param_unsigned m t =
     (case from_chars_unsigned m t of Some (v, []) \<Rightarrow> Some v | _ \<Rightarrow> None)"

definition param :: "(string \<Rightarrow> 'a option) \<Rightarrow> string \<Rightarrow> HttpRequest \<Rightarrow> 'a option" where
  "param parse name r = (case req_params r name of None \<Rightarrow> None | Some t \<Rightarrow> parse t)"

section \<open>List-valued header fields\<close>

definition token_is :: "string \<Rightarrow> string \<Rightarrow> bool" where
  "token_is option token \<longleftrightarrow>
     length token = length option \<and> list_all2 (\<lambda>t c. tolower t = c) token option"

definition connection_option_present :: "string \<Rightarrow> string \<Rightarrow> bool" where
  "connection_option_present field_value option =
     list_ex (\<lambda>token. token_is option (trim token)) (split_on (CHR '','') field_value)"

section \<open>Percent-encoding\<close>

definition hexval :: "char \<Rightarrow> nat option" where
  "hexval c =
     (if 48 \<le> byte_of c \<and> byte_of c \<le> 57 then Some (byte_of c - 48)
      else if 97 \<le> byte_of c \<and> byte_of c \<le> 102 then Some (byte_of c - 97 + 10)
      else if 65 \<le> byte_of c \<and> byte_of c \<le> 70 then Some (byte_of c - 65 + 10)
      else None)"

text \<open>The check \<^verbatim>\<open>i + 2 >= in.size()\<close> fails exactly when two characters follow the percent sign.\<close>

fun percent_decode :: "bool \<Rightarrow> bool \<Rightarrow> string \<Rightarrow> string option" where
  "percent_decode plus_as_space for_path [] = Some []"
| "percent_decode plus_as_space for_path (c # rest) =
     (if c = CHR ''%'' then
        (case rest of
           h # l # rest' \<Rightarrow>
             (case (hexval h, hexval l) of
                (Some hi, Some lo) \<Rightarrow>
                  (let decoded = char_of (hi * 16 + lo)
                   in if for_path \<and> (decoded = CHR ''/'' \<or> decoded = CHR 0x5C \<or> decoded = NUL) then None
                      else map_option ((#) decoded) (percent_decode plus_as_space for_path rest'))
              | _ \<Rightarrow> None)
         | _ \<Rightarrow> None)
      else if c = CHR ''+'' \<and> plus_as_space
      then map_option ((#) (CHR '' '')) (percent_decode plus_as_space for_path rest)
      else map_option ((#) c) (percent_decode plus_as_space for_path rest))"

definition hex_value :: "string \<Rightarrow> nat" where
  "hex_value s = foldl (\<lambda>acc c. 16 * acc + the (hexval c)) 0 s"

definition hex_upper :: "nat \<Rightarrow> char" where
  "hex_upper n = ''0123456789ABCDEF'' ! n"

definition is_unreserved :: "char \<Rightarrow> bool" where
  "is_unreserved c \<longleftrightarrow> isalnum c \<or> c = CHR ''-'' \<or> c = CHR ''.'' \<or> c = CHR ''_'' \<or> c = CHR ''~''"

definition url_encode :: "string \<Rightarrow> string" where
  "url_encode value =
     concat (map (\<lambda>c. if is_unreserved c then [c]
                      else [CHR ''%'', hex_upper (byte_of c div 16), hex_upper (byte_of c mod 16)]) value)"

fun url_decode :: "string \<Rightarrow> string" where
  "url_decode [] = []"
| "url_decode (c # rest) =
     (if c = CHR ''+'' then CHR '' '' # url_decode rest
      else if c = CHR ''%'' then
        (case rest of
           h # l # rest' \<Rightarrow>
             (case (hexval h, hexval l) of
                (Some hi, Some lo) \<Rightarrow> char_of (hi * 16 + lo) # url_decode rest'
              | _ \<Rightarrow> c # url_decode rest)
         | _ \<Rightarrow> c # url_decode rest)
      else c # url_decode rest)"

section \<open>Form bodies\<close>

text \<open>One \<^verbatim>\<open>name=value\<close> pair: \<^verbatim>\<open>pair.substr(0, npos)\<close> is the whole pair when there is no equals sign.\<close>

definition decode_pair :: "string \<Rightarrow> (string \<times> string) option" where
  "decode_pair pair =
     (case split_at (CHR ''='') pair of (n, v) \<Rightarrow>
        case percent_decode True False n of
          None \<Rightarrow> None
        | Some name \<Rightarrow> map_option (Pair name) (percent_decode True False (case v of None \<Rightarrow> [] | Some x \<Rightarrow> x)))"

fun parse_pairs :: "string list \<Rightarrow> fields \<Rightarrow> fields option" where
  "parse_pairs [] out = Some out"
| "parse_pairs (pair # pairs) out =
     (if pair = [] then parse_pairs pairs out
      else case decode_pair pair of
             None \<Rightarrow> None
           | Some (name, val) \<Rightarrow> parse_pairs pairs (out(name \<mapsto> val)))"

definition parse_urlencoded :: "string \<Rightarrow> fields \<Rightarrow> fields option" where
  "parse_urlencoded data out = parse_pairs (split_on (CHR ''&'') data) out"

definition kForm :: string where
  "kForm = ''application/x-www-form-urlencoded''"

definition form_fields :: "HttpRequest \<Rightarrow> fields" where
  "form_fields r =
     (case hdr_find ''Content-Type'' (req_headers r) of
        None \<Rightarrow> Map.empty
      | Some ct \<Rightarrow>
          let media = ltrim (rtrim (fst (split_at (CHR '';'') ct)))
          in if \<not> token_is kForm media then Map.empty
             else case parse_urlencoded (req_body r) Map.empty of
                    None \<Rightarrow> Map.empty
                  | Some fs \<Rightarrow> fs)"

section \<open>Cookies\<close>

function parse_cookie_header :: "string \<Rightarrow> fields \<Rightarrow> fields" where
  "parse_cookie_header s out =
     (if s = [] then out
      else case split_at (CHR ''='') (dropWhile (\<lambda>c. c = CHR '' '') s) of
             (key, None) \<Rightarrow> out
           | (key, Some after) \<Rightarrow>
               (case split_at (CHR '';'') after of
                  (val, Some rest) \<Rightarrow> parse_cookie_header rest (out(key \<mapsto> val))
                | (val, None) \<Rightarrow> out(key \<mapsto> val)))"
  by pat_completeness auto
termination
proof (relation "measure (\<lambda>(s, out). length s)", simp, clarsimp)
  fix s key after val rest
  assume "(key, Some after) = split_at (CHR ''='') (dropWhile (\<lambda>c. c = CHR '' '') s)"
    and "(val, Some rest) = split_at (CHR '';'') after"
  then have "length after < length (dropWhile (\<lambda>c. c = CHR '' '') s)" "length rest < length after"
    by (metis split_at_shrinks)+
  with length_dropWhile_le [of "\<lambda>c. c = CHR '' ''" s] show "length rest < length s" by simp
qed

declare parse_cookie_header.simps [simp del]

section \<open>Decoding what was encoded\<close>

lemma hex_upper_cases:
  "n < 16 \<Longrightarrow> hex_upper n = (if n < 10 then char_of (48 + n) else char_of (55 + n))"
proof -
  have "list_all (\<lambda>n. hex_upper n = (if n < 10 then char_of (48 + n) else char_of (55 + n))) [0..<16]"
    by code_simp
  then show "n < 16 \<Longrightarrow> ?thesis" by (simp add: list_all_iff)
qed

lemma hexval_hex_upper [simp]: "n < 16 \<Longrightarrow> hexval (hex_upper n) = Some n"
  by (simp add: hex_upper_cases hexval_def)

lemma byte_hex: "char_of (byte_of c div 16 * 16 + byte_of c mod 16) = c"
  by simp

lemma byte_div_less [simp]: "byte_of c div 16 < 16"
  using byte_of_less [of c] by simp

lemma hexval_bound: "hexval c = Some n \<Longrightarrow> n < 16"
  by (auto simp: hexval_def split: if_splits)

lemma url_encode_Nil [simp]: "url_encode [] = []"
  by (simp add: url_encode_def)

lemma url_encode_Cons:
  "url_encode (c # s) =
     (if is_unreserved c then c # url_encode s
      else CHR ''%'' # hex_upper (byte_of c div 16) # hex_upper (byte_of c mod 16) # url_encode s)"
  by (simp add: url_encode_def)

lemma unreserved_plain [simp]:
  "\<not> is_unreserved (CHR ''%'')" "\<not> is_unreserved (CHR ''+'')" "\<not> is_unreserved (CHR ''='')"
  "\<not> is_unreserved (CHR ''&'')"
  by code_simp+

lemma percent_decode_url_encode: "percent_decode ps False (url_encode s) = Some s"
proof (induction s)
  case (Cons c s)
  then show ?case by (auto simp: url_encode_Cons)
qed simp

lemma url_decode_url_encode: "url_decode (url_encode s) = s"
proof (induction s)
  case (Cons c s)
  then show ?case by (auto simp: url_encode_Cons)
qed simp

lemma hex_upper_unreserved: "n < 16 \<Longrightarrow> is_unreserved (hex_upper n)"
  by (auto simp: hex_upper_cases is_unreserved_def isalnum_def isdigit_def isalpha_def)

lemma set_url_encode: "set (url_encode s) \<subseteq> insert (CHR ''%'') (Collect is_unreserved)"
  by (induction s) (auto simp: url_encode_Cons hex_upper_unreserved)

lemma url_encode_no_sep:
  "CHR ''='' \<notin> set (url_encode s)" "CHR ''&'' \<notin> set (url_encode s)"
  using set_url_encode [of s] unreserved_plain by blast+

text \<open>The reference encoder: what a browser sends for a list of fields.\<close>

definition form_encode :: "(string \<times> string) list \<Rightarrow> string" where
  "form_encode fs = join ''&'' (map (\<lambda>(k, v). url_encode k @ ''='' @ url_encode v) fs)"

lemma decode_pair_encoded: "decode_pair (url_encode k @ CHR ''='' # url_encode v) = Some (k, v)"
  by (simp add: decode_pair_def url_encode_no_sep percent_decode_url_encode)

lemma parse_pairs_encoded:
  "parse_pairs (map (\<lambda>(k, v). url_encode k @ CHR ''='' # url_encode v) fs) out = Some (put_all out fs)"
  by (induction fs arbitrary: out) (auto simp: decode_pair_encoded)

lemma parse_urlencoded_form_encode:
  "parse_urlencoded (form_encode fs) out = Some (put_all out fs)"
proof (cases "fs = []")
  case True
  then show ?thesis by (simp add: parse_urlencoded_def form_encode_def split_on_notin)
next
  case False
  have "split_on (CHR ''&'') (form_encode fs) = map (\<lambda>(k, v). url_encode k @ ''='' @ url_encode v) fs"
    unfolding form_encode_def using False by (intro split_on_join) (auto simp: url_encode_no_sep)
  then show ?thesis by (simp add: parse_urlencoded_def parse_pairs_encoded)
qed

lemma percent_decode_path_safe:
  "percent_decode ps True s = Some d \<Longrightarrow> c \<in> set d \<Longrightarrow> c \<in> {CHR ''/'', CHR 0x5C, NUL} \<Longrightarrow> c \<in> set s"
proof (induction ps True s arbitrary: d rule: percent_decode.induct)
  case (2 ps x rest)
  show ?case
  proof (cases "x = CHR ''%''")
    case True
    with "2.prems"(1) obtain h l r hi lo e where r: "rest = h # l # r" "hexval h = Some hi" "hexval l = Some lo"
      and e: "percent_decode ps True r = Some e" "d = char_of (hi * 16 + lo) # e"
      and safe: "char_of (hi * 16 + lo) \<notin> {CHR ''/'', CHR 0x5C, NUL}"
      by (auto simp: Let_def split: if_splits list.splits option.splits)
    from "2.prems"(2,3) e(2) safe have "c \<in> set e" by auto
    with "2.hyps"(1) [OF True r(1) refl refl] r e "2.prems"(3) True safe show ?thesis by auto
  next
    case False
    with "2.prems"(1) obtain e y where e: "percent_decode ps True rest = Some e" "d = y # e"
      "y = x \<or> y = CHR '' ''"
      by (auto split: if_splits)
    with False "2.prems" "2.hyps"(2,3) show ?thesis by (auto split: if_splits)
  qed
qed simp

lemma percent_decode_keeps:
  "percent_decode ps fp s = Some d \<Longrightarrow> c \<in> set s \<Longrightarrow>
   hexval c = None \<and> c \<noteq> CHR ''%'' \<and> c \<noteq> CHR ''+'' \<Longrightarrow> c \<in> set d"
proof (induction ps fp s arbitrary: d rule: percent_decode.induct)
  case (2 ps fp x rest)
  show ?case
  proof (cases "x = CHR ''%''")
    case True
    with "2.prems"(1) obtain h l r hi lo e where r: "rest = h # l # r" "hexval h = Some hi" "hexval l = Some lo"
      and e: "percent_decode ps fp r = Some e" "d = char_of (hi * 16 + lo) # e"
      and safe: "fp \<longrightarrow> char_of (hi * 16 + lo) \<notin> {CHR ''/'', CHR 0x5C, NUL}"
      by (auto simp: Let_def split: if_splits list.splits option.splits)
    from "2.prems"(2,3) True r have "c \<in> set r" by auto
    with "2.IH"(1) [OF True r(1) refl refl] r e "2.prems"(3) True safe show ?thesis by auto
  next
    case False
    with "2.prems"(1) obtain e y where e: "percent_decode ps fp rest = Some e" "d = y # e"
      "y = x \<or> x = CHR ''+''"
      by (auto split: if_splits)
    with False "2.prems" "2.IH"(2,3) show ?thesis by (auto split: if_splits)
  qed
qed simp

section \<open>Cookies read back\<close>

text \<open>The reference: a \<^verbatim>\<open>Cookie\<close> header as RFC 6265, section 4.2.1, writes it.\<close>

definition cookie_encode :: "(string \<times> string) list \<Rightarrow> string" where
  "cookie_encode cs = join ''; '' (map (\<lambda>(k, v). k @ ''='' @ v) cs)"

definition cookie_ok :: "string \<times> string \<Rightarrow> bool" where
  "cookie_ok kv \<longleftrightarrow> CHR ''='' \<notin> set (fst kv) \<and> (fst kv = [] \<or> hd (fst kv) \<noteq> CHR '' '') \<and>
     CHR '';'' \<notin> set (snd kv)"

lemma dropWhile_key:
  "k = [] \<or> hd k \<noteq> CHR '' '' \<Longrightarrow> dropWhile (\<lambda>c. c = CHR '' '') (k @ CHR ''='' # r) = k @ CHR ''='' # r"
  by (cases k) auto

lemma parse_cookie_last:
  assumes "cookie_ok (k, v)"
  shows "parse_cookie_header (k @ CHR ''='' # v) out = out(k \<mapsto> v)"
  using assms by (subst parse_cookie_header.simps) (simp add: cookie_ok_def dropWhile_key)

lemma parse_cookie_more:
  assumes "cookie_ok (k, v)"
  shows "parse_cookie_header (k @ CHR ''='' # v @ CHR '';'' # r) out = parse_cookie_header r (out(k \<mapsto> v))"
  using assms by (subst parse_cookie_header.simps) (simp add: cookie_ok_def dropWhile_key)

lemma parse_cookie_space:
  "r \<noteq> [] \<Longrightarrow> parse_cookie_header (CHR '' '' # r) out = parse_cookie_header r out"
  by (simp add: parse_cookie_header.simps [of "_ # _"] parse_cookie_header.simps [of r])

lemma parse_cookie_encode:
  "list_all cookie_ok cs \<Longrightarrow>
   parse_cookie_header (cookie_encode cs) out = put_all out cs"
proof (induction cs arbitrary: out)
  case Nil
  then show ?case by (simp add: cookie_encode_def parse_cookie_header.simps)
next
  case (Cons kv cs)
  obtain k v where kv: "kv = (k, v)" by fastforce
  show ?case
  proof (cases cs)
    case Nil
    with Cons.prems kv show ?thesis by (simp add: cookie_encode_def parse_cookie_last)
  next
    case (Cons kv' cs')
    have "cookie_encode (kv # cs) = k @ CHR ''='' # v @ CHR '';'' # CHR '' '' # cookie_encode cs"
      using kv Cons by (simp add: cookie_encode_def)
    moreover have "cookie_encode cs \<noteq> []"
      using Cons by (cases cs') (auto simp: cookie_encode_def split: prod.split)
    ultimately show ?thesis
      using Cons.prems Cons.IH kv by (simp add: parse_cookie_more parse_cookie_space)
  qed
qed

text \<open>A cookie without an equals sign takes the next cookie into its name.\<close>

lemma valueless_cookie_merges:
  "parse_cookie_header ''flag; sid=abc'' Map.empty ''flag; sid'' = Some ''abc''"
  "parse_cookie_header ''flag; sid=abc'' Map.empty ''sid'' = None"
  by code_simp+

section \<open>Properties\<close>

text \<open>
  A form submitted as \<^verbatim>\<open>application/x-www-form-urlencoded\<close>, with any names and values (every
  byte allowed) and with any parameters after the media type, is read back by
  \<open>form_fields\<close> exactly: each field has the value it was submitted with, the last one when a
  name is repeated, and there are no others.
\<close>

theorem form_body_roundtrip:
  assumes "hdr_find ''Content-Type'' (req_headers r) = Some ct"
    and "map tolower (ltrim (rtrim (fst (split_at (CHR '';'') ct)))) = kForm"
    and "req_body r = form_encode fs"
  shows "form_fields r = map_of (rev fs)"
proof -
  have "token_is kForm (ltrim (rtrim (fst (split_at (CHR '';'') ct))))"
    unfolding token_is_def assms(2) [symmetric] by (simp add: list_all2_conv_all_nth)
  with assms(1,3) show ?thesis
    by (simp add: form_fields_def Let_def parse_urlencoded_form_encode put_all_map_of)
qed

theorem form_body_roundtrip_witness:
  "form_fields (empty_request\<lparr>
       req_headers := [(''content-type'', ''Application/X-WWW-Form-Urlencoded ; charset=utf-8'')],
       req_body := form_encode [(''a b'', ''1&2''), (''c'', ''=%'')]\<rparr>) =
   map_of (rev [(''a b'', ''1&2''), (''c'', ''=%'')])"
  by (rule form_body_roundtrip [where ct = "''Application/X-WWW-Form-Urlencoded ; charset=utf-8''"]) code_simp+

text \<open>
  Percent-decoding a path never introduces a path separator, a backslash or a NUL byte: each
  one in the decoded path was there literally, so an escaped \<^verbatim>\<open>%2F\<close> cannot create a new path
  segment behind the router's back.
\<close>

theorem path_decode_no_smuggling:
  assumes "percent_decode plus_as_space True s = Some d" and "c \<in> {CHR ''/'', CHR 0x5C, NUL}"
  shows "c \<in> set d \<longleftrightarrow> c \<in> set s"
proof
  assume "c \<in> set d"
  with assms show "c \<in> set s" by (blast intro: percent_decode_path_safe)
next
  assume "c \<in> set s"
  moreover have "hexval c = None \<and> c \<noteq> CHR ''%'' \<and> c \<noteq> CHR ''+''" using assms(2) by (auto simp: hexval_def byte_of_def)
  ultimately show "c \<in> set d" using assms(1) by (blast intro: percent_decode_keeps)
qed

text \<open>
  A well-formed \<^verbatim>\<open>Cookie\<close> header (names without an equals sign or leading space, values
  without a semicolon) is read back exactly: each cookie with its value, the last one when a name
  is repeated, on top of what the map held.
\<close>

theorem cookie_header_roundtrip:
  assumes "list_all cookie_ok cs"
  shows "parse_cookie_header (cookie_encode cs) out = out ++ map_of (rev cs)"
  using assms by (simp add: parse_cookie_encode put_all_map_of)

theorem cookie_header_roundtrip_witness:
  "parse_cookie_header ''sid=abc==; theme=dark'' Map.empty =
     Map.empty ++ map_of (rev [(''sid'', ''abc==''), (''theme'', ''dark'')])"
  using cookie_header_roundtrip [of "[(''sid'', ''abc==''), (''theme'', ''dark'')]" Map.empty]
  by (simp add: cookie_encode_def cookie_ok_def)

theorem path_decode_no_smuggling_witness:
  "CHR ''/'' \<in> set ''/a b/c'' \<longleftrightarrow> CHR ''/'' \<in> set ''/a%20b/c''"
  by (rule path_decode_no_smuggling [of False]) code_simp+

end
