(* ===== verification/Http_Response.thy ===== *)
theory Http_Response
  imports Http_Text
begin

text \<open>
  Responses: \<^verbatim>\<open>include/orbit/http/HttpResponse.hpp\<close> and \<^verbatim>\<open>src/http/HttpResponse.cpp\<close>. The
  record has the class's fields, each member function is a definition on it, and the output stream
  of \<open>serialize_headers\<close> is the string it ends up with.

  \<^item> An \<^verbatim>\<open>unordered_map\<close> of headers is an association list whose order is the iteration order.
  \<^item> The clock and the file system are arguments: \<open>now\<close> is the text \<open>http_date_now\<close> gives,
    \<open>open_file path\<close> what opening and \<^verbatim>\<open>fstat\<close> give. File descriptors a call closes are
    returned, in order.
  \<^item> Log output is left out.
\<close>

section \<open>Data\<close>

record Cookie =
  cookie_name :: string
  cookie_value :: string
  cookie_path :: string
  cookie_domain :: string
  cookie_max_age :: int
  cookie_secure :: bool
  cookie_http_only :: bool
  cookie_same_site :: string

definition default_cookie :: Cookie where
  "default_cookie =
     \<lparr>cookie_name = [], cookie_value = [], cookie_path = ''/'', cookie_domain = [], cookie_max_age = - 1,
      cookie_secure = False, cookie_http_only = False, cookie_same_site = []\<rparr>"

record HttpResponse =
  cookies :: "Cookie list"
  status_code :: int
  res_headers :: headers
  res_body :: string
  file_fd :: int
  file_size :: int
  file_offset :: int

definition new_response :: HttpResponse where
  "new_response =
     \<lparr>cookies = [], status_code = 200, res_headers = [], res_body = [], file_fd = - 1, file_size = 0,
      file_offset = 0\<rparr>"

definition res_header :: "string \<Rightarrow> string \<Rightarrow> HttpResponse \<Rightarrow> HttpResponse" where
  "res_header k v r = r\<lparr>res_headers := hdr_set k v (res_headers r)\<rparr>"

definition set_cookie :: "Cookie \<Rightarrow> HttpResponse \<Rightarrow> HttpResponse" where
  "set_cookie c r = r\<lparr>cookies := cookies r @ [c]\<rparr>"

definition set_cookie_pair :: "string \<Rightarrow> string \<Rightarrow> HttpResponse \<Rightarrow> HttpResponse" where
  "set_cookie_pair name val = set_cookie (default_cookie\<lparr>cookie_name := name, cookie_value := val\<rparr>)"

definition status :: "int \<Rightarrow> HttpResponse \<Rightarrow> HttpResponse" where
  "status code r = r\<lparr>status_code := code\<rparr>"

definition set_body :: "string \<Rightarrow> string \<Rightarrow> HttpResponse \<Rightarrow> HttpResponse" where
  "set_body b content_type r =
     res_header ''Content-Length'' (show_nat (length b))
       (res_header ''Content-Type'' content_type (r\<lparr>res_body := b\<rparr>))"

definition send_text :: "string \<Rightarrow> HttpResponse \<Rightarrow> HttpResponse" where
  "send_text b = set_body b ''text/plain''"

definition send_json :: "string \<Rightarrow> HttpResponse \<Rightarrow> HttpResponse" where
  "send_json j = set_body j ''application/json''"

definition send_html :: "string \<Rightarrow> HttpResponse \<Rightarrow> HttpResponse" where
  "send_html h = set_body h ''text/html''"

text \<open>The template engine is a parameter: the rendered text, or \<open>None\<close> for an exception.\<close>

definition render :: "string option \<Rightarrow> HttpResponse \<Rightarrow> HttpResponse" where
  "render rendered r =
     (case rendered of
        Some result \<Rightarrow> set_body result ''text/html'' r
      | None \<Rightarrow> set_body ''<h1>500 Internal Server Error</h1>'' ''text/html'' (status 500 r))"

section \<open>Files\<close>

text \<open>Opening a file: \<open>None\<close> when it fails, else the descriptor and, unless \<^verbatim>\<open>fstat\<close> fails, the size.\<close>

type_synonym opened = "(int \<times> int option) option"

definition close_fd :: "HttpResponse \<Rightarrow> int list" where
  "close_fd r = (if file_fd r \<noteq> - 1 then [file_fd r] else [])"

definition send_file :: "opened \<Rightarrow> string \<Rightarrow> HttpResponse \<Rightarrow> HttpResponse \<times> int list" where
  "send_file opened content_type r =
     (case opened of
        None \<Rightarrow>
          (set_body ''<h1>404 Not Found</h1>'' ''text/html'' (status 404 (r\<lparr>file_offset := 0, file_fd := - 1\<rparr>)),
           close_fd r)
      | Some (fd, Some st_size) \<Rightarrow>
          (res_header ''Content-Type'' content_type
            (res_header ''Content-Length'' (show_int st_size)
              (r\<lparr>file_offset := 0, file_fd := fd, file_size := st_size\<rparr>)),
           close_fd r)
      | Some (fd, None) \<Rightarrow>
          (set_body ''<h1>500 Internal Error</h1>'' ''text/html'' (status 500 (r\<lparr>file_offset := 0, file_fd := - 1\<rparr>)),
           close_fd r @ [fd]))"

definition set_file_range :: "int \<Rightarrow> int \<Rightarrow> HttpResponse \<Rightarrow> HttpResponse" where
  "set_file_range start end' r =
     (if file_fd r = - 1 then r
      else let e = min end' (file_size r); s = min start e
           in res_header ''Content-Length'' (show_int (e - s)) (r\<lparr>file_offset := s, file_size := e\<rparr>))"

text \<open>Move assignment: the target's own file is closed, the source gives its descriptor away.\<close>

definition move_assign :: "HttpResponse \<Rightarrow> HttpResponse \<Rightarrow> HttpResponse \<times> HttpResponse \<times> int list" where
  "move_assign this other = (other, other\<lparr>file_fd := - 1\<rparr>, close_fd this)"

section \<open>Reason phrases and validity\<close>

definition reason_table :: "(int \<times> string) list" where
  "reason_table =
     [(100, ''Continue''), (101, ''Switching Protocols''), (200, ''OK''), (201, ''Created''),
      (202, ''Accepted''), (203, ''Non-Authoritative Information''), (204, ''No Content''),
      (205, ''Reset Content''), (206, ''Partial Content''), (300, ''Multiple Choices''),
      (301, ''Moved Permanently''), (302, ''Found''), (303, ''See Other''), (304, ''Not Modified''),
      (307, ''Temporary Redirect''), (308, ''Permanent Redirect''), (400, ''Bad Request''),
      (401, ''Unauthorized''), (402, ''Payment Required''), (403, ''Forbidden''), (404, ''Not Found''),
      (405, ''Method Not Allowed''), (406, ''Not Acceptable''), (407, ''Proxy Authentication Required''),
      (408, ''Request Timeout''), (409, ''Conflict''), (410, ''Gone''), (411, ''Length Required''),
      (412, ''Precondition Failed''), (413, ''Payload Too Large''), (414, ''URI Too Long''),
      (415, ''Unsupported Media Type''), (416, ''Range Not Satisfiable''), (417, ''Expectation Failed''),
      (418, ''I'' @ CHR 0x27 # ''m a teapot''), (421, ''Misdirected Request''), (422, ''Unprocessable Entity''),
      (423, ''Locked''), (424, ''Failed Dependency''), (425, ''Too Early''), (426, ''Upgrade Required''),
      (428, ''Precondition Required''), (429, ''Too Many Requests''),
      (431, ''Request Header Fields Too Large''), (451, ''Unavailable For Legal Reasons''),
      (500, ''Internal Server Error''), (501, ''Not Implemented''), (502, ''Bad Gateway''),
      (503, ''Service Unavailable''), (504, ''Gateway Timeout''), (505, ''HTTP Version Not Supported''),
      (507, ''Insufficient Storage''), (508, ''Loop Detected''), (511, ''Network Authentication Required'')]"

definition reason_phrase :: "int \<Rightarrow> string" where
  "reason_phrase code =
     (case map_of reason_table code of
        Some s \<Rightarrow> s
      | None \<Rightarrow>
          (let class' = code div 100
           in if class' = 1 then ''Informational'' else if class' = 2 then ''Success''
              else if class' = 3 then ''Redirection'' else if class' = 4 then ''Client Error''
              else ''Server Error''))"

definition is_valid_header_name :: "string \<Rightarrow> bool" where
  "is_valid_header_name name \<longleftrightarrow>
     name \<noteq> [] \<and>
     list_all (\<lambda>c. isalnum c \<or> c \<in> set (''!#$%&'' @ CHR 0x27 # ''*+-.^_'' @ CHR 0x60 # ''|~'')) name"

definition is_valid_header_value :: "string \<Rightarrow> bool" where
  "is_valid_header_value val \<longleftrightarrow> list_all (\<lambda>c. c \<noteq> CR \<and> c \<noteq> LF \<and> c \<noteq> NUL) val"

definition is_safe_cookie_part :: "string \<Rightarrow> bool" where
  "is_safe_cookie_part s \<longleftrightarrow> list_all (\<lambda>c. c \<noteq> CR \<and> c \<noteq> LF \<and> c \<noteq> NUL \<and> c \<noteq> CHR '';'') s"

section \<open>Serialisation\<close>

definition effective_code :: "HttpResponse \<Rightarrow> int" where
  "effective_code r = (if status_code r < 100 \<or> status_code r > 999 then 500 else status_code r)"

definition sent_headers :: "HttpResponse \<Rightarrow> headers" where
  "sent_headers r = filter (\<lambda>(k, v). is_valid_header_name k \<and> is_valid_header_value v) (res_headers r)"

definition has_header :: "string \<Rightarrow> HttpResponse \<Rightarrow> bool" where
  "has_header name r = list_ex (\<lambda>(k, v). iequals k name) (sent_headers r)"

definition header_line :: "string \<times> string \<Rightarrow> string" where
  "header_line kv = fst kv @ '': '' @ snd kv"

definition safe_cookie :: "Cookie \<Rightarrow> bool" where
  "safe_cookie c \<longleftrightarrow>
     is_valid_header_name (cookie_name c) \<and> is_safe_cookie_part (cookie_value c) \<and>
     is_safe_cookie_part (cookie_path c) \<and> is_safe_cookie_part (cookie_domain c) \<and>
     is_safe_cookie_part (cookie_same_site c)"

definition cookie_line :: "Cookie \<Rightarrow> string" where
  "cookie_line c =
     ''Set-Cookie: '' @ cookie_name c @ ''='' @ cookie_value c @
     (if cookie_path c \<noteq> [] then ''; Path='' @ cookie_path c else []) @
     (if cookie_domain c \<noteq> [] then ''; Domain='' @ cookie_domain c else []) @
     (if cookie_max_age c \<ge> 0 then ''; Max-Age='' @ show_int (cookie_max_age c) else []) @
     (if cookie_secure c then ''; Secure'' else []) @
     (if cookie_http_only c then ''; HttpOnly'' else []) @
     (if cookie_same_site c \<noteq> [] then ''; SameSite='' @ cookie_same_site c else [])"

definition bodiless :: "int \<Rightarrow> bool" where
  "bodiless code \<longleftrightarrow> code < 200 \<or> code = 204 \<or> code = 304"

definition status_line :: "HttpResponse \<Rightarrow> string" where
  "status_line r = ''HTTP/1.1 '' @ show_int (effective_code r) @ '' '' @ reason_phrase (effective_code r)"

definition out_line :: "string \<Rightarrow> string" where
  "out_line l = l @ CRLF"

definition serialize_headers :: "string \<Rightarrow> HttpResponse \<Rightarrow> string" where
  "serialize_headers now r =
     out_line (status_line r) @
     concat (map (out_line \<circ> header_line) (sent_headers r)) @
     (if has_header ''Date'' r then [] else out_line (''Date: '' @ now)) @
     concat (map (out_line \<circ> cookie_line) (filter safe_cookie (cookies r))) @
     (if \<not> has_header ''Content-Length'' r \<and> \<not> has_header ''Transfer-Encoding'' r \<and>
         \<not> bodiless (effective_code r)
      then out_line (''Content-Length: '' @ show_nat (length (res_body r))) else []) @
     CRLF"

definition serialize :: "string \<Rightarrow> HttpResponse \<Rightarrow> string" where
  "serialize now r =
     (if file_fd r \<noteq> - 1 then serialize_headers now r
      else if bodiless (status_code r) then serialize_headers now r
      else serialize_headers now r @ res_body r)"

section \<open>Reading a response back\<close>

text \<open>
  The reference: a client's reader of a response head. A line ends at the first CRLF, the head at
  the first empty line, and the content is what follows.
\<close>

function read_head :: "string \<Rightarrow> (string list \<times> string) option" where
  "read_head s =
     (case find_sub CRLF s of
        None \<Rightarrow> None
      | Some i \<Rightarrow>
          if i = 0 then Some ([], drop 2 s)
          else map_option (\<lambda>(ls, b). (take i s # ls, b)) (read_head (drop (i + 2) s)))"
  by pat_completeness auto
termination
  by (relation "measure length") (auto dest: find_sub_Some)

declare read_head.simps [simp del]

definition plain_line :: "string \<Rightarrow> bool" where
  "plain_line l \<longleftrightarrow> l \<noteq> [] \<and> CR \<notin> set l \<and> LF \<notin> set l"

lemma find_sub_line: "CR \<notin> set l \<Longrightarrow> find_sub CRLF (l @ CRLF @ s) = Some (length l)"
proof (induction l)
  case Nil
  then show ?case by simp
next
  case (Cons c l)
  then have "\<not> prefix CRLF ((c # l) @ CRLF @ s)" by auto
  with Cons show ?case by simp
qed

lemma read_head_lines:
  "list_all plain_line ls \<Longrightarrow> read_head (concat (map out_line ls) @ CRLF @ b) = Some (ls, b)"
proof (induction ls)
  case Nil
  then show ?case by (simp add: read_head.simps [of "CR # _"])
next
  case (Cons l ls)
  then have "find_sub CRLF (out_line l @ concat (map out_line ls) @ CRLF @ b) = Some (length l)"
    using find_sub_line [of l "concat (map out_line ls) @ CRLF @ b"] by (simp add: plain_line_def out_line_def)
  with Cons show ?case
    by (simp add: read_head.simps [of "out_line l @ _"] plain_line_def) (simp add: out_line_def)
qed

text \<open>The lines of the head, and the content that follows it.\<close>

definition response_lines :: "string \<Rightarrow> HttpResponse \<Rightarrow> string list" where
  "response_lines now r =
     [status_line r] @ map header_line (sent_headers r) @
     (if has_header ''Date'' r then [] else [''Date: '' @ now]) @
     map cookie_line (filter safe_cookie (cookies r)) @
     (if \<not> has_header ''Content-Length'' r \<and> \<not> has_header ''Transfer-Encoding'' r \<and>
         \<not> bodiless (effective_code r)
      then [''Content-Length: '' @ show_nat (length (res_body r))] else [])"

lemma serialize_headers_lines:
  "serialize_headers now r = concat (map out_line (response_lines now r)) @ CRLF"
  by (simp add: serialize_headers_def response_lines_def comp_def)

lemma digit_not_break: "isdigit c \<Longrightarrow> c \<noteq> CR \<and> c \<noteq> LF"
  by (auto simp: isdigit_def byte_of_def)

lemma show_nat_plain: "CR \<notin> set (show_nat n)" "LF \<notin> set (show_nat n)"
  using show_nat_digits [of n] digit_not_break by (auto simp: list_all_iff)

lemma show_int_plain: "CR \<notin> set (show_int i)" "LF \<notin> set (show_int i)"
  by (auto simp: show_int_def show_nat_plain)

lemma reason_phrase_plain: "CR \<notin> set (reason_phrase c)" "LF \<notin> set (reason_phrase c)"
proof -
  have "list_all (\<lambda>(k, s). CR \<notin> set s \<and> LF \<notin> set s) reason_table" by code_simp
  then show "CR \<notin> set (reason_phrase c)" "LF \<notin> set (reason_phrase c)"
    by (auto simp: reason_phrase_def list_all_iff Let_def split: option.split dest: map_of_SomeD)
qed

lemma header_name_plain: "is_valid_header_name k \<Longrightarrow> k \<noteq> [] \<and> CR \<notin> set k \<and> LF \<notin> set k"
  by (auto simp: is_valid_header_name_def list_all_iff isalnum_def isdigit_def isalpha_def byte_of_def)

lemma header_value_plain: "is_valid_header_value v \<Longrightarrow> CR \<notin> set v \<and> LF \<notin> set v"
  unfolding is_valid_header_value_def list_all_iff by (intro conjI notI; drule (1) bspec; simp)

lemma cookie_part_plain: "is_safe_cookie_part v \<Longrightarrow> CR \<notin> set v \<and> LF \<notin> set v"
  by (auto simp: is_safe_cookie_part_def list_all_iff)

lemma header_line_plain:
  "is_valid_header_name k \<Longrightarrow> is_valid_header_value v \<Longrightarrow> plain_line (header_line (k, v))"
  by (auto simp: header_line_def plain_line_def dest: header_name_plain header_value_plain)

lemma cookie_line_plain: "safe_cookie c \<Longrightarrow> plain_line (cookie_line c)"
  by (auto simp: safe_cookie_def cookie_line_def plain_line_def show_int_plain split: if_splits
      dest!: header_name_plain cookie_part_plain)

lemma status_line_plain: "plain_line (status_line r)"
  by (simp add: status_line_def plain_line_def show_int_plain reason_phrase_plain)

lemma response_lines_plain:
  assumes "CR \<notin> set now" "LF \<notin> set now"
  shows "list_all plain_line (response_lines now r)"
  using assms status_line_plain [of r]
  by (auto simp: response_lines_def list_all_iff sent_headers_def
      intro: header_line_plain cookie_line_plain) (auto simp: plain_line_def show_nat_plain)

lemma read_head_serialize:
  assumes "CR \<notin> set now" and "LF \<notin> set now"
  shows "read_head (serialize now r) =
           Some (response_lines now r,
                 if file_fd r = - 1 \<and> \<not> bodiless (status_code r) then res_body r else [])"
proof -
  have "read_head (concat (map out_line (response_lines now r)) @ CRLF @ b) = Some (response_lines now r, b)" for b
    by (rule read_head_lines [OF response_lines_plain [OF assms]])
  from this [of "[]"] this [of "res_body r"] show ?thesis
    by (simp add: serialize_def serialize_headers_lines)
qed

section \<open>Properties\<close>

text \<open>
  C18: No response splitting. Whatever bytes the application puts into header names and values,
  cookies, status and body, a client that reads the serialised response sees exactly the status
  line, one line for each header and cookie that passed validation, the generated
  \<^verbatim>\<open>Date\<close> and \<^verbatim>\<open>Content-Length\<close> lines, and then the body: no header value or cookie can start a new
  line or end the head early.
\<close>

theorem no_response_splitting:
  assumes "CR \<notin> set now" and "LF \<notin> set now"
  shows "read_head (serialize now r) =
           Some (response_lines now r,
                 if file_fd r = - 1 \<and> \<not> bodiless (status_code r) then res_body r else [])"
  by (rule read_head_serialize [OF assms])

theorem no_response_splitting_witness:
  "read_head (serialize ''now'' (set_cookie_pair ''a'' (''b'' @ CRLF @ ''X: 1'')
      (res_header ''Location'' (''/x'' @ CRLF @ ''Set-Cookie: evil=1'') (send_text (CRLF @ ''hi'') new_response)))) =
   Some ([''HTTP/1.1 200 OK'', ''Content-Type: text/plain'', ''Content-Length: 4'', ''Date: now''], CRLF @ ''hi'')"
proof -
  let ?r = "set_cookie_pair ''a'' (''b'' @ CRLF @ ''X: 1'')
      (res_header ''Location'' (''/x'' @ CRLF @ ''Set-Cookie: evil=1'') (send_text (CRLF @ ''hi'') new_response))"
  have "response_lines ''now'' ?r =
      [''HTTP/1.1 200 OK'', ''Content-Type: text/plain'', ''Content-Length: 4'', ''Date: now'']"
    "file_fd ?r = - 1" "\<not> bodiless (status_code ?r)" "res_body ?r = CRLF @ ''hi''"
    by code_simp+
  with no_response_splitting [of "''now''" ?r] show ?thesis by simp
qed

text \<open>
  Framing. A response with a body and without \<^verbatim>\<open>Transfer-Encoding\<close> always states its length: if
  the application set no \<^verbatim>\<open>Content-Length\<close>, or set it through \<open>set_body\<close>, the head has a
  \<^verbatim>\<open>Content-Length\<close> line whose number is the number of bytes that follow the head, so a keep-alive
  client knows where the response ends.
\<close>

theorem content_length_frames_body:
  assumes "CR \<notin> set now" "LF \<notin> set now" and "100 \<le> status_code r" "status_code r \<le> 999"
    and "\<not> bodiless (status_code r)" "file_fd r = - 1" "\<not> has_header ''Transfer-Encoding'' r"
    and "\<forall>(k, v) \<in> set (sent_headers r). iequals k ''Content-Length'' \<longrightarrow> v = show_nat (length (res_body r))"
  shows "\<exists>ls k b. read_head (serialize now r) = Some (ls, b) \<and> iequals k ''Content-Length'' \<and>
           header_line (k, show_nat (length b)) \<in> set ls \<and> b = res_body r"
proof -
  have "\<exists>k. iequals k ''Content-Length'' \<and> header_line (k, show_nat (length (res_body r))) \<in> set (response_lines now r)"
  proof (cases "has_header ''Content-Length'' r")
    case True
    then obtain k v where "(k, v) \<in> set (sent_headers r)" "iequals k ''Content-Length''"
      by (auto simp: has_header_def list_ex_iff)
    with assms(8) show ?thesis by (force simp: response_lines_def)
  next
    case False
    with assms(3-7) have "header_line (''Content-Length'', show_nat (length (res_body r))) \<in> set (response_lines now r)"
      by (simp add: response_lines_def header_line_def effective_code_def)
    then show ?thesis by (intro exI [of _ "''Content-Length''"]) simp
  qed
  with read_head_serialize [OF assms(1,2), of r] assms(5,6) show ?thesis by auto
qed

theorem content_length_frames_body_witness:
  "\<exists>ls k b. read_head (serialize ''now'' (status 404 (send_text ''404 Not Found'' new_response))) = Some (ls, b) \<and>
     iequals k ''Content-Length'' \<and> header_line (k, show_nat (length b)) \<in> set ls \<and> b = ''404 Not Found''"
proof -
  let ?r = "status 404 (send_text ''404 Not Found'' new_response)"
  have "\<forall>(k, v) \<in> set (sent_headers ?r). iequals k ''Content-Length'' \<longrightarrow> v = show_nat (length (res_body ?r))"
    "\<not> bodiless (status_code ?r)" "file_fd ?r = - 1" "\<not> has_header ''Transfer-Encoding'' ?r"
    "status_code ?r = 404" "res_body ?r = ''404 Not Found''" "CR \<notin> set ''now''" "LF \<notin> set ''now''"
    by code_simp+
  with content_length_frames_body [of "''now''" ?r] show ?thesis by simp
qed

text \<open>
  A status code below 100 is sent as 500 with the body's \<^verbatim>\<open>Content-Length\<close>, but \<open>serialize\<close> tests
  the code before that replacement and drops the body.
\<close>

lemma invalid_status_loses_body:
  "read_head (serialize ''now'' (status 42 (send_text ''body'' new_response))) =
     Some ([''HTTP/1.1 500 Internal Server Error'', ''Content-Type: text/plain'', ''Content-Length: 4'', ''Date: now''], [])"
  by code_simp

end
