(* ===== verification/Response_Writer.thy ===== *)
theory Response_Writer
  imports Http_Response
begin

text \<open>
  The base class \<^verbatim>\<open>http::ResponseWriter\<close> (\<^verbatim>\<open>include/orbit/http/ResponseWriter.hpp\<close>,
  \<^verbatim>\<open>src/http/ResponseWriter.cpp\<close>) and the shape of the code that runs against it: handlers and
  middleware.

  \<^item> A handler is a function of the request and the writer that returns or throws, with the request
    and the writer as it leaves them. \<open>'x\<close>, the extension of the writer record, is whatever else
    the application's code reads and changes.
  \<^item> The error sink the router installs is kept as what distinguishes one from another, the error
    scope of the matched route (\<open>None\<close> for the application's); the router runs it.
  \<^item> A close callback is a number; running it is logged in \<open>close_runs\<close> (an exception from it is
    caught and logged by the code).
\<close>

datatype exn = StdException string | OtherException

datatype 'a outcome = Return 'a | Throw exn

record writer =
  responded :: bool
  generation :: "64 word"
  error_sink :: "nat option option"
  closed :: bool
  close_callbacks :: "nat list"
  close_runs :: "nat list"
  default_headers :: headers
  interceptors :: "(HttpResponse \<Rightarrow> HttpResponse) list"
  sent :: "HttpResponse list"

type_synonym ('a, 'x) action =
  "HttpRequest \<Rightarrow> 'x writer_scheme \<Rightarrow> 'a outcome \<times> HttpRequest \<times> 'x writer_scheme"

type_synonym 'x Middleware = "(bool, 'x) action"
type_synonym 'x RouteHandler = "(unit, 'x) action"
type_synonym 'x ErrorHandler = "string \<Rightarrow> (unit, 'x) action"

definition new_writer :: writer where
  "new_writer =
     \<lparr>responded = False, generation = 0, error_sink = None, closed = False, close_callbacks = [],
      close_runs = [], default_headers = [], interceptors = [], sent = []\<rparr>"

text \<open>
  What the connection's \<open>send\<close> does before it queues the bytes: the writer is marked as having
  responded, the interceptors see the response in the order they were added, and the default
  headers fill in those the response does not have.
\<close>

fun assoc_set :: "string \<Rightarrow> string \<Rightarrow> headers \<Rightarrow> headers" where
  "assoc_set k v [] = [(k, v)]"
| "assoc_set k v ((k', v') # es) = (if k' = k then (k', v) # es else (k', v') # assoc_set k v es)"

definition writer_set_header :: "string \<Rightarrow> string \<Rightarrow> 'x writer_scheme \<Rightarrow> 'x writer_scheme" where
  "writer_set_header k v w = w\<lparr>default_headers := assoc_set k v (default_headers w)\<rparr>"

definition add_interceptor :: "(HttpResponse \<Rightarrow> HttpResponse) \<Rightarrow> 'x writer_scheme \<Rightarrow> 'x writer_scheme" where
  "add_interceptor f w = w\<lparr>interceptors := interceptors w @ [f]\<rparr>"

definition prepare_response :: "'x writer_scheme \<Rightarrow> HttpResponse \<Rightarrow> HttpResponse" where
  "prepare_response w res =
     foldl (\<lambda>r (k, v). if hdr_find k (res_headers r) = None then res_header k v r else r)
       (foldl (\<lambda>r f. f r) res (interceptors w)) (default_headers w)"

definition writer_send :: "HttpResponse \<Rightarrow> 'x writer_scheme \<Rightarrow> 'x writer_scheme" where
  "writer_send res w = w\<lparr>sent := sent w @ [prepare_response w res], responded := True\<rparr>"

definition set_error_sink :: "nat option \<Rightarrow> 'x writer_scheme \<Rightarrow> 'x writer_scheme" where
  "set_error_sink sink w = w\<lparr>error_sink := Some sink\<rparr>"

definition reset_responded :: "'x writer_scheme \<Rightarrow> 'x writer_scheme" where
  "reset_responded w = w\<lparr>responded := False, generation := generation w + 1, error_sink := None\<rparr>"

definition internal_error :: HttpResponse where
  "internal_error = send_text ''500 Internal Server Error'' (status 500 new_response)"

text \<open>\<open>run_sink sink error w\<close> is the call of the installed sink; a sink that throws is caught.\<close>

definition report_async_exception ::
  "(nat option \<Rightarrow> exn \<Rightarrow> 'x writer_scheme \<Rightarrow> 'x writer_scheme) \<Rightarrow> 64 word \<Rightarrow> exn \<Rightarrow>
   'x writer_scheme \<Rightarrow> 'x writer_scheme" where
  "report_async_exception run_sink gen error w =
     (if gen \<noteq> generation w then w
      else if responded w then w
      else case error_sink w of
             Some sink \<Rightarrow> run_sink sink error w
           | None \<Rightarrow> if \<not> responded w then writer_send internal_error w else w)"

definition on_close :: "nat \<Rightarrow> 'x writer_scheme \<Rightarrow> 'x writer_scheme" where
  "on_close cb w =
     (if \<not> closed w then w\<lparr>close_callbacks := close_callbacks w @ [cb]\<rparr>
      else w\<lparr>close_runs := close_runs w @ [cb]\<rparr>)"

definition mark_closed :: "'x writer_scheme \<Rightarrow> 'x writer_scheme" where
  "mark_closed w =
     (if closed w then w
      else w\<lparr>closed := True, close_callbacks := [], close_runs := close_runs w @ close_callbacks w\<rparr>)"

lemmas writer_defs = writer_send_def set_error_sink_def

lemma writer_send_simps [simp]:
  "responded (writer_send res w)"
  "sent (writer_send res w) = sent w @ [prepare_response w res]"
  "responded (set_error_sink s w) = responded w"
  "sent (set_error_sink s w) = sent w"
  "generation (writer_send res w) = generation w"
  "sent (writer_set_header k v w) = sent w" "responded (writer_set_header k v w) = responded w"
  "sent (add_interceptor f w) = sent w" "responded (add_interceptor f w) = responded w"
  by (simp_all add: writer_defs writer_set_header_def add_interceptor_def)

section \<open>Close callbacks\<close>

datatype writer_op = OnClose nat | MarkClosed | Send HttpResponse

fun writer_step :: "writer_op \<Rightarrow> 'x writer_scheme \<Rightarrow> 'x writer_scheme" where
  "writer_step (OnClose cb) w = on_close cb w"
| "writer_step MarkClosed w = mark_closed w"
| "writer_step (Send res) w = writer_send res w"

fun registered :: "writer_op list \<Rightarrow> nat list" where
  "registered [] = []"
| "registered (OnClose cb # ops) = cb # registered ops"
| "registered (_ # ops) = registered ops"

lemma close_callbacks_account:
  "closed w \<longrightarrow> close_callbacks w = [] \<Longrightarrow>
   let w' = fold writer_step ops w
   in close_runs w' @ close_callbacks w' = close_runs w @ close_callbacks w @ registered ops \<and>
      (closed w' \<longrightarrow> close_callbacks w' = []) \<and>
      (\<not> closed w' \<longrightarrow> close_runs w' = close_runs w) \<and>
      (closed w' \<longleftrightarrow> closed w \<or> MarkClosed \<in> set ops)"
proof (induction ops arbitrary: w)
  case Nil
  then show ?case by simp
next
  case (Cons op ops)
  then show ?case
    by (cases op; cases "closed w")
      (use Cons.IH [of "writer_step op w"] in \<open>auto simp: Let_def on_close_def mark_closed_def writer_send_def\<close>)
qed

section \<open>The middleware contract\<close>

text \<open>
  What the router relies on of a middleware: it lets the request through without having sent
  anything, or it stops it with exactly one response; when it throws, it has sent at most one. The
  writer says it has responded exactly when it did, as for the writer it was given.
\<close>

definition fresh :: "'x writer_scheme \<Rightarrow> bool" where
  "fresh w \<longleftrightarrow> sent w = [] \<and> \<not> responded w"

definition answered :: "'x writer_scheme \<Rightarrow> bool" where
  "answered w \<longleftrightarrow> length (sent w) = 1 \<and> responded w"

definition mw_post :: "bool outcome \<Rightarrow> 'x writer_scheme \<Rightarrow> bool" where
  "mw_post out w =
     (case out of Return True \<Rightarrow> fresh w | Return False \<Rightarrow> answered w | Throw _ \<Rightarrow> fresh w \<or> answered w)"

definition handler_post :: "'a outcome \<Rightarrow> 'x writer_scheme \<Rightarrow> bool" where
  "handler_post out w = (case out of Return _ \<Rightarrow> answered w | Throw _ \<Rightarrow> fresh w \<or> answered w)"

lemma mw_post_simps [simp]:
  "mw_post (Return True) w = fresh w" "mw_post (Return False) w = answered w"
  "mw_post (Throw e) w \<longleftrightarrow> fresh w \<or> answered w"
  "handler_post (Return x) w = answered w" "handler_post (Throw e) w \<longleftrightarrow> fresh w \<or> answered w"
  by (simp_all add: mw_post_def handler_post_def)

lemma mw_outcome_cases:
  obtains "out = Return True" | "out = Return False" | e where "out = Throw e"
  by (cases out) auto

locale middleware_contract =
  fixes mw :: "'x Middleware"
  assumes continues: "\<lbrakk>fresh w; mw req w = (Return True, req', w')\<rbrakk> \<Longrightarrow> fresh w'"
    and stops: "\<lbrakk>fresh w; mw req w = (Return False, req', w')\<rbrakk> \<Longrightarrow> answered w'"
    and throws: "\<lbrakk>fresh w; mw req w = (Throw e, req', w')\<rbrakk> \<Longrightarrow> fresh w' \<or> answered w'"
begin

lemma result: "\<lbrakk>fresh w; mw req w = (out, req', w')\<rbrakk> \<Longrightarrow> mw_post out w'"
  using continues stops throws by (cases out rule: mw_outcome_cases) (auto simp: mw_post_def)

lemma keeps: "fresh w \<Longrightarrow> fresh (snd (snd (mw req w))) \<or> answered (snd (snd (mw req w)))"
proof (cases "mw req w")
  case (fields out req' w')
  assume "fresh w"
  with fields show ?thesis
    by (cases out) (use continues stops throws in \<open>metis (full_types) snd_conv\<close>)+
qed

lemma never_twice: "fresh w \<Longrightarrow> length (sent (snd (snd (mw req w)))) \<le> 1"
  using keeps [of w req] by (auto simp: fresh_def answered_def)

end

lemma middleware_contractI:
  assumes "\<And>w req out req' w'. \<lbrakk>fresh w; mw req w = (out, req', w')\<rbrakk> \<Longrightarrow> mw_post out w'"
  shows "middleware_contract mw"
  by unfold_locales (use assms in \<open>force\<close>)+

lemma fresh_simps [simp]:
  "fresh w \<Longrightarrow> answered (writer_send res w)"
  "fresh (set_error_sink s w) = fresh w"
  "answered (set_error_sink s w) = answered w"
  "fresh (writer_set_header k v w) = fresh w" "fresh (add_interceptor f w) = fresh w"
  "fresh new_writer"
  by (simp_all add: fresh_def answered_def new_writer_def)

end
