(* ===== verification/Routing.thy ===== *)
theory Routing
  imports Response_Writer "HOL-Library.Char_ord" "HOL-Library.List_Lexorder"
begin

text \<open>
  The router: \<^verbatim>\<open>src/routing/Router.cpp\<close> and \<^verbatim>\<open>include/orbit/routing/Router.hpp\<close>.

  \<^item> \<open>Router\<close> is the root router's state; \<open>group_ctx\<close> is what a \<^verbatim>\<open>Router\<close> object has of its own
    (prefix, whether it has a parent, its local middleware, its error scope). Every registration
    goes through a context into the root, as in the code.
  \<^item> Error scopes are shared and may get their handler after routes were registered under them, so
    they live in a store in the root state and are named by their index.
  \<^item> A registration that throws \<^verbatim>\<open>std::invalid_argument\<close> is an \<open>Inl\<close>.
  \<^item> The OpenAPI registry is the list of the calls made to it.
\<close>

section \<open>Segments\<close>

definition is_known_segment_type :: "string \<Rightarrow> bool" where
  "is_known_segment_type type \<longleftrightarrow> type = [] \<or> type = ''str'' \<or> type = ''int'' \<or> type = ''uuid''"

definition LLONG_MAX :: int where "LLONG_MAX = 9223372036854775807"
definition LLONG_MIN :: int where "LLONG_MIN = - 9223372036854775808"

definition uuid_char_ok :: "nat \<Rightarrow> char \<Rightarrow> bool" where
  "uuid_char_ok i c = (if i = 8 \<or> i = 13 \<or> i = 18 \<or> i = 23 then c = CHR ''-'' else isxdigit c)"

definition segment_matches_type :: "string \<Rightarrow> string \<Rightarrow> bool" where
  "segment_matches_type type val =
     (if type = [] \<or> type = ''str'' then True
      else if type = ''int'' then
        (case from_chars_signed LLONG_MIN LLONG_MAX val of Some (n, []) \<Rightarrow> True | _ \<Rightarrow> False)
      else if type = ''uuid'' then
        length val = 36 \<and> list_all (\<lambda>i. uuid_char_ok i (val ! i)) [0..<length val]
      else False)"

definition parse_typed_segment :: "string \<Rightarrow> (string \<times> string) option" where
  "parse_typed_segment segment =
     (if length segment < 2 \<or> hd segment \<noteq> CHR ''{'' \<or> last segment \<noteq> CHR ''}'' then None
      else case split_at (CHR '':'') (butlast (tl segment)) of
             (inner, None) \<Rightarrow> Some (inner, [])
           | (name, Some type) \<Rightarrow> Some (name, type))"

definition is_wildcard :: "string \<Rightarrow> bool" where
  "is_wildcard segment \<longleftrightarrow> segment \<noteq> [] \<and> hd segment = CHR ''*''"

definition split_path :: "string \<Rightarrow> string list" where
  "split_path path = filter (\<lambda>s. s \<noteq> []) (split_on (CHR ''/'') path)"

fun method_str :: "HttpMethod \<Rightarrow> string" where
  "method_str GET = ''GET''" | "method_str POST = ''POST''" | "method_str PUT = ''PUT''"
| "method_str PATCH = ''PATCH''" | "method_str DELETE = ''DELETE''" | "method_str OPTIONS = ''OPTIONS''"
| "method_str HEAD = ''HEAD''" | "method_str UNKNOWN = ''UNKNOWN''"

definition make_route_key :: "HttpMethod \<Rightarrow> string \<Rightarrow> string" where
  "make_route_key method path = method_str method @ '' '' @ path"

text \<open>
  \<open>match_segments\<close>: \<open>None\<close> for the result -1, else the number of literal segments and the
  parameters. The caller's map starts empty and is dropped when there is no match.
\<close>

definition wildcard_name :: "string \<Rightarrow> string" where
  "wildcard_name seg = (if length seg > 1 then tl seg else ''*'')"

definition is_colon :: "string \<Rightarrow> bool" where
  "is_colon seg \<longleftrightarrow> seg \<noteq> [] \<and> hd seg = CHR '':''"

fun match_segments :: "string list \<Rightarrow> string list \<Rightarrow> nat \<Rightarrow> fields \<Rightarrow> (nat \<times> fields) option" where
  "match_segments [] request literals params = (if request = [] then Some (literals, params) else None)"
| "match_segments (seg # pattern) request literals params =
     (if is_wildcard seg then Some (literals, params(wildcard_name seg \<mapsto> join ''/'' request))
      else case request of
             [] \<Rightarrow> None
           | r # request' \<Rightarrow>
               (case parse_typed_segment seg of
                  Some (name, type) \<Rightarrow>
                    if \<not> segment_matches_type type r then None
                    else match_segments pattern request' literals (params(name \<mapsto> r))
                | None \<Rightarrow>
                    if is_colon seg then match_segments pattern request' literals (params(tl seg \<mapsto> r))
                    else if seg \<noteq> r then None
                    else match_segments pattern request' (Suc literals) params))"

section \<open>State\<close>

record RouteMetadata =
  summary :: string
  description :: string
  tags :: "string list"
  request_body_schema :: string
  response_schemas :: "int \<rightharpoonup> string"

definition empty_meta :: RouteMetadata where
  "empty_meta = \<lparr>summary = [], description = [], tags = [], request_body_schema = [], response_schemas = Map.empty\<rparr>"

record 'x StaticRoute =
  st_handler :: "'x RouteHandler"
  st_errors :: "nat option"

record 'x DynamicRoute =
  dr_method :: HttpMethod
  path_segments :: "string list"
  dr_handler :: "'x RouteHandler"
  dr_errors :: "nat option"

record ('x, 'h) WsRoute =
  ws_handler :: 'h
  ws_middlewares :: "'x Middleware list"

record 'x ErrorScope =
  scope_handler :: "'x ErrorHandler option"
  scope_parent :: "nat option"

record ('x, 'h) Router =
  routes :: "string \<rightharpoonup> 'x StaticRoute"
  dynamic_routes :: "'x DynamicRoute list"
  middlewares :: "'x Middleware list"
  ws_routes :: "string \<rightharpoonup> ('x, 'h) WsRoute"
  stream_routes :: "string list"
  dynamic_stream_routes :: "(HttpMethod \<times> string list) list"
  registration_counts :: "(string \<times> nat) list"
  error_handler :: "'x ErrorHandler option"
  not_found_handler :: "'x RouteHandler option"
  scopes :: "'x ErrorScope list"
  openapi_calls :: "(HttpMethod \<times> string \<times> RouteMetadata) list"

record 'x group_ctx =
  prefix_text :: string
  has_parent :: bool
  local_middlewares :: "'x Middleware list"
  error_scope :: "nat option"

definition new_router :: "('x, 'h) Router" where
  "new_router =
     \<lparr>routes = Map.empty, dynamic_routes = [], middlewares = [], ws_routes = Map.empty, stream_routes = [],
      dynamic_stream_routes = [], registration_counts = [], error_handler = None, not_found_handler = None,
      scopes = [], openapi_calls = []\<rparr>"

definition root_ctx :: "string \<Rightarrow> 'x group_ctx" where
  "root_ctx pre = \<lparr>prefix_text = pre, has_parent = False, local_middlewares = [], error_scope = None\<rparr>"

section \<open>Registration\<close>

definition enter_group :: "string \<Rightarrow> 'x group_ctx \<Rightarrow> ('x, 'h) Router \<Rightarrow> 'x group_ctx \<times> ('x, 'h) Router" where
  "enter_group pre ctx root =
     (\<lparr>prefix_text = prefix_text ctx @ pre, has_parent = True,
       local_middlewares = local_middlewares ctx, error_scope = Some (length (scopes root))\<rparr>,
      root\<lparr>scopes := scopes root @ [\<lparr>scope_handler = None, scope_parent = error_scope ctx\<rparr>]\<rparr>)"

definition group :: "string \<Rightarrow> ('x group_ctx \<Rightarrow> ('x, 'h) Router \<Rightarrow> 'e + 'x group_ctx \<times> ('x, 'h) Router) \<Rightarrow>
    'x group_ctx \<Rightarrow> ('x, 'h) Router \<Rightarrow> 'e + ('x, 'h) Router" where
  "group pre callback ctx root =
     (case enter_group pre ctx root of (child, root') \<Rightarrow>
        case callback child root' of Inl e \<Rightarrow> Inl e | Inr (_, root'') \<Rightarrow> Inr root'')"

fun check_segments :: "string \<Rightarrow> string list \<Rightarrow> string option" where
  "check_segments full_path [] = None"
| "check_segments full_path (seg # segs) =
     (if is_wildcard seg \<and> segs \<noteq> []
      then Some (''a wildcard (*) must be the last segment of a route: '' @ full_path)
      else case parse_typed_segment seg of
             None \<Rightarrow> check_segments full_path segs
           | Some (name, type) \<Rightarrow>
               if name = [] then Some (''a typed segment needs a name, e.g. {id} or {id:int}: '' @ full_path)
               else if \<not> is_known_segment_type type
               then Some (''unknown type '' @ CHR 0x22 # type @ CHR 0x22 # '' (expected int, uuid or str) in '' @ full_path)
               else check_segments full_path segs)"

fun count_up :: "string \<Rightarrow> (string \<times> nat) list \<Rightarrow> (string \<times> nat) list" where
  "count_up k [] = [(k, 1)]"
| "count_up k ((k', n) # cs) = (if k' = k then (k', Suc n) # cs else (k', n) # count_up k cs)"

text \<open>The middleware pipeline, shared by the global list, the wrapped handlers and WebSocket routes.\<close>

fun run_middlewares :: "'x Middleware list \<Rightarrow> 'x Middleware" where
  "run_middlewares [] req w = (Return True, req, w)"
| "run_middlewares (mw # mws) req w =
     (case mw req w of
        (Return True, req', w') \<Rightarrow> run_middlewares mws req' w'
      | (Return False, req', w') \<Rightarrow> (Return False, req', w')
      | (Throw e, req', w') \<Rightarrow> (Throw e, req', w'))"

definition wrap_handler :: "'x Middleware list \<Rightarrow> 'x RouteHandler \<Rightarrow> 'x RouteHandler" where
  "wrap_handler mws h req w =
     (case run_middlewares mws req w of
        (Return True, req', w') \<Rightarrow> h req' w'
      | (Return False, req', w') \<Rightarrow> (Return (), req', w')
      | (Throw e, req', w') \<Rightarrow> (Throw e, req', w'))"

definition is_dynamic :: "string \<Rightarrow> bool" where
  "is_dynamic full_path \<longleftrightarrow>
     contains_char (CHR '':'') full_path \<or> contains_char (CHR ''*'') full_path \<or> contains_char (CHR ''{'') full_path"

definition add_route_with_meta ::
  "HttpMethod \<Rightarrow> string \<Rightarrow> 'x Middleware list \<Rightarrow> RouteMetadata \<Rightarrow> 'x RouteHandler \<Rightarrow>
   'x group_ctx \<Rightarrow> ('x, 'h) Router \<Rightarrow> string + ('x, 'h) Router" where
  "add_route_with_meta method path mws meta handler ctx root =
     (let full_path = prefix_text ctx @ path; segments = split_path full_path
      in case check_segments full_path segments of
           Some msg \<Rightarrow> Inl msg
         | None \<Rightarrow>
             let key = make_route_key method full_path;
                 root1 = root\<lparr>registration_counts := count_up key (registration_counts root),
                              openapi_calls := openapi_calls root @ [(method, full_path, meta)]\<rparr>;
                 wrapped = wrap_handler (local_middlewares ctx @ mws) handler
             in Inr (if is_dynamic full_path
                     then root1\<lparr>dynamic_routes := dynamic_routes root1 @
                            [\<lparr>dr_method = method, path_segments = segments, dr_handler = wrapped,
                              dr_errors = error_scope ctx\<rparr>]\<rparr>
                     else root1\<lparr>routes := (routes root1)(key \<mapsto>
                            \<lparr>st_handler = wrapped, st_errors = error_scope ctx\<rparr>)\<rparr>))"

definition add_route ::
  "HttpMethod \<Rightarrow> string \<Rightarrow> 'x Middleware list \<Rightarrow> 'x RouteHandler \<Rightarrow>
   'x group_ctx \<Rightarrow> ('x, 'h) Router \<Rightarrow> string + ('x, 'h) Router" where
  "add_route method path mws handler = add_route_with_meta method path mws empty_meta handler"

definition mark_stream_route :: "HttpMethod \<Rightarrow> string \<Rightarrow> ('x, 'h) Router \<Rightarrow> ('x, 'h) Router" where
  "mark_stream_route method full_path root =
     (if is_dynamic full_path
      then root\<lparr>dynamic_stream_routes := dynamic_stream_routes root @ [(method, split_path full_path)]\<rparr>
      else root\<lparr>stream_routes := List.insert (make_route_key method full_path) (stream_routes root)\<rparr>)"

definition add_stream_route ::
  "HttpMethod \<Rightarrow> string \<Rightarrow> 'x RouteHandler \<Rightarrow> 'x group_ctx \<Rightarrow> ('x, 'h) Router \<Rightarrow> string + ('x, 'h) Router" where
  "add_stream_route method path handler ctx root =
     add_route method path [] handler ctx (mark_stream_route method (prefix_text ctx @ path) root)"

definition is_stream_route :: "HttpMethod \<Rightarrow> string \<Rightarrow> ('x, 'h) Router \<Rightarrow> bool" where
  "is_stream_route method path root \<longleftrightarrow>
     make_route_key method path \<in> set (stream_routes root) \<or>
     list_ex (\<lambda>(m, segs). m = method \<and> match_segments segs (split_path path) 0 Map.empty \<noteq> None)
       (dynamic_stream_routes root)"

definition ws_route :: "string \<Rightarrow> 'x Middleware list \<Rightarrow> 'h \<Rightarrow> 'x group_ctx \<Rightarrow> ('x, 'h) Router \<Rightarrow> ('x, 'h) Router" where
  "ws_route path mws handler ctx root =
     root\<lparr>ws_routes := (ws_routes root)(prefix_text ctx @ path \<mapsto>
            \<lparr>ws_handler = handler, ws_middlewares = local_middlewares ctx @ mws\<rparr>)\<rparr>"

definition use_middleware ::
  "'x Middleware \<Rightarrow> 'x group_ctx \<times> ('x, 'h) Router \<Rightarrow> 'x group_ctx \<times> ('x, 'h) Router" where
  "use_middleware m s =
     (case s of (ctx, root) \<Rightarrow>
        if has_parent ctx then (ctx\<lparr>local_middlewares := local_middlewares ctx @ [m]\<rparr>, root)
        else (ctx, root\<lparr>middlewares := middlewares root @ [m]\<rparr>))"

text \<open>\<^verbatim>\<open>while (full.size() > 1 && full.back() == '/') full.pop_back();\<close>\<close>

definition strip_slashes :: "string \<Rightarrow> string" where
  "strip_slashes full =
     (let s = rev (dropWhile (\<lambda>c. c = CHR ''/'') (rev full))
      in if s = [] \<and> full \<noteq> [] then [hd full] else s)"

definition under_prefix :: "string \<Rightarrow> string \<Rightarrow> bool" where
  "under_prefix full uri \<longleftrightarrow>
     full = ''/'' \<or>
     (prefix full uri \<and> (length uri = length full \<or> uri ! length full = CHR ''/''))"

definition prefixed :: "string \<Rightarrow> 'x Middleware \<Rightarrow> 'x Middleware" where
  "prefixed full m req w = (if under_prefix full (req_uri req) then m req w else (Return True, req, w))"

definition use_prefix ::
  "string \<Rightarrow> 'x Middleware \<Rightarrow> 'x group_ctx \<times> ('x, 'h) Router \<Rightarrow> string + 'x group_ctx \<times> ('x, 'h) Router" where
  "use_prefix pre m s =
     (if pre = [] \<or> hd pre \<noteq> CHR ''/''
      then Inl (''a middleware prefix must start with '' @ CHR 0x27 # ''/'' @ CHR 0x27 # '': '' @ pre)
      else Inr (use_middleware (prefixed (strip_slashes (prefix_text (fst s) @ pre)) m) s))"

definition set_not_found :: "'x RouteHandler \<Rightarrow> ('x, 'h) Router \<Rightarrow> ('x, 'h) Router" where
  "set_not_found handler root = root\<lparr>not_found_handler := Some handler\<rparr>"

definition on_error :: "'x ErrorHandler \<Rightarrow> 'x group_ctx \<Rightarrow> ('x, 'h) Router \<Rightarrow> ('x, 'h) Router" where
  "on_error handler ctx root =
     (case error_scope ctx of
        Some i \<Rightarrow> root\<lparr>scopes := (scopes root)[i := (scopes root ! i)\<lparr>scope_handler := Some handler\<rparr>]\<rparr>
      | None \<Rightarrow> root\<lparr>error_handler := Some handler\<rparr>)"

definition validate_routes :: "('x, 'h) Router \<Rightarrow> string list" where
  "validate_routes root =
     sort (map (\<lambda>(key, count). key @ '' registered '' @ show_nat count @ '' times'')
       (filter (\<lambda>(key, count). count > 1) (registration_counts root)))"

section \<open>Dispatch\<close>

definition ends_in_wildcard :: "'x DynamicRoute \<Rightarrow> bool" where
  "ends_in_wildcard dr \<longleftrightarrow> path_segments dr \<noteq> [] \<and> is_wildcard (last (path_segments dr))"

definition dr_match :: "string list \<Rightarrow> 'x DynamicRoute \<Rightarrow> (nat \<times> fields) option" where
  "dr_match segs dr = match_segments (path_segments dr) segs 0 Map.empty"

text \<open>The loop over the dynamic routes; \<open>best\<close> is \<open>best_wildcard\<close> with \<open>best_literals\<close>.\<close>

fun find_dynamic ::
  "HttpMethod \<Rightarrow> string list \<Rightarrow> 'x DynamicRoute list \<Rightarrow> ('x DynamicRoute \<times> nat) option \<Rightarrow>
   ('x DynamicRoute \<times> fields) option" where
  "find_dynamic method segs [] best =
     (case best of
        None \<Rightarrow> None
      | Some (dr, _) \<Rightarrow> Some (dr, case dr_match segs dr of Some (_, ps) \<Rightarrow> ps | None \<Rightarrow> Map.empty))"
| "find_dynamic method segs (dr # drs) best =
     (if dr_method dr \<noteq> method then find_dynamic method segs drs best
      else if ends_in_wildcard dr then
        (case dr_match segs dr of
           None \<Rightarrow> find_dynamic method segs drs best
         | Some (literals, _) \<Rightarrow>
             if (case best of None \<Rightarrow> True | Some (_, best_literals) \<Rightarrow> literals > best_literals)
             then find_dynamic method segs drs (Some (dr, literals))
             else find_dynamic method segs drs best)
      else
        (case dr_match segs dr of
           Some (_, ps) \<Rightarrow> Some (dr, ps)
         | None \<Rightarrow> find_dynamic method segs drs best))"

definition find_handler ::
  "('x, 'h) Router \<Rightarrow> string \<Rightarrow> HttpMethod \<Rightarrow> ('x RouteHandler \<times> fields \<times> nat option) option" where
  "find_handler root uri method =
     (case routes root (make_route_key method uri) of
        Some st \<Rightarrow> Some (st_handler st, Map.empty, st_errors st)
      | None \<Rightarrow>
          (case find_dynamic method (split_path uri) (dynamic_routes root) None of
             Some (dr, ps) \<Rightarrow> Some (dr_handler dr, ps, dr_errors dr)
           | None \<Rightarrow> None))"

definition kMethods :: "HttpMethod list" where
  "kMethods = [GET, HEAD, POST, PUT, PATCH, DELETE, OPTIONS]"

definition method_exists :: "('x, 'h) Router \<Rightarrow> string \<Rightarrow> HttpMethod \<Rightarrow> bool" where
  "method_exists root uri m \<longleftrightarrow>
     find_handler root uri m \<noteq> None \<or> (m = HEAD \<and> find_handler root uri GET \<noteq> None)"

definition allow_header :: "('x, 'h) Router \<Rightarrow> string \<Rightarrow> string" where
  "allow_header root uri = join '', '' (map method_str (filter (method_exists root uri) kMethods))"

text \<open>
  The handler for an exception: the innermost one set on the scope chain, else the application's.
  A scope's parent was created before it, so the chain goes down in the store.
\<close>

function scope_chain_handler :: "'x ErrorScope list \<Rightarrow> nat option \<Rightarrow> 'x ErrorHandler option" where
  "scope_chain_handler ss None = None"
| "scope_chain_handler ss (Some i) =
     (case scope_handler (ss ! i) of
        Some h \<Rightarrow> Some h
      | None \<Rightarrow>
          (case scope_parent (ss ! i) of
             None \<Rightarrow> None
           | Some j \<Rightarrow> if j < i then scope_chain_handler ss (Some j) else None))"
  by pat_completeness auto
termination
  by (relation "measure (\<lambda>(ss, s). case s of None \<Rightarrow> 0 | Some i \<Rightarrow> Suc i)") auto

definition selected_error_handler :: "('x, 'h) Router \<Rightarrow> nat option \<Rightarrow> 'x ErrorHandler option" where
  "selected_error_handler root scope =
     (case scope_chain_handler (scopes root) scope of Some h \<Rightarrow> Some h | None \<Rightarrow> error_handler root)"

definition send_internal_error :: "HttpRequest \<Rightarrow> 'x writer_scheme \<Rightarrow> HttpRequest \<times> 'x writer_scheme" where
  "send_internal_error req w = (req, if responded w then w else writer_send internal_error w)"

definition handle_exception ::
  "('x, 'h) Router \<Rightarrow> nat option \<Rightarrow> exn \<Rightarrow> HttpRequest \<Rightarrow> 'x writer_scheme \<Rightarrow> HttpRequest \<times> 'x writer_scheme" where
  "handle_exception root scope error req w =
     (case (error, selected_error_handler root scope) of
        (StdException what, Some h) \<Rightarrow>
          (case h what req w of
             (Return _, req', w') \<Rightarrow> (req', w')
           | (Throw _, req', w') \<Rightarrow> send_internal_error req' w')
      | _ \<Rightarrow> send_internal_error req w)"

definition finish :: "('x, 'h) Router \<Rightarrow> nat option \<Rightarrow> unit outcome \<times> HttpRequest \<times> 'x writer_scheme \<Rightarrow>
    HttpRequest \<times> 'x writer_scheme" where
  "finish root scope r =
     (case r of (Return _, req, w) \<Rightarrow> (req, w) | (Throw e, req, w) \<Rightarrow> handle_exception root scope e req w)"

definition not_allowed :: "string \<Rightarrow> HttpResponse" where
  "not_allowed allow = res_header ''Allow'' allow (send_text ''405 Method Not Allowed'' (status 405 new_response))"

definition not_found_response :: HttpResponse where
  "not_found_response = send_text ''404 Not Found'' (status 404 new_response)"

definition select_handler ::
  "('x, 'h) Router \<Rightarrow> HttpRequest \<Rightarrow> ('x RouteHandler \<times> fields \<times> nat option) option" where
  "select_handler root req =
     (case find_handler root (req_uri req) (req_method req) of
        Some r \<Rightarrow> Some r
      | None \<Rightarrow> if req_method req = HEAD then find_handler root (req_uri req) GET else None)"

definition dispatch :: "('x, 'h) Router \<Rightarrow> HttpRequest \<Rightarrow> 'x writer_scheme \<Rightarrow> HttpRequest \<times> 'x writer_scheme" where
  "dispatch root req w =
     (case select_handler root req of
        Some (handler, ps, scope) \<Rightarrow>
          finish root scope
            (handler (req\<lparr>req_params := ps\<rparr>) (if scope \<noteq> None then set_error_sink scope w else w))
      | None \<Rightarrow>
          (let allow = allow_header root (req_uri req)
           in if allow = [] then
                (case not_found_handler root of
                   Some h \<Rightarrow> finish root None (h req w)
                 | None \<Rightarrow> (req, writer_send not_found_response w))
              else (req, writer_send (not_allowed allow) w)))"

definition route :: "('x, 'h) Router \<Rightarrow> HttpRequest \<Rightarrow> 'x writer_scheme \<Rightarrow> HttpRequest \<times> 'x writer_scheme" where
  "route root req w =
     (case run_middlewares (middlewares root) req (set_error_sink None w) of
        (Return True, req', w') \<Rightarrow> dispatch root req' w'
      | (Return False, req', w') \<Rightarrow> (req', w')
      | (Throw e, req', w') \<Rightarrow> handle_exception root None e req' w')"

definition has_ws_route :: "string \<Rightarrow> ('x, 'h) Router \<Rightarrow> bool" where
  "has_ws_route path root \<longleftrightarrow> ws_routes root path \<noteq> None"

definition get_ws_route :: "string \<Rightarrow> ('x, 'h) Router \<Rightarrow> 'h option" where
  "get_ws_route path root = map_option ws_handler (ws_routes root path)"

text \<open>Only \<^verbatim>\<open>std::exception\<close> is caught here; anything else leaves the function.\<close>

definition run_ws_middlewares :: "('x, 'h) Router \<Rightarrow> string \<Rightarrow> 'x Middleware" where
  "run_ws_middlewares root path req w =
     (case ws_routes root path of
        None \<Rightarrow> (Return False, req, w)
      | Some r \<Rightarrow>
          (case run_middlewares (middlewares root @ ws_middlewares r) req w of
             (Throw (StdException what), req', w') \<Rightarrow> (Return False, req', writer_send internal_error w')
           | result \<Rightarrow> result))"

section \<open>Precedence\<close>

text \<open>
  The specification of the choice among the dynamic routes: candidates are the routes of the
  method that match; a parameter route beats every wildcard and the first one registered wins;
  among wildcards the most literal segments win, and the first one registered among equals.
\<close>

definition candidate :: "HttpMethod \<Rightarrow> string list \<Rightarrow> 'x DynamicRoute \<Rightarrow> bool" where
  "candidate m segs dr \<longleftrightarrow> dr_method dr = m \<and> dr_match segs dr \<noteq> None"

definition literals_of :: "string list \<Rightarrow> 'x DynamicRoute \<Rightarrow> nat" where
  "literals_of segs dr = fst (the (dr_match segs dr))"

definition no_plain :: "HttpMethod \<Rightarrow> string list \<Rightarrow> 'x DynamicRoute list \<Rightarrow> bool" where
  "no_plain m segs drs \<longleftrightarrow> (\<forall>d \<in> set drs. candidate m segs d \<longrightarrow> ends_in_wildcard d)"

definition chosen_wildcard :: "HttpMethod \<Rightarrow> string list \<Rightarrow> 'x DynamicRoute list \<Rightarrow> 'x DynamicRoute \<Rightarrow> bool" where
  "chosen_wildcard m segs drs dr \<longleftrightarrow>
     candidate m segs dr \<and> ends_in_wildcard dr \<and>
     (\<exists>bef aft. drs = bef @ dr # aft \<and>
        (\<forall>d \<in> set bef. candidate m segs d \<longrightarrow> literals_of segs d < literals_of segs dr) \<and>
        (\<forall>d \<in> set aft. candidate m segs d \<longrightarrow> literals_of segs d \<le> literals_of segs dr))"

definition chosen :: "HttpMethod \<Rightarrow> string list \<Rightarrow> 'x DynamicRoute list \<Rightarrow> 'x DynamicRoute \<Rightarrow> bool" where
  "chosen m segs drs dr \<longleftrightarrow>
     (if ends_in_wildcard dr then no_plain m segs drs \<and> chosen_wildcard m segs drs dr
      else candidate m segs dr \<and> (\<exists>bef aft. drs = bef @ dr # aft \<and> no_plain m segs bef))"

definition best_so_far :: "HttpMethod \<Rightarrow> string list \<Rightarrow> 'x DynamicRoute list \<Rightarrow> ('x DynamicRoute \<times> nat) option \<Rightarrow> bool" where
  "best_so_far m segs done best \<longleftrightarrow>
     no_plain m segs done \<and>
     (case best of
        None \<Rightarrow> \<forall>d \<in> set done. \<not> candidate m segs d
      | Some (d, l) \<Rightarrow> chosen_wildcard m segs done d \<and> l = literals_of segs d)"

lemma chosen_wildcardI:
  assumes "candidate m segs dr" "ends_in_wildcard dr" "drs = bef @ dr # aft"
    and "\<forall>d \<in> set bef. candidate m segs d \<longrightarrow> literals_of segs d < literals_of segs dr"
    and "\<forall>d \<in> set aft. candidate m segs d \<longrightarrow> literals_of segs d \<le> literals_of segs dr"
  shows "chosen_wildcard m segs drs dr"
  using assms unfolding chosen_wildcard_def by blast

lemma best_so_far_skip:
  assumes "best_so_far m segs done best" "\<not> candidate m segs dr"
  shows "best_so_far m segs (done @ [dr]) best"
  using assms unfolding best_so_far_def no_plain_def chosen_wildcard_def
  by (fastforce split: option.splits)

lemma best_so_far_keep:
  assumes "best_so_far m segs done (Some (d, l))" "ends_in_wildcard dr" "literals_of segs dr \<le> l"
  shows "best_so_far m segs (done @ [dr]) (Some (d, l))"
proof -
  obtain bef aft where "done = bef @ d # aft"
    "\<forall>d' \<in> set bef. candidate m segs d' \<longrightarrow> literals_of segs d' < literals_of segs d"
    "\<forall>d' \<in> set aft. candidate m segs d' \<longrightarrow> literals_of segs d' \<le> literals_of segs d"
    "candidate m segs d" "ends_in_wildcard d" "l = literals_of segs d" "no_plain m segs done"
    using assms(1) by (auto simp: best_so_far_def chosen_wildcard_def)
  with assms(2,3) show ?thesis
    by (auto simp: best_so_far_def no_plain_def intro!: chosen_wildcardI [where bef = bef and aft = "aft @ [dr]"])
qed

lemma best_so_far_candidates:
  assumes "best_so_far m segs done (Some (d, l))" "d' \<in> set done" "candidate m segs d'"
  shows "literals_of segs d' \<le> l"
  using assms by (fastforce simp: best_so_far_def chosen_wildcard_def)

lemma best_so_far_take:
  assumes "best_so_far m segs done best" "candidate m segs dr" "ends_in_wildcard dr"
    and "\<And>d l. best = Some (d, l) \<Longrightarrow> l < literals_of segs dr"
  shows "best_so_far m segs (done @ [dr]) (Some (dr, literals_of segs dr))"
proof -
  have "\<forall>d \<in> set done. candidate m segs d \<longrightarrow> literals_of segs d < literals_of segs dr"
    using assms(1,4) best_so_far_candidates [of m segs "done"]
    by (cases best) (force simp: best_so_far_def)+
  with assms(1-3) show ?thesis
    by (auto simp: best_so_far_def no_plain_def intro!: chosen_wildcardI [where bef = "done" and aft = "[]"])
qed

lemma find_dynamic_chosen:
  assumes "best_so_far m segs done best"
  shows "case find_dynamic m segs drs best of
           None \<Rightarrow> \<forall>d \<in> set (done @ drs). \<not> candidate m segs d
         | Some (dr, ps) \<Rightarrow> chosen m segs (done @ drs) dr \<and> (\<exists>l. dr_match segs dr = Some (l, ps))"
  using assms
proof (induction drs arbitrary: "done" best)
  case Nil
  then show ?case
    by (auto simp: best_so_far_def chosen_def chosen_wildcard_def candidate_def split: option.splits prod.splits)
next
  case (Cons dr drs)
  have step: "case find_dynamic m segs drs b of
           None \<Rightarrow> \<forall>d \<in> set (done @ dr # drs). \<not> candidate m segs d
         | Some (x, ps) \<Rightarrow> chosen m segs (done @ dr # drs) x \<and> (\<exists>l. dr_match segs x = Some (l, ps))"
    if "best_so_far m segs (done @ [dr]) b" for b
    using Cons.IH [OF that] by (simp split: option.splits prod.splits)
  show ?case
  proof (cases "candidate m segs dr")
    case False
    then have "dr_method dr \<noteq> m \<or> dr_match segs dr = None" unfolding candidate_def by blast
    with step [OF best_so_far_skip [OF Cons.prems False]] show ?thesis by auto
  next
    case True
    then obtain l ps where m: "dr_method dr = m" "dr_match segs dr = Some (l, ps)"
      by (auto simp: candidate_def)
    then have l: "literals_of segs dr = l" by (simp add: literals_of_def)
    show ?thesis
    proof (cases "ends_in_wildcard dr")
      case False
      with True Cons.prems m show ?thesis
        by (auto simp: chosen_def best_so_far_def)
    next
      case wild: True
      show ?thesis
      proof (cases "\<exists>d k. best = Some (d, k) \<and> l \<le> k")
        case True
        then obtain d k where b: "best = Some (d, k)" "l \<le> k" by blast
        from step [OF best_so_far_keep [of m segs "done" d k dr]] Cons.prems wild b l m show ?thesis by simp
      next
        case False
        then have "best_so_far m segs (done @ [dr]) (Some (dr, l))"
          using best_so_far_take [OF Cons.prems True wild] l by force
        from step [OF this] wild m False show ?thesis by (auto split: option.splits)
      qed
    qed
  qed
qed

lemma find_dynamic_correct:
  "case find_dynamic m segs drs None of
     None \<Rightarrow> \<forall>d \<in> set drs. \<not> candidate m segs d
   | Some (dr, ps) \<Rightarrow> chosen m segs drs dr \<and> (\<exists>l. dr_match segs dr = Some (l, ps))"
  using find_dynamic_chosen [of m segs "[]" None drs]
  by (simp add: best_so_far_def no_plain_def split: option.splits prod.splits)

section \<open>Parameters\<close>

text \<open>The parameter a segment binds, and a pattern with its parameters filled in.\<close>

definition segment_param :: "string \<Rightarrow> string option" where
  "segment_param seg =
     (case parse_typed_segment seg of
        Some (name, _) \<Rightarrow> Some name
      | None \<Rightarrow> if is_colon seg then Some (tl seg) else None)"

fun pattern_params :: "string list \<Rightarrow> string list" where
  "pattern_params [] = []"
| "pattern_params (seg # segs) =
     (if is_wildcard seg then [wildcard_name seg]
      else case segment_param seg of Some n \<Rightarrow> n # pattern_params segs | None \<Rightarrow> pattern_params segs)"

fun fill_in :: "string list \<Rightarrow> fields \<Rightarrow> string list" where
  "fill_in [] ps = []"
| "fill_in (seg # segs) ps =
     (if is_wildcard seg then (case ps (wildcard_name seg) of Some rest \<Rightarrow> split_path rest | None \<Rightarrow> [])
      else (case segment_param seg of Some n \<Rightarrow> (case ps n of Some v \<Rightarrow> v | None \<Rightarrow> []) | None \<Rightarrow> seg) # fill_in segs ps)"

definition path_segment :: "string \<Rightarrow> bool" where
  "path_segment s \<longleftrightarrow> s \<noteq> [] \<and> CHR ''/'' \<notin> set s"

lemma split_path_segments: "list_all path_segment (split_path uri)"
  by (auto simp: split_path_def list_all_iff path_segment_def dest: split_on_sep)

lemma split_path_join: "list_all path_segment segs \<Longrightarrow> split_path (join ''/'' segs) = segs"
proof (cases "segs = []")
  case True
  then show ?thesis by (simp add: split_path_def split_on_notin)
next
  case False
  assume "list_all path_segment segs"
  then show ?thesis
    using split_on_join [of segs "CHR ''/''"] False
    by (auto simp: split_path_def list_all_iff path_segment_def)
qed

lemma match_segments_step:
  assumes "match_segments (seg # pattern) request l ps = Some r" "\<not> is_wildcard seg"
  obtains x request' where "request = x # request'"
    and "match_segments pattern request' (if segment_param seg = None then Suc l else l)
           (case segment_param seg of Some n \<Rightarrow> ps(n \<mapsto> x) | None \<Rightarrow> ps) = Some r"
    and "segment_param seg = None \<longrightarrow> seg = x"
    and "\<And>n t. parse_typed_segment seg = Some (n, t) \<Longrightarrow> segment_matches_type t x"
  using assms
  by (auto simp: segment_param_def split: list.splits option.splits if_splits prod.splits)

lemma match_segments_keeps:
  "match_segments pattern request l ps = Some (k, qs) \<Longrightarrow> n \<notin> set (pattern_params pattern) \<Longrightarrow> qs n = ps n"
proof (induction pattern arbitrary: request l ps)
  case Nil
  then show ?case by (simp split: if_splits)
next
  case (Cons seg pattern)
  show ?case
  proof (cases "is_wildcard seg")
    case True
    with Cons.prems show ?thesis by auto
  next
    case False
    from match_segments_step [OF Cons.prems(1) False] Cons.IH Cons.prems(2) False show ?thesis
      by (fastforce split: option.splits)
  qed
qed

lemma match_segments_fill_in:
  "match_segments pattern request l ps = Some (k, qs) \<Longrightarrow> distinct (pattern_params pattern) \<Longrightarrow>
   list_all path_segment request \<Longrightarrow> fill_in pattern qs = request"
proof (induction pattern arbitrary: request l ps)
  case Nil
  then show ?case by (simp split: if_splits)
next
  case (Cons seg pattern)
  show ?case
  proof (cases "is_wildcard seg")
    case True
    with Cons.prems show ?thesis by (auto simp: split_path_join)
  next
    case False
    from match_segments_step [OF Cons.prems(1) False] obtain x request' where r: "request = x # request'"
      and m: "match_segments pattern request' (if segment_param seg = None then Suc l else l)
           (case segment_param seg of Some n \<Rightarrow> ps(n \<mapsto> x) | None \<Rightarrow> ps) = Some (k, qs)"
      and lit: "segment_param seg = None \<longrightarrow> seg = x" by metis
    have d: "distinct (pattern_params pattern)"
      using Cons.prems(2) False by (auto split: option.splits)
    have tl: "fill_in pattern qs = request'" using Cons.IH [OF m d] Cons.prems(3) r by simp
    show ?thesis
    proof (cases "segment_param seg")
      case None
      with lit tl r False show ?thesis by simp
    next
      case (Some n)
      with Cons.prems(2) False have "n \<notin> set (pattern_params pattern)" by simp
      from match_segments_keeps [OF m this] Some tl r False show ?thesis by simp
    qed
  qed
qed

lemma match_segments_typed:
  "match_segments (before @ seg # after) request l ps = Some (k, qs) \<Longrightarrow> n \<notin> set (pattern_params after) \<Longrightarrow>
   \<forall>s \<in> set before. \<not> is_wildcard s \<Longrightarrow> parse_typed_segment seg = Some (n, t) \<Longrightarrow> \<exists>v. qs n = Some v \<and> segment_matches_type t v"
proof (induction before arbitrary: request l ps)
  case Nil
  have nw: "\<not> is_wildcard seg" using Nil.prems(4) by (auto simp: parse_typed_segment_def is_wildcard_def split: if_splits)
  have sp: "segment_param seg = Some n" using Nil.prems(4) by (simp add: segment_param_def)
  from Nil.prems(1) have "match_segments (seg # after) request l ps = Some (k, qs)" by simp
  from match_segments_step [OF this nw] obtain x request' where
    "match_segments after request' (if segment_param seg = None then Suc l else l)
       (case segment_param seg of Some n \<Rightarrow> ps(n \<mapsto> x) | None \<Rightarrow> ps) = Some (k, qs)"
    and ty: "\<And>n t. parse_typed_segment seg = Some (n, t) \<Longrightarrow> segment_matches_type t x" by metis
  then have m: "match_segments after request' l (ps(n \<mapsto> x)) = Some (k, qs)" by (simp add: sp)
  have "segment_matches_type t x" by (rule ty [OF Nil.prems(4)])
  with match_segments_keeps [OF m Nil.prems(2)] show ?case by simp
next
  case (Cons s before)
  have "\<not> is_wildcard s" "match_segments (s # before @ seg # after) request l ps = Some (k, qs)" using Cons.prems by simp_all
  from match_segments_step [OF this(2,1)] obtain request' l' ps' where "match_segments (before @ seg # after) request' l' ps' = Some (k, qs)"
    by metis
  from Cons.IH [OF this] Cons.prems(2-4) show ?case by simp
qed

section \<open>Every request gets one response\<close>

text \<open>The contract of a handler, and of an error handler, which may be called when a response has
  already gone out and then sends nothing.\<close>

definition handler_ok :: "'x RouteHandler \<Rightarrow> bool" where
  "handler_ok h \<longleftrightarrow> (\<forall>req w out req' w'. fresh w \<longrightarrow> h req w = (out, req', w') \<longrightarrow> handler_post out w')"

definition error_handler_ok :: "'x ErrorHandler \<Rightarrow> bool" where
  "error_handler_ok h \<longleftrightarrow>
     (\<forall>what req w out req' w'. h what req w = (out, req', w') \<longrightarrow>
        (answered w \<longrightarrow> answered w' \<and> sent w' = sent w) \<and> (fresh w \<longrightarrow> handler_post out w'))"

definition router_ok :: "('x, 'h) Router \<Rightarrow> bool" where
  "router_ok root \<longleftrightarrow>
     (\<forall>mw \<in> set (middlewares root). middleware_contract mw) \<and>
     (\<forall>st \<in> ran (routes root). handler_ok (st_handler st)) \<and>
     (\<forall>dr \<in> set (dynamic_routes root). handler_ok (dr_handler dr)) \<and>
     (\<forall>h. not_found_handler root = Some h \<longrightarrow> handler_ok h) \<and>
     (\<forall>h. error_handler root = Some h \<longrightarrow> error_handler_ok h) \<and>
     (\<forall>s \<in> set (scopes root). \<forall>h. scope_handler s = Some h \<longrightarrow> error_handler_ok h)"

lemma run_middlewares_contract:
  "\<forall>mw \<in> set mws. middleware_contract mw \<Longrightarrow> middleware_contract (run_middlewares mws)"
proof (induction mws)
  case Nil
  then show ?case by (intro middleware_contractI) auto
next
  case (Cons mw mws)
  then have mw: "middleware_contract mw" and mws: "middleware_contract (run_middlewares mws)" by auto
  show ?case
  proof (rule middleware_contractI)
    fix w :: "'a writer_scheme" and req out req' w'
    assume f: "fresh w" and e: "run_middlewares (mw # mws) req w = (out, req', w')"
    obtain out1 req1 w1 where r: "mw req w = (out1, req1, w1)" by (metis prod_cases3)
    note m = middleware_contract.result [OF mw f r]
    show "mw_post out w'"
      by (cases out1 rule: mw_outcome_cases) (use m e r middleware_contract.result [OF mws] in auto)
  qed
qed

lemma wrap_handler_ok:
  assumes "\<forall>mw \<in> set mws. middleware_contract mw" "handler_ok h"
  shows "handler_ok (wrap_handler mws h)"
  unfolding handler_ok_def
proof (intro allI impI)
  fix req and w :: "'a writer_scheme" and out req' w'
  assume f: "fresh w" and e: "wrap_handler mws h req w = (out, req', w')"
  obtain o1 req1 w1 where r: "run_middlewares mws req w = (o1, req1, w1)" by (metis prod_cases3)
  note m = middleware_contract.result [OF run_middlewares_contract [OF assms(1)] f r]
  show "handler_post out w'"
    by (cases o1 rule: mw_outcome_cases) (use m e r assms(2) in \<open>auto simp: wrap_handler_def handler_ok_def\<close>)
qed

lemma scope_chain_handler_mem:
  "scope_chain_handler ss s = Some h \<Longrightarrow> (\<And>i. s = Some i \<Longrightarrow> i < length ss) \<Longrightarrow>
   \<exists>sc \<in> set ss. scope_handler sc = Some h"
proof (induction ss s rule: scope_chain_handler.induct)
  case (2 ss i)
  then have i: "i < length ss" by simp
  show ?case
  proof (cases "scope_handler (ss ! i)")
    case (Some h')
    with "2.prems"(1) i show ?thesis by (auto intro!: bexI [of _ "ss ! i"])
  next
    case None
    with "2.prems"(1) obtain j where j: "scope_parent (ss ! i) = Some j" "j < i"
      "scope_chain_handler ss (Some j) = Some h"
      by (auto split: option.splits if_splits)
    with "2.IH" [OF None j(1,2)] i show ?thesis by simp
  qed
qed simp

lemma selected_error_handler_ok:
  assumes "router_ok root" "\<And>i. scope = Some i \<Longrightarrow> i < length (scopes root)"
    and "selected_error_handler root scope = Some h"
  shows "error_handler_ok h"
proof (cases "scope_chain_handler (scopes root) scope")
  case None
  with assms(1,3) show ?thesis by (simp add: selected_error_handler_def router_ok_def)
next
  case (Some h')
  with assms(3) have "scope_chain_handler (scopes root) scope = Some h"
    by (simp add: selected_error_handler_def)
  from scope_chain_handler_mem [OF this assms(2)] assms(1) show ?thesis by (auto simp: router_ok_def)
qed

lemma send_internal_error_answers:
  "fresh w \<or> answered w \<Longrightarrow> answered (snd (send_internal_error req w))"
  by (auto simp: send_internal_error_def fresh_def answered_def)

lemma handle_exception_answers:
  assumes "router_ok root" "\<And>i. scope = Some i \<Longrightarrow> i < length (scopes root)" "fresh w \<or> answered w"
  shows "answered (snd (handle_exception root scope e req w))"
proof (cases "\<exists>what h. e = StdException what \<and> selected_error_handler root scope = Some h")
  case False
  then have "handle_exception root scope e req w = send_internal_error req w"
    by (auto simp: handle_exception_def split: exn.split option.split)
  with send_internal_error_answers [OF assms(3)] show ?thesis by simp
next
  case True
  then obtain what h where h: "e = StdException what" "selected_error_handler root scope = Some h" by blast
  obtain out r v where c: "h what req w = (out, r, v)" by (metis prod_cases3)
  have "answered w \<longrightarrow> answered v \<and> sent v = sent w" "fresh w \<longrightarrow> handler_post out v"
    using selected_error_handler_ok [OF assms(1,2) h(2)] c unfolding error_handler_ok_def by blast+
  with assms(3) have v: "handler_post out v" by (cases out) auto
  from h c have "handle_exception root scope e req w =
      (case out of Return _ \<Rightarrow> (r, v) | Throw _ \<Rightarrow> send_internal_error r v)"
    by (simp add: handle_exception_def split: outcome.split)
  with v send_internal_error_answers [of v r] show ?thesis by (cases out) auto
qed

text \<open>The error scopes routes refer to exist, and a scope's parent is older than the scope.\<close>

definition scopes_ok :: "('x, 'h) Router \<Rightarrow> bool" where
  "scopes_ok root \<longleftrightarrow>
     (\<forall>st \<in> ran (routes root). \<forall>i. st_errors st = Some i \<longrightarrow> i < length (scopes root)) \<and>
     (\<forall>dr \<in> set (dynamic_routes root). \<forall>i. dr_errors dr = Some i \<longrightarrow> i < length (scopes root)) \<and>
     (\<forall>i < length (scopes root). \<forall>j. scope_parent (scopes root ! i) = Some j \<longrightarrow> j < i)"

lemma find_dynamic_mem: "find_dynamic m segs drs None = Some (dr, ps) \<Longrightarrow> dr \<in> set drs"
  using find_dynamic_correct [where m = m and segs = segs and drs = drs]
  by (auto simp: chosen_def chosen_wildcard_def split: if_splits)

lemma find_handler_props:
  assumes "find_handler root uri m = Some (h, ps, scope)" "router_ok root" "scopes_ok root"
  shows "handler_ok h" "\<And>i. scope = Some i \<Longrightarrow> i < length (scopes root)"
  using assms
  by (auto simp: find_handler_def router_ok_def scopes_ok_def split: option.splits
      intro: ranI dest!: find_dynamic_mem)

lemma finish_answers:
  assumes "router_ok root" "handler_ok h" "fresh w" "\<And>i. scope = Some i \<Longrightarrow> i < length (scopes root)"
  shows "answered (snd (finish root scope (h req w)))"
proof -
  obtain out r v where c: "h req w = (out, r, v)" by (metis prod_cases3)
  with assms(2,3) have "handler_post out v" by (simp add: handler_ok_def)
  with c handle_exception_answers [OF assms(1,4)] show ?thesis
    by (cases out) (simp_all add: finish_def)
qed

lemma dispatch_answers:
  assumes "router_ok root" "scopes_ok root" "fresh w"
  shows "answered (snd (dispatch root req w))"
proof (cases "select_handler root req")
  case (Some r)
  obtain h ps scope where r: "r = (h, ps, scope)" by (metis prod_cases3)
  with Some have "\<exists>m. find_handler root (req_uri req) m = Some (h, ps, scope)"
    by (auto simp: select_handler_def split: option.splits if_splits)
  with find_handler_props [OF _ assms(1,2)] Some r assms(1,3) show ?thesis
    by (auto simp: dispatch_def intro!: finish_answers)
next
  case None
  then show ?thesis
    using assms(1,3) by (auto simp: dispatch_def Let_def router_ok_def split: option.split intro!: finish_answers)
qed

lemma route_answers:
  assumes "router_ok root" "scopes_ok root" "fresh w"
  shows "answered (snd (route root req w))"
proof -
  have m: "middleware_contract (run_middlewares (middlewares root))"
    using assms(1) by (intro run_middlewares_contract) (simp add: router_ok_def)
  obtain out r v where c: "run_middlewares (middlewares root) req (set_error_sink None w) = (out, r, v)"
    by (metis prod_cases3)
  have "mw_post out v" using middleware_contract.result [OF m _ c] assms(3) by simp
  with c dispatch_answers [OF assms(1,2)] handle_exception_answers [OF assms(1), of None] show ?thesis
    by (cases out rule: mw_outcome_cases) (auto simp: route_def)
qed

section \<open>Configured routers\<close>

text \<open>
  The states an application can bring a router into: the list holds the contexts of the enclosing
  groups, innermost first. A registration that throws leaves the router as it was.
\<close>

inductive configured :: "'x group_ctx list \<Rightarrow> ('x, 'h) Router \<Rightarrow> bool" where
  start: "configured [root_ctx pre] new_router"
| add: "\<lbrakk>configured (ctx # cs) root; add_route_with_meta m path mws meta h ctx root = Inr root'\<rbrakk> \<Longrightarrow>
    configured (ctx # cs) root'"
| add_stream: "\<lbrakk>configured (ctx # cs) root; add_stream_route m path h ctx root = Inr root'\<rbrakk> \<Longrightarrow>
    configured (ctx # cs) root'"
| add_ws: "configured (ctx # cs) root \<Longrightarrow> configured (ctx # cs) (ws_route path mws wh ctx root)"
| uses: "\<lbrakk>configured (ctx # cs) root; use_middleware mw (ctx, root) = (ctx', root')\<rbrakk> \<Longrightarrow> configured (ctx' # cs) root'"
| uses_prefix: "\<lbrakk>configured (ctx # cs) root; use_prefix pre mw (ctx, root) = Inr (ctx', root')\<rbrakk> \<Longrightarrow>
    configured (ctx' # cs) root'"
| not_found: "configured cs root \<Longrightarrow> configured cs (set_not_found h root)"
| error: "configured (ctx # cs) root \<Longrightarrow> configured (ctx # cs) (on_error eh ctx root)"
| enter: "\<lbrakk>configured (ctx # cs) root; enter_group pre ctx root = (child, root')\<rbrakk> \<Longrightarrow>
    configured (child # ctx # cs) root'"
| leave: "configured (child # ctx # cs) root \<Longrightarrow> configured (ctx # cs) root"

definition pattern_ok :: "string list \<Rightarrow> bool" where
  "pattern_ok segs \<longleftrightarrow>
     (\<forall>s \<in> set (butlast segs). \<not> is_wildcard s) \<and>
     (\<forall>s \<in> set segs. \<forall>n t. parse_typed_segment s = Some (n, t) \<longrightarrow> n \<noteq> [] \<and> is_known_segment_type t)"

definition table_ok :: "('x, 'h) Router \<Rightarrow> bool" where
  "table_ok root \<longleftrightarrow>
     scopes_ok root \<and>
     (\<forall>dr \<in> set (dynamic_routes root). pattern_ok (path_segments dr) \<and> list_all path_segment (path_segments dr))"

lemma check_segments_ok: "check_segments full segs = None \<Longrightarrow> pattern_ok segs"
proof (induction full segs rule: check_segments.induct)
  case (2 full seg segs)
  then have tail: "pattern_ok segs" and wild: "segs \<noteq> [] \<longrightarrow> \<not> is_wildcard seg"
    and typed: "\<forall>n t. parse_typed_segment seg = Some (n, t) \<longrightarrow> n \<noteq> [] \<and> is_known_segment_type t"
    by (auto split: if_splits option.splits prod.splits)
  then show ?case by (auto simp: pattern_ok_def)
qed (simp add: pattern_ok_def)

lemma add_route_cases:
  assumes "add_route_with_meta m path mws meta h ctx root = Inr root'"
  obtains "dynamic_routes root' = dynamic_routes root" "scopes root' = scopes root"
      "routes root' = (routes root)(make_route_key m (prefix_text ctx @ path) \<mapsto>
         \<lparr>st_handler = wrap_handler (local_middlewares ctx @ mws) h, st_errors = error_scope ctx\<rparr>)"
  | segs where "routes root' = routes root" "scopes root' = scopes root" "pattern_ok segs" "list_all path_segment segs"
      "dynamic_routes root' = dynamic_routes root @
         [\<lparr>dr_method = m, path_segments = segs, dr_handler = wrap_handler (local_middlewares ctx @ mws) h,
           dr_errors = error_scope ctx\<rparr>]"
  using assms
  by (auto simp: add_route_with_meta_def Let_def split_path_segments split: option.splits if_splits
      dest: check_segments_ok)

lemma table_ok_add:
  assumes "add_route_with_meta m path mws meta h ctx root = Inr root'" "table_ok root"
    and "\<forall>i. error_scope ctx = Some i \<longrightarrow> i < length (scopes root)"
  shows "table_ok root'" "scopes root' = scopes root"
  by (rule add_route_cases [OF assms(1)]; use assms(2,3) in \<open>auto simp: table_ok_def scopes_ok_def ran_def\<close>)+

lemma mark_stream_route_simps [simp]:
  "routes (mark_stream_route m p root) = routes root" "scopes (mark_stream_route m p root) = scopes root"
  "dynamic_routes (mark_stream_route m p root) = dynamic_routes root"
  by (simp_all add: mark_stream_route_def)

lemma table_ok_cong:
  "\<lbrakk>routes r = routes root; scopes r = scopes root; dynamic_routes r = dynamic_routes root\<rbrakk> \<Longrightarrow>
   table_ok r = table_ok root"
  by (simp add: table_ok_def scopes_ok_def)

lemma configured_ok:
  "configured cs root \<Longrightarrow>
   table_ok root \<and> (\<forall>c \<in> set cs. \<forall>i. error_scope c = Some i \<longrightarrow> i < length (scopes root))"
proof (induction rule: configured.induct)
  case (start pre)
  then show ?case by (simp add: table_ok_def scopes_ok_def new_router_def root_ctx_def)
next
  case (add ctx cs root m path mws meta h root')
  then show ?case using table_ok_add [OF add.hyps(2)] by simp
next
  case (add_stream ctx cs root m path h root')
  let ?r = "mark_stream_route m (prefix_text ctx @ path) root"
  have "table_ok ?r" using add_stream.IH table_ok_cong [of ?r root] by simp
  with table_ok_add [OF add_stream.hyps(2) [unfolded add_stream_route_def add_route_def]] add_stream.IH
  show ?case by simp
next
  case (add_ws ctx cs root path mws wh)
  then show ?case using table_ok_cong [of "ws_route path mws wh ctx root" root] by (simp add: ws_route_def)
next
  case (uses ctx cs root mw ctx' root')
  then show ?case using table_ok_cong [of root' root] by (auto simp: use_middleware_def split: if_splits)
next
  case (uses_prefix ctx cs root pre mw ctx' root')
  then show ?case
    using table_ok_cong [of root' root] by (auto simp: use_prefix_def use_middleware_def split: if_splits)
next
  case (not_found cs root h)
  then show ?case using table_ok_cong [of "set_not_found h root" root] by (simp add: set_not_found_def)
next
  case (error ctx cs root eh)
  then show ?case
    by (auto simp: on_error_def table_ok_def scopes_ok_def nth_list_update split: option.split)
next
  case (enter ctx cs root pre child root')
  let ?s = "\<lparr>scope_handler = None, scope_parent = error_scope ctx\<rparr> :: 'a ErrorScope"
  have r: "root' = root\<lparr>scopes := scopes root @ [?s]\<rparr>" "error_scope child = Some (length (scopes root))"
    using enter.hyps(2) by (auto simp: enter_group_def)
  have "scope_parent ((scopes root @ [?s]) ! i) = Some j \<longrightarrow> j < i" if "i < Suc (length (scopes root))" for i j
    using that enter.IH by (cases "i < length (scopes root)") (auto simp: table_ok_def scopes_ok_def nth_append not_less_eq less_antisym)
  then have "table_ok root'" using enter.IH r(1) by (simp add: table_ok_def scopes_ok_def) (meson less_SucI)
  then show ?case using enter.IH r by auto
next
  case (leave child ctx cs root)
  then show ?case by simp
qed

lemma method_exists_select: "method_exists root uri m \<longleftrightarrow>
    select_handler root (req\<lparr>req_uri := uri, req_method := m\<rparr>) \<noteq> None"
  by (auto simp: method_exists_def select_handler_def split: option.splits)

lemma join_Nil_iff: "\<forall>s \<in> set ss. s \<noteq> [] \<Longrightarrow> join sep ss = [] \<longleftrightarrow> ss = []"
  by (cases "(sep, ss)" rule: join.cases) auto

lemma method_str_nonempty [simp]: "method_str m \<noteq> []"
  by (cases m) simp_all

text \<open>
  \<open>run_ws_middlewares\<close> sends a 500 for a middleware that throws without asking whether a response
  has gone out, so one that answers and then throws gives the client two responses; in
  \<open>route\<close> the same middleware gives one.
\<close>

definition answers_then_throws :: "unit Middleware" where
  "answers_then_throws req w = (Throw (StdException ''late''), req, writer_send not_found_response w)"

lemma ws_middleware_double_response:
  "length (sent (snd (snd (run_ws_middlewares
     (ws_route ''/ws'' [] () (root_ctx []) (new_router\<lparr>middlewares := [answers_then_throws]\<rparr>))
     ''/ws'' empty_request new_writer)))) = 2"
  "length (sent (snd (route (new_router\<lparr>middlewares := [answers_then_throws]\<rparr> :: (unit, unit) Router)
     empty_request new_writer))) = 1"
  by (simp_all add: run_ws_middlewares_def ws_route_def new_router_def root_ctx_def answers_then_throws_def
      new_writer_def route_def handle_exception_def selected_error_handler_def send_internal_error_def)

section \<open>Properties\<close>

text \<open>
  C32: Route precedence. For every method and path the router calls the handler of the exact route
  if there is one; otherwise the first registered parameter route that matches; otherwise the
  matching wildcard route with the most literal segments, the first registered among equals; and
  it finds nothing only when no route of that method matches.
\<close>

theorem route_precedence:
  "case find_handler root uri m of
     Some (h, ps, scope) \<Rightarrow>
       (case routes root (make_route_key m uri) of
          Some st \<Rightarrow> h = st_handler st \<and> ps = Map.empty \<and> scope = st_errors st
        | None \<Rightarrow> \<exists>dr l. chosen m (split_path uri) (dynamic_routes root) dr \<and>
                     dr_match (split_path uri) dr = Some (l, ps) \<and> h = dr_handler dr \<and> scope = dr_errors dr)
   | None \<Rightarrow>
       routes root (make_route_key m uri) = None \<and>
       (\<forall>dr \<in> set (dynamic_routes root). \<not> candidate m (split_path uri) dr)"
proof (cases "routes root (make_route_key m uri)")
  case (Some st)
  then show ?thesis by (simp add: find_handler_def)
next
  case None
  show ?thesis
    using find_dynamic_correct [where m = m and segs = "split_path uri" and drs = "dynamic_routes root"] None
    by (cases "find_dynamic m (split_path uri) (dynamic_routes root) None") (fastforce simp: find_handler_def)+
qed

definition demo_handler :: "string \<Rightarrow> unit RouteHandler" where
  "demo_handler body req w = (Return (), req, writer_send (send_text body new_response) w)"

definition demo_router :: "(unit, unit) Router" where
  "demo_router =
     (case add_route GET ''/tasks/{id:int}'' [] (demo_handler ''task'') (root_ctx []) new_router of
        Inr r \<Rightarrow>
          (case add_route GET ''/tasks/*'' [] (demo_handler ''rest'') (root_ctx []) r of
             Inr r' \<Rightarrow> r' | Inl _ \<Rightarrow> new_router)
      | Inl _ \<Rightarrow> new_router)"

lemma demo_router_tables:
  "demo_router = new_router\<lparr>
     dynamic_routes :=
       [\<lparr>dr_method = GET, path_segments = [''tasks'', ''{id:int}''],
         dr_handler = wrap_handler [] (demo_handler ''task''), dr_errors = None\<rparr>,
        \<lparr>dr_method = GET, path_segments = [''tasks'', ''*''],
         dr_handler = wrap_handler [] (demo_handler ''rest''), dr_errors = None\<rparr>],
     registration_counts := [(''GET /tasks/{id:int}'', 1), (''GET /tasks/*'', 1)],
     openapi_calls := [(GET, ''/tasks/{id:int}'', empty_meta), (GET, ''/tasks/*'', empty_meta)]\<rparr>"
proof -
  have "split_path ''/tasks/{id:int}'' = [''tasks'', ''{id:int}'']" "split_path ''/tasks/*'' = [''tasks'', ''*'']"
    "check_segments ''/tasks/{id:int}'' [''tasks'', ''{id:int}''] = None"
    "check_segments ''/tasks/*'' [''tasks'', ''*''] = None"
    "is_dynamic ''/tasks/{id:int}''" "is_dynamic ''/tasks/*''"
    by code_simp+
  then show ?thesis
    by (simp add: demo_router_def add_route_def add_route_with_meta_def root_ctx_def new_router_def Let_def
        make_route_key_def)
qed

lemma demo_match:
  "match_segments [''tasks'', ''{id:int}''] [''tasks'', ''42''] 0 Map.empty = Some (1, [''id'' \<mapsto> ''42''])"
  "match_segments [''tasks'', ''{id:int}''] [''tasks'', ''7''] 0 Map.empty = Some (1, [''id'' \<mapsto> ''7''])"
  "split_path ''/tasks/42'' = [''tasks'', ''42'']" "split_path ''/tasks/7'' = [''tasks'', ''7'']"
  "\<not> ends_in_wildcard (\<lparr>dr_method = m, path_segments = [''tasks'', ''{id:int}''], dr_handler = h, dr_errors = None\<rparr>)"
proof -
  have "parse_typed_segment ''tasks'' = None" "parse_typed_segment ''{id:int}'' = Some (''id'', ''int'')"
    "\<not> is_wildcard ''tasks''" "\<not> is_wildcard ''{id:int}''" "\<not> is_colon ''tasks''"
    "segment_matches_type ''int'' ''42''" "segment_matches_type ''int'' ''7''"
    by code_simp+
  then show "match_segments [''tasks'', ''{id:int}''] [''tasks'', ''42''] 0 Map.empty = Some (1, [''id'' \<mapsto> ''42''])"
    "match_segments [''tasks'', ''{id:int}''] [''tasks'', ''7''] 0 Map.empty = Some (1, [''id'' \<mapsto> ''7''])"
    "\<not> ends_in_wildcard (\<lparr>dr_method = m, path_segments = [''tasks'', ''{id:int}''], dr_handler = h, dr_errors = None\<rparr>)"
    by (simp_all add: ends_in_wildcard_def)
  show "split_path ''/tasks/42'' = [''tasks'', ''42'']" "split_path ''/tasks/7'' = [''tasks'', ''7'']"
    by code_simp+
qed

lemma demo_find_dynamic:
  "\<exists>dr ps. find_dynamic GET (split_path ''/tasks/42'') (dynamic_routes demo_router) None = Some (dr, ps) \<and>
     path_segments dr = [''tasks'', ''{id:int}'']"
  by (simp add: demo_router_tables demo_match dr_match_def del: match_segments.simps)

lemma demo_find_handler:
  "find_handler demo_router ''/tasks/7'' GET \<noteq> None"
  "m \<noteq> GET \<Longrightarrow> find_handler demo_router ''/tasks/7'' m = None"
  by (auto simp: find_handler_def demo_router_tables new_router_def demo_match dr_match_def simp del: match_segments.simps)

theorem route_precedence_witness:
  "\<exists>h ps scope dr l. find_handler demo_router ''/tasks/7'' GET = Some (h, ps, scope) \<and>
     chosen GET (split_path ''/tasks/7'') (dynamic_routes demo_router) dr \<and> dr_match (split_path ''/tasks/7'') dr = Some (l, ps)"
proof -
  obtain h ps scope where f: "find_handler demo_router ''/tasks/7'' GET = Some (h, ps, scope)"
    using demo_find_handler(1) by (cases "find_handler demo_router ''/tasks/7'' GET") auto
  have "routes demo_router (make_route_key GET ''/tasks/7'') = None" by (simp add: demo_router_tables new_router_def)
  with route_precedence [where root = demo_router and uri = "''/tasks/7''" and m = GET] f show ?thesis by auto
qed

lemma demo_router_configured: "configured [root_ctx []] demo_router"
proof -
  have "check_segments ''/tasks/{id:int}'' (split_path ''/tasks/{id:int}'') = None"
    "check_segments ''/tasks/*'' (split_path ''/tasks/*'') = None"
    by code_simp+
  then have "\<exists>r'. add_route GET ''/tasks/{id:int}'' [] h (root_ctx []) r = Inr r'"
    "\<exists>r'. add_route GET ''/tasks/*'' [] h (root_ctx []) r = Inr r'"
    for h :: "unit RouteHandler" and r :: "(unit, unit) Router"
    by (simp_all add: add_route_def add_route_with_meta_def root_ctx_def Let_def)
  then obtain r1 r2 :: "(unit, unit) Router"
    where r: "add_route GET ''/tasks/{id:int}'' [] (demo_handler ''task'') (root_ctx []) new_router = Inr r1"
      "add_route GET ''/tasks/*'' [] (demo_handler ''rest'') (root_ctx []) r1 = Inr r2"
    by meson
  then have "demo_router = r2" by (simp add: demo_router_def)
  with r configured.add [OF configured.add [OF configured.start]] show ?thesis
    unfolding add_route_def by blast
qed

text \<open>
  Path parameters. When a route pattern with distinct parameter names matches, putting the
  extracted parameters back into the pattern gives the request's segments: every parameter holds
  exactly the segment at its place, and a wildcard exactly the rest of the path.
\<close>

theorem match_params_roundtrip:
  assumes "match_segments pattern (split_path uri) 0 Map.empty = Some (l, ps)"
    and "distinct (pattern_params pattern)"
  shows "fill_in pattern ps = split_path uri"
  using assms split_path_segments by (rule match_segments_fill_in)

theorem match_params_roundtrip_witness:
  "\<exists>l ps. match_segments [''users'', '':id'', ''*path''] (split_path ''/users/7/a/b'') 0 Map.empty = Some (l, ps) \<and>
     fill_in [''users'', '':id'', ''*path''] ps = split_path ''/users/7/a/b''"
proof -
  have "match_segments [''users'', '':id'', ''*path''] (split_path ''/users/7/a/b'') 0 Map.empty \<noteq> None"
    "distinct (pattern_params [''users'', '':id'', ''*path''])"
    by code_simp+
  moreover from this(1) obtain l ps
    where "match_segments [''users'', '':id'', ''*path''] (split_path ''/users/7/a/b'') 0 Map.empty = Some (l, ps)"
    by (metis not_None_eq surj_pair)
  ultimately show ?thesis
    using match_params_roundtrip [of "[''users'', '':id'', ''*path'']" "''/users/7/a/b''" l ps] by blast
qed

text \<open>
  The specification of how an exception is answered. The error handler is the one set on the innermost scope around the route that has one,
  or the application's.
\<close>

inductive handles :: "('x, 'h) Router \<Rightarrow> nat option \<Rightarrow> 'x ErrorHandler \<Rightarrow> bool" for root where
  own: "scope_handler (scopes root ! i) = Some h \<Longrightarrow> handles root (Some i) h"
| outer: "scope_handler (scopes root ! i) = None \<Longrightarrow> handles root (scope_parent (scopes root ! i)) h \<Longrightarrow> handles root (Some i) h"
| app: "error_handler root = Some h \<Longrightarrow> handles root None h"

inductive_cases handles_SomeE: "handles root (Some i) h"

inductive_cases handles_NoneE: "handles root None h"

text \<open>Where an exception comes from: the error scope that applies, the exception, and the request and writer as they are left.\<close>

inductive throws_at ::
  "('x, 'h) Router \<Rightarrow> HttpRequest \<Rightarrow> 'x writer_scheme \<Rightarrow> nat option \<Rightarrow> exn \<Rightarrow> HttpRequest \<Rightarrow> 'x writer_scheme \<Rightarrow> bool" for root req w where
  in_middleware: "run_middlewares (middlewares root) req (set_error_sink None w) = (Throw e, r, v) \<Longrightarrow> throws_at root req w None e r v"
| in_handler: "run_middlewares (middlewares root) req (set_error_sink None w) = (Return True, r1, w1) \<Longrightarrow>
    select_handler root r1 = Some (h, ps, scope) \<Longrightarrow>
    h (r1\<lparr>req_params := ps\<rparr>) (if scope \<noteq> None then set_error_sink scope w1 else w1) = (Throw e, r, v) \<Longrightarrow> throws_at root req w scope e r v"
| in_not_found: "run_middlewares (middlewares root) req (set_error_sink None w) = (Return True, r1, w1) \<Longrightarrow> select_handler root r1 = None \<Longrightarrow>
    allow_header root (req_uri r1) = [] \<Longrightarrow> not_found_handler root = Some h \<Longrightarrow> h r1 w1 = (Throw e, r, v) \<Longrightarrow> throws_at root req w None e r v"

definition or_internal_error :: "'x writer_scheme \<Rightarrow> HttpResponse list" where
  "or_internal_error v = (if responded v then sent v else sent v @ [prepare_response v internal_error])"

text \<open>What has been sent in the end, for an exception that left the writer \<open>v\<close>.\<close>

definition error_answer :: "('x, 'h) Router \<Rightarrow> nat option \<Rightarrow> exn \<Rightarrow> HttpRequest \<Rightarrow> 'x writer_scheme \<Rightarrow> HttpResponse list \<Rightarrow> bool" where
  "error_answer root scope e r v out \<longleftrightarrow>
     (if responded v then out = sent v
      else case e of
             OtherException \<Rightarrow> out = or_internal_error v
           | StdException what \<Rightarrow>
               (\<forall>h. handles root scope h \<longrightarrow>
                  (case h what r v of (Return _, _, v') \<Rightarrow> out = sent v' | (Throw _, _, v') \<Rightarrow> out = or_internal_error v')) \<and>
               ((\<nexists>h. handles root scope h) \<longrightarrow> out = or_internal_error v))"

lemma selected_handles:
  assumes "scopes_ok root"
  shows "(\<And>i. scope = Some i \<Longrightarrow> i < length (scopes root)) \<Longrightarrow> selected_error_handler root scope = Some h \<longleftrightarrow> handles root scope h"
proof (induction "scopes root" scope rule: scope_chain_handler.induct)
  case 1
  then show ?case by (auto simp: selected_error_handler_def intro: handles.app elim: handles_NoneE)
next
  case (2 i)
  then have i: "i < length (scopes root)" by simp
  show ?case
  proof (cases "scope_handler (scopes root ! i)")
    case (Some h')
    then show ?thesis by (auto simp: selected_error_handler_def intro: handles.own elim: handles_SomeE)
  next
    case None
    have s: "selected_error_handler root (Some i) = selected_error_handler root (scope_parent (scopes root ! i))"
      using None i assms by (auto simp: selected_error_handler_def scopes_ok_def split: option.split)
    have p: "handles root (Some i) h \<longleftrightarrow> handles root (scope_parent (scopes root ! i)) h"
      using None by (auto intro: handles.outer elim: handles_SomeE)
    show ?thesis
    proof (cases "scope_parent (scopes root ! i)")
      case None
      then show ?thesis using s p by (auto simp: selected_error_handler_def intro: handles.app elim: handles_NoneE)
    next
      case (Some j)
      then have "j < i" using i assms by (auto simp: scopes_ok_def)
      with "2.hyps" [OF None Some] Some s p i show ?thesis by simp
    qed
  qed
qed

lemma handle_exception_error_answer:
  assumes "router_ok root" "scopes_ok root" "\<And>i. scope = Some i \<Longrightarrow> i < length (scopes root)" "fresh v \<or> answered v"
  shows "error_answer root scope e r v (sent (snd (handle_exception root scope e r v)))"
proof -
  have sel: "selected_error_handler root scope = Some h \<longleftrightarrow> handles root scope h" for h using selected_handles [OF assms(2), of scope h] assms(3) by blast
  have internal: "sent (snd (send_internal_error r' v')) = or_internal_error v'" for r' and v' :: "'a writer_scheme"
    by (simp add: send_internal_error_def or_internal_error_def)
  have rv: "or_internal_error v = sent v" if "responded v" using that by (simp add: or_internal_error_def)
  show ?thesis
  proof (cases "\<exists>what h. e = StdException what \<and> selected_error_handler root scope = Some h")
    case False
    then have "handle_exception root scope e r v = send_internal_error r v"
      by (auto simp: handle_exception_def split: exn.split option.split)
    moreover have "e = StdException what \<Longrightarrow> \<nexists>h. handles root scope h" for what using False sel by auto
    ultimately show ?thesis using internal rv by (auto simp: error_answer_def split: exn.split)
  next
    case True
    then obtain what h where h: "e = StdException what" "selected_error_handler root scope = Some h" by blast
    obtain out r' v' where c: "h what r v = (out, r', v')" by (metis prod_cases3)
    have "answered v \<longrightarrow> answered v' \<and> sent v' = sent v"
      using selected_error_handler_ok [OF assms(1,3) h(2)] c unfolding error_handler_ok_def by blast
    moreover have "handles root scope h' \<longleftrightarrow> h' = h" for h' using sel [where h = h'] h(2) by auto
    ultimately show ?thesis using h c internal assms(4)
      by (cases out) (auto simp: error_answer_def handle_exception_def or_internal_error_def fresh_def answered_def)
  qed
qed

lemma throws_at_answered:
  assumes "router_ok root" "scopes_ok root" "fresh w" "throws_at root req w scope e r v"
  shows "error_answer root scope e r v (sent (snd (route root req w)))"
  using assms(4)
proof cases
  case in_middleware
  have "middleware_contract (run_middlewares (middlewares root))"
    using assms(1) by (intro run_middlewares_contract) (simp add: router_ok_def)
  from middleware_contract.result [OF this _ in_middleware(2)] assms(3) have "fresh v \<or> answered v" by simp
  with handle_exception_error_answer [OF assms(1,2), of None v e r] in_middleware show ?thesis by (simp add: route_def)
next
  case (in_handler r1 w1 h ps)
  have m: "middleware_contract (run_middlewares (middlewares root))"
    using assms(1) by (intro run_middlewares_contract) (simp add: router_ok_def)
  have w1: "fresh w1" using middleware_contract.result [OF m _ in_handler(1)] assms(3) by simp
  have "\<exists>m. find_handler root (req_uri r1) m = Some (h, ps, scope)"
    using in_handler(2) by (auto simp: select_handler_def split: option.splits if_splits)
  then obtain m where f: "find_handler root (req_uri r1) m = Some (h, ps, scope)" ..
  note p = find_handler_props [OF f assms(1,2)]
  have "handler_post (Throw e :: unit outcome) v" using p(1) in_handler(3) w1 unfolding handler_ok_def by (metis fresh_simps(2))
  then have "fresh v \<or> answered v" by simp
  from handle_exception_error_answer [OF assms(1,2) p(2) this] in_handler show ?thesis
    by (simp add: route_def dispatch_def finish_def)
next
  case (in_not_found r1 w1 h)
  have m: "middleware_contract (run_middlewares (middlewares root))"
    using assms(1) by (intro run_middlewares_contract) (simp add: router_ok_def)
  have w1: "fresh w1" using middleware_contract.result [OF m _ in_not_found(2)] assms(3) by simp
  have "handler_ok h" using assms(1) in_not_found(5) by (simp add: router_ok_def)
  then have "handler_post (Throw e :: unit outcome) v" using in_not_found(6) w1 unfolding handler_ok_def by metis
  then have "fresh v \<or> answered v" by simp
  from handle_exception_error_answer [OF assms(1,2) _ this, of None] in_not_found show ?thesis
    by (simp add: route_def dispatch_def finish_def Let_def)
qed

text \<open>
  C6: One response per request, and the right one for an exception. If middleware, handlers and error handlers each keep their part of
  the contract (a middleware that lets a request through has sent nothing, one that stops it has answered it; a handler that returns has
  answered; nobody answers twice), then after \<open>route\<close> exactly one response has been sent, whatever throws and wherever. When a
  middleware, the chosen handler or the not-found handler throws: if it had answered, that is the response; otherwise it is that
  of the error handler of the innermost scope around the route that has one, or of the application's; and it is a 500 if there is no
  handler, if the exception is not a \<^verbatim>\<open>std::exception\<close>, or if that handler throws without having answered.
\<close>

theorem route_answers_exactly_once:
  assumes "configured cs root" and "router_ok root" and "fresh w"
  shows "length (sent (snd (route root req w))) = 1 \<and> responded (snd (route root req w)) \<and>
    (\<forall>scope e r v. throws_at root req w scope e r v \<longrightarrow> error_answer root scope e r v (sent (snd (route root req w))))"
proof -
  have s: "scopes_ok root" using configured_ok [OF assms(1)] by (simp add: table_ok_def)
  from route_answers [OF assms(2) s assms(3)] throws_at_answered [OF assms(2) s assms(3)] show ?thesis by (simp add: answered_def)
qed

text \<open>A router whose middleware throws, with an error handler that sends the text of the exception.\<close>

definition throwing :: "unit Middleware" where
  "throwing req w = (Throw (StdException ''late''), req, w)"

definition sends_text :: "unit ErrorHandler" where
  "sends_text what req w = (Return (), req, if responded w then w else writer_send (send_text what new_response) w)"

definition failing_router :: "(unit, unit) Router" where
  "failing_router = on_error sends_text (root_ctx []) (snd (use_middleware throwing (root_ctx [], new_router)))"

lemma failing_router_ok: "configured [root_ctx []] failing_router \<and> router_ok failing_router"
proof
  have u: "use_middleware throwing (root_ctx [], new_router) = (root_ctx [], new_router\<lparr>middlewares := [throwing]\<rparr>)"
    by (simp add: use_middleware_def root_ctx_def new_router_def)
  from configured.error [OF configured.uses [OF configured.start u], of sends_text] show "configured [root_ctx []] failing_router"
    by (simp add: failing_router_def u)
  have "middleware_contract throwing" by (intro middleware_contractI) (auto simp: throwing_def)
  moreover have "error_handler_ok sends_text"
    by (auto simp: error_handler_ok_def sends_text_def answered_def fresh_def)
  ultimately show "router_ok failing_router"
    by (simp add: failing_router_def router_ok_def on_error_def use_middleware_def root_ctx_def new_router_def)
qed

theorem route_answers_exactly_once_witness:
  "sent (snd (route failing_router empty_request new_writer)) = [send_text ''late'' new_response]"
proof -
  let ?v = "set_error_sink None new_writer"
  have f: "middlewares failing_router = [throwing]" "error_handler failing_router = Some sends_text"
    by (simp_all add: failing_router_def on_error_def use_middleware_def root_ctx_def new_router_def)
  then have "throws_at failing_router empty_request new_writer None (StdException ''late'') empty_request ?v"
    by (intro throws_at.in_middleware) (simp add: throwing_def)
  then have e: "error_answer failing_router None (StdException ''late'') empty_request ?v
      (sent (snd (route failing_router empty_request new_writer)))"
    using route_answers_exactly_once [of "[root_ctx []]" failing_router new_writer empty_request] failing_router_ok by simp
  have "handles failing_router None sends_text" by (rule handles.app [OF f(2)])
  moreover have "\<not> responded ?v" by (simp add: new_writer_def)
  ultimately have "case sends_text ''late'' empty_request ?v of
      (Return _, _, v') \<Rightarrow> sent (snd (route failing_router empty_request new_writer)) = sent v'
    | (Throw _, _, v') \<Rightarrow> sent (snd (route failing_router empty_request new_writer)) = or_internal_error v'"
    using e unfolding error_answer_def by simp
  moreover have "prepare_response ?v r = r" for r by (simp add: prepare_response_def new_writer_def set_error_sink_def)
  moreover have "sent ?v = []" by (simp add: new_writer_def)
  ultimately show ?thesis using \<open>\<not> responded ?v\<close> by (simp add: sends_text_def)
qed

text \<open>
  When no handler serves a request's method, the response is a 405 whose \<^verbatim>\<open>Allow\<close> header lists
  exactly the methods the router would dispatch for the same path (\<^verbatim>\<open>HEAD\<close> wherever \<^verbatim>\<open>GET\<close> is
  served), in a fixed order; if there are none, it is the not-found handler's response or a 404.
\<close>

theorem method_not_allowed_exact:
  assumes "select_handler root req = None"
  shows "let ms = filter (\<lambda>m. select_handler root (req\<lparr>req_method := m\<rparr>) \<noteq> None) kMethods
         in dispatch root req w =
              (if ms \<noteq> [] then (req, writer_send (not_allowed (join '', '' (map method_str ms))) w)
               else case not_found_handler root of
                      Some h \<Rightarrow> finish root None (h req w)
                    | None \<Rightarrow> (req, writer_send not_found_response w))"
proof -
  have "method_exists root (req_uri req) = (\<lambda>m. select_handler root (req\<lparr>req_method := m\<rparr>) \<noteq> None)"
    by (rule ext) (simp only: method_exists_select [where req = req], simp)
  then have "allow_header root (req_uri req) =
      join '', '' (map method_str (filter (\<lambda>m. select_handler root (req\<lparr>req_method := m\<rparr>) \<noteq> None) kMethods))"
    by (simp only: allow_header_def)
  then show ?thesis
    using assms join_Nil_iff [of "map method_str (filter (\<lambda>m. select_handler root (req\<lparr>req_method := m\<rparr>) \<noteq> None) kMethods)"]
    by (auto simp: dispatch_def Let_def)
qed

text \<open>
  C33: A typed parameter always parses. In any router an application can configure, when a route with an \<^verbatim>\<open>{name:int}\<close> segment is chosen for a
  request and no later segment of its pattern has the same name, \<^verbatim>\<open>param<int64_t>(name)\<close> has a value. (A later segment with the name
  replaces the value, see below.)
\<close>

theorem int_param_never_null:
  assumes "configured cs root"
    and "find_dynamic m (split_path uri) (dynamic_routes root) None = Some (dr, ps)"
    and "path_segments dr = before @ seg # after" "parse_typed_segment seg = Some (n, ''int'')" "n \<notin> set (pattern_params after)"
  shows "\<exists>v. param (parse_param_signed LLONG_MIN LLONG_MAX) n (req\<lparr>req_params := ps\<rparr>) = Some v"
proof -
  have dr: "dr \<in> set (dynamic_routes root)" by (rule find_dynamic_mem [OF assms(2)])
  have "\<exists>l. dr_match (split_path uri) dr = Some (l, ps)"
    using find_dynamic_correct [where m = m and segs = "split_path uri" and drs = "dynamic_routes root"] assms(2)
    by simp
  then obtain l where "match_segments (before @ seg # after) (split_path uri) 0 Map.empty = Some (l, ps)"
    by (auto simp: dr_match_def assms(3))
  moreover have "\<forall>s \<in> set before. \<not> is_wildcard s"
    using configured_ok [OF assms(1)] dr by (auto simp: table_ok_def pattern_ok_def assms(3) butlast_append)
  ultimately obtain v where "ps n = Some v" "segment_matches_type ''int'' v"
    using match_segments_typed assms(4,5) by blast
  then show ?thesis
    by (auto simp: param_def parse_param_signed_def segment_matches_type_def split: option.splits list.splits)
qed

text \<open>
  The router accepts a pattern that names a parameter twice; the later segment decides, and the typed parameter may be null for a request
  that the route matches.
\<close>

lemma repeated_name_null:
  "check_segments ''/{id:int}/:id'' (split_path ''/{id:int}/:id'') = None \<and>
   (case match_segments (split_path ''/{id:int}/:id'') (split_path ''/7/x'') 0 Map.empty of
      Some (_, ps) \<Rightarrow> param (parse_param_signed LLONG_MIN LLONG_MAX) ''id'' (empty_request\<lparr>req_params := ps\<rparr>) = None
    | None \<Rightarrow> False)"
  by code_simp

theorem method_not_allowed_exact_witness:
  "dispatch demo_router (empty_request\<lparr>req_method := POST, req_uri := ''/tasks/7''\<rparr>) new_writer =
     (empty_request\<lparr>req_method := POST, req_uri := ''/tasks/7''\<rparr>, writer_send (not_allowed ''GET, HEAD'') new_writer)"
proof -
  let ?req = "\<lambda>m. empty_request\<lparr>req_method := m, req_uri := ''/tasks/7''\<rparr>"
  have s: "select_handler demo_router (?req m) \<noteq> None \<longleftrightarrow> m = GET \<or> m = HEAD" for m
    using demo_find_handler(1) demo_find_handler(2) [of m]
    by (cases "m = GET") (auto simp: select_handler_def empty_request_def split: option.split)
  then have "filter (\<lambda>m. select_handler demo_router ((?req POST)\<lparr>req_method := m\<rparr>) \<noteq> None) kMethods = [GET, HEAD]"
    by (simp add: kMethods_def empty_request_def)
  moreover have "select_handler demo_router (?req POST) = None" using s [of POST] by blast
  ultimately show ?thesis using method_not_allowed_exact [of demo_router "?req POST" new_writer] by simp
qed

theorem int_param_never_null_witness:
  "\<exists>dr ps v. find_dynamic GET (split_path ''/tasks/42'') (dynamic_routes demo_router) None = Some (dr, ps) \<and>
     param (parse_param_signed LLONG_MIN LLONG_MAX) ''id'' (empty_request\<lparr>req_params := ps\<rparr>) = Some v"
proof -
  obtain dr ps where d: "find_dynamic GET (split_path ''/tasks/42'') (dynamic_routes demo_router) None = Some (dr, ps)"
    "path_segments dr = [''tasks'', ''{id:int}'']"
    using demo_find_dynamic by blast
  moreover have "parse_typed_segment ''{id:int}'' = Some (''id'', ''int'')" by code_simp
  ultimately show ?thesis
    using int_param_never_null [OF demo_router_configured, of GET "''/tasks/42''" dr ps "[''tasks'']" "''{id:int}''" "[]" "''id''" empty_request]
    by auto
qed

end
