(* ===== verification/Multipart.thy ===== *)
theory Multipart
  imports Http_Text
begin

text \<open>
  Multipart bodies: \<^verbatim>\<open>src/http/MultipartStreamParser.cpp\<close> (the streaming parser with its limits and
  temporary files) and \<^verbatim>\<open>src/http/MultipartForm.cpp\<close> (the parser of a whole body).

  \<^item> An index into a view is a number; \<^verbatim>\<open>find\<close> from an index is \<open>find_sub\<close> on the suffix.
  \<^item> The callbacks \<^verbatim>\<open>on_field\<close> and \<^verbatim>\<open>on_file\<close> are the list of their calls.
  \<^item> The disk is the map of the temporary files with what was written to them. The operating
    system is the environment: the random path of the \<open>n\<close>-th upload, whether it can be created,
    whether the \<open>n\<close>-th \<^verbatim>\<open>write_all\<close> succeeds, and whether the file at a path can be removed. Creating a file is exclusive, so the path was
    not there before.
\<close>

section \<open>The boundary parameter\<close>

fun quoted_string :: "string \<Rightarrow> (string \<times> string) option" where
  "quoted_string [] = None"
| "quoted_string (ch # r) =
     (if ch = CHR 0x5C \<and> r \<noteq> [] then map_option (\<lambda>(v, rest). (hd r # v, rest)) (quoted_string (tl r))
      else if ch = CHR 0x22 then Some ([], r)
      else map_option (\<lambda>(v, rest). (ch # v, rest)) (quoted_string r))"

definition param_value :: "string \<Rightarrow> (string \<times> string option) option" where
  "param_value v =
     (if v \<noteq> [] \<and> hd v = CHR 0x22
      then map_option (\<lambda>(val, rest). (val, snd (split_at (CHR '';'') rest))) (quoted_string (tl v))
      else case split_at (CHR '';'') v of (token, next) \<Rightarrow> Some (rtrim token, next))"

lemma quoted_string_shrinks [shrinks]: "quoted_string s = Some (v, r) \<Longrightarrow> length r < length s"
proof (induction s arbitrary: v r rule: quoted_string.induct)
  case (2 ch s)
  show ?case
  proof (cases "ch = CHR 0x5C \<and> s \<noteq> []")
    case True
    with "2.prems" obtain v' where v: "quoted_string (tl s) = Some (v', r)" by auto
    from "2.IH"(1) [OF True v] show ?thesis by (cases s) auto
  next
    case False
    with 2 show ?thesis by (force split: if_splits)
  qed
qed simp

lemma param_value_shrinks [shrinks]: "param_value v = Some (val, Some r) \<Longrightarrow> length r < length v"
proof (cases "v \<noteq> [] \<and> hd v = CHR 0x22")
  case True
  assume "param_value v = Some (val, Some r)"
  with True obtain w q where "quoted_string (tl v) = Some (w, q)" "snd (split_at (CHR '';'') q) = Some r"
    by (auto simp: param_value_def)
  then have "length r < length q" "length q < length (tl v)"
    by (auto dest: quoted_string_shrinks split_at_snd_shrinks)
  then show ?thesis by simp
next
  case False
  assume "param_value v = Some (val, Some r)"
  with False show ?thesis
    by (auto simp: param_value_def split: prod.splits dest: split_at_shrinks)
qed

function boundary_param :: "string \<Rightarrow> string" where
  "boundary_param s =
     (case split_at (CHR ''='') (ltrim s) of
        (_, None) \<Rightarrow> []
      | (name, Some v) \<Rightarrow>
          (case param_value v of
             None \<Rightarrow> []
           | Some (val, next) \<Rightarrow>
               if token_is ''boundary'' (rtrim name)
               then (if val = [] \<or> length val > 70 then [] else val)
               else (case next of None \<Rightarrow> [] | Some r \<Rightarrow> boundary_param r)))"
  by pat_completeness auto
termination
proof (relation "measure length", simp, clarsimp)
  fix s name v val r
  assume "(name, Some v) = split_at (CHR ''='') (ltrim s)" "param_value v = Some (val, Some r)"
  then have "length v < length (ltrim s)" "length r < length v"
    by (auto dest: param_value_shrinks split_at_shrinks [OF sym])
  with length_ltrim [of s] show "length r < length s" by simp
qed

declare boundary_param.simps [simp del]

definition multipart_boundary :: "string \<Rightarrow> string" where
  "multipart_boundary content_type =
     (case split_at (CHR '';'') content_type of (_, None) \<Rightarrow> [] | (_, Some s) \<Rightarrow> boundary_param s)"

section \<open>Part headers\<close>

function header_lines :: "string \<Rightarrow> string list" where
  "header_lines s =
     (if s = [] then []
      else case find_sub CRLF s of
             None \<Rightarrow> [s]
           | Some i \<Rightarrow> take i s # header_lines (drop (i + 2) s))"
  by pat_completeness auto
termination
  by (relation "measure length") (auto dest: find_sub_Some)

declare header_lines.simps [simp del]

function disposition_param :: "string \<Rightarrow> string \<Rightarrow> nat \<Rightarrow> string" where
  "disposition_param line key pos =
     (if key = [] then []
      else case find_sub key (drop pos line) of
             None \<Rightarrow> []
           | Some i \<Rightarrow>
               let p = pos + i;
                   starts_param = (p > 0 \<and> line ! (p - 1) \<in> {CHR '';'', CHR '' '', CHR 0x09});
                   after = p + length key
               in if starts_param \<and> take 2 (drop after line) = [CHR ''='', CHR 0x22]
                  then (case split_at (CHR 0x22) (drop (after + 2) line) of (_, None) \<Rightarrow> [] | (v, Some _) \<Rightarrow> v)
                  else disposition_param line key after)"
  by pat_completeness auto
termination
  by (relation "measure (\<lambda>(line, key, pos). length line - pos)") (auto dest: find_sub_advance)

declare disposition_param.simps [simp del]

record part_headers =
  ph_name :: string
  ph_filename :: string
  ph_content_type :: string

definition content_type_value :: "string \<Rightarrow> string" where
  "content_type_value line =
     (case split_at (CHR '':'') line of (_, None) \<Rightarrow> [] | (_, Some v) \<Rightarrow> dropWhile (\<lambda>c. c = CHR '' '') v)"

definition parse_header_line :: "string \<Rightarrow> part_headers \<Rightarrow> part_headers" where
  "parse_header_line line h =
     (if prefix ''Content-Disposition:'' line
      then h\<lparr>ph_name := disposition_param line ''name'' 0, ph_filename := disposition_param line ''filename'' 0\<rparr>
      else if prefix ''Content-Type:'' line then h\<lparr>ph_content_type := content_type_value line\<rparr>
      else h)"

definition parse_headers :: "string \<Rightarrow> part_headers" where
  "parse_headers headers =
     fold parse_header_line (header_lines headers) \<lparr>ph_name = [], ph_filename = [], ph_content_type = []\<rparr>"

section \<open>The streaming parser\<close>

datatype mp_state = FINDING_BOUNDARY | READING_HEADERS | READING_BODY

datatype mp_event = OnField string string | OnFile string string string string

record mp_limits =
  max_file_size :: nat
  max_field_size :: nat
  max_total_size :: nat
  max_parts :: nat
  upload_dir :: string

record mp_env =
  upload_path :: "nat \<Rightarrow> string"
  open_ok :: "nat \<Rightarrow> bool"
  write_ok :: "nat \<Rightarrow> bool"
  remove_ok :: "string \<Rightarrow> bool"
  has_on_field :: bool
  has_on_file :: bool

record mp_parser =
  dash_boundary :: string
  limits :: mp_limits
  mp_state :: mp_state
  mp_buffer :: string
  current :: part_headers
  current_field_value :: string
  current_fd :: bool
  current_size :: nat
  current_tmp :: string
  total_size :: nat
  parts :: nat
  mp_failed :: bool
  finished :: bool
  mp_error :: string
  mp_events :: "mp_event list"
  disk :: "string \<rightharpoonup> string"
  opens :: nat
  writes :: nat

definition no_headers :: part_headers where
  "no_headers = \<lparr>ph_name = [], ph_filename = [], ph_content_type = []\<rparr>"

definition mp_new :: "string \<Rightarrow> mp_limits \<Rightarrow> mp_parser" where
  "mp_new boundary lim =
     \<lparr>dash_boundary = ''--'' @ boundary, limits = lim, mp_state = FINDING_BOUNDARY, mp_buffer = [],
      current = no_headers, current_field_value = [], current_fd = False, current_size = 0,
      current_tmp = [], total_size = 0, parts = 0, mp_failed = False, finished = False, mp_error = [],
      mp_events = [], disk = Map.empty, opens = 0, writes = 0\<rparr>"

definition discard_current_part :: "mp_env \<Rightarrow> mp_parser \<Rightarrow> mp_parser" where
  "discard_current_part env p =
     p\<lparr>current_fd := False,
       disk := (if current_tmp p \<noteq> [] \<and> remove_ok env (current_tmp p) then (disk p)(current_tmp p := None) else disk p),
       current_tmp := [], current := no_headers, current_field_value := [], current_size := 0\<rparr>"

definition mp_fail :: "mp_env \<Rightarrow> string \<Rightarrow> mp_parser \<Rightarrow> mp_parser" where
  "mp_fail env reason p =
     (if mp_failed p then p
      else (discard_current_part env (p\<lparr>mp_failed := True, mp_error := reason\<rparr>))\<lparr>mp_buffer := []\<rparr>)"

definition append_body :: "mp_env \<Rightarrow> string \<Rightarrow> mp_parser \<Rightarrow> bool \<times> mp_parser" where
  "append_body env data p =
     (let p1 = p\<lparr>current_size := current_size p + length data\<rparr>
      in if current_fd p1 then
           (if current_size p1 > max_file_size (limits p1)
            then (False, mp_fail env ''uploaded file exceeds max_file_size'' p1)
            else if \<not> write_ok env (writes p1)
            then (False, mp_fail env ''could not write the uploaded file'' (p1\<lparr>writes := Suc (writes p1)\<rparr>))
            else (True, p1\<lparr>writes := Suc (writes p1),
                           disk := (disk p1)(current_tmp p1 := map_option (\<lambda>old. old @ data) (disk p1 (current_tmp p1)))\<rparr>))
         else if current_size p1 > max_field_size (limits p1)
         then (False, mp_fail env ''form field exceeds max_field_size'' p1)
         else (True, p1\<lparr>current_field_value := current_field_value p1 @ data\<rparr>))"

definition open_temp_file :: "mp_env \<Rightarrow> mp_parser \<Rightarrow> bool \<times> mp_parser" where
  "open_temp_file env p =
     (if upload_dir (limits p) = [] then (False, mp_fail env ''no upload directory available'' p)
      else
        let path = upload_path env (opens p); p1 = p\<lparr>opens := Suc (opens p), current_tmp := path\<rparr>
        in if \<not> open_ok env (opens p) \<or> disk p path \<noteq> None
           then (False, mp_fail env ''could not create a temporary file for the upload'' (p1\<lparr>current_tmp := []\<rparr>))
           else (True, p1\<lparr>current_fd := True, disk := (disk p1)(path \<mapsto> [])\<rparr>))"

definition close_current_part :: "mp_env \<Rightarrow> mp_parser \<Rightarrow> mp_parser" where
  "close_current_part env p =
     (let named = (ph_name (current p) \<noteq> [])
      in discard_current_part env
           (if current_fd p then
              (if has_on_file env \<and> named
               then p\<lparr>current_fd := False,
                      mp_events := mp_events p @
                        [OnFile (ph_name (current p)) (ph_filename (current p)) (ph_content_type (current p)) (current_tmp p)],
                      current_tmp := []\<rparr>
               else p\<lparr>current_fd := False\<rparr>)
            else if has_on_field env \<and> named
            then p\<lparr>mp_events := mp_events p @ [OnField (ph_name (current p)) (current_field_value p)]\<rparr>
            else p))"

text \<open>One pass of the loop: \<open>True\<close> to go round again, \<open>False\<close> for a \<^verbatim>\<open>break\<close>.\<close>

definition find_boundary_pass :: "mp_parser \<Rightarrow> bool \<times> mp_parser" where
  "find_boundary_pass p =
     (let b = mp_buffer p; d = dash_boundary p
      in case find_sub d b of
           None \<Rightarrow> (False, if length b > length d then p\<lparr>mp_buffer := drop (length b - length d) b\<rparr> else p)
         | Some pos \<Rightarrow>
             let r = drop (pos + length d) b; p1 = p\<lparr>mp_buffer := r\<rparr>
             in if length r \<ge> 2 then
                  (if take 2 r = ''--'' then (False, p1\<lparr>finished := True, mp_buffer := []\<rparr>)
                   else if take 2 r = CRLF then (True, p1\<lparr>mp_buffer := drop 2 r, mp_state := READING_HEADERS\<rparr>)
                   else (True, p1\<lparr>mp_buffer := drop 2 r\<rparr>))
                else (False, p1))"

definition headers_pass :: "mp_env \<Rightarrow> mp_parser \<Rightarrow> bool \<times> mp_parser" where
  "headers_pass env p =
     (let b = mp_buffer p
      in case find_sub (CRLF @ CRLF) b of
           None \<Rightarrow> (False, if length b > 8192 then mp_fail env ''part headers exceed 8192 bytes'' p else p)
         | Some pos \<Rightarrow>
             let p1 = p\<lparr>parts := Suc (parts p)\<rparr>
             in if parts p1 > max_parts (limits p1) then (False, mp_fail env ''too many parts'' p1)
                else
                  let p2 = p1\<lparr>current := parse_headers (take pos b), mp_buffer := drop (pos + 4) b, current_size := 0\<rparr>
                  in if ph_filename (current p2) \<noteq> [] then
                       (case open_temp_file env p2 of (ok, p3) \<Rightarrow>
                          if ok then (True, p3\<lparr>mp_state := READING_BODY\<rparr>) else (False, p3))
                     else (True, p2\<lparr>current_field_value := [], mp_state := READING_BODY\<rparr>))"

definition body_pass :: "mp_env \<Rightarrow> mp_parser \<Rightarrow> bool \<times> mp_parser" where
  "body_pass env p =
     (let b = mp_buffer p; sig = CRLF @ dash_boundary p
      in case find_sub sig b of
           None \<Rightarrow>
             (if length b > length sig then
                let n = length b - length sig
                in case append_body env (take n b) p of (ok, p1) \<Rightarrow>
                     (False, if ok then p1\<lparr>mp_buffer := drop n b\<rparr> else p1)
              else (False, p))
         | Some pos \<Rightarrow>
             (case append_body env (take pos b) p of (ok, p1) \<Rightarrow>
                if \<not> ok then (False, p1)
                else (True, (close_current_part env p1)\<lparr>mp_buffer := drop (pos + 2) b, mp_state := FINDING_BOUNDARY\<rparr>)))"

definition mp_pass :: "mp_env \<Rightarrow> mp_parser \<Rightarrow> bool \<times> mp_parser" where
  "mp_pass env p =
     (case mp_state p of
        FINDING_BOUNDARY \<Rightarrow> find_boundary_pass p
      | READING_HEADERS \<Rightarrow> headers_pass env p
      | READING_BODY \<Rightarrow> body_pass env p)"

lemma mp_pass_shrinks [shrinks]:
  assumes "mp_pass env p = (True, p')"
  shows "length (mp_buffer p') < length (mp_buffer p)"
proof -
  have "length (mp_buffer (snd (open_temp_file env q))) \<le> length (mp_buffer q)" for q
    by (simp add: open_temp_file_def mp_fail_def discard_current_part_def Let_def)
  then have o: "open_temp_file env q = (ok, q') \<Longrightarrow> length (mp_buffer q') \<le> length (mp_buffer q)" for q ok q'
    by (metis snd_conv)
  show ?thesis
  proof (cases "mp_state p")
    case FINDING_BOUNDARY
    with assms show ?thesis
      by (auto simp: mp_pass_def find_boundary_pass_def Let_def split: option.splits if_splits dest!: find_sub_Some)
  next
    case READING_HEADERS
    with assms show ?thesis
      by (auto simp: mp_pass_def headers_pass_def Let_def split: option.splits if_splits prod.splits
          dest!: find_sub_Some o)
  next
    case READING_BODY
    with assms show ?thesis
      by (auto simp: mp_pass_def body_pass_def Let_def split: option.splits if_splits prod.splits
          dest!: find_sub_Some)
  qed
qed

function process_buffer :: "mp_env \<Rightarrow> mp_parser \<Rightarrow> mp_parser" where
  "process_buffer env p =
     (if mp_buffer p = [] \<or> mp_failed p then p
      else case mp_pass env p of (again, p') \<Rightarrow> if again then process_buffer env p' else p')"
  by pat_completeness auto
termination
  by (relation "measure (\<lambda>(env, p). length (mp_buffer p))") (auto intro: mp_pass_shrinks [OF sym])

declare process_buffer.simps [simp del]

definition mp_feed :: "mp_env \<Rightarrow> string \<Rightarrow> mp_parser \<Rightarrow> bool \<times> mp_parser" where
  "mp_feed env chunk p =
     (if mp_failed p then (False, p)
      else
        let p1 = p\<lparr>total_size := total_size p + length chunk\<rparr>
        in if total_size p1 > max_total_size (limits p1)
           then (False, mp_fail env ''multipart body exceeds max_total_size'' p1)
           else let p2 = process_buffer env (p1\<lparr>mp_buffer := mp_buffer p1 @ chunk\<rparr>) in (\<not> mp_failed p2, p2))"

definition mp_end :: "mp_env \<Rightarrow> mp_parser \<Rightarrow> mp_parser" where
  "mp_end env p = (if mp_failed p then p else discard_current_part env (process_buffer env p))"

definition mp_complete :: "mp_parser \<Rightarrow> bool" where
  "mp_complete p \<longleftrightarrow> finished p \<and> \<not> mp_failed p"

section \<open>Whole bodies\<close>

record MultipartFile =
  mf_name :: string
  mf_filename :: string
  mf_content_type :: string
  mf_content :: string

record MultipartForm =
  form_fields' :: fields
  form_files :: "MultipartFile list"

text \<open>The value between the given key with its opening quote and the next quote.\<close>

definition quoted_after :: "string \<Rightarrow> string \<Rightarrow> string option" where
  "quoted_after key line =
     (case find_sub key line of
        None \<Rightarrow> None
      | Some i \<Rightarrow> (case split_at (CHR 0x22) (drop (i + length key) line) of (v, Some _) \<Rightarrow> Some v | (_, None) \<Rightarrow> None))"

definition form_header_line :: "string \<Rightarrow> part_headers \<Rightarrow> part_headers" where
  "form_header_line line h =
     (if prefix ''Content-Disposition:'' line
      then
        let h1 = (case quoted_after (''name='' @ [CHR 0x22]) line of Some v \<Rightarrow> h\<lparr>ph_name := v\<rparr> | None \<Rightarrow> h)
        in (case quoted_after (''filename='' @ [CHR 0x22]) line of Some v \<Rightarrow> h1\<lparr>ph_filename := v\<rparr> | None \<Rightarrow> h1)
      else if prefix ''Content-Type:'' line then h\<lparr>ph_content_type := content_type_value line\<rparr>
      else h)"

definition form_part :: "string \<Rightarrow> MultipartForm \<Rightarrow> MultipartForm" where
  "form_part part form =
     (case find_sub (CRLF @ CRLF) part of
        None \<Rightarrow> form
      | Some i \<Rightarrow>
          let h = fold form_header_line (header_lines (take i part)) no_headers; body = drop (i + 4) part
          in if ph_filename h \<noteq> []
             then form\<lparr>form_files := form_files form @
                    [\<lparr>mf_name = ph_name h, mf_filename = ph_filename h, mf_content_type = ph_content_type h, mf_content = body\<rparr>]\<rparr>
             else if ph_name h \<noteq> [] then form\<lparr>form_fields' := (form_fields' form)(ph_name h \<mapsto> body)\<rparr>
             else form)"

text \<open>
  \<^verbatim>\<open>body.substr(pos, part_end - pos)\<close>: the unsigned difference wraps when \<open>part_end\<close> is below
  \<open>pos\<close>, and the view then extends to the end of the body.
\<close>

definition substr_between :: "string \<Rightarrow> nat \<Rightarrow> nat \<Rightarrow> string" where
  "substr_between s a b = (if b < a then drop a s else take (b - a) (drop a s))"

function form_parts :: "string \<Rightarrow> string \<Rightarrow> nat \<Rightarrow> MultipartForm \<Rightarrow> MultipartForm" where
  "form_parts delimiter body pos form =
     (if delimiter = [] \<or> \<not> pos < length body then form
      else case find_sub delimiter (drop pos body) of
             None \<Rightarrow> form
           | Some i \<Rightarrow>
               let next_pos = pos + i;
                   start = (if take 2 (drop pos body) = CRLF then pos + 2 else pos);
                   part_end = (if next_pos \<ge> 2 \<and> take 2 (drop (next_pos - 2) body) = CRLF then next_pos - 2 else next_pos);
                   form' = form_part (substr_between body start part_end) form;
                   pos' = next_pos + length delimiter
               in if take 2 (drop pos' body) = ''--'' then form' else form_parts delimiter body pos' form')"
  by pat_completeness auto
termination
  by (relation "measure (\<lambda>(delimiter, body, pos, form). length body - pos)") (auto dest: find_sub_advance)

declare form_parts.simps [simp del]

definition MultipartForm_parse :: "string \<Rightarrow> string \<Rightarrow> MultipartForm" where
  "MultipartForm_parse content_type body =
     (let boundary = multipart_boundary content_type; empty = \<lparr>form_fields' = Map.empty, form_files = []\<rparr>
      in if boundary = [] then empty
         else
           let delimiter = ''--'' @ boundary
           in case find_sub delimiter body of
                None \<Rightarrow> empty
              | Some i \<Rightarrow> form_parts delimiter body (i + length delimiter) empty)"

definition request_form :: "HttpRequest \<Rightarrow> MultipartForm" where
  "request_form r =
     (case hdr_find ''Content-Type'' (req_headers r) of
        Some ct \<Rightarrow> if prefix ''multipart/form-data'' ct then MultipartForm_parse ct (req_body r)
                   else \<lparr>form_fields' = Map.empty, form_files = []\<rparr>
      | None \<Rightarrow> \<lparr>form_fields' = Map.empty, form_files = []\<rparr>)"

section \<open>Limits and temporary files\<close>

definition reported_paths :: "mp_parser \<Rightarrow> string set" where
  "reported_paths p = {path. \<exists>n f c. OnFile n f c path \<in> set (mp_events p)}"

text \<open>
  The temporary files on disk are those handed to the application, the one of the part being
  read and those that could not be removed, and every size is within its limit.
\<close>

definition files_ok :: "mp_env \<Rightarrow> mp_parser \<Rightarrow> bool" where
  "files_ok env p \<longleftrightarrow>
     (\<forall>path\<in>reported_paths p. disk p path \<noteq> None) \<and>
     (current_tmp p \<noteq> [] \<longrightarrow> disk p (current_tmp p) \<noteq> None) \<and>
     (\<forall>path. disk p path \<noteq> None \<longrightarrow> path = current_tmp p \<or> path \<in> reported_paths p \<or> \<not> remove_ok env path) \<and>
     current_tmp p \<notin> reported_paths p \<and> disk p [] = None \<and> [] \<notin> reported_paths p \<and>
     (current_fd p \<longleftrightarrow> current_tmp p \<noteq> []) \<and> (mp_state p \<noteq> READING_BODY \<longrightarrow> current_tmp p = [])"

definition sizes_ok :: "mp_parser \<Rightarrow> bool" where
  "sizes_ok p \<longleftrightarrow>
     (mp_state p \<noteq> READING_BODY \<longrightarrow> current_field_value p = []) \<and>
     length (current_field_value p) \<le> max_field_size (limits p) \<and>
     length (current_field_value p) \<le> current_size p \<and>
     (\<forall>data. disk p (current_tmp p) = Some data \<longrightarrow> length data \<le> current_size p) \<and>
     (\<forall>path data. disk p path = Some data \<longrightarrow> length data \<le> max_file_size (limits p)) \<and>
     (\<forall>n v. OnField n v \<in> set (mp_events p) \<longrightarrow> length v \<le> max_field_size (limits p))"

definition counts_ok :: "mp_parser \<Rightarrow> bool" where
  "counts_ok p \<longleftrightarrow>
     length (mp_events p) + (if mp_state p = READING_BODY \<and> \<not> mp_failed p then 1 else 0) \<le> parts p \<and>
     length (mp_events p) \<le> max_parts (limits p) \<and>
     (\<not> mp_failed p \<longrightarrow> parts p \<le> max_parts (limits p))"

definition mp_inv :: "mp_env \<Rightarrow> mp_parser \<Rightarrow> bool" where
  "mp_inv env p \<longleftrightarrow> files_ok env p \<and> sizes_ok p \<and> counts_ok p"

lemmas mp_inv_defs = mp_inv_def files_ok_def sizes_ok_def counts_ok_def reported_paths_def

lemma files_ok_discard: "files_ok env p \<Longrightarrow> files_ok env (discard_current_part env p)"
  by (auto simp: files_ok_def reported_paths_def discard_current_part_def)

lemma sizes_ok_discard: "sizes_ok p \<Longrightarrow> disk p [] = None \<Longrightarrow> sizes_ok (discard_current_part env p)"
  by (auto simp: sizes_ok_def discard_current_part_def)

lemma counts_ok_discard [simp]: "counts_ok (discard_current_part env p) = counts_ok p"
  by (simp add: counts_ok_def discard_current_part_def)

lemma mp_inv_discard: "mp_inv env p \<Longrightarrow> mp_inv env (discard_current_part env p)"
  unfolding mp_inv_def by (metis files_ok_discard sizes_ok_discard counts_ok_discard files_ok_def)

lemma mp_inv_frame:
  "\<lbrakk>disk q = disk p; mp_events q = mp_events p; current_tmp q = current_tmp p; current_fd q = current_fd p;
    (mp_state q = READING_BODY) = (mp_state p = READING_BODY); current_field_value q = current_field_value p;
    current_size q = current_size p; limits q = limits p; parts q = parts p; mp_failed q = mp_failed p\<rbrakk> \<Longrightarrow>
   mp_inv env q = mp_inv env p"
  by (simp add: mp_inv_defs)

lemma mp_inv_buffer [simp]: "mp_inv env (p\<lparr>mp_buffer := b\<rparr>) = mp_inv env p"
  by (simp add: mp_inv_defs)

text \<open>Failing needs less of the sizes: the part being read is dropped.\<close>

definition mp_inv_weak :: "mp_env \<Rightarrow> mp_parser \<Rightarrow> bool" where
  "mp_inv_weak env p \<longleftrightarrow> files_ok env p \<and> length (mp_events p) \<le> parts p \<and> length (mp_events p) \<le> max_parts (limits p) \<and>
     (\<forall>path data. disk p path = Some data \<longrightarrow> length data \<le> max_file_size (limits p)) \<and>
     (\<forall>n v. OnField n v \<in> set (mp_events p) \<longrightarrow> length v \<le> max_field_size (limits p))"

lemma mp_inv_fail: "mp_inv_weak env p \<Longrightarrow> \<not> mp_failed p \<Longrightarrow> mp_inv env (mp_fail env reason p)"
  by (auto simp: mp_inv_weak_def mp_fail_def mp_inv_defs discard_current_part_def)

lemma mp_inv_weakI: "mp_inv env p \<Longrightarrow> mp_inv_weak env p"
  by (auto simp: mp_inv_weak_def mp_inv_def sizes_ok_def counts_ok_def split: if_splits)

lemma mp_inv_weak_size: "mp_inv_weak env (p\<lparr>current_size := n\<rparr>) = mp_inv_weak env p"
  "mp_inv_weak env (p\<lparr>current_size := n, writes := m\<rparr>) = mp_inv_weak env p"
  by (simp_all add: mp_inv_weak_def files_ok_def reported_paths_def)

lemma mp_inv_append_field:
  assumes "mp_inv env p" "\<not> current_fd p" "current_size p + length data \<le> max_field_size (limits p)"
    and "mp_state p = READING_BODY"
  shows "mp_inv env (p\<lparr>current_size := current_size p + length data,
                   current_field_value := current_field_value p @ data\<rparr>)"
proof -
  have "disk p [] = None" "current_tmp p = []" using assms(1,2) by (auto simp: mp_inv_def files_ok_def)
  with assms show ?thesis by (simp add: mp_inv_defs)
qed

lemma mp_inv_append_file:
  assumes inv: "mp_inv env p" and fd: "current_fd p" and "current_size p + length data \<le> max_file_size (limits p)"
  shows "mp_inv env (p\<lparr>current_size := current_size p + length data, writes := n,
                   disk := (disk p)(current_tmp p := map_option (\<lambda>old. old @ data) (disk p (current_tmp p)))\<rparr>)"
proof -
  obtain old where old: "disk p (current_tmp p) = Some old" "length old \<le> current_size p"
    using inv fd by (auto simp: mp_inv_def files_ok_def sizes_ok_def)
  let ?q = "p\<lparr>current_size := current_size p + length data, writes := n,
      disk := (disk p)(current_tmp p \<mapsto> old @ data)\<rparr>"
  have "files_ok env ?q" using inv old by (auto simp: mp_inv_def files_ok_def reported_paths_def)
  moreover have "sizes_ok ?q" using inv old assms(3) by (simp add: mp_inv_def sizes_ok_def)
  moreover have "counts_ok ?q" using inv by (simp add: mp_inv_def counts_ok_def)
  ultimately show ?thesis using old by (simp add: mp_inv_def)
qed

lemma mp_inv_append:
  assumes "mp_inv env p" "\<not> mp_failed p" "append_body env data p = (ok, p')" "mp_state p = READING_BODY"
  shows "mp_inv env p'" "ok \<longrightarrow> \<not> mp_failed p' \<and> mp_state p' = mp_state p"
proof -
  have w: "mp_inv_weak env p" by (rule mp_inv_weakI [OF assms(1)])
  show "mp_inv env p'"
  proof (cases ok)
    case False
    with assms w show ?thesis
      by (auto simp: append_body_def Let_def mp_inv_weak_size split: if_splits intro!: mp_inv_fail)
  next
    case True
    with assms mp_inv_append_field [OF assms(1)] mp_inv_append_file [OF assms(1)] show ?thesis
      by (auto simp: append_body_def Let_def split: if_splits)
  qed
  show "ok \<longrightarrow> \<not> mp_failed p' \<and> mp_state p' = mp_state p"
    using assms(2,3) by (auto simp: append_body_def Let_def split: if_splits)
qed

lemma mp_inv_open:
  assumes inv: "mp_inv_weak env p" "\<not> mp_failed p" "current_tmp p = []" "open_temp_file env p = (ok, p')"
    and path: "\<And>n. upload_path env n \<noteq> []"
  shows "\<not> ok \<Longrightarrow> mp_inv env p'"
    and "ok \<Longrightarrow> \<exists>path. path \<noteq> [] \<and> disk p path = None \<and>
           p' = p\<lparr>opens := Suc (opens p), current_tmp := path, current_fd := True, disk := (disk p)(path \<mapsto> [])\<rparr>"
proof -
  have "mp_inv_weak env (p\<lparr>opens := n, current_tmp := []\<rparr>)" for n
    using inv(1,3) by (simp add: mp_inv_weak_def files_ok_def reported_paths_def)
  then show "mp_inv env p'" if "\<not> ok"
    using inv that by (auto simp: open_temp_file_def Let_def split: if_splits intro!: mp_inv_fail)
  show "\<exists>path. path \<noteq> [] \<and> disk p path = None \<and>
           p' = p\<lparr>opens := Suc (opens p), current_tmp := path, current_fd := True, disk := (disk p)(path \<mapsto> [])\<rparr>" if ok
    using inv(4) that path [of "opens p"] by (auto simp: open_temp_file_def Let_def split: if_splits)
qed

lemma mp_inv_close:
  assumes inv: "mp_inv env p" and st: "mp_state p = READING_BODY" "\<not> mp_failed p"
  shows "mp_inv env ((close_current_part env p)\<lparr>mp_buffer := b, mp_state := FINDING_BOUNDARY\<rparr>)"
proof -
  let ?c = "current p"
  define q where "q = (if current_fd p then
              (if has_on_file env \<and> ph_name ?c \<noteq> []
               then p\<lparr>current_fd := False,
                      mp_events := mp_events p @ [OnFile (ph_name ?c) (ph_filename ?c) (ph_content_type ?c) (current_tmp p)],
                      current_tmp := []\<rparr>
               else p\<lparr>current_fd := False\<rparr>)
            else if has_on_field env \<and> ph_name ?c \<noteq> []
            then p\<lparr>mp_events := mp_events p @ [OnField (ph_name ?c) (current_field_value p)]\<rparr>
            else p)"
  have r: "(close_current_part env p)\<lparr>mp_buffer := b, mp_state := FINDING_BOUNDARY\<rparr> =
      ((discard_current_part env q)\<lparr>mp_state := FINDING_BOUNDARY\<rparr>)\<lparr>mp_buffer := b\<rparr>"
    by (simp add: close_current_part_def q_def Let_def)
  have f: "files_ok env p" using inv by (simp add: mp_inv_def)
  have "files_ok env ((discard_current_part env q)\<lparr>mp_state := FINDING_BOUNDARY\<rparr>)"
  proof (cases "current_fd p \<and> has_on_file env \<and> ph_name ?c \<noteq> []")
    case True
    then have "reported_paths q = insert (current_tmp p) (reported_paths p)" "current_tmp q = []" "disk q = disk p"
      by (auto simp: q_def reported_paths_def)
    with f True show ?thesis by (auto simp: files_ok_def discard_current_part_def reported_paths_def)
  next
    case False
    then have "reported_paths q = reported_paths p" "current_tmp q = current_tmp p" "disk q = disk p"
      by (auto simp: q_def reported_paths_def)
    with f show ?thesis by (auto simp: files_ok_def discard_current_part_def reported_paths_def)
  qed
  moreover have "sizes_ok ((discard_current_part env q)\<lparr>mp_state := FINDING_BOUNDARY\<rparr>)"
    using inv by (auto simp: q_def mp_inv_def files_ok_def sizes_ok_def discard_current_part_def)
  moreover have "counts_ok ((discard_current_part env q)\<lparr>mp_state := FINDING_BOUNDARY\<rparr>)"
    using inv st by (auto simp: q_def mp_inv_def counts_ok_def discard_current_part_def)
  ultimately show ?thesis unfolding r mp_inv_buffer unfolding mp_inv_def by blast
qed

lemma mp_inv_find_boundary:
  assumes "mp_inv env p" "\<not> mp_failed p" "mp_state p = FINDING_BOUNDARY" "find_boundary_pass p = (again, p')"
  shows "mp_inv env p'" "\<not> mp_failed p'"
proof -
  have "mp_inv env (p\<lparr>mp_buffer := b, finished := f\<rparr>)" "mp_inv env (p\<lparr>finished := f, mp_buffer := b\<rparr>)"
    "mp_inv env (p\<lparr>mp_buffer := b, mp_state := READING_HEADERS\<rparr>)" for b f
    by (rule mp_inv_frame [THEN iffD2, OF _ _ _ _ _ _ _ _ _ _ assms(1)]; simp add: assms(3))+
  with assms show "mp_inv env p'" "\<not> mp_failed p'"
    by (auto simp: find_boundary_pass_def Let_def split: option.splits if_splits)
qed

lemma mp_inv_headers:
  assumes inv: "mp_inv env p" "\<not> mp_failed p" "mp_state p = READING_HEADERS" "headers_pass env p = (again, p')"
    and path: "\<And>n. upload_path env n \<noteq> []"
  shows "mp_inv env p'"
proof (cases "find_sub (CRLF @ CRLF) (mp_buffer p)")
  case None
  with inv mp_inv_fail [OF mp_inv_weakI] show ?thesis by (auto simp: headers_pass_def split: if_splits)
next
  case (Some pos)
  have tmp: "current_tmp p = []" "\<not> current_fd p" using inv(1,3) by (auto simp: mp_inv_def files_ok_def)
  have w: "mp_inv_weak env (p\<lparr>parts := Suc (parts p)\<rparr>)"
    using inv(1-3) by (auto simp: mp_inv_weak_def mp_inv_def files_ok_def sizes_ok_def counts_ok_def reported_paths_def)
  let ?p2 = "p\<lparr>parts := Suc (parts p), current := parse_headers (take pos (mp_buffer p)),
    mp_buffer := drop (pos + 4) (mp_buffer p), current_size := 0\<rparr>"
  show ?thesis
  proof (cases "Suc (parts p) > max_parts (limits p)")
    case True
    with inv(4) Some mp_inv_fail [OF w] inv(2) show ?thesis by (auto simp: headers_pass_def Let_def)
  next
    case False
    have w2: "mp_inv_weak env ?p2" "\<not> mp_failed ?p2" "current_tmp ?p2 = []"
      using w inv(2) tmp by (simp_all add: mp_inv_weak_def files_ok_def reported_paths_def)
    show ?thesis
    proof (cases "ph_filename (current ?p2) \<noteq> []")
      case False
      with inv(4) Some \<open>\<not> Suc (parts p) > _\<close> have "p' = ?p2\<lparr>current_field_value := [], mp_state := READING_BODY\<rparr>"
        by (simp add: headers_pass_def Let_def)
      with inv(1-3) \<open>\<not> Suc (parts p) > _\<close> tmp show ?thesis
        by (auto simp: mp_inv_defs)
    next
      case True
      obtain ok p3 where o: "open_temp_file env ?p2 = (ok, p3)" by fastforce
      with inv(4) Some \<open>\<not> Suc (parts p) > _\<close> True
      have p': "p' = (if ok then p3\<lparr>mp_state := READING_BODY\<rparr> else p3)"
        by (simp add: headers_pass_def Let_def split: if_splits)
      show ?thesis
      proof (cases ok)
        case False
        with mp_inv_open(1) [OF w2 o path] p' show ?thesis by simp
      next
        case True
        obtain f where f: "f \<noteq> []" "disk p f = None"
          "p3 = ?p2\<lparr>opens := Suc (opens p), current_tmp := f, current_fd := True, disk := (disk p)(f \<mapsto> [])\<rparr>"
          using mp_inv_open(2) [OF w2 o path True] by auto
        have f_new: "f \<notin> reported_paths p" using inv(1) tmp f(2) by (auto simp: mp_inv_def files_ok_def)
        have p'': "p' = ?p2\<lparr>opens := Suc (opens p), current_tmp := f, current_fd := True, disk := (disk p)(f \<mapsto> []),
            mp_state := READING_BODY\<rparr>" using p' True f(3) by simp
        have "files_ok env p'" using inv(1) tmp f f_new p''
          by (auto simp: mp_inv_def files_ok_def reported_paths_def)
        moreover have "sizes_ok p'" using inv(1) p'' inv(3) tmp
          by (auto simp: mp_inv_def sizes_ok_def)
        moreover have "counts_ok p'" using inv(1-3) \<open>\<not> Suc (parts p) > _\<close> p''
          by (auto simp: mp_inv_def counts_ok_def)
        ultimately show ?thesis by (simp add: mp_inv_def)
      qed
    qed
  qed
qed

lemma mp_inv_body:
  assumes inv: "mp_inv env p" "\<not> mp_failed p" "mp_state p = READING_BODY" "body_pass env p = (again, p')"
  shows "mp_inv env p'"
proof (cases "find_sub (CRLF @ dash_boundary p) (mp_buffer p)")
  case None
  obtain ok p1 where a: "append_body env (take (length (mp_buffer p) - length (CRLF @ dash_boundary p)) (mp_buffer p)) p = (ok, p1)"
    by fastforce
  from mp_inv_append(1) [OF inv(1,2) a inv(3)] a None inv(1,4) show ?thesis
    by (auto simp: body_pass_def Let_def split: if_splits)
next
  case (Some pos)
  obtain ok p1 where a: "append_body env (take pos (mp_buffer p)) p = (ok, p1)" by fastforce
  note i = mp_inv_append [OF inv(1,2) a inv(3)]
  with Some a inv(3,4) mp_inv_close [OF i(1)] show ?thesis
    by (cases ok) (auto simp: body_pass_def Let_def)
qed

lemma mp_inv_pass:
  assumes "mp_inv env p" "\<not> mp_failed p" "mp_pass env p = (again, p')" "\<And>n. upload_path env n \<noteq> []"
  shows "mp_inv env p'"
proof (cases "mp_state p")
  case FINDING_BOUNDARY
  with assms(1-3) show ?thesis by (rule_tac mp_inv_find_boundary(1) [of env p again]) (simp_all add: mp_pass_def)
next
  case READING_HEADERS
  with assms show ?thesis by (rule_tac mp_inv_headers [of env p again]) (simp_all add: mp_pass_def)
next
  case READING_BODY
  with assms(1-3) show ?thesis by (rule_tac mp_inv_body [of env p again]) (simp_all add: mp_pass_def)
qed

lemma mp_inv_process:
  assumes "\<And>n. upload_path env n \<noteq> []"
  shows "mp_inv env p \<Longrightarrow> mp_inv env (process_buffer env p)"
proof (induction "length (mp_buffer p)" arbitrary: p rule: less_induct)
  case less
  show ?case
  proof (cases "mp_buffer p = [] \<or> mp_failed p")
    case True
    with less.prems show ?thesis by (simp add: process_buffer.simps [of env p])
  next
    case False
    obtain again p' where m: "mp_pass env p = (again, p')" by fastforce
    with False less assms have i: "mp_inv env p'" by (auto intro: mp_inv_pass)
    from m False less.hyps [OF mp_pass_shrinks] i show ?thesis
      by (cases again) (auto simp: process_buffer.simps [of env p])
  qed
qed

inductive mp_reachable :: "mp_env \<Rightarrow> mp_parser \<Rightarrow> bool" for env where
  created: "mp_reachable env (mp_new boundary lim)"
| fed: "mp_reachable env p \<Longrightarrow> mp_feed env chunk p = (ok, p') \<Longrightarrow> mp_reachable env p'"

lemma mp_inv_feed:
  assumes "\<And>n. upload_path env n \<noteq> []" "mp_inv env p" "mp_feed env chunk p = (ok, p')"
  shows "mp_inv env p'"
proof -
  have t: "mp_inv env (p\<lparr>total_size := n\<rparr>)" for n
    using mp_inv_frame [of "p\<lparr>total_size := n\<rparr>" p] assms(2) by simp
  note tw = mp_inv_weakI [OF t]
  from t have "mp_inv env (p\<lparr>total_size := n, mp_buffer := b\<rparr>)" for n b by simp
  with tw assms mp_inv_process [OF assms(1)] mp_inv_fail show ?thesis
    by (auto simp: mp_feed_def Let_def split: if_splits)
qed

lemma mp_reachable_inv:
  assumes "\<And>n. upload_path env n \<noteq> []"
  shows "mp_reachable env p \<Longrightarrow> mp_inv env p"
proof (induction rule: mp_reachable.induct)
  case (created boundary lim)
  then show ?case by (auto simp: mp_inv_defs mp_new_def no_headers_def)
next
  case (fed p chunk ok p')
  then show ?case using mp_inv_feed [OF assms] by blast
qed

lemma mp_inv_end:
  assumes "\<And>n. upload_path env n \<noteq> []" "mp_inv env p" "mp_failed p \<longrightarrow> current_tmp p = []"
  shows "mp_inv env (mp_end env p) \<and> current_tmp (mp_end env p) = []"
  using assms mp_inv_discard [OF mp_inv_process [OF assms(1,2)]]
  by (simp add: mp_end_def) (simp add: discard_current_part_def)

lemma fail_clears: "\<not> mp_failed p \<Longrightarrow> current_tmp (mp_fail env r p) = []"
  by (simp add: mp_fail_def discard_current_part_def)

lemma append_body_failed:
  "append_body env data p = (ok, p') \<Longrightarrow> \<not> mp_failed p \<Longrightarrow> mp_failed p' \<longrightarrow> current_tmp p' = []"
  by (auto simp: append_body_def Let_def fail_clears split: if_splits)

lemma failed_pass:
  assumes "mp_pass env p = (again, p')" "\<not> mp_failed p"
  shows "mp_failed p' \<longrightarrow> current_tmp p' = []"
proof (cases "mp_state p")
  case FINDING_BOUNDARY
  with assms show ?thesis
    by (auto simp: mp_pass_def find_boundary_pass_def Let_def split: option.splits if_splits)
next
  case READING_HEADERS
  have o: "open_temp_file env q = (ok, q') \<Longrightarrow> \<not> mp_failed q \<Longrightarrow> mp_failed q' \<longrightarrow> current_tmp q' = []" for q ok q'
    by (auto simp: open_temp_file_def Let_def fail_clears split: if_splits)
  from READING_HEADERS assms show ?thesis
    by (auto simp: mp_pass_def headers_pass_def Let_def fail_clears split: option.splits if_splits prod.splits dest!: o)
next
  case READING_BODY
  have c: "current_tmp (close_current_part env q) = []" for q
    by (simp add: close_current_part_def discard_current_part_def Let_def)
  from READING_BODY assms show ?thesis
    by (auto simp: mp_pass_def body_pass_def Let_def c split: option.splits if_splits prod.splits
        dest!: append_body_failed)
qed

lemma failed_no_tmp:
  assumes "mp_reachable env p"
  shows "mp_failed p \<longrightarrow> current_tmp p = []"
  using assms
proof (induction rule: mp_reachable.induct)
  case (created boundary lim)
  then show ?case by (simp add: mp_new_def)
next
  case (fed p chunk ok p')
  have "mp_failed (process_buffer env q) \<longrightarrow> current_tmp (process_buffer env q) = []" if "\<not> mp_failed q" for q
    using that
  proof (induction "length (mp_buffer q)" arbitrary: q rule: less_induct)
    case less
    obtain again q' where m: "mp_pass env q = (again, q')" by fastforce
    have "mp_failed q' \<Longrightarrow> process_buffer env q' = q'" by (simp add: process_buffer.simps [of env q'])
    with less m failed_pass [OF m less.prems] mp_pass_shrinks [of env q q'] show ?case
      by (cases "mp_failed q'") (auto simp: process_buffer.simps [of env q])
  qed
  with fed show ?case by (auto simp: mp_feed_def Let_def fail_clears split: if_splits)
qed

section \<open>Fields read back\<close>

text \<open>The reference: a form body as RFC 7578 writes it, for the fields of a form.\<close>

definition disposition_line :: "string \<Rightarrow> string" where
  "disposition_line n = ''Content-Disposition: form-data; name='' @ CHR 0x22 # n @ [CHR 0x22]"

definition part_text :: "string \<Rightarrow> string \<times> string \<Rightarrow> string" where
  "part_text B f = ''--'' @ B @ CRLF @ disposition_line (fst f) @ CRLF @ CRLF @ snd f @ CRLF"

definition form_text :: "string \<Rightarrow> (string \<times> string) list \<Rightarrow> string" where
  "form_text B fs = concat (map (part_text B) fs) @ ''--'' @ B @ ''--''"

definition field_ok :: "string \<Rightarrow> string \<times> string \<Rightarrow> bool" where
  "field_ok B f \<longleftrightarrow>
     fst f \<noteq> [] \<and> CHR 0x22 \<notin> set (fst f) \<and> CR \<notin> set (fst f) \<and>
     list_all (\<lambda>i. \<not> prefix (CRLF @ ''--'' @ B) (drop i (snd f @ CRLF @ ''--'' @ B))) [0..<length (snd f)]"

lemma disposition_param_none:
  "(\<And>p r. drop p line = key @ [CHR ''='', CHR 0x22] @ r \<Longrightarrow> CHR 0x22 \<notin> set r) \<Longrightarrow> disposition_param line key pos = []"
proof (induction line key pos rule: disposition_param.induct)
  case (1 line key pos)
  show ?case
  proof (cases "key = [] \<or> find_sub key (drop pos line) = None")
    case True
    then show ?thesis by (auto simp: disposition_param.simps [of line key pos])
  next
    case False
    then obtain i where i: "find_sub key (drop pos line) = Some i" "key \<noteq> []" by auto
    let ?r = "drop (pos + i + length key) line"
    have "take (length key) (drop (pos + i) line) = key"
      using find_sub_Some [OF i(1)] by (simp add: add.commute)
    then have d: "drop (pos + i) line = key @ ?r" by (metis append_take_drop_id drop_drop add.commute)
    have "split_at (CHR 0x22) (drop 2 ?r) = (drop 2 ?r, None)" if "take 2 ?r = [CHR ''='', CHR 0x22]"
    proof -
      have "?r = [CHR ''='', CHR 0x22] @ drop 2 ?r" using that by (metis append_take_drop_id)
      with d "1.prems" [of "pos + i" "drop 2 ?r"] show ?thesis by (simp add: split_at_notin)
    qed
    with i "1.IH" [OF i(2,1) refl refl refl] "1.prems" show ?thesis
      by (auto simp: disposition_param.simps [of line key pos] Let_def add.commute)
  qed
qed

lemma disposition_filename:
  assumes "CHR 0x22 \<notin> set n"
  shows "disposition_param (disposition_line n) ''filename'' 0 = []"
proof (rule disposition_param_none)
  fix p r
  assume r: "drop p (disposition_line n) = ''filename'' @ [CHR ''='', CHR 0x22] @ r"
  let ?L = "''Content-Disposition: form-data; name='' @ [CHR 0x22]"
  have L: "list_all (\<lambda>k. ?L ! k = CHR ''='' \<longrightarrow> k = 36) [0..<38]" "length ?L = 38" "?L ! 28 \<noteq> CHR ''f''" by code_simp+
  have d: "disposition_line n = ?L @ n @ [CHR 0x22]" by (simp add: disposition_line_def)
  have l: "p + 10 + length r = length (disposition_line n)" using arg_cong [OF r, of length] by simp
  have "disposition_line n ! (p + 8) = CHR ''=''" "disposition_line n ! p = CHR ''f''"
    using arg_cong [OF r, of "\<lambda>s. s ! 8"] arg_cong [OF r, of "\<lambda>s. s ! 0"] l by simp_all
  note at = this
  have "\<not> p + 8 < 38"
  proof
    assume lt: "p + 8 < 38"
    then have "?L ! (p + 8) = CHR ''=''" "?L ! p = CHR ''f''" using at L(2) by (simp_all only: d nth_append) simp_all
    moreover have "?L ! (p + 8) = CHR ''='' \<longrightarrow> p + 8 = 36" using L(1) lt unfolding list_all_iff set_upt by (metis atLeastLessThan_iff le0)
    ultimately have "p = 28" by linarith
    with \<open>?L ! p = CHR ''f''\<close> L(3) show False by metis
  qed
  then have "drop (p + 9) (disposition_line n) = drop (p + 9 - 38) (n @ [CHR 0x22])" using L(2) by (simp only: d drop_append) simp
  moreover have "drop (p + 9) (disposition_line n) = CHR 0x22 # r" using arg_cong [OF r, of "drop 9"] by (simp add: add.commute)
  ultimately have q: "CHR 0x22 # r = drop (p + 9 - 38) (n @ [CHR 0x22])" by simp
  show "CHR 0x22 \<notin> set r"
  proof (cases "p + 9 - 38 < length n")
    case True
    then have "CHR 0x22 \<in> set (drop (p + 9 - 38) n)" using q by (cases "drop (p + 9 - 38) n") auto
    with assms show ?thesis by (auto dest: in_set_dropD)
  next
    case False
    with q show ?thesis by (cases "p + 9 - 38 = length n") auto
  qed
qed

lemma disposition_name:
  assumes "CHR 0x22 \<notin> set n"
  shows "disposition_param (disposition_line n) ''name'' 0 = n"
  using assms by (subst disposition_param.simps) (simp add: disposition_line_def Let_def)

lemma parse_disposition:
  assumes "CHR 0x22 \<notin> set n" "CR \<notin> set n"
  shows "parse_headers (disposition_line n) = \<lparr>ph_name = n, ph_filename = [], ph_content_type = []\<rparr>"
proof -
  have "CR \<notin> set (disposition_line n)" using assms(2) by (simp add: disposition_line_def)
  then have "find_sub CRLF (disposition_line n) = None"
    by (auto simp: find_sub_None prefix_def) (metis in_set_dropD list.set_intros(1))
  moreover have "prefix ''Content-Disposition:'' (disposition_line n)" "disposition_line n \<noteq> []"
    by (simp_all add: disposition_line_def)
  ultimately show ?thesis
    using disposition_name [OF assms(1)] disposition_filename [OF assms(1)]
    by (simp add: parse_headers_def header_lines.simps [of "disposition_line n"] parse_header_line_def)
qed

lemma find_sub_prefix: "prefix n s \<Longrightarrow> find_sub n s = Some 0"
  by (rule find_sub_eqI) auto

lemma find_blank_line:
  assumes "CR \<notin> set h"
  shows "find_sub (CRLF @ CRLF) (h @ CRLF @ CRLF @ r) = Some (length h)"
proof (rule find_sub_eqI)
  fix j assume "j < length h"
  then have "drop j (h @ CRLF @ CRLF @ r) = h ! j # drop (Suc j) h @ CRLF @ CRLF @ r"
    by (simp add: Cons_nth_drop_Suc)
  moreover have "h ! j \<noteq> CR" using assms nth_mem [OF \<open>j < length h\<close>] by auto
  ultimately show "\<not> prefix (CRLF @ CRLF) (drop j (h @ CRLF @ CRLF @ r))"
    by (auto simp: prefix_def)
qed simp_all

lemma find_boundary_sig:
  assumes "list_all (\<lambda>i. \<not> prefix sig (drop i (v @ sig))) [0..<length v]"
  shows "find_sub sig (v @ sig @ r) = Some (length v)"
proof (rule find_sub_eqI)
  fix j assume j: "j < length v"
  have "take (length sig) (drop j (v @ sig @ r)) = take (length sig) (drop j (v @ sig))" using j by simp
  moreover have "\<not> prefix sig (drop j (v @ sig))" using assms j by (simp add: list_all_iff)
  ultimately show "\<not> prefix sig (drop j (v @ sig @ r))"
    by (metis append_eq_conv_conj prefix_def take_is_prefix)
qed simp_all

definition at_boundary :: "mp_env \<Rightarrow> string \<Rightarrow> mp_parser \<Rightarrow> bool" where
  "at_boundary env B p \<longleftrightarrow>
     mp_state p = FINDING_BOUNDARY \<and> \<not> mp_failed p \<and> dash_boundary p = ''--'' @ B \<and> \<not> current_fd p \<and>
     current_tmp p = [] \<and> current p = no_headers \<and> current_field_value p = [] \<and> current_size p = 0 \<and> has_on_field env"

lemma process_part:
  assumes at: "at_boundary env B p" and f: "field_ok B f" and lim: "length (snd f) \<le> max_field_size (limits p)"
    "parts p < max_parts (limits p)"
  shows "process_buffer env (p\<lparr>mp_buffer := part_text B f @ ''--'' @ B @ r\<rparr>) =
         process_buffer env (p\<lparr>mp_buffer := ''--'' @ B @ r, parts := Suc (parts p),
           mp_events := mp_events p @ [OnField (fst f) (snd f)]\<rparr>)"
proof -
  obtain n v where f': "f = (n, v)" by fastforce
  let ?tail = "v @ CRLF @ ''--'' @ B @ r" and ?h = "disposition_line n"
  let ?p1 = "p\<lparr>mp_buffer := ?h @ CRLF @ CRLF @ ?tail, mp_state := READING_HEADERS\<rparr>"
  let ?hd = "\<lparr>ph_name = n, ph_filename = [], ph_content_type = []\<rparr>"
  let ?p2 = "p\<lparr>mp_buffer := ?tail, mp_state := READING_BODY, parts := Suc (parts p), current := ?hd\<rparr>"
  let ?p3 = "p\<lparr>mp_buffer := ''--'' @ B @ r, parts := Suc (parts p), mp_events := mp_events p @ [OnField n v]\<rparr>"
  have n: "n \<noteq> []" "CHR 0x22 \<notin> set n" "CR \<notin> set n"
    and v: "find_sub (CRLF @ ''--'' @ B) ?tail = Some (length v)"
    using f f' find_boundary_sig [of "CRLF @ ''--'' @ B" v r] by (simp_all add: field_ok_def)
  have ph: "parse_headers ?h = ?hd" by (rule parse_disposition [OF n(2,3)])
  have nc: "CR \<notin> set ?h" using n(3) by (simp add: disposition_line_def)
  have "find_sub (''--'' @ B) (part_text B f @ ''--'' @ B @ r) = Some 0"
    by (rule find_sub_prefix) (simp add: part_text_def)
  then have s1: "process_buffer env (p\<lparr>mp_buffer := part_text B f @ ''--'' @ B @ r\<rparr>) = process_buffer env ?p1"
    using at f' by (subst process_buffer.simps)
      (simp add: at_boundary_def mp_pass_def find_boundary_pass_def Let_def part_text_def)
  have "find_sub (CRLF @ CRLF) (?h @ CRLF @ CRLF @ ?tail) = Some (length ?h)" by (rule find_blank_line [OF nc])
  then have s2: "process_buffer env ?p1 = process_buffer env ?p2"
    using at lim(2) ph by (cases p, subst process_buffer.simps)
      (simp add: at_boundary_def mp_pass_def headers_pass_def Let_def)
  have s3: "process_buffer env ?p2 = process_buffer env ?p3"
    using at lim(1) v n(1) f' by (cases p, subst process_buffer.simps)
      (simp add: at_boundary_def mp_pass_def body_pass_def append_body_def close_current_part_def
        discard_current_part_def no_headers_def Let_def)
  show ?thesis using s1 s2 s3 f' by simp
qed

lemma process_form:
  assumes "at_boundary env B p" "list_all (field_ok B) fs"
    and "list_all (\<lambda>f. length (snd f) \<le> max_field_size (limits p)) fs" "parts p + length fs \<le> max_parts (limits p)"
  shows "process_buffer env (p\<lparr>mp_buffer := form_text B fs\<rparr>) =
         p\<lparr>mp_buffer := [], parts := parts p + length fs, finished := True,
           mp_events := mp_events p @ map (\<lambda>(n, v). OnField n v) fs\<rparr>"
  using assms
proof (induction fs arbitrary: p)
  case Nil
  have "find_sub (''--'' @ B) (''--'' @ B @ ''--'') = Some 0" by (rule find_sub_prefix) simp
  with Nil.prems show ?case
    by (subst process_buffer.simps)
      (simp add: form_text_def at_boundary_def mp_pass_def find_boundary_pass_def Let_def)
next
  case (Cons f fs)
  let ?q = "p\<lparr>parts := Suc (parts p), mp_events := mp_events p @ [OnField (fst f) (snd f)]\<rparr>"
  obtain r where r: "form_text B fs = ''--'' @ B @ r"
    by (cases fs) (auto simp: form_text_def part_text_def)
  have "process_buffer env (p\<lparr>mp_buffer := form_text B (f # fs)\<rparr>) = process_buffer env (?q\<lparr>mp_buffer := form_text B fs\<rparr>)"
    using process_part [OF Cons.prems(1), of f r] Cons.prems(2-4) r by (cases p) (simp add: form_text_def)
  also have "\<dots> = ?q\<lparr>mp_buffer := [], parts := parts ?q + length fs, finished := True,
      mp_events := mp_events ?q @ map (\<lambda>(n, v). OnField n v) fs\<rparr>"
    using Cons.prems by (intro Cons.IH) (auto simp: at_boundary_def)
  finally show ?case by (simp add: case_prod_unfold)
qed

section \<open>Where the parsers go wrong\<close>

definition demo_limits :: mp_limits where
  "demo_limits =
     \<lparr>max_file_size = 100, max_field_size = 100, max_total_size = 1000, max_parts = 10, upload_dir = ''/up''\<rparr>"

definition demo_mp_env :: mp_env where
  "demo_mp_env =
     \<lparr>upload_path = (\<lambda>n. ''/up/'' @ show_nat n), open_ok = (\<lambda>_. True), write_ok = (\<lambda>_. True), remove_ok = (\<lambda>_. True),
      has_on_field = True, has_on_file = True\<rparr>"

text \<open>
  The streaming parser drops a boundary it has found before it has the two bytes that follow, so a
  body whose first chunk ends with the boundary loses its first field, and one whose chunk ends
  with the closing boundary never completes.
\<close>

lemma multipart_chunk_dependent:
  "let body = form_text ''B'' [(''a'', ''1''), (''b'', ''2'')];
       whole = snd (mp_feed demo_mp_env body (mp_new ''B'' demo_limits));
       cut = snd (mp_feed demo_mp_env (drop 3 body) (snd (mp_feed demo_mp_env (take 3 body) (mp_new ''B'' demo_limits))))
   in mp_events whole = [OnField ''a'' ''1'', OnField ''b'' ''2''] \<and> mp_events cut = [OnField ''b'' ''2'']"
  by code_simp

lemma multipart_never_completes:
  "let body = form_text ''B'' [(''a'', ''1'')]; k = length body - 2;
       cut = snd (mp_feed demo_mp_env (drop k body) (snd (mp_feed demo_mp_env (take k body) (mp_new ''B'' demo_limits))))
   in \<not> mp_complete cut \<and> mp_complete (snd (mp_feed demo_mp_env body (mp_new ''B'' demo_limits)))"
  by code_simp

text \<open>The whole-body parser finds the field name inside the \<^verbatim>\<open>filename\<close> parameter when that comes first.\<close>

lemma form_name_inside_filename:
  "ph_name (form_header_line
     (''Content-Disposition: form-data; filename='' @ CHR 0x22 # ''x.txt'' @ CHR 0x22 # ''; name='' @ CHR 0x22 # ''doc'' @ [CHR 0x22])
     no_headers) = ''x.txt''"
  by code_simp

text \<open>
  For an empty part the length of the view wraps around, so the part extends over what follows
  it: a body with one upload gives two, the first with the closing boundary in its content.
\<close>

lemma form_empty_part_wraps:
  "let body = ''--B'' @ CRLF @ ''--B'' @ CRLF @ ''Content-Disposition: form-data; name='' @ CHR 0x22 # ''k'' @
                CHR 0x22 # ''; filename='' @ CHR 0x22 # ''f'' @ CHR 0x22 # CRLF @ CRLF @ ''v'' @ CRLF @ ''--B--''
   in map mf_content (form_files (MultipartForm_parse ''multipart/form-data; boundary=B'' body)) =
        [''v'' @ CRLF @ ''--B--'', ''v'']"
  by code_simp

section \<open>Properties\<close>

text \<open>
  C20: Temporary files. Whatever bytes arrive in whatever chunks, and whatever opening, writing or removing a file the operating system
  refuses: once a multipart body has ended (or failed), every upload file that was handed to the application is on disk, and any
  other that is left there is one that the operating system refused to remove. So if removing does not fail, no partial, unnamed or
  aborted upload is left behind.
\<close>

theorem multipart_no_leaked_files:
  assumes "mp_reachable env p" and "\<forall>n. upload_path env n \<noteq> []"
  shows "{path. \<exists>n f c. OnFile n f c path \<in> set (mp_events (mp_end env p))} \<subseteq> dom (disk (mp_end env p)) \<and>
    dom (disk (mp_end env p)) \<subseteq> {path. (\<exists>n f c. OnFile n f c path \<in> set (mp_events (mp_end env p))) \<or> \<not> remove_ok env path}"
proof -
  have "mp_inv env (mp_end env p) \<and> current_tmp (mp_end env p) = []"
    using assms mp_reachable_inv failed_no_tmp by (intro mp_inv_end) auto
  then have "\<forall>path\<in>reported_paths (mp_end env p). disk (mp_end env p) path \<noteq> None"
    "\<forall>path. disk (mp_end env p) path \<noteq> None \<longrightarrow> path \<in> reported_paths (mp_end env p) \<or> \<not> remove_ok env path"
    unfolding mp_inv_def files_ok_def by metis+
  then show ?thesis unfolding reported_paths_def by blast
qed

text \<open>Two uploads, the second of which has no name and is dropped; its file is removed, or stays when that is refused.\<close>

definition file_part :: "string \<Rightarrow> string \<Rightarrow> string" where
  "file_part params content = ''--B'' @ CRLF @ ''Content-Disposition: form-data; '' @ params @ CRLF @ CRLF @ content @ CRLF"

definition demo_uploads :: string where
  "demo_uploads = file_part (''name='' @ CHR 0x22 # ''k'' @ CHR 0x22 # ''; filename='' @ CHR 0x22 # ''f'' @ [CHR 0x22]) ''v'' @
     file_part (''filename='' @ CHR 0x22 # ''g'' @ [CHR 0x22]) ''w'' @ ''--B--''"

definition demo_ended :: "mp_env \<Rightarrow> mp_parser" where
  "demo_ended env = mp_end env (snd (mp_feed env demo_uploads (mp_new ''B'' demo_limits)))"

lemma demo_uploads_read:
  "mp_events (demo_ended demo_mp_env) = [OnFile ''k'' ''f'' [] ''/up/0''] \<and>
   disk (demo_ended (demo_mp_env\<lparr>remove_ok := \<lambda>_. False\<rparr>)) ''/up/1'' = Some ''w''"
  by code_simp

theorem multipart_no_leaked_files_witness: "dom (disk (demo_ended demo_mp_env)) = {''/up/0''}"
proof -
  have "{path. \<exists>n f c. OnFile n f c path \<in> set (mp_events (demo_ended demo_mp_env))} \<subseteq> dom (disk (demo_ended demo_mp_env)) \<and>
    dom (disk (demo_ended demo_mp_env)) \<subseteq>
      {path. (\<exists>n f c. OnFile n f c path \<in> set (mp_events (demo_ended demo_mp_env))) \<or> \<not> remove_ok demo_mp_env path}"
    unfolding demo_ended_def
    by (rule multipart_no_leaked_files) (auto simp: demo_mp_env_def intro: mp_reachable.fed [OF mp_reachable.created surjective_pairing])
  then show ?thesis using demo_uploads_read by (auto simp: demo_mp_env_def)
qed

text \<open>
  Limits. In every state of the streaming parser each field value kept or reported is at most
  \<open>max_field_size\<close> long, each upload file on disk at most \<open>max_file_size\<close>, and at most
  \<open>max_parts\<close> parts have been reported.
\<close>

theorem multipart_limits_hold:
  assumes "mp_reachable env p" and "\<forall>n. upload_path env n \<noteq> []"
  shows "length (current_field_value p) \<le> max_field_size (limits p) \<and>
         (\<forall>n v. OnField n v \<in> set (mp_events p) \<longrightarrow> length v \<le> max_field_size (limits p)) \<and>
         (\<forall>path data. disk p path = Some data \<longrightarrow> length data \<le> max_file_size (limits p)) \<and>
         length (mp_events p) \<le> max_parts (limits p)"
  using mp_reachable_inv [OF _ assms(1)] assms(2) by (auto simp: mp_inv_def sizes_ok_def counts_ok_def)

theorem multipart_limits_hold_witness:
  "length (mp_events (snd (mp_feed demo_mp_env (form_text ''B'' [(''a'', ''1'')]) (mp_new ''B'' demo_limits)))) \<le>
   max_parts (limits (snd (mp_feed demo_mp_env (form_text ''B'' [(''a'', ''1'')]) (mp_new ''B'' demo_limits))))"
  using multipart_limits_hold [OF mp_reachable.fed [OF mp_reachable.created surjective_pairing], of demo_mp_env]
  by (simp add: demo_mp_env_def)

text \<open>
  C25: A form body within the limits is read back in one feed: if every field has a name, no name holds a quotation mark or a carriage return
  (browsers percent-encode these) and no value holds the boundary as a delimiter, then every field is reported once, in order, with
  exactly its name and value, and the parser is complete. (That the body arrives in one piece matters, see above.)
\<close>

theorem multipart_fields_roundtrip:
  assumes "list_all (field_ok B) fs" and "list_all (\<lambda>f. length (snd f) \<le> max_field_size lim) fs"
    and "length fs \<le> max_parts lim" "length (form_text B fs) \<le> max_total_size lim" "has_on_field env"
  shows "\<exists>p. mp_feed env (form_text B fs) (mp_new B lim) = (True, p) \<and>
           mp_events p = map (\<lambda>(n, v). OnField n v) fs \<and> mp_complete p"
proof -
  let ?p = "(mp_new B lim)\<lparr>total_size := length (form_text B fs)\<rparr>"
  have "process_buffer env (?p\<lparr>mp_buffer := form_text B fs\<rparr>) =
      ?p\<lparr>mp_buffer := [], parts := parts ?p + length fs, finished := True,
         mp_events := mp_events ?p @ map (\<lambda>(n, v). OnField n v) fs\<rparr>"
    using assms by (intro process_form) (simp_all add: at_boundary_def mp_new_def)
  then show ?thesis
    using assms(4) by (simp add: mp_feed_def Let_def mp_new_def mp_complete_def)
qed

theorem multipart_fields_roundtrip_witness:
  "\<exists>p. mp_feed demo_mp_env (form_text ''B'' [(''a'', ''x'' @ CRLF @ ''--''), (''b'', [])]) (mp_new ''B'' demo_limits) = (True, p) \<and>
     mp_events p = [OnField ''a'' (''x'' @ CRLF @ ''--''), OnField ''b'' []]"
proof -
  let ?fs = "[(''a'', ''x'' @ CRLF @ ''--''), (''b'', [])]"
  have "list_all (field_ok ''B'') ?fs" "list_all (\<lambda>f. length (snd f) \<le> max_field_size demo_limits) ?fs"
    "length ?fs \<le> max_parts demo_limits" "length (form_text ''B'' ?fs) \<le> max_total_size demo_limits"
    "has_on_field demo_mp_env"
    by code_simp+
  from multipart_fields_roundtrip [OF this] show ?thesis by auto
qed

end
