(* ===== verification/Request_Guards.thy ===== *)
theory Request_Guards
  imports Routing Multipart
begin

text \<open>
  The middleware that admits or refuses a request by what it says of itself:
  \<^verbatim>\<open>src/middleware/Cors.cpp\<close>, \<^verbatim>\<open>src/middleware/Csrf.cpp\<close> and
  \<^verbatim>\<open>src/middleware/DistributedRateLimiter.cpp\<close>. Each is shown to keep the router's middleware
  contract by an interpretation of \<open>middleware_contract\<close>. Randomness and the Redis server are
  arguments: \<open>random\<close> is the token \<open>secure_random_hex(32)\<close> gives (\<open>None\<close> when it throws),
  \<open>count\<close> what \<open>incr_with_expiry\<close> returns.
\<close>

section \<open>CORS\<close>

record CorsOptions =
  allowed_origins :: "string list"
  allowed_methods :: "string list"
  allowed_headers :: "string list"
  allow_credentials :: bool
  cors_max_age :: int

definition any_origin :: "CorsOptions \<Rightarrow> bool" where
  "any_origin o' \<longleftrightarrow> ''*'' \<in> set (allowed_origins o')"

definition grants_credentials :: "CorsOptions \<Rightarrow> bool" where
  "grants_credentials o' \<longleftrightarrow> allow_credentials o' \<and> \<not> any_origin o'"

definition origin_allowed :: "CorsOptions \<Rightarrow> HttpRequest \<Rightarrow> bool" where
  "origin_allowed o' req \<longleftrightarrow>
     (case hdr_find ''Origin'' (req_headers req) of
        None \<Rightarrow> False
      | Some origin \<Rightarrow> any_origin o' \<or> origin \<in> set (allowed_origins o'))"

definition cors_headers :: "CorsOptions \<Rightarrow> HttpRequest \<Rightarrow> 'x writer_scheme \<Rightarrow> 'x writer_scheme" where
  "cors_headers o' req w =
     (let w1 = (if \<not> any_origin o' then writer_set_header ''Vary'' ''Origin'' w else w)
      in if any_origin o' then writer_set_header ''Access-Control-Allow-Origin'' ''*'' w1
         else if origin_allowed o' req then
           (let origin = (case hdr_find ''Origin'' (req_headers req) of Some v \<Rightarrow> v | None \<Rightarrow> []);
                w2 = writer_set_header ''Access-Control-Allow-Origin'' origin w1
            in if grants_credentials o' then writer_set_header ''Access-Control-Allow-Credentials'' ''true'' w2 else w2)
         else w1)"

definition is_preflight :: "HttpRequest \<Rightarrow> bool" where
  "is_preflight req \<longleftrightarrow>
     req_method req = OPTIONS \<and> hdr_find ''Origin'' (req_headers req) \<noteq> None \<and>
     hdr_find ''Access-Control-Request-Method'' (req_headers req) \<noteq> None"

definition preflight_response :: "CorsOptions \<Rightarrow> HttpRequest \<Rightarrow> HttpResponse" where
  "preflight_response o' req =
     (let allow_headers =
            (let h = join '', '' (allowed_headers o')
             in if h = ''*'' \<and> grants_credentials o'
                then (case hdr_find ''Access-Control-Request-Headers'' (req_headers req) of Some v \<Rightarrow> v | None \<Rightarrow> [])
                else h);
          res = (if origin_allowed o' req then
                   (let r1 = res_header ''Access-Control-Allow-Methods'' (join '', '' (allowed_methods o')) new_response;
                        r2 = (if allow_headers \<noteq> [] then res_header ''Access-Control-Allow-Headers'' allow_headers r1 else r1)
                    in res_header ''Access-Control-Max-Age'' (show_int (cors_max_age o')) r2)
                 else new_response)
      in send_text [] (status 204 res))"

definition cors :: "CorsOptions \<Rightarrow> 'x Middleware" where
  "cors o' req w =
     (let w1 = cors_headers o' req w
      in if is_preflight req then (Return False, req, writer_send (preflight_response o' req) w1)
         else (Return True, req, w1))"

definition forbidden :: "string \<Rightarrow> HttpResponse" where
  "forbidden text = send_text text (status 403 new_response)"

definition require_origin :: "string list \<Rightarrow> 'x Middleware" where
  "require_origin allowed req w =
     (case hdr_find ''Origin'' (req_headers req) of
        None \<Rightarrow> (Return True, req, w)
      | Some origin \<Rightarrow>
          if origin \<in> set allowed then (Return True, req, w)
          else (Return False, req, writer_send (forbidden ''403 Forbidden'') w))"

section \<open>CSRF\<close>

definition csrf_cookie :: "string \<Rightarrow> string \<Rightarrow> HttpResponse \<Rightarrow> HttpResponse" where
  "csrf_cookie name token =
     set_cookie (default_cookie\<lparr>cookie_name := name, cookie_value := token, cookie_path := ''/'',
                                cookie_same_site := ''Lax''\<rparr>)"

definition provided_token :: "string \<Rightarrow> HttpRequest \<Rightarrow> string" where
  "provided_token header_name req =
     (case hdr_find header_name (req_headers req) of
        Some v \<Rightarrow> v
      | None \<Rightarrow>
          (case hdr_find ''Content-Type'' (req_headers req) of
             None \<Rightarrow> []
           | Some ct \<Rightarrow>
               if find_sub ''application/x-www-form-urlencoded'' ct \<noteq> None
               then (case form_fields req ''_csrf'' of Some v \<Rightarrow> v | None \<Rightarrow> [])
               else if find_sub ''multipart/form-data'' ct \<noteq> None
               then (case form_fields' (request_form req) ''_csrf'' of Some v \<Rightarrow> v | None \<Rightarrow> [])
               else []))"

definition csrf :: "string \<Rightarrow> string \<Rightarrow> string option \<Rightarrow> 'x Middleware" where
  "csrf cookie header random req w =
     (let cookie_token = (case req_cookies req cookie of Some v \<Rightarrow> v | None \<Rightarrow> [])
      in if req_method req = GET \<or> req_method req = HEAD \<or> req_method req = OPTIONS then
           (if cookie_token = [] then
              (case random of
                 None \<Rightarrow> (Throw (StdException ''RAND_bytes failed''), req, w)
               | Some token \<Rightarrow>
                   (Return True, set_header header token req, add_interceptor (csrf_cookie cookie token) w))
            else (Return True, set_header header cookie_token req, w))
         else if cookie_token = [] \<or> provided_token header req = [] \<or> cookie_token \<noteq> provided_token header req
         then (Return False, req, writer_send (forbidden ''CSRF Token Verification Failed'') w)
         else (Return True, req, w))"

section \<open>The shared rate limiter\<close>

definition distributed_rate_limit :: "nat \<Rightarrow> int \<Rightarrow> bool \<Rightarrow> int \<Rightarrow> 'x Middleware" where
  "distributed_rate_limit max_requests window allow_when_unavailable count req w =
     (if count \<le> 0 then
        (if allow_when_unavailable then (Return True, req, w)
         else (Return False, req,
               writer_send (res_header ''Retry-After'' ''1''
                 (set_body ''503 Service Unavailable'' ''text/plain'' (status 503 new_response))) w))
      else if nat count \<le> max_requests then (Return True, req, w)
      else (Return False, req,
            writer_send (res_header ''Retry-After'' (show_int (max 1 window))
              (set_body ''429 Too Many Requests'' ''text/plain'' (status 429 new_response))) w))"

section \<open>The middleware contract\<close>

interpretation cors: middleware_contract "cors o'"
  by (rule middleware_contractI)
    (auto simp: cors_def cors_headers_def Let_def split: if_splits)

interpretation require_origin: middleware_contract "require_origin allowed"
  by (rule middleware_contractI) (auto simp: require_origin_def split: option.splits if_splits)

interpretation csrf: middleware_contract "csrf cookie header random"
  by (rule middleware_contractI) (auto simp: csrf_def Let_def split: if_splits option.splits)

interpretation distributed: middleware_contract "distributed_rate_limit max_requests window allow count"
  by (rule middleware_contractI) (auto simp: distributed_rate_limit_def split: if_splits)

text \<open>A prefix restriction and a pipeline of such middleware keep it too.\<close>

interpretation prefixed_cors: middleware_contract "prefixed full (cors o')"
  by (rule middleware_contractI) (auto simp: prefixed_def split: if_splits dest: cors.result)

interpretation guard_pipeline: middleware_contract
  "run_middlewares [cors o', require_origin allowed, csrf cookie header random]"
  by (rule run_middlewares_contract)
    (simp add: cors.middleware_contract_axioms require_origin.middleware_contract_axioms
      csrf.middleware_contract_axioms)

lemma assoc_set_mem: "(k', v') \<in> set (assoc_set k v es) \<Longrightarrow> (k', v') = (k, v) \<or> (k', v') \<in> set es"
  by (induction es) (auto split: if_splits)

lemma assoc_set_new: "(k, v) \<in> set (assoc_set k v es)"
  by (induction es) auto

lemma assoc_set_other: "k' \<noteq> k \<Longrightarrow> (k', v') \<in> set (assoc_set k v es) \<longleftrightarrow> (k', v') \<in> set es"
  by (induction es) (auto split: if_splits)

section \<open>Properties\<close>

text \<open>
  CORS never grants credentials broadly. If the middleware announces
  \<^verbatim>\<open>Access-Control-Allow-Credentials\<close> for a request, the request carried an \<^verbatim>\<open>Origin\<close> that is listed
  by name, no wildcard is configured, and the announced \<^verbatim>\<open>Access-Control-Allow-Origin\<close> is that
  origin.
\<close>

theorem cors_credentials_only_listed:
  assumes "cors o' req w = (out, req', w')"
    and "(''Access-Control-Allow-Credentials'', v) \<in> set (default_headers w')"
    and "\<forall>v. (''Access-Control-Allow-Credentials'', v) \<notin> set (default_headers w)"
  shows "\<exists>origin. hdr_find ''Origin'' (req_headers req) = Some origin \<and> origin \<in> set (allowed_origins o') \<and>
           ''*'' \<notin> set (allowed_origins o') \<and> allow_credentials o' \<and>
           (''Access-Control-Allow-Origin'', origin) \<in> set (default_headers w')"
proof -
  have "default_headers w' = default_headers (cors_headers o' req w)"
    using assms(1) by (auto simp: cors_def Let_def writer_send_def split: if_splits)
  with assms(2,3) show ?thesis
    by (auto simp: cors_headers_def writer_set_header_def origin_allowed_def grants_credentials_def any_origin_def
        Let_def assoc_set_other assoc_set_new split: if_splits option.splits dest!: assoc_set_mem)
qed

definition demo_cors :: CorsOptions where
  "demo_cors = \<lparr>allowed_origins = [''https://app''], allowed_methods = [''GET''], allowed_headers = [''*''],
     allow_credentials = True, cors_max_age = 60\<rparr>"

theorem cors_credentials_only_listed_witness:
  "(''Access-Control-Allow-Origin'', ''https://app'') \<in> set (default_headers (snd (snd
     (cors demo_cors (empty_request\<lparr>req_method := GET, req_headers := [(''Origin'', ''https://app'')]\<rparr>) new_writer))))"
proof -
  let ?req = "empty_request\<lparr>req_method := GET, req_headers := [(''Origin'', ''https://app'')]\<rparr>"
  obtain out req' w' where r: "cors demo_cors ?req new_writer = (out, req', w')" by (metis prod_cases3)
  then have "(''Access-Control-Allow-Credentials'', ''true'') \<in> set (default_headers w')"
    by (auto simp: demo_cors_def cors_def cors_headers_def is_preflight_def empty_request_def origin_allowed_def
        any_origin_def grants_credentials_def writer_set_header_def new_writer_def Let_def)
  moreover have "\<forall>v. (''Access-Control-Allow-Credentials'', v) \<notin> set (default_headers new_writer)"
    by (simp add: new_writer_def)
  ultimately show ?thesis
    using cors_credentials_only_listed [OF r] r by (simp add: empty_request_def)
qed

text \<open>
  CSRF protection. A request with a method other than GET, HEAD and OPTIONS passes the
  middleware only if it has the CSRF cookie, non-empty, and provides the same token in the header
  or, when the header is absent, in the form body; otherwise it is answered with 403 and stopped.
\<close>

theorem csrf_protects_mutations:
  assumes "req_method req \<notin> {GET, HEAD, OPTIONS}"
  shows "csrf cookie header random req w =
           (if \<exists>token. token \<noteq> [] \<and> req_cookies req cookie = Some token \<and> provided_token header req = token
            then (Return True, req, w)
            else (Return False, req, writer_send (forbidden ''CSRF Token Verification Failed'') w))"
  using assms by (auto simp: csrf_def Let_def split: option.splits)

theorem csrf_protects_mutations_witness:
  "csrf ''csrf_token'' ''X-CSRF-Token'' None (empty_request\<lparr>req_method := POST\<rparr>) new_writer =
     (Return False, empty_request\<lparr>req_method := POST\<rparr>,
      writer_send (forbidden ''CSRF Token Verification Failed'') new_writer)"
  using csrf_protects_mutations [of "empty_request\<lparr>req_method := POST\<rparr>" "''csrf_token''" "''X-CSRF-Token''" None new_writer]
  by (simp add: empty_request_def)

end
