(* ===== verification/Trusted_Proxies.thy ===== *)
theory Trusted_Proxies
  imports Routing
begin

text \<open>
  \<^verbatim>\<open>src/middleware/TrustedProxies.cpp\<close>: IP networks and the middleware that takes the client's
  address from a forwarding header, for requests that come from a trusted proxy.
  \<^verbatim>\<open>inet_pton\<close> is a parameter, one function for each address family: the bytes of the literal, or
  \<open>None\<close>.
\<close>

type_synonym bytes = "8 word list"

record ip_parser =
  pton4 :: "string \<Rightarrow> bytes option"
  pton6 :: "string \<Rightarrow> bytes option"

text \<open>What \<^verbatim>\<open>inet_pton\<close> documents: an IPv4 address is 4 bytes long, an IPv6 address 16.\<close>

definition pton_sizes :: "ip_parser \<Rightarrow> bool" where
  "pton_sizes ipp \<longleftrightarrow>
     (\<forall>s b. pton4 ipp s = Some b \<longrightarrow> length b = 4) \<and> (\<forall>s b. pton6 ipp s = Some b \<longrightarrow> length b = 16)"

definition parse_ip :: "ip_parser \<Rightarrow> string \<Rightarrow> (bytes \<times> bool) option" where
  "parse_ip ipp text =
     (case pton4 ipp text of
        Some b \<Rightarrow> Some (replicate 10 0 @ [0xFF, 0xFF] @ b, True)
      | None \<Rightarrow> map_option (\<lambda>b. (b, False)) (pton6 ipp text))"

definition bare_address :: "string \<Rightarrow> string" where
  "bare_address v0 =
     (let v1 = trim v0;
          v = (if length v1 \<ge> 2 \<and> hd v1 = CHR 0x22 \<and> last v1 = CHR 0x22 then butlast (tl v1) else v1)
      in if v \<noteq> [] \<and> hd v = CHR ''['' then
           (case split_at (CHR '']'') (tl v) of (_, None) \<Rightarrow> [] | (a, Some _) \<Rightarrow> a)
         else case split_at (CHR '':'') v of
                (a, Some r) \<Rightarrow> if CHR '':'' \<in> set r then v else a
              | (_, None) \<Rightarrow> v)"

text \<open>The \<^verbatim>\<open>for=\<close> parameter of a \<^verbatim>\<open>Forwarded\<close> element; the last one wins.\<close>

definition forwarded_for :: "string \<Rightarrow> string" where
  "forwarded_for element =
     foldl (\<lambda>found pair0.
        let pair = trim pair0
        in case split_at (CHR ''='') pair of
             (n, Some v) \<Rightarrow> if iequals (trim n) ''for'' then v else found
           | (_, None) \<Rightarrow> found) [] (split_on (CHR '';'') element)"

definition chain_elements :: "string \<Rightarrow> string list" where
  "chain_elements s = list_elements (CHR '','') s"

definition forwarded_chain :: "string \<Rightarrow> bool \<Rightarrow> string list" where
  "forwarded_chain val rfc7239 =
     map (\<lambda>e. bare_address (if rfc7239 then forwarded_for e else e)) (chain_elements val)"

section \<open>Networks\<close>

record IpNetwork =
  net_address :: bytes
  prefix_bits :: nat

definition parse_bits :: "string \<Rightarrow> nat option" where
  "parse_bits b = (if b = [] \<or> length b > 3 \<or> \<not> list_all isdigit b then None else Some (dec_value b))"

definition IpNetwork_parse :: "ip_parser \<Rightarrow> string \<Rightarrow> IpNetwork option" where
  "IpNetwork_parse ipp text0 =
     (let text = trim text0
      in case (case split_at (CHR ''/'') text of
                 (addr, None) \<Rightarrow> Some (addr, None)
               | (addr, Some b) \<Rightarrow> map_option (\<lambda>n. (addr, Some n)) (parse_bits b)) of
           None \<Rightarrow> None
         | Some (addr, bits0) \<Rightarrow>
             (case parse_ip ipp addr of
                None \<Rightarrow> None
              | Some (address, is_v4) \<Rightarrow>
                  let width = (if is_v4 then 32 else 128);
                      bits = (case bits0 of None \<Rightarrow> width | Some n \<Rightarrow> n)
                  in if bits > width then None
                     else Some \<lparr>net_address = address, prefix_bits = (if is_v4 then bits + 96 else bits)\<rparr>))"

fun prefix_equal :: "nat \<Rightarrow> bytes \<Rightarrow> bytes \<Rightarrow> bool" where
  "prefix_equal bits (a # as) (b # bs) =
     (if bits = 0 then True
      else
        let mask = (if bits \<ge> 8 then 0xFF else push_bit (8 - bits) (0xFF :: 8 word))
        in if a AND mask \<noteq> b AND mask then False else prefix_equal (bits - 8) as bs)"
| "prefix_equal bits _ _ = True"

definition contains_ip :: "ip_parser \<Rightarrow> IpNetwork \<Rightarrow> string \<Rightarrow> bool" where
  "contains_ip ipp net ip =
     (case parse_ip ipp (bare_address ip) of
        None \<Rightarrow> False
      | Some (other, _) \<Rightarrow> prefix_equal (prefix_bits net) (net_address net) other)"

section \<open>The middleware\<close>

definition is_trusted :: "ip_parser \<Rightarrow> IpNetwork list \<Rightarrow> string \<Rightarrow> bool" where
  "is_trusted ipp trusted ip = list_ex (\<lambda>net. contains_ip ipp net ip) trusted"

fun walk_hops :: "ip_parser \<Rightarrow> IpNetwork list \<Rightarrow> string list \<Rightarrow> string \<Rightarrow> string" where
  "walk_hops ipp trusted [] client = client"
| "walk_hops ipp trusted (hop # hops) client =
     (if parse_ip ipp hop = None then client
      else if \<not> is_trusted ipp trusted hop then hop
      else walk_hops ipp trusted hops hop)"

definition trusted_proxies :: "ip_parser \<Rightarrow> IpNetwork list \<Rightarrow> string \<Rightarrow> 'x Middleware" where
  "trusted_proxies ipp trusted header req w =
     (let req1 = (if peer_ip req = [] then req\<lparr>peer_ip := client_ip req\<rparr> else req)
      in if \<not> is_trusted ipp trusted (peer_ip req1) then (Return True, req1, w)
         else case hdr_find header (req_headers req1) of
                None \<Rightarrow> (Return True, req1, w)
              | Some val \<Rightarrow>
                  let chain = forwarded_chain val (iequals header ''Forwarded'')
                  in (Return True, req1\<lparr>client_ip := walk_hops ipp trusted (rev chain) (peer_ip req1)\<rparr>, w))"

fun parse_networks :: "ip_parser \<Rightarrow> string list \<Rightarrow> string + IpNetwork list" where
  "parse_networks ipp [] = Inr []"
| "parse_networks ipp (entry # entries) =
     (case IpNetwork_parse ipp entry of
        None \<Rightarrow> Inl (''trusted_proxies: not an IP address or CIDR: '' @ entry)
      | Some net \<Rightarrow> (case parse_networks ipp entries of Inl e \<Rightarrow> Inl e | Inr nets \<Rightarrow> Inr (net # nets)))"

interpretation trusted_proxies: middleware_contract "trusted_proxies ipp trusted header"
  by (rule middleware_contractI) (auto simp: trusted_proxies_def Let_def split: if_splits option.splits)

section \<open>Networks are bit prefixes\<close>

definition bit_list :: "bytes \<Rightarrow> bool list" where
  "bit_list bs = concat (map (\<lambda>b. map (\<lambda>i. bit b (7 - i)) [0..<8]) bs)"

lemma length_byte_bits [simp]: "length (map (\<lambda>i. bit (b :: 8 word) (7 - i)) [0..<8]) = 8"
  by simp

lemma masked_eq_iff:
  assumes "n \<le> 8"
  shows "a AND push_bit (8 - n) 0xFF = b AND push_bit (8 - n) (0xFF :: 8 word) \<longleftrightarrow>
         take n (map (\<lambda>i. bit a (7 - i)) [0..<8]) = take n (map (\<lambda>i. bit b (7 - i)) [0..<8])"
proof -
  have m: "bit (push_bit (8 - n) (0xFF :: 8 word)) k \<longleftrightarrow> 8 - n \<le> k \<and> k < 8" for k
  proof -
    have "(0xFF :: 8 word) = mask 8" by (simp add: mask_eq_exp_minus_1)
    then show ?thesis using assms
      by (simp only: bit_push_bit_iff bit_mask_iff possible_bit_word) auto
  qed
  have "a AND push_bit (8 - n) 0xFF = b AND push_bit (8 - n) (0xFF :: 8 word) \<longleftrightarrow>
      (\<forall>k < 8. 8 - n \<le> k \<longrightarrow> bit a k = bit b k)"
    by (auto simp: bit_eq_iff bit_and_iff m)
  also have "\<dots> \<longleftrightarrow> (\<forall>i < n. bit a (7 - i) = bit b (7 - i))"
  proof
    assume h: "\<forall>k < 8. 8 - n \<le> k \<longrightarrow> bit a k = bit b k"
    show "\<forall>i < n. bit a (7 - i) = bit b (7 - i)" using h assms by auto
  next
    assume h: "\<forall>i < n. bit a (7 - i) = bit b (7 - i)"
    have "bit a k = bit b k" if "k < 8" "8 - n \<le> k" for k
    proof -
      have "7 - (7 - k) = k" "7 - k < n" using that assms by auto
      with h show ?thesis by metis
    qed
    then show "\<forall>k < 8. 8 - n \<le> k \<longrightarrow> bit a k = bit b k" by blast
  qed
  also have "\<dots> \<longleftrightarrow> take n (map (\<lambda>i. bit a (7 - i)) [0..<8]) = take n (map (\<lambda>i. bit b (7 - i)) [0..<8])"
    using assms by (auto simp: take_map list_eq_iff_nth_eq)
  finally show ?thesis .
qed

lemma prefix_equal_bits:
  "length as = length bs \<Longrightarrow> prefix_equal n as bs \<longleftrightarrow> take n (bit_list as) = take n (bit_list bs)"
proof (induction n as bs rule: prefix_equal.induct)
  case (1 bits a as b bs)
  let ?A = "map (\<lambda>i. bit a (7 - i)) [0..<8]" and ?B = "map (\<lambda>i. bit b (7 - i)) [0..<8]"
  have d: "bit_list (a # as) = ?A @ bit_list as" "bit_list (b # bs) = ?B @ bit_list bs"
    by (simp_all add: bit_list_def)
  show ?case
  proof (cases "bits < 8")
    case True
    have "prefix_equal 0 as bs" by (cases as; cases bs) simp_all
    with True masked_eq_iff [of bits a b] show ?thesis
      by (simp only: d take_append length_byte_bits) (auto simp: Let_def)
  next
    case False
    have full: "a AND 0xFF = b AND 0xFF \<longleftrightarrow> take 8 ?A = take 8 ?B"
      using masked_eq_iff [of 8 a b] by simp
    have "take bits (?A @ bit_list as) = take bits (?B @ bit_list bs) \<longleftrightarrow>
        take 8 ?A = take 8 ?B \<and> take (bits - 8) (bit_list as) = take (bits - 8) (bit_list bs)"
      using False by simp
    moreover have "prefix_equal bits (a # as) (b # bs) \<longleftrightarrow>
        a AND 0xFF = b AND 0xFF \<and> prefix_equal (bits - 8) as bs"
      using False by (simp add: Let_def)
    moreover have "a AND 0xFF = b AND 0xFF \<Longrightarrow>
        prefix_equal (bits - 8) as bs \<longleftrightarrow> take (bits - 8) (bit_list as) = take (bits - 8) (bit_list bs)"
      using "1.IH" [OF _ refl] "1.prems" False by simp
    ultimately show ?thesis unfolding d full by blast
  qed
qed (auto simp: bit_list_def)

lemma split_on_append_sep: "split_on c (a @ c # s) = split_on c a @ split_on c s"
proof (induction c a rule: split_on.induct)
  case (1 c a)
  obtain x r where x: "split_at c a = (x, r)" by fastforce
  show ?case
  proof (cases r)
    case None
    with x have "c \<notin> set a" by (simp add: split_at_eq_None)
    then show ?thesis by (simp add: split_on_append split_on_notin)
  next
    case (Some q)
    with x 1 show ?thesis by (simp add: split_at_eq_Some split_on_append)
  qed
qed

lemma chain_elements_append:
  "s \<noteq> [] \<Longrightarrow> chain_elements (a @ CHR '','' # s) = split_on (CHR '','') a @ chain_elements s"
  by (auto simp: chain_elements_def list_elements_def split_on_append_sep Let_def butlast_append)

lemma walk_hops_stops:
  assumes "list_all (\<lambda>h. parse_ip ipp h \<noteq> None \<and> is_trusted ipp trusted h) hs"
    and "parse_ip ipp h \<noteq> None" "\<not> is_trusted ipp trusted h"
  shows "walk_hops ipp trusted (hs @ h # rest) client = h"
  using assms by (induction hs arbitrary: client) auto

lemma IpNetwork_parse_length:
  assumes "pton_sizes ipp" "IpNetwork_parse ipp text = Some net"
  shows "length (net_address net) = 16 \<and> prefix_bits net \<le> 128"
  using assms
  by (auto simp: IpNetwork_parse_def parse_ip_def pton_sizes_def Let_def split: prod.splits option.splits if_splits)

lemma parse_ip_length: "pton_sizes ipp \<Longrightarrow> parse_ip ipp ip = Some (b, v4) \<Longrightarrow> length b = 16"
  by (auto simp: parse_ip_def pton_sizes_def split: option.splits)

section \<open>Properties\<close>

text \<open>
  A network contains an address exactly when the address parses and its first
  \<open>prefix_bits\<close> bits are those of the network, IPv4 addresses being compared in their
  IPv4-mapped form.
\<close>

theorem network_contains_iff_prefix:
  assumes "pton_sizes ipp" and "IpNetwork_parse ipp text = Some net"
  shows "contains_ip ipp net ip \<longleftrightarrow>
           (\<exists>other v4. parse_ip ipp (bare_address ip) = Some (other, v4) \<and>
              take (prefix_bits net) (bit_list (net_address net)) = take (prefix_bits net) (bit_list other))"
  using IpNetwork_parse_length [OF assms] parse_ip_length [OF assms(1)] prefix_equal_bits
  by (auto simp: contains_ip_def split: option.splits)

text \<open>A parser of dotted addresses with one digit in each part, for the witnesses.\<close>

definition demo_pton :: ip_parser where
  "demo_pton =
     \<lparr>pton4 = (\<lambda>s. if length s = 7 then Some (map (\<lambda>i. of_nat (digit_val (s ! i))) [0, 2, 4, 6]) else None),
      pton6 = (\<lambda>s. None)\<rparr>"

lemma demo_pton_sizes: "pton_sizes demo_pton"
  by (simp add: pton_sizes_def demo_pton_def)

theorem network_contains_iff_prefix_witness:
  "\<exists>net. IpNetwork_parse demo_pton ''1.2.0.0/16'' = Some net \<and> contains_ip demo_pton net ''1.2.3.4:80'' \<and>
     \<not> contains_ip demo_pton net ''1.3.3.4''"
proof -
  have n: "IpNetwork_parse demo_pton ''1.2.0.0/16'' =
      Some \<lparr>net_address = replicate 10 0 @ [0xFF, 0xFF, 1, 2, 0, 0], prefix_bits = 112\<rparr>"
    by code_simp
  moreover have "parse_ip demo_pton (bare_address ''1.2.3.4:80'') = Some (replicate 10 0 @ [0xFF, 0xFF, 1, 2, 3, 4], True)"
    "parse_ip demo_pton (bare_address ''1.3.3.4'') = Some (replicate 10 0 @ [0xFF, 0xFF, 1, 3, 3, 4], True)"
    "take 112 (bit_list (replicate 10 0 @ [0xFF, 0xFF, 1, 2, 0, 0])) = take 112 (bit_list (replicate 10 0 @ [0xFF, 0xFF, 1, 2, 3, 4]))"
    "take 112 (bit_list (replicate 10 0 @ [0xFF, 0xFF, 1, 2, 0, 0])) \<noteq> take 112 (bit_list (replicate 10 0 @ [0xFF, 0xFF, 1, 3, 3, 4]))"
    by code_simp+
  ultimately have "contains_ip demo_pton \<lparr>net_address = replicate 10 0 @ [0xFF, 0xFF, 1, 2, 0, 0], prefix_bits = 112\<rparr> ''1.2.3.4:80''"
    "\<not> contains_ip demo_pton \<lparr>net_address = replicate 10 0 @ [0xFF, 0xFF, 1, 2, 0, 0], prefix_bits = 112\<rparr> ''1.3.3.4''"
    using network_contains_iff_prefix [OF demo_pton_sizes n] by auto
  with n show ?thesis by blast
qed

text \<open>
  C19: A client cannot choose its address. Behind trusted proxies the client's address is the last
  untrusted hop of the forwarding header, whatever the client put in front of it: for any header
  value \<open>attacker\<close> that arrived at the first trusted proxy, followed by the hop
  \<open>h\<close> that proxy recorded and any number of trusted hops, \<open>client_ip\<close> becomes \<open>h\<close>.
\<close>

theorem client_ip_not_spoofable:
  assumes "is_trusted ipp trusted (peer_ip req)" and "peer_ip req \<noteq> []"
    and "hdr_find ''X-Forwarded-For'' (req_headers req) = Some (attacker @ CHR '','' # tail)" "tail \<noteq> []"
    and "forwarded_chain tail False = h # hs"
    and "parse_ip ipp h \<noteq> None" "\<not> is_trusted ipp trusted h"
    and "list_all (\<lambda>hop. parse_ip ipp hop \<noteq> None \<and> is_trusted ipp trusted hop) hs"
  shows "client_ip (fst (snd (trusted_proxies ipp trusted ''X-Forwarded-For'' req w))) = h"
proof -
  obtain pre where "forwarded_chain (attacker @ CHR '','' # tail) False = pre @ h # hs"
    using assms(5) by (simp add: forwarded_chain_def chain_elements_append [OF assms(4)])
  moreover have "walk_hops ipp trusted (rev hs @ h # rev pre) (peer_ip req) = h" for pre
    using assms(6-8) by (intro walk_hops_stops) (simp_all add: list_all_iff)
  moreover have "\<not> iequals ''X-Forwarded-For'' ''Forwarded''" by code_simp
  ultimately show ?thesis using assms(1-3) by (simp add: trusted_proxies_def)
qed

theorem client_ip_not_spoofable_witness:
  "client_ip (fst (snd (trusted_proxies demo_pton [\<lparr>net_address = replicate 10 0 @ [0xFF, 0xFF, 9, 0, 0, 1], prefix_bits = 128\<rparr>]
     ''X-Forwarded-For''
     (empty_request\<lparr>peer_ip := ''9.0.0.1'', req_headers := [(''X-Forwarded-For'', ''6.6.6.6, 5.5.5.5, 9.0.0.1'')]\<rparr>) new_writer))) = ''5.5.5.5''"
proof -
  let ?net = "\<lparr>net_address = replicate 10 0 @ [0xFF, 0xFF, 9, 0, 0, 1], prefix_bits = 128\<rparr>"
  have "is_trusted demo_pton [?net] ''9.0.0.1''" "\<not> is_trusted demo_pton [?net] ''5.5.5.5''"
    "forwarded_chain '' 5.5.5.5, 9.0.0.1'' False = [''5.5.5.5'', ''9.0.0.1'']"
    "parse_ip demo_pton ''5.5.5.5'' \<noteq> None" "parse_ip demo_pton ''9.0.0.1'' \<noteq> None"
    by code_simp+
  then show ?thesis
    using client_ip_not_spoofable [of demo_pton "[?net]"
        "empty_request\<lparr>peer_ip := ''9.0.0.1'', req_headers := [(''X-Forwarded-For'', ''6.6.6.6, 5.5.5.5, 9.0.0.1'')]\<rparr>"
        "''6.6.6.6''" "'' 5.5.5.5, 9.0.0.1''" "''5.5.5.5''" "[''9.0.0.1'']" new_writer]
    by simp
qed

end
