(* ===== verification/Rate_Limit.thy ===== *)
theory Rate_Limit
  imports Routing Complex_Main
begin

text \<open>
  The token-bucket limiter of \<^verbatim>\<open>src/middleware/RateLimiter.cpp\<close>. The limiter object is the record
  \<open>RateLimiter\<close>, the clock an argument. Seconds and tokens, \<^verbatim>\<open>double\<close>s in the code, are rationals:
  rounding is not modelled. The hash map is an association list; the order of its iteration is the
  order of the list.
\<close>

record Bucket =
  bucket_tokens :: rat
  bucket_updated :: rat

record RateLimiter =
  max_requests :: nat
  window :: int
  max_tracked_clients :: nat
  buckets :: "(string \<times> Bucket) list"
  last_sweep :: rat

definition new_limiter :: "nat \<Rightarrow> int \<Rightarrow> nat \<Rightarrow> rat \<Rightarrow> RateLimiter" where
  "new_limiter max_req win tracked now =
     \<lparr>max_requests = max_req, window = win, max_tracked_clients = (if tracked = 0 then 1 else tracked),
      buckets = [], last_sweep = now\<rparr>"

definition refill_per_second :: "RateLimiter \<Rightarrow> rat" where
  "refill_per_second l = of_nat (max_requests l) / of_int (max 1 (window l))"

definition tracked_clients :: "RateLimiter \<Rightarrow> nat" where
  "tracked_clients l = length (buckets l)"

definition refilled :: "RateLimiter \<Rightarrow> rat \<Rightarrow> Bucket \<Rightarrow> rat" where
  "refilled l now b = bucket_tokens b + (now - bucket_updated b) * refill_per_second l"

definition evict_refilled :: "rat \<Rightarrow> RateLimiter \<Rightarrow> RateLimiter" where
  "evict_refilled now l =
     l\<lparr>buckets := filter (\<lambda>(k, b). \<not> refilled l now b \<ge> of_nat (max_requests l)) (buckets l), last_sweep := now\<rparr>"

definition sweep :: "rat \<Rightarrow> RateLimiter \<Rightarrow> RateLimiter" where
  "sweep now l =
     (let since_sweep = now - last_sweep l
      in if since_sweep \<ge> of_int (window l) \<or> length (buckets l) \<ge> max_tracked_clients l \<and> since_sweep \<ge> 1
         then evict_refilled now l else l)"

text \<open>The loop that makes room; it ends because \<open>max_tracked_clients\<close> is at least one.\<close>

fun make_room :: "nat \<Rightarrow> string \<Rightarrow> (string \<times> Bucket) list \<Rightarrow> (string \<times> Bucket) list" where
  "make_room limit key [] = []"
| "make_room limit key (b # bs) =
     (if length (b # bs) \<ge> limit \<and> map_of (b # bs) key = None then make_room limit key bs else b # bs)"

fun bucket_put :: "string \<Rightarrow> Bucket \<Rightarrow> (string \<times> Bucket) list \<Rightarrow> (string \<times> Bucket) list" where
  "bucket_put key b [] = [(key, b)]"
| "bucket_put key b ((k, b') # bs) = (if k = key then (k, b) # bs else (k, b') # bucket_put key b bs)"

definition current_bucket :: "rat \<Rightarrow> string \<Rightarrow> RateLimiter \<Rightarrow> Bucket" where
  "current_bucket now key l =
     (case map_of (buckets l) key of
        None \<Rightarrow> \<lparr>bucket_tokens = of_nat (max_requests l), bucket_updated = now\<rparr>
      | Some b \<Rightarrow> \<lparr>bucket_tokens = min (of_nat (max_requests l)) (refilled l now b), bucket_updated = now\<rparr>)"

text \<open>The locked section: whether the request is allowed, the time to wait if not, the new state.\<close>

definition take_token :: "rat \<Rightarrow> string \<Rightarrow> RateLimiter \<Rightarrow> bool \<times> rat \<times> RateLimiter" where
  "take_token now key l0 =
     (let l1 = sweep now l0;
          l2 = l1\<lparr>buckets := make_room (max_tracked_clients l1) key (buckets l1)\<rparr>;
          b = current_bucket now key l2
      in if bucket_tokens b \<ge> 1
         then (True, 0, l2\<lparr>buckets := bucket_put key (b\<lparr>bucket_tokens := bucket_tokens b - 1\<rparr>) (buckets l2)\<rparr>)
         else (False,
               (if refill_per_second l2 > 0 then (1 - bucket_tokens b) / refill_per_second l2 else of_int (window l2)),
               l2\<lparr>buckets := bucket_put key b (buckets l2)\<rparr>))"

definition too_many_requests :: "rat \<Rightarrow> HttpResponse" where
  "too_many_requests retry =
     res_header ''Retry-After'' (show_int (ceiling (max 1 retry)))
       (set_body ''429 Too Many Requests'' ''text/plain'' (status 429 new_response))"

definition rate_limit :: "(HttpRequest \<Rightarrow> string) \<Rightarrow> rat \<Rightarrow> RateLimiter \<Rightarrow> HttpRequest \<Rightarrow> 'x writer_scheme \<Rightarrow>
    (bool outcome \<times> HttpRequest \<times> 'x writer_scheme) \<times> RateLimiter" where
  "rate_limit key now l req w =
     (case take_token now (key req) l of (allowed, retry, l') \<Rightarrow>
        ((if allowed then (Return True, req, w) else (Return False, req, writer_send (too_many_requests retry) w)), l'))"

interpretation rate_limit: middleware_contract "\<lambda>req w. fst (rate_limit key now l req w)"
  by (rule middleware_contractI) (auto simp: rate_limit_def split: prod.splits if_splits)

section \<open>The bound on what is remembered\<close>

definition limiter_ok :: "RateLimiter \<Rightarrow> bool" where
  "limiter_ok l \<longleftrightarrow>
     1 \<le> max_tracked_clients l \<and> length (buckets l) \<le> max_tracked_clients l \<and> distinct (map fst (buckets l))"

lemma make_room_suffix: "\<exists>pre. bs = pre @ make_room limit key bs"
proof (induction bs)
  case (Cons b bs)
  then obtain pre where "bs = pre @ make_room limit key bs" by blast
  then have "b # bs = (if length (b # bs) \<ge> limit \<and> map_of (b # bs) key = None then b # pre else []) @ make_room limit key (b # bs)"
    by auto
  then show ?case by blast
qed simp

lemma make_room_length:
  "1 \<le> limit \<Longrightarrow> length bs \<le> limit \<Longrightarrow> map_of bs key = None \<Longrightarrow> length (make_room limit key bs) < limit"
proof (induction bs)
  case (Cons b bs)
  then show ?case by (cases b) (auto split: if_splits)
qed simp

lemma make_room_present: "map_of bs key \<noteq> None \<Longrightarrow> make_room limit key bs = bs"
  by (cases bs) auto

lemma make_room_space: "length bs < limit \<Longrightarrow> make_room limit key bs = bs"
  by (cases bs) auto

lemma keys_bucket_put: "map fst (bucket_put key b bs) = (if map_of bs key = None then map fst bs @ [key] else map fst bs)"
  by (induction bs) auto

lemma length_bucket_put: "length (bucket_put key b bs) = length bs + (if map_of bs key = None then 1 else 0)"
  by (induction bs) auto

lemma map_of_bucket_put: "map_of (bucket_put key b bs) = (map_of bs)(key \<mapsto> b)"
  by (induction bs) (auto simp: fun_eq_iff)

lemma limiter_ok_sweep: "limiter_ok l \<Longrightarrow> limiter_ok (sweep now l)"
  by (auto simp: limiter_ok_def sweep_def evict_refilled_def Let_def distinct_map_filter
      intro: order_trans [OF length_filter_le])

lemma limiter_ok_put:
  assumes "limiter_ok l"
  shows "limiter_ok (l\<lparr>buckets := bucket_put key b (make_room (max_tracked_clients l) key (buckets l))\<rparr>)"
proof -
  let ?m = "make_room (max_tracked_clients l) key (buckets l)"
  obtain pre where pre: "buckets l = pre @ ?m" using make_room_suffix by blast
  have d: "distinct (map fst ?m)" "length ?m \<le> length (buckets l)"
    using assms arg_cong [OF pre, of "\<lambda>bs. distinct (map fst bs)"] arg_cong [OF pre, of length]
    by (auto simp: limiter_ok_def)
  show ?thesis
  proof (cases "map_of (buckets l) key = None")
    case True
    then have "map_of ?m key = None" using pre by (metis map_of_eq_None_iff map_append set_append UnCI image_set)
    moreover have "length ?m < max_tracked_clients l"
      using make_room_length [OF _ _ True] assms by (simp add: limiter_ok_def)
    ultimately show ?thesis
      using d assms by (auto simp: limiter_ok_def keys_bucket_put length_bucket_put map_of_eq_None_iff)
  next
    case False
    then have "?m = buckets l" by (simp add: make_room_present)
    then show ?thesis
      using False assms by (auto simp: limiter_ok_def keys_bucket_put length_bucket_put)
  qed
qed

lemma take_token_ok: "limiter_ok l \<Longrightarrow> limiter_ok (snd (snd (take_token now key l)))"
  using limiter_ok_put [OF limiter_ok_sweep] by (auto simp: take_token_def Let_def)


section \<open>What one client may do\<close>

text \<open>The tokens a client has at a time: a full bucket when the limiter does not know it.\<close>

definition available :: "RateLimiter \<Rightarrow> string \<Rightarrow> rat \<Rightarrow> rat" where
  "available l key now =
     (case map_of (buckets l) key of None \<Rightarrow> of_nat (max_requests l) | Some b \<Rightarrow> min (of_nat (max_requests l)) (refilled l now b))"

text \<open>The requests of a trace, each with its time, and how many of one client's are allowed.\<close>

fun run_limiter :: "(rat \<times> string) list \<Rightarrow> RateLimiter \<Rightarrow> RateLimiter" where
  "run_limiter [] l = l"
| "run_limiter ((now, key) # trace) l = run_limiter trace (snd (snd (take_token now key l)))"

fun allowed_count :: "string \<Rightarrow> (rat \<times> string) list \<Rightarrow> RateLimiter \<Rightarrow> nat" where
  "allowed_count client [] l = 0"
| "allowed_count client ((now, key) # trace) l =
     (case take_token now key l of (allowed, _, l') \<Rightarrow>
        (if allowed \<and> key = client then 1 else 0) + allowed_count client trace l')"

lemma refill_nonneg: "0 \<le> refill_per_second l"
  by (simp add: refill_per_second_def)

lemma sweep_fields [simp]:
  "max_requests (sweep now l) = max_requests l" "window (sweep now l) = window l"
  "max_tracked_clients (sweep now l) = max_tracked_clients l"
  by (simp_all add: sweep_def evict_refilled_def Let_def)

lemma take_token_fields [simp]:
  "max_requests (snd (snd (take_token now key l))) = max_requests l"
  "window (snd (snd (take_token now key l))) = window l"
  "max_tracked_clients (snd (snd (take_token now key l))) = max_tracked_clients l"
  by (simp_all add: take_token_def Let_def)

lemma refill_take_token [simp]: "refill_per_second (snd (snd (take_token now key l))) = refill_per_second l"
  by (simp add: refill_per_second_def)

lemma available_mono:
  assumes "t \<le> t'"
  shows "available l key t \<le> available l key t'"
    and "available l key t' \<le> available l key t + refill_per_second l * (t' - t)"
proof -
  have "0 \<le> (t' - t) * refill_per_second l" using assms refill_nonneg by simp
  moreover have "refilled l t' b = refilled l t b + (t' - t) * refill_per_second l" for b
    by (simp add: refilled_def algebra_simps)
  ultimately show "available l key t \<le> available l key t'"
    and "available l key t' \<le> available l key t + refill_per_second l * (t' - t)"
    by (auto simp: available_def min_def mult.commute split: option.splits)
qed

text \<open>Forgetting a client whose bucket is full does not change what it may do.\<close>

lemma map_of_filter_distinct:
  "distinct (map fst xs) \<Longrightarrow>
   map_of (filter (\<lambda>(k, v). P v) xs) key = (case map_of xs key of None \<Rightarrow> None | Some v \<Rightarrow> if P v then Some v else None)"
  by (induction xs) (auto simp: map_of_eq_None_iff image_iff split: option.splits)

lemma available_sweep:
  assumes "distinct (map fst (buckets l))"
  shows "available (sweep now l) key now = available l key now"
proof -
  have "refilled (l\<lparr>buckets := bs, last_sweep := t\<rparr>) now b = refilled l now b" for bs t b
    by (simp add: refilled_def refill_per_second_def)
  then show ?thesis
    using map_of_filter_distinct [OF assms, of "\<lambda>b. \<not> refilled l now b \<ge> of_nat (max_requests l)" key]
    by (auto simp: available_def sweep_def evict_refilled_def Let_def split: option.splits if_splits)
qed

lemma available_current: "bucket_tokens (current_bucket now key l) = available l key now"
  by (simp add: current_bucket_def available_def split: option.split)

lemma current_updated: "bucket_updated (current_bucket now key l) = now"
  by (simp add: current_bucket_def split: option.split)

lemma available_le: "available l key now \<le> of_nat (max_requests l)"
  by (simp add: available_def split: option.split)

text \<open>While no room has to be made, a request costs its client one token and no other client anything.\<close>

lemma available_put:
  "available (l\<lparr>buckets := bucket_put key b (buckets l)\<rparr>) client now =
   (if client = key then min (of_nat (max_requests l)) (refilled l now b) else available l client now)"
  by (auto simp: available_def map_of_bucket_put refilled_def refill_per_second_def split: option.split)

lemma map_of_make_room: "map_of (make_room limit key bs) key = map_of bs key"
proof (cases "map_of bs key")
  case None
  obtain pre where "bs = pre @ make_room limit key bs" using make_room_suffix by blast
  then have "set (make_room limit key bs) \<subseteq> set bs" by (metis set_append Un_upper2)
  with None have "map_of (make_room limit key bs) key = None" unfolding map_of_eq_None_iff by auto
  with None show ?thesis by simp
qed (simp add: make_room_present)

lemma available_room: "available (l\<lparr>buckets := make_room n key (buckets l)\<rparr>) key now = available l key now"
  by (simp add: available_def map_of_make_room refilled_def refill_per_second_def split: option.split)

lemma take_token_iff:
  assumes "limiter_ok l"
  shows "fst (take_token now key l) \<longleftrightarrow> 1 \<le> available l key now"
proof -
  have "available (sweep now l) key now = available l key now"
    using assms by (simp add: available_sweep limiter_ok_def)
  then show ?thesis
    by (simp add: take_token_def Let_def available_current available_room)
qed

lemma take_token_step:
  assumes "limiter_ok l" and "make_room (max_tracked_clients l) key (buckets (sweep now l)) = buckets (sweep now l)"
  shows "available (snd (snd (take_token now key l))) client now =
           available l client now - (if fst (take_token now key l) \<and> client = key then 1 else 0)"
proof -
  let ?s = "sweep now l"
  have av: "available ?s c now = available l c now" for c
    using assms(1) by (simp add: available_sweep limiter_ok_def)
  have room: "?s\<lparr>buckets := make_room (max_tracked_clients ?s) key (buckets ?s)\<rparr> = ?s"
    using assms(2) by simp
  have r: "refilled ?s now b = bucket_tokens b" if "bucket_updated b = now" for b
    using that by (simp add: refilled_def)
  show ?thesis
    unfolding take_token_def Let_def room
    using available_le [of l key now]
    by (auto simp: available_put available_current av r current_updated min_def)
qed

text \<open>No room has to be made while the clients of the trace fit.\<close>

lemma no_room_needed:
  assumes "limiter_ok l" "fst ` set (buckets l) \<subseteq> K" "key \<in> K" "finite K" "card K \<le> max_tracked_clients l"
  shows "make_room (max_tracked_clients l) key (buckets (sweep now l)) = buckets (sweep now l)"
proof (cases "map_of (buckets (sweep now l)) key")
  case None
  let ?bs = "buckets (sweep now l)"
  have sub: "fst ` set ?bs \<subseteq> K"
    using assms(2) by (auto simp: sweep_def evict_refilled_def Let_def image_subset_iff)
  have "distinct (map fst ?bs)" using limiter_ok_sweep [OF assms(1)] by (simp add: limiter_ok_def)
  then have "length ?bs = card (fst ` set ?bs)" using distinct_card [of "map fst ?bs"] by simp
  also have "\<dots> < card K"
    using sub None assms(3,4) by (intro psubset_card_mono) (auto simp: map_of_eq_None_iff)
  finally show ?thesis using assms(5) by (simp add: make_room_space)
qed (simp add: make_room_present)

lemma take_token_keys:
  "fst ` set (buckets (snd (snd (take_token now key l)))) \<subseteq> insert key (fst ` set (buckets l))"
proof -
  have "fst ` set (bucket_put key b (make_room n key (buckets (sweep now l)))) \<subseteq> insert key (fst ` set (buckets l))" for b n
  proof -
    obtain pre where "buckets (sweep now l) = pre @ make_room n key (buckets (sweep now l))" using make_room_suffix by blast
    then have "set (make_room n key (buckets (sweep now l))) \<subseteq> set (buckets (sweep now l))" by (metis set_append Un_upper2)
    also have "\<dots> \<subseteq> set (buckets l)" by (auto simp: sweep_def evict_refilled_def Let_def)
    finally show ?thesis
      using arg_cong [OF keys_bucket_put [of key b "make_room n key (buckets (sweep now l))"], of set] by (auto split: if_splits)
  qed
  then show ?thesis by (simp add: take_token_def Let_def)
qed

lemma allowed_count_bound:
  assumes "limiter_ok l" "fst ` set (buckets l) \<subseteq> K" "snd ` set trace \<subseteq> K" "finite K" "card K \<le> max_tracked_clients l"
    and "sorted (map fst (trace @ [(t1, x)]))" "sorted_wrt (\<le>) (t # map fst (trace @ [(t1, x)]))" "0 \<le> available l client t"
  shows "of_nat (allowed_count client trace l) \<le> available l client t + refill_per_second l * (t1 - t)"
  using assms
proof (induction trace arbitrary: l t)
  case Nil
  then show ?case using refill_nonneg [of l] by simp
next
  case (Cons r trace)
  obtain now key where r: "r = (now, key)" by (cases r)
  let ?l = "snd (snd (take_token now key l))"
  have step: "available ?l client now = available l client now - (if fst (take_token now key l) \<and> client = key then 1 else 0)"
    using Cons.prems(1-5) r by (intro take_token_step no_room_needed [of _ K]) auto
  have mono: "available l client t \<le> available l client now"
    "available l client now \<le> available l client t + refill_per_second l * (now - t)"
    using Cons.prems(7) r by (auto intro: available_mono)
  have "of_nat (allowed_count client trace ?l) \<le> available ?l client now + refill_per_second ?l * (t1 - now)"
  proof (rule Cons.IH)
    show "fst ` set (buckets ?l) \<subseteq> K" using take_token_keys [of now key l] Cons.prems(2,3) r by auto
    show "0 \<le> available ?l client now"
      using step mono(1) Cons.prems(8) take_token_iff [OF Cons.prems(1), of now key] by (auto split: if_splits)
  qed (use Cons.prems take_token_ok r in auto)
  then show ?case
    using step mono(2) r by (auto simp: algebra_simps split: prod.splits if_splits)
qed

text \<open>The state after the requests that came before the span of time that is looked at.\<close>

lemma run_limiter_available:
  assumes "limiter_ok l" "fst ` set (buckets l) \<subseteq> K" "snd ` set trace \<subseteq> K" "finite K" "card K \<le> max_tracked_clients l"
    and "sorted_wrt (\<le>) (t # map fst trace @ [t1])" "0 \<le> available l client t"
  shows "0 \<le> available (run_limiter trace l) client t1 \<and> fst ` set (buckets (run_limiter trace l)) \<subseteq> K"
  using assms
proof (induction trace arbitrary: l t)
  case Nil
  then show ?case using available_mono(1) [of t t1 l client] by simp
next
  case (Cons r trace)
  obtain now key where r: "r = (now, key)" by (cases r)
  let ?l = "snd (snd (take_token now key l))"
  have step: "available ?l client now = available l client now - (if fst (take_token now key l) \<and> client = key then 1 else 0)"
    using Cons.prems(1-5) r by (intro take_token_step no_room_needed [of _ K]) auto
  have mono: "available l client t \<le> available l client now" using Cons.prems(6) r by (auto intro: available_mono)
  have "0 \<le> available (run_limiter trace ?l) client t1 \<and> fst ` set (buckets (run_limiter trace ?l)) \<subseteq> K"
  proof (rule Cons.IH)
    show "fst ` set (buckets ?l) \<subseteq> K" using take_token_keys [of now key l] Cons.prems(2,3) r by auto
    show "0 \<le> available ?l client now"
      using step mono Cons.prems(7) take_token_iff [OF Cons.prems(1), of now key] by (auto split: if_splits)
  qed (use Cons.prems take_token_ok r in auto)
  then show ?case using r by simp
qed

lemma run_limiter_ok: "limiter_ok l \<Longrightarrow> limiter_ok (run_limiter trace l)"
  by (induction trace l rule: run_limiter.induct) (simp_all add: take_token_ok)

lemma run_limiter_fields [simp]:
  "max_tracked_clients (run_limiter trace l) = max_tracked_clients l" "max_requests (run_limiter trace l) = max_requests l"
  "window (run_limiter trace l) = window l"
  by (induction trace l rule: run_limiter.induct) simp_all

lemma new_limiter_ok: "limiter_ok (new_limiter max_req win tracked now)"
  by (simp add: limiter_ok_def new_limiter_def)

section \<open>Properties\<close>

text \<open>
  C21: The rate is enforced: in any trace of requests in time order whose clients fit in the table, and in any span of time
  \<open>t1\<close> to \<open>t2\<close>, however long the client has been quiet before it, one client is allowed at most
  \<open>max_requests\<close> requests plus \<open>max_requests / window\<close> for every second of the span, whatever the other clients do and
  whatever the limiter sweeps away before or in between. (A window of less than a second counts as one.)
\<close>

theorem rate_limit_enforced:
  assumes "sorted (map fst (earlier @ trace))" "list_all (\<lambda>(now, _). t0 \<le> now \<and> now \<le> t1) earlier"
    and "list_all (\<lambda>(now, _). t1 \<le> now \<and> now \<le> t2) trace" "t0 \<le> t1" "t1 \<le> t2"
    and "card (snd ` set (earlier @ trace)) \<le> max 1 tracked"
  shows "of_nat (allowed_count client trace (run_limiter earlier (new_limiter max_req win tracked t0))) \<le>
           of_nat max_req + (of_nat max_req / of_int (max 1 win)) * (t2 - t1)"
proof -
  let ?n = "new_limiter max_req win tracked t0" and ?K = "snd ` set (earlier @ trace)"
  let ?l = "run_limiter earlier ?n"
  have k: "card ?K \<le> max_tracked_clients ?n" using assms(6) by (simp add: new_limiter_def max_def split: if_splits)
  have sub: "snd ` set earlier \<subseteq> ?K" "snd ` set trace \<subseteq> ?K" by auto
  have n: "buckets ?n = []" "available ?n client t0 = of_nat max_req" "max_requests ?n = max_req"
    by (simp_all add: new_limiter_def available_def)
  have "sorted_wrt (\<le>) (t0 # map fst earlier @ [t1])" using assms(1,2,4) by (auto simp: sorted_append list_all_iff)
  then have l: "0 \<le> available ?l client t1" "fst ` set (buckets ?l) \<subseteq> ?K"
    using run_limiter_available [OF new_limiter_ok _ sub(1) _ k, of t0 t1 client] n by simp_all
  have "sorted (map fst (trace @ [(t2, [])]))" "sorted_wrt (\<le>) (t1 # map fst (trace @ [(t2, [])]))"
    using assms(1,3,5) by (auto simp: sorted_append list_all_iff)
  then have "of_nat (allowed_count client trace ?l) \<le> available ?l client t1 + refill_per_second ?l * (t2 - t1)"
    using l k by (intro allowed_count_bound [where K = ?K] run_limiter_ok new_limiter_ok) auto
  moreover have "available ?l client t1 \<le> of_nat max_req" using available_le [of ?l client t1] n(3) by simp
  ultimately show ?thesis by (simp add: new_limiter_def refill_per_second_def)
qed

text \<open>A client that was quiet for an hour: at two requests a minute it still gets no more than two at once.\<close>

theorem rate_limit_enforced_witness:
  "allowed_count ''a'' [(3600, ''a''), (3600, ''a''), (3600, ''a''), (3600, ''a'')]
     (run_limiter [(0, ''a''), (1, ''b'')] (new_limiter 2 60 8 0)) \<le> 2"
proof -
  have "(of_nat (allowed_count ''a'' [(3600, ''a''), (3600, ''a''), (3600, ''a''), (3600, ''a'')]
      (run_limiter [(0, ''a''), (1, ''b'')] (new_limiter 2 60 8 0))) :: rat)
     \<le> of_nat 2 + (of_nat 2 / of_int (max 1 60)) * (3600 - 3600)"
    by (rule rate_limit_enforced) (simp_all add: card_insert_if)
  then have "(of_nat (allowed_count ''a'' [(3600, ''a''), (3600, ''a''), (3600, ''a''), (3600, ''a'')]
      (run_limiter [(0, ''a''), (1, ''b'')] (new_limiter 2 60 8 0))) :: rat) \<le> of_nat 2" by simp
  then show ?thesis by (simp only: of_nat_le_iff)
qed

text \<open>
  The limiter's memory is bounded: after any trace, from a new limiter, it remembers at most
  \<open>max_tracked_clients\<close> clients, and no client twice.
\<close>

theorem rate_limiter_memory_bounded:
  "tracked_clients (run_limiter trace (new_limiter max_req win tracked t0)) \<le> max 1 tracked \<and>
   distinct (map fst (buckets (run_limiter trace (new_limiter max_req win tracked t0))))"
  using run_limiter_ok [OF new_limiter_ok, of trace max_req win tracked t0]
  by (auto simp: limiter_ok_def tracked_clients_def new_limiter_def max_def split: if_splits)

text \<open>
  A refused client that waits the time it was told is served: if a limiter reached from a new one
  refuses a request, then the client's next request is allowed when it comes at least the
  advertised number of seconds later, whatever the table still holds.
\<close>

theorem retry_after_sufficient:
  assumes "l = run_limiter trace (new_limiter max_req win tracked t0)" "0 < max_req"
    and "take_token now key l = (False, retry, l')"
    and "now + of_int (ceiling (max 1 retry)) \<le> later"
  shows "fst (take_token later key l')"
proof -
  have ok: "limiter_ok l" using assms(1) run_limiter_ok new_limiter_ok by simp
  have ok': "limiter_ok l'" using take_token_ok [OF ok, of now key] assms(3) by simp
  have m: "max_requests l = max_req" using assms(1) by (simp add: new_limiter_def)
  have pos: "0 < refill_per_second l" using m assms(2) by (simp add: refill_per_second_def)
  have m': "max_requests l' = max_req" "refill_per_second l' = refill_per_second l"
    using take_token_fields(1) [of now key l] refill_take_token [of now key l] assms(3) m by simp_all
  obtain b where b: "map_of (buckets l') key = Some b" "bucket_updated b = now"
      "retry = (1 - bucket_tokens b) / refill_per_second l"
    using assms(3) pos
    by (auto simp: take_token_def Let_def map_of_bucket_put current_updated refill_per_second_def split: if_splits)
  have "now + retry \<le> later" using assms(4) le_of_int_ceiling [of "max 1 retry"] by linarith
  then have "(1 - bucket_tokens b) / refill_per_second l \<le> later - now" using b(3) by simp
  then have "1 \<le> refilled l' later b"
    using pos b(2) by (simp add: refilled_def m' pos_divide_le_eq)
  moreover have "(1::rat) \<le> of_nat max_req" using assms(2) by (cases max_req) simp_all
  ultimately show ?thesis using b m' by (simp add: take_token_iff [OF ok'] available_def)
qed

theorem retry_after_sufficient_witness:
  "\<exists>retry l'. take_token 10 ''a'' (run_limiter [(0, ''a'')] (new_limiter 1 60 8 0)) = (False, retry, l') \<and>
     fst (take_token 60 ''a'' l')"
proof -
  let ?l = "\<lparr>max_requests = 1, window = 60, max_tracked_clients = 8, buckets = [(''a'', \<lparr>bucket_tokens = 0, bucket_updated = 0\<rparr>)], last_sweep = 0\<rparr>"
  have l: "run_limiter [(0, ''a'')] (new_limiter 1 60 8 0) = ?l"
    by (simp add: take_token_def new_limiter_def sweep_def refilled_def refill_per_second_def current_bucket_def Let_def)
  have sw: "sweep 10 ?l = ?l" by (simp add: sweep_def Let_def)
  have b: "current_bucket 10 ''a'' ?l = \<lparr>bucket_tokens = 1/6, bucket_updated = 10\<rparr>"
    by (simp add: current_bucket_def refilled_def refill_per_second_def)
  have d: "take_token 10 ''a'' (run_limiter [(0, ''a'')] (new_limiter 1 60 8 0)) =
      (False, 50, ?l\<lparr>buckets := [(''a'', \<lparr>bucket_tokens = 1/6, bucket_updated = 10\<rparr>)]\<rparr>)"
    unfolding l take_token_def sw by (simp add: Let_def b [unfolded One_nat_def] refill_per_second_def)
  with retry_after_sufficient [OF refl _ d, of 60] show ?thesis by simp
qed

end
