(* ===== verification/Timers.thy ===== *)
theory Timers
  imports Orbit_Prelude "HOL-Library.Multiset"
begin

text \<open>
  The connection timers of \<^verbatim>\<open>src/server/TimerManager.cpp\<close>: a queue of deadlines that keeps
  cancelled entries until they reach its front, and the table of the timers that still count. Times
  are nanoseconds of the steady clock, timeouts milliseconds, both integers; the clock is an
  argument of every operation that reads it, and each operation is one locked section.

  The interface \<open>deadline_queue\<close> is what the timers and the scheduler need of their containers
  (\<^verbatim>\<open>std::priority_queue\<close> there, \<^verbatim>\<open>std::multimap\<close> in the scheduler). A priority queue does not say which of several equal
  deadlines comes first; the model takes the one that was pushed first.
\<close>

section \<open>Deadline queues\<close>

fun deadline_insert :: "('a \<Rightarrow> int) \<Rightarrow> 'a \<Rightarrow> 'a list \<Rightarrow> 'a list" where
  "deadline_insert key x [] = [x]"
| "deadline_insert key x (y # q) = (if key x < key y then x # y # q else y # deadline_insert key x q)"

locale deadline_queue =
  fixes key :: "'a \<Rightarrow> int" and push :: "'a \<Rightarrow> 'a list \<Rightarrow> 'a list"
  assumes mset_push: "mset (push x q) = add_mset x (mset q)"
    and sorted_push: "sorted (map key q) \<Longrightarrow> sorted (map key (push x q))"
begin

lemma set_push [simp]: "set (push x q) = insert x (set q)"
  using mset_push by (metis set_mset_add_mset_insert set_mset_mset)

lemma length_push [simp]: "length (push x q) = Suc (length q)"
  using mset_push by (metis size_add_mset size_mset)

lemma mset_heapify: "mset (fold push xs q) = mset xs + mset q"
  by (induction xs arbitrary: q) (simp_all add: mset_push)

lemma sorted_heapify: "sorted (map key q) \<Longrightarrow> sorted (map key (fold push xs q))"
  by (induction xs arbitrary: q) (simp_all add: sorted_push)

lemma front_earliest: "sorted (map key (x # q)) \<Longrightarrow> y \<in> set (x # q) \<Longrightarrow> key x \<le> key y"
  by auto

lemma front_late: "sorted (map key (x # q)) \<Longrightarrow> now < key x \<Longrightarrow> y \<in> set (x # q) \<Longrightarrow> now < key y"
  using front_earliest by force

lemma drop_due: "sorted (map key q) \<Longrightarrow> dropWhile (\<lambda>x. key x \<le> now) q = filter (\<lambda>x. \<not> key x \<le> now) q"
proof (induction q)
  case (Cons a q)
  then have "\<not> key a \<le> now \<Longrightarrow> filter (\<lambda>x. \<not> key x \<le> now) q = q"
    by (force simp: filter_id_conv)
  with Cons show ?case by simp
qed simp

end

lemma mset_deadline_insert: "mset (deadline_insert key x q) = add_mset x (mset q)"
  by (induction q) auto

lemma set_deadline_insert: "set (deadline_insert key x q) = insert x (set q)"
  by (induction q) auto

lemma sorted_deadline_insert: "sorted (map key q) \<Longrightarrow> sorted (map key (deadline_insert key x q))"
  by (induction q) (auto simp: set_deadline_insert)

section \<open>The timer manager\<close>

record TimerEvent =
  expiration :: int
  timer_id :: "64 word"
  event_fd :: int

record LiveTimer =
  live_fd :: int
  live_expiration :: int

record TimerManager =
  timers :: "TimerEvent list"
  live :: "(64 word \<times> LiveTimer) list"
  next_timer_id :: "64 word"

definition new_timers :: TimerManager where
  "new_timers = \<lparr>timers = [], live = [], next_timer_id = 1\<rparr>"

abbreviation timer_push :: "TimerEvent \<Rightarrow> TimerEvent list \<Rightarrow> TimerEvent list" where
  "timer_push \<equiv> deadline_insert expiration"

interpretation timer_queue: deadline_queue expiration timer_push
  by unfold_locales (simp_all add: mset_deadline_insert sorted_deadline_insert)

definition kCompactionSlack :: nat where
  "kCompactionSlack = 64"

text \<open>\<^verbatim>\<open>unordered_map::emplace\<close> keeps an entry that is already there.\<close>

definition live_emplace :: "64 word \<Rightarrow> LiveTimer \<Rightarrow> (64 word \<times> LiveTimer) list \<Rightarrow> (64 word \<times> LiveTimer) list" where
  "live_emplace i t l = (if map_of l i = None then l @ [(i, t)] else l)"

definition live_erase :: "64 word \<Rightarrow> (64 word \<times> LiveTimer) list \<Rightarrow> (64 word \<times> LiveTimer) list" where
  "live_erase i l = filter (\<lambda>(k, _). k \<noteq> i) l"

definition live_events :: "(64 word \<times> LiveTimer) list \<Rightarrow> TimerEvent list" where
  "live_events l = map (\<lambda>(i, t). \<lparr>expiration = live_expiration t, timer_id = i, event_fd = live_fd t\<rparr>) l"

definition compact_if_needed_locked :: "TimerManager \<Rightarrow> TimerManager" where
  "compact_if_needed_locked m =
     (if length (timers m) \<le> 2 * length (live m) + kCompactionSlack then m
      else m\<lparr>timers := fold timer_push (live_events (live m)) []\<rparr>)"

definition add_timer :: "int \<Rightarrow> int \<Rightarrow> int \<Rightarrow> TimerManager \<Rightarrow> 64 word \<times> TimerManager" where
  "add_timer fd timeout now m =
     (let i = next_timer_id m + 1;
          due = now + timeout * 1000000;
          m1 = m\<lparr>next_timer_id := i, live := live_emplace i \<lparr>live_fd = fd, live_expiration = due\<rparr> (live m)\<rparr>;
          m2 = m1\<lparr>timers := timer_push \<lparr>expiration = due, timer_id = i, event_fd = fd\<rparr> (timers m1)\<rparr>
      in (i, compact_if_needed_locked m2))"

definition cancel_timer :: "64 word \<Rightarrow> TimerManager \<Rightarrow> TimerManager" where
  "cancel_timer i m = compact_if_needed_locked (m\<lparr>live := live_erase i (live m)\<rparr>)"

fun drop_cancelled :: "(64 word \<times> LiveTimer) list \<Rightarrow> TimerEvent list \<Rightarrow> TimerEvent list" where
  "drop_cancelled l [] = []"
| "drop_cancelled l (e # q) = (if map_of l (timer_id e) = None then drop_cancelled l q else e # q)"

definition drop_cancelled_front_locked :: "TimerManager \<Rightarrow> TimerManager" where
  "drop_cancelled_front_locked m = m\<lparr>timers := drop_cancelled (live m) (timers m)\<rparr>"

text \<open>\<^verbatim>\<open>duration_cast\<close> truncates towards zero, \<^verbatim>\<open>static_cast<int>\<close> keeps 32 bits.\<close>

definition to_milliseconds :: "int \<Rightarrow> int" where
  "to_milliseconds d = (if d < 0 then - ((- d) div 1000000) else d div 1000000)"

definition poll_timeout :: "int \<Rightarrow> int" where
  "poll_timeout d =
     (let diff = to_milliseconds d in if diff < 0 then 0 else sint (word_of_int diff :: 32 word))"

definition get_next_timeout :: "int \<Rightarrow> TimerManager \<Rightarrow> int \<times> TimerManager" where
  "get_next_timeout now m =
     (let m' = drop_cancelled_front_locked m
      in (case timers m' of [] \<Rightarrow> - 1 | e # _ \<Rightarrow> poll_timeout (expiration e - now), m'))"

fun expire_loop :: "int \<Rightarrow> TimerEvent list \<Rightarrow> (64 word \<times> LiveTimer) list \<Rightarrow>
    int list \<times> TimerEvent list \<times> (64 word \<times> LiveTimer) list" where
  "expire_loop now [] l = ([], [], l)"
| "expire_loop now (e # q) l =
     (if expiration e > now then ([], e # q, l)
      else case map_of l (timer_id e) of
          None \<Rightarrow> expire_loop now q l
        | Some t \<Rightarrow>
            (case expire_loop now q (live_erase (timer_id e) l) of (fds, q', l') \<Rightarrow> (live_fd t # fds, q', l')))"

definition expire_timers :: "int \<Rightarrow> TimerManager \<Rightarrow> int list \<times> TimerManager" where
  "expire_timers now m =
     (case expire_loop now (timers m) (live m) of (fds, q, l) \<Rightarrow> (fds, m\<lparr>timers := q, live := l\<rparr>))"

text \<open>The callbacks run after the lock is released, so they may use the manager themselves.\<close>

definition handle_expired_timers ::
  "(int \<Rightarrow> TimerManager \<times> 's \<Rightarrow> TimerManager \<times> 's) \<Rightarrow> int \<Rightarrow> TimerManager \<times> 's \<Rightarrow> TimerManager \<times> 's" where
  "handle_expired_timers on_timeout now ms =
     (case expire_timers now (fst ms) of (fds, m) \<Rightarrow> fold on_timeout fds (m, snd ms))"

definition pending_entries :: "TimerManager \<Rightarrow> nat" where
  "pending_entries m = length (timers m)"

definition live_timers :: "TimerManager \<Rightarrow> nat" where
  "live_timers m = length (live m)"

section \<open>Operations and their observable results\<close>

datatype timer_op = AddTimer int int int | CancelTimer "64 word" | NextTimeout int | ExpireTimers int

datatype timer_out = OutId "64 word" | OutNone | OutTimeout int | OutFired "int multiset"

fun timer_step :: "timer_op \<Rightarrow> TimerManager \<Rightarrow> timer_out \<times> TimerManager" where
  "timer_step (AddTimer fd timeout now) m = (case add_timer fd timeout now m of (i, m') \<Rightarrow> (OutId i, m'))"
| "timer_step (CancelTimer i) m = (OutNone, cancel_timer i m)"
| "timer_step (NextTimeout now) m = (case get_next_timeout now m of (r, m') \<Rightarrow> (OutTimeout r, m'))"
| "timer_step (ExpireTimers now) m = (case expire_timers now m of (fds, m') \<Rightarrow> (OutFired (mset fds), m'))"

fun run_timers :: "timer_op list \<Rightarrow> TimerManager \<Rightarrow> timer_out list \<times> TimerManager" where
  "run_timers [] m = ([], m)"
| "run_timers (op # ops) m =
     (case timer_step op m of (out, m1) \<Rightarrow> case run_timers ops m1 of (outs, m2) \<Rightarrow> (out # outs, m2))"

text \<open>
  The specification has no queue: a table of the timers that count, the last id given out, and
  results read off the table.
\<close>

type_synonym timer_spec = "(64 word \<times> LiveTimer) list \<times> 64 word"

fun spec_step :: "timer_op \<Rightarrow> timer_spec \<Rightarrow> timer_out \<times> timer_spec" where
  "spec_step (AddTimer fd timeout now) (l, n) =
     (OutId (n + 1), l @ [(n + 1, \<lparr>live_fd = fd, live_expiration = now + timeout * 1000000\<rparr>)], n + 1)"
| "spec_step (CancelTimer i) (l, n) = (OutNone, live_erase i l, n)"
| "spec_step (NextTimeout now) (l, n) =
     (OutTimeout (if l = [] then - 1 else poll_timeout (Min (set (map (live_expiration \<circ> snd) l)) - now)), l, n)"
| "spec_step (ExpireTimers now) (l, n) =
     (OutFired (mset (map (live_fd \<circ> snd) (filter (\<lambda>(_, t). live_expiration t \<le> now) l))),
      filter (\<lambda>(_, t). \<not> live_expiration t \<le> now) l, n)"

fun run_spec :: "timer_op list \<Rightarrow> timer_spec \<Rightarrow> timer_out list \<times> timer_spec" where
  "run_spec [] s = ([], s)"
| "run_spec (op # ops) s =
     (case spec_step op s of (out, s1) \<Rightarrow> case run_spec ops s1 of (outs, s2) \<Rightarrow> (out # outs, s2))"

definition timer_abs :: "TimerManager \<Rightarrow> timer_spec" where
  "timer_abs m = (live m, next_timer_id m)"

fun is_add :: "timer_op \<Rightarrow> bool" where
  "is_add (AddTimer _ _ _) = True"
| "is_add _ = False"


section \<open>The invariant\<close>

text \<open>
  The queue is sorted and every timer that counts has its entry in it; while the ids have not
  wrapped around, no id is used twice, so an entry of the queue whose id is live is the entry of
  that timer.
\<close>

definition timers_ok :: "TimerManager \<Rightarrow> bool" where
  "timers_ok m \<longleftrightarrow>
     sorted (map expiration (timers m)) \<and> distinct (map fst (live m)) \<and>
     set (live_events (live m)) \<subseteq> set (timers m) \<and>
     distinct (map timer_id (timers m)) \<and> (\<forall>e\<in>set (timers m). timer_id e \<le> next_timer_id m)"

lemma ids_live_events [simp]: "map timer_id (live_events l) = map fst l"
  by (simp add: live_events_def case_prod_beta)

lemma live_events_Cons [simp]:
  "live_events ((i, t) # l) = \<lparr>expiration = live_expiration t, timer_id = i, event_fd = live_fd t\<rparr> # live_events l"
  by (simp add: live_events_def)

lemma live_events_simps [simp]: "live_events [] = []" "live_events (l @ l') = live_events l @ live_events l'"
  by (simp_all add: live_events_def)

lemma set_live_erase [simp]: "set (live_erase i l) = {(k, t) \<in> set l. k \<noteq> i}"
  by (auto simp: live_erase_def)

lemma distinct_live_erase: "distinct (map fst l) \<Longrightarrow> distinct (map fst (live_erase i l))"
  by (simp add: live_erase_def distinct_map_filter)

lemma live_events_subset: "set l \<subseteq> set l' \<Longrightarrow> set (live_events l) \<subseteq> set (live_events l')"
  by (auto simp: live_events_def)

lemma live_timer_eta [simp]: "\<lparr>live_fd = live_fd t, live_expiration = live_expiration t\<rparr> = t"
  by (cases t) simp

lemma word_less_inc:
  fixes x :: "64 word"
  assumes "x \<noteq> - 1"
  shows "x < x + 1" "unat (x + 1) = Suc (unat x)"
proof -
  have "1 + x \<noteq> 0" using assms by (metis add.commute eq_neg_iff_add_eq_0)
  then show "unat (x + 1) = Suc (unat x)" using unatSuc by (metis add.commute)
  then show "x < x + 1" by (simp add: word_less_nat_alt)
qed

lemma live_event_iff:
  "e \<in> set (live_events l) \<longleftrightarrow> (timer_id e, \<lparr>live_fd = event_fd e, live_expiration = expiration e\<rparr>) \<in> set l"
proof
  assume "e \<in> set (live_events l)"
  then show "(timer_id e, \<lparr>live_fd = event_fd e, live_expiration = expiration e\<rparr>) \<in> set l"
    by (auto simp: live_events_def)
next
  assume "(timer_id e, \<lparr>live_fd = event_fd e, live_expiration = expiration e\<rparr>) \<in> set l"
  then show "e \<in> set (live_events l)"
    by (force simp: live_events_def intro: image_eqI [rotated])
qed

lemma same_id: "distinct (map timer_id q) \<Longrightarrow> e \<in> set q \<Longrightarrow> e' \<in> set q \<Longrightarrow> timer_id e = timer_id e' \<Longrightarrow> e = e'"
  by (auto simp: distinct_map inj_on_def)

lemma live_id: "map_of l i \<noteq> None \<longleftrightarrow> i \<in> timer_id ` set (live_events l)"
  by (metis ids_live_events image_set map_of_eq_None_iff)

lemma compact_fields [simp]:
  "live (compact_if_needed_locked m) = live m" "next_timer_id (compact_if_needed_locked m) = next_timer_id m"
  by (simp_all add: compact_if_needed_locked_def)

lemma compact_ok:
  assumes "timers_ok m"
  shows "timers_ok (compact_if_needed_locked m)"
proof -
  let ?q = "fold timer_push (live_events (live m)) []"
  have m: "mset ?q = mset (live_events (live m))" by (simp add: timer_queue.mset_heapify)
  have "sorted (map expiration ?q)" by (simp add: timer_queue.sorted_heapify)
  moreover have "set ?q = set (live_events (live m))" using m mset_eq_setD by blast
  moreover have "distinct (map timer_id ?q)"
  proof (subst mset_eq_imp_distinct_iff)
    show "mset (map timer_id ?q) = mset (map timer_id (live_events (live m)))" by (simp only: mset_map m)
    show "distinct (map timer_id (live_events (live m)))" using assms by (simp add: timers_ok_def)
  qed
  ultimately show ?thesis
    using assms by (auto simp: timers_ok_def compact_if_needed_locked_def)
qed

lemma cancel_ok: "timers_ok m \<Longrightarrow> timers_ok (cancel_timer i m)"
  unfolding cancel_timer_def
  by (rule compact_ok) (auto simp: timers_ok_def distinct_live_erase live_event_iff)

text \<open>A new id: it is above every id in use, so the table and the queue do not know it.\<close>

lemma fresh_id:
  assumes "timers_ok m" "next_timer_id m \<noteq> - 1"
  shows "next_timer_id m + 1 \<notin> timer_id ` set (timers m)" "map_of (live m) (next_timer_id m + 1) = None"
proof -
  have lt: "next_timer_id m < next_timer_id m + 1"
    using assms(2) by (rule word_less_inc)
  then show n: "next_timer_id m + 1 \<notin> timer_id ` set (timers m)"
    using assms(1) by (force simp: timers_ok_def)
  have "timer_id ` set (live_events (live m)) \<subseteq> timer_id ` set (timers m)"
    using assms(1) by (auto simp: timers_ok_def)
  with n show "map_of (live m) (next_timer_id m + 1) = None" using live_id by blast
qed

lemma add_ok:
  assumes "timers_ok m" "next_timer_id m \<noteq> - 1"
  shows "timers_ok (snd (add_timer fd timeout now m))"
proof -
  have le: "next_timer_id m \<le> next_timer_id m + 1"
    using word_less_inc(1) [OF assms(2)] by simp
  let ?e = "\<lparr>expiration = now + timeout * 1000000, timer_id = next_timer_id m + 1, event_fd = fd\<rparr>"
  have "mset (map timer_id (timer_push ?e (timers m))) = mset (timer_id ?e # map timer_id (timers m))"
    by (simp add: mset_deadline_insert)
  then have "distinct (map timer_id (timer_push ?e (timers m))) \<longleftrightarrow> distinct (timer_id ?e # map timer_id (timers m))"
    by (rule mset_eq_imp_distinct_iff)
  then have "distinct (map timer_id (timer_push ?e (timers m)))"
    using fresh_id(1) [OF assms] assms(1) by (simp add: timers_ok_def)
  moreover have "sorted (map expiration (timer_push ?e (timers m)))"
    using assms(1) by (simp add: timers_ok_def timer_queue.sorted_push)
  moreover have "\<forall>e\<in>set (timers m). timer_id e \<le> next_timer_id m + 1"
    using assms(1) le by (auto simp: timers_ok_def)
  moreover have "next_timer_id m + 1 \<notin> fst ` set (live m)"
    using fresh_id(2) [OF assms] by (simp add: map_of_eq_None_iff)
  ultimately show ?thesis
    unfolding add_timer_def Let_def snd_conv
    using assms(1) fresh_id(2) [OF assms]
    by (intro compact_ok) (auto simp: timers_ok_def live_emplace_def)
qed

text \<open>Dropping the cancelled front leaves the earliest live timer in front.\<close>

lemma drop_cancelled_props:
  "\<exists>dropped. q = dropped @ drop_cancelled l q \<and> (\<forall>e\<in>set dropped. map_of l (timer_id e) = None)"
proof (induction q)
  case (Cons e q)
  then obtain d where "q = d @ drop_cancelled l q" "\<forall>e\<in>set d. map_of l (timer_id e) = None" by blast
  then have "map_of l (timer_id e) = None \<Longrightarrow> e # q = (e # d) @ drop_cancelled l (e # q) \<and> (\<forall>e\<in>set (e # d). map_of l (timer_id e) = None)"
    by simp
  then show ?case by (cases "map_of l (timer_id e) = None") (blast, auto)
qed simp

lemma drop_cancelled_keeps:
  assumes "set (live_events l) \<subseteq> set q"
  shows "set (live_events l) \<subseteq> set (drop_cancelled l q)"
proof
  fix e assume e: "e \<in> set (live_events l)"
  obtain d where d: "q = d @ drop_cancelled l q" "\<forall>e\<in>set d. map_of l (timer_id e) = None"
    using drop_cancelled_props by blast
  have "e \<in> set (d @ drop_cancelled l q)" using assms e d(1) by (metis subsetD)
  moreover have "map_of l (timer_id e) \<noteq> None" using e live_id by blast
  ultimately show "e \<in> set (drop_cancelled l q)" using d(2) by auto
qed

lemma drop_cancelled_front: "drop_cancelled l q = e # q' \<Longrightarrow> map_of l (timer_id e) \<noteq> None"
  by (induction q) (auto split: if_splits)

lemma next_ok:
  assumes "timers_ok m"
  shows "timers_ok (snd (get_next_timeout now m))"
proof -
  obtain d where d: "timers m = d @ drop_cancelled (live m) (timers m)"
    using drop_cancelled_props by blast
  have "sorted (map expiration (d @ drop_cancelled (live m) (timers m)))"
    "distinct (map timer_id (d @ drop_cancelled (live m) (timers m)))"
    "\<forall>e\<in>set (d @ drop_cancelled (live m) (timers m)). timer_id e \<le> next_timer_id m"
    using assms unfolding d [symmetric] by (simp_all add: timers_ok_def)
  then show ?thesis
    using assms drop_cancelled_keeps [of "live m" "timers m"]
    by (simp add: timers_ok_def get_next_timeout_def drop_cancelled_front_locked_def Let_def sorted_append)
qed


text \<open>The expiry loop fires the timers of the table that are due, and only those.\<close>

lemma live_erase_absent: "map_of l i = None \<Longrightarrow> live_erase i l = l"
  by (induction l) (auto simp: live_erase_def split: if_splits)

lemma mset_live_erase:
  "distinct (map fst l) \<Longrightarrow> map_of l i = Some t \<Longrightarrow> mset l = add_mset (i, t) (mset (live_erase i l))"
proof (induction l)
  case (Cons x l)
  then show ?case
    using live_erase_absent [of l i]
    by (cases x) (auto simp: live_erase_def map_of_eq_None_iff image_iff split: if_splits simp flip: mset_filter)
qed simp

lemma live_late_all:
  assumes "sorted (map expiration (e # q))" "now < expiration e" "set (live_events l) \<subseteq> set (e # q)" "(i, t) \<in> set l"
  shows "now < live_expiration t"
proof -
  have "\<lparr>expiration = live_expiration t, timer_id = i, event_fd = live_fd t\<rparr> \<in> set (live_events l)"
    using assms(4) by (simp add: live_event_iff)
  then show ?thesis using timer_queue.front_late [OF assms(1,2)] assms(3) by fastforce
qed

lemma live_erase_subset:
  assumes "set (live_events l) \<subseteq> set (e # q)" "distinct (map timer_id (e # q))"
  shows "set (live_events (live_erase (timer_id e) l)) \<subseteq> set q"
  using assms by (force simp: live_event_iff subset_iff)

lemma expire_loop_spec:
  assumes "sorted (map expiration q)" "distinct (map timer_id q)" "distinct (map fst l)" "set (live_events l) \<subseteq> set q"
    and "expire_loop now q l = (fds, q', l')"
  shows "mset fds = mset (map (live_fd \<circ> snd) (filter (\<lambda>(_, t). live_expiration t \<le> now) l)) \<and>
         l' = filter (\<lambda>(_, t). \<not> live_expiration t \<le> now) l \<and>
         q' = dropWhile (\<lambda>e. expiration e \<le> now) q"
  using assms
proof (induction now q l arbitrary: fds q' l' rule: expire_loop.induct)
  case (1 now l)
  then show ?case by (cases l) auto
next
  case (2 now e q l)
  show ?case
  proof (cases "expiration e > now")
    case True
    have "now < live_expiration t" if "(i, t) \<in> set l" for i t
      by (rule live_late_all [OF 2(3) True 2(6) that])
    then have "filter (\<lambda>(_, t). live_expiration t \<le> now) l = []" "filter (\<lambda>(_, t). \<not> live_expiration t \<le> now) l = l"
      by (fastforce simp: filter_empty_conv filter_id_conv)+
    then show ?thesis using True 2(7) by auto
  next
    case due: False
    show ?thesis
    proof (cases "map_of l (timer_id e)")
      case None
      then have "set (live_events l) \<subseteq> set q" using 2(6) live_id [of l "timer_id e"] by auto
      then show ?thesis using 2(1) [OF due None] 2(3-7) due None by simp
    next
      case (Some t)
      let ?l = "live_erase (timer_id e) l"
      obtain fds1 q1 l1 where r: "expire_loop now q ?l = (fds1, q1, l1)" by (metis prod_cases3)
      have t: "live_expiration t \<le> now"
      proof -
        have "\<lparr>expiration = live_expiration t, timer_id = timer_id e, event_fd = live_fd t\<rparr> \<in> set (e # q)"
          using map_of_SomeD [OF Some] 2(6) by (auto simp: subset_iff live_event_iff)
        then have "\<lparr>expiration = live_expiration t, timer_id = timer_id e, event_fd = live_fd t\<rparr> = e"
          using same_id [OF 2(4)] by simp
        with due show ?thesis by (metis TimerEvent.select_convs(1) linorder_not_less)
      qed
      have ih: "mset fds1 = mset (map (live_fd \<circ> snd) (filter (\<lambda>(_, t). live_expiration t \<le> now) ?l)) \<and>
         l1 = filter (\<lambda>(_, t). \<not> live_expiration t \<le> now) ?l \<and> q1 = dropWhile (\<lambda>e. expiration e \<le> now) q"
        using 2(2) [OF due Some _ _ _ live_erase_subset r] 2(3-6) distinct_live_erase by (simp add: comp_def)
      have "filter (\<lambda>(_, t). \<not> live_expiration t \<le> now) ?l = filter (\<lambda>(_, t). \<not> live_expiration t \<le> now) l"
        unfolding live_erase_def filter_filter
        using Some t map_of_is_SomeI [OF 2(5), of "timer_id e"] by (intro filter_cong) auto
      moreover have "mset fds = add_mset (live_fd t) (mset fds1)" "q' = q1" "l' = l1"
        using 2(7) due Some r by auto
      ultimately show ?thesis
        using ih t due mset_live_erase [OF 2(5) Some] by (simp add: mset_filter comp_def)
    qed
  qed
qed

lemma expire_ok:
  assumes "timers_ok m"
  shows "timers_ok (snd (expire_timers now m))"
proof -
  obtain fds q l where r: "expire_loop now (timers m) (live m) = (fds, q, l)" by (metis prod_cases3)
  have s: "l = filter (\<lambda>(_, t). \<not> live_expiration t \<le> now) (live m)" "q = dropWhile (\<lambda>e. expiration e \<le> now) (timers m)"
    using expire_loop_spec [OF _ _ _ _ r] assms by (simp_all add: timers_ok_def)
  have q: "q = filter (\<lambda>e. \<not> expiration e \<le> now) (timers m)"
    using assms s(2) by (simp add: timers_ok_def timer_queue.drop_due)
  show ?thesis
    using assms unfolding expire_timers_def r
    by (auto simp: timers_ok_def s(1) q distinct_map_filter live_event_iff sorted_filter)
qed


section \<open>The queue cannot be seen from outside\<close>

lemma next_timeout_spec:
  assumes "timers_ok m"
  shows "fst (get_next_timeout now m) =
     (if live m = [] then - 1 else poll_timeout (Min (set (map (live_expiration \<circ> snd) (live m))) - now))"
proof (cases "drop_cancelled (live m) (timers m)")
  case Nil
  then have "live m = []" using drop_cancelled_keeps [of "live m" "timers m"] assms
    by (auto simp: timers_ok_def live_events_def)
  with Nil show ?thesis by (simp add: get_next_timeout_def drop_cancelled_front_locked_def)
next
  case (Cons e q)
  obtain d where d: "timers m = d @ e # q" using drop_cancelled_props [of "timers m" "live m"] Cons by auto
  have sorted: "sorted (map expiration (e # q))" and dist: "distinct (map timer_id (d @ e # q))"
    using assms unfolding timers_ok_def d by (simp_all add: sorted_append)
  have sub: "set (live_events (live m)) \<subseteq> set (e # q)"
    using drop_cancelled_keeps [of "live m" "timers m"] assms Cons by (simp add: timers_ok_def)
  obtain e' where "e' \<in> set (live_events (live m))" "timer_id e' = timer_id e"
    using drop_cancelled_front [OF Cons] live_id [of "live m" "timer_id e"] by auto
  then have mem: "e \<in> set (live_events (live m))" using sub same_id [OF dist, of e' e] by auto
  have "Min (set (map (live_expiration \<circ> snd) (live m))) = expiration e"
  proof (rule Min_eqI)
    show "expiration e \<in> set (map (live_expiration \<circ> snd) (live m))"
      using mem by (force simp: live_event_iff)
    fix y assume "y \<in> set (map (live_expiration \<circ> snd) (live m))"
    then obtain i t where "(i, t) \<in> set (live m)" "y = live_expiration t" by auto
    then have "\<lparr>expiration = y, timer_id = i, event_fd = live_fd t\<rparr> \<in> set (e # q)"
      using sub by (auto simp: subset_iff live_event_iff)
    then show "expiration e \<le> y" using timer_queue.front_earliest [OF sorted] by fastforce
  qed simp
  moreover have "live m \<noteq> []" using mem by auto
  ultimately show ?thesis using Cons by (simp add: get_next_timeout_def drop_cancelled_front_locked_def)
qed

lemma timer_step_refines:
  assumes "timers_ok m" "is_add op \<Longrightarrow> next_timer_id m \<noteq> - 1" "timer_step op m = (out, m')"
  shows "spec_step op (timer_abs m) = (out, timer_abs m')" "timers_ok m'"
    "unat (next_timer_id m') = unat (next_timer_id m) + (if is_add op then 1 else 0)"
proof -
  have "spec_step op (timer_abs m) = (out, timer_abs m') \<and> timers_ok m' \<and>
      unat (next_timer_id m') = unat (next_timer_id m) + (if is_add op then 1 else 0)"
  proof (cases op)
    case (AddTimer fd timeout now)
    then have "next_timer_id m \<noteq> - 1" using assms(2) by simp
    then show ?thesis
      using assms(3) AddTimer fresh_id(2) [OF assms(1)] add_ok [OF assms(1), of fd timeout now] word_less_inc(2)
      by (auto simp: add_timer_def timer_abs_def live_emplace_def Let_def)
  next
    case (CancelTimer i)
    then show ?thesis using assms cancel_ok by (auto simp: cancel_timer_def timer_abs_def)
  next
    case (NextTimeout now)
    then show ?thesis
      using assms next_ok [OF assms(1), of now] next_timeout_spec [OF assms(1), of now]
      by (auto simp: timer_abs_def get_next_timeout_def drop_cancelled_front_locked_def Let_def split: if_splits)
  next
    case (ExpireTimers now)
    obtain fds q l where r: "expire_loop now (timers m) (live m) = (fds, q, l)" by (metis prod_cases3)
    have "mset fds = mset (map (live_fd \<circ> snd) (filter (\<lambda>(_, t). live_expiration t \<le> now) (live m))) \<and>
        l = filter (\<lambda>(_, t). \<not> live_expiration t \<le> now) (live m)"
      using expire_loop_spec [OF _ _ _ _ r] assms(1) by (simp add: timers_ok_def)
    then show ?thesis
      using assms(3) ExpireTimers expire_ok [OF assms(1), of now]
      by (auto simp: timer_abs_def expire_timers_def r)
  qed
  then show "spec_step op (timer_abs m) = (out, timer_abs m')" "timers_ok m'"
    "unat (next_timer_id m') = unat (next_timer_id m) + (if is_add op then 1 else 0)" by simp_all
qed

lemma run_timers_refines:
  assumes "timers_ok m" "unat (next_timer_id m) + length (filter is_add ops) < 2 ^ 64" "run_timers ops m = (outs, m')"
  shows "run_spec ops (timer_abs m) = (outs, timer_abs m') \<and> timers_ok m'"
  using assms
proof (induction ops arbitrary: m outs)
  case (Cons op ops)
  obtain out m1 where s: "timer_step op m = (out, m1)" by force
  have nz: "is_add op \<Longrightarrow> next_timer_id m \<noteq> - 1"
  proof
    assume "is_add op" "next_timer_id m = - 1"
    then show False using Cons.prems(2) by (simp add: unsigned_minus_1_eq_mask mask_eq_exp_minus_1)
  qed
  note ref = timer_step_refines [OF Cons.prems(1) nz s]
  obtain outs1 where r: "run_timers ops m1 = (outs1, m')" "outs = out # outs1"
    using Cons.prems(3) s by (auto split: prod.splits)
  have "run_spec ops (timer_abs m1) = (outs1, timer_abs m') \<and> timers_ok m'"
    using Cons.IH [OF ref(2) _ r(1)] ref(3) Cons.prems(2) by (auto split: if_splits)
  then show ?case using ref(1) s r Cons.prems(3) by auto
qed simp

lemma new_timers_ok: "timers_ok new_timers"
  by (simp add: timers_ok_def new_timers_def)

lemma compact_bound:
  "pending_entries (compact_if_needed_locked m) \<le> 2 * live_timers (compact_if_needed_locked m) + kCompactionSlack"
proof -
  have "length (fold timer_push (live_events (live m)) []) = length (live m)"
    using arg_cong [OF timer_queue.mset_heapify [of "live_events (live m)" "[]"], of size] by (simp add: live_events_def)
  then show ?thesis by (simp add: compact_if_needed_locked_def pending_entries_def live_timers_def)
qed

lemma expire_loop_shrinks: "length (fst (snd (expire_loop now q l))) \<le> length q"
  by (induction now q l rule: expire_loop.induct) (auto split: option.splits prod.splits)

lemma poll_timeout_bounds:
  assumes "d < 2 ^ 31 * 1000000"
  shows "0 \<le> poll_timeout d \<and> poll_timeout d * 1000000 \<le> max 0 d"
proof (cases "to_milliseconds d < 0")
  case False
  have "d div 1000000 * 1000000 \<le> d"
    using div_mult_mod_eq [of d 1000000] pos_mod_sign [of 1000000 d] by linarith
  then have "d div 1000000 < 2 ^ 31" using assms by simp
  moreover have "- ((- d) div 1000000) \<le> 0" if "d < 0" using that by (simp add: pos_imp_zdiv_nonneg_iff)
  ultimately have u: "to_milliseconds d < 2 ^ 31"
    unfolding to_milliseconds_def by (auto intro: le_less_trans)
  have "sint (word_of_int (to_milliseconds d) :: 32 word) = to_milliseconds d"
    using False u by (simp add: sint_sbintrunc' signed_take_bit_int_eq_self)
  then show ?thesis using False by (simp add: poll_timeout_def to_milliseconds_def Let_def split: if_splits)
qed (simp add: poll_timeout_def)

section \<open>Properties\<close>

text \<open>
  C30: The lazily cleaned queue of the timer manager cannot be told from a plain table: as long as fewer
  than \<open>2\<^sup>64 - 1\<close> timers have been added, every sequence of operations gives the same ids, the
  same timeouts and fires the same descriptors as the specification, in which a cancelled timer is
  gone at once, \<open>get_next_timeout\<close> is the least deadline of the table, and
  \<open>handle_expired_timers\<close> fires exactly the timers that are due, each once.
\<close>

theorem timers_refine_table:
  assumes "length (filter is_add ops) < 2 ^ 64 - 1" and "run_timers ops new_timers = (outs, m)"
  shows "run_spec ops ([], 1) = (outs, live m, next_timer_id m)"
  using run_timers_refines [OF new_timers_ok _ assms(2)] assms(1)
  by (simp add: timer_abs_def new_timers_def)

theorem timers_refine_table_witness:
  "\<exists>m. run_timers [AddTimer 7 5 0, AddTimer 8 3 0, CancelTimer 3, NextTimeout 0, ExpireTimers 5000000] new_timers =
     ([OutId 2, OutId 3, OutNone, OutTimeout 5, OutFired {#7#}], m) \<and> live m = []"
proof -
  let ?ops = "[AddTimer 7 5 0, AddTimer 8 3 0, CancelTimer 3, NextTimeout 0, ExpireTimers 5000000]"
  obtain outs m where r: "run_timers ?ops new_timers = (outs, m)" by force
  have "run_spec ?ops ([], 1) = ([OutId 2, OutId 3, OutNone, OutTimeout 5, OutFired {#7#}], [], 3)"
    by (simp add: live_erase_def poll_timeout_def to_milliseconds_def)
  with timers_refine_table [OF _ r] r show ?thesis by simp
qed

text \<open>
  The event loop never sleeps past a deadline: in any state reached by fewer than \<open>2\<^sup>64 - 1\<close> adds,
  with all deadlines less than \<open>2\<^sup>31\<close> milliseconds ahead, the timeout it is given is not negative when a
  timer is live and ends no later than that timer's deadline (or at once, when that has passed).
\<close>

theorem next_timeout_never_late:
  assumes "length (filter is_add ops) < 2 ^ 64 - 1" and "run_timers ops new_timers = (outs, m)"
    and "list_all (\<lambda>(_, t). live_expiration t - now < 2 ^ 31 * 1000000) (live m)" and "(i, t) \<in> set (live m)"
  shows "0 \<le> fst (get_next_timeout now m) \<and> now + fst (get_next_timeout now m) * 1000000 \<le> max now (live_expiration t)"
proof -
  let ?S = "set (map (live_expiration \<circ> snd) (live m))"
  have ok: "timers_ok m" using run_timers_refines [OF new_timers_ok _ assms(2)] assms(1) by (simp add: new_timers_def)
  have ne: "?S \<noteq> {}" "live_expiration t \<in> ?S" using assms(4) by force+
  then have "Min ?S \<le> live_expiration t" "Min ?S \<in> ?S" by (simp, metis List.finite_set Min_in)
  moreover from this(2) have "Min ?S - now < 2 ^ 31 * 1000000" using assms(3) by (auto simp: list_all_iff)
  ultimately show ?thesis
    using poll_timeout_bounds [of "Min ?S - now"] next_timeout_spec [OF ok, of now] assms(4) by auto
qed

theorem next_timeout_never_late_witness:
  "0 \<le> fst (get_next_timeout 2000000 (snd (run_timers [AddTimer 7 5 0] new_timers))) \<and>
   2000000 + fst (get_next_timeout 2000000 (snd (run_timers [AddTimer 7 5 0] new_timers))) * 1000000 \<le> 5000000"
proof -
  let ?t = "\<lparr>live_fd = 7, live_expiration = 5000000\<rparr>"
  let ?m = "\<lparr>timers = [\<lparr>expiration = 5000000, timer_id = 2, event_fd = 7\<rparr>], live = [(2, ?t)], next_timer_id = 2\<rparr>"
  have r: "run_timers [AddTimer 7 5 0] new_timers = ([OutId 2], ?m)"
    by (simp add: add_timer_def new_timers_def live_emplace_def compact_if_needed_locked_def kCompactionSlack_def Let_def)
  from next_timeout_never_late [OF _ r, of 2000000 2 ?t] show ?thesis unfolding r by simp
qed

text \<open>
  The queue does not grow with the number of cancelled timers: after every \<open>add_timer\<close> and
  \<open>cancel_timer\<close> it holds at most twice the live timers and 64 entries more, and the other
  operations never add to it.
\<close>

theorem timer_queue_bounded:
  "pending_entries (snd (add_timer fd timeout now m)) \<le> 2 * live_timers (snd (add_timer fd timeout now m)) + 64 \<and>
   pending_entries (cancel_timer i m) \<le> 2 * live_timers (cancel_timer i m) + 64 \<and>
   pending_entries (snd (expire_timers now m)) \<le> pending_entries m \<and>
   pending_entries (snd (get_next_timeout now m)) \<le> pending_entries m"
proof -
  have "length (drop_cancelled (live m) (timers m)) \<le> length (timers m)"
    using drop_cancelled_props [of "timers m" "live m"] by (metis length_append le_add2)
  moreover have "pending_entries (snd (expire_timers now m)) \<le> pending_entries m"
    using expire_loop_shrinks [of now "timers m" "live m"]
    by (auto simp: expire_timers_def pending_entries_def split: prod.splits)
  ultimately show ?thesis
    unfolding add_timer_def cancel_timer_def Let_def snd_conv
    using compact_bound
    by (auto simp: kCompactionSlack_def get_next_timeout_def drop_cancelled_front_locked_def pending_entries_def Let_def)
qed


text \<open>
  Firing alone can leave more cancelled entries than that: one due timer among 65 cancelled ones, and
  after it has fired the queue holds 65 entries for no live timer, until the next add or cancel.
\<close>

lemma firing_leaves_cancelled:
  assumes "m = \<lparr>timers = e # q, live = [(timer_id e, t)], next_timer_id = n\<rparr>"
    and "expiration e \<le> now" "\<forall>c\<in>set q. now < expiration c" "length q = 65"
  shows "pending_entries m \<le> 2 * live_timers m + 64"
    and "pending_entries (snd (expire_timers now m)) = 65" "live_timers (snd (expire_timers now m)) = 0"
  using assms
  by (cases q; auto simp: pending_entries_def live_timers_def expire_timers_def live_erase_def)+

end
