(* ===== verification/Scheduler.thy ===== *)
theory Scheduler
  imports Timers
begin

text \<open>
  The scheduler behind \<^verbatim>\<open>App::run_every\<close> and \<^verbatim>\<open>App::run_after\<close>, \<^verbatim>\<open>src/server/Scheduler.cpp\<close>.
  The timers' shared objects live in a store, a list of \<open>TimerState\<close>s indexed by the timer's number,
  which is also what a \<open>TimerHandle\<close> holds. The world is the scheduler's fields, that store, and the
  jobs that have been taken from the queue and not finished, each with how far it has come.

  Every locked section of \<open>add\<close>, \<open>start\<close>, \<open>stop\<close> and of the loop of \<open>run\<close>, and every
  phase of a job, is a function on the world; \<open>sched_step\<close> interleaves them in any order. The
  dispatcher is not in the scheduler: handing a job over succeeds or throws. The loop reads the clock
  up to three times in an iteration, and each reading is an argument. Times are in nanoseconds,
  delays and intervals in milliseconds. Waiting for the condition variable changes nothing.
\<close>

record TimerState =
  delay :: int
  interval :: int
  cancelled :: bool
  finished :: bool
  run_in_progress :: bool

text \<open>A job: taken from the queue, accepted by the dispatcher, in the callback, past the callback.\<close>

datatype phase = Taken | Queued | Executing | Skipped

record world =
  due :: "(int \<times> nat) list"
  not_started :: "nat list"
  loop_running :: bool
  states :: "TimerState list"
  jobs :: "(nat \<times> phase) list"
  starts :: "nat list"

definition new_scheduler :: world where
  "new_scheduler = \<lparr>due = [], not_started = [], loop_running = False, states = [], jobs = [], starts = []\<rparr>"

abbreviation due_push :: "int \<times> nat \<Rightarrow> (int \<times> nat) list \<Rightarrow> (int \<times> nat) list" where
  "due_push \<equiv> deadline_insert fst"

interpretation due_queue: deadline_queue fst due_push
  by unfold_locales (simp_all add: mset_deadline_insert sorted_deadline_insert)

definition ms :: "int \<Rightarrow> int" where
  "ms d = d * 1000000"

definition update_state :: "nat \<Rightarrow> (TimerState \<Rightarrow> TimerState) \<Rightarrow> world \<Rightarrow> world" where
  "update_state i f w = w\<lparr>states := (states w)[i := f (states w ! i)]\<rparr>"

definition cancel_handle :: "nat \<Rightarrow> world \<Rightarrow> world" where
  "cancel_handle i w = update_state i (\<lambda>s. s\<lparr>cancelled := True\<rparr>) w"

definition active :: "nat \<Rightarrow> world \<Rightarrow> bool" where
  "active i w \<longleftrightarrow> \<not> cancelled (states w ! i) \<and> \<not> finished (states w ! i)"

definition schedule_locked :: "int \<Rightarrow> nat \<Rightarrow> world \<Rightarrow> world" where
  "schedule_locked t i w = w\<lparr>due := due_push (t, i) (due w)\<rparr>"

definition sched_add :: "int \<Rightarrow> int \<Rightarrow> int \<Rightarrow> world \<Rightarrow> nat \<times> world" where
  "sched_add dly intv now w =
     (let i = length (states w);
          s = \<lparr>delay = (if dly < 0 then 0 else dly), interval = (if intv < 0 then 0 else intv),
               cancelled = False, finished = False, run_in_progress = False\<rparr>;
          w1 = w\<lparr>states := states w @ [s]\<rparr>
      in (i, if loop_running w1 then schedule_locked (now + ms (delay s)) i w1
             else w1\<lparr>not_started := not_started w1 @ [i]\<rparr>))"

definition sched_start :: "int \<Rightarrow> world \<Rightarrow> world" where
  "sched_start now w =
     (if loop_running w then w
      else (fold (\<lambda>i w. schedule_locked (now + ms (delay (states w ! i))) i w) (not_started w) (w\<lparr>loop_running := True\<rparr>))
             \<lparr>not_started := []\<rparr>)"

definition sched_stop :: "world \<Rightarrow> world" where
  "sched_stop w =
     (if \<not> loop_running w then w
      else w\<lparr>loop_running := False, not_started := not_started w @ map snd (due w), due := []\<rparr>)"

text \<open>One iteration of \<open>run\<close>, up to the point where the lock is released or the loop goes round.\<close>

datatype tick = Ended | WaitForWake | WaitUntil int | Again | HandOver nat

definition next_due :: "int \<Rightarrow> int \<Rightarrow> int \<Rightarrow> int \<Rightarrow> int" where
  "next_due t intv now2 now3 = (let next = t + ms intv in if next < now2 then now3 + ms intv else next)"

definition run_iteration :: "int \<Rightarrow> int \<Rightarrow> int \<Rightarrow> world \<Rightarrow> tick \<times> world" where
  "run_iteration now1 now2 now3 w =
     (if \<not> loop_running w then (Ended, w)
      else case due w of
          [] \<Rightarrow> (WaitForWake, w)
        | (t, i) # rest \<Rightarrow>
            if now1 < t then (WaitUntil t, w)
            else let w1 = w\<lparr>due := rest\<rparr>; s = states w ! i
                 in if cancelled s then (Again, w1)
                    else let w2 = (if interval s > 0 then schedule_locked (next_due t (interval s) now2 now3) i w1 else w1)
                         in if run_in_progress s then (Again, w2)
                            else (HandOver i, (update_state i (\<lambda>s. s\<lparr>run_in_progress := True\<rparr>) w2)
                                                 \<lparr>jobs := jobs w2 @ [(i, Taken)]\<rparr>))"

definition set_phase :: "nat \<Rightarrow> phase \<Rightarrow> world \<Rightarrow> world" where
  "set_phase i p w = w\<lparr>jobs := map (\<lambda>(j, q). if j = i then (j, p) else (j, q)) (jobs w)\<rparr>"

definition end_job :: "nat \<Rightarrow> world \<Rightarrow> world" where
  "end_job i w = w\<lparr>jobs := filter (\<lambda>(j, _). j \<noteq> i) (jobs w)\<rparr>"

text \<open>The dispatcher takes the job or throws.\<close>

definition dispatch_ok :: "nat \<Rightarrow> world \<Rightarrow> world" where
  "dispatch_ok i w = set_phase i Queued w"

definition dispatch_throws :: "nat \<Rightarrow> world \<Rightarrow> world" where
  "dispatch_throws i w = end_job i (update_state i (\<lambda>s. s\<lparr>run_in_progress := False\<rparr>) w)"

text \<open>The job starts the callback unless the timer was cancelled, then clears the flags; a callback
  that throws ends the same way.\<close>

definition job_begin :: "nat \<Rightarrow> world \<Rightarrow> world" where
  "job_begin i w =
     (if cancelled (states w ! i) then set_phase i Skipped w
      else (set_phase i Executing w)\<lparr>starts := starts w @ [i]\<rparr>)"

definition job_end :: "nat \<Rightarrow> world \<Rightarrow> world" where
  "job_end i w =
     end_job i (update_state i
       (\<lambda>s. (if interval s = 0 then s\<lparr>finished := True\<rparr> else s)\<lparr>run_in_progress := False\<rparr>) w)"

inductive sched_step :: "world \<Rightarrow> world \<Rightarrow> bool" where
  step_add: "sched_step w (snd (sched_add dly intv now w))"
| step_cancel: "i < length (states w) \<Longrightarrow> sched_step w (cancel_handle i w)"
| step_start: "sched_step w (sched_start now w)"
| step_stop: "sched_step w (sched_stop w)"
| step_run: "sched_step w (snd (run_iteration now1 now2 now3 w))"
| step_dispatch: "(i, Taken) \<in> set (jobs w) \<Longrightarrow> sched_step w (dispatch_ok i w)"
| step_throw: "(i, Taken) \<in> set (jobs w) \<Longrightarrow> sched_step w (dispatch_throws i w)"
| step_begin: "(i, Queued) \<in> set (jobs w) \<Longrightarrow> sched_step w (job_begin i w)"
| step_end: "(i, p) \<in> set (jobs w) \<Longrightarrow> p \<in> {Executing, Skipped} \<Longrightarrow> sched_step w (job_end i w)"

abbreviation sched_steps :: "world \<Rightarrow> world \<Rightarrow> bool" where
  "sched_steps \<equiv> sched_step\<^sup>*\<^sup>*"


section \<open>The invariant\<close>

definition waiting :: "world \<Rightarrow> nat list" where
  "waiting w = map snd (due w) @ not_started w"

definition queue_ok :: "world \<Rightarrow> bool" where
  "queue_ok w \<longleftrightarrow>
     sorted (map fst (due w)) \<and> distinct (waiting w) \<and> set (waiting w) \<subseteq> {..<length (states w)} \<and>
     (if loop_running w then not_started w = [] else due w = [])"

definition job_ids :: "world \<Rightarrow> nat set" where
  "job_ids w = fst ` set (jobs w)"

definition not_begun :: "world \<Rightarrow> nat \<Rightarrow> bool" where
  "not_begun w i \<longleftrightarrow> (i, Taken) \<in> set (jobs w) \<or> (i, Queued) \<in> set (jobs w)"

definition jobs_ok :: "world \<Rightarrow> bool" where
  "jobs_ok w \<longleftrightarrow>
     distinct (map fst (jobs w)) \<and> job_ids w \<subseteq> {..<length (states w)} \<and> set (starts w) \<subseteq> {..<length (states w)} \<and>
     (\<forall>i<length (states w). run_in_progress (states w ! i) \<longleftrightarrow> i \<in> job_ids w)"

text \<open>A timer that runs once: it waits, is a job, or is over, and its callback has started only in the
  last two; a timer that repeats waits until it is cancelled.\<close>

definition once_ok :: "world \<Rightarrow> nat \<Rightarrow> bool" where
  "once_ok w i \<longleftrightarrow>
     (i \<in> set (waiting w) \<longrightarrow> i \<notin> job_ids w \<and> count_list (starts w) i = 0) \<and>
     (not_begun w i \<longrightarrow> count_list (starts w) i = 0) \<and> count_list (starts w) i \<le> 1"

definition timer_ok :: "world \<Rightarrow> nat \<Rightarrow> bool" where
  "timer_ok w i \<longleftrightarrow>
     0 \<le> interval (states w ! i) \<and>
     (if interval (states w ! i) = 0 then once_ok w i
      else cancelled (states w ! i) \<or> i \<in> set (waiting w))"

definition sched_ok :: "world \<Rightarrow> bool" where
  "sched_ok w \<longleftrightarrow> queue_ok w \<and> jobs_ok w \<and> (\<forall>i<length (states w). timer_ok w i)"

lemma update_state_fields [simp]:
  "due (update_state i f w) = due w" "not_started (update_state i f w) = not_started w"
  "loop_running (update_state i f w) = loop_running w" "jobs (update_state i f w) = jobs w"
  "starts (update_state i f w) = starts w" "length (states (update_state i f w)) = length (states w)"
  "j < length (states w) \<Longrightarrow> states (update_state i f w) ! j = (if j = i then f (states w ! i) else states w ! j)"
  by (auto simp: update_state_def)

lemma set_phase_fields [simp]:
  "due (set_phase i p w) = due w" "not_started (set_phase i p w) = not_started w"
  "loop_running (set_phase i p w) = loop_running w" "states (set_phase i p w) = states w" "starts (set_phase i p w) = starts w"
  "map fst (jobs (set_phase i p w)) = map fst (jobs w)"
  by (auto simp: set_phase_def)

lemma end_job_fields [simp]:
  "due (end_job i w) = due w" "not_started (end_job i w) = not_started w" "loop_running (end_job i w) = loop_running w"
  "states (end_job i w) = states w" "starts (end_job i w) = starts w"
  "distinct (map fst (jobs w)) \<Longrightarrow> distinct (map fst (jobs (end_job i w)))"
  by (simp_all add: end_job_def distinct_map_filter)

lemma schedule_fields [simp]:
  "not_started (schedule_locked t i w) = not_started w" "loop_running (schedule_locked t i w) = loop_running w"
  "states (schedule_locked t i w) = states w" "jobs (schedule_locked t i w) = jobs w" "starts (schedule_locked t i w) = starts w"
  "due (schedule_locked t i w) = due_push (t, i) (due w)"
  by (simp_all add: schedule_locked_def)

lemma map_phase_mem:
  "(j, q) \<in> set (map (\<lambda>(j, q). if j = i then (j, p) else (j, q)) js) \<longleftrightarrow>
   (if j = i then q = p \<and> i \<in> fst ` set js else (j, q) \<in> set js)"
  by (induction js) (auto split: if_splits)

lemma set_phase_mem:
  "(j, q) \<in> set (jobs (set_phase i p w)) \<longleftrightarrow> (if j = i then q = p \<and> i \<in> job_ids w else (j, q) \<in> set (jobs w))"
  using map_phase_mem [of j q i p "jobs w"] by (simp add: set_phase_def job_ids_def)

lemma job_ids_jobs [simp]:
  "job_ids (update_state i f w) = job_ids w" "job_ids (set_phase i p w) = job_ids w" "job_ids (end_job i w) = job_ids w - {i}"
  "job_ids (w\<lparr>jobs := js @ [(j, q)]\<rparr>) = insert j (fst ` set js)"
  by (simp add: job_ids_def) (force simp: job_ids_def set_phase_def end_job_def)+

lemma job_ids_frame [simp]:
  "job_ids (w\<lparr>due := d\<rparr>) = job_ids w" "job_ids (w\<lparr>not_started := n\<rparr>) = job_ids w" "job_ids (w\<lparr>states := ss\<rparr>) = job_ids w"
  "job_ids (w\<lparr>starts := st\<rparr>) = job_ids w" "job_ids (w\<lparr>loop_running := b\<rparr>) = job_ids w" "job_ids (schedule_locked t i w) = job_ids w"
  by (simp_all add: job_ids_def)

lemma not_begun_jobs [simp]:
  "not_begun (update_state i f w) j \<longleftrightarrow> not_begun w j" "not_begun (end_job i w) j \<longleftrightarrow> j \<noteq> i \<and> not_begun w j"
  "not_begun (set_phase i p w) j \<longleftrightarrow> (if j = i then i \<in> job_ids w \<and> (p = Taken \<or> p = Queued) else not_begun w j)"
  "not_begun (w\<lparr>jobs := js @ [(k, q)]\<rparr>) j \<longleftrightarrow> (j = k \<and> (q = Taken \<or> q = Queued)) \<or> not_begun (w\<lparr>jobs := js\<rparr>) j"
  by (auto simp: not_begun_def set_phase_mem) (auto simp: end_job_def)

lemma not_begun_frame [simp]:
  "not_begun (w\<lparr>due := d\<rparr>) j \<longleftrightarrow> not_begun w j" "not_begun (w\<lparr>not_started := n\<rparr>) j \<longleftrightarrow> not_begun w j"
  "not_begun (w\<lparr>states := ss\<rparr>) j \<longleftrightarrow> not_begun w j" "not_begun (w\<lparr>starts := st\<rparr>) j \<longleftrightarrow> not_begun w j"
  "not_begun (w\<lparr>loop_running := b\<rparr>) j \<longleftrightarrow> not_begun w j" "not_begun (schedule_locked t i w) j \<longleftrightarrow> not_begun w j"
  by (simp_all add: not_begun_def)

lemma not_begun_job: "not_begun w i \<Longrightarrow> i \<in> job_ids w"
  by (force simp: not_begun_def job_ids_def)

lemma job_idsI: "(i, p) \<in> set (jobs w) \<Longrightarrow> i \<in> job_ids w"
  by (force simp: job_ids_def)

lemma distinct_snd_push: "distinct (map snd (due_push (t, i) q)) \<longleftrightarrow> i \<notin> snd ` set q \<and> distinct (map snd q)"
proof -
  have "mset (map snd (due_push (t, i) q)) = mset (i # map snd q)" by (simp add: mset_deadline_insert)
  from mset_eq_imp_distinct_iff [OF this] show ?thesis by simp
qed

lemma count_list_snoc [simp]: "count_list (xs @ [x]) y = count_list xs y + (if x = y then 1 else 0)"
  by (induction xs) auto


section \<open>Every step keeps it\<close>

lemma queue_ok_frame:
  "due w' = due w \<Longrightarrow> not_started w' = not_started w \<Longrightarrow> loop_running w' = loop_running w \<Longrightarrow>
   length (states w') = length (states w) \<Longrightarrow> queue_ok w' = queue_ok w"
  by (simp add: queue_ok_def waiting_def)

lemma timer_ok_frame:
  assumes "timer_ok w i" "interval (states w' ! i) = interval (states w ! i)" "cancelled (states w' ! i) = cancelled (states w ! i)"
    and "i \<in> set (waiting w') \<longleftrightarrow> i \<in> set (waiting w)" "count_list (starts w') i = count_list (starts w) i"
    and "i \<in> job_ids w' \<Longrightarrow> i \<in> job_ids w" "not_begun w' i \<Longrightarrow> not_begun w i"
  shows "timer_ok w' i"
  using assms by (auto simp: timer_ok_def once_ok_def)

lemma cancel_sched_ok:
  assumes "sched_ok w"
  shows "sched_ok (cancel_handle i w)"
proof -
  have "queue_ok (cancel_handle i w) = queue_ok w" by (rule queue_ok_frame) (simp_all add: cancel_handle_def)
  moreover have "jobs_ok (cancel_handle i w)" using assms by (simp add: sched_ok_def jobs_ok_def cancel_handle_def)
  moreover have "timer_ok (cancel_handle i w) j" if "j < length (states w)" for j
  proof -
    have "timer_ok w j" using assms that by (simp add: sched_ok_def)
    moreover have "waiting (cancel_handle i w) = waiting w" by (simp add: waiting_def cancel_handle_def)
    ultimately show ?thesis using that by (auto simp: timer_ok_def once_ok_def cancel_handle_def)
  qed
  ultimately show ?thesis using assms by (simp add: sched_ok_def cancel_handle_def)
qed

lemma stop_sched_ok:
  assumes "sched_ok w"
  shows "sched_ok (sched_stop w)"
proof -
  have "set (waiting (sched_stop w)) = set (waiting w)" by (auto simp: waiting_def sched_stop_def)
  moreover have "queue_ok (sched_stop w)"
    using assms by (auto simp: sched_ok_def queue_ok_def waiting_def sched_stop_def)
  ultimately show ?thesis
    using assms by (auto simp: sched_ok_def jobs_ok_def timer_ok_def once_ok_def sched_stop_def split: if_splits)
qed

text \<open>The steps of a job leave the queue alone.\<close>

lemma job_sched_ok:
  assumes "sched_ok w"
    and "not_begun w i \<and> w' \<in> {dispatch_ok i w, dispatch_throws i w, job_begin i w} \<or> w' = job_end i w" "i \<in> job_ids w"
  shows "sched_ok w'"
proof -
  have w: "due w' = due w" "not_started w' = not_started w" "loop_running w' = loop_running w"
    "length (states w') = length (states w)"
    using assms(2) by (auto simp: dispatch_ok_def dispatch_throws_def job_begin_def job_end_def split: if_splits)
  have i: "i < length (states w)" using assms(1,3) by (auto simp: sched_ok_def jobs_ok_def)
  have "queue_ok w'" using queue_ok_frame [OF w] assms(1) by (simp add: sched_ok_def)
  moreover have "jobs_ok w'"
    using assms(1-3) i
    by (auto simp: sched_ok_def jobs_ok_def dispatch_ok_def dispatch_throws_def job_begin_def job_end_def split: if_splits)
  moreover have "timer_ok w' j" if "j < length (states w)" for j
  proof -
    have wt: "set (waiting w') = set (waiting w)" by (simp add: waiting_def w)
    have ok: "timer_ok w j" using assms(1) that by (simp add: sched_ok_def)
    have st: "interval (states w' ! j) = interval (states w ! j)" "cancelled (states w' ! j) = cancelled (states w ! j)"
      using assms(2) that by (auto simp: dispatch_ok_def dispatch_throws_def job_begin_def job_end_def split: if_splits)
    show ?thesis
    proof (cases "count_list (starts w') j = count_list (starts w) j")
      case True
      moreover have "j \<in> job_ids w' \<Longrightarrow> j \<in> job_ids w" "not_begun w' j \<Longrightarrow> not_begun w j"
        using assms(2) by (auto simp: dispatch_ok_def dispatch_throws_def job_begin_def job_end_def split: if_splits)
      ultimately show ?thesis using timer_ok_frame [OF ok st] wt by blast
    next
      case False
      then have "j = i" "w' = job_begin i w" "\<not> not_begun w' i" "count_list (starts w') i = Suc (count_list (starts w) i)"
        using assms(2) by (auto simp: dispatch_ok_def dispatch_throws_def job_begin_def job_end_def split: if_splits)
      moreover have "not_begun w i" using assms(2) False by (auto simp: job_end_def)
      ultimately show ?thesis using ok assms(3) wt st by (auto simp: timer_ok_def once_ok_def)
    qed
  qed
  ultimately show ?thesis by (simp add: sched_ok_def w)
qed

lemma add_sched_ok:
  assumes "sched_ok w"
  shows "sched_ok (snd (sched_add dly intv now w))"
proof -
  let ?w = "snd (sched_add dly intv now w)" and ?n = "length (states w)"
  have old: "?n \<notin> set (waiting w)" "?n \<notin> job_ids w" "?n \<notin> set (starts w)"
    using assms by (auto simp: sched_ok_def queue_ok_def jobs_ok_def)
  have w: "set (waiting ?w) = insert ?n (set (waiting w))" "job_ids ?w = job_ids w" "starts ?w = starts w"
    "states ?w ! ?n = \<lparr>delay = max 0 dly, interval = max 0 intv, cancelled = False, finished = False, run_in_progress = False\<rparr>"
    "\<And>j. j < ?n \<Longrightarrow> states ?w ! j = states w ! j" "length (states ?w) = Suc ?n" "\<And>j. not_begun ?w j = not_begun w j"
    "jobs ?w = jobs w" "loop_running ?w = loop_running w"
    by (auto simp: sched_add_def waiting_def nth_append set_deadline_insert Let_def split: if_splits)
  have "queue_ok ?w"
    using assms old(1) unfolding queue_ok_def w
    by (auto simp: sched_ok_def queue_ok_def sched_add_def waiting_def Let_def distinct_snd_push sorted_deadline_insert)
  moreover have "jobs_ok ?w"
    using assms old(2) by (auto simp: sched_ok_def jobs_ok_def w less_Suc_eq)
  moreover have "timer_ok ?w j" if "j < Suc ?n" for j
  proof (cases "j = ?n")
    case True
    then show ?thesis
      using old not_begun_job [of w ?n] by (auto simp: timer_ok_def once_ok_def w count_list_0_iff)
  next
    case False
    then have "timer_ok w j" "j < ?n" using assms that by (auto simp: sched_ok_def)
    then show ?thesis using False by (auto simp: timer_ok_def once_ok_def w)
  qed
  ultimately show ?thesis by (simp add: sched_ok_def w)
qed

lemma start_fold_fields:
  "not_started (fold (\<lambda>i w. schedule_locked (f i w) i w) is w) = not_started w"
  "loop_running (fold (\<lambda>i w. schedule_locked (f i w) i w) is w) = loop_running w"
  "states (fold (\<lambda>i w. schedule_locked (f i w) i w) is w) = states w"
  "jobs (fold (\<lambda>i w. schedule_locked (f i w) i w) is w) = jobs w"
  "starts (fold (\<lambda>i w. schedule_locked (f i w) i w) is w) = starts w"
  by (induction "is" arbitrary: w) simp_all

lemma start_fold_due:
  "sorted (map fst (due w)) \<Longrightarrow> sorted (map fst (due (fold (\<lambda>i w. schedule_locked (f i w) i w) is w)))"
  "mset (map snd (due (fold (\<lambda>i w. schedule_locked (f i w) i w) is w))) = mset is + mset (map snd (due w))"
  by (induction "is" arbitrary: w) (simp_all add: sorted_deadline_insert mset_deadline_insert)

lemma start_sched_ok:
  assumes "sched_ok w"
  shows "sched_ok (sched_start now w)"
proof (cases "loop_running w")
  case False
  let ?w = "sched_start now w"
  have e: "due w = []" using assms False by (simp add: sched_ok_def queue_ok_def)
  have f: "states ?w = states w" "jobs ?w = jobs w" "starts ?w = starts w" "not_started ?w = []" "loop_running ?w"
    using False by (simp_all add: sched_start_def start_fold_fields)
  have d: "sorted (map fst (due ?w))" "mset (waiting ?w) = mset (waiting w)"
    using False e by (simp_all add: sched_start_def start_fold_due waiting_def del: mset_map)
  have "distinct (waiting ?w) = distinct (waiting w)" "set (waiting ?w) = set (waiting w)"
    using mset_eq_imp_distinct_iff [OF d(2)] mset_eq_setD [OF d(2)] .
  moreover have "timer_ok ?w j" if "j < length (states w)" for j
    using assms that timer_ok_frame [of w j ?w] calculation(2) by (simp add: sched_ok_def f job_ids_def not_begun_def)
  ultimately show ?thesis
    using assms d(1) f by (simp add: sched_ok_def queue_ok_def jobs_ok_def job_ids_def)
qed (use assms in \<open>simp add: sched_start_def\<close>)

lemma run_sched_ok:
  assumes "sched_ok w"
  shows "sched_ok (snd (run_iteration now1 now2 now3 w))"
proof (cases "loop_running w \<and> due w \<noteq> [] \<and> fst (hd (due w)) \<le> now1")
  case True
  then obtain t i rest where d: "due w = (t, i) # rest" "t \<le> now1" "loop_running w" by (cases "due w") auto
  let ?w = "snd (run_iteration now1 now2 now3 w)" and ?s = "states w ! i"
  have q: "not_started w = []" "i < length (states w)" "i \<notin> snd ` set rest" "distinct (map snd rest)" "sorted (map fst rest)"
    "snd ` set rest \<subseteq> {..<length (states w)}"
    using assms d by (auto simp: sched_ok_def queue_ok_def waiting_def)
  have i: "timer_ok w i" using assms q(2) by (simp add: sched_ok_def)
  have f: "not_started ?w = []" "loop_running ?w" "starts ?w = starts w" "length (states ?w) = length (states w)"
    "\<And>j. j < length (states w) \<Longrightarrow> j \<noteq> i \<Longrightarrow> states ?w ! j = states w ! j"
    "interval (states ?w ! i) = interval ?s" "cancelled (states ?w ! i) = cancelled ?s"
    "set (waiting ?w) = (if \<not> cancelled ?s \<and> interval ?s > 0 then insert i (snd ` set rest) else snd ` set rest)"
    using d q by (auto simp: run_iteration_def Let_def waiting_def set_deadline_insert)
  have "queue_ok ?w"
    using d q f by (auto simp: queue_ok_def run_iteration_def Let_def waiting_def distinct_snd_push sorted_deadline_insert set_deadline_insert)
  moreover have "jobs_ok ?w"
    using assms d q(2) by (auto simp: sched_ok_def jobs_ok_def run_iteration_def Let_def job_ids_def)
  moreover have "timer_ok ?w j" if "j < length (states w)" for j
  proof (cases "j = i")
    case True
    have "count_list (starts w) i = 0" if "interval ?s = 0" using i that d(1) by (auto simp: timer_ok_def once_ok_def waiting_def)
    then show ?thesis using True i q(3) by (auto simp: timer_ok_def once_ok_def f split: if_splits)
  next
    case False
    have "timer_ok w j" using assms that by (simp add: sched_ok_def)
    moreover have "j \<in> job_ids ?w \<longleftrightarrow> j \<in> job_ids w" "not_begun ?w j \<longleftrightarrow> not_begun w j"
      "j \<in> set (waiting ?w) \<longleftrightarrow> j \<in> set (waiting w)"
      using False d q by (auto simp: run_iteration_def Let_def job_ids_def not_begun_def waiting_def set_deadline_insert)
    ultimately show ?thesis using timer_ok_frame [of w j ?w] f(5) [OF that False] f(3) by simp
  qed
  ultimately show ?thesis using f(4) by (simp add: sched_ok_def)
qed (use assms in \<open>auto simp: run_iteration_def split: list.splits\<close>)

lemma new_sched_ok: "sched_ok new_scheduler"
  by (simp add: sched_ok_def queue_ok_def jobs_ok_def new_scheduler_def waiting_def job_ids_def)

lemma step_sched_ok: "sched_step w w' \<Longrightarrow> sched_ok w \<Longrightarrow> sched_ok w'"
proof (induction rule: sched_step.induct)
  case (step_dispatch i w)
  then show ?case using job_sched_ok [of w i] job_idsI by (auto simp: not_begun_def)
next
  case (step_throw i w)
  then show ?case using job_sched_ok [of w i] job_idsI by (auto simp: not_begun_def)
next
  case (step_begin i w)
  then show ?case using job_sched_ok [of w i] job_idsI by (auto simp: not_begun_def)
next
  case (step_end i p w)
  then show ?case using job_sched_ok [of w i] job_idsI by auto
qed (simp_all add: cancel_sched_ok stop_sched_ok add_sched_ok start_sched_ok run_sched_ok)

lemma reachable_sched_ok: "sched_steps new_scheduler w \<Longrightarrow> sched_ok w"
  by (induction rule: rtranclp_induct) (use new_sched_ok step_sched_ok in auto)


text \<open>What a cancelled timer can still do: nothing that starts its callback.\<close>

lemma step_cancelled:
  assumes "sched_step w w'" "i < length (states w)" "cancelled (states w ! i)"
  shows "count_list (starts w') i = count_list (starts w) i \<and> i < length (states w') \<and> cancelled (states w' ! i)"
  using assms
proof (induction rule: sched_step.induct)
  case (step_run w now1 now2 now3)
  then show ?case by (auto simp: run_iteration_def Let_def split: list.splits prod.splits)
qed (auto simp: sched_add_def cancel_handle_def sched_start_def start_fold_fields sched_stop_def dispatch_ok_def
      dispatch_throws_def job_begin_def job_end_def nth_append Let_def)

lemma steps_cancelled:
  assumes "sched_steps w w'" "i < length (states w)" "cancelled (states w ! i)"
  shows "count_list (starts w') i = count_list (starts w) i \<and> i < length (states w') \<and> cancelled (states w' ! i)"
  using assms by (induction rule: rtranclp_induct) (auto dest: step_cancelled)

lemma sched_steps_snoc: "sched_steps a b \<Longrightarrow> sched_step b c \<Longrightarrow> sched_steps a c"
  by simp

text \<open>A world for the witnesses: a timer that runs once and one that repeats, the first in its callback.\<close>

definition demo_waiting :: world where
  "demo_waiting = sched_start 0 (snd (sched_add 10 10 0 (snd (sched_add 5 0 0 new_scheduler))))"

definition demo_world :: world where
  "demo_world = job_begin 0 (dispatch_ok 0 (snd (run_iteration 5000000 5000000 5000000 demo_waiting)))"

lemma demo_waiting_reachable: "sched_steps new_scheduler demo_waiting"
  unfolding demo_waiting_def by (intro sched_steps_snoc [OF _ step_start] sched_steps_snoc [OF _ step_add]) simp

lemma demo_world_reachable: "sched_steps new_scheduler demo_world"
proof -
  let ?r = "snd (run_iteration 5000000 5000000 5000000 demo_waiting)"
  have "(0, Taken) \<in> set (jobs ?r)" "(0, Queued) \<in> set (jobs (dispatch_ok 0 ?r))" by code_simp+
  then show ?thesis
    unfolding demo_world_def
    by (intro sched_steps_snoc [OF _ step_begin] sched_steps_snoc [OF _ step_dispatch]
        sched_steps_snoc [OF _ step_run] demo_waiting_reachable)
qed

section \<open>Properties\<close>

text \<open>
  C26: Runs of a timer never overlap: however the calls, the loop and the jobs interleave, no timer has
  two jobs at once, so no two of its callbacks are in progress together.
\<close>

theorem timer_runs_never_overlap:
  assumes "sched_steps new_scheduler w"
  shows "distinct (map fst (jobs w)) \<and> count_list (map fst (filter (\<lambda>(_, p). p = Executing) (jobs w))) i \<le> 1"
proof -
  have d: "distinct (map fst (jobs w))" using reachable_sched_ok [OF assms] by (simp add: sched_ok_def jobs_ok_def)
  then have "distinct (map fst (filter (\<lambda>(_, p). p = Executing) (jobs w)))" by (rule distinct_map_filter)
  then have "count_list (map fst (filter (\<lambda>(_, p). p = Executing) (jobs w))) i \<le> 1"
    by (simp add: distinct_count_atmost_1 count_mset flip: count_mset)
  with d show ?thesis by blast
qed

theorem timer_runs_never_overlap_witness:
  "count_list (map fst (filter (\<lambda>(_, p). p = Executing) (jobs demo_world))) 0 \<le> 1 \<and> jobs demo_world = [(0, Executing)]"
proof -
  have "jobs demo_world = [(0, Executing)]" by code_simp
  with timer_runs_never_overlap [OF demo_world_reachable, of 0] show ?thesis by simp
qed

text \<open>
  A timer made by \<^verbatim>\<open>run_after\<close> starts its callback at most once, through any number of stops and
  restarts of the scheduler.
\<close>

theorem one_shot_starts_once:
  assumes "sched_steps new_scheduler w" "i < length (states w)" "interval (states w ! i) = 0"
  shows "count_list (starts w) i \<le> 1"
  using reachable_sched_ok [OF assms(1)] assms(2,3) by (auto simp: sched_ok_def timer_ok_def once_ok_def)

theorem one_shot_starts_once_witness:
  "count_list (starts demo_world) 0 \<le> 1 \<and> starts demo_world = [0]"
proof -
  have "0 < length (states demo_world)" "interval (states demo_world ! 0) = 0" "starts demo_world = [0]" by code_simp+
  with one_shot_starts_once [OF demo_world_reachable, of 0] show ?thesis by simp
qed

text \<open>
  After \<open>cancel\<close> no further run of the timer starts, whatever happens afterwards: a job of it that
  is already queued skips the callback.
\<close>

theorem cancelled_timer_never_starts:
  assumes "i < length (states w)" "sched_steps (cancel_handle i w) w'"
  shows "count_list (starts w') i = count_list (starts w) i"
proof -
  have "cancelled (states (cancel_handle i w) ! i)" "starts (cancel_handle i w) = starts w"
    "i < length (states (cancel_handle i w))"
    using assms(1) by (simp_all add: cancel_handle_def)
  with steps_cancelled [OF assms(2)] show ?thesis by auto
qed

theorem cancelled_timer_never_starts_witness:
  "count_list (starts (snd (run_iteration 5000000 5000000 5000000 (cancel_handle 0 demo_waiting)))) 0 = 0"
proof -
  have "sched_steps (cancel_handle 0 demo_waiting) (snd (run_iteration 5000000 5000000 5000000 (cancel_handle 0 demo_waiting)))"
    by (rule r_into_rtranclp) (rule step_run)
  moreover have "0 < length (states demo_waiting)" "starts demo_waiting = []" by code_simp+
  ultimately show ?thesis using cancelled_timer_never_starts [of 0 demo_waiting] by auto
qed

text \<open>
  A repeating timer is never lost: until it is cancelled it is waiting for its next deadline, or for
  the scheduler to be started again, even when a dispatch failed, a callback threw or a tick was
  skipped because the last run had not ended.
\<close>

theorem repeating_timer_never_lost:
  assumes "sched_steps new_scheduler w" "i < length (states w)" "interval (states w ! i) > 0" "\<not> cancelled (states w ! i)"
  shows "count_list (waiting w) i = 1"
proof -
  have "distinct (waiting w)" "i \<in> set (waiting w)"
    using reachable_sched_ok [OF assms(1)] assms(2-4) by (auto simp: sched_ok_def timer_ok_def queue_ok_def)
  then show ?thesis by (simp add: distinct_count_atmost_1 flip: count_mset)
qed

theorem repeating_timer_never_lost_witness: "count_list (waiting demo_world) 1 = 1"
proof -
  have "1 < length (states demo_world)" "interval (states demo_world ! 1) > 0" "\<not> cancelled (states demo_world ! 1)"
    by code_simp+
  with repeating_timer_never_lost [OF demo_world_reachable, of 1] show ?thesis by simp
qed

text \<open>
  The loop hands over the right timer: a reachable scheduler hands over a timer only if its
  deadline has passed, no other deadline is earlier, it was not cancelled and none of its runs is in
  progress.
\<close>

theorem loop_hands_over_earliest_due:
  assumes "sched_steps new_scheduler w" "run_iteration now1 now2 now3 w = (HandOver i, w')"
  shows "\<exists>t. (t, i) \<in> set (due w) \<and> t \<le> now1 \<and> (\<forall>(t', j) \<in> set (due w). t \<le> t') \<and>
             \<not> cancelled (states w ! i) \<and> i \<notin> fst ` set (jobs w)"
proof -
  obtain t rest where d: "due w = (t, i) # rest" "t \<le> now1" "\<not> cancelled (states w ! i)" "\<not> run_in_progress (states w ! i)"
    using assms(2) by (auto simp: run_iteration_def Let_def split: if_splits list.splits prod.splits)
  have ok: "sched_ok w" by (rule reachable_sched_ok [OF assms(1)])
  have "sorted (map fst ((t, i) # rest))" "i < length (states w)"
    using ok d(1) by (auto simp: sched_ok_def queue_ok_def waiting_def)
  moreover have "i \<notin> job_ids w" using ok d(4) calculation(2) by (simp add: sched_ok_def jobs_ok_def)
  ultimately show ?thesis using d by (intro exI [of _ t]) (auto simp: job_ids_def)
qed

theorem loop_hands_over_earliest_due_witness:
  "\<exists>t. (t, 0) \<in> set (due demo_waiting) \<and> t \<le> 5000000 \<and> (\<forall>(t', j) \<in> set (due demo_waiting). t \<le> t') \<and>
     \<not> cancelled (states demo_waiting ! 0) \<and> 0 \<notin> fst ` set (jobs demo_waiting)"
proof -
  have "fst (run_iteration 5000000 5000000 5000000 demo_waiting) = HandOver 0" by code_simp
  then have "run_iteration 5000000 5000000 5000000 demo_waiting =
      (HandOver 0, snd (run_iteration 5000000 5000000 5000000 demo_waiting))" by (metis prod.collapse)
  from loop_hands_over_earliest_due [OF demo_waiting_reachable this] show ?thesis .
qed

end
