(* ===== verification/Sessions.thy ===== *)
theory Sessions
  imports Response_Writer
begin

text \<open>
  Sessions: \<^verbatim>\<open>src/middleware/SessionManager.cpp\<close>. The abstract class \<open>SessionStore\<close> is a record of
  operations on a store's state; the interface \<open>session_store\<close> says what the manager relies on,
  and \<open>MemorySessionStore\<close> is shown to provide it. The middleware has two halves, the call that
  loads or creates the session and the response interceptor that saves it; both are functions on the
  store, since other requests run between them. The clock, in nanoseconds, and the random bytes are
  arguments; a failing generator throws. Session data, an \<^verbatim>\<open>unordered_map\<close>, is a HOL map.
\<close>

type_synonym SessionData = "string \<rightharpoonup> string"

section \<open>Identifiers\<close>

definition secure_random_hex :: "8 word list \<Rightarrow> string" where
  "secure_random_hex bytes = concat (map (\<lambda>b. [hex_lower (unat (drop_bit 4 b)), hex_lower (unat (and b 0x0F))]) bytes)"

definition is_well_formed :: "string \<Rightarrow> bool" where
  "is_well_formed i \<longleftrightarrow>
     length i = 64 \<and> list_all (\<lambda>c. isdigit c \<or> (97 \<le> byte_of c \<and> byte_of c \<le> 102)) i"

text \<open>What the system's generator gives for \<^verbatim>\<open>RAND_bytes\<close>: 32 bytes, or nothing when it fails.\<close>

type_synonym random = "8 word list option"

definition generate_session_id :: "random \<Rightarrow> string outcome" where
  "generate_session_id r =
     (case r of None \<Rightarrow> Throw (StdException ''RAND_bytes failed'') | Some bytes \<Rightarrow> Return (secure_random_hex bytes))"

section \<open>Stores\<close>

record 's SessionStore =
  store_load :: "int \<Rightarrow> string \<Rightarrow> 's \<Rightarrow> SessionData option \<times> 's"
  store_save :: "int \<Rightarrow> string \<Rightarrow> SessionData \<Rightarrow> int \<Rightarrow> 's \<Rightarrow> 's"
  store_touch :: "int \<Rightarrow> string \<Rightarrow> int \<Rightarrow> 's \<Rightarrow> 's"
  store_destroy :: "string \<Rightarrow> 's \<Rightarrow> 's"

record Entry =
  entry_data :: SessionData
  expires :: int

record MemorySessionStore =
  max_sessions :: nat
  sessions :: "(string \<times> Entry) list"

definition seconds :: "int \<Rightarrow> int" where
  "seconds s = s * 1000000000"

definition erase_session :: "string \<Rightarrow> (string \<times> Entry) list \<Rightarrow> (string \<times> Entry) list" where
  "erase_session i es = filter (\<lambda>(k, _). k \<noteq> i) es"

fun put_session :: "string \<Rightarrow> Entry \<Rightarrow> (string \<times> Entry) list \<Rightarrow> (string \<times> Entry) list" where
  "put_session i e [] = [(i, e)]"
| "put_session i e ((k, e') # es) = (if k = i then (k, e) # es else (k, e') # put_session i e es)"

definition memory_load :: "int \<Rightarrow> string \<Rightarrow> MemorySessionStore \<Rightarrow> SessionData option \<times> MemorySessionStore" where
  "memory_load now i m =
     (case map_of (sessions m) i of
        None \<Rightarrow> (None, m)
      | Some e \<Rightarrow>
          if expires e \<le> now then (None, m\<lparr>sessions := erase_session i (sessions m)\<rparr>)
          else (Some (entry_data e), m))"

text \<open>The entry closest to expiry, the first of several.\<close>

fun oldest :: "string \<times> Entry \<Rightarrow> (string \<times> Entry) list \<Rightarrow> string \<times> Entry" where
  "oldest x [] = x"
| "oldest x (y # es) = oldest (if expires (snd y) < expires (snd x) then y else x) es"

lemma oldest_mem: "oldest x es \<in> insert x (set es)"
  by (induction es arbitrary: x) (force split: if_splits)+

lemma erase_shrinks: "(k, e) \<in> set es \<Longrightarrow> length (erase_session k es) < length es"
  unfolding erase_session_def by (rule length_filter_less) auto

function evict_loop :: "nat \<Rightarrow> (string \<times> Entry) list \<Rightarrow> (string \<times> Entry) list" where
  "evict_loop limit es =
     (if es \<noteq> [] \<and> length es \<ge> limit then evict_loop limit (erase_session (fst (oldest (hd es) es)) es) else es)"
  by pat_completeness auto
termination
proof (relation "measure (length \<circ> snd)", goal_cases)
  case (2 limit es)
  then have "oldest (hd es) es \<in> set es" using oldest_mem [of "hd es" es] by auto
  then show ?case using erase_shrinks [of "fst (oldest (hd es) es)" "snd (oldest (hd es) es)" es] by simp
qed simp

declare evict_loop.simps [simp del]

definition evict_locked :: "int \<Rightarrow> MemorySessionStore \<Rightarrow> MemorySessionStore" where
  "evict_locked now m =
     m\<lparr>sessions := evict_loop (max_sessions m) (filter (\<lambda>(_, e). \<not> expires e \<le> now) (sessions m))\<rparr>"

definition memory_save :: "int \<Rightarrow> string \<Rightarrow> SessionData \<Rightarrow> int \<Rightarrow> MemorySessionStore \<Rightarrow> MemorySessionStore" where
  "memory_save now i data ttl m =
     (let m1 = (if map_of (sessions m) i = None \<and> length (sessions m) \<ge> max_sessions m then evict_locked now m else m)
      in m1\<lparr>sessions := put_session i \<lparr>entry_data = data, expires = now + seconds ttl\<rparr> (sessions m1)\<rparr>)"

definition memory_touch :: "int \<Rightarrow> string \<Rightarrow> int \<Rightarrow> MemorySessionStore \<Rightarrow> MemorySessionStore" where
  "memory_touch now i ttl m =
     (case map_of (sessions m) i of
        None \<Rightarrow> m
      | Some e \<Rightarrow> m\<lparr>sessions := put_session i (e\<lparr>expires := now + seconds ttl\<rparr>) (sessions m)\<rparr>)"

definition memory_destroy :: "string \<Rightarrow> MemorySessionStore \<Rightarrow> MemorySessionStore" where
  "memory_destroy i m = m\<lparr>sessions := erase_session i (sessions m)\<rparr>"

definition memory_size :: "MemorySessionStore \<Rightarrow> nat" where
  "memory_size m = length (sessions m)"

definition memory_store :: "MemorySessionStore SessionStore" where
  "memory_store =
     \<lparr>store_load = memory_load, store_save = memory_save, store_touch = memory_touch, store_destroy = memory_destroy\<rparr>"

definition new_memory_store :: "nat \<Rightarrow> MemorySessionStore" where
  "new_memory_store n = \<lparr>max_sessions = n, sessions = []\<rparr>"

section \<open>The session of a request\<close>

record Session =
  session_ident :: string
  previous_id :: string
  session_data :: SessionData
  is_new :: bool
  dirty :: bool
  destroyed :: bool

definition session_get :: "string \<Rightarrow> Session \<Rightarrow> string option" where
  "session_get k s = session_data s k"

definition session_set :: "string \<Rightarrow> string \<Rightarrow> Session \<Rightarrow> Session" where
  "session_set k v s = s\<lparr>session_data := (session_data s)(k \<mapsto> v), dirty := True\<rparr>"

definition session_erase :: "string \<Rightarrow> Session \<Rightarrow> Session" where
  "session_erase k s =
     (if session_data s k \<noteq> None then s\<lparr>session_data := (session_data s)(k := None), dirty := True\<rparr> else s)"

text \<open>A failing generator throws after \<open>previous_id_\<close> has been set.\<close>

definition session_regenerate :: "random \<Rightarrow> Session \<Rightarrow> unit outcome \<times> Session" where
  "session_regenerate r s =
     (let s1 = (if previous_id s = [] \<and> \<not> is_new s then s\<lparr>previous_id := session_ident s\<rparr> else s)
      in case generate_session_id r of
           Throw e \<Rightarrow> (Throw e, s1)
         | Return i \<Rightarrow> (Return (), s1\<lparr>session_ident := i, dirty := True\<rparr>))"

definition session_destroy :: "Session \<Rightarrow> Session" where
  "session_destroy s = s\<lparr>destroyed := True, session_data := Map.empty\<rparr>"

section \<open>The session manager\<close>

record SessionOptions =
  opt_cookie_name :: string
  ttl_seconds :: int
  opt_secure :: bool
  opt_same_site :: string
  save_uninitialized :: bool

definition existing_session :: "'s SessionStore \<Rightarrow> SessionOptions \<Rightarrow> int \<Rightarrow> HttpRequest \<Rightarrow> 's \<Rightarrow>
    (string \<times> SessionData) option \<times> 's" where
  "existing_session S opts now req s =
     (case req_cookies req (opt_cookie_name opts) of
        None \<Rightarrow> (None, s)
      | Some i \<Rightarrow>
          if is_well_formed i
          then (case store_load S now i s of (None, s') \<Rightarrow> (None, s') | (Some d, s') \<Rightarrow> (Some (i, d), s'))
          else (None, s))"

text \<open>The middleware: the request's session and the store afterwards, or the generator's exception.\<close>

definition SessionManager_call :: "'s SessionStore \<Rightarrow> SessionOptions \<Rightarrow> random \<Rightarrow> int \<Rightarrow> HttpRequest \<Rightarrow> 's \<Rightarrow>
    Session outcome \<times> HttpRequest \<times> 's" where
  "SessionManager_call S opts r now req s =
     (case existing_session S opts now req s of
        (Some (i, d), s1) \<Rightarrow>
          (Return \<lparr>session_ident = i, previous_id = [], session_data = d, is_new = False, dirty = False, destroyed = False\<rparr>,
           req\<lparr>session_id := i\<rparr>, store_touch S now i (ttl_seconds opts) s1)
      | (None, s1) \<Rightarrow>
          (case generate_session_id r of
             Throw e \<Rightarrow> (Throw e, req, s1)
           | Return i \<Rightarrow>
               (Return \<lparr>session_ident = i, previous_id = [], session_data = Map.empty, is_new = True, dirty = False, destroyed = False\<rparr>,
                req\<lparr>session_id := i\<rparr>,
                if save_uninitialized opts then store_save S now i Map.empty (ttl_seconds opts) s1 else s1)))"

definition session_cookie :: "SessionOptions \<Rightarrow> string \<Rightarrow> int \<Rightarrow> Cookie" where
  "session_cookie opts val max_age =
     default_cookie\<lparr>cookie_name := opt_cookie_name opts, cookie_value := val, cookie_path := ''/'', cookie_http_only := True,
       cookie_secure := opt_secure opts, cookie_same_site := opt_same_site opts, cookie_max_age := max_age\<rparr>"

text \<open>The interceptor, run when the response goes out.\<close>

definition session_commit :: "'s SessionStore \<Rightarrow> SessionOptions \<Rightarrow> int \<Rightarrow> Session \<Rightarrow> HttpResponse \<Rightarrow> 's \<Rightarrow> HttpResponse \<times> 's" where
  "session_commit S opts now ses res s =
     (if destroyed ses then
        (let s1 = store_destroy S (session_ident ses) s;
             s2 = (if previous_id ses \<noteq> [] then store_destroy S (previous_id ses) s1 else s1)
         in (if \<not> is_new ses \<or> previous_id ses \<noteq> [] then set_cookie (session_cookie opts [] 0) res else res, s2))
      else
        (let s1 = (if previous_id ses \<noteq> [] then store_destroy S (previous_id ses) s else s);
             id_changed = (is_new ses \<or> previous_id ses \<noteq> []);
             s2 = (if dirty ses \<or> is_new ses \<and> save_uninitialized opts
                   then store_save S now (session_ident ses) (session_data ses) (ttl_seconds opts) s1 else s1)
         in (if id_changed \<and> (dirty ses \<or> save_uninitialized opts)
             then set_cookie (session_cookie opts (session_ident ses) (ttl_seconds opts)) res else res, s2)))"


section \<open>Requests that interleave\<close>

text \<open>
  The store, the sessions of the requests being handled, and the ids the generator has given so far.
  Requests carry any cookies; handlers change their session in any way; responses go out in any
  order, each at any time.
\<close>

record 's session_world =
  the_store :: 's
  inflight :: "Session list"
  issued :: "string list"

definition ids_of :: "random \<Rightarrow> string list" where
  "ids_of r = (case generate_session_id r of Return i \<Rightarrow> [i] | Throw _ \<Rightarrow> [])"

inductive session_step :: "'s SessionStore \<Rightarrow> SessionOptions \<Rightarrow> 's session_world \<Rightarrow> 's session_world \<Rightarrow> bool"
  for S opts where
  ses_begin: "SessionManager_call S opts r now req (the_store w) = (Return ses, req', s') \<Longrightarrow>
    session_step S opts w (w\<lparr>the_store := s', inflight := inflight w @ [ses], issued := ids_of r @ issued w\<rparr>)"
| ses_fail: "SessionManager_call S opts r now req (the_store w) = (Throw e, req', s') \<Longrightarrow>
    session_step S opts w (w\<lparr>the_store := s'\<rparr>)"
| ses_set: "n < length (inflight w) \<Longrightarrow>
    session_step S opts w (w\<lparr>inflight := (inflight w)[n := session_set k v (inflight w ! n)]\<rparr>)"
| ses_erase: "n < length (inflight w) \<Longrightarrow>
    session_step S opts w (w\<lparr>inflight := (inflight w)[n := session_erase k (inflight w ! n)]\<rparr>)"
| ses_destroy: "n < length (inflight w) \<Longrightarrow>
    session_step S opts w (w\<lparr>inflight := (inflight w)[n := session_destroy (inflight w ! n)]\<rparr>)"
| ses_regenerate: "n < length (inflight w) \<Longrightarrow>
    session_step S opts w (w\<lparr>inflight := (inflight w)[n := snd (session_regenerate r (inflight w ! n))], issued := ids_of r @ issued w\<rparr>)"
| ses_commit: "n < length (inflight w) \<Longrightarrow>
    session_step S opts w (w\<lparr>the_store := snd (session_commit S opts now (inflight w ! n) res (the_store w)),
      inflight := take n (inflight w) @ drop (Suc n) (inflight w)\<rparr>)"

section \<open>The interface of a store\<close>

text \<open>
  What the manager relies on: a saved session can be loaded until its lifetime ends, a destroyed one
  cannot, nothing but \<open>save\<close> makes an id known, and no operation changes another session's data. A
  store may forget sessions (it is full, or they expired).
\<close>

locale session_store =
  fixes S :: "'s SessionStore" and invar :: "'s \<Rightarrow> bool"
  assumes load_saved: "\<lbrakk>invar s; now \<le> t; t < now + seconds ttl\<rbrakk> \<Longrightarrow> fst (store_load S t i (store_save S now i d ttl s)) = Some d"
    and load_after_save: "\<lbrakk>invar s; i \<noteq> j; fst (store_load S t i (store_save S now j d ttl s)) = Some d'\<rbrakk> \<Longrightarrow> fst (store_load S t i s) = Some d'"
    and load_destroyed: "invar s \<Longrightarrow> fst (store_load S t i (store_destroy S i s)) = None"
    and load_after_destroy: "\<lbrakk>invar s; i \<noteq> j\<rbrakk> \<Longrightarrow> fst (store_load S t i (store_destroy S j s)) = fst (store_load S t i s)"
    and load_after_load: "\<lbrakk>invar s; fst (store_load S t i (snd (store_load S now j s))) = Some d\<rbrakk> \<Longrightarrow> fst (store_load S t i s) = Some d"
    and load_after_touch: "\<lbrakk>invar s; fst (store_load S t i (store_touch S now j ttl s)) = Some d\<rbrakk> \<Longrightarrow> \<exists>t'. fst (store_load S t' i s) = Some d"
    and invar_save [simp]: "invar s \<Longrightarrow> invar (store_save S now j d ttl s)"
    and invar_destroy [simp]: "invar s \<Longrightarrow> invar (store_destroy S j s)"
    and invar_load [simp]: "invar s \<Longrightarrow> invar (snd (store_load S now j s))"
    and invar_touch [simp]: "invar s \<Longrightarrow> invar (store_touch S now j ttl s)"
begin

definition known :: "'s \<Rightarrow> string \<Rightarrow> bool" where
  "known s i \<longleftrightarrow> (\<exists>t d. fst (store_load S t i s) = Some d)"

lemma known_save: "known (store_save S now j d ttl s) i \<Longrightarrow> invar s \<Longrightarrow> i = j \<or> known s i"
  unfolding known_def using load_after_save by blast

lemma known_destroy:
  assumes "known (store_destroy S j s) i" "invar s"
  shows "i \<noteq> j \<and> known s i"
proof (cases "i = j")
  case True
  then show ?thesis using assms load_destroyed [OF assms(2)] by (simp add: known_def)
next
  case False
  then show ?thesis using assms load_after_destroy [OF assms(2) False] by (simp add: known_def)
qed

lemma known_load: "known (snd (store_load S now j s)) i \<Longrightarrow> invar s \<Longrightarrow> known s i"
  unfolding known_def using load_after_load by blast

lemma known_touch: "known (store_touch S now j ttl s) i \<Longrightarrow> invar s \<Longrightarrow> known s i"
  unfolding known_def using load_after_touch by blast

text \<open>The call of the middleware: only the id it generated becomes known.\<close>

lemma existing_store:
  assumes "existing_session S opts now req s = (e, s1)" "invar s"
  shows "invar s1" "known s1 i \<Longrightarrow> known s i"
proof -
  have "invar s1 \<and> (known s1 i \<longrightarrow> known s i)"
  proof (cases "req_cookies req (opt_cookie_name opts)")
    case (Some j)
    obtain d s' where l: "store_load S now j s = (d, s')" by force
    then have "invar s'" "known s' i \<Longrightarrow> known s i"
      using invar_load [OF assms(2), of now j] known_load [of now j s i] assms(2) by simp_all
    then show ?thesis using assms Some l by (auto simp: existing_session_def split: if_splits option.splits)
  qed (use assms in \<open>simp add: existing_session_def\<close>)
  then show "invar s1" "known s1 i \<Longrightarrow> known s i" by blast+
qed

lemma existing_known: "existing_session S opts now req s = (Some (i, d), s1) \<Longrightarrow> fst (store_load S now i s) = Some d"
  by (auto simp: existing_session_def split: option.splits if_splits prod.splits)

lemma call_ids:
  assumes "SessionManager_call S opts r now req s = (Return ses, req', s')"
  shows "fst (store_load S now (session_ident ses) s) = Some (session_data ses) \<or> generate_session_id r = Return (session_ident ses)"
    and "previous_id ses = []"
proof -
  obtain e s1 where e: "existing_session S opts now req s = (e, s1)" by force
  have "(fst (store_load S now (session_ident ses) s) = Some (session_data ses) \<or> generate_session_id r = Return (session_ident ses)) \<and>
      previous_id ses = []"
  proof (cases e)
    case None
    then show ?thesis using assms e by (auto simp: SessionManager_call_def split: outcome.splits)
  next
    case (Some p)
    then show ?thesis using assms e existing_known by (cases p) (auto simp: SessionManager_call_def)
  qed
  then show "fst (store_load S now (session_ident ses) s) = Some (session_data ses) \<or> generate_session_id r = Return (session_ident ses)"
    and "previous_id ses = []" by blast+
qed

lemma call_store:
  assumes "invar s"
  shows "invar (snd (snd (SessionManager_call S opts r now req s)))"
    and "known (snd (snd (SessionManager_call S opts r now req s))) i \<Longrightarrow> known s i \<or> generate_session_id r = Return i"
proof -
  obtain e s1 where e: "existing_session S opts now req s = (e, s1)" by force
  note k = existing_store [OF e assms]
  show "invar (snd (snd (SessionManager_call S opts r now req s)))"
    using e k(1) by (auto simp: SessionManager_call_def split: option.splits outcome.splits)
  show "known s i \<or> generate_session_id r = Return i" if "known (snd (snd (SessionManager_call S opts r now req s))) i"
  proof (cases e)
    case None
    then show ?thesis
      using that e k by (auto simp: SessionManager_call_def split: outcome.splits if_splits dest: known_save)
  next
    case (Some p)
    then show ?thesis using that e k by (cases p) (auto simp: SessionManager_call_def dest: known_touch)
  qed
qed

lemma commit_store:
  assumes "invar s"
  shows "invar (snd (session_commit S opts now ses res s))"
    and "known (snd (session_commit S opts now ses res s)) i \<Longrightarrow> known s i \<or> i = session_ident ses"
  using assms
  by (simp add: session_commit_def Let_def)
    (auto simp: session_commit_def Let_def assms split: if_splits dest!: known_destroy known_save)

text \<open>What a session's end leaves behind.\<close>

lemma load_destroyed_other:
  "invar s \<Longrightarrow> fst (store_load S t i s) = None \<Longrightarrow> fst (store_load S t i (store_destroy S j s)) = None"
  by (cases "i = j") (simp_all add: load_destroyed load_after_destroy)

lemma commit_destroyed:
  assumes "destroyed ses" "invar s"
  shows "fst (store_load S t (session_ident ses) (snd (session_commit S opts now ses res s))) = None"
    and "previous_id ses \<noteq> [] \<Longrightarrow> fst (store_load S t (previous_id ses) (snd (session_commit S opts now ses res s))) = None"
  using assms by (simp_all add: session_commit_def Let_def load_destroyed load_destroyed_other)

lemma load_not_saved:
  assumes "invar s" "fst (store_load S t i s) = None" "i \<noteq> j"
  shows "fst (store_load S t i (store_save S now j d ttl s)) = None"
  using load_after_save [OF assms(1,3), of t now d ttl] assms(2)
  by (cases "fst (store_load S t i (store_save S now j d ttl s))") auto

lemma commit_previous_dead:
  assumes "previous_id ses \<noteq> []" "previous_id ses \<noteq> session_ident ses" "invar s"
  shows "fst (store_load S t (previous_id ses) (snd (session_commit S opts now ses res s))) = None"
proof (cases "destroyed ses")
  case True
  then show ?thesis using assms(3,1) by (rule commit_destroyed)
next
  case False
  then show ?thesis
    using assms by (auto simp: session_commit_def Let_def load_destroyed intro: load_not_saved)
qed

lemma commit_saved:
  assumes "\<not> destroyed ses" "dirty ses" "now \<le> t" "t < now + seconds (ttl_seconds opts)" "invar s"
  shows "fst (store_load S t (session_ident ses) (snd (session_commit S opts now ses res s))) = Some (session_data ses)"
  using assms load_saved by (simp add: session_commit_def Let_def)

lemma next_request_sees:
  assumes "fst (store_load S now i s) = Some d" "is_well_formed i" "req_cookies req (opt_cookie_name opts) = Some i"
  shows "\<exists>ses. fst (SessionManager_call S opts r now req s) = Return ses \<and> session_ident ses = i \<and>
      session_data ses = d \<and> \<not> is_new ses"
proof -
  obtain s' where "store_load S now i s = (Some d, s')" using assms(1) by (metis prod.collapse)
  then show ?thesis using assms(2,3) by (simp add: SessionManager_call_def existing_session_def)
qed

text \<open>However requests interleave, the store knows only ids the generator gave.\<close>

definition ids_issued :: "'s session_world \<Rightarrow> bool" where
  "ids_issued w \<longleftrightarrow>
     invar (the_store w) \<and> (\<forall>i. known (the_store w) i \<longrightarrow> i \<in> set (issued w)) \<and>
     (\<forall>ses\<in>set (inflight w). session_ident ses \<in> set (issued w))"

lemma ids_issued_inflight:
  "ids_issued w \<Longrightarrow> session_ident ses \<in> set ids \<union> set (issued w) \<Longrightarrow>
   ids_issued (w\<lparr>inflight := (inflight w)[n := ses], issued := ids @ issued w\<rparr>)"
  using set_update_subset_insert [of "inflight w" n ses] by (auto simp: ids_issued_def)

lemma ids_issued_handler:
  "ids_issued w \<Longrightarrow> n < length (inflight w) \<Longrightarrow> session_ident ses = session_ident (inflight w ! n) \<Longrightarrow>
   ids_issued (w\<lparr>inflight := (inflight w)[n := ses]\<rparr>)"
  using set_update_subset_insert [of "inflight w" n ses] by (auto simp: ids_issued_def)

lemma step_ids_issued: "session_step S opts w w' \<Longrightarrow> ids_issued w \<Longrightarrow> ids_issued w'"
proof (induction rule: session_step.induct)
  case (ses_begin r now req w ses req' s')
  have inv: "invar (the_store w)" and old: "\<And>i. known (the_store w) i \<Longrightarrow> i \<in> set (issued w)"
    using ses_begin.prems by (simp_all add: ids_issued_def)
  have "session_ident ses \<in> set (ids_of r @ issued w)"
    using call_ids(1) [OF ses_begin.hyps] old by (auto simp: ids_of_def known_def)
  moreover have "i \<in> set (ids_of r @ issued w)" if "known s' i" for i
    using call_store(2) [OF inv, of opts r now req i] that ses_begin.hyps old by (auto simp: ids_of_def)
  moreover have "invar s'" using call_store(1) [OF inv, of opts r now req] ses_begin.hyps by simp
  ultimately show ?case using ses_begin.prems by (auto simp: ids_issued_def)
next
  case (ses_fail r now req w e req' s')
  have inv: "invar (the_store w)" using ses_fail.prems by (simp add: ids_issued_def)
  have "generate_session_id r \<noteq> Return i" for i
    using ses_fail.hyps by (auto simp: SessionManager_call_def split: prod.splits option.splits outcome.splits)
  with call_store [OF inv, of opts r now req] ses_fail show ?case by (auto simp: ids_issued_def)
next
  case (ses_regenerate n w r)
  have "session_ident (snd (session_regenerate r (inflight w ! n))) \<in> set (ids_of r) \<union> set (issued w)"
    using ses_regenerate by (auto simp: session_regenerate_def ids_of_def ids_issued_def Let_def split: outcome.splits)
  with ses_regenerate.prems show ?case by (rule ids_issued_inflight)
next
  case (ses_commit n w now res)
  then have "session_ident (inflight w ! n) \<in> set (issued w)" "invar (the_store w)"
    "\<And>i. known (the_store w) i \<Longrightarrow> i \<in> set (issued w)" by (simp_all add: ids_issued_def)
  then show ?case
    using commit_store [of "the_store w" opts now "inflight w ! n" res] ses_commit.prems
    by (auto simp: ids_issued_def dest: in_set_takeD in_set_dropD)
qed (auto intro!: ids_issued_handler simp: session_set_def session_erase_def session_destroy_def)

lemma steps_ids_issued: "(session_step S opts)\<^sup>*\<^sup>* w w' \<Longrightarrow> ids_issued w \<Longrightarrow> ids_issued w'"
  by (induction rule: rtranclp_induct) (auto intro: step_ids_issued)

end

section \<open>The memory store provides it\<close>

definition memory_ok :: "MemorySessionStore \<Rightarrow> bool" where
  "memory_ok m \<longleftrightarrow> distinct (map fst (sessions m))"

lemma map_of_put [simp]: "map_of (put_session i e es) = (map_of es)(i \<mapsto> e)"
  by (induction es) (auto simp: fun_eq_iff)

lemma map_of_erase [simp]: "map_of (erase_session i es) = (map_of es)(i := None)"
  by (induction es) (auto simp: erase_session_def fun_eq_iff)

lemma keys_put: "map fst (put_session i e es) = (if map_of es i = None then map fst es @ [i] else map fst es)"
  by (induction es) auto

lemma length_put: "length (put_session i e es) = length es + (if map_of es i = None then 1 else 0)"
  by (induction es) auto

lemma distinct_put: "distinct (map fst es) \<Longrightarrow> distinct (map fst (put_session i e es))"
  by (simp add: keys_put map_of_eq_None_iff)

lemma distinct_erase: "distinct (map fst es) \<Longrightarrow> distinct (map fst (erase_session i es))"
  by (simp add: erase_session_def distinct_map_filter)

lemma evict_loop_sub:
  "map_of (evict_loop n es) i = Some e \<Longrightarrow> map_of es i = Some e"
proof (induction n es rule: evict_loop.induct)
  case (1 n es)
  then show ?case by (subst (asm) (2) evict_loop.simps) (auto split: if_splits)
qed

lemma evict_loop_distinct: "distinct (map fst es) \<Longrightarrow> distinct (map fst (evict_loop n es))"
proof (induction n es rule: evict_loop.induct)
  case (1 n es)
  then show ?case by (subst evict_loop.simps) (auto simp: distinct_erase)
qed

lemma evict_loop_length: "length (evict_loop n es) \<le> n - 1"
proof (induction n es rule: evict_loop.induct)
  case (1 n es)
  then show ?case by (subst evict_loop.simps) auto
qed

lemma map_of_unexpired:
  "distinct (map fst es) \<Longrightarrow> map_of (filter (\<lambda>(_, e). P e) es) i = Some e \<Longrightarrow> map_of es i = Some e"
  by (metis (no_types, lifting) distinct_map_filter filter_is_subset map_of_eq_Some_iff subsetD)

lemma memory_save_other:
  assumes "memory_ok m" "i \<noteq> j" "map_of (sessions (memory_save now j d ttl m)) i = Some e"
  shows "map_of (sessions m) i = Some e"
  using assms map_of_unexpired [of "sessions m"]
  by (auto simp: memory_save_def evict_locked_def memory_ok_def Let_def split: if_splits dest!: evict_loop_sub)

lemma memory_ok_save: "memory_ok m \<Longrightarrow> memory_ok (memory_save now j d ttl m)"
  by (auto simp: memory_ok_def memory_save_def evict_locked_def Let_def intro!: distinct_put evict_loop_distinct distinct_map_filter)

lemma fst_memory_load:
  "fst (memory_load t i m) = (case map_of (sessions m) i of None \<Rightarrow> None | Some e \<Rightarrow> if expires e \<le> t then None else Some (entry_data e))"
  by (simp add: memory_load_def split: option.splits)

interpretation memory: session_store memory_store memory_ok
proof (unfold_locales, goal_cases)
  case (1 s now t ttl i d)
  then show ?case by (simp add: memory_store_def fst_memory_load memory_save_def Let_def)
next
  case (2 s i j t now d ttl d')
  then show ?case
    using memory_save_other [OF 2(1,2), of now d ttl]
    by (auto simp: memory_store_def fst_memory_load split: option.splits if_splits)
next
  case (3 s t i)
  then show ?case by (simp add: memory_store_def fst_memory_load memory_destroy_def)
next
  case (4 s i j t)
  then show ?case by (simp add: memory_store_def fst_memory_load memory_destroy_def)
next
  case (5 s t i now j d)
  then show ?case
    by (auto simp: memory_store_def fst_memory_load memory_load_def split: option.splits if_splits)
next
  case (6 s t i now j ttl d)
  show ?case
  proof (cases "map_of (sessions s) i")
    case None
    with 6 show ?thesis by (auto simp: memory_store_def fst_memory_load memory_touch_def split: option.splits if_splits)
  next
    case (Some e)
    then have "fst (memory_load (expires e - 1) i s) = Some (entry_data e)" by (simp add: fst_memory_load)
    moreover have "d = entry_data e"
      using 6 Some by (auto simp: memory_store_def fst_memory_load memory_touch_def split: option.splits if_splits)
    ultimately show ?thesis by (auto simp: memory_store_def)
  qed
next
  case (7 s now j d ttl)
  then show ?case by (simp add: memory_store_def memory_ok_save)
qed (auto simp: memory_store_def memory_destroy_def memory_load_def memory_touch_def memory_ok_def distinct_erase distinct_put
      split: option.splits)


section \<open>Identifiers are well formed\<close>

lemma hex_lower_digit: "n < 16 \<Longrightarrow> isdigit (hex_lower n) \<or> (97 \<le> byte_of (hex_lower n) \<and> byte_of (hex_lower n) \<le> 102)"
proof -
  have "\<forall>n\<in>set [0..<16]. isdigit (hex_lower n) \<or> (97 \<le> byte_of (hex_lower n) \<and> byte_of (hex_lower n) \<le> 102)" by code_simp
  then show "n < 16 \<Longrightarrow> ?thesis" by simp
qed

lemma nibbles: "unat (drop_bit 4 (b :: 8 word)) < 16" "unat (and b 0x0F) < 16"
proof -
  have "unat b < 2 ^ 8" using unsigned_less [of b] by simp
  then have "take_bit 8 (unat b) div 16 < 16" by (simp add: take_bit_nat_eq_self)
  then show "unat (drop_bit 4 b) < 16"
    by (subst unsigned_drop_bit_eq) (simp add: drop_bit_eq_div)
  have "and b 0x0F = take_bit 4 b" by (simp add: take_bit_eq_mask mask_numeral)
  moreover have "unat (take_bit 4 b) = take_bit 4 (unat b)" by (rule unsigned_take_bit_eq)
  ultimately show "unat (and b 0x0F) < 16" by (simp add: take_bit_eq_mod)
qed

lemma random_hex_well_formed: "length bytes = 32 \<Longrightarrow> is_well_formed (secure_random_hex bytes)"
proof -
  have "length (secure_random_hex bytes) = 2 * length bytes" for bytes
    by (induction bytes) (simp_all add: secure_random_hex_def)
  moreover have "list_all (\<lambda>c. isdigit c \<or> (97 \<le> byte_of c \<and> byte_of c \<le> 102)) (secure_random_hex bytes)"
    using hex_lower_digit [OF nibbles(1)] hex_lower_digit [OF nibbles(2)] by (auto simp: secure_random_hex_def list_all_iff)
  ultimately show "length bytes = 32 \<Longrightarrow> ?thesis" by (simp add: is_well_formed_def)
qed


section \<open>Properties\<close>

definition default_options :: SessionOptions where
  "default_options =
     \<lparr>opt_cookie_name = ''session_id'', ttl_seconds = 86400, opt_secure = False, opt_same_site = ''Lax'', save_uninitialized = True\<rparr>"

definition empty_world :: "nat \<Rightarrow> MemorySessionStore session_world" where
  "empty_world n = \<lparr>the_store = new_memory_store n, inflight = [], issued = []\<rparr>"

text \<open>
  C7: The server chooses every session id: starting from an empty memory store, however requests with
  any cookies and handlers interleave, an id that can be loaded from the store, and the id of every
  request's session, was given by the server's own generator. A planted cookie is never adopted.
\<close>

theorem session_ids_server_chosen:
  assumes "(session_step memory_store opts)\<^sup>*\<^sup>* (empty_world n) w"
  shows "(fst (memory_load t i (the_store w)) \<noteq> None \<longrightarrow> i \<in> set (issued w)) \<and>
         (\<forall>ses\<in>set (inflight w). session_ident ses \<in> set (issued w))"
proof -
  have load: "store_load memory_store = memory_load" by (simp add: memory_store_def)
  have "memory.ids_issued (empty_world n)"
    by (simp add: memory.ids_issued_def memory.known_def load fst_memory_load)
      (simp add: empty_world_def new_memory_store_def memory_ok_def)
  then have "memory.ids_issued w" using memory.steps_ids_issued [OF assms] by blast
  then show ?thesis by (auto simp: memory.ids_issued_def memory.known_def load)
qed

text \<open>A request with a planted cookie, for the witnesses.\<close>

definition planted :: HttpRequest where
  "planted = empty_request\<lparr>req_cookies := [''session_id'' \<mapsto> replicate 64 CHR ''a'']\<rparr>"

definition demo_bytes :: "8 word list" where
  "demo_bytes = replicate 32 0x5C"

lemma demo_call:
  "SessionManager_call memory_store default_options (Some demo_bytes) 0 planted (new_memory_store 8) =
     (Return \<lparr>session_ident = secure_random_hex demo_bytes, previous_id = [], session_data = Map.empty, is_new = True, dirty = False, destroyed = False\<rparr>,
      planted\<lparr>session_id := secure_random_hex demo_bytes\<rparr>,
      memory_save 0 (secure_random_hex demo_bytes) Map.empty 86400 (new_memory_store 8))"
  by (simp add: SessionManager_call_def existing_session_def planted_def default_options_def memory_store_def
      memory_load_def new_memory_store_def generate_session_id_def)

theorem session_ids_server_chosen_witness:
  "\<exists>w ses. (session_step memory_store default_options)\<^sup>*\<^sup>* (empty_world 8) w \<and> inflight w = [ses] \<and>
     session_ident ses \<in> set (issued w) \<and> session_ident ses \<noteq> replicate 64 CHR ''a''"
proof -
  let ?i = "secure_random_hex demo_bytes"
  let ?ses = "\<lparr>session_ident = ?i, previous_id = [], session_data = Map.empty, is_new = True, dirty = False, destroyed = False\<rparr>"
  let ?w = "(empty_world 8)\<lparr>the_store := memory_save 0 ?i Map.empty 86400 (new_memory_store 8), inflight := inflight (empty_world 8) @ [?ses],
    issued := ids_of (Some demo_bytes) @ issued (empty_world 8)\<rparr>"
  have "session_step memory_store default_options (empty_world 8) ?w"
    by (rule ses_begin [where now = 0 and req = planted and req' = "planted\<lparr>session_id := ?i\<rparr>"]) (simp add: demo_call empty_world_def)
  then have r: "(session_step memory_store default_options)\<^sup>*\<^sup>* (empty_world 8) ?w" by (rule r_into_rtranclp)
  moreover have "?i \<noteq> replicate 64 CHR ''a''" by code_simp
  moreover have "inflight ?w = [?ses]" by (simp add: empty_world_def)
  moreover have "session_ident ?ses \<in> set (issued ?w)" using session_ids_server_chosen [OF r] \<open>inflight ?w = [?ses]\<close> by simp
  ultimately show ?thesis by (metis Session.select_convs(1))
qed

text \<open>
  What one request stores the next one reads: a value set in a session is there when a request
  with the session's cookie comes before the lifetime has passed, with the same id and data.
\<close>

theorem session_roundtrip:
  assumes "SessionManager_call memory_store opts (Some bytes) t0 req m = (Return ses, req', m')" "length bytes = 32" "memory_ok m'"
    and "session_commit memory_store opts now (session_set k v ses) res m' = (res', m'')"
    and "req_cookies req2 (opt_cookie_name opts) = Some (session_ident ses)"
    and "now \<le> t" "t < now + seconds (ttl_seconds opts)"
  shows "\<exists>ses2. fst (SessionManager_call memory_store opts r t req2 m'') = Return ses2 \<and> \<not> is_new ses2 \<and>
           session_ident ses2 = session_ident ses \<and> session_get k ses2 = Some v"
proof -
  have "is_well_formed (session_ident ses) \<and> \<not> destroyed ses"
  proof -
    have "\<not> destroyed ses" "session_ident ses = secure_random_hex bytes \<or> is_well_formed (session_ident ses)"
      using assms(1) by (auto simp: SessionManager_call_def existing_session_def generate_session_id_def
          split: prod.splits option.splits if_splits)
    then show ?thesis using random_hex_well_formed [OF assms(2)] by metis
  qed
  moreover from this have "fst (store_load memory_store t (session_ident ses) m'') = Some ((session_data ses)(k \<mapsto> v))"
    using memory.commit_saved [of "session_set k v ses" now t opts m' res] assms(3,4,6,7) by (simp add: session_set_def)
  ultimately show ?thesis
    using memory.next_request_sees [of t "session_ident ses" m'' "(session_data ses)(k \<mapsto> v)" req2 opts r] assms(5)
    by (auto simp: session_get_def)
qed

theorem session_roundtrip_witness:
  "\<exists>ses2. fst (SessionManager_call memory_store default_options None 5
       (empty_request\<lparr>req_cookies := [''session_id'' \<mapsto> secure_random_hex demo_bytes]\<rparr>)
       (snd (session_commit memory_store default_options 1 (session_set ''user'' ''ann''
          \<lparr>session_ident = secure_random_hex demo_bytes, previous_id = [], session_data = Map.empty, is_new = True, dirty = False, destroyed = False\<rparr>)
          new_response (memory_save 0 (secure_random_hex demo_bytes) Map.empty 86400 (new_memory_store 8))))) = Return ses2 \<and>
     \<not> is_new ses2 \<and> session_ident ses2 = secure_random_hex demo_bytes \<and> session_get ''user'' ses2 = Some ''ann''"
proof -
  have "memory_ok (memory_save 0 (secure_random_hex demo_bytes) Map.empty 86400 (new_memory_store 8))"
    by (rule memory_ok_save) (simp add: memory_ok_def new_memory_store_def)
  from session_roundtrip [OF demo_call _ this prod.collapse [symmetric]] show ?thesis
    by (simp add: demo_bytes_def default_options_def seconds_def)
qed

text \<open>
  \<open>regenerate\<close> moves the session: after the response has gone out, the id from before can no longer
  be loaded at any time, and the data is found under the new id until the lifetime ends, and the
  response carries the new id as the cookie.
\<close>

theorem regenerate_moves_session:
  assumes "session_regenerate r ses = (Return u, ses')" "previous_id ses = []" "\<not> is_new ses" "\<not> destroyed ses"
    and "session_ident ses \<noteq> []" "session_ident ses' \<noteq> session_ident ses" "memory_ok m"
    and "session_commit memory_store opts now ses' res m = (res', m')" "now \<le> t" "t < now + seconds (ttl_seconds opts)"
  shows "fst (memory_load t' (session_ident ses) m') = None \<and>
         fst (memory_load t (session_ident ses') m') = Some (session_data ses) \<and>
         cookie_value (last (cookies res')) = session_ident ses'"
proof -
  have s: "previous_id ses' = session_ident ses" "session_data ses' = session_data ses" "dirty ses'" "\<not> destroyed ses'"
    using assms(1-4) by (auto simp: session_regenerate_def Let_def split: outcome.splits)
  have m': "snd (session_commit memory_store opts now ses' res m) = m'" "fst (session_commit memory_store opts now ses' res m) = res'"
    using assms(8) by simp_all
  have "fst (store_load memory_store t' (session_ident ses) m') = None"
    using memory.commit_previous_dead [of ses' m t' opts now res] s assms(5-7) m' by simp
  moreover have "fst (store_load memory_store t (session_ident ses') m') = Some (session_data ses)"
    using memory.commit_saved [of ses' now t opts m res] s assms(7,9,10) m' by simp
  moreover have "cookie_value (last (cookies res')) = session_ident ses'"
    using s assms(5) m'(2) by (auto simp: session_commit_def session_cookie_def set_cookie_def Let_def)
  ultimately show ?thesis by (simp add: memory_store_def)
qed

theorem regenerate_moves_session_witness:
  "let old = \<lparr>session_ident = ''x'', previous_id = [], session_data = [''user'' \<mapsto> ''ann''], is_new = False, dirty = False, destroyed = False\<rparr>;
       m = memory_save 0 ''x'' [''user'' \<mapsto> ''ann''] 60 (new_memory_store 8);
       m' = snd (session_commit memory_store default_options 1 (snd (session_regenerate (Some demo_bytes) old)) new_response m)
   in fst (memory_load 2 ''x'' m') = None \<and> fst (memory_load 2 (secure_random_hex demo_bytes) m') = Some [''user'' \<mapsto> ''ann'']"
proof -
  let ?old = "\<lparr>session_ident = ''x'', previous_id = [], session_data = [''user'' \<mapsto> ''ann''], is_new = False, dirty = False, destroyed = False\<rparr>"
  have ok: "memory_ok (memory_save 0 ''x'' [''user'' \<mapsto> ''ann''] 60 (new_memory_store 8))"
    by (rule memory_ok_save) (simp add: memory_ok_def new_memory_store_def)
  have r: "session_regenerate (Some demo_bytes) ?old =
     (Return (), ?old\<lparr>previous_id := ''x'', session_ident := secure_random_hex demo_bytes, dirty := True\<rparr>)"
    by (simp add: session_regenerate_def generate_session_id_def Let_def)
  have "secure_random_hex demo_bytes \<noteq> ''x''" by code_simp
  with regenerate_moves_session [OF r _ _ _ _ _ ok prod.collapse [symmetric], where opts = default_options and now = 1 and t = 2 and t' = 2 and res = new_response] r
  show ?thesis by (simp add: default_options_def seconds_def Let_def)
qed

text \<open>
  \<open>destroy\<close> ends the session: once the response has gone out neither its id nor the id it had before
  \<open>regenerate\<close> can be loaded, and a browser that had the cookie is told to drop it.
\<close>

theorem destroyed_session_dead:
  assumes "memory_ok m" "session_commit memory_store opts now (session_destroy ses) res m = (res', m')"
  shows "fst (memory_load t (session_ident ses) m') = None \<and>
         (previous_id ses \<noteq> [] \<longrightarrow> fst (memory_load t (previous_id ses) m') = None) \<and>
         (\<not> is_new ses \<longrightarrow> cookies res' = cookies res @ [session_cookie opts [] 0])"
proof -
  have m': "snd (session_commit memory_store opts now (session_destroy ses) res m) = m'"
    "fst (session_commit memory_store opts now (session_destroy ses) res m) = res'"
    using assms(2) by simp_all
  have "destroyed (session_destroy ses)" by (simp add: session_destroy_def)
  from memory.commit_destroyed [OF this assms(1), of t opts now res] m'(1)
  have "fst (store_load memory_store t (session_ident ses) m') = None \<and>
      (previous_id ses \<noteq> [] \<longrightarrow> fst (store_load memory_store t (previous_id ses) m') = None)"
    by (simp add: session_destroy_def)
  moreover have "\<not> is_new ses \<longrightarrow> cookies res' = cookies res @ [session_cookie opts [] 0]"
    using m'(2) by (auto simp: session_commit_def session_destroy_def set_cookie_def Let_def)
  ultimately show ?thesis by (simp add: memory_store_def)
qed

theorem destroyed_session_dead_witness:
  "fst (memory_load 3 ''x'' (snd (session_commit memory_store default_options 1
     (session_destroy \<lparr>session_ident = ''x'', previous_id = [], session_data = Map.empty, is_new = False, dirty = False, destroyed = False\<rparr>)
     new_response (memory_save 0 ''x'' Map.empty 60 (new_memory_store 8))))) = None"
proof -
  have "memory_ok (memory_save 0 ''x'' Map.empty 60 (new_memory_store 8))"
    by (rule memory_ok_save) (simp add: memory_ok_def new_memory_store_def)
  from destroyed_session_dead [OF this prod.collapse [symmetric], where t = 3 and ses =
      "\<lparr>session_ident = ''x'', previous_id = [], session_data = Map.empty, is_new = False, dirty = False, destroyed = False\<rparr>"]
  show ?thesis by simp
qed

text \<open>
  That promise does not hold against a request that was already running: it saves the session it
  loaded, and the destroyed id works again.
\<close>

lemma logout_undone_by_running_request:
  assumes "memory_ok m" "\<not> destroyed ses" "session_ident out = session_ident ses" "now \<le> t" "t < now + seconds (ttl_seconds opts)"
  shows "fst (memory_load t (session_ident ses)
           (snd (session_commit memory_store opts now (session_set k v ses) res2
             (snd (session_commit memory_store opts now0 (session_destroy out) res1 m))))) = Some ((session_data ses)(k \<mapsto> v))"
  using memory.commit_saved [of "session_set k v ses" now t opts _ res2, OF _ _ assms(4,5) memory.commit_store(1) [OF assms(1)]] assms(2)
  by (simp add: session_set_def memory_store_def)

datatype store_op = Load int string | Save int string SessionData int | Touch int string int | Destroy string

fun run_store :: "store_op list \<Rightarrow> MemorySessionStore \<Rightarrow> MemorySessionStore" where
  "run_store [] m = m"
| "run_store (Load now i # ops) m = run_store ops (snd (memory_load now i m))"
| "run_store (Save now i d ttl # ops) m = run_store ops (memory_save now i d ttl m)"
| "run_store (Touch now i ttl # ops) m = run_store ops (memory_touch now i ttl m)"
| "run_store (Destroy i # ops) m = run_store ops (memory_destroy i m)"

lemma length_evicted: "length (sessions (evict_locked now m)) \<le> max_sessions m - 1"
  using evict_loop_length by (simp add: evict_locked_def)

definition memory_bounded :: "MemorySessionStore \<Rightarrow> bool" where
  "memory_bounded m \<longleftrightarrow> memory_ok m \<and> length (sessions m) \<le> max 1 (max_sessions m)"

lemma save_bounded: "memory_bounded m \<Longrightarrow> memory_bounded (memory_save now i d ttl m)"
  using length_evicted [of now m] memory_ok_save [of m now i d ttl]
  by (auto simp: memory_bounded_def memory_save_def length_put Let_def evict_locked_def split: if_splits)

lemma max_sessions_const [simp]:
  "max_sessions (memory_save now i d ttl m) = max_sessions m" "max_sessions (memory_touch now i ttl m) = max_sessions m"
  "max_sessions (memory_destroy i m) = max_sessions m" "max_sessions (snd (memory_load now i m)) = max_sessions m"
  by (simp_all add: memory_save_def memory_touch_def memory_destroy_def memory_load_def evict_locked_def Let_def split: option.split)

lemma other_bounded:
  assumes "memory_bounded m"
  shows "memory_bounded (snd (memory_load now i m))" "memory_bounded (memory_touch now i ttl m)" "memory_bounded (memory_destroy i m)"
proof -
  have "length (erase_session i (sessions m)) \<le> max 1 (max_sessions m)"
    using assms order_trans [OF length_filter_le] unfolding erase_session_def memory_bounded_def by blast
  then show "memory_bounded (snd (memory_load now i m))" "memory_bounded (memory_touch now i ttl m)" "memory_bounded (memory_destroy i m)"
    using assms
    by (simp_all add: memory_bounded_def memory_ok_def memory_load_def memory_touch_def memory_destroy_def distinct_erase distinct_put length_put
        split: option.split)
qed

lemma run_store_bounded: "memory_bounded m \<Longrightarrow> memory_bounded (run_store ops m) \<and> max_sessions (run_store ops m) = max_sessions m"
  by (induction ops m rule: run_store.induct) (simp_all add: save_bounded other_bounded)

text \<open>
  C15: The memory store is bounded: no sequence of operations makes it hold more than \<open>max_sessions\<close>
  sessions (or one, if that is zero), and none twice.
\<close>

theorem memory_store_bounded:
  "memory_size (run_store ops (new_memory_store n)) \<le> max 1 n \<and> distinct (map fst (sessions (run_store ops (new_memory_store n))))"
  using run_store_bounded [of "new_memory_store n" ops]
  by (auto simp: memory_bounded_def memory_ok_def new_memory_store_def memory_size_def)

end
