(* ===== verification/C_Numbers.thy ===== *)
theory C_Numbers
  imports Http_Text Complex_Main
begin

text \<open>
  Numbers as the C and C++ library read them: \<^verbatim>\<open>strtod\<close> and \<^verbatim>\<open>std::stod\<close>, \<^verbatim>\<open>std::stoll\<close>. A finite double is
  the rational it stands for, rounding left out.
\<close>

section \<open>Reading numbers\<close>

definition isspace :: "char \<Rightarrow> bool" where
  "isspace c \<longleftrightarrow> c = CHR '' '' \<or> 9 \<le> byte_of c \<and> byte_of c \<le> 13"

datatype double = Finite rat | Infinite bool | NaN

text \<open>Digits with an optional point: what comes before it, what comes after it, the rest.\<close>

definition scan_mantissa :: "(char \<Rightarrow> bool) \<Rightarrow> string \<Rightarrow> string \<times> string \<times> string" where
  "scan_mantissa digit s =
     (let a = takeWhile digit s; r = dropWhile digit s
      in case r of
           c # r' \<Rightarrow> if c = CHR ''.'' then (a, takeWhile digit r', dropWhile digit r') else (a, [], r)
         | [] \<Rightarrow> (a, [], []))"

text \<open>An exponent is taken only when digits follow the letter and its sign.\<close>

definition scan_exponent :: "char \<Rightarrow> string \<Rightarrow> int \<times> string" where
  "scan_exponent letter s =
     (case s of
        c # r \<Rightarrow>
          if tolower c = letter then
            (let (neg, r') = (case r of d # r1 \<Rightarrow> if d = CHR ''-'' then (True, r1) else if d = CHR ''+'' then (False, r1) else (False, r)
                                      | [] \<Rightarrow> (False, r));
                 ds = takeWhile isdigit r'
             in if ds = [] then (0, s)
                else (if neg then - int (dec_value ds) else int (dec_value ds), dropWhile isdigit r'))
          else (0, s)
      | [] \<Rightarrow> (0, s))"

definition scale :: "rat \<Rightarrow> int \<Rightarrow> rat" where
  "scale b e = (if 0 \<le> e then b ^ nat e else 1 / b ^ nat (- e))"

definition iprefix :: "string \<Rightarrow> string \<Rightarrow> bool" where
  "iprefix p s \<longleftrightarrow> length p \<le> length s \<and> iequals (take (length p) s) p"

text \<open>The rest of a NaN: \<^verbatim>\<open>nan(chars)\<close> takes the parenthesis too.\<close>

definition after_nan :: "string \<Rightarrow> string" where
  "after_nan r =
     (case r of
        c # r' \<Rightarrow>
          if c = CHR ''('' then
            (case dropWhile (\<lambda>c. isalnum c \<or> c = CHR ''_'') r' of d # r2 \<Rightarrow> if d = CHR '')'' then r2 else r | [] \<Rightarrow> r)
          else r
      | [] \<Rightarrow> r)"

text \<open>The unsigned part: a hexadecimal number, a decimal one, an infinity or a NaN.\<close>

definition strtod_unsigned :: "string \<Rightarrow> (double \<times> string) option" where
  "strtod_unsigned s =
     (let (ha, hb, hr) = scan_mantissa isxdigit (drop 2 s);
          (da, db, dr) = scan_mantissa isdigit s
      in if iprefix ''0x'' s \<and> ha @ hb \<noteq> [] then
           (let (e, r) = scan_exponent (CHR ''p'') hr
            in Some (Finite (of_nat (hex_value (ha @ hb)) / 16 ^ length hb * scale 2 e), r))
         else if da @ db \<noteq> [] then
           (let (e, r) = scan_exponent (CHR ''e'') dr
            in Some (Finite (of_nat (dec_value (da @ db)) / 10 ^ length db * scale 10 e), r))
         else if iprefix ''infinity'' s then Some (Infinite False, drop 8 s)
         else if iprefix ''inf'' s then Some (Infinite False, drop 3 s)
         else if iprefix ''nan'' s then Some (NaN, after_nan (drop 3 s))
         else None)"

fun negate_double :: "double \<Rightarrow> double" where
  "negate_double (Finite x) = Finite (- x)"
| "negate_double (Infinite neg) = Infinite (\<not> neg)"
| "negate_double NaN = NaN"

text \<open>\<open>strtod\<close> on a C string: the value and what is left, \<open>None\<close> when nothing was taken.\<close>

definition strtod :: "string \<Rightarrow> (double \<times> string) option" where
  "strtod s =
     (case dropWhile isspace s of
        c # r \<Rightarrow>
          if c = CHR ''-'' then map_option (\<lambda>(v, r). (negate_double v, r)) (strtod_unsigned r)
          else if c = CHR ''+'' then strtod_unsigned r
          else strtod_unsigned (c # r)
      | [] \<Rightarrow> None)"

definition c_str :: "string \<Rightarrow> string" where
  "c_str s = takeWhile (\<lambda>c. c \<noteq> NUL) s"

text \<open>
  \<^verbatim>\<open>std::stoll(s, &pos)\<close> in base ten: blanks, a sign and digits, an exception (\<open>None\<close>) without digits or out of range. The
  result is the value and what is left. \<^verbatim>\<open>std::stod\<close> does the same with \<open>strtod\<close>.
\<close>

definition stoll :: "string \<Rightarrow> (int \<times> string) option" where
  "stoll s =
     (let t = dropWhile isspace s;
          neg = (t \<noteq> [] \<and> hd t = CHR ''-'');
          u = (if t \<noteq> [] \<and> (hd t = CHR ''-'' \<or> hd t = CHR ''+'') then tl t else t);
          ds = takeWhile isdigit u;
          v = (if neg then - int (dec_value ds) else int (dec_value ds))
      in if ds = [] \<or> v < - (2 ^ 63) \<or> v > 2 ^ 63 - 1 then None else Some (v, dropWhile isdigit u))"

definition double_max :: rat where
  "double_max = (2 ^ 53 - 1) * 2 ^ 971"

definition stod :: "string \<Rightarrow> (double \<times> string) option" where
  "stod s =
     (case strtod (c_str s) of
        Some (Finite v, r) \<Rightarrow> if \<bar>v\<bar> > double_max \<or> v \<noteq> 0 \<and> \<bar>v\<bar> < 1 / 2 ^ 1022 then None else Some (Finite v, r)
      | r \<Rightarrow> r)"

end
