(* ===== verification/Compress.thy ===== *)
theory Compress
  imports Routing C_Numbers
begin

text \<open>
  Content codings: \<^verbatim>\<open>src/middleware/Compress.cpp\<close>. The encoders (zlib, brotli, zstd) are parameters,
  absent where the build lacks them; the negotiation, the conditions under which a response is
  compressed and the headers it gets are the code's.

  Quality values are \<^verbatim>\<open>double\<close>s read with \<^verbatim>\<open>strtod\<close>: rationals here, rounding left out, with
  \<open>None\<close> for a NaN, for which every comparison is false.
\<close>

section \<open>Negotiation\<close>

datatype ContentCoding = Identity | Gzip | Brotli | Zstd

definition icontains :: "string \<Rightarrow> string \<Rightarrow> bool" where
  "icontains haystack needle \<longleftrightarrow>
     length needle \<le> length haystack \<and>
     list_ex (\<lambda>i. iequals (take (length needle) (drop i haystack)) needle) [0..<length haystack + 1 - length needle]"

definition quality_value :: "string \<Rightarrow> rat option" where
  "quality_value text =
     (case strtod (c_str text) of
        None \<Rightarrow> Some 0
      | Some (v, rest) \<Rightarrow>
          if rest \<noteq> [] then Some 0
          else case v of
              Finite q \<Rightarrow> if q < 0 \<or> q > 1 then Some 0 else Some q
            | Infinite _ \<Rightarrow> Some 0
            | NaN \<Rightarrow> None)"

fun quality_params :: "string list \<Rightarrow> rat option" where
  "quality_params [] = Some 1"
| "quality_params (p # ps) =
     (let param = trim p
      in if length param > 2 \<and> tolower (param ! 0) = CHR ''q'' \<and> param ! 1 = CHR ''=''
         then quality_value (drop 2 param) else quality_params ps)"

definition quality :: "string \<Rightarrow> rat option" where
  "quality params = quality_params (list_elements (CHR '';'') params)"

text \<open>Comparisons of doubles: false when one is a NaN; \<^verbatim>\<open>std::max(a, b)\<close> is \<open>b\<close> only if \<open>a < b\<close>.\<close>

definition dless :: "rat option \<Rightarrow> rat option \<Rightarrow> bool" where
  "dless a b \<longleftrightarrow> (case (a, b) of (Some x, Some y) \<Rightarrow> x < y | _ \<Rightarrow> False)"

definition dmax :: "rat option \<Rightarrow> rat option \<Rightarrow> rat option" where
  "dmax a b = (if dless a b then b else a)"

record Acceptance =
  acc_gzip :: "rat option"
  acc_br :: "rat option"
  acc_zstd :: "rat option"
  acc_star :: "rat option"

definition accept_element :: "string \<Rightarrow> Acceptance \<Rightarrow> Acceptance" where
  "accept_element text a =
     (let element = trim text;
          (c, params) = split_at (CHR '';'') element;
          coding = trim c;
          q = (case params of None \<Rightarrow> Some 1 | Some ps \<Rightarrow> quality ps)
      in if iequals coding ''gzip'' \<or> iequals coding ''x-gzip'' then a\<lparr>acc_gzip := dmax (acc_gzip a) q\<rparr>
         else if iequals coding ''br'' then a\<lparr>acc_br := dmax (acc_br a) q\<rparr>
         else if iequals coding ''zstd'' then a\<lparr>acc_zstd := dmax (acc_zstd a) q\<rparr>
         else if coding = ''*'' then a\<lparr>acc_star := q\<rparr>
         else a)"

definition parse_accept_encoding :: "string \<Rightarrow> Acceptance" where
  "parse_accept_encoding text =
     fold accept_element (list_elements (CHR '','') text)
       \<lparr>acc_gzip = Some (- 1), acc_br = Some (- 1), acc_zstd = Some (- 1), acc_star = Some (- 1)\<rparr>"

text \<open>The encoders of the build: \<open>None\<close> where the library is not there.\<close>

record encoders =
  gzip_encoder :: "string \<Rightarrow> string option"
  brotli_encoder :: "(string \<Rightarrow> string option) option"
  zstd_encoder :: "(string \<Rightarrow> string option) option"

fun coding_available :: "encoders \<Rightarrow> ContentCoding \<Rightarrow> bool" where
  "coding_available b Identity = True"
| "coding_available b Gzip = True"
| "coding_available b Brotli = (brotli_encoder b \<noteq> None)"
| "coding_available b Zstd = (zstd_encoder b \<noteq> None)"

fun coding_name :: "ContentCoding \<Rightarrow> string" where
  "coding_name Gzip = ''gzip''"
| "coding_name Brotli = ''br''"
| "coding_name Zstd = ''zstd''"
| "coding_name Identity = []"

definition coding_quality :: "Acceptance \<Rightarrow> ContentCoding \<Rightarrow> rat option" where
  "coding_quality a coding =
     (let explicit_q = (if coding = Gzip then acc_gzip a else if coding = Brotli then acc_br a else acc_zstd a)
      in if dless explicit_q (Some 0) \<or> explicit_q = None then dmax (acc_star a) (Some 0) else explicit_q)"

fun negotiate_loop :: "(ContentCoding \<Rightarrow> bool) \<Rightarrow> (ContentCoding \<Rightarrow> rat option) \<Rightarrow> ContentCoding list \<Rightarrow>
    ContentCoding \<Rightarrow> rat option \<Rightarrow> ContentCoding" where
  "negotiate_loop offered q [] best best_q = best"
| "negotiate_loop offered q (c # cs) best best_q =
     (if \<not> offered c then negotiate_loop offered q cs best best_q
      else if dless best_q (q c) then negotiate_loop offered q cs c (q c)
      else negotiate_loop offered q cs best best_q)"

definition negotiate_coding :: "encoders \<Rightarrow> string \<Rightarrow> ContentCoding list \<Rightarrow> bool \<Rightarrow> ContentCoding" where
  "negotiate_coding b accept_encoding preference only_available =
     negotiate_loop (\<lambda>c. \<not> (c = Identity \<or> only_available \<and> \<not> coding_available b c))
       (coding_quality (parse_accept_encoding accept_encoding)) preference Identity (Some 0)"

definition accepts_gzip :: "encoders \<Rightarrow> string \<Rightarrow> bool" where
  "accepts_gzip b accept_encoding \<longleftrightarrow> negotiate_coding b accept_encoding [Gzip] True = Gzip"

section \<open>Compressing a response\<close>

fun compress_body :: "encoders \<Rightarrow> ContentCoding \<Rightarrow> string \<Rightarrow> string option" where
  "compress_body b Gzip body = gzip_encoder b body"
| "compress_body b Brotli body = (case brotli_encoder b of Some f \<Rightarrow> f body | None \<Rightarrow> None)"
| "compress_body b Zstd body = (case zstd_encoder b of Some f \<Rightarrow> f body | None \<Rightarrow> None)"
| "compress_body b Identity body = None"

definition is_compressible_type :: "string \<Rightarrow> bool" where
  "is_compressible_type ct \<longleftrightarrow>
     icontains ct ''image/svg'' \<or>
     \<not> (icontains ct ''image/'' \<or> icontains ct ''video/'' \<or> icontains ct ''audio/'' \<or> icontains ct ''application/zip'' \<or>
        icontains ct ''application/gzip'' \<or> icontains ct ''application/zstd'' \<or> icontains ct ''font/woff'')"

definition add_vary_accept_encoding :: "HttpResponse \<Rightarrow> HttpResponse" where
  "add_vary_accept_encoding res =
     (case hdr_find ''Vary'' (res_headers res) of
        None \<Rightarrow> res_header ''Vary'' ''Accept-Encoding'' res
      | Some v \<Rightarrow>
          if trim v = [] then res_header ''Vary'' ''Accept-Encoding'' res
          else if \<not> icontains v ''accept-encoding'' \<and> trim v \<noteq> ''*'' then res_header ''Vary'' (v @ '', Accept-Encoding'') res
          else res)"

record CompressOptions =
  preference :: "ContentCoding list"
  min_size :: nat

definition leaves_alone :: "CompressOptions \<Rightarrow> HttpResponse \<Rightarrow> bool" where
  "leaves_alone opts res \<longleftrightarrow>
     res_body res = [] \<or> file_fd res \<noteq> - 1 \<or>
     status_code res < 200 \<or> status_code res = 204 \<or> status_code res = 304 \<or>
     length (res_body res) < min_size opts \<or>
     hdr_find ''Content-Encoding'' (res_headers res) \<noteq> None \<or>
     (case hdr_find ''Cache-Control'' (res_headers res) of Some v \<Rightarrow> icontains v ''no-transform'' | None \<Rightarrow> False) \<or>
     (case hdr_find ''Content-Type'' (res_headers res) of Some v \<Rightarrow> \<not> is_compressible_type v | None \<Rightarrow> False)"

definition weaken_etag :: "HttpResponse \<Rightarrow> HttpResponse" where
  "weaken_etag res =
     (case hdr_find ''ETag'' (res_headers res) of
        Some v \<Rightarrow> if take 2 v = ''W/'' then res else res_header ''ETag'' (''W/'' @ v) res
      | None \<Rightarrow> res)"

definition compress_response :: "encoders \<Rightarrow> CompressOptions \<Rightarrow> ContentCoding \<Rightarrow> HttpResponse \<Rightarrow> HttpResponse" where
  "compress_response b opts coding res =
     (if leaves_alone opts res then res
      else let res1 = add_vary_accept_encoding res
           in if coding = Identity then res1
              else case compress_body b coding (res_body res1) of
                  None \<Rightarrow> res1
                | Some body \<Rightarrow>
                    if length body \<ge> length (res_body res1) then res1
                    else weaken_etag
                           (res_header ''Content-Length'' (show_nat (length body))
                             (res_header ''Content-Encoding'' (coding_name coding) (res1\<lparr>res_body := body\<rparr>))))"

definition compress :: "encoders \<Rightarrow> CompressOptions \<Rightarrow> 'x Middleware" where
  "compress b opts req w =
     (let coding = (case hdr_find ''Accept-Encoding'' (req_headers req) of
                      None \<Rightarrow> Identity | Some v \<Rightarrow> negotiate_coding b v (preference opts) True)
      in (Return True, req, add_interceptor (compress_response b opts coding) w))"

interpretation compress: middleware_contract "compress b opts"
  by (rule middleware_contractI) (auto simp: compress_def Let_def)


section \<open>Lemmas\<close>

lemma negotiate_loop_keeps:
  assumes "negotiate_loop offered q cs best (q best) = c"
  shows "(c = best \<and> (\<forall>d\<in>set cs. offered d \<longrightarrow> \<not> dless (q best) (q d))) \<or>
    (\<exists>pre post. cs = pre @ c # post \<and> offered c \<and> dless (q best) (q c) \<and>
       (\<forall>d\<in>set pre. offered d \<longrightarrow> \<not> dless (q c) (q d) \<and> (q d \<noteq> None \<longrightarrow> dless (q d) (q c))) \<and>
       (\<forall>d\<in>set post. offered d \<longrightarrow> \<not> dless (q c) (q d)))"
  using assms
proof (induction cs arbitrary: best)
  case Nil
  then show ?case by simp
next
  case (Cons x cs)
  show ?case
  proof (cases "offered x \<and> dless (q best) (q x)")
    case True
    then have "negotiate_loop offered q cs x (q x) = c" using Cons.prems by simp
    from Cons.IH [OF this] show ?thesis
    proof (elim disjE exE conjE)
      assume "c = x" "\<forall>d\<in>set cs. offered d \<longrightarrow> \<not> dless (q x) (q d)"
      with True show ?thesis by (intro disjI2 exI [of _ "[]"] exI [of _ cs]) auto
    next
      fix pre post
      assume c: "cs = pre @ c # post" "offered c" "dless (q x) (q c)"
        "\<forall>d\<in>set pre. offered d \<longrightarrow> \<not> dless (q c) (q d) \<and> (q d \<noteq> None \<longrightarrow> dless (q d) (q c))"
        "\<forall>d\<in>set post. offered d \<longrightarrow> \<not> dless (q c) (q d)"
      moreover from True c(3) have "dless (q best) (q c)" by (auto simp: dless_def split: option.splits)
      moreover from c(3) have "\<not> dless (q c) (q x)" by (auto simp: dless_def split: option.splits)
      ultimately show ?thesis by (intro disjI2 exI [of _ "x # pre"] exI [of _ post]) auto
    qed
  next
    case False
    then have "negotiate_loop offered q cs best (q best) = c" using Cons.prems by (auto split: if_splits)
    from Cons.IH [OF this] show ?thesis
    proof (elim disjE exE conjE)
      assume "c = best" "\<forall>d\<in>set cs. offered d \<longrightarrow> \<not> dless (q best) (q d)"
      with False show ?thesis by auto
    next
      fix pre post
      assume c: "cs = pre @ c # post" "offered c" "dless (q best) (q c)"
        "\<forall>d\<in>set pre. offered d \<longrightarrow> \<not> dless (q c) (q d) \<and> (q d \<noteq> None \<longrightarrow> dless (q d) (q c))"
        "\<forall>d\<in>set post. offered d \<longrightarrow> \<not> dless (q c) (q d)"
      moreover from False c(3) have "offered x \<longrightarrow> \<not> dless (q c) (q x) \<and> (q x \<noteq> None \<longrightarrow> dless (q x) (q c))"
        by (auto simp: dless_def split: option.splits)
      ultimately show ?thesis by (intro disjI2 exI [of _ "x # pre"] exI [of _ post]) auto
    qed
  qed
qed

lemma icontains_at: "iequals x needle \<Longrightarrow> icontains (pre @ x) needle"
proof -
  assume i: "iequals x needle"
  then have l: "length x = length needle" by (simp add: iequals_def)
  then have "length pre \<in> set [0..<length (pre @ x) + 1 - length needle]" by simp
  moreover have "iequals (take (length needle) (drop (length pre) (pre @ x))) needle" using i l by simp
  ultimately show ?thesis unfolding icontains_def list_ex_iff using l by (auto intro!: bexI [of _ "length pre"])
qed

definition varies :: "HttpResponse \<Rightarrow> bool" where
  "varies res \<longleftrightarrow> (case hdr_find ''Vary'' (res_headers res) of Some v \<Rightarrow> icontains v ''accept-encoding'' \<or> trim v = ''*'' | None \<Rightarrow> False)"

lemma header_names:
  "\<not> iequals ''Content-Length'' ''Vary''" "\<not> iequals ''Content-Encoding'' ''Vary''" "\<not> iequals ''ETag'' ''Vary''"
  "\<not> iequals ''ETag'' ''Content-Encoding''" "\<not> iequals ''Content-Length'' ''Content-Encoding''" "\<not> iequals ''ETag'' ''Content-Length''"
  "\<not> iequals ''Vary'' ''Content-Encoding''"
  by code_simp+

lemma add_vary_varies: "varies (add_vary_accept_encoding res)"
proof -
  have "iequals ''Accept-Encoding'' ''accept-encoding''" by code_simp
  then have "icontains ''Accept-Encoding'' ''accept-encoding''" "icontains (v @ '', Accept-Encoding'') ''accept-encoding''" for v
    using icontains_at [of "''Accept-Encoding''" "''accept-encoding''" "[]"]
      icontains_at [of "''Accept-Encoding''" "''accept-encoding''" "v @ '', ''"] by simp_all
  then show ?thesis by (auto simp: varies_def add_vary_accept_encoding_def res_header_def split: option.splits if_splits)
qed

lemma add_vary_fields [simp]:
  "res_body (add_vary_accept_encoding res) = res_body res"
  "hdr_find ''Content-Encoding'' (res_headers (add_vary_accept_encoding res)) = hdr_find ''Content-Encoding'' (res_headers res)"
  by (auto simp: add_vary_accept_encoding_def res_header_def header_names split: option.split)

lemma weaken_fields [simp]:
  "res_body (weaken_etag res) = res_body res" "varies (weaken_etag res) = varies res"
  "hdr_find ''Content-Encoding'' (res_headers (weaken_etag res)) = hdr_find ''Content-Encoding'' (res_headers res)"
  "hdr_find ''Content-Length'' (res_headers (weaken_etag res)) = hdr_find ''Content-Length'' (res_headers res)"
  by (auto simp: weaken_etag_def res_header_def varies_def header_names split: option.split)

section \<open>Properties\<close>

text \<open>
  The negotiation is optimal: the coding chosen for an \<open>Accept-Encoding\<close> value is one of the preferred
  ones, can be produced, was not refused, has the highest quality the client gave, and among equals
  is the first of the preference; no coding is chosen only when none of them is acceptable.
\<close>

theorem negotiation_optimal:
  assumes "negotiate_coding b text prefs True = c" and "q = coding_quality (parse_accept_encoding text)"
  shows "if c = Identity then \<forall>d\<in>set prefs. d \<noteq> Identity \<and> coding_available b d \<longrightarrow> \<not> dless (Some 0) (q d)
         else coding_available b c \<and> dless (Some 0) (q c) \<and>
           (\<exists>pre post. prefs = pre @ c # post \<and>
              (\<forall>d\<in>set pre. d \<noteq> Identity \<and> coding_available b d \<longrightarrow> q d = None \<or> dless (q d) (q c)) \<and>
              (\<forall>d\<in>set post. d \<noteq> Identity \<and> coding_available b d \<longrightarrow> \<not> dless (q c) (q d)))"
proof -
  let ?off = "\<lambda>c. \<not> (c = Identity \<or> True \<and> \<not> coding_available b c)" and ?q = "q(Identity := Some 0)"
  have "negotiate_loop ?off q prefs best bq = negotiate_loop ?off ?q prefs best bq" for best bq
    by (induction prefs arbitrary: best bq) auto
  then have "negotiate_loop ?off ?q prefs Identity (?q Identity) = c"
    using assms by (simp add: negotiate_coding_def)
  from negotiate_loop_keeps [OF this] show ?thesis
    by (cases "c = Identity") (auto, fastforce+)
qed


text \<open>A build with gzip only, whose encoder counts a run of one letter, for the witnesses.\<close>

definition demo_build :: encoders where
  "demo_build = \<lparr>gzip_encoder = (\<lambda>s. if list_all ((=) (CHR ''a'')) s then Some (show_nat (length s)) else None), brotli_encoder = None, zstd_encoder = None\<rparr>"

theorem negotiation_optimal_witness:
  "negotiate_coding demo_build ''br;q=0.9, gzip;q=0.5'' [Brotli, Zstd, Gzip] True = Gzip \<and>
   dless (Some 0) (coding_quality (parse_accept_encoding ''br;q=0.9, gzip;q=0.5'') Gzip)"
proof -
  have n: "negotiate_coding demo_build ''br;q=0.9, gzip;q=0.5'' [Brotli, Zstd, Gzip] True = Gzip" by code_simp
  with negotiation_optimal [OF n refl] show ?thesis by simp
qed

text \<open>
  C31: Compression is invisible to a client that decodes: if decoding undoes every encoder of the build,
  then a response comes out with its body and \<open>Content-Encoding\<close> as they were, or with the negotiated
  coding named in \<open>Content-Encoding\<close>, a body that decodes to the original, is shorter than it and
  has its length in \<open>Content-Length\<close>, and a \<open>Vary\<close> that keeps caches apart.
\<close>

theorem compression_transparent:
  assumes "\<forall>c body out. compress_body b c body = Some out \<longrightarrow> decode c out = body"
    and "compress_response b opts coding res = res'"
  shows "res_body res' = res_body res \<and>
           hdr_find ''Content-Encoding'' (res_headers res') = hdr_find ''Content-Encoding'' (res_headers res) \<or>
         hdr_find ''Content-Encoding'' (res_headers res') = Some (coding_name coding) \<and>
           decode coding (res_body res') = res_body res \<and> length (res_body res') < length (res_body res) \<and>
           hdr_find ''Content-Length'' (res_headers res') = Some (show_nat (length (res_body res'))) \<and> varies res'"
proof -
  have v: "varies (res_header ''Content-Length'' x (res_header ''Content-Encoding'' y (r\<lparr>res_body := z\<rparr>))) = varies r" for x y z r
    by (simp add: varies_def res_header_def header_names)
  show ?thesis
    using assms add_vary_varies [of res]
    by (auto simp: compress_response_def Let_def v split: option.splits if_splits)
      (auto simp: res_header_def header_names)
qed


theorem compression_transparent_witness:
  "let res = send_text (replicate 20 (CHR ''a'')) new_response;
       res' = compress_response demo_build \<lparr>preference = [Gzip], min_size = 5\<rparr> Gzip res
   in hdr_find ''Content-Encoding'' (res_headers res') = Some ''gzip'' \<and> replicate (dec_value (res_body res')) (CHR ''a'') = res_body res \<and>
      varies res'"
proof -
  let ?res = "send_text (replicate 20 (CHR ''a'')) new_response"
  let ?res' = "compress_response demo_build \<lparr>preference = [Gzip], min_size = 5\<rparr> Gzip ?res"
  have "list_all ((=) (CHR ''a'')) s \<Longrightarrow> replicate (length s) (CHR ''a'') = s" for s
    by (induction s) auto
  then have "\<forall>c body out. compress_body demo_build c body = Some out \<longrightarrow> replicate (dec_value out) (CHR ''a'') = body"
    by (auto simp: demo_build_def split: if_splits elim!: compress_body.elims)
  note compression_transparent [OF this refl, of "\<lparr>preference = [Gzip], min_size = 5\<rparr>" Gzip ?res]
  moreover have "hdr_find ''Content-Encoding'' (res_headers ?res') = Some ''gzip''" "hdr_find ''Content-Encoding'' (res_headers ?res) = None"
    by code_simp+
  ultimately show ?thesis by simp
qed


text \<open>
  A quality that \<^verbatim>\<open>strtod\<close> reads as a NaN passes the range check, although the comment on \<open>quality\<close>
  gives zero to what is malformed: the coding counts as not mentioned, and the wildcard selects it.
\<close>

lemma nan_quality_not_refused:
  "quality ''q=nan'' = None" "negotiate_coding demo_build ''gzip;q=nan, *'' [Gzip] True = Gzip"
  by code_simp+

end
