(* ===== verification/Http_Dates.thy ===== *)
theory Http_Dates
  imports Orbit_Prelude
begin

text \<open>
  HTTP dates: \<^verbatim>\<open>format_http_date\<close> (\<^verbatim>\<open>src/http/HttpResponse.cpp\<close>) and \<^verbatim>\<open>parse_http_date\<close>
  (\<^verbatim>\<open>src/middleware/StaticFiles.cpp\<close>). Times are seconds since 1970 as integers. \<open>gmtime\<close> is the
  C library's: the calendar date reached by walking whole years and whole months.
\<close>

section \<open>The calendar\<close>

definition is_leap :: "int \<Rightarrow> bool" where
  "is_leap y \<longleftrightarrow> 4 dvd y \<and> (\<not> 100 dvd y \<or> 400 dvd y)"

definition year_days :: "int \<Rightarrow> int" where
  "year_days y = (if is_leap y then 366 else 365)"

definition month_days :: "int \<Rightarrow> nat \<Rightarrow> int" where
  "month_days y m = (if m = 2 then (if is_leap y then 29 else 28) else [31, 28, 31, 30, 31, 30, 31, 31, 30, 31, 30, 31] ! (m - 1))"

text \<open>Walking years: the year that holds day \<open>d\<close> counted from the first of January of \<open>y\<close>.\<close>

function find_year :: "int \<Rightarrow> int \<Rightarrow> int \<times> int" where
  "find_year y d =
     (if d < 0 then find_year (y - 1) (d + year_days (y - 1))
      else if d \<ge> year_days y then find_year (y + 1) (d - year_days y)
      else (y, d))"
  by pat_completeness auto
termination
  by (relation "measure (\<lambda>(y, d). if d < 0 then nat (366 - d) else nat d)") (auto simp: year_days_def split: if_splits)

declare find_year.simps [simp del]

function find_month :: "int \<Rightarrow> nat \<Rightarrow> int \<Rightarrow> nat \<times> int" where
  "find_month y m d = (if m < 12 \<and> d \<ge> month_days y m then find_month y (Suc m) (d - month_days y m) else (m, d))"
  by pat_completeness auto
termination
  by (relation "measure (\<lambda>(y, m, d). 12 - m)") auto

declare find_month.simps [simp del]

record tm =
  tm_year :: int
  tm_mon :: nat
  tm_mday :: int
  tm_wday :: nat
  tm_hour :: int
  tm_min :: int
  tm_sec :: int

text \<open>The months count from one here; 1970 began on a Thursday.\<close>

definition gmtime :: "int \<Rightarrow> tm" where
  "gmtime t =
     (let days = t div 86400; sod = t mod 86400; (y, yd) = find_year 1970 days; (m, md) = find_month y 1 yd
      in \<lparr>tm_year = y, tm_mon = m, tm_mday = md + 1, tm_wday = nat ((days + 4) mod 7),
          tm_hour = sod div 3600, tm_min = sod mod 3600 div 60, tm_sec = sod mod 60\<rparr>)"

section \<open>Formatting\<close>

definition kDays :: "string list" where
  "kDays = [''Sun'', ''Mon'', ''Tue'', ''Wed'', ''Thu'', ''Fri'', ''Sat'']"

definition kMonths :: "string list" where
  "kMonths = [''Jan'', ''Feb'', ''Mar'', ''Apr'', ''May'', ''Jun'', ''Jul'', ''Aug'', ''Sep'', ''Oct'', ''Nov'', ''Dec'']"

text \<open>\<^verbatim>\<open>%0wd\<close>: the sign counts for the width.\<close>

definition pad_int :: "nat \<Rightarrow> int \<Rightarrow> string" where
  "pad_int w i =
     (let digits = show_nat (nat \<bar>i\<bar>); sign = (if i < 0 then ''-'' else [])
      in sign @ replicate (w - length sign - length digits) (CHR ''0'') @ digits)"

text \<open>The buffer holds 40 bytes, the last a terminator.\<close>

definition format_http_date :: "int \<Rightarrow> string" where
  "format_http_date t =
     (let tm = gmtime t
      in take 39 (kDays ! tm_wday tm @ '', '' @ pad_int 2 (tm_mday tm) @ '' '' @ kMonths ! (tm_mon tm - 1) @ '' '' @
                  pad_int 4 (tm_year tm) @ '' '' @ pad_int 2 (tm_hour tm) @ '':'' @ pad_int 2 (tm_min tm) @ '':'' @
                  pad_int 2 (tm_sec tm) @ '' GMT''))"

section \<open>Parsing\<close>

text \<open>Days since 1970 of a date, with the 64-bit arithmetic left unbounded: the years here have four digits.
  Division of integers truncates in C++; the two cases make it round down.\<close>

definition days_from_civil :: "int \<Rightarrow> int \<Rightarrow> int \<Rightarrow> int" where
  "days_from_civil y0 m d =
     (let y = y0 - (if m \<le> 2 then 1 else 0);
          era = y div 400;
          yoe = y - era * 400;
          mp = (if m > 2 then m - 3 else m + 9);
          doy = (153 * mp + 2) div 5 + d - 1;
          doe = yoe * 365 + yoe div 4 - yoe div 100 + doy
      in era * 146097 + doe - 719468)"

definition parse_digits :: "string \<Rightarrow> int option" where
  "parse_digits s =
     (case from_chars_signed (- 2147483648) 2147483647 s of Some (v, []) \<Rightarrow> Some v | _ \<Rightarrow> None)"

text \<open>The last month whose name matches.\<close>

definition month_number :: "string \<Rightarrow> nat" where
  "month_number s = foldl (\<lambda>acc i. if s = kMonths ! i then i + 1 else acc) 0 [0..<12]"

definition sub :: "nat \<Rightarrow> nat \<Rightarrow> string \<Rightarrow> string" where
  "sub pos n s = take n (drop pos s)"

definition parse_http_date :: "string \<Rightarrow> int option" where
  "parse_http_date s =
     (if length s \<noteq> 29 \<or> sub 3 2 s \<noteq> '', '' \<or> drop 25 s \<noteq> '' GMT'' then None
      else case (parse_digits (sub 5 2 s), parse_digits (sub 12 4 s), parse_digits (sub 17 2 s),
                 parse_digits (sub 20 2 s), parse_digits (sub 23 2 s)) of
          (Some day, Some year, Some hour, Some minute, Some second) \<Rightarrow>
            (let month = month_number (sub 8 3 s)
             in if month = 0 \<or> day < 1 \<or> day > 31 \<or> hour > 23 \<or> minute > 59 \<or> second > 60 then None
                else Some (days_from_civil year (int month) day * 86400 + hour * 3600 + minute * 60 + second))
        | _ \<Rightarrow> None)"


section \<open>The two calendars agree\<close>

text \<open>Days before the first of March of a year, counted without eras.\<close>

definition march_days :: "int \<Rightarrow> int" where
  "march_days y = 365 * y + y div 4 - y div 100 + y div 400"

lemma era_sum:
  fixes e r :: int
  assumes "0 \<le> r" "r < 400"
  shows "e * 146097 + (r * 365 + r div 4 - r div 100) = march_days (400 * e + r)"
proof -
  have "(400 * e + r) div 400 = e" by (rule int_div_pos_eq [OF refl assms])
  moreover have "(400 * e + r) div 4 = 100 * e + r div 4" using div_mult_self2 [of 4 r "100 * e"] by (simp add: add.commute)
  moreover have "(400 * e + r) div 100 = 4 * e + r div 100" using div_mult_self2 [of 100 r "4 * e"] by (simp add: add.commute)
  moreover have "e * 146097 + (r * 365 + a - b) = 365 * (400 * e + r) + (100 * e + a) - (4 * e + b) + e" for a b by simp
  ultimately show ?thesis by (simp only: march_days_def)
qed

lemma days_closed:
  "days_from_civil y m d =
     march_days (y - (if m \<le> 2 then 1 else 0)) + (153 * (if m > 2 then m - 3 else m + 9) + 2) div 5 + d - 1 - 719468"
proof -
  have "(z div 400) * 146097 + ((z - z div 400 * 400) * 365 + (z - z div 400 * 400) div 4 - (z - z div 400 * 400) div 100) = march_days z"
    for z :: int
  proof -
    have "z - z div 400 * 400 = z mod 400" by (simp add: minus_div_mult_eq_mod)
    then show ?thesis using era_sum [of "z mod 400" "z div 400"] by (simp only: mult_div_mod_eq pos_mod_sign pos_mod_bound zero_less_numeral)
  qed
  from this [of "y - (if m \<le> 2 then 1 else 0)"] show ?thesis unfolding days_from_civil_def Let_def by linarith
qed

lemma div_pred:
  fixes y n :: int
  assumes "0 < n"
  shows "y div n = (y - 1) div n + (if n dvd y then 1 else 0)"
proof (cases "n dvd y")
  case True
  then obtain k where y: "y = n * k" by (auto elim: dvdE)
  have "y - 1 = n * (k - 1) + (n - 1)" using y by (simp add: algebra_simps)
  from int_div_pos_eq [OF this] have "(y - 1) div n = k - 1" using assms by simp
  with True y assms show ?thesis by simp
next
  case False
  then have "0 < y mod n" using assms by (metis mod_0_imp_dvd pos_mod_sign order_le_less)
  have "y - 1 = n * (y div n) + (y mod n - 1)" by simp
  from int_div_pos_eq [OF this] have "(y - 1) div n = y div n"
    using \<open>0 < y mod n\<close> pos_mod_bound [OF assms, of y] by simp
  with False show ?thesis by simp
qed

lemma leap_count:
  "year_days y = 365 + (if 4 dvd y then 1 else 0) - (if 100 dvd y then 1 else 0) + (if 400 dvd y then 1 else 0)"
proof -
  have "400 dvd y \<Longrightarrow> 100 dvd y" "100 dvd y \<Longrightarrow> 4 dvd y"
    by (rule dvd_trans [of 100 400], simp_all) (rule dvd_trans [of 4 100], simp_all)
  then show ?thesis
    by (cases "400 dvd y"; cases "100 dvd y"; cases "4 dvd y") (simp_all add: year_days_def is_leap_def)
qed

lemma march_step: "march_days y = march_days (y - 1) + year_days y"
proof -
  have "365 * y + (a + p) - (b + q) + (c + r) = 365 * (y - 1) + a - b + c + (365 + p - q + r)" for a b c p q r :: int by simp
  then show ?thesis
    unfolding march_days_def leap_count div_pred [of 4 y, simplified] div_pred [of 100 y, simplified] div_pred [of 400 y, simplified]
    by (simp only:)
qed

lemma next_month:
  assumes "1 \<le> m" "m < 12"
  shows "days_from_civil y (int (Suc m)) 1 = days_from_civil y (int m) 1 + month_days y m"
proof -
  have leap: "year_days y = 337 + month_days y 2" by (simp add: year_days_def month_days_def)
  have "m = 1 \<or> m = 2 \<or> m = 3 \<or> m = 4 \<or> m = 5 \<or> m = 6 \<or> m = 7 \<or> m = 8 \<or> m = 9 \<or> m = 10 \<or> m = 11"
    using assms by presburger
  moreover have "days_from_civil y 3 1 = days_from_civil y 2 1 + month_days y 2"
    using leap march_step [of y] by (simp add: days_closed)
  ultimately show ?thesis by (auto simp: days_closed month_days_def)
qed

lemma next_year: "days_from_civil (y + 1) 1 1 = days_from_civil y 1 1 + year_days y"
  using march_step [of y] by (simp add: days_closed)

lemma days_from_civil_day: "days_from_civil y m d = days_from_civil y m 1 + d - 1"
  by (simp add: days_closed)

lemma find_year_correct:
  "find_year y d = (y', d') \<Longrightarrow> days_from_civil y' 1 1 + d' = days_from_civil y 1 1 + d \<and> 0 \<le> d' \<and> d' < year_days y'"
proof (induction y d rule: find_year.induct)
  case (1 y d)
  consider "d < 0" | "d \<ge> year_days y" "\<not> d < 0" | "0 \<le> d" "d < year_days y" by linarith
  then show ?case
  proof cases
    case 1
    then show ?thesis using "1.IH"(1) "1.prems" next_year [of "y - 1"] by (simp add: find_year.simps [of y d])
  next
    case 2
    then show ?thesis using "1.IH"(2) "1.prems" next_year [of y] by (simp add: find_year.simps [of y d])
  next
    case 3
    then show ?thesis using "1.prems" by (simp add: find_year.simps [of y d])
  qed
qed

text \<open>The days left in the year from the first of month \<open>m\<close>.\<close>

definition days_from_month :: "int \<Rightarrow> nat \<Rightarrow> int" where
  "days_from_month y m = sum_list (map (month_days y) [m..<13])"

lemma days_from_month_step: "m \<le> 12 \<Longrightarrow> days_from_month y m = month_days y m + days_from_month y (Suc m)"
  by (simp add: days_from_month_def upt_rec)

lemma days_from_january: "days_from_month y 1 = year_days y"
  by (simp add: days_from_month_def upt_rec month_days_def year_days_def)

lemma find_month_correct:
  assumes "find_month y m d = (m', d')" "1 \<le> m" "m \<le> 12" "0 \<le> d" "d < days_from_month y m"
  shows "days_from_civil y (int m') 1 + d' = days_from_civil y (int m) 1 + d \<and> 1 \<le> m' \<and> m' \<le> 12 \<and> 0 \<le> d' \<and> d' < month_days y m'"
  using assms
proof (induction y m d rule: find_month.induct)
  case (1 y m d)
  show ?case
  proof (cases "m < 12 \<and> d \<ge> month_days y m")
    case True
    then have "find_month y (Suc m) (d - month_days y m) = (m', d')" using "1.prems"(1) by (simp add: find_month.simps [of y m d])
    with "1.IH" [OF True this] True "1.prems" next_month [of m y] days_from_month_step [of m y] show ?thesis by simp
  next
    case False
    then have "m' = m" "d' = d" using "1.prems"(1) by (simp_all only: find_month.simps [of y m d]) auto
    moreover have "d < month_days y m"
      using False "1.prems"(3,5) days_from_month_step [of 12 y] by (cases "m = 12") (auto simp: days_from_month_def)
    ultimately show ?thesis using "1.prems" by simp
  qed
qed


section \<open>Reading what was written\<close>

lemma gmtime_correct:
  assumes "tm = gmtime t"
  shows "days_from_civil (tm_year tm) (int (tm_mon tm)) (tm_mday tm) * 86400 + tm_hour tm * 3600 + tm_min tm * 60 + tm_sec tm = t"
    and "1 \<le> tm_mon tm" "tm_mon tm \<le> 12" "1 \<le> tm_mday tm" "tm_mday tm \<le> 31" "tm_wday tm < 7"
    and "0 \<le> tm_hour tm" "tm_hour tm < 24" "0 \<le> tm_min tm" "tm_min tm < 60" "0 \<le> tm_sec tm" "tm_sec tm < 60"
proof -
  obtain y yd where y: "find_year 1970 (t div 86400) = (y, yd)" by force
  obtain m md where m: "find_month y 1 yd = (m, md)" by force
  have tm: "tm_year tm = y" "tm_mon tm = m" "tm_mday tm = md + 1" "tm_hour tm = t mod 86400 div 3600"
    "tm_min tm = t mod 86400 mod 3600 div 60" "tm_sec tm = t mod 86400 mod 60" "tm_wday tm = nat ((t div 86400 + 4) mod 7)"
    using assms y m by (simp_all add: gmtime_def Let_def)
  have "days_from_civil 1970 1 1 = 0" by code_simp
  then have yc: "days_from_civil y 1 1 + yd = t div 86400" "0 \<le> yd" "yd < year_days y"
    using find_year_correct [OF y] by simp_all
  have mc: "days_from_civil y (int m) 1 + md = days_from_civil y 1 1 + yd" "1 \<le> m" "m \<le> 12" "0 \<le> md" "md < month_days y m"
    using find_month_correct [OF m] yc by (simp_all add: days_from_january [unfolded One_nat_def])
  have "month_days y m \<le> 31"
  proof -
    have "m = 1 \<or> m = 2 \<or> m = 3 \<or> m = 4 \<or> m = 5 \<or> m = 6 \<or> m = 7 \<or> m = 8 \<or> m = 9 \<or> m = 10 \<or> m = 11 \<or> m = 12"
      using mc(2,3) by presburger
    then show ?thesis by (auto simp: month_days_def)
  qed
  then show "1 \<le> tm_mon tm" "tm_mon tm \<le> 12" "1 \<le> tm_mday tm" "tm_mday tm \<le> 31" unfolding tm(2,3) using mc(2-5) by linarith+
  show "tm_wday tm < 7" unfolding tm using pos_mod_bound [of 7 "t div 86400 + 4"] by linarith
  have sod: "0 \<le> t mod 86400" "t mod 86400 < 86400" by simp_all
  show "0 \<le> tm_hour tm" "0 \<le> tm_min tm" "0 \<le> tm_sec tm" "tm_sec tm < 60"
    unfolding tm by (simp_all add: pos_imp_zdiv_nonneg_iff)
  show "tm_hour tm < 24" unfolding tm using sod by (simp add: div_less_iff_less_mult)
  show "tm_min tm < 60" unfolding tm by (simp add: div_less_iff_less_mult)
  have "s div 3600 * 3600 + s mod 3600 div 60 * 60 + s mod 60 = s" for s :: int
  proof -
    have "s mod 3600 mod 60 = s mod 60" by (rule mod_mod_cancel) simp
    then show ?thesis using div_mult_mod_eq [of s 3600] div_mult_mod_eq [of "s mod 3600" 60] by linarith
  qed
  note sum = this [of "t mod 86400"]
  have "days_from_civil y (int m) (md + 1) = t div 86400" using yc(1) mc(1) days_from_civil_day [of y "int m" "md + 1"] by simp
  then show "days_from_civil (tm_year tm) (int (tm_mon tm)) (tm_mday tm) * 86400 + tm_hour tm * 3600 + tm_min tm * 60 + tm_sec tm = t"
    unfolding tm using sum div_mult_mod_eq [of t 86400] by (simp only: add.assoc)
qed

lemma length_show_nat: "n < 10 ^ w \<Longrightarrow> 0 < w \<Longrightarrow> length (show_nat n) \<le> w"
proof (induction w arbitrary: n)
  case (Suc w)
  show ?case
  proof (cases "n < 10")
    case True
    then show ?thesis by (subst show_nat.simps) simp
  next
    case False
    with Suc.prems have "n div 10 < 10 ^ w" "0 < w" by (auto intro: gr0I)
    then show ?thesis using Suc.IH [of "n div 10"] False by (subst show_nat.simps) simp
  qed
qed simp

lemma dec_value_zeros: "dec_value (replicate k (CHR ''0'') @ ds) = dec_value ds"
proof -
  have "digit_val (CHR ''0'') = 0" by code_simp
  then have "foldl (\<lambda>acc c. 10 * acc + digit_val c) 0 (replicate k (CHR ''0'')) = 0" by (induction k) simp_all
  then show ?thesis by (simp add: dec_value_def)
qed

lemma pad_int_props:
  assumes "0 \<le> i" "i < 10 ^ w" "0 < w" "w \<le> 9"
  shows "length (pad_int w i) = w" and "parse_digits (pad_int w i) = Some i"
proof -
  have n: "nat i < 10 ^ w" using assms by (simp add: nat_less_iff)
  have p: "pad_int w i = replicate (w - length (show_nat (nat i))) (CHR ''0'') @ show_nat (nat i)"
    using assms(1) by (simp add: pad_int_def Let_def)
  then show "length (pad_int w i) = w" using length_show_nat [OF n assms(3)] by simp
  have "isdigit (CHR ''0'')" by code_simp
  then have "\<forall>c\<in>set (pad_int w i). isdigit c" using show_nat_digits [of "nat i"] unfolding p by (auto simp: list_all_iff)
  then have d: "takeWhile isdigit (pad_int w i) = pad_int w i" "dropWhile isdigit (pad_int w i) = []" by auto
  have "\<not> isdigit (CHR ''-'')" by code_simp
  moreover have ne: "pad_int w i \<noteq> []" using p by simp
  ultimately have h: "pad_int w i \<noteq> []" "hd (pad_int w i) \<noteq> CHR ''-''"
    using \<open>\<forall>c\<in>set (pad_int w i). isdigit c\<close> hd_in_set [OF ne] by metis+
  have "(10::int) ^ w \<le> 10 ^ 9" using assms(4) by (rule power_increasing) simp
  then have "i \<le> 2147483647" using assms(2) by simp
  moreover have "dec_value (pad_int w i) = nat i" unfolding p by (simp add: dec_value_zeros)
  ultimately show "parse_digits (pad_int w i) = Some i"
    using assms(1) h by (simp add: parse_digits_def from_chars_signed_def Let_def d)
qed

lemma month_number_correct: "1 \<le> m \<Longrightarrow> m \<le> 12 \<Longrightarrow> month_number (kMonths ! (m - 1)) = m"
proof -
  have "\<forall>m\<in>set [1..<13]. month_number (kMonths ! (m - 1)) = m" by code_simp
  then show "1 \<le> m \<Longrightarrow> m \<le> 12 \<Longrightarrow> ?thesis" by simp
qed

lemma name_lengths: "i < 7 \<Longrightarrow> length (kDays ! i) = 3" "1 \<le> m \<Longrightarrow> m \<le> 12 \<Longrightarrow> length (kMonths ! (m - 1)) = 3"
proof -
  have "\<forall>i\<in>set [0..<7]. length (kDays ! i) = 3" "\<forall>m\<in>set [1..<13]. length (kMonths ! (m - 1)) = 3" by code_simp+
  then show "i < 7 \<Longrightarrow> length (kDays ! i) = 3" "1 \<le> m \<Longrightarrow> m \<le> 12 \<Longrightarrow> length (kMonths ! (m - 1)) = 3" by simp_all
qed

lemma list_of_length:
  "length x = 2 \<Longrightarrow> \<exists>a b. x = [a, b]" "length x = 3 \<Longrightarrow> \<exists>a b c. x = [a, b, c]" "length x = 4 \<Longrightarrow> \<exists>a b c d. x = [a, b, c, d]"
  by (auto simp: numeral_eq_Suc length_Suc_conv)

lemma date_layout:
  assumes "length wd = 3" "length dd = 2" "length mon = 3" "length yyyy = 4" "length hh = 2" "length mi = 2" "length ss = 2"
    and "s = wd @ '', '' @ dd @ '' '' @ mon @ '' '' @ yyyy @ '' '' @ hh @ '':'' @ mi @ '':'' @ ss @ '' GMT''"
  shows "length s = 29" "sub 3 2 s = '', ''" "drop 25 s = '' GMT''" "sub 5 2 s = dd" "sub 8 3 s = mon" "sub 12 4 s = yyyy"
    "sub 17 2 s = hh" "sub 20 2 s = mi" "sub 23 2 s = ss"
proof -
  obtain a1 a2 a3 b1 b2 c1 c2 c3 d1 d2 d3 d4 e1 e2 f1 f2 g1 g2 where
    "wd = [a1, a2, a3]" "dd = [b1, b2]" "mon = [c1, c2, c3]" "yyyy = [d1, d2, d3, d4]" "hh = [e1, e2]" "mi = [f1, f2]" "ss = [g1, g2]"
    using assms(1-7) list_of_length by metis
  then show "length s = 29" "sub 3 2 s = '', ''" "drop 25 s = '' GMT''" "sub 5 2 s = dd" "sub 8 3 s = mon" "sub 12 4 s = yyyy"
    "sub 17 2 s = hh" "sub 20 2 s = mi" "sub 23 2 s = ss"
    using assms(8) by (simp_all add: sub_def)
qed

lemma parse_format_http_date:
  assumes "0 \<le> tm_year (gmtime t)" "tm_year (gmtime t) \<le> 9999"
  shows "parse_http_date (format_http_date t) = Some t"
proof -
  let ?tm = "gmtime t"
  note g = gmtime_correct [OF refl, of t]
  let ?s = "kDays ! tm_wday ?tm @ '', '' @ pad_int 2 (tm_mday ?tm) @ '' '' @ kMonths ! (tm_mon ?tm - 1) @ '' '' @
      pad_int 4 (tm_year ?tm) @ '' '' @ pad_int 2 (tm_hour ?tm) @ '':'' @ pad_int 2 (tm_min ?tm) @ '':'' @ pad_int 2 (tm_sec ?tm) @ '' GMT''"
  have p: "length (pad_int 2 (tm_mday ?tm)) = 2" "parse_digits (pad_int 2 (tm_mday ?tm)) = Some (tm_mday ?tm)"
    "length (pad_int 4 (tm_year ?tm)) = 4" "parse_digits (pad_int 4 (tm_year ?tm)) = Some (tm_year ?tm)"
    "length (pad_int 2 (tm_hour ?tm)) = 2" "parse_digits (pad_int 2 (tm_hour ?tm)) = Some (tm_hour ?tm)"
    "length (pad_int 2 (tm_min ?tm)) = 2" "parse_digits (pad_int 2 (tm_min ?tm)) = Some (tm_min ?tm)"
    "length (pad_int 2 (tm_sec ?tm)) = 2" "parse_digits (pad_int 2 (tm_sec ?tm)) = Some (tm_sec ?tm)"
    using g assms by (auto intro: pad_int_props)
  note l = date_layout [OF name_lengths(1) [OF g(6)] p(1) name_lengths(2) [OF g(2,3)] p(3,5,7,9) refl]
  have "format_http_date t = ?s" using l(1) by (simp add: format_http_date_def Let_def)
  then show ?thesis
    using g p l month_number_correct [OF g(2,3)] by (simp add: parse_http_date_def Let_def)
qed

section \<open>Properties\<close>

text \<open>
  HTTP dates survive the round trip: for every time whose year has four digits, the date the server
  writes in \<open>Last-Modified\<close> is read back from \<open>If-Modified-Since\<close> as the same second.
\<close>

theorem http_date_roundtrip:
  assumes "0 \<le> tm_year (gmtime t)" "tm_year (gmtime t) \<le> 9999"
  shows "parse_http_date (format_http_date t) = Some t"
  using assms by (rule parse_format_http_date)

theorem http_date_roundtrip_witness: "parse_http_date (format_http_date 784111777) = Some 784111777"
proof -
  have "tm_year (gmtime 784111777) = 1994" by code_simp
  with http_date_roundtrip [of 784111777] show ?thesis by simp
qed

text \<open>The hours, minutes and seconds have no lower bound, so a minus sign passes.\<close>

lemma negative_time_accepted: "parse_http_date ''Thu, 01 Jan 1970 -1:00:00 GMT'' = Some (- 3600)"
  by code_simp

end
