(* ===== verification/Static_Files.thy ===== *)
theory Static_Files
  imports Compress Http_Dates
begin

text \<open>
  Static files: \<^verbatim>\<open>src/middleware/StaticFiles.cpp\<close> on a POSIX system. The file system is a parameter:
  \<open>canonical\<close>, \<open>weakly_canonical\<close>, \<open>stat\<close> and opening a file. A path is the list of its
  components; an absolute one starts at the root, and a trailing slash is an empty last component.
  Two calls on the same path give the same result, that is, the directory does not change while one
  request is served. The exceptions the code catches are those of running out of memory, and are left out.
\<close>

section \<open>Paths\<close>

type_synonym path = "string list"

definition components :: "string \<Rightarrow> path" where
  "components s =
     (let ps = split_on (CHR ''/'') s; names = filter (\<lambda>p. p \<noteq> []) ps
      in if names \<noteq> [] \<and> last ps = [] then names @ [[]] else names)"

text \<open>\<^verbatim>\<open>operator/\<close>: an absolute right side replaces the left, an empty one adds a trailing slash.\<close>

definition path_append :: "path \<Rightarrow> string \<Rightarrow> path" where
  "path_append p s =
     (if s \<noteq> [] \<and> hd s = CHR ''/'' then components s
      else if components s = [] then p @ [[]] else p @ components s)"

text \<open>\<^verbatim>\<open>path(s).relative_path()\<close> appended to a base.\<close>

definition append_relative :: "path \<Rightarrow> string \<Rightarrow> path" where
  "append_relative p s = (if components s = [] then p @ [[]] else p @ components s)"

fun strip_common :: "path \<Rightarrow> path \<Rightarrow> path \<times> path" where
  "strip_common (a # as) (b # bs) = (if a = b then strip_common as bs else (a # as, b # bs))"
| "strip_common as bs = (as, bs)"

definition lexically_relative :: "path \<Rightarrow> path \<Rightarrow> path" where
  "lexically_relative p base =
     (case strip_common p base of
        ([], []) \<Rightarrow> [''.'']
      | (rest, up) \<Rightarrow> replicate (length up) ''..'' @ rest)"

definition append_suffix :: "path \<Rightarrow> string \<Rightarrow> path" where
  "append_suffix p sfx = (if p = [] then [sfx] else butlast p @ [last p @ sfx])"

text \<open>The extension of the last component: from its last dot, unless that is its first character.\<close>

definition extension :: "path \<Rightarrow> string" where
  "extension p =
     (let name = (if p = [] then [] else last p); ext = rev (takeWhile (\<lambda>c. c \<noteq> CHR ''.'') (rev name))
      in if name = ''.'' \<or> name = ''..'' \<or> length ext + 1 \<ge> length name then [] else CHR ''.'' # ext)"

section \<open>The file system\<close>

record FileInfo =
  info_regular :: bool
  info_directory :: bool
  info_size :: nat
  info_mtime :: int

record file_system =
  canonical :: "string \<Rightarrow> path option"
  weakly_canonical :: "path \<Rightarrow> path option"
  stat_path :: "path \<Rightarrow> FileInfo option"
  open_file :: "path \<Rightarrow> opened"

datatype Resolution = Inside | Outside | Hidden

definition hidden_part :: "string \<Rightarrow> bool" where
  "hidden_part part \<longleftrightarrow> part \<noteq> [] \<and> hd part = CHR ''.'' \<and> part \<noteq> ''.''"

definition resolve :: "file_system \<Rightarrow> path \<Rightarrow> path \<Rightarrow> bool \<Rightarrow> Resolution \<times> path" where
  "resolve fs base cand serve_dotfiles =
     (case weakly_canonical fs cand of
        None \<Rightarrow> (Hidden, [])
      | Some out \<Rightarrow>
          (let inside = lexically_relative out base
           in if inside = [] \<or> hd inside = ''..'' then (Outside, out)
              else if \<not> serve_dotfiles \<and> list_ex hidden_part inside then (Hidden, out)
              else (Inside, out)))"

section \<open>Entity tags and ranges\<close>

definition strip_weak :: "string \<Rightarrow> string" where
  "strip_weak tag = (if take 2 tag = ''W/'' then drop 2 tag else tag)"

definition etag_list_matches :: "string \<Rightarrow> string \<Rightarrow> bool" where
  "etag_list_matches header etag \<longleftrightarrow>
     list_ex (\<lambda>item. trim item = ''*'' \<or> strip_weak (trim item) = strip_weak etag) (list_elements (CHR '','') header)"

datatype ByteRange = NoRange | Satisfiable nat nat | Unsatisfiable

abbreviation UINT64_MAX :: nat where "UINT64_MAX \<equiv> 2 ^ 64 - 1"

definition parse_u64 :: "string \<Rightarrow> nat option" where
  "parse_u64 s = (case from_chars_unsigned UINT64_MAX s of Some (v, []) \<Rightarrow> Some v | _ \<Rightarrow> None)"

definition parse_range :: "string \<Rightarrow> nat \<Rightarrow> ByteRange" where
  "parse_range header0 sz =
     (let header = trim header0
      in if take 6 header \<noteq> ''bytes='' then NoRange
         else let spec = trim (drop 6 header)
              in if contains_char (CHR '','') spec then NoRange
                 else case split_at (CHR ''-'') spec of
                     (_, None) \<Rightarrow> NoRange
                   | (f, Some l) \<Rightarrow>
                       (let first = trim f; last' = trim l
                        in if first = [] then
                             (case parse_u64 last' of
                                None \<Rightarrow> NoRange
                              | Some sfx \<Rightarrow>
                                  if sfx = 0 \<or> sz = 0 then Unsatisfiable
                                  else Satisfiable (sz - min sfx sz) (sz - 1))
                           else case parse_u64 first of
                               None \<Rightarrow> NoRange
                             | Some a \<Rightarrow>
                                 (case (if last' = [] then Some UINT64_MAX else parse_u64 last') of
                                    None \<Rightarrow> NoRange
                                  | Some b \<Rightarrow>
                                      if b < a then NoRange
                                      else if a \<ge> sz then Unsatisfiable
                                      else Satisfiable a (min b (sz - 1)))))"

text \<open>\<^verbatim>\<open>%llx-%llx\<close> in quotes, of 64-bit values.\<close>

definition make_etag :: "FileInfo \<Rightarrow> string" where
  "make_etag info = [CHR 0x22] @ show_hex (nat (info_mtime info mod 2 ^ 64)) @ ''-'' @ show_hex (info_size info mod 2 ^ 64) @ [CHR 0x22]"

section \<open>Types\<close>

definition mime_types :: "(string \<times> string) list" where
  "mime_types =
     [(''.html'', ''text/html; charset=utf-8''), (''.htm'', ''text/html; charset=utf-8''),
      (''.css'', ''text/css; charset=utf-8''), (''.js'', ''text/javascript; charset=utf-8''),
      (''.mjs'', ''text/javascript; charset=utf-8''), (''.json'', ''application/json''),
      (''.map'', ''application/json''), (''.webmanifest'', ''application/manifest+json''),
      (''.txt'', ''text/plain; charset=utf-8''), (''.md'', ''text/markdown; charset=utf-8''),
      (''.csv'', ''text/csv; charset=utf-8''), (''.xml'', ''application/xml''), (''.svg'', ''image/svg+xml''),
      (''.png'', ''image/png''), (''.jpg'', ''image/jpeg''), (''.jpeg'', ''image/jpeg''), (''.gif'', ''image/gif''),
      (''.webp'', ''image/webp''), (''.avif'', ''image/avif''), (''.ico'', ''image/x-icon''), (''.bmp'', ''image/bmp''),
      (''.woff'', ''font/woff''), (''.woff2'', ''font/woff2''), (''.ttf'', ''font/ttf''), (''.otf'', ''font/otf''),
      (''.wasm'', ''application/wasm''), (''.pdf'', ''application/pdf''), (''.zip'', ''application/zip''),
      (''.gz'', ''application/gzip''), (''.mp4'', ''video/mp4''), (''.webm'', ''video/webm''), (''.ogv'', ''video/ogg''),
      (''.mp3'', ''audio/mpeg''), (''.ogg'', ''audio/ogg''), (''.wav'', ''audio/wav'')]"

definition mime_type_for_extension :: "string \<Rightarrow> string" where
  "mime_type_for_extension ext =
     (case map_of mime_types (map tolower ext) of Some t \<Rightarrow> t | None \<Rightarrow> ''application/octet-stream'')"

section \<open>The middleware\<close>

record StaticFilesOptions =
  opt_index :: string
  serve_dotfiles :: bool
  max_age :: int
  opt_mount :: string
  fallthrough :: bool
  precompressed :: bool

definition normalise_mount :: "string \<Rightarrow> string" where
  "normalise_mount m =
     (let m' = rev (dropWhile (\<lambda>c. c = CHR ''/'') (rev m))
      in if m' \<noteq> [] \<and> hd m' \<noteq> CHR ''/'' then CHR ''/'' # m' else m')"

text \<open>The part of the path below the mount, \<open>None\<close> when the request is not under it.\<close>

definition under_mount :: "string \<Rightarrow> string \<Rightarrow> string option" where
  "under_mount mount p =
     (if mount = [] then Some p
      else if take (length mount) p \<noteq> mount \<or> length p > length mount \<and> p ! length mount \<noteq> CHR ''/'' then None
      else Some (drop (length mount) p))"

datatype answer = Pass | Reply HttpResponse

definition miss :: "StaticFilesOptions \<Rightarrow> answer" where
  "miss opts = (if fallthrough opts then Pass else Reply (send_text ''404 Not Found'' (status 404 new_response)))"

text \<open>The file a request names: a regular one inside the base, the index of a directory, or a refusal.\<close>

definition locate :: "file_system \<Rightarrow> StaticFilesOptions \<Rightarrow> path \<Rightarrow> string \<Rightarrow> answer + path \<times> FileInfo" where
  "locate fs opts base p =
     (if contains_char NUL p then Inl (miss opts)
      else case resolve fs base (append_relative base p) (serve_dotfiles opts) of
          (Outside, _) \<Rightarrow> Inl (Reply (send_text ''403 Forbidden'' (status 403 new_response)))
        | (Hidden, _) \<Rightarrow> Inl (miss opts)
        | (Inside, requested) \<Rightarrow>
            (case stat_path fs requested of
               None \<Rightarrow> Inl (miss opts)
             | Some info \<Rightarrow>
                 if info_directory info then
                   (if opt_index opts = [] then Inl (miss opts)
                    else case resolve fs base (path_append requested (opt_index opts)) (serve_dotfiles opts) of
                        (Inside, index) \<Rightarrow>
                          (case stat_path fs index of
                             None \<Rightarrow> Inl (miss opts)
                           | Some info' \<Rightarrow> if info_regular info' then Inr (index, info') else Inl (miss opts))
                      | _ \<Rightarrow> Inl (miss opts))
                 else if info_regular info then Inr (requested, info) else Inl (miss opts)))"

definition kVariants :: "(ContentCoding \<times> string \<times> string) list" where
  "kVariants = [(Brotli, ''.br'', ''br''), (Zstd, ''.zst'', ''zstd''), (Gzip, ''.gz'', ''gzip'')]"

definition variant_present :: "file_system \<Rightarrow> StaticFilesOptions \<Rightarrow> path \<Rightarrow> path \<Rightarrow> string \<Rightarrow> bool" where
  "variant_present fs opts base original sfx =
     (case resolve fs base (append_suffix original sfx) (serve_dotfiles opts) of
        (Inside, sibling) \<Rightarrow> (case stat_path fs sibling of Some i \<Rightarrow> info_regular i | None \<Rightarrow> False)
      | _ \<Rightarrow> False)"

definition use_variant :: "file_system \<Rightarrow> StaticFilesOptions \<Rightarrow> path \<Rightarrow> path \<Rightarrow> ContentCoding \<Rightarrow>
    ContentCoding \<times> string \<times> string \<Rightarrow> path \<times> FileInfo \<times> string \<Rightarrow> path \<times> FileInfo \<times> string" where
  "use_variant fs opts base original best v cur =
     (case v of (coding, sfx, name) \<Rightarrow>
        if coding \<noteq> best then cur
        else (let sibling = snd (resolve fs base (append_suffix original sfx) (serve_dotfiles opts))
              in case stat_path fs sibling of Some i \<Rightarrow> (sibling, i, name) | None \<Rightarrow> cur))"

definition pick_variant :: "encoders \<Rightarrow> file_system \<Rightarrow> StaticFilesOptions \<Rightarrow> path \<Rightarrow> string \<Rightarrow> path \<Rightarrow> FileInfo \<Rightarrow>
    bool \<times> path \<times> FileInfo \<times> string" where
  "pick_variant b fs opts base accept original info =
     (if \<not> precompressed opts then (False, original, info, [])
      else let present = map fst (filter (\<lambda>(_, sfx, _). variant_present fs opts base original sfx) kVariants)
           in if present = [] then (False, original, info, [])
              else let best = negotiate_coding b accept present False
                   in (True, fold (use_variant fs opts base original best) kVariants (original, info, [])))"

definition not_modified :: "HttpRequest \<Rightarrow> FileInfo \<Rightarrow> bool" where
  "not_modified req info =
     (case hdr_find ''If-None-Match'' (req_headers req) of
        Some inm \<Rightarrow> etag_list_matches inm (make_etag info)
      | None \<Rightarrow>
          (case hdr_find ''If-Modified-Since'' (req_headers req) of
             Some ims \<Rightarrow> (case parse_http_date ims of Some since \<Rightarrow> info_mtime info \<le> since | None \<Rightarrow> False)
           | None \<Rightarrow> False))"

definition base_headers :: "StaticFilesOptions \<Rightarrow> FileInfo \<Rightarrow> bool \<Rightarrow> string \<Rightarrow> HttpResponse" where
  "base_headers opts info has_variants encoding =
     (let r1 = res_header ''Last-Modified'' (format_http_date (info_mtime info)) (res_header ''ETag'' (make_etag info) new_response);
          r2 = res_header ''Cache-Control'' (if max_age opts > 0 then ''public, max-age='' @ show_int (max_age opts) else ''no-cache'') r1;
          r3 = res_header ''Accept-Ranges'' ''bytes'' r2;
          r4 = (if has_variants then res_header ''Vary'' ''Accept-Encoding'' r3 else r3)
      in if encoding \<noteq> [] then res_header ''Content-Encoding'' encoding r4 else r4)"

definition range_current :: "HttpRequest \<Rightarrow> FileInfo \<Rightarrow> bool" where
  "range_current req info =
     (case hdr_find ''If-Range'' (req_headers req) of
        Some v \<Rightarrow> v = make_etag info \<or> v = format_http_date (info_mtime info)
      | None \<Rightarrow> True)"

definition apply_range :: "HttpRequest \<Rightarrow> FileInfo \<Rightarrow> HttpResponse \<Rightarrow> HttpResponse" where
  "apply_range req info res =
     (case hdr_find ''Range'' (req_headers req) of
        None \<Rightarrow> res
      | Some h \<Rightarrow>
          if req_method req \<noteq> GET then res
          else case (if range_current req info then parse_range h (nat (file_size res mod 2 ^ 64)) else NoRange) of
              NoRange \<Rightarrow> res
            | Unsatisfiable \<Rightarrow>
                res_header ''Content-Range'' (''bytes */'' @ show_int (file_size res)) (status 416 new_response)
            | Satisfiable first last' \<Rightarrow>
                res_header ''Content-Range'' (''bytes '' @ show_nat first @ ''-'' @ show_nat last' @ ''/'' @ show_int (file_size res))
                  (set_file_range (int first) (int last' + 1) (status 206 res)))"

definition serve_file :: "encoders \<Rightarrow> file_system \<Rightarrow> StaticFilesOptions \<Rightarrow> path \<Rightarrow> HttpRequest \<Rightarrow> path \<Rightarrow> FileInfo \<Rightarrow> answer" where
  "serve_file b fs opts base req original info0 =
     (let accept = (case hdr_find ''Accept-Encoding'' (req_headers req) of Some v \<Rightarrow> v | None \<Rightarrow> []);
          (has_variants, requested, info, encoding) = pick_variant b fs opts base accept original info0;
          res = base_headers opts info has_variants encoding
      in if not_modified req info then Reply (status 304 res)
         else let res' = fst (send_file (open_file fs requested) (mime_type_for_extension (extension original)) res)
              in if file_fd res' = - 1 then miss opts else Reply (apply_range req info res'))"

text \<open>\<open>base0\<close> is the canonical directory found when the middleware was made, if it existed.\<close>

definition static_answer :: "encoders \<Rightarrow> file_system \<Rightarrow> StaticFilesOptions \<Rightarrow> string \<Rightarrow> path option \<Rightarrow> HttpRequest \<Rightarrow> answer" where
  "static_answer b fs opts directory base0 req =
     (if req_method req \<noteq> GET \<and> req_method req \<noteq> HEAD then Pass
      else case under_mount (normalise_mount (opt_mount opts)) (req_uri req) of
          None \<Rightarrow> Pass
        | Some p \<Rightarrow>
            (case (case base0 of Some base \<Rightarrow> Some base | None \<Rightarrow> canonical fs directory) of
               None \<Rightarrow> miss opts
             | Some base \<Rightarrow>
                 (case locate fs opts base p of
                    Inl a \<Rightarrow> a
                  | Inr (original, info) \<Rightarrow> serve_file b fs opts base req original info)))"

definition static_files :: "encoders \<Rightarrow> file_system \<Rightarrow> StaticFilesOptions \<Rightarrow> string \<Rightarrow> path option \<Rightarrow> 'x Middleware" where
  "static_files b fs opts directory base0 req w =
     (case static_answer b fs opts directory base0 req of
        Pass \<Rightarrow> (Return True, req, w)
      | Reply res \<Rightarrow> (Return False, req, writer_send res w))"

interpretation static_files: middleware_contract "static_files b fs opts directory base0"
  by (rule middleware_contractI) (auto simp: static_files_def split: answer.splits)


section \<open>Nothing outside the directory\<close>

text \<open>
  A path that may be opened: a result of \<^verbatim>\<open>weakly_canonical\<close> (every symbolic link and every
  \<open>..\<close> in it resolved) that lies below the base, with no hidden component there, and that names
  a regular file.
\<close>

definition contained :: "file_system \<Rightarrow> StaticFilesOptions \<Rightarrow> path \<Rightarrow> path \<Rightarrow> bool" where
  "contained fs opts base p \<longleftrightarrow>
     (\<exists>cand. weakly_canonical fs cand = Some p) \<and>
     (\<exists>rel. p = base @ rel \<and> (serve_dotfiles opts \<or> \<not> list_ex hidden_part rel))"

definition regular_at :: "file_system \<Rightarrow> path \<Rightarrow> bool" where
  "regular_at fs p \<longleftrightarrow> (\<exists>info. stat_path fs p = Some info \<and> info_regular info)"

definition servable :: "file_system \<Rightarrow> StaticFilesOptions \<Rightarrow> path \<Rightarrow> path \<Rightarrow> bool" where
  "servable fs opts base p \<longleftrightarrow> contained fs opts base p \<and> regular_at fs p"

lemma strip_common_split: "strip_common p base = (rest, up) \<Longrightarrow> \<exists>c. p = c @ rest \<and> base = c @ up"
proof (induction p base rule: strip_common.induct)
  case (1 a as b bs)
  then show ?case
    by (cases "a = b") (auto dest: "1.IH" intro: exI [of _ "[]"])
qed auto

lemma resolve_contained:
  assumes "resolve fs base cand (serve_dotfiles opts) = (Inside, p)"
  shows "contained fs opts base p"
proof -
  obtain rest up where s: "strip_common p base = (rest, up)" by force
  then obtain c where c: "p = c @ rest" "base = c @ up" using strip_common_split by blast
  have w: "weakly_canonical fs cand = Some p" using assms by (auto simp: resolve_def Let_def split: option.splits if_splits)
  have p: "\<not> (lexically_relative p base = [] \<or> hd (lexically_relative p base) = ''..'')"
    "serve_dotfiles opts \<or> \<not> list_ex hidden_part (lexically_relative p base)"
    using assms by (auto simp: resolve_def Let_def split: option.splits if_splits)
  have "up = []" using p(1) s by (cases up) (auto simp: lexically_relative_def split: list.splits)
  then have "p = base @ rest" "rest = [] \<or> lexically_relative p base = rest"
    using c s by (auto simp: lexically_relative_def split: list.splits)
  then show ?thesis using p(2) w by (auto simp: contained_def)
qed

lemma locate_servable: "locate fs opts base p = Inr (original, info) \<Longrightarrow> servable fs opts base original"
  by (auto simp: locate_def servable_def regular_at_def
      split: prod.splits Resolution.splits option.splits if_splits intro: resolve_contained)

lemma variant_servable:
  assumes "variant_present fs opts base original sfx"
  shows "servable fs opts base (snd (resolve fs base (append_suffix original sfx) (serve_dotfiles opts)))"
  using assms
  by (auto simp: variant_present_def servable_def regular_at_def
      split: prod.splits option.splits Resolution.splits intro: resolve_contained)

lemma negotiate_member: "negotiate_loop off q cs best bq \<in> insert best (set cs)"
proof (induction cs arbitrary: best bq)
  case (Cons c cs)
  from Cons.IH [of best bq] Cons.IH [of c "q c"] show ?case by auto
qed simp

lemma use_variant_servable:
  assumes "servable fs opts base (fst cur)" "fst v = best \<longrightarrow> variant_present fs opts base original (fst (snd v))"
  shows "servable fs opts base (fst (use_variant fs opts base original best v cur))"
  using assms variant_servable [of fs opts base original "fst (snd v)"]
  by (auto simp: use_variant_def Let_def split: prod.splits option.splits)

lemma pick_variant_servable:
  assumes "servable fs opts base original"
  shows "servable fs opts base (fst (snd (pick_variant b fs opts base accept original info)))"
proof -
  let ?present = "map fst (filter (\<lambda>(_, sfx, _). variant_present fs opts base original sfx) kVariants)"
  let ?best = "negotiate_coding b accept ?present False"
  have "?best \<in> insert Identity (set ?present)" unfolding negotiate_coding_def by (rule negotiate_member)
  then have v: "fst v = ?best \<longrightarrow> variant_present fs opts base original (fst (snd v))" if "v \<in> set kVariants" for v
    using that by (auto simp: kVariants_def)
  have "servable fs opts base (fst (fold (use_variant fs opts base original ?best) vs cur))"
    if "set vs \<subseteq> set kVariants" "servable fs opts base (fst cur)" for vs cur
    using that
  proof (induction vs arbitrary: cur)
    case (Cons x vs)
    then show ?case using use_variant_servable [OF Cons.prems(2) v [of x]] by simp
  qed simp
  from this [of kVariants "(original, info, [])"] assms
  have "servable fs opts base (fst (fold (use_variant fs opts base original ?best) kVariants (original, info, [])))" by simp
  then show ?thesis using assms by (simp add: pick_variant_def Let_def)
qed

lemma apply_range_fd: "file_fd (apply_range req info res) \<noteq> - 1 \<Longrightarrow> file_fd (apply_range req info res) = file_fd res"
  by (auto simp: apply_range_def res_header_def status_def new_response_def set_file_range_def Let_def split: option.splits if_splits ByteRange.splits)

lemma send_file_fd:
  assumes "file_fd (fst (send_file opened ct res)) \<noteq> - 1"
  shows "\<exists>sz. opened = Some (file_fd (fst (send_file opened ct res)), Some sz) \<and> file_size (fst (send_file opened ct res)) = sz"
  using assms by (auto simp: send_file_def set_body_def res_header_def status_def split: option.splits)

lemma no_fd [simp]: "file_fd (base_headers opts info hv enc) = - 1" "miss opts = Reply res \<Longrightarrow> file_fd res = - 1"
  by (auto simp: base_headers_def miss_def send_text_def set_body_def res_header_def status_def new_response_def Let_def split: if_splits)

lemma locate_no_fd: "locate fs opts base p = Inl (Reply res) \<Longrightarrow> file_fd res = - 1"
  by (auto simp: locate_def send_text_def set_body_def res_header_def status_def new_response_def
      split: prod.splits Resolution.splits option.splits if_splits)

section \<open>Ranges\<close>

lemma parse_range_bounds: "parse_range h sz = Satisfiable first last' \<Longrightarrow> first \<le> last' \<and> last' < sz"
  by (auto simp: parse_range_def Let_def split: if_splits option.splits prod.splits)


lemma from_chars_show_full: "n \<le> m \<Longrightarrow> from_chars_unsigned m (show_nat n) = Some (n, [])"
  using from_chars_show_nat [of n m "[]"] by simp

lemma parse_u64_show: "n \<le> UINT64_MAX \<Longrightarrow> parse_u64 (show_nat n) = Some n"
  by (simp add: parse_u64_def from_chars_show_full)

lemma digit_not: "isdigit c \<Longrightarrow> c \<noteq> CHR '','' \<and> c \<noteq> CHR ''-'' \<and> \<not> is_ows c"
proof -
  have "\<not> isdigit (CHR '','')" "\<not> isdigit (CHR ''-'')" "\<not> isdigit (CHR '' '')" "\<not> isdigit (CHR 0x09)" by code_simp+
  then show "isdigit c \<Longrightarrow> ?thesis" by (auto simp: is_ows_def)
qed

lemma trim_id:
  assumes "s \<noteq> []" "\<not> is_ows (hd s)" "\<not> is_ows (last s)"
  shows "trim s = s"
proof -
  have "ltrim s = s" using assms(1,2) by (cases s) (simp_all add: ltrim_def)
  moreover have "rtrim s = s" using assms(1,3) by (cases "rev s") (auto simp: rtrim_def hd_rev [symmetric])
  ultimately show ?thesis by (simp add: trim_def)
qed

lemma show_nat_chars: "c \<in> set (show_nat n) \<Longrightarrow> isdigit c"
  using show_nat_digits [of n] by (auto simp: list_all_iff)

lemma trim_show_nat [simp]: "trim (show_nat n) = show_nat n"
proof (rule trim_id)
  show "\<not> is_ows (hd (show_nat n))" "\<not> is_ows (last (show_nat n))"
    using digit_not show_nat_chars [OF hd_in_set [OF show_nat_nonempty]] show_nat_chars [OF last_in_set [OF show_nat_nonempty]] by blast+
qed simp

lemma parse_range_spec:
  assumes "CHR '','' \<notin> set f" "CHR '','' \<notin> set l" "CHR ''-'' \<notin> set f" "trim f = f" "trim l = l"
    and "trim (''bytes='' @ f @ CHR ''-'' # l) = ''bytes='' @ f @ CHR ''-'' # l" "trim (f @ CHR ''-'' # l) = f @ CHR ''-'' # l"
  shows "parse_range (''bytes='' @ f @ CHR ''-'' # l) sz =
    (if f = [] then (case parse_u64 l of None \<Rightarrow> NoRange | Some k \<Rightarrow> if k = 0 \<or> sz = 0 then Unsatisfiable else Satisfiable (sz - min k sz) (sz - 1))
     else case parse_u64 f of None \<Rightarrow> NoRange
       | Some a \<Rightarrow> (case (if l = [] then Some UINT64_MAX else parse_u64 l) of None \<Rightarrow> NoRange
           | Some b \<Rightarrow> if b < a then NoRange else if a \<ge> sz then Unsatisfiable else Satisfiable a (min b (sz - 1))))"
proof -
  have "split_at (CHR ''-'') (f @ CHR ''-'' # l) = (f, Some l)" using assms(3) by (simp add: split_at_eq_Some)
  moreover have "take 6 (''bytes='' @ f @ CHR ''-'' # l) = ''bytes=''" "drop 6 (''bytes='' @ f @ CHR ''-'' # l) = f @ CHR ''-'' # l" by simp_all
  ultimately show ?thesis
    unfolding parse_range_def Let_def assms(6) using assms(1,2,4,5,7) by (simp add: contains_char_def split: option.split)
qed

lemma parse_range_forms:
  assumes "0 < sz" "sz \<le> UINT64_MAX" "a \<le> b" "b \<le> UINT64_MAX" "0 < n" "n \<le> UINT64_MAX"
  shows "parse_range (''bytes='' @ show_nat a @ ''-'' @ show_nat b) sz = (if a < sz then Satisfiable a (min b (sz - 1)) else Unsatisfiable) \<and>
         parse_range (''bytes='' @ show_nat a @ ''-'') sz = (if a < sz then Satisfiable a (sz - 1) else Unsatisfiable) \<and>
         parse_range (''bytes=-'' @ show_nat n) sz = Satisfiable (sz - min n sz) (sz - 1)"
proof -
  have a: "a \<le> UINT64_MAX" using assms(3,4) by simp
  have n: "CHR '','' \<notin> set (show_nat k)" "CHR ''-'' \<notin> set (show_nat k)" for k using show_nat_chars digit_not by blast+
  have ows: "\<not> is_ows (CHR ''b'')" "\<not> is_ows (CHR ''-'')" by code_simp+
  have h: "\<not> is_ows (hd (show_nat k))" "\<not> is_ows (last (show_nat k))" for k
    using digit_not show_nat_chars [OF hd_in_set [OF show_nat_nonempty]] show_nat_chars [OF last_in_set [OF show_nat_nonempty]] by blast+
  have "trim [] = []" by (simp add: trim_def ltrim_def rtrim_def)
  moreover have "trim (show_nat a @ CHR ''-'' # l) = show_nat a @ CHR ''-'' # l" "trim (''bytes='' @ show_nat a @ CHR ''-'' # l) = ''bytes='' @ show_nat a @ CHR ''-'' # l"
    if "l = [] \<or> l = show_nat b" for l using that h ows by (auto intro!: trim_id)
  moreover have "trim (CHR ''-'' # show_nat n) = CHR ''-'' # show_nat n" "trim (''bytes='' @ [] @ CHR ''-'' # show_nat n) = ''bytes='' @ [] @ CHR ''-'' # show_nat n"
    using h ows by (auto intro!: trim_id)
  ultimately show ?thesis
    using parse_range_spec [of "show_nat a" "show_nat b" sz] parse_range_spec [of "show_nat a" "[]" sz] parse_range_spec [of "[]" "show_nat n" sz]
      assms a n by (simp add: parse_u64_show)
qed

lemma apply_range_partial:
  assumes "status_code (apply_range req info res) = 206" "status_code res = 200" "file_fd res \<noteq> - 1" "0 \<le> file_size res" "file_size res < 2 ^ 63"
  shows "\<exists>first last'. first \<le> last' \<and> int last' < file_size res \<and>
     apply_range req info res =
       res_header ''Content-Range'' (''bytes '' @ show_nat first @ ''-'' @ show_nat last' @ ''/'' @ show_int (file_size res))
         (res_header ''Content-Length'' (show_int (int last' + 1 - int first)) (res\<lparr>status_code := 206, file_offset := int first, file_size := int last' + 1\<rparr>))"
proof -
  have sz: "nat (file_size res mod 2 ^ 64) = nat (file_size res)" using assms(4,5) by simp
  obtain h first last' where h: "hdr_find ''Range'' (req_headers req) = Some h" "req_method req = GET"
      "range_current req info" "parse_range h (nat (file_size res)) = Satisfiable first last'"
    using assms(1,2) sz
    by (auto simp: apply_range_def res_header_def status_def new_response_def split: option.splits if_splits ByteRange.splits)
  have b: "first \<le> last'" "int last' < file_size res" using parse_range_bounds [OF h(4)] assms(4) by linarith+
  then have "apply_range req info res =
       res_header ''Content-Range'' (''bytes '' @ show_nat first @ ''-'' @ show_nat last' @ ''/'' @ show_int (file_size res))
         (res_header ''Content-Length'' (show_int (int last' + 1 - int first)) (res\<lparr>status_code := 206, file_offset := int first, file_size := int last' + 1\<rparr>))"
    using h sz assms(3) by (simp add: apply_range_def set_file_range_def status_def Let_def)
  with b show ?thesis by blast
qed

text \<open>What an answer can be.\<close>

lemma static_answer_Reply:
  assumes "static_answer b fs opts directory base0 req = Reply res"
  obtains (refused) "status_code res \<in> {403, 404}" "file_fd res = - 1" "hdr_find ''ETag'' (res_headers res) = None"
    | (served) base p original info where "base0 = Some base \<or> canonical fs directory = Some base"
        "under_mount (normalise_mount (opt_mount opts)) (req_uri req) = Some p" "req_method req \<in> {GET, HEAD}"
        "(case base0 of Some base \<Rightarrow> Some base | None \<Rightarrow> canonical fs directory) = Some base"
        "locate fs opts base p = Inr (original, info)" "serve_file b fs opts base req original info = Reply res"
proof -
  have e: "\<not> iequals ''Content-Length'' ''ETag''" "\<not> iequals ''Content-Type'' ''ETag''" by code_simp+
  have miss: "status_code res \<in> {403, 404} \<and> file_fd res = - 1 \<and> hdr_find ''ETag'' (res_headers res) = None" if "miss opts = Reply res"
    using that e by (auto simp: miss_def send_text_def set_body_def res_header_def status_def new_response_def split: if_splits)
  have loc: "status_code res \<in> {403, 404} \<and> file_fd res = - 1 \<and> hdr_find ''ETag'' (res_headers res) = None"
    if "locate fs opts base p = Inl (Reply res)" for base p
  proof -
    have "miss opts = Reply res \<or> res = send_text ''403 Forbidden'' (status 403 new_response)"
      using that by (auto simp: locate_def split: prod.splits Resolution.splits option.splits if_splits)
    then show ?thesis using miss e by (auto simp: send_text_def set_body_def res_header_def status_def new_response_def)
  qed
  obtain p where p: "under_mount (normalise_mount (opt_mount opts)) (req_uri req) = Some p" "req_method req \<in> {GET, HEAD}"
    using assms by (auto simp: static_answer_def split: if_splits option.splits)
  show thesis
  proof (cases "case base0 of Some base \<Rightarrow> Some base | None \<Rightarrow> canonical fs directory")
    case None
    then have "miss opts = Reply res" using assms p by (auto simp: static_answer_def)
    with miss refused show thesis by blast
  next
    case (Some base)
    then have b: "base0 = Some base \<or> canonical fs directory = Some base" by (cases base0) auto
    have a: "(case locate fs opts base p of Inl a \<Rightarrow> a | Inr (original, info) \<Rightarrow> serve_file b fs opts base req original info) = Reply res"
      using assms p Some by (auto simp: static_answer_def)
    show thesis
    proof (cases "locate fs opts base p")
      case (Inl x)
      with a loc refused show thesis by auto
    next
      case (Inr oi)
      then show thesis using a b p Some served by (cases oi) auto
    qed
  qed
qed

lemma base_headers_status: "status_code (base_headers opts info hv enc) = 200"
  by (simp add: base_headers_def res_header_def new_response_def Let_def)

lemma serve_file_Reply:
  assumes "serve_file b fs opts base req original info0 = Reply res"
    and "accept = (case hdr_find ''Accept-Encoding'' (req_headers req) of Some v \<Rightarrow> v | None \<Rightarrow> [])"
    and "pick_variant b fs opts base accept original info0 = (hv, requested, info, enc)"
    and "r0 = fst (send_file (open_file fs requested) (mime_type_for_extension (extension original)) (base_headers opts info hv enc))"
  shows "(if not_modified req info then res = status 304 (base_headers opts info hv enc)
          else if file_fd r0 = - 1 then miss opts = Reply res
          else res = apply_range req info r0 \<and> status_code r0 = 200 \<and> open_file fs requested = Some (file_fd r0, Some (file_size r0)))"
proof -
  have "status_code r0 = 200 \<and> open_file fs requested = Some (file_fd r0, Some (file_size r0))" if ne: "file_fd r0 \<noteq> - 1"
  proof -
    obtain fd sz where o: "open_file fs requested = Some (fd, Some sz)"
      using send_file_fd [of "open_file fs requested"] ne unfolding assms(4) by blast
    then show ?thesis by (simp add: assms(4) send_file_def res_header_def base_headers_status)
  qed
  then show ?thesis using assms by (auto simp: serve_file_def Let_def split: if_splits)
qed

text \<open>Entity tags have no comma and no blank, so the list with one tag matches it.\<close>

lemma show_hex_chars: "c \<in> set (show_hex n) \<Longrightarrow> c \<noteq> CHR '',''"
proof (induction n rule: show_hex.induct)
  case (1 n)
  have "\<forall>i\<in>set [0..<16]. hex_lower i \<noteq> CHR '',''" by code_simp
  then have h: "i < 16 \<Longrightarrow> hex_lower i \<noteq> CHR '',''" for i by simp
  show ?case
  proof (cases "n < 16")
    case True
    then show ?thesis using "1.prems" h [of n] by (simp add: show_hex.simps [of n])
  next
    case False
    then show ?thesis using "1.IH" "1.prems" h [of "n mod 16"] by (auto simp: show_hex.simps [of n])
  qed
qed

lemma etag_matches_itself: "etag_list_matches (make_etag info) (make_etag info)"
proof -
  have q: "\<not> is_ows (CHR 0x22)" by code_simp
  have "CHR '','' \<notin> set (make_etag info)" using show_hex_chars by (auto simp: make_etag_def)
  then have "list_elements (CHR '','') (make_etag info) = [make_etag info]"
    by (simp add: list_elements_def split_on_notin) (simp add: make_etag_def)
  moreover have "trim (make_etag info) = make_etag info" by (rule trim_id) (simp_all add: make_etag_def q)
  ultimately show ?thesis by (simp add: etag_list_matches_def)
qed

lemma etag_header:
  "hdr_find ''ETag'' (res_headers (base_headers opts info hv enc)) = Some (make_etag info)"
proof -
  have "\<not> iequals ''Last-Modified'' ''ETag''" "\<not> iequals ''Cache-Control'' ''ETag''" "\<not> iequals ''Accept-Ranges'' ''ETag''"
    "\<not> iequals ''Vary'' ''ETag''" "\<not> iequals ''Content-Encoding'' ''ETag''" by code_simp+
  then show ?thesis by (simp add: base_headers_def res_header_def Let_def)
qed

lemma etag_sent:
  assumes "hdr_find ''ETag'' (res_headers (apply_range req info (fst (send_file opened ct (base_headers opts info hv enc))))) = Some tag"
  shows "tag = make_etag info"
proof -
  have n: "\<not> iequals ''Content-Type'' ''ETag''" "\<not> iequals ''Content-Length'' ''ETag''" "\<not> iequals ''Content-Range'' ''ETag''" by code_simp+
  then have s: "hdr_find ''ETag'' (res_headers (fst (send_file opened ct (base_headers opts info hv enc)))) = Some (make_etag info)"
    by (simp add: send_file_def set_body_def res_header_def status_def etag_header split: option.split)
  have "hdr_find ''ETag'' (res_headers (apply_range req info r)) \<in> {None, hdr_find ''ETag'' (res_headers r)}" for r
    using n by (auto simp: apply_range_def res_header_def status_def new_response_def set_file_range_def Let_def
        split: option.splits if_splits ByteRange.splits)
  from this [of "fst (send_file opened ct (base_headers opts info hv enc))"] s assms show ?thesis by simp
qed

section \<open>Properties\<close>

text \<open>
  C4: Only files inside the directory are served: when a request is answered with an open file, that
  file was opened under a path that \<^verbatim>\<open>weakly_canonical\<close> returned (so no symbolic link and no
  \<open>..\<close> is left in it), that lies below the directory's own canonical path and that was a regular
  file, whatever the request path, the index option, symbolic links or precompressed siblings led to; and
  unless dotfiles are allowed no component below the directory is hidden. (The directory is taken not to
  change while the request is served.)
\<close>

theorem static_files_contained:
  assumes "static_answer b fs opts directory base0 req = Reply res" "file_fd res \<noteq> - 1"
  shows "\<exists>base rel cand info sz.
           (base0 = Some base \<or> base0 = None \<and> canonical fs directory = Some base) \<and>
           weakly_canonical fs cand = Some (base @ rel) \<and>
           stat_path fs (base @ rel) = Some info \<and> info_regular info \<and>
           open_file fs (base @ rel) = Some (file_fd res, Some sz) \<and>
           (serve_dotfiles opts \<or> \<not> list_ex hidden_part rel)"
proof -
  obtain base p original info where base: "(case base0 of Some base \<Rightarrow> Some base | None \<Rightarrow> canonical fs directory) = Some base"
    and l: "locate fs opts base p = Inr (original, info)" and s: "serve_file b fs opts base req original info = Reply res"
    using assms by (elim static_answer_Reply) auto
  let ?accept = "case hdr_find ''Accept-Encoding'' (req_headers req) of Some v \<Rightarrow> v | None \<Rightarrow> []"
  obtain hv requested i enc where v: "pick_variant b fs opts base ?accept original info = (hv, requested, i, enc)" by (metis prod_cases4)
  let ?sent = "fst (send_file (open_file fs requested) (mime_type_for_extension (extension original)) (base_headers opts i hv enc))"
  have "res = apply_range req i ?sent \<and> open_file fs requested = Some (file_fd ?sent, Some (file_size ?sent))"
    using serve_file_Reply [OF s refl v refl] assms(2) no_fd(2) [of opts res] by (auto simp: status_def split: if_splits)
  then have "open_file fs requested = Some (file_fd res, Some (file_size ?sent))" using apply_range_fd assms(2) by metis
  moreover have "servable fs opts base requested"
    using pick_variant_servable [OF locate_servable [OF l], where b = b and accept = ?accept and info = info] v by simp
  ultimately show ?thesis using base by (auto simp: servable_def contained_def regular_at_def split: option.splits)
qed

text \<open>A directory with one file, for the witnesses.\<close>

definition demo_file :: FileInfo where
  "demo_file = \<lparr>info_regular = True, info_directory = False, info_size = 10, info_mtime = 0\<rparr>"

definition demo_fs :: file_system where
  "demo_fs =
     \<lparr>canonical = (\<lambda>_. Some [''srv'']), weakly_canonical = (\<lambda>p. Some (filter (\<lambda>c. c \<noteq> []) p)),
      stat_path = (\<lambda>p. if p = [''srv'', ''a.txt''] then Some demo_file else None),
      open_file = (\<lambda>p. if p = [''srv'', ''a.txt''] then Some (5, Some 10) else None)\<rparr>"

definition demo_static :: StaticFilesOptions where
  "demo_static =
     \<lparr>opt_index = ''index.html'', serve_dotfiles = False, max_age = 0, opt_mount = [], fallthrough = True, precompressed = False\<rparr>"

definition demo_response :: HttpResponse where
  "demo_response = fst (send_file (Some (5, Some 10)) ''text/plain; charset=utf-8'' (base_headers demo_static demo_file False []))"

lemma demo_sent [simp]: "file_fd demo_response = 5" "file_size demo_response = 10" "status_code demo_response = 200"
  by (simp_all add: demo_response_def send_file_def res_header_def base_headers_status)

lemma header_names_static:
  "\<not> iequals ''Range'' ''If-None-Match''" "\<not> iequals ''Range'' ''If-Modified-Since''" "\<not> iequals ''Range'' ''If-Range''"
  "\<not> iequals ''If-None-Match'' ''Accept-Encoding''"
  by code_simp+

lemma demo_answer:
  assumes "hdr_find ''If-None-Match'' hs = None" "hdr_find ''If-Modified-Since'' hs = None"
  shows "static_answer demo_build demo_fs demo_static ''srv'' None (empty_request\<lparr>req_method := GET, req_uri := ''/a.txt'', req_headers := hs\<rparr>) =
    Reply (apply_range (empty_request\<lparr>req_method := GET, req_uri := ''/a.txt'', req_headers := hs\<rparr>) demo_file demo_response)"
proof -
  have l: "locate demo_fs demo_static [''srv''] ''/a.txt'' = Inr ([''srv'', ''a.txt''], demo_file)"
    "extension [''srv'', ''a.txt''] = ''.txt''" "mime_type_for_extension ''.txt'' = ''text/plain; charset=utf-8''"
    by code_simp+
  have "not_modified (empty_request\<lparr>req_method := GET, req_uri := ''/a.txt'', req_headers := hs\<rparr>) demo_file = False"
    using assms by (simp add: not_modified_def)
  moreover have "open_file demo_fs [''srv'', ''a.txt''] = Some (5, Some 10)" "canonical demo_fs ''srv'' = Some [''srv'']"
    "precompressed demo_static = False" "normalise_mount (opt_mount demo_static) = []"
    by (simp_all add: demo_fs_def demo_static_def normalise_mount_def)
  ultimately show ?thesis
    using l by (simp add: static_answer_def under_mount_def serve_file_def pick_variant_def flip: demo_response_def)
qed

theorem static_files_contained_witness:
  "\<exists>res rel cand sz. static_answer demo_build demo_fs demo_static ''srv'' None (empty_request\<lparr>req_method := GET, req_uri := ''/a.txt'', req_headers := []\<rparr>) = Reply res \<and>
     weakly_canonical demo_fs cand = Some (''srv'' # rel) \<and> regular_at demo_fs (''srv'' # rel) \<and>
     open_file demo_fs (''srv'' # rel) = Some (5, Some sz)"
proof -
  have "(case static_answer demo_build demo_fs demo_static ''srv'' None (empty_request\<lparr>req_method := GET, req_uri := ''/a.txt'', req_headers := []\<rparr>) of
      Reply r \<Rightarrow> file_fd r = 5 | Pass \<Rightarrow> False)"
    by (simp add: demo_answer apply_range_def)
  then obtain res where r: "static_answer demo_build demo_fs demo_static ''srv'' None (empty_request\<lparr>req_method := GET, req_uri := ''/a.txt'', req_headers := []\<rparr>) = Reply res" "file_fd res = 5"
    by (auto split: answer.splits)
  moreover have "canonical demo_fs ''srv'' = Some [''srv'']" by (simp add: demo_fs_def)
  ultimately show ?thesis using static_files_contained [OF r(1)] by (auto simp: regular_at_def)
qed

text \<open>
  Partial responses are consistent: a 206 names a range that lies inside the file, sends exactly
  those bytes (its offset and end are the range's) and announces exactly their number in
  \<open>Content-Length\<close>.
\<close>

theorem partial_content_exact:
  assumes "static_answer b fs opts directory base0 req = Reply res" "status_code res = 206"
    and "\<forall>p fd sz. open_file fs p = Some (fd, Some sz) \<longrightarrow> 0 \<le> sz \<and> sz < 2 ^ 63"
  shows "\<exists>first last' total. first \<le> last' \<and> int last' < total \<and> file_offset res = int first \<and> file_size res = int last' + 1 \<and>
     hdr_find ''Content-Length'' (res_headers res) = Some (show_int (file_size res - file_offset res)) \<and>
     hdr_find ''Content-Range'' (res_headers res) = Some (''bytes '' @ show_nat first @ ''-'' @ show_nat last' @ ''/'' @ show_int total)"
proof -
  obtain base p original info where s: "serve_file b fs opts base req original info = Reply res"
    using assms(1,2) by (elim static_answer_Reply) auto
  let ?accept = "case hdr_find ''Accept-Encoding'' (req_headers req) of Some v \<Rightarrow> v | None \<Rightarrow> []"
  obtain hv requested i enc where v: "pick_variant b fs opts base ?accept original info = (hv, requested, i, enc)" by (metis prod_cases4)
  let ?sent = "fst (send_file (open_file fs requested) (mime_type_for_extension (extension original)) (base_headers opts i hv enc))"
  have "miss opts = Reply res \<Longrightarrow> status_code res \<noteq> 206"
    by (auto simp: miss_def send_text_def set_body_def res_header_def status_def split: if_splits)
  then have r: "res = apply_range req i ?sent" "file_fd ?sent \<noteq> - 1" "status_code ?sent = 200"
      "open_file fs requested = Some (file_fd ?sent, Some (file_size ?sent))"
    using serve_file_Reply [OF s refl v refl] assms(2) by (auto simp: status_def split: if_splits)
  have "0 \<le> file_size ?sent" "file_size ?sent < 2 ^ 63" using assms(3) r(4) by blast+
  then obtain first last' where "first \<le> last'" "int last' < file_size ?sent"
      "res = res_header ''Content-Range'' (''bytes '' @ show_nat first @ ''-'' @ show_nat last' @ ''/'' @ show_int (file_size ?sent))
         (res_header ''Content-Length'' (show_int (int last' + 1 - int first)) (?sent\<lparr>status_code := 206, file_offset := int first, file_size := int last' + 1\<rparr>))"
    using apply_range_partial [of req i ?sent] r(1-3) assms(2) by metis
  moreover have "\<not> iequals ''Content-Range'' ''Content-Length''" by code_simp
  ultimately show ?thesis by (intro exI [of _ first] exI [of _ last'] exI [of _ "file_size ?sent"]) (simp add: res_header_def)
qed

theorem partial_content_exact_witness:
  "\<exists>res first last' total. static_answer demo_build demo_fs demo_static ''srv'' None
       (empty_request\<lparr>req_method := GET, req_uri := ''/a.txt'', req_headers := [(''Range'', ''bytes=2-4'')]\<rparr>) = Reply res \<and>
     first \<le> last' \<and> int last' < total \<and> file_offset res = int first \<and> file_size res = int last' + 1"
proof -
  let ?a = "static_answer demo_build demo_fs demo_static ''srv'' None (empty_request\<lparr>req_method := GET, req_uri := ''/a.txt'', req_headers := [(''Range'', ''bytes=2-4'')]\<rparr>)"
  have "show_nat 2 = ''2''" "show_nat 4 = ''4''" by code_simp+
  then have "parse_range ''bytes=2-4'' 10 = Satisfiable 2 4" using parse_range_forms [of 10 2 4 1] by simp
  then have "(case ?a of Reply r \<Rightarrow> status_code r = 206 | Pass \<Rightarrow> False)"
    by (simp add: demo_answer apply_range_def demo_sent range_current_def header_names_static set_file_range_def res_header_def status_def Let_def)
  then obtain res where r: "?a = Reply res" "status_code res = 206" by (auto split: answer.splits)
  have sz: "\<forall>p fd sz. open_file demo_fs p = Some (fd, Some sz) \<longrightarrow> 0 \<le> sz \<and> sz < 2 ^ 63"
    by (auto simp: demo_fs_def split: if_splits)
  note partial_content_exact [OF r sz]
  then show ?thesis using r(1) by (elim exE conjE) (intro exI conjI, assumption+)
qed

text \<open>
  Byte ranges mean what they say: for a file that is not empty and has fewer than \<open>2\<^sup>64\<close> bytes,
  \<open>bytes=a-b\<close> inside the file gives that range, \<open>bytes=a-\<close> the rest from \<open>a\<close>, \<open>bytes=-n\<close> the last \<open>n\<close> bytes (all of
  a shorter file), and a range that starts past the end cannot be satisfied.
\<close>

theorem byte_range_forms:
  assumes "0 < sz" "sz \<le> UINT64_MAX" "a \<le> b" "b \<le> UINT64_MAX" "0 < n" "n \<le> UINT64_MAX"
  shows "parse_range (''bytes='' @ show_nat a @ ''-'' @ show_nat b) sz = (if a < sz then Satisfiable a (min b (sz - 1)) else Unsatisfiable) \<and>
         parse_range (''bytes='' @ show_nat a @ ''-'') sz = (if a < sz then Satisfiable a (sz - 1) else Unsatisfiable) \<and>
         parse_range (''bytes=-'' @ show_nat n) sz = Satisfiable (sz - min n sz) (sz - 1)"
  using assms by (rule parse_range_forms)

theorem byte_range_forms_witness: "parse_range ''bytes=2-4'' 10 = Satisfiable 2 4 \<and> parse_range ''bytes=-3'' 10 = Satisfiable 7 9"
proof -
  have "show_nat 2 = ''2''" "show_nat 4 = ''4''" "show_nat 3 = ''3''" by code_simp+
  with byte_range_forms [of 10 2 4 3] show ?thesis by simp
qed


text \<open>
  Revalidation works: a client that repeats a request with the \<open>ETag\<close> it was given in
  \<open>If-None-Match\<close>, the files being unchanged, is answered 304 with that tag, whichever variant it negotiated.
\<close>

theorem revalidation_not_modified:
  assumes "static_answer b fs opts directory base0 req = Reply res" "hdr_find ''ETag'' (res_headers res) = Some tag"
    and "req' = req\<lparr>req_headers := hdr_set ''If-None-Match'' tag (req_headers req)\<rparr>"
  shows "\<exists>res'. static_answer b fs opts directory base0 req' = Reply res' \<and> status_code res' = 304 \<and>
           hdr_find ''ETag'' (res_headers res') = Some tag"
proof -
  obtain base p original info0 where m: "under_mount (normalise_mount (opt_mount opts)) (req_uri req) = Some p" "req_method req \<in> {GET, HEAD}"
      "(case base0 of Some base \<Rightarrow> Some base | None \<Rightarrow> canonical fs directory) = Some base"
      "locate fs opts base p = Inr (original, info0)" and s: "serve_file b fs opts base req original info0 = Reply res"
    using assms(1,2) by (elim static_answer_Reply) auto
  let ?accept = "case hdr_find ''Accept-Encoding'' (req_headers req) of Some v \<Rightarrow> v | None \<Rightarrow> []"
  obtain hv requested info enc where v: "pick_variant b fs opts base ?accept original info0 = (hv, requested, info, enc)" by (metis prod_cases4)
  have e: "\<not> iequals ''Content-Length'' ''ETag''" "\<not> iequals ''Content-Type'' ''ETag''" by code_simp+
  have "miss opts = Reply res \<Longrightarrow> hdr_find ''ETag'' (res_headers res) = None"
    using e by (auto simp: miss_def send_text_def set_body_def res_header_def status_def new_response_def split: if_splits)
  then have tag: "tag = make_etag info"
    using serve_file_Reply [OF s refl v refl] assms(2) etag_sent etag_header by (auto simp: status_def split: if_splits)
  have nm: "not_modified req' info" using assms(3) by (simp add: not_modified_def tag etag_matches_itself)
  have acc: "hdr_find ''Accept-Encoding'' (req_headers req') = hdr_find ''Accept-Encoding'' (req_headers req)"
    using assms(3) header_names_static(4) by simp
  have "serve_file b fs opts base req' original info0 = Reply (status 304 (base_headers opts info hv enc))"
    using v nm acc by (simp add: serve_file_def)
  moreover have "static_answer b fs opts directory base0 req' = serve_file b fs opts base req' original info0"
    using m assms(3) by (auto simp: static_answer_def)
  ultimately show ?thesis using etag_header tag by (simp add: status_def)
qed

theorem revalidation_not_modified_witness:
  "\<exists>res'. static_answer demo_build demo_fs demo_static ''srv'' None
     (empty_request\<lparr>req_method := GET, req_uri := ''/a.txt'', req_headers := [(''If-None-Match'', make_etag demo_file)]\<rparr>) = Reply res' \<and>
     status_code res' = 304"
proof -
  let ?req = "empty_request\<lparr>req_method := GET, req_uri := ''/a.txt'', req_headers := []\<rparr>"
  have a: "static_answer demo_build demo_fs demo_static ''srv'' None ?req = Reply demo_response"
    by (simp add: demo_answer apply_range_def)
  have "\<not> iequals ''Content-Type'' ''ETag''" "\<not> iequals ''Content-Length'' ''ETag''" by code_simp+
  then have "hdr_find ''ETag'' (res_headers demo_response) = Some (make_etag demo_file)"
    by (simp add: demo_response_def send_file_def res_header_def etag_header)
  from revalidation_not_modified [OF a this refl] show ?thesis by auto
qed

end
