(* ===== verification/Http1_Parser.thy ===== *)
theory Http1_Parser
  imports Http_Text
begin

text \<open>
  The HTTP/1 request parser (\<^verbatim>\<open>src/http/Http1Parser.cpp\<close>): the callbacks it gives to llhttp, and \<^verbatim>\<open>feed\<close> and \<^verbatim>\<open>next\<close>,
  which drive llhttp over the bytes of a connection. llhttp is a parameter: a function from its state and a piece of input to
  the callbacks it makes there (each with the position and state reached), and how it ends when all of them return 0.

  The theorems: an error is final and has one of the documented statuses; the limits on request line, header fields, header
  section and body hold for whatever arrives; and the request handed to the application is the one spelled by the callbacks,
  however the network cut it into pieces.
\<close>

section \<open>State\<close>

record Limits =
  max_request_line :: nat
  max_header_bytes :: nat
  max_headers :: nat
  max_body_size :: nat

record Impl =
  limits :: Limits
  request :: HttpRequest
  message_body :: string
  body_handler :: bool
  handler_got :: string
  body_limit_for :: "(HttpRequest \<Rightarrow> nat) option"
  body_limit :: nat
  p_method :: string
  p_url :: string
  p_field :: string
  p_value :: string
  p_headers :: "(string \<times> string) list"
  header_bytes :: nat
  body_bytes :: nat
  headers_done :: bool
  message_done :: bool
  expect_continue :: bool
  is_chunked :: bool
  has_body :: bool
  upgrade :: bool
  failed :: bool
  error_status :: nat
  error_reason :: string

text \<open>What the callbacks read of llhttp's own structure when the headers are complete.\<close>

record head_info =
  http_major :: nat
  http_minor :: nat
  f_chunked :: bool
  f_content_length :: bool
  content_length :: nat

datatype callback =
    OnMethod string
  | OnUrl string
  | OnHeaderField string
  | OnHeaderFieldComplete
  | OnHeaderValue string
  | OnHeaderValueComplete
  | OnHeadersComplete head_info
  | OnBody string
  | OnMessageComplete bool

text \<open>A callback returns 0, -1 or \<^verbatim>\<open>HPE_PAUSED\<close>.\<close>

datatype cb_result = Proceed | Refuse | Pause

datatype Event = NeedMore | HeadersComplete | MessageComplete | Error

definition new_impl :: "Limits \<Rightarrow> Impl" where
  "new_impl l =
     \<lparr>limits = l, request = empty_request, message_body = [], body_handler = False, handler_got = [], body_limit_for = None,
      body_limit = 0, p_method = [], p_url = [], p_field = [], p_value = [], p_headers = [], header_bytes = 0, body_bytes = 0,
      headers_done = False, message_done = False, expect_continue = False, is_chunked = False, has_body = False,
      upgrade = False, failed = False, error_status = 0, error_reason = []\<rparr>"

definition fail :: "nat \<Rightarrow> string \<Rightarrow> Impl \<Rightarrow> cb_result \<times> Impl" where
  "fail s reason p =
     (Refuse, if failed p then p else p\<lparr>failed := True, error_status := s, error_reason := reason\<rparr>)"

definition reset_message :: "Impl \<Rightarrow> Impl" where
  "reset_message p =
     p\<lparr>request := empty_request, message_body := [], body_handler := False, handler_got := [], p_method := [], p_url := [],
       p_field := [], p_value := [], p_headers := [], header_bytes := 0, body_bytes := 0, headers_done := False,
       message_done := False, expect_continue := False, is_chunked := False, has_body := False, upgrade := False\<rparr>"


section \<open>Callbacks\<close>

definition on_method :: "string \<Rightarrow> Impl \<Rightarrow> cb_result \<times> Impl" where
  "on_method s p = (Proceed, p\<lparr>p_method := p_method p @ s\<rparr>)"

definition on_url :: "string \<Rightarrow> Impl \<Rightarrow> cb_result \<times> Impl" where
  "on_url s p =
     (let p' = p\<lparr>p_url := p_url p @ s\<rparr>
      in if length (p_method p') + 1 + length (p_url p') > max_request_line (limits p')
         then fail 431 ''Request line too long'' p' else (Proceed, p'))"

definition on_header_field :: "string \<Rightarrow> Impl \<Rightarrow> cb_result \<times> Impl" where
  "on_header_field s p = (Proceed, p\<lparr>p_field := p_field p @ s\<rparr>)"

definition on_header_field_complete :: "Impl \<Rightarrow> cb_result \<times> Impl" where
  "on_header_field_complete p =
     (if length (p_headers p) + 1 > max_headers (limits p) then fail 431 ''Too many header fields'' p else (Proceed, p))"

definition on_header_value :: "string \<Rightarrow> Impl \<Rightarrow> cb_result \<times> Impl" where
  "on_header_value s p = (Proceed, p\<lparr>p_value := p_value p @ s\<rparr>)"

definition on_header_value_complete :: "Impl \<Rightarrow> cb_result \<times> Impl" where
  "on_header_value_complete p =
     (Proceed, p\<lparr>p_headers := p_headers p @ [(p_field p, rtrim (p_value p))], p_field := [], p_value := []\<rparr>)"

text \<open>
  The header fields of the request, with the cookies; a repeated field: the last one wins. The list of fields is
  moved from, and afterwards only its length is read.
\<close>

definition is_expect_continue :: "string \<times> string \<Rightarrow> bool" where
  "is_expect_continue kv \<longleftrightarrow> iequals (fst kv) ''Expect'' \<and> iequals (snd kv) ''100-continue''"

definition put_headers :: "(string \<times> string) list \<Rightarrow> HttpRequest \<Rightarrow> HttpRequest" where
  "put_headers hs req = fold (\<lambda>(name, val). set_header name val) hs req"

definition put_cookies :: "HttpRequest \<Rightarrow> HttpRequest" where
  "put_cookies req =
     (case hdr_find ''Cookie'' (req_headers req) of
        Some v \<Rightarrow> req\<lparr>req_cookies := parse_cookie_header v (req_cookies req)\<rparr>
      | None \<Rightarrow> req)"

text \<open>The request line; a part that does not decode makes the request fail (what was decoded of it is not kept here).\<close>

definition put_target :: "string \<Rightarrow> string \<Rightarrow> HttpRequest \<Rightarrow> string + HttpRequest" where
  "put_target method url req0 =
     (let req = req0\<lparr>req_method := parse_method method, req_target := url\<rparr>
      in case split_at (CHR ''?'') url of (path, q) \<Rightarrow>
           (case percent_decode False True path of
              None \<Rightarrow> Inl ''Invalid percent-encoding in the path''
            | Some uri \<Rightarrow>
                (case q of
                   None \<Rightarrow> Inr (req\<lparr>req_uri := uri\<rparr>)
                 | Some query \<Rightarrow>
                     (case parse_urlencoded query (req_query req) of
                        None \<Rightarrow> Inl ''Invalid query string''
                      | Some fs \<Rightarrow> Inr (req\<lparr>req_uri := uri, req_query := fs\<rparr>)))))"

definition version_text :: "head_info \<Rightarrow> string" where
  "version_text i = ''HTTP/'' @ show_nat (http_major i) @ ''.'' @ show_nat (http_minor i)"

definition on_headers_complete :: "head_info \<Rightarrow> Impl \<Rightarrow> cb_result \<times> Impl" where
  "on_headers_complete i p0 =
     (let p = p0\<lparr>headers_done := True\<rparr>
      in case put_target (p_method p) (p_url p) (request p) of
           Inl reason \<Rightarrow> fail 400 reason p
         | Inr req \<Rightarrow>
             (let req' = put_cookies (put_headers (p_headers p) (req\<lparr>http_version := version_text i\<rparr>));
                  p' = p\<lparr>request := req',
                         expect_continue := expect_continue p \<or> list_ex is_expect_continue (p_headers p),
                         body_limit := (case body_limit_for p of Some f \<Rightarrow> f req' | None \<Rightarrow> max_body_size (limits p)),
                         is_chunked := f_chunked i,
                         has_body := f_chunked i \<or> (f_content_length i \<and> content_length i > 0)\<rparr>
              in if f_content_length i \<and> content_length i > body_limit p'
                 then fail 413 ''Content-Length exceeds the body size limit'' p'
                 else (if has_body p' then Pause else Proceed, p')))"

definition on_body :: "string \<Rightarrow> Impl \<Rightarrow> cb_result \<times> Impl" where
  "on_body s p0 =
     (let p = p0\<lparr>body_bytes := body_bytes p0 + length s\<rparr>
      in if body_bytes p > body_limit p then fail 413 ''Body exceeds the size limit'' p
         else if body_handler p then (Proceed, p\<lparr>handler_got := handler_got p @ s\<rparr>)
         else (Proceed, p\<lparr>message_body := message_body p @ s\<rparr>))"

definition on_message_complete :: "bool \<Rightarrow> Impl \<Rightarrow> cb_result \<times> Impl" where
  "on_message_complete up p =
     (Pause, p\<lparr>message_done := True, upgrade := up,
               request := (if body_handler p then request p else (request p)\<lparr>req_body := message_body p\<rparr>)\<rparr>)"

fun on_callback :: "callback \<Rightarrow> Impl \<Rightarrow> cb_result \<times> Impl" where
  "on_callback (OnMethod s) = on_method s"
| "on_callback (OnUrl s) = on_url s"
| "on_callback (OnHeaderField s) = on_header_field s"
| "on_callback OnHeaderFieldComplete = on_header_field_complete"
| "on_callback (OnHeaderValue s) = on_header_value s"
| "on_callback OnHeaderValueComplete = on_header_value_complete"
| "on_callback (OnHeadersComplete i) = on_headers_complete i"
| "on_callback (OnBody s) = on_body s"
| "on_callback (OnMessageComplete up) = on_message_complete up"


section \<open>Driving llhttp\<close>

datatype llerrno = HPE_OK | HPE_PAUSED | HPE_PAUSED_UPGRADE | HPE_INVALID_METHOD | HPE_USER | HPE_OTHER nat

text \<open>
  llhttp: the callbacks made on a piece of input, each with the position and the state after it, then the error code,
  position and state at the end; and the reason it gives for an error. A callback that returns non-zero stops it there.
\<close>

record 'l llhttp =
  ll_run :: "'l \<Rightarrow> string \<Rightarrow> (callback \<times> nat \<times> 'l) list \<times> llerrno \<times> nat \<times> 'l"
  ll_reason :: "llerrno \<Rightarrow> 'l \<Rightarrow> string"

record 'l Http1Parser =
  impl :: Impl
  ll :: 'l
  ll_errno :: llerrno

fun run_callbacks :: "(callback \<times> nat \<times> 'l) list \<Rightarrow> llerrno \<times> nat \<times> 'l \<Rightarrow> Impl \<Rightarrow> llerrno \<times> nat \<times> 'l \<times> Impl" where
  "run_callbacks [] (err, pos, l) p = (err, pos, l, p)"
| "run_callbacks ((cb, pos, l) # rest) fin p =
     (case on_callback cb p of
        (Proceed, p') \<Rightarrow> run_callbacks rest fin p'
      | (Refuse, p') \<Rightarrow> (HPE_USER, pos, l, p')
      | (Pause, p') \<Rightarrow> (HPE_PAUSED, pos, l, p'))"

definition llhttp_execute :: "'l llhttp \<Rightarrow> string \<Rightarrow> 'l Http1Parser \<Rightarrow> llerrno \<times> nat \<times> 'l Http1Parser" where
  "llhttp_execute lib data s =
     (if ll_errno s \<noteq> HPE_OK then (ll_errno s, 0, s)
      else case ll_run lib (ll s) data of (cbs, fin) \<Rightarrow>
             (case run_callbacks cbs fin (impl s) of
                (err, pos, l, p) \<Rightarrow> (err, pos, \<lparr>impl = p, ll = l, ll_errno = err\<rparr>)))"

definition llhttp_resume :: "'l Http1Parser \<Rightarrow> 'l Http1Parser" where
  "llhttp_resume s = (if ll_errno s = HPE_PAUSED then s\<lparr>ll_errno := HPE_OK\<rparr> else s)"

definition llhttp_resume_after_upgrade :: "'l Http1Parser \<Rightarrow> 'l Http1Parser" where
  "llhttp_resume_after_upgrade s = (if ll_errno s = HPE_PAUSED_UPGRADE then s\<lparr>ll_errno := HPE_OK\<rparr> else s)"

definition parser_fail :: "nat \<Rightarrow> string \<Rightarrow> 'l Http1Parser \<Rightarrow> 'l Http1Parser" where
  "parser_fail st reason s = s\<lparr>impl := snd (fail st reason (impl s))\<rparr>"

definition fail_from_llhttp :: "'l llhttp \<Rightarrow> llerrno \<Rightarrow> 'l Http1Parser \<Rightarrow> 'l Http1Parser" where
  "fail_from_llhttp lib err s = parser_fail (if err = HPE_INVALID_METHOD then 501 else 400) (ll_reason lib err (ll s)) s"

text \<open>The two calls of \<^verbatim>\<open>llhttp_execute\<close> in \<^verbatim>\<open>feed\<close>, the second after an upgrade the caller declined.\<close>

definition feed_execute :: "'l llhttp \<Rightarrow> string \<Rightarrow> 'l Http1Parser \<Rightarrow> llerrno \<times> nat \<times> 'l Http1Parser" where
  "feed_execute lib data s =
     (case llhttp_execute lib data (llhttp_resume s) of (err, pos, s') \<Rightarrow>
        if err = HPE_PAUSED_UPGRADE \<and> \<not> message_done (impl s')
        then llhttp_execute lib data (llhttp_resume_after_upgrade s') else (err, pos, s'))"

definition count_header_bytes :: "bool \<Rightarrow> llerrno \<Rightarrow> nat \<Rightarrow> 'l Http1Parser \<Rightarrow> 'l Http1Parser" where
  "count_header_bytes in_headers err used s =
     (if in_headers \<and> \<not> failed (impl s)
      then let n = header_bytes (impl s) + (if err \<in> {HPE_OK, HPE_PAUSED, HPE_PAUSED_UPGRADE} then used else 0);
               s' = s\<lparr>impl := (impl s)\<lparr>header_bytes := n\<rparr>\<rparr>
           in if n > max_header_bytes (limits (impl s)) then parser_fail 431 ''Header section too large'' s' else s'
      else s)"

definition feed :: "'l llhttp \<Rightarrow> string \<Rightarrow> 'l Http1Parser \<Rightarrow> Event \<times> nat \<times> 'l Http1Parser" where
  "feed lib data s =
     (if failed (impl s) then (Error, 0, s)
      else if message_done (impl s) then (MessageComplete, 0, s)
      else case feed_execute lib data s of (err, pos, s1) \<Rightarrow>
             (let used = (if err = HPE_PAUSED \<or> err = HPE_PAUSED_UPGRADE then pos else length data);
                  s2 = count_header_bytes (\<not> headers_done (impl s)) err used s1
              in if failed (impl s2) then (Error, used, s2)
                 else if err = HPE_OK then (NeedMore, used, s2)
                 else if err = HPE_PAUSED \<or> err = HPE_PAUSED_UPGRADE
                 then (if message_done (impl s2) then MessageComplete else HeadersComplete, used, s2)
                 else (Error, used, fail_from_llhttp lib err s2)))"

definition next_message :: "'l Http1Parser \<Rightarrow> 'l Http1Parser" where
  "next_message s =
     (if failed (impl s) then s
      else let s' = llhttp_resume_after_upgrade (llhttp_resume s) in s'\<lparr>impl := reset_message (impl s')\<rparr>)"

definition set_body_handler :: "'l Http1Parser \<Rightarrow> 'l Http1Parser" where
  "set_body_handler s = s\<lparr>impl := (impl s)\<lparr>body_handler := True\<rparr>\<rparr>"

definition set_body_limit :: "(HttpRequest \<Rightarrow> nat) \<Rightarrow> 'l Http1Parser \<Rightarrow> 'l Http1Parser" where
  "set_body_limit f s = s\<lparr>impl := (impl s)\<lparr>body_limit_for := Some f\<rparr>\<rparr>"

definition new_parser :: "'l \<Rightarrow> Limits \<Rightarrow> 'l Http1Parser" where
  "new_parser l lim = \<lparr>impl = new_impl lim, ll = l, ll_errno = HPE_OK\<rparr>"


section \<open>Errors\<close>

definition status_ok :: "Impl \<Rightarrow> bool" where
  "status_ok p \<longleftrightarrow> failed p \<longrightarrow> error_status p \<in> {400, 413, 431, 501}"

lemmas callback_defs = on_method_def on_url_def on_header_field_def on_header_field_complete_def on_header_value_def
  on_header_value_complete_def on_body_def on_message_complete_def

lemma on_headers_complete_cases:
  obtains reason where "on_headers_complete i p = fail 400 reason (p\<lparr>headers_done := True\<rparr>)"
  | req ec bl where
      "on_headers_complete i p =
         (let p' = p\<lparr>headers_done := True, request := req, expect_continue := ec, body_limit := bl, is_chunked := f_chunked i,
                     has_body := f_chunked i \<or> (f_content_length i \<and> content_length i > 0)\<rparr>
          in if f_content_length i \<and> content_length i > bl
             then fail 413 ''Content-Length exceeds the body size limit'' p'
             else (if has_body p' then Pause else Proceed, p'))"
proof (cases "put_target (p_method p) (p_url p) (request p)")
  case (Inl r) then show ?thesis using that(1) by (simp add: on_headers_complete_def)
next
  case (Inr r)
  show ?thesis by (rule that(2)) (simp add: on_headers_complete_def Inr Let_def)
qed

lemma on_callback_failed: "failed p \<Longrightarrow> failed (snd (on_callback cb p))"
proof (cases cb)
  case (OnHeadersComplete i)
  assume "failed p"
  then show ?thesis unfolding OnHeadersComplete on_callback.simps
    by (cases rule: on_headers_complete_cases [of i p]) (simp_all add: fail_def Let_def)
qed (auto simp: callback_defs fail_def Let_def)

lemma on_callback_status: "status_ok p \<Longrightarrow> status_ok (snd (on_callback cb p))"
proof (cases cb)
  case (OnHeadersComplete i)
  assume "status_ok p"
  then show ?thesis unfolding OnHeadersComplete on_callback.simps
    by (cases rule: on_headers_complete_cases [of i p]) (simp_all add: fail_def status_ok_def Let_def)
qed (auto simp: callback_defs fail_def Let_def status_ok_def)

lemma on_callback_refuses: "fst (on_callback cb p) = Refuse \<Longrightarrow> failed (snd (on_callback cb p))"
proof (cases cb)
  case (OnHeadersComplete i)
  assume "fst (on_callback cb p) = Refuse"
  then show ?thesis unfolding OnHeadersComplete on_callback.simps
    by (cases rule: on_headers_complete_cases [of i p]) (simp_all add: fail_def Let_def split: if_splits)
qed (auto simp: callback_defs fail_def Let_def split: if_splits)

lemma run_callbacks_induct:
  assumes "P p" "\<And>cb p. P p \<Longrightarrow> P (snd (on_callback cb p))"
  shows "P (snd (snd (snd (run_callbacks cbs fin p))))"
  using assms(1)
proof (induction cbs fin p rule: run_callbacks.induct)
  case (2 cb pos l rest fin p)
  obtain r p' where c: "on_callback cb p = (r, p')" by fastforce
  with 2 assms(2) [of p cb] show ?case by (cases r) auto
qed simp

lemma execute_induct:
  assumes "P (impl s)" "\<And>cb p. P p \<Longrightarrow> P (snd (on_callback cb p))"
  shows "P (impl (snd (snd (llhttp_execute lib data s))))"
proof (cases "ll_errno s = HPE_OK")
  case True
  obtain cbs fin where c: "ll_run lib (ll s) data = (cbs, fin)" by (metis surj_pair)
  with True run_callbacks_induct [of P "impl s" cbs fin, OF assms] show ?thesis
    by (auto simp: llhttp_execute_def split: prod.splits)
qed (simp add: llhttp_execute_def assms(1))

lemma resume_impl [simp]: "impl (llhttp_resume s) = impl s" "impl (llhttp_resume_after_upgrade s) = impl s"
  by (simp_all add: llhttp_resume_def llhttp_resume_after_upgrade_def)

lemma feed_execute_induct:
  assumes "P (impl s)" "\<And>cb p. P p \<Longrightarrow> P (snd (on_callback cb p))"
  shows "P (impl (snd (snd (feed_execute lib data s))))"
proof -
  obtain err pos s' where e: "llhttp_execute lib data (llhttp_resume s) = (err, pos, s')" by (metis prod_cases3)
  have "P (impl s')" using execute_induct [of P "llhttp_resume s" lib data] assms e by simp
  moreover from this have "P (impl (snd (snd (llhttp_execute lib data (llhttp_resume_after_upgrade s')))))"
    using execute_induct [of P "llhttp_resume_after_upgrade s'" lib data] assms(2) by simp
  ultimately show ?thesis by (simp add: feed_execute_def e)
qed

lemma count_header_bytes_status: "status_ok (impl s) \<Longrightarrow> status_ok (impl (count_header_bytes b err used s))"
  by (simp add: count_header_bytes_def parser_fail_def fail_def status_ok_def Let_def)

lemma fail_from_llhttp_status: "status_ok (impl s) \<Longrightarrow> status_ok (impl (fail_from_llhttp lib err s))"
  by (simp add: fail_from_llhttp_def parser_fail_def fail_def status_ok_def)

lemma feed_status:
  assumes "status_ok (impl s)"
  shows "status_ok (impl (snd (snd (feed lib data s))))"
proof -
  obtain err pos s1 where c: "feed_execute lib data s = (err, pos, s1)" by (metis prod_cases3)
  have "status_ok (impl s1)" using feed_execute_induct [of status_ok s lib data, OF assms on_callback_status] c by simp
  then show ?thesis using assms
    by (simp add: feed_def c Let_def count_header_bytes_status fail_from_llhttp_status)
qed

lemma feed_error_failed: "fst (feed lib data s) = Error \<Longrightarrow> failed (impl (snd (snd (feed lib data s))))"
  by (auto simp: feed_def fail_from_llhttp_def parser_fail_def fail_def Let_def split: prod.splits if_splits)


text \<open>A connection's calls; \<^verbatim>\<open>next\<close> is called after a whole message only (it does nothing after an error).\<close>

datatype parser_op = Feed string | Next | TakeBody | LimitBody "HttpRequest \<Rightarrow> nat"

fun parser_step :: "'l llhttp \<Rightarrow> parser_op \<Rightarrow> 'l Http1Parser \<Rightarrow> 'l Http1Parser" where
  "parser_step lib (Feed data) s = snd (snd (feed lib data s))"
| "parser_step lib Next s = (if message_done (impl s) then next_message s else s)"
| "parser_step lib TakeBody s = set_body_handler s"
| "parser_step lib (LimitBody f) s = set_body_limit f s"

definition parse_all :: "'l llhttp \<Rightarrow> parser_op list \<Rightarrow> 'l Http1Parser \<Rightarrow> 'l Http1Parser" where
  "parse_all lib ops s = fold (parser_step lib) ops s"

lemma parser_step_status: "status_ok (impl s) \<Longrightarrow> status_ok (impl (parser_step lib op s))"
  by (cases op) (auto simp: feed_status set_body_handler_def set_body_limit_def next_message_def reset_message_def Let_def,
      auto simp: status_ok_def)

lemma parse_all_status: "status_ok (impl s) \<Longrightarrow> status_ok (impl (parse_all lib ops s))"
  unfolding parse_all_def by (induction ops arbitrary: s) (simp_all add: parser_step_status)

definition same_error :: "Impl \<Rightarrow> Impl \<Rightarrow> bool" where
  "same_error p q \<longleftrightarrow> failed q \<and> error_status q = error_status p \<and> error_reason q = error_reason p"

lemma parse_all_sticky: "failed (impl s) \<Longrightarrow> same_error (impl s) (impl (parse_all lib ops s))"
  unfolding parse_all_def
proof (induction ops arbitrary: s)
  case (Cons op ops)
  have "same_error (impl s) (impl (parser_step lib op s))"
    using Cons.prems
    by (cases op) (simp_all add: same_error_def feed_def next_message_def set_body_handler_def set_body_limit_def)
  then show ?case using Cons.IH [of "parser_step lib op s"] by (simp add: same_error_def)
qed (simp add: same_error_def)


section \<open>Limits\<close>

text \<open>
  The order in which llhttp makes its callbacks: request line, header fields, body, and, after a chunked body only, trailer
  fields.
\<close>

datatype phase = AtMethod | AtUrl | AtField | AtValue | AtNext | AtBody | AtChunked | TrailerField | TrailerValue | TrailerNext

definition advance :: "phase \<Rightarrow> callback \<Rightarrow> phase option" where
  "advance a cb =
     (case cb of
        OnMethod s \<Rightarrow> if a = AtMethod then Some AtMethod else None
      | OnUrl s \<Rightarrow> if a = AtMethod \<or> a = AtUrl then Some AtUrl else None
      | OnHeaderField s \<Rightarrow>
          if a = AtUrl \<or> a = AtNext \<or> a = AtField then Some AtField
          else if a = AtChunked \<or> a = TrailerNext \<or> a = TrailerField then Some TrailerField else None
      | OnHeaderFieldComplete \<Rightarrow> if a = AtField then Some AtValue else if a = TrailerField then Some TrailerValue else None
      | OnHeaderValue s \<Rightarrow> if a = AtValue \<or> a = TrailerValue then Some a else None
      | OnHeaderValueComplete \<Rightarrow> if a = AtValue then Some AtNext else if a = TrailerValue then Some TrailerNext else None
      | OnHeadersComplete i \<Rightarrow> if a = AtUrl \<or> a = AtNext then Some (if f_chunked i then AtChunked else AtBody) else None
      | OnBody s \<Rightarrow> if a = AtBody \<or> a = AtChunked then Some a else None
      | OnMessageComplete up \<Rightarrow> if a = AtBody \<or> a = AtChunked \<or> a = TrailerNext then Some AtMethod else None)"

fun follows :: "('l \<Rightarrow> phase) \<Rightarrow> phase \<Rightarrow> (callback \<times> nat \<times> 'l) list \<Rightarrow> phase \<Rightarrow> bool" where
  "follows ph a [] b \<longleftrightarrow> a = b"
| "follows ph a ((cb, pos, l) # rest) b \<longleftrightarrow> advance a cb = Some (ph l) \<and> follows ph (ph l) rest b"

definition ll_in_order :: "'l llhttp \<Rightarrow> ('l \<Rightarrow> phase) \<Rightarrow> bool" where
  "ll_in_order lib ph \<longleftrightarrow>
     (\<forall>l data. case ll_run lib l data of (cbs, err, pos, l') \<Rightarrow> follows ph (ph l) cbs (ph l'))"

definition after_headers :: "phase \<Rightarrow> bool" where
  "after_headers a \<longleftrightarrow> a \<in> {AtBody, AtChunked, TrailerField, TrailerValue, TrailerNext}"

definition line_ok :: "Impl \<Rightarrow> bool" where
  "line_ok p \<longleftrightarrow> length (p_method p) + 1 + length (p_url p) \<le> max_request_line (limits p)"

definition fields_ok :: "phase \<Rightarrow> Impl \<Rightarrow> bool" where
  "fields_ok a p \<longleftrightarrow>
     (if a \<in> {AtValue, TrailerValue} then length (p_headers p) < max_headers (limits p)
      else length (p_headers p) \<le> max_headers (limits p))"

definition body_ok :: "Impl \<Rightarrow> bool" where
  "body_ok p \<longleftrightarrow>
     (if headers_done p then body_bytes p \<le> body_limit p else body_bytes p = 0) \<and>
     length (message_body p) + length (handler_got p) = body_bytes p"

definition parser_ok :: "phase \<Rightarrow> Impl \<Rightarrow> bool" where
  "parser_ok a p \<longleftrightarrow>
     failed p \<or>
     body_ok p \<and> fields_ok a p \<and> header_bytes p \<le> max_header_bytes (limits p) \<and>
     (if message_done p then a = AtMethod \<and> line_ok p \<and> headers_done p
      else (headers_done p \<longleftrightarrow> after_headers a) \<and> (if a = AtMethod then p_url p = [] else line_ok p))"

lemma headers_complete_ok:
  assumes "advance a (OnHeadersComplete i) = Some b" "parser_ok a p" "\<not> message_done p" "\<not> failed p"
  shows "parser_ok b (snd (on_headers_complete i p))"
proof -
  have a: "a = AtUrl \<or> a = AtNext" "b = AtBody \<or> b = AtChunked" using assms(1) by (auto simp: advance_def split: if_splits)
  show ?thesis using assms(2-4) a
    by (cases rule: on_headers_complete_cases [of i p])
       (auto simp: parser_ok_def fail_def Let_def body_ok_def fields_ok_def line_ok_def after_headers_def)
qed

lemma on_callback_ok:
  assumes "advance a cb = Some b" "parser_ok a p" "\<not> message_done p" "\<not> failed p"
  shows "parser_ok b (snd (on_callback cb p))"
proof (cases cb)
  case (OnHeadersComplete i) with assms headers_complete_ok show ?thesis by simp
next
  case (OnBody s)
  then have "a = AtBody \<or> a = AtChunked" "b = a" using assms(1) by (auto simp: advance_def split: if_splits)
  with OnBody assms show ?thesis by (auto simp: parser_ok_def on_body_def fail_def Let_def body_ok_def fields_ok_def line_ok_def after_headers_def)
next
  case (OnUrl s)
  then have "a \<in> {AtMethod, AtUrl}" "b = AtUrl" using assms(1) by (auto simp: advance_def split: if_splits)
  with OnUrl assms show ?thesis
    by (auto simp: parser_ok_def on_url_def fail_def Let_def body_ok_def fields_ok_def line_ok_def after_headers_def)
next
  case (OnMethod s)
  then have "a = AtMethod" "b = AtMethod" using assms(1) by (auto simp: advance_def split: if_splits)
  with OnMethod assms show ?thesis by (auto simp: parser_ok_def on_method_def body_ok_def fields_ok_def line_ok_def)
next
  case (OnMessageComplete up)
  then have "a \<in> {AtBody, AtChunked, TrailerNext}" "b = AtMethod" using assms(1) by (auto simp: advance_def split: if_splits)
  with OnMessageComplete assms show ?thesis
    by (auto simp: parser_ok_def on_message_complete_def body_ok_def fields_ok_def line_ok_def after_headers_def)
qed (use assms in \<open>auto simp: advance_def parser_ok_def callback_defs fail_def body_ok_def fields_ok_def line_ok_def
      after_headers_def split: if_splits\<close>)

lemma on_callback_proceeds:
  "fst (on_callback cb p) = Proceed \<Longrightarrow> message_done (snd (on_callback cb p)) = message_done p \<and> failed (snd (on_callback cb p)) = failed p"
proof (cases cb)
  case (OnHeadersComplete i)
  assume "fst (on_callback cb p) = Proceed"
  then show ?thesis unfolding OnHeadersComplete on_callback.simps
    by (cases rule: on_headers_complete_cases [of i p]) (simp_all add: fail_def Let_def split: if_splits)
qed (auto simp: callback_defs fail_def Let_def split: if_splits)

lemma on_callback_pauses: "fst (on_callback cb p) = Pause \<Longrightarrow> failed (snd (on_callback cb p)) = failed p"
proof (cases cb)
  case (OnHeadersComplete i)
  assume "fst (on_callback cb p) = Pause"
  then show ?thesis unfolding OnHeadersComplete on_callback.simps
    by (cases rule: on_headers_complete_cases [of i p]) (simp_all add: fail_def Let_def split: if_splits)
qed (auto simp: callback_defs fail_def Let_def split: if_splits)

lemma run_callbacks_ok:
  "follows ph a cbs (ph (snd (snd fin))) \<Longrightarrow> parser_ok a p \<Longrightarrow> \<not> message_done p \<Longrightarrow> \<not> failed p \<Longrightarrow>
     run_callbacks cbs fin p = (err, pos, l, p') \<Longrightarrow> parser_ok (ph l) p' \<and> (err = HPE_PAUSED_UPGRADE \<longrightarrow> \<not> failed p')"
proof (induction cbs fin p arbitrary: a rule: run_callbacks.induct)
  case (2 cb pos0 l0 rest fin p)
  obtain r p1 where c: "on_callback cb p = (r, p1)" by fastforce
  have "parser_ok (ph l0) p1" using on_callback_ok [of a cb "ph l0" p] 2 c by simp
  then show ?case using 2 c on_callback_proceeds [of cb p] by (cases r) auto
qed auto


lemma execute_ok:
  assumes "ll_in_order lib ph" "parser_ok (ph (ll s)) (impl s)" "\<not> message_done (impl s)" "\<not> failed (impl s)"
    "llhttp_execute lib data s = (err, pos, s')"
  shows "parser_ok (ph (ll s')) (impl s') \<and> (err = HPE_PAUSED_UPGRADE \<longrightarrow> \<not> failed (impl s'))"
proof (cases "ll_errno s = HPE_OK")
  case True
  obtain cbs e q l' where c: "ll_run lib (ll s) data = (cbs, e, q, l')" by (metis prod_cases4)
  obtain err' pos' l1 p1 where r: "run_callbacks cbs (e, q, l') (impl s) = (err', pos', l1, p1)" by (metis prod_cases4)
  have "follows ph (ph (ll s)) cbs (ph (snd (snd (e, q, l'))))"
    using assms(1) c unfolding ll_in_order_def by (metis (mono_tags, lifting) case_prod_conv snd_conv)
  from run_callbacks_ok [OF this assms(2-4) r] True c r assms(5) show ?thesis
    by (auto simp: llhttp_execute_def)
qed (use assms in \<open>auto simp: llhttp_execute_def\<close>)

lemma resume_ll [simp]: "ll (llhttp_resume s) = ll s" "ll (llhttp_resume_after_upgrade s) = ll s"
  by (simp_all add: llhttp_resume_def llhttp_resume_after_upgrade_def)

lemma feed_execute_ok:
  assumes "ll_in_order lib ph" "parser_ok (ph (ll s)) (impl s)" "\<not> message_done (impl s)" "\<not> failed (impl s)"
    "feed_execute lib data s = (err, pos, s')"
  shows "parser_ok (ph (ll s')) (impl s')"
proof -
  obtain e1 q1 s1 where c: "llhttp_execute lib data (llhttp_resume s) = (e1, q1, s1)" by (metis prod_cases3)
  then have s1: "parser_ok (ph (ll s1)) (impl s1) \<and> (e1 = HPE_PAUSED_UPGRADE \<longrightarrow> \<not> failed (impl s1))"
    by (intro execute_ok [OF assms(1)]) (use assms(2-4) in auto)
  show ?thesis
  proof (cases "e1 = HPE_PAUSED_UPGRADE \<and> \<not> message_done (impl s1)")
    case True
    then have "llhttp_execute lib data (llhttp_resume_after_upgrade s1) = (err, pos, s')"
      using assms(5) c by (simp add: feed_execute_def)
    from execute_ok [OF assms(1) _ _ _ this] s1 True show ?thesis by simp
  next
    case False then show ?thesis using assms(5) c s1 by (auto simp: feed_execute_def)
  qed
qed

lemma count_header_bytes_ok: "parser_ok a (impl s) \<Longrightarrow> parser_ok a (impl (count_header_bytes b err used s))"
proof -
  have over: "parser_ok a (impl (parser_fail st e s'))" for st e and s' :: "'a Http1Parser"
    by (simp add: parser_fail_def fail_def parser_ok_def)
  have within: "parser_ok a (p\<lparr>header_bytes := n\<rparr>)" if "parser_ok a p" "n \<le> max_header_bytes (limits p)" for p n
  proof -
    have "body_ok (p\<lparr>header_bytes := n\<rparr>) = body_ok p" "fields_ok a (p\<lparr>header_bytes := n\<rparr>) = fields_ok a p"
      "line_ok (p\<lparr>header_bytes := n\<rparr>) = line_ok p"
      by (simp_all add: body_ok_def fields_ok_def line_ok_def)
    with that show ?thesis unfolding parser_ok_def by (cases "failed p"; cases "message_done p"; cases "a = AtMethod") simp_all
  qed
  assume "parser_ok a (impl s)"
  then show ?thesis by (simp add: count_header_bytes_def Let_def over within)
qed

lemma count_header_bytes_ll [simp]: "ll (count_header_bytes b err used s) = ll s"
  by (simp add: count_header_bytes_def Let_def parser_fail_def)

lemma feed_ok:
  assumes "ll_in_order lib ph" "parser_ok (ph (ll s)) (impl s)"
  shows "parser_ok (ph (ll (snd (snd (feed lib data s))))) (impl (snd (snd (feed lib data s))))"
proof (cases "failed (impl s) \<or> message_done (impl s)")
  case True then show ?thesis using assms(2) by (auto simp: feed_def)
next
  case False
  obtain err pos s1 where c: "feed_execute lib data s = (err, pos, s1)" by (metis prod_cases3)
  from feed_execute_ok [OF assms _ _ c] False have "parser_ok (ph (ll s1)) (impl s1)" by simp
  note o = count_header_bytes_ok [OF this]
  have fl: "parser_ok a (impl (fail_from_llhttp lib err s2))" for a s2
    by (simp add: fail_from_llhttp_def parser_fail_def fail_def parser_ok_def)
  show ?thesis using False c o fl by (auto simp: feed_def Let_def)
qed

lemma next_message_ok: "parser_ok (ph (ll s)) (impl s) \<Longrightarrow> message_done (impl s) \<Longrightarrow> parser_ok (ph (ll (next_message s))) (impl (next_message s))"
  by (auto simp: next_message_def Let_def parser_ok_def reset_message_def body_ok_def fields_ok_def after_headers_def)

lemma parser_step_ok:
  assumes "ll_in_order lib ph" "parser_ok (ph (ll s)) (impl s)"
  shows "parser_ok (ph (ll (parser_step lib op s))) (impl (parser_step lib op s))"
proof (cases op)
  case (Feed data) then show ?thesis using feed_ok [OF assms] by simp
next
  case Next then show ?thesis using next_message_ok [of ph s] assms(2) by simp
qed (use assms(2) in \<open>auto simp: set_body_handler_def set_body_limit_def parser_ok_def body_ok_def fields_ok_def line_ok_def\<close>)

lemma parse_all_ok:
  assumes "ll_in_order lib ph" "parser_ok (ph (ll s)) (impl s)"
  shows "parser_ok (ph (ll (parse_all lib ops s))) (impl (parse_all lib ops s))"
  using assms(2) unfolding parse_all_def by (induction ops arbitrary: s) (simp_all add: parser_step_ok [OF assms(1)])

text \<open>
  The bytes of the head: method, target, names and values as far as they have arrived. What a callback is given lies in the input,
  before the position of the callback and behind what earlier ones were given; and llhttp stops for an upgrade that the caller declined
  before it takes any input.
\<close>

definition head_text :: "Impl \<Rightarrow> nat" where
  "head_text p = length (p_method p) + length (p_url p) + sum_list (map (\<lambda>(n, v). length n + length v) (p_headers p)) +
     length (p_field p) + length (p_value p)"

fun cb_text :: "callback \<Rightarrow> nat" where
  "cb_text (OnMethod s) = length s"
| "cb_text (OnUrl s) = length s"
| "cb_text (OnHeaderField s) = length s"
| "cb_text (OnHeaderValue s) = length s"
| "cb_text (OnBody s) = length s"
| "cb_text _ = 0"

fun spans :: "nat \<Rightarrow> (callback \<times> nat \<times> 'l) list \<Rightarrow> nat \<Rightarrow> bool" where
  "spans k [] e \<longleftrightarrow> k \<le> e"
| "spans k ((cb, pos, l) # rest) e \<longleftrightarrow> k + cb_text cb \<le> pos \<and> spans (k + cb_text cb) rest e"

definition ll_spans :: "'l llhttp \<Rightarrow> bool" where
  "ll_spans lib \<longleftrightarrow>
     (\<forall>l data. case ll_run lib l data of (cbs, err, pos, l') \<Rightarrow>
        spans 0 cbs pos \<and> pos \<le> length data \<and> (err = HPE_PAUSED_UPGRADE \<longrightarrow> cbs = [] \<or> (\<exists>up. OnMessageComplete up \<in> fst ` set cbs)))"

text \<open>Only a trailer section can make the text longer than what was counted.\<close>

definition text_ok :: "nat \<Rightarrow> phase \<Rightarrow> Impl \<Rightarrow> bool" where
  "text_ok n a p \<longleftrightarrow>
     failed p \<or>
     ((headers_done p \<and> is_chunked p \<longrightarrow> a = AtChunked) \<longrightarrow> head_text p \<le> n) \<and>
     (message_done p \<or> (a = AtBody \<longrightarrow> \<not> is_chunked p) \<and> (a \<in> {AtChunked, TrailerField, TrailerValue, TrailerNext} \<longrightarrow> is_chunked p))"

lemma text_ok_mono: "text_ok n a p \<Longrightarrow> n \<le> m \<Longrightarrow> text_ok m a p"
  by (auto simp: text_ok_def)

lemma on_callback_text:
  assumes "advance a cb = Some b" "parser_ok a p" "\<not> message_done p" "\<not> failed p" "text_ok n a p"
  shows "text_ok (if headers_done p then n else n + cb_text cb) b (snd (on_callback cb p))"
proof -
  have h: "headers_done p \<longleftrightarrow> after_headers a" using assms(2-4) by (simp add: parser_ok_def)
  show ?thesis
  proof (cases cb)
    case (OnHeadersComplete i)
    with assms have "a = AtUrl \<or> a = AtNext" "b = (if f_chunked i then AtChunked else AtBody)" by (auto simp: advance_def split: if_splits)
    with OnHeadersComplete h assms(4,5) show ?thesis
      by (cases rule: on_headers_complete_cases [of i p]) (auto simp: text_ok_def fail_def Let_def head_text_def after_headers_def)
  next
    case OnHeaderValueComplete
    have "length (rtrim (p_value p)) \<le> length (p_value p)" by (rule length_rtrim)
    with OnHeaderValueComplete assms h show ?thesis
      by (auto simp: advance_def callback_defs text_ok_def head_text_def after_headers_def split: if_splits)
  qed (use assms h in \<open>auto simp: advance_def callback_defs fail_def Let_def text_ok_def head_text_def after_headers_def split: if_splits\<close>)
qed

lemma on_callback_headers_done: "headers_done p \<Longrightarrow> headers_done (snd (on_callback cb p))"
proof (cases cb)
  case (OnHeadersComplete i)
  assume "headers_done p"
  then show ?thesis unfolding OnHeadersComplete on_callback.simps
    by (cases rule: on_headers_complete_cases [of i p]) (simp_all add: fail_def Let_def)
qed (auto simp: callback_defs fail_def Let_def)

lemma run_callbacks_text:
  "follows ph a cbs (ph (snd (snd fin))) \<Longrightarrow> parser_ok a p \<Longrightarrow> \<not> message_done p \<Longrightarrow> \<not> failed p \<Longrightarrow> spans k cbs (fst (snd fin)) \<Longrightarrow>
     text_ok (if counting then n + k else n) a p \<Longrightarrow> (\<not> counting \<longrightarrow> headers_done p) \<Longrightarrow>
     run_callbacks cbs fin p = (err, pos, l, p') \<Longrightarrow> text_ok (if counting then n + pos else n) (ph l) p'"
proof (induction cbs fin p arbitrary: a k rule: run_callbacks.induct)
  case (1 err0 pos0 l0 p)
  then show ?case by (auto intro: text_ok_mono split: if_splits)
next
  case (2 cb pos0 l0 rest fin p)
  obtain r p1 where c: "on_callback cb p = (r, p1)" by fastforce
  let ?k = "k + cb_text cb"
  have o: "parser_ok (ph l0) p1" using on_callback_ok [of a cb "ph l0" p] 2 c by simp
  have "text_ok (if headers_done p then (if counting then n + k else n) else (if counting then n + k else n) + cb_text cb) (ph l0) p1"
    using on_callback_text [of a cb "ph l0" p "if counting then n + k else n"] 2 c by simp
  then have t: "text_ok (if counting then n + ?k else n) (ph l0) p1" using 2(8) by (auto intro: text_ok_mono split: if_splits)
  have d: "\<not> counting \<longrightarrow> headers_done p1" using on_callback_headers_done [of p cb] 2(8) c by auto
  show ?case
  proof (cases r)
    case Proceed
    with 2 c on_callback_proceeds [of cb p] have "\<not> message_done p1" "\<not> failed p1" "follows ph (ph l0) rest (ph (snd (snd fin)))"
      "spans ?k rest (fst (snd fin))" "run_callbacks rest fin p1 = (err, pos, l, p')" by simp_all
    with "2.IH" [of Proceed p1 "ph l0" ?k] Proceed c o t d show ?thesis by simp
  next
    case Refuse
    with 2 c on_callback_refuses [of cb p] show ?thesis by (auto simp: text_ok_def)
  next
    case Pause
    with 2 c have "pos = pos0" "l = l0" "p' = p1" "?k \<le> pos0" by auto
    with t show ?thesis by (auto intro: text_ok_mono split: if_splits)
  qed
qed

lemma run_callbacks_end:
  "run_callbacks cbs (e, q, l0) p = (err, pos, l, p') \<Longrightarrow> err \<in> {HPE_OK, HPE_PAUSED_UPGRADE} \<Longrightarrow>
     e = err \<and> pos = q \<and> (\<forall>up. OnMessageComplete up \<notin> fst ` set cbs)"
proof (induction cbs "(e, q, l0)" p rule: run_callbacks.induct)
  case (2 cb pos0 l1 rest p)
  obtain r p1 where c: "on_callback cb p = (r, p1)" by fastforce
  with 2 show ?case by (cases r) (auto simp: on_message_complete_def)
qed auto

lemma execute_text:
  assumes "ll_in_order lib ph" "ll_spans lib" "parser_ok (ph (ll s)) (impl s)" "\<not> message_done (impl s)" "\<not> failed (impl s)"
    "text_ok n (ph (ll s)) (impl s)" "llhttp_execute lib data s = (err, pos, s')"
  shows "text_ok (if headers_done (impl s) then n else n + pos) (ph (ll s')) (impl s')" (is ?text)
    "err = HPE_OK \<Longrightarrow> pos \<le> length data"
    "err = HPE_PAUSED_UPGRADE \<Longrightarrow> impl s' = impl s \<and> ph (ll s') = ph (ll s)"
proof -
  have "?text \<and> (err = HPE_OK \<longrightarrow> pos \<le> length data) \<and> (err = HPE_PAUSED_UPGRADE \<longrightarrow> impl s' = impl s \<and> ph (ll s') = ph (ll s))"
  proof (cases "ll_errno s = HPE_OK")
    case True
    obtain cbs e q l' where c: "ll_run lib (ll s) data = (cbs, e, q, l')" by (metis prod_cases4)
    obtain err' pos' l1 p1 where r: "run_callbacks cbs (e, q, l') (impl s) = (err', pos', l1, p1)" by (metis prod_cases4)
    have s': "err' = err" "pos' = pos" "ll s' = l1" "impl s' = p1" using True c r assms(7) by (auto simp: llhttp_execute_def)
    have f: "follows ph (ph (ll s)) cbs (ph (snd (snd (e, q, l'))))"
      using assms(1) c unfolding ll_in_order_def by (metis (mono_tags, lifting) case_prod_conv snd_conv)
    have sp: "spans 0 cbs q" "q \<le> length data" "e = HPE_PAUSED_UPGRADE \<longrightarrow> cbs = [] \<or> (\<exists>up. OnMessageComplete up \<in> fst ` set cbs)"
      using spec [OF spec [OF assms(2) [unfolded ll_spans_def], of "ll s"], of data] unfolding c by simp_all
    have "?text"
      using run_callbacks_text [OF f assms(3-5), of 0 "\<not> headers_done (impl s)" n err' pos' l1 p1] sp(1) r assms(6) s'
      by (cases "headers_done (impl s)") simp_all
    moreover have "err = HPE_OK \<longrightarrow> pos \<le> length data" using run_callbacks_end [OF r] sp(2) s' by auto
    moreover have "err = HPE_PAUSED_UPGRADE \<longrightarrow> impl s' = impl s \<and> ph (ll s') = ph (ll s)"
      using run_callbacks_end [OF r] sp(3) r f s' by auto
    ultimately show ?thesis by blast
  next
    case False
    with assms(6,7) show ?thesis by (auto simp: llhttp_execute_def intro: text_ok_mono)
  qed
  then show ?text "err = HPE_OK \<Longrightarrow> pos \<le> length data"
    "err = HPE_PAUSED_UPGRADE \<Longrightarrow> impl s' = impl s \<and> ph (ll s') = ph (ll s)" by blast+
qed

lemma feed_execute_text:
  assumes "ll_in_order lib ph" "ll_spans lib" "parser_ok (ph (ll s)) (impl s)" "\<not> message_done (impl s)" "\<not> failed (impl s)"
    "text_ok n (ph (ll s)) (impl s)" "feed_execute lib data s = (err, pos, s')"
  shows "text_ok (if headers_done (impl s) then n else n + pos) (ph (ll s')) (impl s') \<and> (err = HPE_OK \<longrightarrow> pos \<le> length data)"
proof -
  obtain e1 q1 s1 where c: "llhttp_execute lib data (llhttp_resume s) = (e1, q1, s1)" by (metis prod_cases3)
  note x = execute_text [OF assms(1,2) _ _ _ _ c, of n]
  show ?thesis
  proof (cases "e1 = HPE_PAUSED_UPGRADE \<and> \<not> message_done (impl s1)")
    case True
    then have r: "llhttp_execute lib data (llhttp_resume_after_upgrade s1) = (err, pos, s')"
      using assms(7) c by (simp add: feed_execute_def)
    have same: "impl s1 = impl s" "ph (ll s1) = ph (ll s)" using x(3) assms(3-6) True by simp_all
    show ?thesis using execute_text(1,2) [OF assms(1,2) _ _ _ _ r, of n] assms(3-6) same by simp
  next
    case False
    then have "(err, pos, s') = (e1, q1, s1)" using assms(7) c by (auto simp: feed_execute_def)
    then show ?thesis using x(1,2) assms(3-6) by (simp split: if_splits)
  qed
qed

definition counted_ok :: "phase \<Rightarrow> Impl \<Rightarrow> bool" where
  "counted_ok a p \<longleftrightarrow> text_ok (header_bytes p) a p"

lemma text_ok_header_bytes [simp]: "text_ok n a (p\<lparr>header_bytes := m\<rparr>) = text_ok n a p"
  by (simp add: text_ok_def head_text_def)

lemma text_ok_failed: "failed p \<Longrightarrow> text_ok n a p"
  by (simp add: text_ok_def)

lemma on_callback_header_bytes: "header_bytes (snd (on_callback cb p)) = header_bytes p"
proof (cases cb)
  case (OnHeadersComplete i)
  then show ?thesis by (cases rule: on_headers_complete_cases [of i p]) (simp_all add: fail_def Let_def)
qed (auto simp: callback_defs fail_def Let_def)

lemma count_header_bytes_result:
  assumes "\<not> failed (impl (count_header_bytes b err u s))" "err \<in> {HPE_OK, HPE_PAUSED, HPE_PAUSED_UPGRADE}"
  shows "impl (count_header_bytes b err u s) = (impl s)\<lparr>header_bytes := header_bytes (impl s) + (if b then u else 0)\<rparr>"
proof (cases "b \<and> \<not> failed (impl s)")
  case True
  then have c: "count_header_bytes b err u s = (let s' = s\<lparr>impl := (impl s)\<lparr>header_bytes := header_bytes (impl s) + u\<rparr>\<rparr>
      in if header_bytes (impl s) + u > max_header_bytes (limits (impl s)) then parser_fail 431 ''Header section too large'' s' else s')"
    using assms(2) unfolding count_header_bytes_def Let_def by (simp only: if_True simp_thms)
  have "failed (impl (parser_fail st r s'))" for st r and s' :: "'a Http1Parser" by (simp add: parser_fail_def fail_def)
  with assms(1) show ?thesis using True unfolding c Let_def by (cases "header_bytes (impl s) + u > max_header_bytes (limits (impl s))") simp_all
next
  case False
  then have "count_header_bytes b err u s = s" by (simp only: count_header_bytes_def if_False)
  with assms(1) False show ?thesis by auto
qed

lemma feed_counted:
  assumes "ll_in_order lib ph" "ll_spans lib" "parser_ok (ph (ll s)) (impl s)" "counted_ok (ph (ll s)) (impl s)"
  shows "counted_ok (ph (ll (snd (snd (feed lib data s))))) (impl (snd (snd (feed lib data s))))"
proof (cases "failed (impl s) \<or> message_done (impl s)")
  case True then show ?thesis using assms(4) by (auto simp: feed_def)
next
  case False
  obtain err pos s1 where c: "feed_execute lib data s = (err, pos, s1)" by (metis prod_cases3)
  have hb: "header_bytes (impl s1) = header_bytes (impl s)"
    using feed_execute_induct [of "\<lambda>p. header_bytes p = header_bytes (impl s)" s lib data] c by (simp add: on_callback_header_bytes)
  let ?used = "if err = HPE_PAUSED \<or> err = HPE_PAUSED_UPGRADE then pos else length data"
  let ?s2 = "count_header_bytes (\<not> headers_done (impl s)) err ?used s1"
  have t: "text_ok (if headers_done (impl s) then header_bytes (impl s) else header_bytes (impl s) + pos) (ph (ll s1)) (impl s1)"
    "err = HPE_OK \<longrightarrow> pos \<le> length data"
    using feed_execute_text [OF assms(1-3) _ _ assms(4) [unfolded counted_ok_def] c] False by auto
  have fl: "counted_ok a (impl (fail_from_llhttp lib err s'))" for a s'
    by (simp add: counted_ok_def text_ok_def fail_from_llhttp_def parser_fail_def fail_def)
  have "counted_ok (ph (ll ?s2)) (impl ?s2)" if "err \<in> {HPE_OK, HPE_PAUSED, HPE_PAUSED_UPGRADE} \<or> failed (impl ?s2)"
  proof (cases "failed (impl ?s2)")
    case True then show ?thesis by (simp add: counted_ok_def text_ok_failed)
  next
    case nf: False
    let ?n = "header_bytes (impl s1) + (if headers_done (impl s) then 0 else ?used)"
    have "impl ?s2 = (impl s1)\<lparr>header_bytes := header_bytes (impl s1) + (if \<not> headers_done (impl s) then ?used else 0)\<rparr>"
      using that nf by (intro count_header_bytes_result) auto
    then have "impl ?s2 = (impl s1)\<lparr>header_bytes := ?n\<rparr>" by (cases "headers_done (impl s)") simp_all
    moreover have "text_ok ?n (ph (ll s1)) (impl s1)"
      using t that nf hb by (cases "headers_done (impl s)") (auto elim: text_ok_mono)
    ultimately show ?thesis by (simp add: counted_ok_def)
  qed
  then show ?thesis using False c fl by (auto simp: feed_def Let_def)
qed

lemma parser_step_counted:
  assumes "ll_in_order lib ph" "ll_spans lib" "parser_ok (ph (ll s)) (impl s)" "counted_ok (ph (ll s)) (impl s)"
  shows "counted_ok (ph (ll (parser_step lib op s))) (impl (parser_step lib op s))"
proof (cases op)
  case (Feed data) then show ?thesis using feed_counted [OF assms] by simp
next
  case Next
  then show ?thesis using assms(3,4)
    by (auto simp: counted_ok_def next_message_def Let_def reset_message_def text_ok_def head_text_def parser_ok_def)
qed (use assms(4) in \<open>auto simp: set_body_handler_def set_body_limit_def counted_ok_def text_ok_def head_text_def\<close>)

lemma parse_all_counted:
  assumes "ll_in_order lib ph" "ll_spans lib" "parser_ok (ph (ll s)) (impl s)" "counted_ok (ph (ll s)) (impl s)"
  shows "counted_ok (ph (ll (parse_all lib ops s))) (impl (parse_all lib ops s))"
  using assms(3,4) unfolding parse_all_def
  by (induction ops arbitrary: s) (simp_all add: parser_step_ok [OF assms(1)] parser_step_counted [OF assms(1,2)])

lemma on_callback_limits: "limits (snd (on_callback cb p)) = limits p"
proof (cases cb)
  case (OnHeadersComplete i)
  then show ?thesis by (cases rule: on_headers_complete_cases [of i p]) (simp_all add: fail_def Let_def)
qed (auto simp: callback_defs fail_def Let_def)

lemma feed_limits: "limits (impl (snd (snd (feed lib data s)))) = limits (impl s)"
  using feed_execute_induct [of "\<lambda>p. limits p = limits (impl s)" s lib data] on_callback_limits
  by (auto simp: feed_def count_header_bytes_def parser_fail_def fail_from_llhttp_def fail_def Let_def split: prod.splits)

lemma parse_all_limits: "limits (impl (parse_all lib ops s)) = limits (impl s)"
  unfolding parse_all_def
proof (induction ops arbitrary: s)
  case (Cons op ops)
  have "limits (impl (parser_step lib op s)) = limits (impl s)"
    by (cases op) (simp_all add: feed_limits set_body_handler_def set_body_limit_def next_message_def reset_message_def Let_def)
  with Cons show ?case by simp
qed simp


section \<open>The request that was sent\<close>

text \<open>Callbacks one after another, resuming after a pause: what any number of calls of \<^verbatim>\<open>feed\<close> make of them.\<close>

fun deliver :: "callback list \<Rightarrow> Impl \<Rightarrow> Impl + Impl" where
  "deliver [] p = Inr p"
| "deliver (cb # cbs) p =
     (case on_callback cb p of (r, p') \<Rightarrow> if r = Refuse then Inl p' else deliver cbs p')"

definition outcome :: "Impl + Impl \<Rightarrow> (nat \<times> string) + HttpRequest" where
  "outcome r = (case r of Inl p \<Rightarrow> Inl (error_status p, error_reason p) | Inr p \<Rightarrow> Inr (request p))"

lemma run_callbacks_deliver:
  "run_callbacks cbs fin p = (err, pos, l, p') \<Longrightarrow>
     \<exists>now later. map fst cbs = now @ later \<and> (\<forall>more. deliver (now @ more) p = (if failed p' \<and> \<not> failed p then Inl p' else deliver more p')) \<or>
       failed p"
proof (induction cbs fin p rule: run_callbacks.induct)
  case (1 err0 pos0 l0 p) then show ?case by auto
next
  case (2 cb pos0 l0 rest fin p)
  obtain r p1 where c: "on_callback cb p = (r, p1)" by fastforce
  show ?case
  proof (cases r)
    case Proceed
    with 2 c obtain now later where "map fst rest = now @ later \<and>
        (\<forall>more. deliver (now @ more) p1 = (if failed p' \<and> \<not> failed p1 then Inl p' else deliver more p')) \<or> failed p1" by auto
    moreover have "failed p1 = failed p" using on_callback_proceeds [of cb p] c Proceed by simp
    ultimately show ?thesis using c Proceed by (intro exI [of _ "cb # now"] exI [of _ later]) auto
  next
    case Refuse
    then have "p' = p1" "failed p1" using 2 c on_callback_refuses [of cb p] by auto
    then show ?thesis using c Refuse by (intro exI [of _ "[cb]"] exI [of _ "map fst rest"]) auto
  next
    case Pause
    then have "p' = p1" using 2 c by auto
    moreover have "failed p1 = failed p"
      using c Pause on_callback_pauses [of cb p] by simp
    ultimately show ?thesis using c Pause by (intro exI [of _ "[cb]"] exI [of _ "map fst rest"]) auto
  qed
qed

lemma deliver_append: "deliver (xs @ ys) p = (case deliver xs p of Inl q \<Rightarrow> Inl q | Inr q \<Rightarrow> deliver ys q)"
  by (induction xs arbitrary: p) (auto split: prod.split)

lemma deliver_methods: "deliver (map OnMethod ms @ cbs) p = deliver cbs (p\<lparr>p_method := p_method p @ concat ms\<rparr>)"
  by (induction ms arbitrary: p) (simp_all add: on_method_def)

lemma deliver_urls:
  "us \<noteq> [] \<or> line_ok p \<Longrightarrow> \<not> failed p \<Longrightarrow>
     outcome (deliver (map OnUrl us @ cbs) p) =
       (if length (p_method p) + 1 + length (p_url p @ concat us) > max_request_line (limits p)
        then Inl (431, ''Request line too long'') else outcome (deliver cbs (p\<lparr>p_url := p_url p @ concat us\<rparr>)))"
proof (induction us arbitrary: p)
  case Nil then show ?case by (simp add: line_ok_def)
next
  case (Cons u us)
  let ?p = "p\<lparr>p_url := p_url p @ u\<rparr>"
  show ?case
  proof (cases "line_ok ?p")
    case True
    then have "deliver (map OnUrl (u # us) @ cbs) p = deliver (map OnUrl us @ cbs) ?p"
      by (simp add: on_url_def Let_def line_ok_def)
    with Cons.IH [of ?p] True Cons.prems(2) show ?thesis by simp
  next
    case False
    with Cons.prems(2) show ?thesis by (simp add: on_url_def Let_def line_ok_def fail_def outcome_def)
  qed
qed

definition header_callbacks :: "string list \<times> string list \<Rightarrow> callback list" where
  "header_callbacks h =
     map OnHeaderField (fst h) @ [OnHeaderFieldComplete] @ map OnHeaderValue (snd h) @ [OnHeaderValueComplete]"

definition header_of :: "string list \<times> string list \<Rightarrow> string \<times> string" where
  "header_of h = (concat (fst h), rtrim (concat (snd h)))"

lemma deliver_fields: "deliver (map OnHeaderField fs @ cbs) p = deliver cbs (p\<lparr>p_field := p_field p @ concat fs\<rparr>)"
  by (induction fs arbitrary: p) (simp_all add: on_header_field_def)

lemma deliver_values: "deliver (map OnHeaderValue vs @ cbs) p = deliver cbs (p\<lparr>p_value := p_value p @ concat vs\<rparr>)"
  by (induction vs arbitrary: p) (simp_all add: on_header_value_def)

lemma deliver_header:
  "p_field p = [] \<Longrightarrow> p_value p = [] \<Longrightarrow> length (p_headers p) < max_headers (limits p) \<Longrightarrow>
     deliver (header_callbacks h @ cbs) p = deliver cbs (p\<lparr>p_headers := p_headers p @ [header_of h]\<rparr>)"
  by (cases p) (simp add: header_callbacks_def header_of_def deliver_fields deliver_values on_header_field_complete_def
      on_header_value_complete_def)

lemma deliver_header_refused:
  "\<not> failed p \<Longrightarrow> \<not> length (p_headers p) < max_headers (limits p) \<Longrightarrow>
     outcome (deliver (header_callbacks h @ cbs) p) = Inl (431, ''Too many header fields'')"
  by (simp add: header_callbacks_def deliver_fields on_header_field_complete_def fail_def outcome_def)

lemma deliver_headers:
  "p_field p = [] \<Longrightarrow> p_value p = [] \<Longrightarrow> \<not> failed p \<Longrightarrow> length (p_headers p) \<le> max_headers (limits p) \<Longrightarrow>
     outcome (deliver (concat (map header_callbacks hs) @ cbs) p) =
       (if length (p_headers p) + length hs > max_headers (limits p) then Inl (431, ''Too many header fields'')
        else outcome (deliver cbs (p\<lparr>p_headers := p_headers p @ map header_of hs\<rparr>)))"
proof (induction hs arbitrary: p)
  case (Cons h hs)
  show ?case
  proof (cases "length (p_headers p) < max_headers (limits p)")
    case True
    with Cons show ?thesis by (simp add: deliver_header)
  next
    case False
    with Cons.prems deliver_header_refused [OF Cons.prems(3) False, of h "concat (map header_callbacks hs) @ cbs"]
    show ?thesis by simp
  qed
qed simp

lemma deliver_bodies:
  "\<not> failed p \<Longrightarrow> \<not> body_handler p \<Longrightarrow> body_bytes p \<le> body_limit p \<Longrightarrow>
     outcome (deliver (map OnBody bs @ cbs) p) =
       (if body_bytes p + length (concat bs) > body_limit p then Inl (413, ''Body exceeds the size limit'')
        else outcome (deliver cbs (p\<lparr>body_bytes := body_bytes p + length (concat bs), message_body := message_body p @ concat bs\<rparr>)))"
proof (induction bs arbitrary: p)
  case (Cons b bs)
  show ?case
  proof (cases "body_bytes p + length b > body_limit p")
    case True with Cons.prems show ?thesis by (simp add: on_body_def fail_def outcome_def Let_def)
  next
    case False
    let ?p = "p\<lparr>body_bytes := body_bytes p + length b, message_body := message_body p @ b\<rparr>"
    have "deliver (map OnBody (b # bs) @ cbs) p = deliver (map OnBody bs @ cbs) ?p"
      using False Cons.prems by (simp add: on_body_def Let_def)
    with Cons.IH [of ?p] Cons.prems False show ?thesis by (simp add: add.assoc)
  qed
qed simp


definition message_callbacks :: "string list \<Rightarrow> string list \<Rightarrow> (string list \<times> string list) list \<Rightarrow> head_info \<Rightarrow> string list \<Rightarrow> bool \<Rightarrow>
    callback list" where
  "message_callbacks ms us hs i bs up =
     map OnMethod ms @ map OnUrl us @ concat (map header_callbacks hs) @ [OnHeadersComplete i] @ map OnBody bs @ [OnMessageComplete up]"

text \<open>What a whole message means under the limits: its method, target, header fields and body, or the error it gets.\<close>

definition parse_message :: "Limits \<Rightarrow> string \<Rightarrow> string \<Rightarrow> (string \<times> string) list \<Rightarrow> head_info \<Rightarrow> string \<Rightarrow> (nat \<times> string) + HttpRequest" where
  "parse_message lim m u hs i b =
     (if length m + 1 + length u > max_request_line lim then Inl (431, ''Request line too long'')
      else if length hs > max_headers lim then Inl (431, ''Too many header fields'')
      else case put_target m u empty_request of
          Inl reason \<Rightarrow> Inl (400, reason)
        | Inr req \<Rightarrow>
            if f_content_length i \<and> content_length i > max_body_size lim then Inl (413, ''Content-Length exceeds the body size limit'')
            else if length b > max_body_size lim then Inl (413, ''Body exceeds the size limit'')
            else Inr ((put_cookies (put_headers hs (req\<lparr>http_version := version_text i\<rparr>)))\<lparr>req_body := b\<rparr>))"

lemma deliver_headers_complete:
  assumes "\<not> failed p" "request p = empty_request" "body_limit_for p = None" "body_bytes p = 0" "\<not> body_handler p" "message_body p = []"
  shows "outcome (deliver ([OnHeadersComplete i] @ map OnBody bs @ [OnMessageComplete up]) p) =
    (case put_target (p_method p) (p_url p) empty_request of
       Inl reason \<Rightarrow> Inl (400, reason)
     | Inr req \<Rightarrow>
         if f_content_length i \<and> content_length i > max_body_size (limits p) then Inl (413, ''Content-Length exceeds the body size limit'')
         else if length (concat bs) > max_body_size (limits p) then Inl (413, ''Body exceeds the size limit'')
         else Inr ((put_cookies (put_headers (p_headers p) (req\<lparr>http_version := version_text i\<rparr>)))\<lparr>req_body := concat bs\<rparr>))"
proof (cases "put_target (p_method p) (p_url p) empty_request")
  case (Inl reason)
  with assms show ?thesis by (simp add: on_headers_complete_def fail_def outcome_def)
next
  case (Inr req)
  let ?r = "put_cookies (put_headers (p_headers p) (req\<lparr>http_version := version_text i\<rparr>))"
  let ?p = "p\<lparr>headers_done := True, request := ?r, expect_continue := expect_continue p \<or> list_ex is_expect_continue (p_headers p),
      body_limit := max_body_size (limits p), is_chunked := f_chunked i,
      has_body := f_chunked i \<or> (f_content_length i \<and> content_length i > 0)\<rparr>"
  show ?thesis
  proof (cases "f_content_length i \<and> content_length i > max_body_size (limits p)")
    case True
    with Inr assms show ?thesis by (simp add: on_headers_complete_def fail_def outcome_def)
  next
    case False
    have "deliver ([OnHeadersComplete i] @ map OnBody bs @ [OnMessageComplete up]) p = deliver (map OnBody bs @ [OnMessageComplete up]) ?p"
      using False Inr assms by (auto simp: on_headers_complete_def Let_def)
    with deliver_bodies [of ?p bs "[OnMessageComplete up]"] False Inr assms show ?thesis
      by (auto simp: on_message_complete_def outcome_def)
  qed
qed

lemma deliver_message:
  assumes "us \<noteq> []"
  shows "outcome (deliver (message_callbacks ms us hs i bs up) (new_impl lim)) =
         parse_message lim (concat ms) (concat us) (map header_of hs) i (concat bs)"
proof -
  let ?p1 = "(new_impl lim)\<lparr>p_method := concat ms\<rparr>"
  let ?p2 = "?p1\<lparr>p_url := concat us\<rparr>"
  let ?p3 = "?p2\<lparr>p_headers := map header_of hs\<rparr>"
  let ?rest = "[OnHeadersComplete i] @ map OnBody bs @ [OnMessageComplete up]"
  have 1: "outcome (deliver (message_callbacks ms us hs i bs up) (new_impl lim)) =
      (if length (concat ms) + 1 + length (concat us) > max_request_line lim then Inl (431, ''Request line too long'')
       else outcome (deliver (concat (map header_callbacks hs) @ ?rest) ?p2))"
    unfolding message_callbacks_def deliver_methods using assms
    by (subst deliver_urls) (simp_all add: new_impl_def)
  have 2: "outcome (deliver (concat (map header_callbacks hs) @ ?rest) ?p2) =
      (if length hs > max_headers lim then Inl (431, ''Too many header fields'') else outcome (deliver ?rest ?p3))"
    by (subst deliver_headers) (simp_all add: new_impl_def)
  have 3: "outcome (deliver ?rest ?p3) =
    (case put_target (concat ms) (concat us) empty_request of
       Inl reason \<Rightarrow> Inl (400, reason)
     | Inr req \<Rightarrow>
         if f_content_length i \<and> content_length i > max_body_size lim then Inl (413, ''Content-Length exceeds the body size limit'')
         else if length (concat bs) > max_body_size lim then Inl (413, ''Body exceeds the size limit'')
         else Inr ((put_cookies (put_headers (map header_of hs) (req\<lparr>http_version := version_text i\<rparr>)))\<lparr>req_body := concat bs\<rparr>))"
    by (subst deliver_headers_complete) (auto simp: new_impl_def split: sum.split)
  show ?thesis unfolding 1 2 3 parse_message_def by simp
qed


section \<open>Theorems\<close>

text \<open>
  C11: The request the application sees is the one that was sent, however the network cut it: for any way in which the method,
  the target, the name and value of every header field and the body arrive in pieces, the callbacks produce the request made of
  the joined pieces (with trailing white space of values removed, the last of repeated fields, the decoded path, the query and
  the cookies), or the error that the limits and the decoding prescribe for the joined message.
\<close>

theorem http1_request_as_sent:
  assumes "us \<noteq> []"
  shows "outcome (deliver (message_callbacks ms us hs i bs up) (new_impl lim)) =
         parse_message lim (concat ms) (concat us) (map header_of hs) i (concat bs)"
  using assms by (rule deliver_message)

definition demo_limits :: Limits where
  "demo_limits = \<lparr>max_request_line = 32, max_header_bytes = 128, max_headers = 2, max_body_size = 8\<rparr>"

definition demo_head :: head_info where
  "demo_head = \<lparr>http_major = 1, http_minor = 1, f_chunked = True, f_content_length = False, content_length = 0\<rparr>"

theorem http1_request_as_sent_witness:
  "outcome (deliver (message_callbacks [''PO'', ''ST''] [''/a'', ''b''] [([''X''], [''1 ''])] demo_head [''hel'', ''lo''] False) (new_impl demo_limits)) =
   parse_message demo_limits ''POST'' ''/ab'' [(''X'', ''1'')] demo_head ''hello''"
  using http1_request_as_sent [of "[''/a'', ''b'']" "[''PO'', ''ST'']" "[([''X''], [''1 ''])]" demo_head "[''hel'', ''lo'']" False demo_limits]
  by (simp add: header_of_def rtrim_def is_ows_def)

text \<open>
  C28: The limits hold at every moment, for whatever llhttp reports and however it is fed, as long as llhttp makes its callbacks in
  order and gives them disjoint pieces of the input: in a parser that has not failed, the request line is within its limit from the first
  byte of the target on, and so are the number of header fields and the body (buffered or streamed); and the bytes of method, target,
  names and values taken together, counted as they arrived, are within the limit of the header section, unless a trailer section may have
  begun (which is not limited, see below).
\<close>

theorem http1_limits_hold:
  assumes "ll_in_order lib ph" "ll_spans lib" "ph l = AtMethod" "s = parse_all lib ops (new_parser l lim)" "\<not> failed (impl s)"
  shows "(p_url (impl s) \<noteq> [] \<or> headers_done (impl s) \<longrightarrow> length (p_method (impl s)) + 1 + length (p_url (impl s)) \<le> max_request_line lim) \<and>
         length (p_headers (impl s)) \<le> max_headers lim \<and>
         ((headers_done (impl s) \<and> is_chunked (impl s) \<longrightarrow> ph (ll s) = AtChunked) \<longrightarrow> head_text (impl s) \<le> max_header_bytes lim) \<and>
         (headers_done (impl s) \<longrightarrow> length (message_body (impl s)) + length (handler_got (impl s)) \<le> body_limit (impl s))"
proof -
  have "parser_ok (ph (ll (new_parser l lim))) (impl (new_parser l lim))" "counted_ok (ph (ll (new_parser l lim))) (impl (new_parser l lim))"
    using assms(3) by (simp_all add: new_parser_def new_impl_def parser_ok_def body_ok_def fields_ok_def after_headers_def
        counted_ok_def text_ok_def head_text_def)
  note o = parse_all_ok [OF assms(1) this(1), of ops] parse_all_counted [OF assms(1,2) this, of ops]
  have l: "limits (impl s) = lim" using parse_all_limits [of lib ops "new_parser l lim"] assms(4) by (simp add: new_parser_def new_impl_def)
  have p: "parser_ok (ph (ll s)) (impl s)" and c: "counted_ok (ph (ll s)) (impl s)" using o assms(4) by simp_all
  have "header_bytes (impl s) \<le> max_header_bytes lim" using p assms(5) l by (simp add: parser_ok_def)
  with c assms(5) have "(headers_done (impl s) \<and> is_chunked (impl s) \<longrightarrow> ph (ll s) = AtChunked) \<longrightarrow> head_text (impl s) \<le> max_header_bytes lim"
    by (auto simp: counted_ok_def text_ok_def)
  moreover have "p_url (impl s) \<noteq> [] \<or> headers_done (impl s) \<longrightarrow> length (p_method (impl s)) + 1 + length (p_url (impl s)) \<le> max_request_line lim"
    using p assms(5) l by (auto simp: parser_ok_def line_ok_def after_headers_def split: if_splits)
  moreover have "length (p_headers (impl s)) \<le> max_headers lim" using p assms(5) l by (auto simp: parser_ok_def fields_ok_def split: if_splits)
  moreover have "headers_done (impl s) \<longrightarrow> length (message_body (impl s)) + length (handler_got (impl s)) \<le> body_limit (impl s)"
    using p assms(5) by (auto simp: parser_ok_def body_ok_def)
  ultimately show ?thesis by blast
qed

text \<open>An llhttp that knows one request, and one that takes every piece of input for a piece of the target.\<close>

definition demo_request :: string where
  "demo_request = ''POST /ab HTTP/1.1'' @ CRLF @ ''X: 1'' @ CRLF @ CRLF"

definition one_request :: "phase llhttp" where
  "one_request = \<lparr>ll_run = (\<lambda>l data.
     if l = AtMethod \<and> data = demo_request
     then ([(OnMethod ''POST'', 4, AtMethod), (OnUrl ''/ab'', 8, AtUrl), (OnHeaderField ''X'', 20, AtField), (OnHeaderFieldComplete, 20, AtValue),
            (OnHeaderValue ''1'', 23, AtValue), (OnHeaderValueComplete, 24, AtNext), (OnHeadersComplete demo_head, 27, AtChunked)],
           HPE_OK, 27, AtChunked)
     else ([], HPE_OK, 0, l)), ll_reason = (\<lambda>_ _. ''error'')\<rparr>"

definition demo_llhttp :: "bool llhttp" where
  "demo_llhttp = \<lparr>ll_run = (\<lambda>l data. ([(OnUrl data, length data, True)], HPE_OK, length data, True)), ll_reason = (\<lambda>_ _. ''error'')\<rparr>"

theorem http1_limits_hold_witness:
  "\<exists>p. impl (parse_all one_request [Feed demo_request] (new_parser AtMethod demo_limits)) = p \<and> p_headers p = [(''X'', ''1'')] \<and> header_bytes p = 27 \<and>
     length (p_method p) + 1 + length (p_url p) \<le> 32 \<and> head_text p \<le> 128"
proof -
  let ?s = "parse_all one_request [Feed demo_request] (new_parser AtMethod demo_limits)"
  have o: "ll_in_order one_request id" "ll_spans one_request"
    by (auto simp: ll_in_order_def ll_spans_def one_request_def advance_def demo_request_def demo_head_def)
  have "percent_decode False True ''/ab'' = Some ''/ab''" "split_at (CHR ''?'') ''/ab'' = (''/ab'', None)" by code_simp+
  then obtain req where r: "put_target ''POST'' ''/ab'' empty_request = Inr req" by (simp add: put_target_def)
  have "rtrim ''1'' = ''1''" by (simp add: rtrim_def is_ows_def)
  note run = parse_all_def feed_def feed_execute_def llhttp_execute_def llhttp_resume_def one_request_def new_parser_def new_impl_def
    callback_defs fail_def demo_limits_def demo_head_def count_header_bytes_def Let_def
  have s: "\<not> failed (impl ?s)" "p_headers (impl ?s) = [(''X'', ''1'')]" "header_bytes (impl ?s) = 27" "p_url (impl ?s) = ''/ab''"
    "ll ?s = AtChunked"
    using r \<open>rtrim ''1'' = ''1''\<close> by (simp_all add: run on_headers_complete_def)
  have "max_request_line demo_limits = 32" "max_header_bytes demo_limits = 128" by (simp_all add: demo_limits_def)
  then show ?thesis
    using http1_limits_hold [OF o _ refl, of AtMethod "[Feed demo_request]" demo_limits] s by simp
qed

text \<open>
  An error is final: when \<^verbatim>\<open>feed\<close> has reported one, its status is 400, 413, 431 or 501, and whatever is called afterwards, status
  and reason stay the same and \<^verbatim>\<open>feed\<close> takes no further byte.
\<close>

theorem http1_error_final:
  assumes "s = parse_all lib ops (new_parser l lim)" "feed lib data s = (Error, used, s')" "s'' = parse_all lib ops' s'"
  shows "error_status (impl s') \<in> {400, 413, 431, 501} \<and> error_status (impl s'') = error_status (impl s') \<and>
         error_reason (impl s'') = error_reason (impl s') \<and> feed lib data' s'' = (Error, 0, s'')"
proof -
  have "status_ok (impl (new_parser l lim))" by (simp add: new_parser_def new_impl_def status_ok_def)
  then have "status_ok (impl s)" unfolding assms(1) by (rule parse_all_status)
  from feed_status [OF this, of lib data] assms(2) have "status_ok (impl s')" by simp
  moreover have f: "failed (impl s')" using feed_error_failed [of lib data s] assms(2) by simp
  moreover have "same_error (impl s') (impl s'')" unfolding assms(3) using f by (rule parse_all_sticky)
  ultimately show ?thesis by (auto simp: status_ok_def same_error_def feed_def)
qed

theorem http1_error_final_witness:
  "feed demo_llhttp ''more'' (snd (snd (feed demo_llhttp (replicate 40 (CHR ''a'')) (new_parser False demo_limits)))) =
   (Error, 0, snd (snd (feed demo_llhttp (replicate 40 (CHR ''a'')) (new_parser False demo_limits))))"
proof -
  let ?s = "new_parser False demo_limits"
  obtain used s' where "feed demo_llhttp (replicate 40 (CHR ''a'')) ?s = (Error, used, s')"
    by (simp add: feed_def feed_execute_def llhttp_execute_def llhttp_resume_def demo_llhttp_def new_parser_def
        new_impl_def on_url_def count_header_bytes_def demo_limits_def fail_def Let_def)
  from http1_error_final [OF _ this, of "[]" False demo_limits s' "[]" "''more''"] this show ?thesis
    by (simp add: parse_all_def)
qed

text \<open>
  The trailer section of a chunked message is not limited: its bytes are not counted, so a field value in it grows with every
  piece fed.
\<close>

lemma trailer_section_unlimited:
  assumes "ll_run lib (ll s) data = ([(OnHeaderValue data, length data, ll s)], HPE_OK, length data, ll s)" "ll_errno s = HPE_OK"
    "\<not> failed (impl s)" "\<not> message_done (impl s)" "headers_done (impl s)"
  shows "feed lib data s = (NeedMore, length data, s\<lparr>impl := (impl s)\<lparr>p_value := p_value (impl s) @ data\<rparr>\<rparr>)"
  using assms
  by (simp add: feed_def feed_execute_def llhttp_execute_def llhttp_resume_def on_header_value_def count_header_bytes_def)

end
