(* ===== verification/Connection_Pool.thy ===== *)
theory Connection_Pool
  imports Orbit_Prelude "HOL-Library.Multiset"
begin

text \<open>
  The pool of database clients (\<^verbatim>\<open>include/orbit/database/ConnectionPool.hpp\<close>): idle clients, callbacks that wait
  for one, and the replacement of clients that a health check rejects. Every section the code runs
  under its mutex is one definition, and so is every step between two of them (a connector that answers,
  a delay that has passed); \<open>pool_step\<close> interleaves them in any order, so the theorems hold for any number of
  threads. Clients and callbacks are numbers. The health check and the outcome of a connection attempt
  are chosen anew in every step.

  The theorems: a client is held by one caller at a time and none is lost or made in excess, callbacks
  are served in the order in which they asked, no callback waits beside an idle client, a waiting callback can
  always still be served, and the delays between attempts stay within the configured bounds.
\<close>

section \<open>The pool\<close>

text \<open>\<open>Initial\<close> is an attempt made by \<^verbatim>\<open>init\<close>, \<open>Replacement d\<close> one made by \<^verbatim>\<open>replace\<close> with the delay \<open>d\<close> (in milliseconds).\<close>

datatype attempt_kind = Initial | Replacement int

record PoolOptions =
  has_health_check :: bool
  initial_backoff :: int
  max_backoff :: int

record ConnectionPool = PoolOptions +
  max_size :: nat
  has_connector :: bool
  reconnecting :: int
  idle_connections :: "nat list"
  wait_queue :: "nat list"

text \<open>
  What happens outside of the mutex: clients that a caller holds or that are on their way back, calls of
  \<^verbatim>\<open>replace\<close> about to be made, attempts that wait out their delay and attempts under way, the loop of \<^verbatim>\<open>init\<close>
  with its two counters, and the history of the calls of \<^verbatim>\<open>acquire\<close>, of the callbacks and of \<^verbatim>\<open>on_ready\<close>.
\<close>

record pool = ConnectionPool +
  next_client :: nat
  held :: "nat list"
  returning :: "nat list"
  replacing :: "int list"
  scheduled :: "int list"
  attempts :: "(nat \<times> attempt_kind) list"
  init_left :: nat
  success_count :: nat
  fail_count :: nat
  asked :: "nat list"
  served :: "(nat \<times> nat) list"
  on_ready_calls :: "bool list"

definition new_pool :: "nat \<Rightarrow> bool \<Rightarrow> int \<Rightarrow> int \<Rightarrow> pool" where
  "new_pool n hc ib mb =
     \<lparr>has_health_check = hc, initial_backoff = ib, max_backoff = mb, max_size = n, has_connector = False, reconnecting = 0,
      idle_connections = [], wait_queue = [], next_client = 0, held = [], returning = [], replacing = [], scheduled = [],
      attempts = [], init_left = 0, success_count = 0, fail_count = 0, asked = [], served = [], on_ready_calls = []\<rparr>"

fun pop_healthy :: "bool \<Rightarrow> (nat \<Rightarrow> bool) \<Rightarrow> nat list \<Rightarrow> nat option \<times> nat \<times> nat list" where
  "pop_healthy hc h [] = (None, 0, [])"
| "pop_healthy hc h (c # cs) =
     (if \<not> hc \<or> h c then (Some c, 0, cs)
      else case pop_healthy hc h cs of (r, dropped, rest) \<Rightarrow> (r, Suc dropped, rest))"

definition call_back :: "nat \<Rightarrow> nat \<Rightarrow> pool \<Rightarrow> pool" where
  "call_back cb c p = p\<lparr>held := held p @ [c], served := served p @ [(cb, c)]\<rparr>"

definition acquire :: "(nat \<Rightarrow> bool) \<Rightarrow> nat \<Rightarrow> pool \<Rightarrow> pool" where
  "acquire h cb p =
     (case pop_healthy (has_health_check p) h (idle_connections p) of
        (client, dropped, rest) \<Rightarrow>
          (let p1 = p\<lparr>idle_connections := rest, asked := asked p @ [cb], replacing := replacing p @ replicate dropped 0\<rparr>
           in case client of
                None \<Rightarrow> p1\<lparr>wait_queue := wait_queue p1 @ [cb]\<rparr>
              | Some c \<Rightarrow> call_back cb c p1))"

text \<open>\<^verbatim>\<open>release\<close> checks the client first and takes the mutex afterwards.\<close>

definition release :: "(nat \<Rightarrow> bool) \<Rightarrow> nat \<Rightarrow> pool \<Rightarrow> pool" where
  "release h c p =
     (if has_health_check p \<and> \<not> h c then p\<lparr>replacing := replacing p @ [0]\<rparr>
      else p\<lparr>returning := returning p @ [c]\<rparr>)"

definition release_locked :: "nat \<Rightarrow> pool \<Rightarrow> pool" where
  "release_locked c p =
     (let p1 = p\<lparr>returning := remove1 c (returning p)\<rparr>
      in case wait_queue p of
           cb # rest \<Rightarrow> call_back cb c (p1\<lparr>wait_queue := rest\<rparr>)
         | [] \<Rightarrow> p1\<lparr>idle_connections := idle_connections p @ [c]\<rparr>)"

definition give_back :: "(nat \<Rightarrow> bool) \<Rightarrow> nat \<Rightarrow> pool \<Rightarrow> pool" where
  "give_back h c p = release h c (p\<lparr>held := remove1 c (held p)\<rparr>)"

definition idle_count :: "pool \<Rightarrow> nat" where
  "idle_count p = length (idle_connections p)"

definition waiting_count :: "pool \<Rightarrow> nat" where
  "waiting_count p = length (wait_queue p)"

definition reconnecting_count :: "pool \<Rightarrow> int" where
  "reconnecting_count p = reconnecting p"

text \<open>
  \<^verbatim>\<open>replace\<close>: the locked section, then (at once for a delay of zero) the attempt, then the connector's answer.
\<close>

definition replace :: "int \<Rightarrow> pool \<Rightarrow> pool" where
  "replace d p =
     (let p1 = p\<lparr>replacing := remove1 d (replacing p)\<rparr>
      in if has_connector p then p1\<lparr>reconnecting := reconnecting p + 1, scheduled := scheduled p @ [d]\<rparr> else p1)"

definition start_attempt :: "attempt_kind \<Rightarrow> pool \<Rightarrow> pool" where
  "start_attempt k p = p\<lparr>next_client := next_client p + 1, attempts := attempts p @ [(next_client p, k)]\<rparr>"

definition attempt :: "int \<Rightarrow> pool \<Rightarrow> pool" where
  "attempt d p = start_attempt (Replacement d) (p\<lparr>scheduled := remove1 d (scheduled p)\<rparr>)"

definition next_backoff :: "int \<Rightarrow> int \<Rightarrow> int \<Rightarrow> int" where
  "next_backoff ib mb d = min (max ib (d * 2)) mb"

definition replacement_done :: "(nat \<Rightarrow> bool) \<Rightarrow> nat \<Rightarrow> int \<Rightarrow> bool \<Rightarrow> pool \<Rightarrow> pool" where
  "replacement_done h c d success p =
     (let p1 = p\<lparr>attempts := remove1 (c, Replacement d) (attempts p), reconnecting := reconnecting p - 1\<rparr>
      in if success then release h c p1
         else p1\<lparr>replacing := replacing p @ [next_backoff (initial_backoff p) (max_backoff p) d]\<rparr>)"

definition init :: "pool \<Rightarrow> pool" where
  "init p =
     (if max_size p = 0 then p\<lparr>has_connector := True, on_ready_calls := on_ready_calls p @ [True]\<rparr>
      else p\<lparr>has_connector := True, init_left := max_size p\<rparr>)"

definition init_next :: "pool \<Rightarrow> pool" where
  "init_next p = start_attempt Initial (p\<lparr>init_left := init_left p - 1\<rparr>)"

definition initial_done :: "(nat \<Rightarrow> bool) \<Rightarrow> nat \<Rightarrow> bool \<Rightarrow> pool \<Rightarrow> pool" where
  "initial_done h c success p =
     (let p1 = p\<lparr>attempts := remove1 (c, Initial) (attempts p),
                 success_count := success_count p + (if success then 1 else 0),
                 fail_count := fail_count p + (if success then 0 else 1)\<rparr>;
          all_done = (success_count p1 + fail_count p1 = max_size p);
          all_ok = (fail_count p1 = 0);
          p2 = (if success then release h c p1
                else if has_health_check p then p1\<lparr>replacing := replacing p @ [initial_backoff p]\<rparr>
                else p1)
      in if all_done then p2\<lparr>on_ready_calls := on_ready_calls p @ [all_ok]\<rparr> else p2)"


section \<open>Interleavings\<close>

text \<open>
  Any thread may take the next step. Callers give back only clients they hold and \<^verbatim>\<open>init\<close> is called once.
\<close>

inductive pool_step :: "pool \<Rightarrow> pool \<Rightarrow> bool" where
  acquires: "pool_step p (acquire h cb p)"
| gives_back: "c \<in> set (held p) \<Longrightarrow> pool_step p (give_back h c p)"
| releases: "c \<in> set (returning p) \<Longrightarrow> pool_step p (release_locked c p)"
| replaces: "d \<in> set (replacing p) \<Longrightarrow> pool_step p (replace d p)"
| attempts_again: "d \<in> set (scheduled p) \<Longrightarrow> pool_step p (attempt d p)"
| replacement_answers: "(c, Replacement d) \<in> set (attempts p) \<Longrightarrow> pool_step p (replacement_done h c d ok p)"
| inits: "\<not> has_connector p \<Longrightarrow> pool_step p (init p)"
| inits_next: "0 < init_left p \<Longrightarrow> pool_step p (init_next p)"
| initial_answers: "(c, Initial) \<in> set (attempts p) \<Longrightarrow> pool_step p (initial_done h c ok p)"

definition pool_reachable :: "nat \<Rightarrow> bool \<Rightarrow> int \<Rightarrow> int \<Rightarrow> pool \<Rightarrow> bool" where
  "pool_reachable n hc ib mb p \<longleftrightarrow> pool_step\<^sup>*\<^sup>* (new_pool n hc ib mb) p"

lemmas pool_defs = call_back_def release_def start_attempt_def Let_def

lemmas pool_ops = acquire_def give_back_def release_locked_def replace_def attempt_def replacement_done_def init_def
  init_next_def initial_done_def pool_defs

lemma pop_healthy_split:
  "pop_healthy hc h cs = (r, dropped, rest) \<Longrightarrow>
     \<exists>ds. length ds = dropped \<and> cs = ds @ (case r of None \<Rightarrow> [] | Some c \<Rightarrow> [c]) @ rest \<and> (r = None \<longrightarrow> rest = []) \<and>
          (\<not> hc \<longrightarrow> ds = []) \<and> (\<forall>c. r = Some c \<longrightarrow> hc \<longrightarrow> h c)"
proof (induction cs arbitrary: r dropped rest)
  case (Cons c cs)
  show ?case
  proof (cases "\<not> hc \<or> h c")
    case True with Cons.prems show ?thesis by (intro exI [of _ "[]"]) auto
  next
    case False
    with Cons.prems obtain d where d: "pop_healthy hc h cs = (r, d, rest)" "dropped = Suc d"
      by (auto split: prod.splits)
    from Cons.IH [OF d(1)] obtain ds where "length ds = d" "cs = ds @ (case r of None \<Rightarrow> [] | Some c \<Rightarrow> [c]) @ rest"
      "r = None \<longrightarrow> rest = []" "\<not> hc \<longrightarrow> ds = []" "\<forall>c. r = Some c \<longrightarrow> hc \<longrightarrow> h c" by blast
    with d(2) False show ?thesis by (intro exI [of _ "c # ds"]) auto
  qed
qed simp

text \<open>The options never change.\<close>

lemma step_options:
  "pool_step p q \<Longrightarrow> has_health_check q = has_health_check p \<and> initial_backoff q = initial_backoff p \<and>
     max_backoff q = max_backoff p \<and> max_size q = max_size p"
  by (induction rule: pool_step.induct) (auto simp: pool_ops split: prod.split option.split list.split)

lemma reachable_options:
  assumes "pool_reachable n hc ib mb p"
  shows "has_health_check p = hc \<and> initial_backoff p = ib \<and> max_backoff p = mb \<and> max_size p = n"
  using assms unfolding pool_reachable_def
  by (induction rule: rtranclp_induct) (auto simp: new_pool_def dest: step_options)

lemma reachable_invariant:
  assumes "pool_reachable n hc ib mb p" "P (new_pool n hc ib mb)" "\<And>p q. pool_step p q \<Longrightarrow> P p \<Longrightarrow> P q"
  shows "P p"
  using assms unfolding pool_reachable_def by (rule steps_invariant)


section \<open>Queues\<close>

definition queues_ok :: "pool \<Rightarrow> bool" where
  "queues_ok p \<longleftrightarrow> (idle_connections p = [] \<or> wait_queue p = []) \<and> map fst (served p) @ wait_queue p = asked p"

lemma acquire_queues: "queues_ok p \<Longrightarrow> queues_ok (acquire h cb p)"
  by (cases "pop_healthy (has_health_check p) h (idle_connections p)")
     (auto simp: queues_ok_def acquire_def call_back_def Let_def dest!: pop_healthy_split split: option.split)

lemma release_locked_queues: "queues_ok p \<Longrightarrow> queues_ok (release_locked c p)"
  by (cases "wait_queue p") (auto simp: queues_ok_def release_locked_def call_back_def Let_def)

lemma step_queues: "pool_step p q \<Longrightarrow> queues_ok p \<Longrightarrow> queues_ok q"
proof (induction rule: pool_step.induct)
  case acquires then show ?case by (rule acquire_queues)
next
  case releases then show ?case by (simp add: release_locked_queues)
qed (auto simp: queues_ok_def give_back_def replace_def attempt_def replacement_done_def init_def init_next_def
       initial_done_def pool_defs)

lemma reachable_queues: "pool_reachable n hc ib mb p \<Longrightarrow> queues_ok p"
  by (erule reachable_invariant) (simp add: queues_ok_def new_pool_def, rule step_queues)


section \<open>Clients\<close>

definition clients :: "pool \<Rightarrow> nat list" where
  "clients p = idle_connections p @ returning p @ held p @ map fst (attempts p)"

definition exclusive :: "pool \<Rightarrow> bool" where
  "exclusive p \<longleftrightarrow> distinct (clients p) \<and> (\<forall>c\<in>set (clients p). c < next_client p)"

text \<open>Places taken: clients, calls and attempts under way, and attempts \<^verbatim>\<open>init\<close> has still to make.\<close>

definition places :: "pool \<Rightarrow> nat" where
  "places p = length (clients p) + length (replacing p) + length (scheduled p) + init_left p"

fun is_initial :: "nat \<times> attempt_kind \<Rightarrow> bool" where
  "is_initial (c, Initial) = True"
| "is_initial (c, Replacement d) = False"

definition replacements :: "pool \<Rightarrow> nat" where
  "replacements p = length (scheduled p) + length (filter (\<lambda>a. \<not> is_initial a) (attempts p))"

definition initials :: "pool \<Rightarrow> nat" where
  "initials p = length (filter is_initial (attempts p)) + init_left p"

definition tally :: "pool \<Rightarrow> nat \<times> int \<times> nat \<times> bool \<times> nat \<times> bool \<times> nat \<times> nat \<times> bool list" where
  "tally p = (places p, reconnecting p - int (replacements p), initials p,
     has_health_check p, max_size p, has_connector p, success_count p, fail_count p, on_ready_calls p)"

fun tally_ok :: "nat \<times> int \<times> nat \<times> bool \<times> nat \<times> bool \<times> nat \<times> nat \<times> bool list \<Rightarrow> bool" where
  "tally_ok (pl, r, ini, hc, n, con, s, f, ready) \<longleftrightarrow>
     pl + (if hc then 0 else f) = (if con then n else 0) \<and> r = 0 \<and> s + f + ini = (if con then n else 0) \<and>
     ready = (if con \<and> s + f = n then [f = 0] else [])"

lemma length_remove1_Suc: "x \<in> set xs \<Longrightarrow> length xs = Suc (length (remove1 x xs))"
  by (induction xs) auto

lemma mset_take_out: "x \<in> set xs \<Longrightarrow> mset xs = add_mset x (mset (remove1 x xs))"
  by simp

lemma clients_after_attempt:
  "(c, k) \<in> set xs \<Longrightarrow> mset (map fst xs) = add_mset c (mset (map fst (remove1 (c, k) xs)))"
  by (induction xs) auto

lemma distinct_sub_mset:
  assumes "mset ys \<subseteq># mset xs" "distinct xs"
  shows "distinct ys"
proof -
  obtain zs where "mset xs = mset (ys @ zs)" using assms(1) by (metis ex_mset mset_append subset_mset.le_iff_add)
  then show ?thesis using assms(2) mset_eq_imp_distinct_iff distinct_append by blast
qed

lemma acquire_clients: "mset (clients (acquire h cb p)) \<subseteq># mset (clients p) \<and> next_client (acquire h cb p) = next_client p"
  by (cases "pop_healthy (has_health_check p) h (idle_connections p)")
     (auto simp: clients_def acquire_def call_back_def Let_def dest!: pop_healthy_split split: option.splits)

lemma release_locked_clients:
  "c \<in> set (returning p) \<Longrightarrow> mset (clients (release_locked c p)) = mset (clients p) \<and> next_client (release_locked c p) = next_client p"
  using mset_take_out [of c "returning p"]
  by (auto simp: clients_def release_locked_def call_back_def Let_def simp del: mset_remove1 split: list.split)

lemma give_back_clients:
  "c \<in> set (held p) \<Longrightarrow> mset (clients (give_back h c p)) \<subseteq># mset (clients p) \<and> next_client (give_back h c p) = next_client p"
  using mset_take_out [of c "held p"]
  by (auto simp: clients_def give_back_def release_def simp del: mset_remove1)

lemma replacement_done_clients:
  "(c, Replacement d) \<in> set (attempts p) \<Longrightarrow>
     mset (clients (replacement_done h c d ok p)) \<subseteq># mset (clients p) \<and> next_client (replacement_done h c d ok p) = next_client p"
  using clients_after_attempt [of c "Replacement d" "attempts p"]
  by (auto simp: clients_def replacement_done_def release_def Let_def simp del: mset_remove1 mset_map)

lemma initial_done_clients:
  "(c, Initial) \<in> set (attempts p) \<Longrightarrow>
     mset (clients (initial_done h c ok p)) \<subseteq># mset (clients p) \<and> next_client (initial_done h c ok p) = next_client p"
  using clients_after_attempt [of c Initial "attempts p"]
  by (auto simp: clients_def initial_done_def release_def Let_def simp del: mset_remove1 mset_map)

lemma step_clients:
  "pool_step p q \<Longrightarrow>
     mset (clients q) \<subseteq># mset (clients p) \<and> next_client q = next_client p \<or>
     mset (clients q) = add_mset (next_client p) (mset (clients p)) \<and> next_client q = Suc (next_client p)"
proof (induction rule: pool_step.induct)
  case releases then show ?case using release_locked_clients by simp
qed (auto simp: acquire_clients give_back_clients replacement_done_clients initial_done_clients,
     auto simp: clients_def replace_def attempt_def init_def init_next_def pool_defs)

lemma step_exclusive:
  assumes "pool_step p q" "exclusive p"
  shows "exclusive q"
  using step_clients [OF assms(1)]
proof (elim disjE conjE)
  assume q: "mset (clients q) \<subseteq># mset (clients p)" "next_client q = next_client p"
  then have "set (clients q) \<subseteq> set (clients p)" by (metis set_mset_mono set_mset_mset)
  with q assms(2) show ?thesis by (auto simp: exclusive_def intro: distinct_sub_mset)
next
  assume q: "mset (clients q) = add_mset (next_client p) (mset (clients p))" "next_client q = Suc (next_client p)"
  then have "mset (clients q) = mset (next_client p # clients p)" by simp
  then have "distinct (clients q) = distinct (next_client p # clients p)" "set (clients q) = set (next_client p # clients p)"
    by (metis mset_eq_imp_distinct_iff, metis mset_eq_setD)
  with q(2) assms(2) show ?thesis by (auto simp: exclusive_def)
qed

lemma reachable_exclusive: "pool_reachable n hc ib mb p \<Longrightarrow> exclusive p"
  by (erule reachable_invariant) (simp add: exclusive_def clients_def new_pool_def, rule step_exclusive)


section \<open>Counting\<close>

lemma places_acquire: "places (acquire h cb p) = places p"
  by (cases "pop_healthy (has_health_check p) h (idle_connections p)")
     (auto simp: places_def clients_def acquire_def call_back_def Let_def dest!: pop_healthy_split split: option.split)

lemma places_give_back: "c \<in> set (held p) \<Longrightarrow> places (give_back h c p) = places p"
  using length_remove1_Suc [of c "held p"] by (simp add: places_def clients_def give_back_def release_def)

lemma places_release_locked: "c \<in> set (returning p) \<Longrightarrow> places (release_locked c p) = places p"
  using length_remove1_Suc [of c "returning p"]
  by (simp add: places_def clients_def release_locked_def call_back_def Let_def split: list.split)

lemma places_replace: "d \<in> set (replacing p) \<Longrightarrow> has_connector p \<Longrightarrow> places (replace d p) = places p"
  using length_remove1_Suc [of d "replacing p"] by (simp add: places_def clients_def replace_def Let_def)

lemma places_attempt: "d \<in> set (scheduled p) \<Longrightarrow> places (attempt d p) = places p"
  using length_remove1_Suc [of d "scheduled p"] by (simp add: places_def clients_def attempt_def start_attempt_def)

lemma places_replacement_done:
  "(c, Replacement d) \<in> set (attempts p) \<Longrightarrow> places (replacement_done h c d ok p) = places p"
  using length_remove1_Suc [of "(c, Replacement d)" "attempts p"]
  by (simp add: places_def clients_def replacement_done_def release_def Let_def)

lemma places_initial_done:
  "(c, Initial) \<in> set (attempts p) \<Longrightarrow>
     places p = places (initial_done h c ok p) + (if ok \<or> has_health_check p then 0 else 1)"
  using length_remove1_Suc [of "(c, Initial)" "attempts p"]
  by (simp add: places_def clients_def initial_done_def release_def Let_def)

lemma places_init: "init_left p = 0 \<Longrightarrow> places (init p) = places p + max_size p"
  by (simp add: places_def clients_def init_def)

lemma places_init_next: "0 < init_left p \<Longrightarrow> places (init_next p) = places p"
  by (simp add: places_def clients_def init_next_def start_attempt_def)

lemmas tally_simps = tally_def replacements_def initials_def

lemma tally_connector: "tally_ok (tally p) \<Longrightarrow> 0 < places p \<Longrightarrow> has_connector p"
  by (auto simp: tally_def split: if_splits)

lemma tally_acquire: "tally (acquire h cb p) = tally p"
  unfolding tally_def places_acquire replacements_def initials_def
  by (cases "pop_healthy (has_health_check p) h (idle_connections p)")
     (simp add: acquire_def call_back_def Let_def split: option.split)

lemma tally_give_back: "c \<in> set (held p) \<Longrightarrow> tally (give_back h c p) = tally p"
  by (simp add: tally_simps places_give_back) (simp add: give_back_def release_def)

lemma tally_release_locked: "c \<in> set (returning p) \<Longrightarrow> tally (release_locked c p) = tally p"
  by (simp add: tally_simps places_release_locked) (simp add: release_locked_def call_back_def Let_def split: list.split)

lemma tally_replace: "d \<in> set (replacing p) \<Longrightarrow> has_connector p \<Longrightarrow> tally (replace d p) = tally p"
  by (simp add: tally_simps places_replace) (simp add: replace_def Let_def)

lemma tally_attempt: "d \<in> set (scheduled p) \<Longrightarrow> tally (attempt d p) = tally p"
  using length_remove1_Suc [of d "scheduled p"]
  by (simp add: tally_simps places_attempt) (simp add: attempt_def start_attempt_def)

lemma tally_replacement_done:
  assumes "(c, Replacement d) \<in> set (attempts p)"
  shows "tally (replacement_done h c d ok p) = tally p"
proof -
  have "(c, Replacement d) \<in> set (filter (\<lambda>a. \<not> is_initial a) (attempts p))" using assms(1) by simp
  from length_remove1_Suc [OF this] assms show ?thesis
    by (simp add: tally_simps places_replacement_done)
       (simp add: replacement_done_def release_def Let_def filter_remove1 remove1_idem)
qed

lemma tally_init_next: "0 < init_left p \<Longrightarrow> tally (init_next p) = tally p"
  by (simp add: tally_simps places_init_next) (simp add: init_next_def start_attempt_def)

lemma tally_init: "\<not> has_connector p \<Longrightarrow> tally_ok (tally p) \<Longrightarrow> tally_ok (tally (init p))"
  using places_init [of p] by (simp add: tally_simps) (auto simp: init_def)

lemma tally_initial_done:
  assumes "(c, Initial) \<in> set (attempts p)"
  shows "tally (initial_done h c ok p) =
    (places p - (if ok \<or> has_health_check p then 0 else 1), reconnecting p - int (replacements p), initials p - 1,
     has_health_check p, max_size p, has_connector p, success_count p + (if ok then 1 else 0), fail_count p + (if ok then 0 else 1),
     on_ready_calls p @ (if success_count p + fail_count p + 1 = max_size p then [ok \<and> fail_count p = 0] else []))"
proof -
  have "(c, Initial) \<in> set (filter is_initial (attempts p))" using assms by simp
  from length_remove1_Suc [OF this] assms places_initial_done [OF assms, of h ok] show ?thesis
    by (simp add: tally_simps) (simp add: initial_done_def release_def Let_def filter_remove1 remove1_idem)
qed

lemma initials_pos:
  assumes "(c, Initial) \<in> set (attempts p)"
  shows "0 < initials p \<and> 0 < places p"
proof -
  have "(c, Initial) \<in> set (filter is_initial (attempts p))" using assms by simp
  from length_pos_if_in_set [OF this] length_pos_if_in_set [OF assms] show ?thesis
    unfolding initials_def places_def clients_def by (simp del: length_greater_0_conv)
qed

lemma tally_ok_initial_done:
  assumes "(c, Initial) \<in> set (attempts p)" "tally_ok (tally p)"
  shows "tally_ok (tally (initial_done h c ok p))"
  using assms(2) initials_pos [OF assms(1)] tally_connector [OF assms(2)] unfolding tally_initial_done [OF assms(1)]
  by (auto simp: tally_def)

lemma step_tally: "pool_step p q \<Longrightarrow> tally_ok (tally p) \<Longrightarrow> tally_ok (tally q)"
proof (induction rule: pool_step.induct)
  case (replaces d p)
  then have "has_connector p" by (intro tally_connector) (auto simp: places_def length_pos_if_in_set)
  with replaces show ?case by (simp add: tally_replace)
qed (simp_all add: tally_acquire tally_give_back tally_release_locked tally_attempt tally_replacement_done tally_init
       tally_init_next tally_ok_initial_done)

lemma reachable_tally: "pool_reachable n hc ib mb p \<Longrightarrow> tally_ok (tally p)"
  by (erule reachable_invariant) (simp add: tally_simps places_def clients_def new_pool_def, rule step_tally)


section \<open>Backing off\<close>

definition delays :: "pool \<Rightarrow> int set" where
  "delays p = set (replacing p) \<union> set (scheduled p) \<union> {d. \<exists>c. (c, Replacement d) \<in> set (attempts p)}"

definition delays_ok :: "pool \<Rightarrow> bool" where
  "delays_ok p \<longleftrightarrow> initial_backoff p \<le> max_backoff p \<and> (\<forall>d\<in>delays p. d = 0 \<or> initial_backoff p \<le> d \<and> d \<le> max_backoff p)"

lemma next_backoff_bounds: "ib \<le> mb \<Longrightarrow> ib \<le> next_backoff ib mb d \<and> next_backoff ib mb d \<le> mb"
  by (simp add: next_backoff_def)

lemma remove1_subset: "x \<in> set (remove1 y xs) \<Longrightarrow> x \<in> set xs"
  using set_remove1_subset by fastforce

lemma acquire_delays: "delays (acquire h cb p) \<subseteq> insert 0 (delays p)"
  by (cases "pop_healthy (has_health_check p) h (idle_connections p)")
     (auto simp: delays_def acquire_def call_back_def Let_def split: option.splits)

lemma step_delays:
  "pool_step p q \<Longrightarrow> delays q \<subseteq> {0, initial_backoff p} \<union> next_backoff (initial_backoff p) (max_backoff p) ` delays p \<union> delays p"
proof (induction rule: pool_step.induct)
  case (acquires p h cb) then show ?case using acquire_delays [of h cb p] by blast
next
  case releases then show ?case by (auto simp: delays_def release_locked_def pool_defs split: list.split)
qed (auto simp: delays_def give_back_def replace_def attempt_def replacement_done_def init_def init_next_def initial_done_def
       pool_defs dest: remove1_subset)

lemma step_delays_ok:
  assumes "pool_step p q" "delays_ok p"
  shows "delays_ok q"
  using step_delays [OF assms(1)] assms(2) step_options [OF assms(1)] next_backoff_bounds [of "initial_backoff p" "max_backoff p"]
  by (auto simp: delays_ok_def)

lemma reachable_delays: "pool_reachable n hc ib mb p \<Longrightarrow> ib \<le> mb \<Longrightarrow> delays_ok p"
  by (erule reachable_invariant) (simp add: delays_ok_def delays_def new_pool_def, rule step_delays_ok)

text \<open>The delay before the \<open>k + 1\<close>st attempt in a row that failed, in closed form.\<close>

lemma backoff_sequence:
  assumes "0 < ib" "ib \<le> mb"
  shows "(next_backoff ib mb ^^ Suc k) 0 = min (ib * 2 ^ k) mb"
proof (induction k)
  case (Suc k)
  have "1 \<le> (2 :: int) ^ k" by simp
  then have "ib \<le> ib * 2 ^ k" using assms(1) by (simp add: mult_le_cancel_left1)
  with Suc assms show ?case by (simp add: next_backoff_def)
qed (use assms in \<open>simp add: next_backoff_def\<close>)


section \<open>Progress\<close>

definition can_serve :: "nat \<Rightarrow> pool \<Rightarrow> bool" where
  "can_serve cb p \<longleftrightarrow> (\<exists>q c. pool_step\<^sup>*\<^sup>* p q \<and> served q = served p @ [(cb, c)])"

lemma can_serve_step:
  "pool_step p q \<Longrightarrow> served q = served p \<Longrightarrow> can_serve cb q \<Longrightarrow> can_serve cb p"
  unfolding can_serve_def by (metis converse_rtranclp_into_rtranclp)

lemma serve_returning:
  assumes "c \<in> set (returning p)" "wait_queue p = cb # rest"
  shows "can_serve cb p"
proof -
  have "pool_step p (release_locked c p)" using assms(1) by (rule releases)
  moreover have "served (release_locked c p) = served p @ [(cb, c)]"
    using assms(2) by (simp add: release_locked_def call_back_def Let_def)
  ultimately show ?thesis unfolding can_serve_def by blast
qed

lemma serve_held:
  assumes "c \<in> set (held p)" "wait_queue p = cb # rest"
  shows "can_serve cb p"
  using gives_back [OF assms(1), of "\<lambda>_. True"]
  by (rule can_serve_step) (use assms(2) in \<open>auto simp: give_back_def release_def intro!: serve_returning [of c]\<close>)

lemma serve_attempt:
  assumes "(c, k) \<in> set (attempts p)" "wait_queue p = cb # rest"
  shows "can_serve cb p"
proof (cases k)
  case Initial
  from initial_answers [OF assms(1) [unfolded this], of "\<lambda>_. True" True] show ?thesis
    by (rule can_serve_step)
       (use assms(2) in \<open>auto simp: initial_done_def release_def Let_def intro!: serve_returning [of c]\<close>)
next
  case (Replacement d)
  from replacement_answers [OF assms(1) [unfolded this], of "\<lambda>_. True" True] show ?thesis
    by (rule can_serve_step)
       (use assms(2) in \<open>auto simp: replacement_done_def release_def Let_def intro!: serve_returning [of c]\<close>)
qed

lemma serve_scheduled:
  assumes "d \<in> set (scheduled p)" "wait_queue p = cb # rest"
  shows "can_serve cb p"
  using attempts_again [OF assms(1)]
  by (rule can_serve_step)
     (use assms(2) in \<open>auto simp: attempt_def start_attempt_def intro!: serve_attempt [of "next_client p" "Replacement d"]\<close>)

lemma serve_replacing:
  assumes "d \<in> set (replacing p)" "has_connector p" "wait_queue p = cb # rest"
  shows "can_serve cb p"
  using replaces [OF assms(1)]
  by (rule can_serve_step) (use assms(2,3) in \<open>auto simp: replace_def Let_def intro!: serve_scheduled [of d]\<close>)

lemma serve_init:
  assumes "0 < init_left p" "wait_queue p = cb # rest"
  shows "can_serve cb p"
  using inits_next [OF assms(1)]
  by (rule can_serve_step)
     (use assms(2) in \<open>auto simp: init_next_def start_attempt_def intro!: serve_attempt [of "next_client p" Initial]\<close>)

lemma serve_placed:
  assumes "0 < places p" "idle_connections p = []" "has_connector p" "wait_queue p = cb # rest"
  shows "can_serve cb p"
proof -
  consider "0 < init_left p" | c where "c \<in> set (returning p)" | c where "c \<in> set (held p)"
    | c k where "(c, k) \<in> set (attempts p)" | d where "d \<in> set (scheduled p)" | d where "d \<in> set (replacing p)"
    using assms(1,2) by (auto simp: places_def clients_def neq_Nil_conv) (metis list.set_intros(1) surj_pair)+
  then show ?thesis using assms(3,4)
    by cases (auto intro: serve_init serve_returning serve_held serve_attempt serve_scheduled serve_replacing)
qed


section \<open>Theorems\<close>

text \<open>
  C23: No client is shared, leaked or made in excess. However threads interleave, at any moment a client is in one
  place only (idle, on its way back, held by one caller or being connected), so two callers never hold the same
  one. Once \<^verbatim>\<open>init\<close> was called, clients, replacements under way and attempts still to be made add up to exactly the
  size of the pool with a health check, and without one to the size less the initial attempts that failed;
  \<^verbatim>\<open>reconnecting_count\<close> is exactly the number of replacements under way, so its decrement never underflows.
\<close>

theorem pool_clients_conserved:
  assumes "pool_reachable n hc ib mb p"
  shows "distinct (idle_connections p @ returning p @ held p @ map fst (attempts p)) \<and>
         places p + (if hc then 0 else fail_count p) = (if has_connector p then n else 0) \<and>
         reconnecting_count p = int (replacements p)"
  using reachable_tally [OF assms] reachable_exclusive [OF assms] reachable_options [OF assms]
  by (simp add: tally_def exclusive_def clients_def reconnecting_count_def)

text \<open>A pool of one client that is asked for it before it is connected.\<close>

definition demo_pool :: pool where
  "demo_pool = release_locked 0 (initial_done (\<lambda>_. True) 0 True (init_next (init (acquire (\<lambda>_. True) 7 (new_pool 1 True 100 30000)))))"

lemma demo_pool_reachable: "pool_reachable 1 True 100 30000 demo_pool"
proof -
  let ?a = "acquire (\<lambda>_. True) 7 (new_pool 1 True 100 30000)"
  let ?b = "init_next (init ?a)"
  let ?c = "initial_done (\<lambda>_. True) 0 True ?b"
  have "pool_step\<^sup>*\<^sup>* (new_pool 1 True 100 30000) ?a" by (rule r_into_rtranclp, rule acquires)
  then have "pool_step\<^sup>*\<^sup>* (new_pool 1 True 100 30000) (init ?a)"
    by (rule rtranclp.rtrancl_into_rtrancl) (intro inits, simp add: acquire_def new_pool_def)
  then have "pool_step\<^sup>*\<^sup>* (new_pool 1 True 100 30000) ?b"
    by (rule rtranclp.rtrancl_into_rtrancl) (intro inits_next, simp add: acquire_def init_def new_pool_def)
  then have "pool_step\<^sup>*\<^sup>* (new_pool 1 True 100 30000) ?c"
    by (rule rtranclp.rtrancl_into_rtrancl)
       (intro initial_answers, simp add: acquire_def init_def init_next_def start_attempt_def new_pool_def)
  then have "pool_step\<^sup>*\<^sup>* (new_pool 1 True 100 30000) (release_locked 0 ?c)"
    by (rule rtranclp.rtrancl_into_rtrancl)
       (intro releases, simp add: acquire_def init_def init_next_def initial_done_def release_def start_attempt_def new_pool_def)
  then show ?thesis by (simp add: pool_reachable_def demo_pool_def)
qed

lemma demo_pool_state: "held demo_pool = [0] \<and> served demo_pool = [(7, 0)] \<and> on_ready_calls demo_pool = [True] \<and> has_connector demo_pool"
  by (simp add: demo_pool_def acquire_def init_def init_next_def initial_done_def release_def release_locked_def
        start_attempt_def call_back_def new_pool_def)

theorem pool_clients_conserved_witness:
  "distinct (held demo_pool) \<and> held demo_pool = [0] \<and> places demo_pool = 1"
  using pool_clients_conserved [OF demo_pool_reachable] demo_pool_state by auto

text \<open>
  Callers are served in the order in which they asked: the callbacks called so far followed by those waiting are
  exactly the calls of \<^verbatim>\<open>acquire\<close> in their order, each called once, and nobody waits while a client is idle.
\<close>

theorem pool_fifo:
  assumes "pool_reachable n hc ib mb p"
  shows "map fst (served p) @ wait_queue p = asked p \<and> (idle_count p = 0 \<or> waiting_count p = 0)"
  using reachable_queues [OF assms] by (auto simp: queues_ok_def idle_count_def waiting_count_def)

theorem pool_fifo_witness: "map fst (served demo_pool) @ wait_queue demo_pool = asked demo_pool"
  using pool_fifo [OF demo_pool_reachable] by simp

text \<open>
  C29: A waiting caller is never stranded: in every reachable state of an initialised pool that has a health check (or
  in which some initial attempt has not failed), the first waiting callback can still be called, and it is the
  next one to be.
\<close>

theorem pool_waiter_not_stranded:
  assumes "pool_reachable n hc ib mb p" "has_connector p" "0 < n" "hc \<or> fail_count p < n" "wait_queue p = cb # rest"
  shows "\<exists>q c. pool_step\<^sup>*\<^sup>* p q \<and> served q = served p @ [(cb, c)]"
proof -
  have "0 < places p" using reachable_tally [OF assms(1)] assms(2-4) reachable_options [OF assms(1)]
    by (auto simp: tally_def split: if_splits)
  moreover have "idle_connections p = []" using reachable_queues [OF assms(1)] assms(5) by (auto simp: queues_ok_def)
  ultimately have "can_serve cb p" using assms(2,5) by (rule serve_placed)
  then show ?thesis by (simp add: can_serve_def)
qed

theorem pool_waiter_not_stranded_witness:
  "\<exists>q c. pool_step\<^sup>*\<^sup>* (acquire (\<lambda>_. True) 8 demo_pool) q \<and> served q = [(7, 0), (8, c)]"
proof -
  let ?p = "acquire (\<lambda>_. True) 8 demo_pool"
  have "pool_reachable 1 True 100 30000 ?p"
    using demo_pool_reachable unfolding pool_reachable_def by (rule rtranclp.rtrancl_into_rtrancl) (rule acquires)
  moreover have "has_connector ?p \<and> wait_queue ?p = [8] \<and> served ?p = [(7, 0)]"
    by (simp add: demo_pool_def acquire_def init_def init_next_def initial_done_def release_def release_locked_def
          start_attempt_def call_back_def new_pool_def)
  ultimately show ?thesis using pool_waiter_not_stranded [of 1 True 100 30000 ?p 8 "[]"] by simp
qed

text \<open>
  \<^verbatim>\<open>on_ready\<close> is called exactly once, when the last of the initial attempts has been answered, and tells whether all
  of them succeeded.
\<close>

theorem pool_ready_once:
  assumes "pool_reachable n hc ib mb p"
  shows "on_ready_calls p = (if has_connector p \<and> success_count p + fail_count p = n then [fail_count p = 0] else [])"
  using reachable_tally [OF assms] reachable_options [OF assms] by (simp add: tally_def)

theorem pool_ready_once_witness: "on_ready_calls demo_pool = [True]"
  using pool_ready_once [OF demo_pool_reachable] demo_pool_state by simp

text \<open>
  Reconnecting backs off within its bounds: every delay between attempts is zero (the first attempt) or lies between
  \<^verbatim>\<open>initial_backoff\<close> and \<^verbatim>\<open>max_backoff\<close>; after \<open>k + 1\<close> failures in a row it is \<open>initial_backoff\<close> doubled \<open>k\<close> times, capped.
\<close>

theorem pool_backoff_bounded:
  assumes "pool_reachable n hc ib mb p" "0 < ib" "ib \<le> mb"
  shows "(\<forall>d\<in>delays p. d = 0 \<or> ib \<le> d \<and> d \<le> mb) \<and> (\<forall>k. (next_backoff ib mb ^^ Suc k) 0 = min (ib * 2 ^ k) mb)"
  using reachable_delays [OF assms(1,3)] reachable_options [OF assms(1)] backoff_sequence [OF assms(2,3)]
  by (simp add: delays_ok_def)

theorem pool_backoff_bounded_witness: "(next_backoff 100 30000 ^^ 4) 0 = 800 \<and> delays demo_pool = {}"
proof -
  have "delays demo_pool = {}"
    by (simp add: demo_pool_def acquire_def init_def init_next_def initial_done_def release_def release_locked_def
          start_attempt_def call_back_def new_pool_def delays_def)
  moreover have "\<forall>k. (next_backoff 100 30000 ^^ Suc k) 0 = min (100 * 2 ^ k) 30000"
    by (rule conjunct2 [OF pool_backoff_bounded [OF demo_pool_reachable]]) simp_all
  from spec [OF this, of 3] have "(next_backoff 100 30000 ^^ 4) 0 = (800 :: int)" by (simp del: funpow.simps)
  ultimately show ?thesis by simp
qed

end
