(* ===== verification/Thread_Pool.thy ===== *)
theory Thread_Pool
  imports Orbit_Prelude "HOL-Library.Multiset"
begin

text \<open>
  The thread pool (\<^verbatim>\<open>src/concurrency/ThreadPool.cpp\<close>). A worker is about to take the mutex, asleep on the
  condition variable, running a task, or gone; each step of a worker, each notification, each call of \<^verbatim>\<open>enqueue\<close>
  and the two halves of the destructor are steps of their own, taken in any order. A notification may find
  nobody asleep, and a worker may wake up without one, as the standard allows.

  The theorems: tasks are taken once each and in the order they were queued; no wake-up is lost; and the destructor
  always gets to join every worker, when every task has been run.
\<close>

section \<open>Workers and tasks\<close>

datatype worker = Checking | Sleeping | Running nat | Exited

record ThreadPool =
  workers :: "worker list"
  tasks :: "nat list"
  stop :: bool

text \<open>
  Notifications about to be sent (after \<^verbatim>\<open>enqueue\<close> and by the destructor), and the history of tasks queued, taken and
  finished; a task that throws is finished as well.
\<close>

record thread_pool = ThreadPool +
  notify_ones :: nat
  notify_alls :: bool
  enqueued :: "nat list"
  taken :: "nat list"
  finished :: "(nat \<times> bool) list"

definition new_thread_pool :: "nat \<Rightarrow> thread_pool" where
  "new_thread_pool n =
     \<lparr>workers = replicate n Checking, tasks = [], stop = False, notify_ones = 0, notify_alls = False,
      enqueued = [], taken = [], finished = []\<rparr>"

definition enqueue :: "nat \<Rightarrow> thread_pool \<Rightarrow> thread_pool" where
  "enqueue t p = p\<lparr>tasks := tasks p @ [t], notify_ones := notify_ones p + 1, enqueued := enqueued p @ [t]\<rparr>"

text \<open>The locked part of \<^verbatim>\<open>worker_loop\<close>, from evaluating the condition of \<^verbatim>\<open>wait\<close> on.\<close>

definition worker_locked :: "nat \<Rightarrow> thread_pool \<Rightarrow> thread_pool" where
  "worker_locked i p =
     (if \<not> (stop p \<or> tasks p \<noteq> []) then p\<lparr>workers := (workers p)[i := Sleeping]\<rparr>
      else case tasks p of
          [] \<Rightarrow> p\<lparr>workers := (workers p)[i := Exited]\<rparr>
        | t # rest \<Rightarrow> p\<lparr>workers := (workers p)[i := Running t], tasks := rest, taken := taken p @ [t]\<rparr>)"

text \<open>The end of a task, with or without an exception, which is contained in both cases.\<close>

definition task_ends :: "nat \<Rightarrow> nat \<Rightarrow> bool \<Rightarrow> thread_pool \<Rightarrow> thread_pool" where
  "task_ends i t threw p = p\<lparr>workers := (workers p)[i := Checking], finished := finished p @ [(t, threw)]\<rparr>"

definition wake :: "nat \<Rightarrow> thread_pool \<Rightarrow> thread_pool" where
  "wake i p = p\<lparr>workers := (workers p)[i := Checking]\<rparr>"

definition request_stop :: "thread_pool \<Rightarrow> thread_pool" where
  "request_stop p = p\<lparr>stop := True, notify_alls := True\<rparr>"

definition notify_all :: "thread_pool \<Rightarrow> thread_pool" where
  "notify_all p = p\<lparr>workers := map (\<lambda>w. if w = Sleeping then Checking else w) (workers p), notify_alls := False\<rparr>"

definition joined :: "thread_pool \<Rightarrow> bool" where
  "joined p \<longleftrightarrow> list_all (\<lambda>w. w = Exited) (workers p)"

text \<open>What the threads do by themselves once nothing more is queued from outside.\<close>

inductive own_step :: "thread_pool \<Rightarrow> thread_pool \<Rightarrow> bool" where
  locked: "i < length (workers p) \<Longrightarrow> workers p ! i = Checking \<Longrightarrow> own_step p (worker_locked i p)"
| ends: "i < length (workers p) \<Longrightarrow> workers p ! i = Running t \<Longrightarrow> own_step p (task_ends i t threw p)"
| notifies: "0 < notify_ones p \<Longrightarrow> i < length (workers p) \<Longrightarrow> workers p ! i = Sleeping \<Longrightarrow>
    own_step p (wake i (p\<lparr>notify_ones := notify_ones p - 1\<rparr>))"
| notifies_none: "0 < notify_ones p \<Longrightarrow> Sleeping \<notin> set (workers p) \<Longrightarrow> own_step p (p\<lparr>notify_ones := notify_ones p - 1\<rparr>)"
| notifies_all: "notify_alls p \<Longrightarrow> own_step p (notify_all p)"

text \<open>A task may queue others, also while the pool is being destroyed; anyone else only before.\<close>

inductive thread_step :: "thread_pool \<Rightarrow> thread_pool \<Rightarrow> bool" where
  own: "own_step p q \<Longrightarrow> thread_step p q"
| enqueues: "\<not> stop p \<or> Running t' \<in> set (workers p) \<Longrightarrow> thread_step p (enqueue t p)"
| stops: "\<not> stop p \<Longrightarrow> thread_step p (request_stop p)"
| wakes_up: "i < length (workers p) \<Longrightarrow> workers p ! i = Sleeping \<Longrightarrow> thread_step p (wake i p)"

definition threads_reachable :: "nat \<Rightarrow> thread_pool \<Rightarrow> bool" where
  "threads_reachable n p \<longleftrightarrow> thread_step\<^sup>*\<^sup>* (new_thread_pool n) p"

lemmas thread_ops = enqueue_def worker_locked_def task_ends_def wake_def request_stop_def notify_all_def

lemma threads_invariant:
  assumes "threads_reachable n p" "P (new_thread_pool n)" "\<And>p q. thread_step p q \<Longrightarrow> P p \<Longrightarrow> P q"
  shows "P p"
  using assms unfolding threads_reachable_def by (rule steps_invariant)


section \<open>Tasks\<close>

definition running :: "worker list \<Rightarrow> nat list" where
  "running ws = concat (map (\<lambda>w. case w of Running t \<Rightarrow> [t] | _ \<Rightarrow> []) ws)"

definition tasks_ok :: "thread_pool \<Rightarrow> bool" where
  "tasks_ok p \<longleftrightarrow> taken p @ tasks p = enqueued p \<and> mset (taken p) = mset (running (workers p)) + mset (map fst (finished p))"

text \<open>The effect of setting one worker on a list that is collected from all of them.\<close>

lemma running_Cons: "running (w # ws) = running [w] @ running ws"
  by (simp add: running_def)

lemma mset_running_update:
  "i < length ws \<Longrightarrow>
     mset (running (ws[i := w])) + mset (running [ws ! i]) = mset (running ws) + mset (running [w])"
proof (induction ws arbitrary: i)
  case (Cons v ws)
  show ?case
  proof (cases i)
    case 0 then show ?thesis by (simp add: running_Cons [of _ ws])
  next
    case (Suc j)
    with Cons have "mset (running (ws[j := w])) + mset (running [ws ! j]) = mset (running ws) + mset (running [w])" by simp
    then show ?thesis by (simp add: Suc running_Cons [of v ws] running_Cons [of v "ws[j := w]"] add.assoc)
  qed
qed simp

lemma running_notify_all: "running (map (\<lambda>w. if w = Sleeping then Checking else w) ws) = running ws"
  by (induction ws) (auto simp: running_def split: worker.splits)

lemma mset_running_idle:
  assumes "i < length ws" "running [ws ! i] = []" "running [w] = []"
  shows "mset (running (ws[i := w])) = mset (running ws)"
  using mset_running_update [OF assms(1), of w] assms(2,3) by simp

lemma running_single [simp]:
  "running [Checking] = []" "running [Sleeping] = []" "running [Exited] = []" "running [Running t] = [t]"
  by (simp_all add: running_def)

lemma running_replicate: "running (replicate n Checking) = []"
  by (simp add: running_def)

lemma own_tasks: "own_step p q \<Longrightarrow> tasks_ok p \<Longrightarrow> tasks_ok q"
proof (induction rule: own_step.induct)
  case (locked i p)
  then show ?case using mset_running_update [of i "workers p"]
    by (cases "tasks p") (auto simp: tasks_ok_def worker_locked_def mset_running_idle)
next
  case (ends i p t threw)
  then show ?case using mset_running_update [of i "workers p" Checking] by (auto simp: tasks_ok_def task_ends_def)
qed (auto simp: tasks_ok_def wake_def notify_all_def mset_running_idle running_notify_all)

lemma thread_tasks: "thread_step p q \<Longrightarrow> tasks_ok p \<Longrightarrow> tasks_ok q"
  by (induction rule: thread_step.induct)
     (auto simp: own_tasks, auto simp: tasks_ok_def enqueue_def request_stop_def wake_def mset_running_idle)

lemma reachable_tasks: "threads_reachable n p \<Longrightarrow> tasks_ok p"
  by (erule threads_invariant) (simp add: tasks_ok_def new_thread_pool_def running_replicate, rule thread_tasks)


section \<open>Wake-ups\<close>

definition weight :: "(worker \<Rightarrow> nat) \<Rightarrow> worker list \<Rightarrow> nat" where
  "weight f ws = sum_list (map f ws)"

fun awake :: "worker \<Rightarrow> nat" where
  "awake Checking = 1"
| "awake (Running t) = 1"
| "awake Sleeping = 0"
| "awake Exited = 0"

lemma weight_update: "i < length ws \<Longrightarrow> weight f (ws[i := w]) + f (ws ! i) = weight f ws + f w"
proof (induction ws arbitrary: i)
  case (Cons v ws) then show ?case by (cases i) (auto simp: weight_def)
qed simp

lemma weight_zero: "weight f ws = 0 \<Longrightarrow> w \<in> set ws \<Longrightarrow> f w = 0"
  by (auto simp: weight_def)

lemma weight_all_zero: "\<forall>w\<in>set ws. f w = 0 \<Longrightarrow> weight f ws = 0"
  by (simp add: weight_def)

definition wakeups_ok :: "thread_pool \<Rightarrow> bool" where
  "wakeups_ok p \<longleftrightarrow>
     (Sleeping \<in> set (workers p) \<longrightarrow> length (tasks p) \<le> notify_ones p + weight awake (workers p)) \<and>
     (stop p \<and> \<not> notify_alls p \<longrightarrow> Sleeping \<notin> set (workers p)) \<and>
     (Exited \<in> set (workers p) \<longrightarrow> stop p) \<and>
     (joined p \<longrightarrow> workers p = [] \<or> tasks p = [])"

lemma set_update_other: "v \<in> set (ws[i := w]) \<Longrightarrow> v = w \<or> v \<in> set ws"
  using set_update_subset_insert [of ws i w] by auto

lemma joined_update: "i < length ws \<Longrightarrow> w \<noteq> Exited \<Longrightarrow> \<not> list_all (\<lambda>w. w = Exited) (ws[i := w])"
  by (auto simp: list_all_iff dest: set_update_memI)

lemma locked_wakeups:
  assumes "i < length (workers p)" "workers p ! i = Checking" "wakeups_ok p"
  shows "wakeups_ok (worker_locked i p)"
proof (cases "tasks p")
  case Nil
  show ?thesis
  proof (cases "stop p")
    case True with Nil assms show ?thesis
      by (auto simp: wakeups_ok_def worker_locked_def joined_def dest: set_update_other)
  next
    case False with Nil assms joined_update [OF assms(1), of Sleeping] show ?thesis
      by (auto simp: wakeups_ok_def worker_locked_def joined_def dest: set_update_other)
  qed
next
  case (Cons t rest)
  with assms weight_update [OF assms(1), of awake "Running t"] joined_update [OF assms(1), of "Running t"] show ?thesis
    by (auto simp: wakeups_ok_def worker_locked_def joined_def dest: set_update_other)
qed

lemma own_wakeups: "own_step p q \<Longrightarrow> wakeups_ok p \<Longrightarrow> wakeups_ok q"
proof (induction rule: own_step.induct)
  case locked then show ?case by (simp add: locked_wakeups)
next
  case (ends i p t threw)
  with weight_update [OF ends(1), of awake Checking] joined_update [OF ends(1), of Checking] show ?case
    by (auto simp: wakeups_ok_def task_ends_def joined_def dest: set_update_other)
next
  case (notifies p i)
  with weight_update [OF notifies(2), of awake Checking] joined_update [OF notifies(2), of Checking] show ?case
    by (auto simp: wakeups_ok_def wake_def joined_def dest: set_update_other)
next
  case (notifies_all p)
  then show ?case by (auto simp: wakeups_ok_def notify_all_def joined_def list_all_iff split: if_splits)
qed (auto simp: wakeups_ok_def joined_def)

lemma thread_wakeups: "thread_step p q \<Longrightarrow> wakeups_ok p \<Longrightarrow> wakeups_ok q"
proof (induction rule: thread_step.induct)
  case own then show ?case by (simp add: own_wakeups)
next
  case (enqueues p t' t)
  then have "\<not> joined p \<or> workers p = []" by (auto simp: wakeups_ok_def joined_def list_all_iff neq_Nil_conv)
  with enqueues show ?case by (auto simp: wakeups_ok_def enqueue_def joined_def)
next
  case (wakes_up i p)
  with weight_update [OF wakes_up(1), of awake Checking] joined_update [OF wakes_up(1), of Checking] show ?case
    by (auto simp: wakeups_ok_def wake_def joined_def dest: set_update_other)
qed (auto simp: wakeups_ok_def request_stop_def joined_def)

lemma reachable_wakeups: "threads_reachable n p \<Longrightarrow> wakeups_ok p"
  by (erule threads_invariant) (simp add: wakeups_ok_def new_thread_pool_def, rule thread_wakeups)

lemma own_keeps: "own_step p q \<Longrightarrow> length (workers q) = length (workers p) \<and> stop q = stop p"
  by (induction rule: own_step.induct) (auto simp: thread_ops split: list.split)

lemma thread_size: "thread_step p q \<Longrightarrow> length (workers q) = length (workers p)"
  by (induction rule: thread_step.induct) (auto simp: own_keeps thread_ops)

lemma reachable_size: "threads_reachable n p \<Longrightarrow> length (workers p) = n"
  unfolding threads_reachable_def
  by (induction rule: rtranclp_induct) (auto simp: new_thread_pool_def thread_size)

lemma reachable_own: "own_step\<^sup>*\<^sup>* p q \<Longrightarrow> threads_reachable n p \<Longrightarrow> threads_reachable n q"
  unfolding threads_reachable_def by (induction rule: rtranclp_induct) (auto intro: own rtranclp.rtrancl_into_rtrancl)

text \<open>When no thread can go on, every worker is asleep or gone and no notification is under way.\<close>

lemma quiescent:
  assumes "\<nexists>q. own_step p q"
  shows "(\<forall>w\<in>set (workers p). w = Sleeping \<or> w = Exited) \<and> notify_ones p = 0 \<and> \<not> notify_alls p"
proof -
  have "w = Sleeping \<or> w = Exited" if w: "w \<in> set (workers p)" for w
  proof -
    obtain i where i: "i < length (workers p)" "workers p ! i = w" using w unfolding in_set_conv_nth by blast
    show ?thesis
    proof (cases w)
      case Checking with i assms locked [of i p] show ?thesis by blast
    next
      case (Running t) with i assms ends [of i p t] show ?thesis by blast
    qed simp_all
  qed
  moreover have "notify_ones p = 0" using assms notifies notifies_none by (metis in_set_conv_nth neq0_conv)
  moreover have "\<not> notify_alls p" using assms notifies_all by blast
  ultimately show ?thesis by blast
qed


section \<open>Shutting down\<close>

fun work_left :: "worker \<Rightarrow> nat" where
  "work_left Checking = 1"
| "work_left Sleeping = 2"
| "work_left (Running t) = 2"
| "work_left Exited = 0"

definition shutdown_work :: "thread_pool \<Rightarrow> nat" where
  "shutdown_work p =
     weight work_left (workers p) + 2 * length (tasks p) + notify_ones p + (if notify_alls p then 1 else 0)"

lemma weight_notify_all:
  "weight work_left (map (\<lambda>w. if w = Sleeping then Checking else w) ws) \<le> weight work_left ws"
  by (induction ws) (auto simp: weight_def)

lemma own_work: "own_step p q \<Longrightarrow> stop p \<Longrightarrow> shutdown_work q < shutdown_work p"
proof (induction rule: own_step.induct)
  case (locked i p)
  show ?case
  proof (cases "tasks p")
    case Nil with locked weight_update [OF locked(1), of work_left Exited] show ?thesis
      by (simp add: shutdown_work_def worker_locked_def)
  next
    case (Cons t rest) with locked weight_update [OF locked(1), of work_left "Running t"] show ?thesis
      by (simp add: shutdown_work_def worker_locked_def)
  qed
next
  case (ends i p t threw) with weight_update [OF ends(1), of work_left Checking] show ?case
    by (simp add: shutdown_work_def task_ends_def)
next
  case (notifies p i) with weight_update [OF notifies(2), of work_left Checking] show ?case
    by (simp add: shutdown_work_def wake_def)
next
  case (notifies_all p) with weight_notify_all [of "workers p"] show ?case
    by (simp add: shutdown_work_def notify_all_def)
qed (simp add: shutdown_work_def)

lemma no_infinite_shutdown:
  assumes "stop (f 0)" "\<forall>k. own_step (f k) (f (Suc k))"
  shows False
proof -
  have "stop (f k)" for k using assms by (induction k) (auto dest: own_keeps)
  then have "shutdown_work (f (Suc k)) < shutdown_work (f k)" for k using assms(2) own_work by blast
  then have "\<forall>k. (f (Suc k), f k) \<in> measure shutdown_work" by simp
  then show False using wf_measure [of shutdown_work] unfolding wf_iff_no_infinite_down_chain by blast
qed

lemma all_run_when_joined:
  assumes "threads_reachable n q" "0 < n" "stop q" "\<nexists>r. own_step q r"
  shows "joined q \<and> tasks q = [] \<and> mset (map fst (finished q)) = mset (enqueued q)"
proof -
  note q = quiescent [OF assms(4)] reachable_wakeups [OF assms(1)] reachable_tasks [OF assms(1)] reachable_size [OF assms(1)]
  have "Sleeping \<notin> set (workers q)" using q(1,2) assms(3) by (simp add: wakeups_ok_def)
  with q(1) have j: "joined q" by (auto simp: joined_def list_all_iff)
  then have "tasks q = []" using q(2,4) assms(2) by (auto simp: wakeups_ok_def)
  moreover have "running (workers q) = []" using j by (auto simp: running_def joined_def list_all_iff)
  ultimately show ?thesis using j q(3) by (auto simp: tasks_ok_def)
qed


section \<open>Theorems\<close>

text \<open>
  Tasks are taken in the order they were queued and each exactly once: those taken so far followed by the queue are the
  tasks queued; every task taken is being run by one worker or finished, whether it threw or not.
\<close>

theorem thread_pool_fifo:
  assumes "threads_reachable n p"
  shows "taken p @ tasks p = enqueued p \<and> mset (taken p) = mset (running (workers p)) + mset (map fst (finished p))"
  using reachable_tasks [OF assms] by (simp add: tasks_ok_def)

lemma new_thread_pool_reachable: "threads_reachable n (new_thread_pool n)"
  by (simp add: threads_reachable_def)

lemma threads_reachable_step: "threads_reachable n p \<Longrightarrow> thread_step p q \<Longrightarrow> threads_reachable n q"
  unfolding threads_reachable_def by (rule rtranclp.rtrancl_into_rtrancl)

definition demo_threads :: thread_pool where
  "demo_threads = request_stop (enqueue 5 (new_thread_pool 2))"

lemma demo_threads_reachable: "threads_reachable 2 demo_threads"
  unfolding demo_threads_def
  by (intro threads_reachable_step [OF threads_reachable_step [OF new_thread_pool_reachable enqueues] stops])
     (simp_all add: new_thread_pool_def enqueue_def)

theorem thread_pool_fifo_witness: "taken demo_threads @ tasks demo_threads = [5]"
  using thread_pool_fifo [OF demo_threads_reachable]
  by (simp add: demo_threads_def request_stop_def enqueue_def new_thread_pool_def)

text \<open>
  No wake-up is lost: whenever none of the threads can go on by itself, in a pool that has workers and is not being
  destroyed, no task is waiting.
\<close>

theorem no_lost_wakeup:
  assumes "threads_reachable n p" "0 < n" "\<not> stop p" "\<nexists>q. own_step p q"
  shows "tasks p = []"
proof -
  note q = quiescent [OF assms(4)] reachable_wakeups [OF assms(1)] reachable_size [OF assms(1)]
  have "\<forall>w\<in>set (workers p). w = Sleeping" using q(1,2) assms(3) by (auto simp: wakeups_ok_def)
  moreover from this have "Sleeping \<in> set (workers p)" using q(3) assms(2) by (cases "workers p") auto
  moreover from calculation have "weight awake (workers p) = 0" by (intro weight_all_zero) auto
  ultimately show ?thesis using q(1,2) by (auto simp: wakeups_ok_def)
qed

theorem no_lost_wakeup_witness: "tasks (worker_locked 0 (new_thread_pool 1)) = []"
proof -
  let ?p = "worker_locked 0 (new_thread_pool 1)"
  have s: "?p = \<lparr>workers = [Sleeping], tasks = [], stop = False, notify_ones = 0, notify_alls = False, enqueued = [], taken = [], finished = []\<rparr>"
    by (simp add: new_thread_pool_def worker_locked_def)
  have "threads_reachable 1 ?p"
    by (intro threads_reachable_step [OF new_thread_pool_reachable] own locked) (simp_all add: new_thread_pool_def)
  moreover have "\<nexists>q. own_step ?p q" unfolding s by (auto elim!: own_step.cases)
  moreover have "\<not> stop ?p" by (simp add: s del: One_nat_def)
  ultimately show ?thesis using no_lost_wakeup [of 1 ?p] by simp
qed

text \<open>
  C27: The destructor returns and nothing queued is dropped: once the flag is set, and as long as no task queues further tasks
  (one that queued itself again would go on for ever), the threads can take only finitely many further steps, in whatever order, and
  when they can take none every worker has ended (so \<^verbatim>\<open>join\<close> returns), the queue is empty and every task that was ever
  queued has been run to its end exactly once.
\<close>

theorem thread_pool_shuts_down:
  assumes "threads_reachable n p" "0 < n" "stop p"
  shows "(\<nexists>f. f 0 = p \<and> (\<forall>k. own_step (f k) (f (Suc k)))) \<and>
         (\<forall>q. own_step\<^sup>*\<^sup>* p q \<and> (\<nexists>r. own_step q r) \<longrightarrow>
              joined q \<and> tasks q = [] \<and> mset (map fst (finished q)) = mset (enqueued q))"
proof -
  have "stop q" if "own_step\<^sup>*\<^sup>* p q" for q
    using that by (induction rule: rtranclp_induct) (use assms(3) in \<open>auto dest: own_keeps\<close>)
  then show ?thesis
    using no_infinite_shutdown assms(3) all_run_when_joined [OF _ assms(2)] reachable_own [OF _ assms(1)] by blast
qed

theorem thread_pool_shuts_down_witness:
  "(\<nexists>f. f 0 = demo_threads \<and> (\<forall>k. own_step (f k) (f (Suc k)))) \<and> stop demo_threads"
  using thread_pool_shuts_down [OF demo_threads_reachable]
  by (simp add: demo_threads_def request_stop_def)

end
