(* ===== verification/Connection_Output.thy ===== *)
theory Connection_Output
  imports Response_Writer
begin

text \<open>
  The writing half of an HTTP/1 connection (\<^verbatim>\<open>src/server/Connection.cpp\<close>): how a response becomes bytes (\<^verbatim>\<open>send\<close>,
  \<^verbatim>\<open>send_headers\<close>, \<^verbatim>\<open>write_chunk\<close>, \<^verbatim>\<open>end\<close>, \<^verbatim>\<open>send_sse_event\<close>), and how queued bytes and files reach the socket
  (\<^verbatim>\<open>send_data\<close>, \<^verbatim>\<open>trigger_write\<close> and the completion callbacks) without TLS. Any number of threads queue data while one
  of them owns the write; the sections between two atomic accesses are single steps, taken in any order.

  The theorems: a streamed body is read back by any chunked decoder and an event by any event-stream reader; what is on
  the wire is always a prefix of what was queued; queued output is never left behind; and the connection is closed on request
  only when everything is on the wire.
\<close>

section \<open>Responses as bytes\<close>

text \<open>What \<^verbatim>\<open>send\<close> and \<^verbatim>\<open>send_headers\<close> do to a response before it is serialised.\<close>

definition connection_header :: "bool \<Rightarrow> HttpResponse \<Rightarrow> HttpResponse" where
  "connection_header close r = res_header ''Connection'' (if close then ''close'' else ''keep-alive'') r"

definition send_bytes :: "string \<Rightarrow> bool \<Rightarrow> bool \<Rightarrow> 'x writer_scheme \<Rightarrow> HttpResponse \<Rightarrow> string" where
  "send_bytes now should_close is_head w res =
     (let r = connection_header should_close (prepare_response w res)
      in if is_head then serialize_headers now r
         else if file_fd r \<noteq> - 1 then serialize_headers now r
         else serialize now r)"

text \<open>The bytes of \<^verbatim>\<open>send_headers\<close>, and whether the body that follows is chunked.\<close>

definition send_headers_bytes :: "string \<Rightarrow> bool \<Rightarrow> 'x writer_scheme \<Rightarrow> HttpResponse \<Rightarrow> string \<times> bool" where
  "send_headers_bytes now should_close w res =
     (let r = connection_header should_close (prepare_response w res)
      in if hdr_find ''Content-Length'' (res_headers r) = None
         then (serialize_headers now (res_header ''Transfer-Encoding'' ''chunked'' r), True)
         else (serialize_headers now r, False))"

definition format_chunk :: "string \<Rightarrow> string" where
  "format_chunk chunk = show_hex (length chunk) @ CRLF @ chunk @ CRLF"

definition write_chunk :: "bool \<Rightarrow> bool \<Rightarrow> string \<Rightarrow> string" where
  "write_chunk is_head response_chunked chunk =
     (if is_head then [] else if response_chunked then format_chunk chunk else chunk)"

definition last_chunk :: string where
  "last_chunk = ''0'' @ CRLF @ CRLF"

definition end_bytes :: "bool \<Rightarrow> bool \<Rightarrow> string" where
  "end_bytes is_head response_chunked = (if response_chunked \<and> \<not> is_head then last_chunk else [])"

function sse_data :: "string \<Rightarrow> string" where
  "sse_data s =
     (if s = [] then []
      else case split_at LF s of
             (l, None) \<Rightarrow> ''data: '' @ l @ [LF]
           | (l, Some rest) \<Rightarrow> ''data: '' @ l @ [LF] @ sse_data rest)"
  by pat_completeness auto
termination by (relation "measure length") (auto dest: split_at_shrinks sym)

declare sse_data.simps [simp del]

definition sse_message :: "string \<Rightarrow> string \<Rightarrow> string \<Rightarrow> string" where
  "sse_message data event ident =
     (if event \<noteq> [] then ''event: '' @ event @ [LF] else []) @
     (if ident \<noteq> [] then ''id: '' @ ident @ [LF] else []) @ sse_data data @ [LF]"

definition send_sse_event :: "bool \<Rightarrow> bool \<Rightarrow> string \<Rightarrow> string \<Rightarrow> string \<Rightarrow> string" where
  "send_sse_event is_head response_chunked data event ident = write_chunk is_head response_chunked (sse_message data event ident)"


section \<open>Reading a chunked body\<close>

text \<open>
  The reference: a client's decoder. A chunk is its size in hexadecimal digits, a line end, that many bytes and a line
  end; a chunk of size zero ends the body (trailer fields are not considered).
\<close>

function read_chunks :: "string \<Rightarrow> (string \<times> string) option" where
  "read_chunks s =
     (let size_text = takeWhile (\<lambda>c. c \<noteq> CR) s; n = hex_value size_text; s' = drop (length size_text + 2) s
      in if size_text = [] \<or> take 2 (drop (length size_text) s) \<noteq> CRLF \<or> take 2 (drop n s') \<noteq> CRLF then None
         else if n = 0 then Some ([], drop 2 s')
         else map_option (\<lambda>(body, rest). (take n s' @ body, rest)) (read_chunks (drop (n + 2) s')))"
  by pat_completeness auto
termination
proof (relation "measure length", goal_cases)
  case (2 s size_text n s')
  then have "s \<noteq> []" by auto
  with 2 show ?case by simp
qed simp

declare read_chunks.simps [simp del]

lemma hex_lower_value:
  assumes "n < 16"
  shows "hexval (hex_lower n) = Some n" "CR \<noteq> hex_lower n"
proof -
  have "\<forall>i\<in>set [0..<16]. hexval (hex_lower i) = Some i \<and> CR \<noteq> hex_lower i" by code_simp
  with assms show "hexval (hex_lower n) = Some n" "CR \<noteq> hex_lower n" by simp_all
qed

lemma show_hex_value: "hex_value (show_hex n) = n \<and> CR \<notin> set (show_hex n) \<and> show_hex n \<noteq> []"
proof (induction n rule: show_hex.induct)
  case (1 n)
  show ?case
  proof (cases "n < 16")
    case True then show ?thesis using hex_lower_value [of n] by (simp add: show_hex.simps [of n] hex_value_def)
  next
    case False
    with 1 hex_lower_value [of "n mod 16"] show ?thesis by (simp add: show_hex.simps [of n] hex_value_def)
  qed
qed

lemma takeWhile_CR: "CR \<notin> set a \<Longrightarrow> takeWhile (\<lambda>c. c \<noteq> CR) (a @ CRLF @ s) = a"
  by (simp add: takeWhile_append takeWhile_eq_all_conv)

lemma read_format_chunk:
  assumes "chunk \<noteq> []"
  shows "read_chunks (format_chunk chunk @ s) = map_option (\<lambda>(body, rest). (chunk @ body, rest)) (read_chunks s)"
proof -
  have t: "takeWhile (\<lambda>c. c \<noteq> CR) (format_chunk chunk @ s) = show_hex (length chunk)"
    using takeWhile_CR [of "show_hex (length chunk)" "chunk @ CRLF @ s"] show_hex_value [of "length chunk"]
    by (simp add: format_chunk_def)
  show ?thesis
    by (subst read_chunks.simps, unfold Let_def t)
       (use show_hex_value [of "length chunk"] assms in \<open>simp add: format_chunk_def\<close>)
qed

lemma read_last_chunk: "read_chunks (last_chunk @ s) = Some ([], s)"
  by (subst read_chunks.simps) (simp add: last_chunk_def hex_value_def hexval_def byte_of_def)


lemma read_chunked_body:
  "\<forall>c\<in>set cs. c \<noteq> [] \<Longrightarrow> read_chunks (concat (map format_chunk cs) @ last_chunk @ s) = Some (concat cs, s)"
  by (induction cs) (simp_all add: read_last_chunk read_format_chunk)


section \<open>Reading an event stream\<close>

text \<open>
  The reference: a client's reader of one event. A line ends with CR, LF or both; an empty line ends the event; a
  line is a field name, a colon and a value, from which one leading space is taken; the values of several data lines are
  joined with line feeds.
\<close>

fun line_ends :: "string \<Rightarrow> string" where
  "line_ends [] = []"
| "line_ends (c # s) =
     (if c = CR then LF # line_ends (if s \<noteq> [] \<and> hd s = LF then tl s else s) else c # line_ends s)"

record sse_event =
  sse_name :: string
  sse_ident :: string
  sse_lines :: "string list"

definition sse_field :: "string \<Rightarrow> sse_event \<Rightarrow> sse_event" where
  "sse_field line e =
     (case split_at (CHR '':'') line of (name, v) \<Rightarrow>
        let val = (case v of None \<Rightarrow> [] | Some x \<Rightarrow> if x \<noteq> [] \<and> hd x = CHR '' '' then tl x else x)
        in if name = ''data'' then e\<lparr>sse_lines := sse_lines e @ [val]\<rparr>
           else if name = ''event'' then e\<lparr>sse_name := val\<rparr>
           else if name = ''id'' then e\<lparr>sse_ident := val\<rparr> else e)"

fun read_event_lines :: "string list \<Rightarrow> sse_event \<Rightarrow> sse_event" where
  "read_event_lines [] e = e"
| "read_event_lines (line # lines) e = (if line = [] then e else read_event_lines lines (sse_field line e))"

definition read_event :: "string \<Rightarrow> string \<times> string \<times> string" where
  "read_event s =
     (let e = read_event_lines (split_on LF (line_ends s)) \<lparr>sse_name = [], sse_ident = [], sse_lines = []\<rparr>
      in (sse_name e, sse_ident e, join [LF] (sse_lines e)))"

lemma line_ends_id: "CR \<notin> set s \<Longrightarrow> line_ends s = s"
  by (induction s) auto

lemma sse_data_no_CR: "CR \<notin> set s \<Longrightarrow> CR \<notin> set (sse_data s)"
proof (induction s rule: sse_data.induct)
  case (1 s)
  obtain l r where c: "split_at LF s = (l, r)" by fastforce
  show ?case
  proof (cases "s = []")
    case False
    show ?thesis
    proof (cases r)
      case None with c False "1.prems" show ?thesis by (auto simp: sse_data.simps [of s] split_at_eq_None)
    next
      case (Some rest)
      with c have s: "s = l @ LF # rest" by (simp add: split_at_eq_Some)
      have "sse_data s = ''data: '' @ l @ [LF] @ sse_data rest" using c Some False by (simp add: sse_data.simps [of s])
      with "1.IH" [OF False c [symmetric] Some] "1.prems" s show ?thesis by auto
    qed
  qed (simp add: sse_data.simps [of "[]"])
qed

lemma sse_data_field: "sse_field (''data: '' @ l) e = e\<lparr>sse_lines := sse_lines e @ [l]\<rparr>"
  by (simp add: sse_field_def)

text \<open>Reading the data lines: a final line feed of the data does not come back.\<close>

definition sse_payload :: "string \<Rightarrow> string list" where
  "sse_payload s = (if s = [] then [] else if last s = LF then butlast (split_on LF s) else split_on LF s)"

lemma sse_payload_split:
  assumes "LF \<notin> set l"
  shows "sse_payload (l @ LF # rest) = l # sse_payload rest"
proof (cases "rest = []")
  case True
  have "split_on LF [] = [[]]" by (simp add: split_on_notin)
  then show ?thesis using True assms by (simp add: sse_payload_def split_on_append)
next
  case False then show ?thesis using assms by (simp add: sse_payload_def split_on_append)
qed

lemma read_sse_data:
  "read_event_lines (split_on LF (sse_data s @ [LF])) e = e\<lparr>sse_lines := sse_lines e @ sse_payload s\<rparr>"
proof (induction s arbitrary: e rule: sse_data.induct)
  case (1 s)
  obtain l r where c: "split_at LF s = (l, r)" by fastforce
  have nl: "split_on LF [LF] = [[], []]"
    using split_on_append [of LF "[]" "[]"] by (simp add: split_on_notin)
  show ?case
  proof (cases "s = []")
    case True then show ?thesis by (simp add: sse_data.simps [of "[]"] sse_payload_def nl)
  next
    case False
    show ?thesis
    proof (cases r)
      case None
      with c have s: "l = s" "LF \<notin> set s" by (simp_all add: split_at_eq_None)
      then have "last s \<noteq> LF" using False last_in_set by metis
      then have "sse_payload s = [s]" using s False by (simp add: sse_payload_def split_on_notin)
      moreover have "sse_data s = ''data: '' @ s @ [LF]" using c None s False by (simp add: sse_data.simps [of s])
      moreover have "split_on LF ((''data: '' @ s) @ LF # [LF]) = (''data: '' @ s) # [[], []]"
        using split_on_append [of LF "''data: '' @ s" "[LF]"] s nl by simp
      ultimately show ?thesis using sse_data_field [of s e] by simp
    next
      case (Some rest)
      with c have s: "s = l @ LF # rest" "LF \<notin> set l" by (simp_all add: split_at_eq_Some)
      have "sse_data s = ''data: '' @ l @ [LF] @ sse_data rest" using c Some False by (simp add: sse_data.simps [of s])
      moreover have "split_on LF ((''data: '' @ l) @ LF # (sse_data rest @ [LF])) =
          (''data: '' @ l) # split_on LF (sse_data rest @ [LF])"
        using s(2) by (intro split_on_append) simp
      ultimately show ?thesis
        using "1.IH" [OF False c [symmetric] Some, of "e\<lparr>sse_lines := sse_lines e @ [l]\<rparr>"] sse_data_field [of l e]
          sse_payload_split [OF s(2), of rest] s(1) by simp
    qed
  qed
qed


lemma sse_head_fields:
  "sse_field (''event: '' @ v) e = e\<lparr>sse_name := v\<rparr>" "sse_field (''id: '' @ v) e = e\<lparr>sse_ident := v\<rparr>"
  by (simp_all add: sse_field_def)

lemma read_event_head:
  assumes "LF \<notin> set v" "name \<noteq> []" "LF \<notin> set name"
  shows "read_event_lines (split_on LF ((name @ v) @ LF # s)) e = read_event_lines (split_on LF s) (sse_field (name @ v) e)"
proof -
  have "split_on LF ((name @ v) @ LF # s) = (name @ v) # split_on LF s" using assms by (intro split_on_append) simp
  with assms(2) show ?thesis by simp
qed

lemma read_sse_message:
  assumes "CR \<notin> set data" "LF \<notin> set event" "CR \<notin> set event" "LF \<notin> set ident" "CR \<notin> set ident"
  shows "read_event (sse_message data event ident) = (event, ident, join [LF] (sse_payload data))"
proof -
  let ?d = "sse_data data @ [LF]"
  let ?i = "(if ident \<noteq> [] then (''id: '' @ ident) @ LF # ?d else ?d)"
  have m: "sse_message data event ident = (if event \<noteq> [] then (''event: '' @ event) @ LF # ?i else ?i)"
    by (simp add: sse_message_def)
  have le: "line_ends (sse_message data event ident) = sse_message data event ident"
    using assms sse_data_no_CR [of data] by (intro line_ends_id) (auto simp: sse_message_def)
  have i: "read_event_lines (split_on LF ?i) e = e\<lparr>sse_ident := (if ident \<noteq> [] then ident else sse_ident e), sse_lines := sse_lines e @ sse_payload data\<rparr>" for e
    using read_event_head [of ident "''id: ''" ?d e] assms(4) by (auto simp: read_sse_data sse_head_fields [unfolded append.simps])
  have "read_event_lines (split_on LF (sse_message data event ident)) e =
      e\<lparr>sse_name := (if event \<noteq> [] then event else sse_name e), sse_ident := (if ident \<noteq> [] then ident else sse_ident e),
        sse_lines := sse_lines e @ sse_payload data\<rparr>" for e
    unfolding m using read_event_head [of event "''event: ''" ?i e] assms(2) by (auto simp: i sse_head_fields [unfolded append.simps])
  then show ?thesis by (simp add: read_event_def le Let_def)
qed

lemma sse_payload_join: "data = [] \<or> last data \<noteq> LF \<Longrightarrow> join [LF] (sse_payload data) = data"
  by (auto simp: sse_payload_def join_split_on)


section \<open>The output queue\<close>

text \<open>
  Where the thread is that set \<^verbatim>\<open>is_writing_\<close> (the flag is set exactly when it is not \<open>NotWriting\<close>): about to look at the
  buffers, waiting for a write or for a file to be sent, or about to clear the flag.
\<close>

datatype writer_at = NotWriting | Holding | Writing | SendingFile | Releasing

text \<open>
  \<open>heads\<close> are the threads in \<^verbatim>\<open>send\<close> that have set the file of a response and are about to queue its head, each with that head and
  whether the connection is to close after it; \<open>callers\<close> threads are about to call \<^verbatim>\<open>trigger_write\<close>, \<open>checkers\<close> have cleared the flag
  and are about to look for pending output.

  The other fields record what happened. \<open>wire\<close> is what the socket has taken, each byte marked with whether it came from a file;
  \<open>queued\<close> are all the data that were queued and \<open>files_queued\<close> the bytes of all files that were set, in order; \<open>due\<close> has for each of
  the latter how many bytes of data were queued when its file was set, or when the writer last turned to it; \<open>resumes\<close> counts the calls of
  \<^verbatim>\<open>continue_after_response\<close> for a file that was sent, \<open>closed_with\<close> is what had been queued when the connection was closed on request.
\<close>

record out_conn =
  write_buffer :: string
  active_write_buffer :: string
  out_fd :: int
  out_size :: int
  out_offset :: int
  close_after_write :: bool
  resume_after_write :: bool
  is_removed :: bool
  writer_at :: writer_at
  heads :: "(string \<times> bool) list"
  callers :: nat
  checkers :: nat
  wire :: "(bool \<times> char) list"
  queued :: string
  files_queued :: string
  due :: "nat list"
  resumes :: nat
  closed_with :: "(string \<times> string) option"

definition new_out :: out_conn where
  "new_out =
     \<lparr>write_buffer = [], active_write_buffer = [], out_fd = - 1, out_size = 0, out_offset = 0, close_after_write = False,
      resume_after_write = False, is_removed = False, writer_at = NotWriting, heads = [], callers = 0, checkers = 0, wire = [], queued = [],
      files_queued = [], due = [], resumes = 0, closed_with = None\<rparr>"

definition data_of :: "(bool \<times> char) list \<Rightarrow> string" where
  "data_of w = map snd (filter (\<lambda>b. \<not> fst b) w)"

definition files_of :: "(bool \<times> char) list \<Rightarrow> string" where
  "files_of w = map snd (filter fst w)"

definition send_data :: "string \<Rightarrow> bool \<Rightarrow> out_conn \<Rightarrow> out_conn" where
  "send_data data close_after c =
     c\<lparr>write_buffer := write_buffer c @ data, close_after_write := close_after_write c \<or> close_after,
       queued := queued c @ data, callers := callers c + 1\<rparr>"

definition mark_for_close :: "out_conn \<Rightarrow> out_conn" where
  "mark_for_close c = send_data [] True c"

text \<open>All data that were queued are due before a byte of the file that the writer turns to.\<close>

definition turn_to_file :: "out_conn \<Rightarrow> nat list" where
  "turn_to_file c =
     (let k = length (files_of (wire c)) in take k (due c) @ replicate (length (due c) - k) (length (queued c)))"

text \<open>\<^verbatim>\<open>trigger_write\<close>: taking the flag, the section under \<^verbatim>\<open>write_mutex_\<close>, and clearing the flag.\<close>

definition take_flag :: "out_conn \<Rightarrow> out_conn" where
  "take_flag c = c\<lparr>callers := callers c - 1, writer_at := (if writer_at c = NotWriting then Holding else writer_at c)\<rparr>"

definition write_locked :: "out_conn \<Rightarrow> out_conn" where
  "write_locked c0 =
     (let c = (if active_write_buffer c0 = [] \<and> write_buffer c0 \<noteq> []
               then c0\<lparr>active_write_buffer := write_buffer c0, write_buffer := []\<rparr> else c0)
      in if active_write_buffer c \<noteq> [] then c\<lparr>writer_at := (if is_removed c then NotWriting else Writing)\<rparr>
         else if out_fd c \<noteq> - 1 \<and> out_size c > out_offset c
         then c\<lparr>writer_at := (if is_removed c then NotWriting else SendingFile), due := turn_to_file c\<rparr>
         else c\<lparr>out_fd := (if out_fd c \<noteq> - 1 \<and> out_offset c \<ge> out_size c then - 1 else out_fd c), writer_at := Releasing\<rparr>)"

definition clear_flag :: "out_conn \<Rightarrow> out_conn" where
  "clear_flag c = c\<lparr>writer_at := NotWriting, checkers := checkers c + 1\<rparr>"

definition output_pending :: "out_conn \<Rightarrow> bool" where
  "output_pending c \<longleftrightarrow>
     write_buffer c \<noteq> [] \<or> active_write_buffer c \<noteq> [] \<or> (out_fd c \<noteq> - 1 \<and> out_offset c < out_size c)"

text \<open>\<^verbatim>\<open>has_pending_output\<close> and what follows it in \<^verbatim>\<open>trigger_write\<close>.\<close>

definition check_output :: "out_conn \<Rightarrow> out_conn" where
  "check_output c0 =
     (let c = c0\<lparr>checkers := checkers c0 - 1\<rparr>
      in if output_pending c then c\<lparr>callers := callers c + 1\<rparr>
         else let resume = resume_after_write c; c' = c\<lparr>resume_after_write := False\<rparr>
              in if close_after_write c
                 then c'\<lparr>is_removed := True, closed_with := (if is_removed c then closed_with c else Some (queued c, files_queued c))\<rparr>
                 else if resume then c'\<lparr>resumes := resumes c + 1\<rparr> else c')"

text \<open>The completion callbacks: progress, a socket that is not ready, or a failure.\<close>

definition on_write_complete :: "nat \<Rightarrow> out_conn \<Rightarrow> out_conn" where
  "on_write_complete n c =
     c\<lparr>wire := wire c @ map (Pair False) (take n (active_write_buffer c)), active_write_buffer := drop n (active_write_buffer c),
       writer_at := NotWriting, callers := callers c + 1\<rparr>"

definition write_would_block :: "out_conn \<Rightarrow> out_conn" where
  "write_would_block c = c\<lparr>writer_at := NotWriting, callers := callers c + 1\<rparr>"

definition file_bytes :: "(int \<Rightarrow> string) \<Rightarrow> out_conn \<Rightarrow> string" where
  "file_bytes content c =
     (if out_fd c = - 1 then [] else take (nat (out_size c - out_offset c)) (drop (nat (out_offset c)) (content (out_fd c))))"

definition on_sendfile_complete :: "(int \<Rightarrow> string) \<Rightarrow> nat \<Rightarrow> out_conn \<Rightarrow> out_conn" where
  "on_sendfile_complete content n c =
     c\<lparr>wire := wire c @ map (Pair True) (take n (file_bytes content c)), out_offset := out_offset c + int n, writer_at := NotWriting,
       callers := callers c + 1\<rparr>"

definition remove_connection :: "out_conn \<Rightarrow> out_conn" where
  "remove_connection c = c\<lparr>is_removed := True\<rparr>"

text \<open>
  \<^verbatim>\<open>send\<close> for a file: the file is set in one critical section, its head is queued in the next; another thread may take any steps in
  between.
\<close>

definition set_file :: "(int \<Rightarrow> string) \<Rightarrow> string \<Rightarrow> int \<Rightarrow> int \<Rightarrow> int \<Rightarrow> bool \<Rightarrow> out_conn \<Rightarrow> out_conn" where
  "set_file content head fd sz off last_response c0 =
     (let c = c0\<lparr>out_fd := fd, out_size := sz, out_offset := off, resume_after_write := resume_after_write c0 \<or> \<not> last_response,
                 heads := heads c0 @ [(head, last_response)]\<rparr>
      in c\<lparr>files_queued := files_queued c @ file_bytes content c,
           due := due c @ replicate (length (file_bytes content c)) (length (queued c))\<rparr>)"

definition queue_head :: "nat \<Rightarrow> out_conn \<Rightarrow> out_conn" where
  "queue_head i c =
     (case heads c ! i of (head, last_response) \<Rightarrow> send_data head last_response (c\<lparr>heads := take i (heads c) @ drop (Suc i) (heads c)\<rparr>))"

definition quiet :: "out_conn \<Rightarrow> bool" where
  "quiet c \<longleftrightarrow> writer_at c = NotWriting \<and> heads c = [] \<and> callers c = 0 \<and> checkers c = 0"

text \<open>
  Interleavings. Any thread may queue data at any time. A file is set when the one before has been sent: the response to the next request
  is made only after \<^verbatim>\<open>trigger_write\<close> has resumed the connection.
\<close>

inductive out_step :: "(int \<Rightarrow> string) \<Rightarrow> out_conn \<Rightarrow> out_conn \<Rightarrow> bool" for content where
  queues: "out_step content c (send_data data close_after c)"
| sets_file: "out_fd c = - 1 \<or> out_offset c \<ge> out_size c \<Longrightarrow> 0 \<le> off \<Longrightarrow> fd \<noteq> - 1 \<Longrightarrow> sz \<le> int (length (content fd)) \<Longrightarrow>
    out_step content c (set_file content head fd sz off last_response c)"
| queues_head: "i < length (heads c) \<Longrightarrow> out_step content c (queue_head i c)"
| takes_flag: "0 < callers c \<Longrightarrow> out_step content c (take_flag c)"
| looks: "writer_at c = Holding \<Longrightarrow> out_step content c (write_locked c)"
| clears_flag: "writer_at c = Releasing \<Longrightarrow> out_step content c (clear_flag c)"
| checks: "0 < checkers c \<Longrightarrow> out_step content c (check_output c)"
| writes: "writer_at c = Writing \<Longrightarrow> 0 < n \<Longrightarrow> n \<le> length (active_write_buffer c) \<Longrightarrow> out_step content c (on_write_complete n c)"
| blocks: "writer_at c = Writing \<or> writer_at c = SendingFile \<Longrightarrow> out_step content c (write_would_block c)"
| sends: "writer_at c = SendingFile \<Longrightarrow> 0 < n \<Longrightarrow> int n \<le> out_size c - out_offset c \<Longrightarrow>
    out_step content c (on_sendfile_complete content n c)"
| removes: "out_step content c (remove_connection c)"

definition out_reachable :: "(int \<Rightarrow> string) \<Rightarrow> out_conn \<Rightarrow> bool" where
  "out_reachable content c \<longleftrightarrow> (out_step content)\<^sup>*\<^sup>* new_out c"

lemma out_invariant:
  assumes "out_reachable content c" "P new_out" "\<And>c d. out_step content c d \<Longrightarrow> P c \<Longrightarrow> P d"
  shows "P c"
  using assms unfolding out_reachable_def by (rule steps_invariant)

lemmas out_ops = send_data_def queue_head_def set_file_def take_flag_def write_locked_def clear_flag_def check_output_def
  on_write_complete_def write_would_block_def on_sendfile_complete_def remove_connection_def Let_def

text \<open>Output that waits, or a request to close or to go on, always has a thread to take care of it.\<close>

definition attended :: "out_conn \<Rightarrow> bool" where
  "attended c \<longleftrightarrow> is_removed c \<or> \<not> quiet c \<or> \<not> output_pending c \<and> \<not> close_after_write c \<and> \<not> resume_after_write c"

lemma step_attended: "out_step content c d \<Longrightarrow> attended c \<Longrightarrow> attended d"
  by (induction rule: out_step.induct) (auto simp: out_ops attended_def quiet_def output_pending_def split: prod.splits)

text \<open>Both streams are whole, and every byte of a file on the wire has its due data before it.\<close>

definition file_ok :: "(int \<Rightarrow> string) \<Rightarrow> out_conn \<Rightarrow> bool" where
  "file_ok content c \<longleftrightarrow> out_fd c \<noteq> - 1 \<longrightarrow> 0 \<le> out_offset c \<and> out_size c \<le> int (length (content (out_fd c)))"

definition streams_ok :: "(int \<Rightarrow> string) \<Rightarrow> out_conn \<Rightarrow> bool" where
  "streams_ok content c \<longleftrightarrow>
     file_ok content c \<and> data_of (wire c) @ active_write_buffer c @ write_buffer c = queued c \<and>
     files_of (wire c) @ file_bytes content c = files_queued c \<and>
     (writer_at c = SendingFile \<longrightarrow> out_fd c \<noteq> - 1 \<and> out_offset c < out_size c) \<and>
     (writer_at c = Writing \<longrightarrow> active_write_buffer c \<noteq> [])"

definition dues_met :: "(bool \<times> char) list \<Rightarrow> nat list \<Rightarrow> bool" where
  "dues_met w ds \<longleftrightarrow> (\<forall>u x v. w = u @ (True, x) # v \<longrightarrow> ds ! length (files_of u) \<le> length (data_of u))"

definition dues_ok :: "out_conn \<Rightarrow> bool" where
  "dues_ok c \<longleftrightarrow>
     length (due c) = length (files_queued c) \<and> dues_met (wire c) (due c) \<and>
     (writer_at c = SendingFile \<longrightarrow> (\<forall>d\<in>set (drop (length (files_of (wire c))) (due c)). d \<le> length (data_of (wire c))))"

lemma of_simps [simp]:
  "data_of [] = []" "files_of [] = []" "data_of (u @ v) = data_of u @ data_of v" "files_of (u @ v) = files_of u @ files_of v"
  "data_of (map (Pair False) s) = s" "files_of (map (Pair True) s) = s" "data_of (map (Pair True) s) = []" "files_of (map (Pair False) s) = []"
  by (simp_all add: data_of_def files_of_def filter_map comp_def)

lemma file_bytes_more: "out_fd c = - 1 \<or> out_offset c \<ge> out_size c \<Longrightarrow> file_bytes content c = []"
  by (auto simp: file_bytes_def)

lemma file_bytes_cong:
  "out_fd d = out_fd c \<Longrightarrow> out_size d = out_size c \<Longrightarrow> out_offset d = out_offset c \<Longrightarrow> file_bytes content d = file_bytes content c"
  by (simp add: file_bytes_def)

lemma file_bytes_sent:
  assumes "out_fd c \<noteq> - 1" "0 \<le> out_offset c" "int n \<le> out_size c - out_offset c"
  shows "take n (file_bytes content c) @ file_bytes content (on_sendfile_complete content n c) = file_bytes content c"
proof -
  have n: "nat (out_offset c + int n) = n + nat (out_offset c)" "nat (out_size c - (out_offset c + int n)) = nat (out_size c - out_offset c) - n"
    using assms by auto
  let ?r = "drop (nat (out_offset c)) (content (out_fd c))"
  have "take n (take (nat (out_size c - out_offset c)) ?r) @ drop n (take (nat (out_size c - out_offset c)) ?r) =
      take (nat (out_size c - out_offset c)) ?r" by (rule append_take_drop_id)
  then show ?thesis using assms n by (simp add: file_bytes_def on_sendfile_complete_def drop_take add.commute)
qed

lemma set_file_streams:
  assumes "streams_ok content c" "out_fd c = - 1 \<or> out_offset c \<ge> out_size c" "0 \<le> off" "sz \<le> int (length (content fd))"
  shows "streams_ok content (set_file content head fd sz off l c)"
  using assms file_bytes_more [OF assms(2), of content]
  by (auto simp: streams_ok_def set_file_def file_ok_def file_bytes_def Let_def)

lemma sends_streams:
  assumes "streams_ok content c" "writer_at c = SendingFile" "int n \<le> out_size c - out_offset c"
  shows "streams_ok content (on_sendfile_complete content n c)"
proof -
  have "out_fd c \<noteq> - 1" "0 \<le> out_offset c" using assms(1,2) by (auto simp: streams_ok_def file_ok_def)
  from file_bytes_sent [OF this assms(3), of content] assms(1,2) show ?thesis
    by (auto simp: streams_ok_def file_ok_def on_sendfile_complete_def)
qed

lemma step_streams: "out_step content c d \<Longrightarrow> streams_ok content c \<Longrightarrow> streams_ok content d"
proof (induction rule: out_step.induct)
  case (writes c n)
  have t: "take n (active_write_buffer c) @ drop n (active_write_buffer c) @ s = active_write_buffer c @ s" for s
    by (metis append_assoc append_take_drop_id)
  from writes show ?case by (auto simp: t streams_ok_def on_write_complete_def file_ok_def file_bytes_def)
next
  case (queues_head i c)
  then show ?case by (cases "heads c ! i") (auto simp: streams_ok_def queue_head_def send_data_def file_ok_def file_bytes_def)
next
  case (looks c)
  then show ?case by (auto simp: streams_ok_def write_locked_def file_ok_def file_bytes_def Let_def split: if_splits)
next
  case (checks c)
  then show ?case by (auto simp: streams_ok_def check_output_def file_ok_def file_bytes_def Let_def)
qed (simp_all add: set_file_streams sends_streams,
     auto simp: streams_ok_def file_ok_def file_bytes_def send_data_def take_flag_def clear_flag_def write_would_block_def remove_connection_def)

lemma dues_met_data: "dues_met w ds \<Longrightarrow> dues_met (w @ map (Pair False) s) ds"
  unfolding dues_met_def
proof (intro allI impI)
  fix u x v
  assume w: "\<forall>u x v. w = u @ (True, x) # v \<longrightarrow> ds ! length (files_of u) \<le> length (data_of u)" "w @ map (Pair False) s = u @ (True, x) # v"
  from w(2) obtain us where "w = u @ us \<and> us @ map (Pair False) s = (True, x) # v \<or> w @ us = u \<and> map (Pair False) s = us @ (True, x) # v"
    by (auto simp: append_eq_append_conv2)
  moreover have "(True, x) \<notin> set (map (Pair False) s)" by auto
  ultimately obtain v' where "w = u @ (True, x) # v'" by (cases us) (auto dest: arg_cong [where f = set])
  with w(1) show "ds ! length (files_of u) \<le> length (data_of u)" by blast
qed

lemma dues_met_files:
  assumes "dues_met w ds" "\<forall>d\<in>set (drop (length (files_of w)) ds). d \<le> length (data_of w)" "length (files_of w) + length s \<le> length ds"
  shows "dues_met (w @ map (Pair True) s) ds"
  unfolding dues_met_def
proof (intro allI impI)
  fix u x v assume e: "w @ map (Pair True) s = u @ (True, x) # v"
  show "ds ! length (files_of u) \<le> length (data_of u)"
  proof (cases "length u < length w")
    case True
    then have "w = u @ (True, x) # take (length w - Suc (length u)) v"
      using arg_cong [OF e, of "take (length w)"] by (simp add: take_Cons')
    with assms(1) show ?thesis unfolding dues_met_def by blast
  next
    case False
    then obtain t where u: "u = w @ map (Pair True) t" "length t < length s"
      using arg_cong [OF e, of "take (length u)"] arg_cong [OF e, of length]
      by (auto simp: take_map intro: that [of "take (length u - length w) s"])
    have "ds ! (length (files_of w) + length t) \<in> set (drop (length (files_of w)) ds)"
      using u(2) assms(3) by (auto simp: in_set_conv_nth intro!: exI [of _ "length t"])
    with assms(2) u show ?thesis by auto
  qed
qed

lemma dues_met_cong:
  assumes "dues_met w ds" "take (length (files_of w)) es = take (length (files_of w)) ds"
  shows "dues_met w es"
  unfolding dues_met_def
proof (intro allI impI)
  fix u x v assume w: "w = u @ (True, x) # v"
  then have "length (files_of u) < length (files_of w)" by (simp add: files_of_def)
  then have "es ! length (files_of u) = ds ! length (files_of u)" using assms(2) by (metis nth_take)
  with assms(1) w show "es ! length (files_of u) \<le> length (data_of u)" unfolding dues_met_def by metis
qed

lemma looks_dues:
  assumes "dues_ok c" "streams_ok content c" "writer_at c = Holding"
  shows "dues_ok (write_locked c)"
proof -
  let ?k = "length (files_of (wire c))"
  have l: "length (due c) = length (files_queued c)" "?k \<le> length (due c)" "dues_met (wire c) (due c)"
    using assms(1) assms(2) by (auto simp: dues_ok_def streams_ok_def dest: arg_cong [where f = length])
  then have t: "dues_met (wire c) (turn_to_file c)" "length (turn_to_file c) = length (due c)"
    "set (drop ?k (turn_to_file c)) \<subseteq> {length (queued c)}"
    by (auto simp: turn_to_file_def Let_def intro!: dues_met_cong [OF l(3)])
  have q: "data_of (wire c) = queued c" if "active_write_buffer c = []" "write_buffer c = []"
    using that assms(2) by (simp add: streams_ok_def)
  show ?thesis
    using l t q assms(3) by (auto simp: dues_ok_def write_locked_def Let_def turn_to_file_def)
qed

lemma step_dues: "out_step content c d \<Longrightarrow> dues_ok c \<and> streams_ok content c \<Longrightarrow> dues_ok d"
proof (induction rule: out_step.induct)
  case (sets_file c off fd sz head l)
  then have f: "files_of (wire c) = files_queued c" "writer_at c \<noteq> SendingFile"
    using file_bytes_more [of c content] by (auto simp: streams_ok_def)
  from sets_file show ?case
    by (auto simp: dues_ok_def set_file_def Let_def f intro!: dues_met_cong [of "wire c" "due c"])
next
  case (queues_head i c)
  then show ?case by (cases "heads c ! i") (auto simp: dues_ok_def queue_head_def send_data_def)
next
  case (looks c)
  then show ?case using looks_dues by blast
next
  case (sends c n)
  let ?s = "take n (file_bytes content c)"
  have "length (files_of (wire c)) + length ?s \<le> length (due c)"
    using sends.prems by (auto simp: dues_ok_def streams_ok_def dest: arg_cong [where f = length])
  then have "dues_met (wire c @ map (Pair True) ?s) (due c)"
    using sends by (intro dues_met_files) (auto simp: dues_ok_def)
  with sends show ?case by (simp add: dues_ok_def on_sendfile_complete_def)
qed (auto simp: dues_ok_def send_data_def take_flag_def clear_flag_def check_output_def on_write_complete_def write_would_block_def
       remove_connection_def Let_def intro: dues_met_data)

definition closed_ok :: "out_conn \<Rightarrow> bool" where
  "closed_ok c \<longleftrightarrow> (\<forall>q f. closed_with c = Some (q, f) \<longrightarrow>
     is_removed c \<and> data_of (wire c) = q \<and> files_of (wire c) = f \<and> writer_at c \<noteq> Writing \<and> writer_at c \<noteq> SendingFile)"

lemma check_closed:
  assumes "closed_ok c" "streams_ok content c"
  shows "closed_ok (check_output c)"
proof (cases "output_pending c \<or> \<not> close_after_write c \<or> is_removed c")
  case True with assms(1) show ?thesis by (auto simp: closed_ok_def check_output_def output_pending_def Let_def)
next
  case False
  then have np: "active_write_buffer c = []" "write_buffer c = []" "out_fd c = - 1 \<or> out_offset c \<ge> out_size c"
    by (auto simp: output_pending_def)
  then have "data_of (wire c) = queued c" "files_of (wire c) = files_queued c" "writer_at c \<noteq> Writing" "writer_at c \<noteq> SendingFile"
    using assms(2) file_bytes_more [of c content] by (auto simp: streams_ok_def)
  then show ?thesis using False by (auto simp: closed_ok_def check_output_def output_pending_def Let_def)
qed

lemma step_closed: "out_step content c d \<Longrightarrow> closed_ok c \<and> streams_ok content c \<Longrightarrow> closed_ok d"
proof (induction rule: out_step.induct)
  case checks then show ?case using check_closed by blast
next
  case (queues_head i c) then show ?case by (cases "heads c ! i") (simp add: closed_ok_def queue_head_def send_data_def)
qed (auto simp: closed_ok_def send_data_def set_file_def take_flag_def write_locked_def clear_flag_def
       on_write_complete_def write_would_block_def on_sendfile_complete_def remove_connection_def Let_def)

definition out_ok :: "(int \<Rightarrow> string) \<Rightarrow> out_conn \<Rightarrow> bool" where
  "out_ok content c \<longleftrightarrow> attended c \<and> streams_ok content c \<and> dues_ok c \<and> closed_ok c"

lemma reachable_out: "out_reachable content c \<Longrightarrow> out_ok content c"
proof (erule out_invariant)
  show "out_ok content new_out"
    by (simp add: out_ok_def new_out_def attended_def output_pending_def streams_ok_def file_ok_def file_bytes_def dues_ok_def dues_met_def closed_ok_def)
next
  fix c d assume "out_step content c d" "out_ok content c"
  then show "out_ok content d"
    using step_attended step_streams step_dues step_closed unfolding out_ok_def by blast
qed


section \<open>Theorems\<close>

text \<open>
  A streamed response body is read back: for any chunks that are not empty, the bytes of \<^verbatim>\<open>write_chunk\<close> for each of them and of
  \<^verbatim>\<open>end\<close> decode to the chunks joined together, whatever follows on the connection; for a response to HEAD nothing is sent.
\<close>

theorem chunked_body_roundtrip:
  assumes "\<forall>c\<in>set cs. c \<noteq> []"
  shows "read_chunks (concat (map (write_chunk False True) cs) @ end_bytes False True @ rest) = Some (concat cs, rest) \<and>
         concat (map (write_chunk True b) cs) @ end_bytes True b = []"
proof -
  have "write_chunk False True = format_chunk" by (rule ext) (simp add: write_chunk_def)
  moreover have "concat (map (write_chunk True b) cs) = []" by (induction cs) (simp_all add: write_chunk_def)
  ultimately show ?thesis using read_chunked_body [OF assms, of rest] by (simp add: end_bytes_def)
qed

theorem chunked_body_roundtrip_witness:
  "read_chunks (concat (map (write_chunk False True) [''hello'', ''!'']) @ end_bytes False True @ ''HTTP'') = Some (''hello!'', ''HTTP'')"
  using chunked_body_roundtrip [of "[''hello'', ''!'']" "''HTTP''"] by simp

text \<open>An empty chunk is encoded as the last one, so what a handler writes after it is outside of the body.\<close>

lemma empty_chunk_ends_body: "read_chunks (write_chunk False True [] @ write_chunk False True rest) = Some ([], format_chunk rest)"
proof -
  have "format_chunk [] = last_chunk" by (simp add: format_chunk_def last_chunk_def show_hex.simps [of 0] hex_lower_def)
  then show ?thesis by (simp add: write_chunk_def read_last_chunk)
qed

text \<open>
  A server-sent event is read back: with no carriage return in the data and no line end in name and id, an event-stream
  reader gets the name, the id and the data that were sent (except for one line feed at the end of the data).
\<close>

theorem sse_event_roundtrip:
  assumes "CR \<notin> set data" "data = [] \<or> last data \<noteq> LF" "LF \<notin> set event" "CR \<notin> set event" "LF \<notin> set ident" "CR \<notin> set ident"
  shows "read_event (sse_message data event ident) = (event, ident, data)"
  using read_sse_message [OF assms(1,3-6)] sse_payload_join [OF assms(2)] by simp

theorem sse_event_roundtrip_witness:
  "read_event (sse_message (''a'' @ [LF] @ ''b'') ''tick'' ''7'') = (''tick'', ''7'', ''a'' @ [LF] @ ''b'')"
  by (rule sse_event_roundtrip) simp_all

text \<open>A carriage return in the data ends its line for the reader, and the rest is read as a field of its own.\<close>

lemma sse_carriage_return_injects:
  "read_event (sse_message (''a'' @ [CR] @ ''event: admin'') ''tick'' []) = (''admin'', [], ''a'')"
  by code_simp

text \<open>
  C12: Output keeps its order and nothing is lost or sent twice, whatever threads queue data and files in between. At every moment the data
  bytes on the wire, followed by the two buffers, are exactly the data that were queued, in order; the file bytes on the wire, followed
  by what is left of the file under way, are exactly the files that were set, in order; and no byte of a file is on the wire before
  all the data that had been queued when its file was set, and when the writer last turned to that file. (So the head of a file is
  before it unless the writer turned to the file between the two critical sections of \<^verbatim>\<open>send\<close>, see below; the order of data
  queued later and the file is not fixed.)
\<close>

theorem output_in_order:
  assumes "out_reachable content c"
  shows "data_of (wire c) @ active_write_buffer c @ write_buffer c = queued c \<and>
    files_of (wire c) @ file_bytes content c = files_queued c \<and>
    length (due c) = length (files_queued c) \<and>
    (\<forall>u x v. wire c = u @ (True, x) # v \<longrightarrow> due c ! length (files_of u) \<le> length (data_of u))"
  using reachable_out [OF assms] by (simp add: out_ok_def streams_ok_def dues_ok_def dues_met_def)

text \<open>A file response on a connection that sends an earlier one: all of it goes out, the file last.\<close>

definition demo_content :: "int \<Rightarrow> string" where
  "demo_content fd = (if fd = 3 then ''FILE'' else [])"

definition write_pass :: "nat \<Rightarrow> out_conn \<Rightarrow> out_conn" where
  "write_pass n c = on_write_complete n (write_locked (take_flag c))"

definition demo_head_queued :: out_conn where
  "demo_head_queued = queue_head 0 (set_file demo_content ''HEAD'' 3 4 0 False (write_locked (take_flag (send_data ''A'' False new_out))))"

definition demo_out :: out_conn where
  "demo_out = on_sendfile_complete demo_content 4 (write_locked (take_flag (write_pass 4 (take_flag (on_write_complete 1 demo_head_queued)))))"

lemmas demo_out_defs = demo_out_def write_pass_def demo_head_queued_def send_data_def take_flag_def new_out_def write_locked_def on_write_complete_def
  set_file_def queue_head_def on_sendfile_complete_def file_bytes_def demo_content_def turn_to_file_def Let_def

lemma out_reachable_step: "out_reachable content c \<Longrightarrow> out_step content c d \<Longrightarrow> out_reachable content d"
  unfolding out_reachable_def by (rule rtranclp.rtrancl_into_rtrancl)

lemma out_reachable_start: "out_reachable content new_out"
  by (simp add: out_reachable_def)

lemma demo_out_reachable: "out_reachable demo_content demo_out"
proof -
  let ?R = "out_reachable demo_content"
  let ?a = "send_data ''A'' False new_out"
  let ?b = "write_locked (take_flag ?a)"
  let ?c = "set_file demo_content ''HEAD'' 3 4 0 False ?b"
  let ?d = "take_flag (take_flag (on_write_complete 1 demo_head_queued))"
  have "?R ?a" by (rule out_reachable_step [OF out_reachable_start queues])
  then have "?R (take_flag ?a)" by (rule out_reachable_step) (rule takes_flag, simp add: send_data_def)
  then have "?R ?b" by (rule out_reachable_step) (rule looks, simp add: demo_out_defs)
  then have "?R ?c" by (rule out_reachable_step) (rule sets_file, simp_all add: demo_out_defs)
  then have "?R demo_head_queued"
    unfolding demo_head_queued_def by (rule out_reachable_step) (rule queues_head, simp add: set_file_def Let_def)
  then have "?R (on_write_complete 1 demo_head_queued)"
    by (rule out_reachable_step) (rule writes, simp_all add: demo_out_defs)
  then have "?R (take_flag (on_write_complete 1 demo_head_queued))"
    by (rule out_reachable_step) (rule takes_flag, simp add: on_write_complete_def)
  then have "?R ?d" by (rule out_reachable_step) (rule takes_flag, simp add: demo_out_defs)
  then have "?R (write_locked ?d)" by (rule out_reachable_step) (rule looks, simp add: demo_out_defs)
  then have "?R (on_write_complete 4 (write_locked ?d))" by (rule out_reachable_step) (rule writes, simp_all add: demo_out_defs)
  then have "?R (take_flag (on_write_complete 4 (write_locked ?d)))"
    by (rule out_reachable_step) (rule takes_flag, simp add: on_write_complete_def)
  then have "?R (write_locked (take_flag (on_write_complete 4 (write_locked ?d))))"
    by (rule out_reachable_step) (rule looks, simp add: demo_out_defs)
  then show ?thesis
    unfolding demo_out_def write_pass_def by (rule out_reachable_step) (rule sends, simp_all add: demo_out_defs)
qed

lemma demo_out_sent:
  "wire demo_out = [(False, CHR ''A''), (False, CHR ''H''), (False, CHR ''E''), (False, CHR ''A''), (False, CHR ''D''),
     (True, CHR ''F''), (True, CHR ''I''), (True, CHR ''L''), (True, CHR ''E'')] \<and>
   queued demo_out = ''AHEAD'' \<and> files_queued demo_out = ''FILE'' \<and> active_write_buffer demo_out = [] \<and> write_buffer demo_out = [] \<and>
   out_offset demo_out = 4 \<and> out_size demo_out = 4"
  by (simp add: demo_out_defs files_of_def)

theorem output_in_order_witness:
  "data_of (wire demo_out) = ''AHEAD'' \<and> files_of (wire demo_out) = ''FILE'' \<and> length (due demo_out) = 4"
  using output_in_order [OF demo_out_reachable] demo_out_sent by (simp add: file_bytes_more)

text \<open>
  C15: Queued output is never left behind: whatever threads queue data and files in between, when no thread is at work on the output of a
  connection that has not been removed, all data and all files that were to be sent are on the wire, no request to close is open,
  and no request waits for a file that has been sent.
\<close>

theorem output_never_stranded:
  assumes "out_reachable content c" "quiet c" "\<not> is_removed c"
  shows "\<not> output_pending c \<and> data_of (wire c) = queued c \<and> files_of (wire c) = files_queued c \<and> \<not> close_after_write c \<and> \<not> resume_after_write c"
proof -
  have o: "attended c" "streams_ok content c" using reachable_out [OF assms(1)] by (simp_all add: out_ok_def)
  then have p: "\<not> output_pending c" "\<not> close_after_write c" "\<not> resume_after_write c" using assms(2,3) by (auto simp: attended_def)
  then have "file_bytes content c = []" by (intro file_bytes_more) (auto simp: output_pending_def)
  then show ?thesis using o(2) p by (auto simp: streams_ok_def output_pending_def)
qed

definition demo_drained :: out_conn where
  "demo_drained = check_output (clear_flag (write_locked (take_flag demo_out)))"

theorem output_never_stranded_witness:
  "data_of (wire demo_drained) = queued demo_drained \<and> files_of (wire demo_drained) = ''FILE'' \<and> resumes demo_drained = 1"
proof -
  let ?R = "out_reachable demo_content"
  have "?R (take_flag demo_out)" by (rule out_reachable_step [OF demo_out_reachable takes_flag]) (simp add: demo_out_def on_sendfile_complete_def)
  then have "?R (write_locked (take_flag demo_out))" by (rule out_reachable_step) (rule looks, simp add: demo_out_defs)
  then have "?R (clear_flag (write_locked (take_flag demo_out)))" by (rule out_reachable_step) (rule clears_flag, simp add: demo_out_defs)
  then have r: "?R demo_drained" unfolding demo_drained_def by (rule out_reachable_step) (rule checks, simp add: clear_flag_def)
  have d: "quiet demo_drained" "\<not> is_removed demo_drained" "files_queued demo_drained = ''FILE''" "resumes demo_drained = 1"
    by (simp_all add: demo_drained_def quiet_def check_output_def clear_flag_def output_pending_def demo_out_defs)
  show ?thesis using output_never_stranded [OF r d(1,2)] d(3,4) by simp
qed

text \<open>A connection closed on request has sent everything that had been queued when it was closed.\<close>

theorem close_after_everything_sent:
  assumes "out_reachable content c" "closed_with c = Some (q, f)"
  shows "data_of (wire c) = q \<and> files_of (wire c) = f"
  using reachable_out [OF assms(1)] assms(2) by (simp add: out_ok_def closed_ok_def)

definition demo_closed :: out_conn where
  "demo_closed = check_output (clear_flag (write_locked (take_flag (mark_for_close new_out))))"

theorem close_after_everything_sent_witness: "closed_with demo_closed = Some ([], []) \<and> data_of (wire demo_closed) = []"
proof -
  let ?a = "mark_for_close new_out" and ?R = "out_reachable (\<lambda>_. [])"
  have "?R ?a" unfolding mark_for_close_def by (rule out_reachable_step [OF out_reachable_start queues])
  then have "?R (take_flag ?a)" by (rule out_reachable_step) (rule takes_flag, simp add: mark_for_close_def send_data_def)
  then have "?R (write_locked (take_flag ?a))" by (rule out_reachable_step) (rule looks, simp add: mark_for_close_def demo_out_defs)
  then have "?R (clear_flag (write_locked (take_flag ?a)))"
    by (rule out_reachable_step) (rule clears_flag, simp add: mark_for_close_def demo_out_defs)
  then have "?R demo_closed" unfolding demo_closed_def by (rule out_reachable_step) (rule checks, simp add: clear_flag_def)
  moreover have "closed_with demo_closed = Some ([], [])"
    by (simp add: demo_closed_def mark_for_close_def demo_out_defs clear_flag_def check_output_def output_pending_def)
  ultimately show ?thesis using close_after_everything_sent [of "\<lambda>_. []" demo_closed "[]" "[]"] by simp
qed

text \<open>
  A file that is set while another response is still being written: the thread that completes that write finds the file before the
  head has been queued, and the file goes out first.
\<close>

lemma file_overtakes_its_head:
  defines "busy \<equiv> write_locked (take_flag (send_data ''A'' False new_out))"
  defines "raced \<equiv> on_sendfile_complete demo_content 4
     (write_locked (take_flag (on_write_complete 1 (set_file demo_content ''HEAD'' 3 4 0 False busy))))"
  shows "writer_at busy = Writing \<and> map snd (wire (queue_head 0 raced)) = ''AFILE'' \<and> write_buffer (queue_head 0 raced) = ''HEAD''"
  unfolding raced_def busy_def by (simp add: demo_out_defs)

end
