(* ===== verification/Connection_Requests.thy ===== *)
theory Connection_Requests
  imports Http1_Parser
begin

text \<open>
  The reading half of an HTTP/1 connection (\<^verbatim>\<open>src/server/Connection.cpp\<close>): bytes are buffered as they arrive and fed to the
  parser, a request that is ready is handed to a pool thread, and when it has been answered the next one is taken up, which
  may already be in the buffer (pipelining). The event loop, the thread that runs the handler and threads on their way out of
  \<^verbatim>\<open>continue_after_response\<close> work on the connection at the same time; what each of them does between two accesses to
  shared state is one step, taken in any order. TLS, timers and the start of HTTP/2 are left out.

  The theorems: requests are handled one at a time, each once, in the order in which they arrived; the request a
  handler works on is not touched by other threads; every byte received is fed to the parser once and in order; and the
  connection does not go to sleep on a request, but for two cases that are named.
\<close>

section \<open>The connection\<close>

datatype ConnectionState = HTTP | HTTP_STREAMING_BODY | WEBSOCKET | RAW_STREAM | HTTP2

datatype RequestState =
    INCOMPLETE | COMPLETE | HEADERS_COMPLETE
  | ERROR_PAYLOAD_TOO_LARGE | ERROR_HEADERS_TOO_LARGE | ERROR_BAD_REQUEST | ERROR_NOT_IMPLEMENTED

text \<open>
  Where the threads are: the event loop in \<^verbatim>\<open>on_read_complete\<close>, and the owner of \<^verbatim>\<open>is_processing_request_\<close> from the queue of the
  thread pool through the handler to \<^verbatim>\<open>continue_after_response\<close>.
\<close>

datatype reader_at = RIdle | RDecide | RCheck | RAct RequestState

datatype handler_at = HNone | HQueued | HRunning | HResponded | HChecking | HReleasing

datatype conn_event = SentContinue | SentError nat | ClosesAfterWrite

text \<open>
  \<open>body_owner\<close> is the message whose handler installed \<^verbatim>\<open>body_stream_on_data_\<close>, and \<open>protocol_leaves\<close> is what the protocol a
  connection was upgraded to leaves in the buffer. \<open>rechecking\<close> and \<open>claiming\<close> count threads at the
  end of \<^verbatim>\<open>continue_after_response\<close>, after the flag was released. The rest is history: bytes received and fed, the
  number of the message at hand and of those handled, and what the connection sent by itself; \<open>body_log\<close> says whose callback got
  a piece of which message's body.
\<close>

record 'l conn =
  read_buffer :: string
  parser :: "'l Http1Parser"
  message_started :: bool
  headers_parsed :: bool
  request_complete :: bool
  streaming_request :: bool
  continue_expected :: bool
  continue_sent :: bool
  should_close :: bool
  is_processing :: bool
  conn_state :: ConnectionState
  body_owner :: "nat option"
  protocol_leaves :: "string \<Rightarrow> string"
  is_reading :: bool
  reader :: reader_at
  handler :: handler_at
  rechecking :: nat
  claiming :: nat
  received :: string
  fed :: string
  message_no :: nat
  handled :: "nat list"
  events :: "conn_event list"
  closing :: bool
  body_log :: "(nat \<times> nat) list"

definition new_conn :: "'l Http1Parser \<Rightarrow> 'l conn" where
  "new_conn s =
     \<lparr>read_buffer = [], parser = s, message_started = False, headers_parsed = False, request_complete = False,
      streaming_request = False, continue_expected = False, continue_sent = False, should_close = False, is_processing = False,
      conn_state = HTTP, body_owner = None, protocol_leaves = id, is_reading = True, reader = RIdle, handler = HNone, rechecking = 0, claiming = 0,
      received = [], fed = [], message_no = 0, handled = [], events = [], closing = False, body_log = []\<rparr>"


section \<open>Parsing what has arrived\<close>

definition error_state :: "nat \<Rightarrow> RequestState" where
  "error_state st =
     (if st = 413 then ERROR_PAYLOAD_TOO_LARGE else if st = 431 then ERROR_HEADERS_TOO_LARGE
      else if st = 501 then ERROR_NOT_IMPLEMENTED else ERROR_BAD_REQUEST)"

fun check_passes :: "'l llhttp \<Rightarrow> (HttpMethod \<Rightarrow> string \<Rightarrow> bool) \<Rightarrow> nat \<Rightarrow> nat \<Rightarrow> 'l conn \<Rightarrow> RequestState \<times> nat \<times> 'l conn" where
  "check_passes lib stream 0 pos c = (INCOMPLETE, pos, c)"
| "check_passes lib stream (Suc passes) pos c =
     (case feed lib (drop pos (read_buffer c)) (parser c) of (event, used, s) \<Rightarrow>
        let c1 = c\<lparr>parser := s, message_started := message_started c \<or> used > 0\<rparr>; pos' = pos + used
        in case event of
             NeedMore \<Rightarrow> (INCOMPLETE, pos', c1)
           | MessageComplete \<Rightarrow> (COMPLETE, pos', c1\<lparr>message_started := True, request_complete := True\<rparr>)
           | Error \<Rightarrow> (error_state (error_status (impl s)), pos', c1)
           | HeadersComplete \<Rightarrow>
               let req = request (impl s);
                   c2 = c1\<lparr>headers_parsed := True,
                          continue_expected := expect_continue (impl s) \<and> http_version req = ''HTTP/1.1''\<rparr>
               in if stream (req_method req) (req_uri req)
                  then (HEADERS_COMPLETE, pos', c2\<lparr>streaming_request := True\<rparr>)
                  else check_passes lib stream passes pos' c2)"

definition drop_used :: "nat \<Rightarrow> 'l conn \<Rightarrow> 'l conn" where
  "drop_used pos c = c\<lparr>fed := fed c @ take pos (read_buffer c), read_buffer := drop pos (read_buffer c)\<rparr>"

definition check_request_state :: "'l llhttp \<Rightarrow> (HttpMethod \<Rightarrow> string \<Rightarrow> bool) \<Rightarrow> 'l conn \<Rightarrow> RequestState \<times> 'l conn" where
  "check_request_state lib stream c =
     (if request_complete c then (COMPLETE, c)
      else if streaming_request c then (HEADERS_COMPLETE, c)
      else case check_passes lib stream 2 0 c of (st, pos, c') \<Rightarrow> (st, drop_used pos c'))"

text \<open>The two functions every caller shares: an error response and the interim 100.\<close>

definition send_error :: "nat \<Rightarrow> 'l conn \<Rightarrow> 'l conn" where
  "send_error code c =
     c\<lparr>should_close := True, read_buffer := [], events := events c @ [SentError code], closing := True\<rparr>"

fun error_code :: "RequestState \<Rightarrow> nat" where
  "error_code ERROR_PAYLOAD_TOO_LARGE = 413"
| "error_code ERROR_HEADERS_TOO_LARGE = 431"
| "error_code ERROR_NOT_IMPLEMENTED = 501"
| "error_code _ = 400"

definition send_continue_if_expected :: "'l conn \<Rightarrow> 'l conn" where
  "send_continue_if_expected c =
     (if \<not> continue_expected c \<or> continue_sent c then c
      else c\<lparr>continue_sent := True, events := events c @ [SentContinue]\<rparr>)"

definition trigger_read :: "'l conn \<Rightarrow> 'l conn" where
  "trigger_read c = c\<lparr>is_reading := True\<rparr>"

text \<open>A request that is ready: with a body to stream, the connection reads on while the handler runs.\<close>

definition dispatch_request :: "RequestState \<Rightarrow> 'l conn \<Rightarrow> 'l conn" where
  "dispatch_request st c0 =
     (let c = (if st = HEADERS_COMPLETE then send_continue_if_expected (c0\<lparr>conn_state := HTTP_STREAMING_BODY\<rparr>) else c0);
          c' = c\<lparr>is_processing := True, handler := HQueued\<rparr>
      in if st = HEADERS_COMPLETE then trigger_read c' else c')"


section \<open>The event loop\<close>

definition bytes_arrive :: "string \<Rightarrow> 'l conn \<Rightarrow> 'l conn" where
  "bytes_arrive data c =
     c\<lparr>is_reading := False, read_buffer := read_buffer c @ data, received := received c @ data, reader := RDecide\<rparr>"

text \<open>Feeding a body to the callback of a stream handler; the result is an error status, or 0.\<close>

definition process_streaming_data :: "'l llhttp \<Rightarrow> 'l conn \<Rightarrow> 'l conn" where
  "process_streaming_data lib c =
     (case body_owner c of
        None \<Rightarrow> c
      | Some owner \<Rightarrow>
          if \<not> streaming_request c \<or> request_complete c \<or> read_buffer c = [] then c
          else (case feed lib (read_buffer c) (set_body_handler (parser c)) of (event, used, s) \<Rightarrow>
                  let c1 = (drop_used used (c\<lparr>parser := s\<rparr>))\<lparr>body_log := body_log c @ [(owner, message_no c)]\<rparr>
                  in case event of
                       MessageComplete \<Rightarrow> c1\<lparr>request_complete := True\<rparr>
                     | Error \<Rightarrow> send_error (if error_status (impl s) = 413 then 413 else 400) c1
                     | _ \<Rightarrow> c1))"

definition upgraded_data :: "'l conn \<Rightarrow> 'l conn" where
  "upgraded_data c =
     c\<lparr>read_buffer := (if conn_state c = HTTP2 then [] else if conn_state c = RAW_STREAM \<and> read_buffer c = [] then []
                      else protocol_leaves c (read_buffer c))\<rparr>"

definition reader_decides :: "'l llhttp \<Rightarrow> 'l conn \<Rightarrow> 'l conn" where
  "reader_decides lib c =
     (if conn_state c = HTTP_STREAMING_BODY then (trigger_read (process_streaming_data lib c))\<lparr>reader := RIdle\<rparr>
      else if conn_state c \<noteq> HTTP then (trigger_read (upgraded_data c))\<lparr>reader := RIdle\<rparr>
      else if is_processing c then c\<lparr>reader := RIdle\<rparr>
      else c\<lparr>reader := RCheck\<rparr>)"

definition reader_checks :: "'l llhttp \<Rightarrow> (HttpMethod \<Rightarrow> string \<Rightarrow> bool) \<Rightarrow> 'l conn \<Rightarrow> 'l conn" where
  "reader_checks lib stream c = (case check_request_state lib stream c of (st, c') \<Rightarrow> c'\<lparr>reader := RAct st\<rparr>)"

definition reader_acts :: "RequestState \<Rightarrow> 'l conn \<Rightarrow> 'l conn" where
  "reader_acts st c0 =
     (let c = c0\<lparr>reader := RIdle\<rparr>
      in if st = INCOMPLETE
         then trigger_read (if \<not> is_processing c \<and> headers_parsed c then send_continue_if_expected c else c)
         else if st = COMPLETE \<or> st = HEADERS_COMPLETE then (if is_processing c then c else dispatch_request st c)
         else send_error (error_code st) c)"


section \<open>The handler's thread\<close>

definition closes_connection :: "HttpRequest \<Rightarrow> bool" where
  "closes_connection req =
     (let v = hdr_find ''Connection'' (req_headers req);
          present = (\<lambda>t. case v of Some s \<Rightarrow> connection_option_present s t | None \<Rightarrow> False)
      in if present ''close'' then True else http_version req = ''HTTP/1.0'' \<and> \<not> present ''keep-alive'')"

definition process_request :: "'l conn \<Rightarrow> 'l conn" where
  "process_request c0 =
     (let c = c0\<lparr>continue_sent := False\<rparr>
      in if request_complete c \<or> streaming_request c
         then c\<lparr>handler := HRunning, handled := handled c @ [message_no c], should_close := should_close c \<or> closes_connection (request (impl (parser c)))\<rparr>
         else (send_error 400 c)\<lparr>handler := HNone\<rparr>)"

definition read_body_stream :: "'l llhttp \<Rightarrow> 'l conn \<Rightarrow> 'l conn" where
  "read_body_stream lib c =
     (let c' = c\<lparr>body_owner := Some (message_no c)\<rparr>
      in if \<not> streaming_request c then c' else process_streaming_data lib c')"

text \<open>A stream handler that waits for more; a response that is sent and was the last; one that was not.\<close>

definition keep_reading :: "'l conn \<Rightarrow> 'l conn" where
  "keep_reading c = (if conn_state c = HTTP then trigger_read c else c)"

definition respond :: "'l conn \<Rightarrow> 'l conn" where
  "respond c =
     (if should_close c then c\<lparr>handler := HNone, closing := True, events := events c @ [ClosesAfterWrite]\<rparr>
      else c\<lparr>handler := HResponded\<rparr>)"

definition continue_resets :: "'l conn \<Rightarrow> 'l conn" where
  "continue_resets c0 =
     (let body_unread = streaming_request c0 \<and> \<not> request_complete c0;
          c1 = (if request_complete c0 then c0\<lparr>parser := next_message (parser c0), message_no := message_no c0 + 1\<rparr> else c0);
          c2 = c1\<lparr>message_started := False, headers_parsed := False, request_complete := False, streaming_request := False\<rparr>;
          c3 = (if conn_state c2 = HTTP_STREAMING_BODY then c2\<lparr>conn_state := HTTP\<rparr> else c2)
      in if body_unread then c3\<lparr>handler := HNone, closing := True, events := events c3 @ [ClosesAfterWrite]\<rparr>
         else c3\<lparr>handler := HChecking\<rparr>)"

definition continue_checks :: "'l llhttp \<Rightarrow> (HttpMethod \<Rightarrow> string \<Rightarrow> bool) \<Rightarrow> 'l conn \<Rightarrow> 'l conn" where
  "continue_checks lib stream c0 =
     (case check_request_state lib stream c0 of (st, c) \<Rightarrow>
        if st = COMPLETE \<or> st = HEADERS_COMPLETE then dispatch_request st c
        else if st = INCOMPLETE then c\<lparr>handler := HReleasing\<rparr>
        else (send_error (error_code st) c)\<lparr>handler := HNone\<rparr>)"

definition continue_releases :: "'l conn \<Rightarrow> 'l conn" where
  "continue_releases c = c\<lparr>is_processing := False, handler := HNone, rechecking := rechecking c + 1\<rparr>"

definition continue_rechecks :: "'l llhttp \<Rightarrow> (HttpMethod \<Rightarrow> string \<Rightarrow> bool) \<Rightarrow> 'l conn \<Rightarrow> 'l conn" where
  "continue_rechecks lib stream c0 =
     (case check_request_state lib stream c0 of (st, c) \<Rightarrow>
        let c' = c\<lparr>rechecking := rechecking c - 1\<rparr>
        in if st = COMPLETE then c'\<lparr>claiming := claiming c + 1\<rparr> else trigger_read c')"

definition continue_claims :: "'l conn \<Rightarrow> 'l conn" where
  "continue_claims c0 =
     (let c = c0\<lparr>claiming := claiming c0 - 1\<rparr> in if is_processing c then c else dispatch_request COMPLETE c)"

text \<open>
  An upgrade: what is buffered belongs to the new protocol. A WebSocket takes the whole frames and leaves the start of one; a raw
  stream passes everything on, if it has a callback.
\<close>

definition upgrade_to_websocket :: "(string \<Rightarrow> string) \<Rightarrow> 'l conn \<Rightarrow> 'l conn" where
  "upgrade_to_websocket leaves c =
     trigger_read (c\<lparr>conn_state := WEBSOCKET, protocol_leaves := leaves, handler := HNone,
                    read_buffer := (if read_buffer c = [] then [] else leaves (read_buffer c))\<rparr>)"

definition upgrade_to_raw_stream :: "bool \<Rightarrow> 'l conn \<Rightarrow> 'l conn" where
  "upgrade_to_raw_stream on_data c =
     trigger_read (c\<lparr>conn_state := RAW_STREAM, protocol_leaves := (\<lambda>b. if on_data then [] else b), handler := HNone,
                    read_buffer := (if on_data then [] else read_buffer c)\<rparr>)"


section \<open>Interleavings\<close>

text \<open>A step of some thread, if it is at the point where it can take it.\<close>

datatype conn_action =
    Arrives string | Decides | Checks | Acts | Starts | Streams | KeepsReading | Responds | UpgradesWs "string \<Rightarrow> string" | UpgradesRaw bool
  | Resets | Continues | Releases | Rechecks | Claims

fun conn_do :: "'l llhttp \<Rightarrow> (HttpMethod \<Rightarrow> string \<Rightarrow> bool) \<Rightarrow> conn_action \<Rightarrow> 'l conn \<Rightarrow> 'l conn option" where
  "conn_do lib stream (Arrives data) c =
     (if is_reading c \<and> reader c = RIdle \<and> data \<noteq> [] then Some (bytes_arrive data c) else None)"
| "conn_do lib stream Decides c = (if reader c = RDecide then Some (reader_decides lib c) else None)"
| "conn_do lib stream Checks c = (if reader c = RCheck then Some (reader_checks lib stream c) else None)"
| "conn_do lib stream Acts c = (case reader c of RAct st \<Rightarrow> Some (reader_acts st c) | _ \<Rightarrow> None)"
| "conn_do lib stream Starts c = (if handler c = HQueued then Some (process_request c) else None)"
| "conn_do lib stream Streams c = (if handler c = HRunning then Some (read_body_stream lib c) else None)"
| "conn_do lib stream KeepsReading c = (if handler c = HRunning then Some (keep_reading c) else None)"
| "conn_do lib stream Responds c = (if handler c = HRunning then Some (respond c) else None)"
| "conn_do lib stream (UpgradesWs leaves) c = (if handler c = HRunning then Some (upgrade_to_websocket leaves c) else None)"
| "conn_do lib stream (UpgradesRaw on_data) c = (if handler c = HRunning then Some (upgrade_to_raw_stream on_data c) else None)"
| "conn_do lib stream Resets c = (if handler c = HResponded then Some (continue_resets c) else None)"
| "conn_do lib stream Continues c = (if handler c = HChecking then Some (continue_checks lib stream c) else None)"
| "conn_do lib stream Releases c = (if handler c = HReleasing then Some (continue_releases c) else None)"
| "conn_do lib stream Rechecks c = (if 0 < rechecking c then Some (continue_rechecks lib stream c) else None)"
| "conn_do lib stream Claims c = (if 0 < claiming c then Some (continue_claims c) else None)"

definition conn_step :: "'l llhttp \<Rightarrow> (HttpMethod \<Rightarrow> string \<Rightarrow> bool) \<Rightarrow> 'l conn \<Rightarrow> 'l conn \<Rightarrow> bool" where
  "conn_step lib stream c d \<longleftrightarrow> (\<exists>a. conn_do lib stream a c = Some d)"

fun conn_run :: "'l llhttp \<Rightarrow> (HttpMethod \<Rightarrow> string \<Rightarrow> bool) \<Rightarrow> conn_action list \<Rightarrow> 'l conn \<Rightarrow> 'l conn option" where
  "conn_run lib stream [] c = Some c"
| "conn_run lib stream (a # as) c = Option.bind (conn_do lib stream a c) (conn_run lib stream as)"

definition conn_reachable :: "'l llhttp \<Rightarrow> (HttpMethod \<Rightarrow> string \<Rightarrow> bool) \<Rightarrow> 'l Http1Parser \<Rightarrow> 'l conn \<Rightarrow> bool" where
  "conn_reachable lib stream s c \<longleftrightarrow> (conn_step lib stream)\<^sup>*\<^sup>* (new_conn s) c"

lemma conn_run_steps: "conn_run lib stream as c = Some d \<Longrightarrow> (conn_step lib stream)\<^sup>*\<^sup>* c d"
proof (induction as arbitrary: c)
  case (Cons a as)
  then obtain e where "conn_do lib stream a c = Some e" "conn_run lib stream as e = Some d"
    by (auto simp: bind_eq_Some_conv)
  with Cons.IH show ?case unfolding conn_step_def by (metis (mono_tags, lifting) converse_rtranclp_into_rtranclp)
qed simp

lemma conn_run_reachable: "conn_run lib stream as (new_conn s) = Some c \<Longrightarrow> conn_reachable lib stream s c"
  unfolding conn_reachable_def by (rule conn_run_steps)

lemma conn_invariant:
  assumes "conn_reachable lib stream s c" "P (new_conn s)" "\<And>a c d. P c \<Longrightarrow> conn_do lib stream a c = Some d \<Longrightarrow> P d"
  shows "P c"
  using assms(1,2) unfolding conn_reachable_def
  by (rule steps_invariant) (use assms(3) in \<open>auto simp: conn_step_def\<close>)


section \<open>What a check changes\<close>

text \<open>Everything but the parser, the buffer and the flags of the message at hand is as before.\<close>

definition same_threads :: "'l conn \<Rightarrow> 'l conn \<Rightarrow> bool" where
  "same_threads c d \<longleftrightarrow>
     is_processing d = is_processing c \<and> conn_state d = conn_state c \<and> body_owner d = body_owner c \<and> is_reading d = is_reading c \<and>
     reader d = reader c \<and> handler d = handler c \<and> rechecking d = rechecking c \<and> claiming d = claiming c \<and> received d = received c \<and>
     message_no d = message_no c \<and> handled d = handled c \<and> events d = events c \<and> closing d = closing c \<and> body_log d = body_log c \<and>
     should_close d = should_close c \<and> continue_sent d = continue_sent c"

lemma check_passes_same:
  "check_passes lib stream n pos c = (st, pos', d) \<Longrightarrow>
     same_threads c d \<and> read_buffer d = read_buffer c \<and> fed d = fed c \<and>
     (st = COMPLETE \<longrightarrow> request_complete d) \<and> (st \<noteq> COMPLETE \<longrightarrow> request_complete d = request_complete c) \<and>
     (st = HEADERS_COMPLETE \<longrightarrow> streaming_request d) \<and> (st \<noteq> HEADERS_COMPLETE \<longrightarrow> streaming_request d = streaming_request c)"
proof (induction n arbitrary: pos c)
  case 0 then show ?case by (auto simp: same_threads_def)
next
  case (Suc n)
  obtain ev used s where f: "feed lib (drop pos (read_buffer c)) (parser c) = (ev, used, s)" by (metis prod_cases3)
  have es: "error_state x \<noteq> COMPLETE" "error_state x \<noteq> HEADERS_COMPLETE" for x by (simp_all add: error_state_def)
  show ?case
  proof (cases "ev = HeadersComplete \<and> \<not> stream (req_method (request (impl s))) (req_uri (request (impl s)))")
    case True
    let ?c = "c\<lparr>parser := s, message_started := message_started c \<or> used > 0, headers_parsed := True,
      continue_expected := expect_continue (impl s) \<and> http_version (request (impl s)) = ''HTTP/1.1''\<rparr>"
    have "check_passes lib stream n (pos + used) ?c = (st, pos', d)" using Suc.prems f True by (simp add: Let_def)
    from Suc.IH [OF this] show ?thesis by (simp add: same_threads_def)
  next
    case False
    with Suc.prems f es show ?thesis by (cases ev) (auto simp: Let_def same_threads_def)
  qed
qed

lemma check_same:
  assumes "check_request_state lib stream c = (st, d)"
  shows "same_threads c d \<and> fed d @ read_buffer d = fed c @ read_buffer c \<and>
    (st = COMPLETE \<longleftrightarrow> request_complete d) \<and> (st = HEADERS_COMPLETE \<longrightarrow> streaming_request d) \<and>
    (request_complete c \<or> streaming_request c \<longrightarrow> d = c)"
proof (cases "request_complete c \<or> streaming_request c")
  case True with assms show ?thesis by (auto simp: check_request_state_def same_threads_def split: if_splits)
next
  case False
  obtain pos d' where p: "check_passes lib stream 2 0 c = (st, pos, d')" "d = drop_used pos d'"
    using assms False by (auto simp: check_request_state_def split: prod.splits)
  from check_passes_same [OF p(1)] False p(2) show ?thesis by (auto simp: drop_used_def same_threads_def)
qed


section \<open>Invariants\<close>

definition upgraded :: "'l conn \<Rightarrow> bool" where
  "upgraded c \<longleftrightarrow> conn_state c \<noteq> HTTP \<and> conn_state c \<noteq> HTTP_STREAMING_BODY"

definition live :: "'l conn \<Rightarrow> bool" where
  "live c \<longleftrightarrow> \<not> closing c \<and> \<not> upgraded c"

text \<open>Who owns the connection, and which messages have been handled.\<close>

definition in_turn :: "nat list \<Rightarrow> bool" where
  "in_turn ns \<longleftrightarrow> ns = [0..<length ns]"

lemma in_turn_Nil [simp]: "in_turn []"
  by (simp add: in_turn_def)

lemma in_turn_snoc [simp]: "in_turn ns \<Longrightarrow> length ns = n \<Longrightarrow> in_turn (ns @ [n])"
  by (simp add: in_turn_def)

definition owner_ok :: "'l conn \<Rightarrow> bool" where
  "owner_ok c \<longleftrightarrow>
     in_turn (handled c) \<and>
     (handler c \<noteq> HNone \<longrightarrow> is_processing c \<and> \<not> upgraded c) \<and>
     (is_processing c \<and> handler c = HNone \<longrightarrow> \<not> live c) \<and>
     (conn_state c \<noteq> HTTP \<longrightarrow> is_processing c) \<and>
     (handler c = HChecking \<or> handler c = HReleasing \<longrightarrow> conn_state c = HTTP) \<and>
     (handler c = HRunning \<or> handler c = HResponded \<longrightarrow>
        (request_complete c \<or> streaming_request c) \<and> length (handled c) = Suc (message_no c)) \<and>
     (handler c = HQueued \<or> handler c = HChecking \<or> handler c = HReleasing \<or> \<not> is_processing c \<longrightarrow>
        length (handled c) = message_no c)"

definition awake_ok :: "'l conn \<Rightarrow> bool" where
  "awake_ok c \<longleftrightarrow>
     (live c \<longrightarrow> is_reading c \<or> reader c \<noteq> RIdle \<or> handler c \<noteq> HNone \<or> 0 < rechecking c \<or> 0 < claiming c) \<and>
     (live c \<and> request_complete c \<and> handler c = HNone \<longrightarrow> reader c = RAct COMPLETE \<or> 0 < rechecking c \<or> 0 < claiming c)"

definition bytes_ok :: "'l conn \<Rightarrow> bool" where
  "bytes_ok c \<longleftrightarrow> live c \<longrightarrow> fed c @ read_buffer c = received c"

definition conn_ok :: "'l conn \<Rightarrow> bool" where
  "conn_ok c \<longleftrightarrow> owner_ok c \<and> awake_ok c \<and> bytes_ok c"

lemmas conn_ok_defs = conn_ok_def owner_ok_def awake_ok_def bytes_ok_def live_def upgraded_def

lemma conn_ok_check:
  assumes "check_request_state lib stream c = (st, d)" "conn_ok c"
  shows "owner_ok d \<and> bytes_ok d \<and> live d = live c \<and> upgraded d = upgraded c \<and> reader d = reader c \<and> handler d = handler c \<and>
    is_processing d = is_processing c \<and> rechecking d = rechecking c \<and> claiming d = claiming c \<and> is_reading d = is_reading c \<and>
    conn_state d = conn_state c \<and> closing d = closing c \<and> (st = COMPLETE \<longleftrightarrow> request_complete d) \<and> (st = HEADERS_COMPLETE \<longrightarrow> streaming_request d)"
proof (cases "request_complete c \<or> streaming_request c")
  case True
  with check_same [OF assms(1)] assms(2) show ?thesis by (auto simp: conn_ok_def)
next
  case False
  with check_same [OF assms(1)] assms(2) show ?thesis by (auto simp: conn_ok_defs same_threads_def)
qed

lemma send_continue_simps [simp]:
  "reader (send_continue_if_expected c) = reader c"
  "handler (send_continue_if_expected c) = handler c"
  "is_processing (send_continue_if_expected c) = is_processing c"
  "conn_state (send_continue_if_expected c) = conn_state c"
  "closing (send_continue_if_expected c) = closing c"
  "rechecking (send_continue_if_expected c) = rechecking c"
  "claiming (send_continue_if_expected c) = claiming c"
  "is_reading (send_continue_if_expected c) = is_reading c"
  "read_buffer (send_continue_if_expected c) = read_buffer c"
  "fed (send_continue_if_expected c) = fed c"
  "received (send_continue_if_expected c) = received c"
  "handled (send_continue_if_expected c) = handled c"
  "message_no (send_continue_if_expected c) = message_no c"
  "request_complete (send_continue_if_expected c) = request_complete c"
  "streaming_request (send_continue_if_expected c) = streaming_request c"
  "parser (send_continue_if_expected c) = parser c"
  by (simp_all add: send_continue_if_expected_def)

lemma live_irrelevant [simp]:
  "live (c\<lparr>reader := r\<rparr>) = live c" "live (c\<lparr>is_reading := b\<rparr>) = live c" "live (c\<lparr>rechecking := n\<rparr>) = live c"
  "live (c\<lparr>claiming := n\<rparr>) = live c"
  by (simp_all add: live_def upgraded_def)

lemma owner_irrelevant [simp]:
  "owner_ok (c\<lparr>reader := r\<rparr>) = owner_ok c" "owner_ok (c\<lparr>is_reading := b\<rparr>) = owner_ok c"
  "owner_ok (c\<lparr>rechecking := n\<rparr>) = owner_ok c" "owner_ok (c\<lparr>claiming := n\<rparr>) = owner_ok c"
  by (simp_all add: owner_ok_def live_def upgraded_def)

lemma bytes_irrelevant [simp]:
  "bytes_ok (c\<lparr>reader := r\<rparr>) = bytes_ok c" "bytes_ok (c\<lparr>is_reading := b\<rparr>) = bytes_ok c"
  "bytes_ok (c\<lparr>rechecking := n\<rparr>) = bytes_ok c" "bytes_ok (c\<lparr>claiming := n\<rparr>) = bytes_ok c"
  by (simp_all add: bytes_ok_def live_def upgraded_def)

lemma send_continue_ok: "conn_ok (send_continue_if_expected c) = conn_ok c"
  by (simp add: conn_ok_defs)

lemma dispatch_request_fields [simp]:
  "handler (dispatch_request st c) = HQueued" "is_processing (dispatch_request st c)" "handled (dispatch_request st c) = handled c"
  "message_no (dispatch_request st c) = message_no c" "closing (dispatch_request st c) = closing c" "fed (dispatch_request st c) = fed c"
  "read_buffer (dispatch_request st c) = read_buffer c" "received (dispatch_request st c) = received c"
  "conn_state (dispatch_request st c) = (if st = HEADERS_COMPLETE then HTTP_STREAMING_BODY else conn_state c)"
  by (simp_all add: dispatch_request_def trigger_read_def Let_def)

lemma dispatch_request_ok:
  assumes "owner_ok c" "bytes_ok c" "\<not> upgraded c" "is_processing c \<longrightarrow> handler c = HChecking" "st = COMPLETE \<or> st = HEADERS_COMPLETE"
  shows "conn_ok (dispatch_request st c)"
proof -
  have l: "length (handled c) = message_no c" "in_turn (handled c)" using assms(1,4) unfolding owner_ok_def by blast+
  have u: "\<not> upgraded (dispatch_request st c)" using assms(3) by (simp add: upgraded_def)
  have "owner_ok (dispatch_request st c)" unfolding owner_ok_def using l u by simp
  moreover have "bytes_ok (dispatch_request st c)" using assms(2,3) u by (simp add: bytes_ok_def live_def)
  moreover have "awake_ok (dispatch_request st c)" by (simp add: awake_ok_def)
  ultimately show ?thesis by (simp add: conn_ok_def)
qed

lemma gone_ok: "owner_ok c \<Longrightarrow> \<not> live c \<Longrightarrow> conn_ok c"
  by (simp add: conn_ok_def awake_ok_def bytes_ok_def)

lemma park_ok:
  assumes "conn_ok c" "reader c \<noteq> RAct COMPLETE"
  shows "conn_ok ((trigger_read c)\<lparr>reader := RIdle\<rparr>)"
  using assms by (simp add: conn_ok_def awake_ok_def trigger_read_def)

lemma send_error_ok: "owner_ok c \<Longrightarrow> conn_ok (send_error code c)"
  by (auto simp: conn_ok_defs send_error_def)

lemma streaming_data_ok: "conn_ok c \<Longrightarrow> live c \<longrightarrow> handler c \<noteq> HNone \<Longrightarrow> conn_ok (process_streaming_data lib c)"
  by (auto simp: process_streaming_data_def drop_used_def Let_def send_error_ok split: option.split prod.split Event.split,
      auto simp: conn_ok_defs send_error_def)


lemma streaming_data_reader: "reader (process_streaming_data lib c) = reader c"
  by (simp add: process_streaming_data_def drop_used_def send_error_def Let_def split: option.split prod.split Event.split)

lemma trigger_read_ok: "conn_ok c \<Longrightarrow> conn_ok (trigger_read c)"
  by (auto simp: conn_ok_defs trigger_read_def)

lemma decides_ok:
  assumes "conn_ok c" "reader c = RDecide"
  shows "conn_ok (reader_decides lib c)"
proof (cases "conn_state c = HTTP_STREAMING_BODY")
  case True
  then have "live c \<longrightarrow> handler c \<noteq> HNone" using assms(1) by (auto simp: conn_ok_defs)
  from park_ok [OF streaming_data_ok [OF assms(1) this, of lib]] True assms(2) show ?thesis
    by (simp add: reader_decides_def streaming_data_reader)
next
  case False
  have o: "owner_ok c" "bytes_ok c" and r: "reader c \<noteq> RIdle" using assms by (auto simp: conn_ok_def)
  consider "upgraded c" | "conn_state c = HTTP" "is_processing c" | "conn_state c = HTTP" "\<not> is_processing c"
    using False by (auto simp: upgraded_def)
  then show ?thesis
  proof cases
    case 1
    then have "conn_ok (upgraded_data c)" using o by (simp add: gone_ok live_def upgraded_def owner_ok_def upgraded_data_def)
    from park_ok [OF this] 1 assms(2) show ?thesis by (simp add: reader_decides_def upgraded_def upgraded_data_def)
  next
    case 2
    then have "handler c \<noteq> HNone \<or> \<not> live c" using o by (auto simp: owner_ok_def)
    with 2 o show ?thesis by (auto simp: reader_decides_def conn_ok_def awake_ok_def)
  next
    case 3
    with assms show ?thesis by (simp add: reader_decides_def conn_ok_def awake_ok_def)
  qed
qed

lemma checks_ok:
  assumes "conn_ok c" "reader c = RCheck"
  shows "conn_ok (reader_checks lib stream c)"
proof -
  obtain st d where d: "check_request_state lib stream c = (st, d)" by fastforce
  from conn_ok_check [OF d assms(1)] show ?thesis by (simp add: reader_checks_def d conn_ok_def awake_ok_def)
qed

lemma acts_ok:
  assumes "conn_ok c" "reader c = RAct st"
  shows "conn_ok (reader_acts st c)"
proof -
  have o: "owner_ok (c\<lparr>reader := RIdle\<rparr>)" "bytes_ok (c\<lparr>reader := RIdle\<rparr>)" using assms(1) by (auto simp: conn_ok_defs)
  consider "st = INCOMPLETE" | "st = COMPLETE \<or> st = HEADERS_COMPLETE" "is_processing c"
    | "st = COMPLETE \<or> st = HEADERS_COMPLETE" "\<not> is_processing c" | "st \<noteq> INCOMPLETE" "st \<noteq> COMPLETE" "st \<noteq> HEADERS_COMPLETE"
    by blast
  then show ?thesis
  proof cases
    case 1
    have k: "conn_ok ((trigger_read d)\<lparr>reader := RIdle\<rparr>)" if "d = c \<or> d = send_continue_if_expected c" for d
      using that assms 1 by (intro park_ok) (auto simp: send_continue_ok)
    have "reader_acts st c = (trigger_read (if \<not> is_processing c \<and> headers_parsed c then send_continue_if_expected c else c))\<lparr>reader := RIdle\<rparr>"
      using 1 by (simp add: reader_acts_def trigger_read_def send_continue_if_expected_def)
    with k show ?thesis by simp
  next
    case 2
    then have "handler c \<noteq> HNone \<or> \<not> live c" using assms(1) by (auto simp: conn_ok_def owner_ok_def)
    then have "awake_ok (c\<lparr>reader := RIdle\<rparr>)" using assms by (auto simp: conn_ok_def awake_ok_def)
    with 2 o show ?thesis by (auto simp: reader_acts_def conn_ok_def)
  next
    case 3
    then have "conn_ok (dispatch_request st (c\<lparr>reader := RIdle\<rparr>))"
      using o assms(1) by (intro dispatch_request_ok) (auto simp: conn_ok_defs)
    with 3 show ?thesis by (auto simp: reader_acts_def)
  next
    case 4 then show ?thesis using send_error_ok [OF o(1)] by (simp add: reader_acts_def)
  qed
qed

lemma starts_ok: "conn_ok c \<Longrightarrow> handler c = HQueued \<Longrightarrow> conn_ok (process_request c)"
  by (auto simp: process_request_def send_error_def conn_ok_defs Let_def)

lemma streams_ok:
  assumes "conn_ok c" "handler c = HRunning"
  shows "conn_ok (read_body_stream lib c)"
proof -
  have "conn_ok (c\<lparr>body_owner := Some (message_no c)\<rparr>)" using assms(1) by (auto simp: conn_ok_defs)
  with streaming_data_ok [OF this, of lib] assms(2) show ?thesis by (auto simp: read_body_stream_def Let_def)
qed

lemma resets_ok: "conn_ok c \<Longrightarrow> handler c = HResponded \<Longrightarrow> conn_ok (continue_resets c)"
  by (auto simp: continue_resets_def conn_ok_defs Let_def)

lemma continues_ok:
  assumes "conn_ok c" "handler c = HChecking"
  shows "conn_ok (continue_checks lib stream c)"
proof -
  obtain st d where d: "check_request_state lib stream c = (st, d)" by fastforce
  note k = conn_ok_check [OF d assms(1)]
  have u: "\<not> upgraded d" using k assms by (auto simp: conn_ok_defs)
  show ?thesis
  proof (cases "st = COMPLETE \<or> st = HEADERS_COMPLETE")
    case True
    with k u assms(2) have "conn_ok (dispatch_request st d)" by (intro dispatch_request_ok) auto
    with True show ?thesis by (simp add: continue_checks_def d)
  next
    case False
    with k assms show ?thesis by (auto simp: continue_checks_def d send_error_def conn_ok_defs)
  qed
qed

lemma rechecks_ok:
  assumes "conn_ok c" "0 < rechecking c"
  shows "conn_ok (continue_rechecks lib stream c)"
proof -
  obtain st d where d: "check_request_state lib stream c = (st, d)" by fastforce
  note k = conn_ok_check [OF d assms(1)]
  show ?thesis
  proof (cases "st = COMPLETE")
    case True with k show ?thesis by (simp add: continue_rechecks_def d conn_ok_def awake_ok_def Let_def)
  next
    case False with k show ?thesis by (simp add: continue_rechecks_def d trigger_read_def conn_ok_def awake_ok_def Let_def)
  qed
qed

lemma claims_ok:
  assumes "conn_ok c" "0 < claiming c"
  shows "conn_ok (continue_claims c)"
proof (cases "is_processing c")
  case True then show ?thesis using assms by (auto simp: continue_claims_def conn_ok_defs Let_def)
next
  case False
  then have "conn_ok (dispatch_request COMPLETE (c\<lparr>claiming := claiming c - 1\<rparr>))"
    using assms(1) by (intro dispatch_request_ok) (auto simp: conn_ok_defs)
  with False show ?thesis by (simp add: continue_claims_def)
qed

lemma upgrades_ok:
  assumes "conn_ok c" "handler c = HRunning"
  shows "conn_ok (upgrade_to_websocket leaves c)" "conn_ok (upgrade_to_raw_stream on_data c)"
proof -
  have "conn_ok d" if "upgraded d" "handler d = HNone" "is_processing d = is_processing c" "handled d = handled c" for d :: "'a conn"
    using that assms by (intro gone_ok) (auto simp: live_def conn_ok_def owner_ok_def)
  then show "conn_ok (upgrade_to_websocket leaves c)" "conn_ok (upgrade_to_raw_stream on_data c)"
    by (simp_all add: upgrade_to_websocket_def upgrade_to_raw_stream_def trigger_read_def upgraded_def)
qed

lemma responds_ok:
  assumes "conn_ok c" "handler c = HRunning"
  shows "conn_ok (respond c)"
proof (cases "should_close c")
  case True
  then have "\<not> live (respond c)" by (simp add: respond_def live_def)
  moreover from this have "owner_ok (respond c)" using True assms by (simp add: conn_ok_def owner_ok_def respond_def)
  ultimately show ?thesis by (rule gone_ok [rotated])
next
  case False
  with assms show ?thesis by (simp add: respond_def conn_ok_def owner_ok_def awake_ok_def bytes_ok_def live_def upgraded_def)
qed

lemma releases_ok:
  assumes "conn_ok c" "handler c = HReleasing"
  shows "conn_ok (continue_releases c)"
  using assms by (simp add: continue_releases_def conn_ok_def owner_ok_def awake_ok_def bytes_ok_def live_def upgraded_def)

lemma arrives_ok:
  assumes "conn_ok c" "reader c = RIdle"
  shows "conn_ok (bytes_arrive data c)"
proof -
  have "owner_ok (bytes_arrive data c)" using assms(1) unfolding conn_ok_def bytes_arrive_def owner_ok_def live_def upgraded_def by simp
  moreover have "bytes_ok (bytes_arrive data c)" using assms(1) by (auto simp: conn_ok_def bytes_ok_def bytes_arrive_def live_def upgraded_def)
  moreover have "awake_ok (bytes_arrive data c)"
    using assms by (simp add: conn_ok_def awake_ok_def bytes_arrive_def live_def upgraded_def)
  ultimately show ?thesis by (simp add: conn_ok_def)
qed

lemma conn_do_ok:
  assumes "conn_ok c" "conn_do lib stream a c = Some d"
  shows "conn_ok d"
proof (cases a)
  case (Arrives data) with assms arrives_ok show ?thesis by (auto split: if_splits)
next
  case KeepsReading with assms show ?thesis by (auto simp: keep_reading_def trigger_read_ok split: if_splits)
next
  case Responds with assms show ?thesis by (auto simp: responds_ok split: if_splits)
next
  case (UpgradesWs leaves) with assms show ?thesis by (auto simp: upgrades_ok split: if_splits)
next
  case (UpgradesRaw on_data) with assms show ?thesis by (auto simp: upgrades_ok split: if_splits)
next
  case Releases with assms show ?thesis by (auto simp: releases_ok split: if_splits)
qed (use assms in \<open>auto simp: decides_ok checks_ok acts_ok starts_ok streams_ok resets_ok continues_ok rechecks_ok claims_ok
       split: if_splits reader_at.splits\<close>)

lemma new_conn_ok: "conn_ok (new_conn s)"
  by (simp add: new_conn_def conn_ok_defs)

lemma reachable_conn_ok: "conn_reachable lib stream s c \<Longrightarrow> conn_ok c"
  by (erule conn_invariant) (auto intro: new_conn_ok conn_do_ok)


section \<open>Every byte is heard\<close>

text \<open>
  llhttp announces the head of a message once: after it, the parser asks for more bytes, completes the message or reports an
  error.
\<close>

definition one_head :: "'l llhttp \<Rightarrow> bool" where
  "one_head lib \<longleftrightarrow> (\<forall>data data' s used s'. feed lib data s = (HeadersComplete, used, s') \<longrightarrow> fst (feed lib data' s') \<noteq> HeadersComplete)"

lemma fail_failed: "failed (snd (fail st reason p))"
  by (simp add: fail_def)

lemma feed_NeedMore: "feed lib data s = (NeedMore, used, s') \<Longrightarrow> used = length data"
  by (auto simp: feed_def Let_def split: if_splits prod.splits)

lemma feed_Error: "feed lib data s = (Error, used, s') \<Longrightarrow> failed (impl s')"
  by (auto simp: feed_def Let_def fail_from_llhttp_def parser_fail_def fail_failed split: if_splits prod.splits)

text \<open>What is known of the bytes in the buffer after a check, or between two steps.\<close>

definition heard :: "'l conn \<Rightarrow> bool" where
  "heard c \<longleftrightarrow> read_buffer c = [] \<or> streaming_request c \<or> request_complete c \<or> failed (impl (parser c))"

lemma heard_irrelevant [simp]:
  "heard (c\<lparr>reader := r\<rparr>) = heard c" "heard (c\<lparr>is_reading := b\<rparr>) = heard c" "heard (c\<lparr>rechecking := n\<rparr>) = heard c"
  "heard (c\<lparr>claiming := n\<rparr>) = heard c" "heard (c\<lparr>handler := h\<rparr>) = heard c" "heard (send_continue_if_expected c) = heard c"
  by (simp_all add: heard_def)

lemma passes_heard:
  assumes "one_head lib" "check_passes lib stream 2 0 c = (st, pos, d)"
  shows "heard (drop_used pos d)"
proof -
  obtain ev used s where f: "feed lib (read_buffer c) (parser c) = (ev, used, s)" by (metis prod_cases3)
  obtain ev' used' s' where g: "feed lib (drop used (read_buffer c)) s = (ev', used', s')" by (metis prod_cases3)
  have "ev = HeadersComplete \<Longrightarrow> ev' \<noteq> HeadersComplete" using assms(1) f g unfolding one_head_def by (metis fst_conv)
  with assms(2) f g show ?thesis
    by (cases ev; cases ev')
       (auto simp: numeral_2_eq_2 Let_def heard_def drop_used_def dest: feed_NeedMore feed_Error split: if_splits)
qed

lemma check_heard:
  assumes "one_head lib" "check_request_state lib stream c = (st, d)"
  shows "heard d"
proof (cases "request_complete c \<or> streaming_request c")
  case True
  with assms(2) show ?thesis by (auto simp: check_request_state_def heard_def split: if_splits)
next
  case False
  with assms show ?thesis by (auto simp: check_request_state_def intro: passes_heard split: prod.splits)
qed

definition heard_ok :: "'l conn \<Rightarrow> bool" where
  "heard_ok c \<longleftrightarrow> live c \<longrightarrow> heard c \<or> is_processing c \<or> 0 < rechecking c \<or> reader c = RDecide \<or> reader c = RCheck"

lemma conn_do_heard:
  assumes "one_head lib" "conn_ok c" "heard_ok c" "conn_do lib stream a c = Some d"
  shows "heard_ok d"
proof -
  have p: "handler c \<noteq> HNone \<Longrightarrow> is_processing c" "\<not> is_processing c \<Longrightarrow> conn_state c = HTTP"
    using assms(2) by (auto simp: conn_ok_def owner_ok_def)
  obtain st e where e: "check_request_state lib stream c = (st, e)" by fastforce
  note k = conn_ok_check [OF e assms(2)] and h = check_heard [OF assms(1) e]
  have processing: "is_processing d \<Longrightarrow> heard_ok d" for d :: "'a conn" by (simp add: heard_ok_def)
  have gone: "\<not> live d \<Longrightarrow> heard_ok d" for d :: "'a conn" by (simp add: heard_ok_def)
  show ?thesis
  proof (cases a)
    case (Arrives data)
    with assms(4) show ?thesis by (auto simp: bytes_arrive_def heard_ok_def split: if_splits)
  next
    case Decides
    then have "is_processing d \<or> \<not> live d \<or> reader d = RCheck"
      using assms(4) p(2)
      by (auto simp: reader_decides_def live_def upgraded_def upgraded_data_def trigger_read_def process_streaming_data_def
          drop_used_def send_error_def Let_def split: if_splits option.splits prod.splits Event.splits)
    then show ?thesis using processing gone by (auto simp: heard_ok_def)
  next
    case Checks
    with assms(4) h show ?thesis by (auto simp: reader_checks_def e heard_ok_def split: if_splits)
  next
    case Acts
    then obtain st' where r: "reader c = RAct st'" "d = reader_acts st' c" using assms(4) by (auto split: reader_at.splits)
    show ?thesis
    proof (cases "st' = INCOMPLETE \<or> is_processing c")
      case True
      with r assms(3) show ?thesis
        by (auto simp: reader_acts_def heard_ok_def trigger_read_def send_error_def live_def upgraded_def Let_def)
    next
      case False
      have "\<not> live (send_error code x)" for code and x :: "'a conn" by (simp add: send_error_def live_def)
      moreover have "is_processing (dispatch_request st' x)" for x :: "'a conn" by simp
      ultimately have "is_processing d \<or> \<not> live d" using False r by (simp add: reader_acts_def Let_def)
      then show ?thesis using processing gone by blast
    qed
  next
    case Rechecks
    with assms(4) h k show ?thesis by (auto simp: continue_rechecks_def e heard_ok_def trigger_read_def Let_def split: if_splits)
  next
    case Claims
    then show ?thesis using assms(3,4)
      by (auto simp: continue_claims_def heard_ok_def Let_def split: if_splits)
  next
    case Releases
    with assms(4) show ?thesis by (auto simp: continue_releases_def heard_ok_def split: if_splits)
  next
    case Starts
    then have "is_processing d \<or> \<not> live d" using assms(4) p(1)
      by (auto simp: process_request_def send_error_def live_def Let_def split: if_splits)
    then show ?thesis using processing gone by blast
  next
    case Streams
    then have "is_processing d" using assms(4) p(1)
      by (auto simp: read_body_stream_def process_streaming_data_def drop_used_def send_error_def Let_def
          split: if_splits option.splits prod.splits Event.splits)
    then show ?thesis by (rule processing)
  next
    case Continues
    then have "is_processing d \<or> \<not> live d" using assms(4) p(1) k
      by (auto simp: continue_checks_def e send_error_def live_def split: if_splits)
    then show ?thesis using processing gone by blast
  qed (use assms(4) p(1) in \<open>auto simp: keep_reading_def trigger_read_def respond_def upgrade_to_websocket_def upgrade_to_raw_stream_def
         continue_resets_def Let_def intro!: processing split: if_splits\<close>)
qed

lemma reachable_heard:
  assumes "one_head lib" "conn_reachable lib stream s c"
  shows "heard_ok c"
proof -
  have "conn_ok c \<and> heard_ok c"
    by (rule conn_invariant [OF assms(2)])
       (auto intro: new_conn_ok conn_do_ok conn_do_heard [OF assms(1)], simp add: heard_ok_def heard_def new_conn_def)
  then show ?thesis by simp
qed


section \<open>What holds on every connection\<close>

definition count_ok :: "'l conn \<Rightarrow> bool" where
  "count_ok c \<longleftrightarrow> length (handled c) = message_no c \<or> length (handled c) = Suc (message_no c)"

lemma streaming_data_counts [simp]:
  "handled (process_streaming_data lib c) = handled c" "message_no (process_streaming_data lib c) = message_no c"
  by (simp_all add: process_streaming_data_def drop_used_def send_error_def Let_def split: option.split prod.split Event.split)

lemma check_counts:
  "check_request_state lib stream c = (st, d) \<Longrightarrow> handled d = handled c \<and> message_no d = message_no c"
  by (drule check_same) (simp add: same_threads_def)

lemma conn_do_counts:
  assumes "conn_do lib stream a c = Some d" "a \<noteq> Starts" "a \<noteq> Resets"
  shows "handled d = handled c \<and> message_no d = message_no c"
proof -
  have "(case check_request_state lib stream c of (st, e) \<Rightarrow> handled e = handled c \<and> message_no e = message_no c)"
    using check_counts by fastforce
  with assms show ?thesis
    by (cases a) (auto simp: bytes_arrive_def reader_decides_def upgraded_data_def reader_checks_def reader_acts_def dispatch_request_def
        trigger_read_def send_error_def read_body_stream_def keep_reading_def respond_def upgrade_to_websocket_def
        upgrade_to_raw_stream_def continue_checks_def continue_releases_def continue_rechecks_def continue_claims_def Let_def
        split: if_splits prod.splits reader_at.splits)
qed

lemma conn_do_count_ok:
  assumes "conn_ok c" "count_ok c" "conn_do lib stream a c = Some d"
  shows "count_ok d"
proof -
  consider "a = Starts" | "a = Resets" | "a \<noteq> Starts" "a \<noteq> Resets" by blast
  then show ?thesis
  proof cases
    case 1
    then have "handler c = HQueued" "d = process_request c" using assms(3) by (auto split: if_splits)
    with assms(1) show ?thesis by (simp add: count_ok_def conn_ok_def owner_ok_def process_request_def send_error_def Let_def)
  next
    case 2
    then have "handler c = HResponded" "d = continue_resets c" using assms(3) by (auto split: if_splits)
    with assms(1) show ?thesis by (simp add: count_ok_def conn_ok_def owner_ok_def continue_resets_def Let_def)
  next
    case 3
    with conn_do_counts [OF assms(3)] assms(2) show ?thesis by (simp add: count_ok_def)
  qed
qed

lemma reachable_count_ok:
  assumes "conn_reachable lib stream s c"
  shows "count_ok c"
proof -
  have "conn_ok c \<and> count_ok c"
    using assms by (rule conn_invariant) (auto simp: new_conn_ok conn_do_ok conn_do_count_ok, simp add: count_ok_def new_conn_def)
  then show ?thesis by simp
qed

text \<open>
  C1: Requests on a connection are given to a handler one at a time, each once, in the order in which they arrived: the list of
  the messages handled so far is 0, 1, 2 and so on, the parser has moved past all of them but possibly the last, and a handler
  that runs has the last one, which the parser still holds.
\<close>

theorem requests_in_order:
  assumes "conn_reachable lib stream s c"
  shows "handled c = [0..<length (handled c)] \<and>
    length (handled c) \<in> {message_no c, Suc (message_no c)} \<and>
    (handler c = HRunning \<longrightarrow> handled c = [0..<Suc (message_no c)] \<and> (request_complete c \<or> streaming_request c))"
proof -
  have o: "owner_ok c" and n: "count_ok c" using reachable_conn_ok [OF assms] reachable_count_ok [OF assms] by (auto simp: conn_ok_def)
  have t: "handled c = [0..<length (handled c)]" using o by (simp add: owner_ok_def in_turn_def)
  have "handled c = [0..<Suc (message_no c)] \<and> (request_complete c \<or> streaming_request c)" if "handler c = HRunning"
    using o that t unfolding owner_ok_def by metis
  with t n show ?thesis by (auto simp: count_ok_def)
qed

text \<open>
  Every byte that was received is given to the parser once and in the order of arrival, or is still in the buffer, for as long as
  the connection speaks HTTP and has not begun to close.
\<close>

theorem bytes_conserved:
  assumes "conn_reachable lib stream s c" "\<not> closing c" "conn_state c \<in> {HTTP, HTTP_STREAMING_BODY}"
  shows "received c = fed c @ read_buffer c"
  using reachable_conn_ok [OF assms(1)] assms(2,3) by (auto simp: conn_ok_def bytes_ok_def live_def upgraded_def)

text \<open>
  C13: A connection does not go to sleep on a request: when no thread is at work on a connection that speaks HTTP and has not begun to
  close, it is waiting for bytes, the parser has been given every byte that was received, and it has not completed a request
  that is not handled. There are two exceptions, which the conclusion names. Both come from the last check of
  \<^verbatim>\<open>continue_after_response\<close>, which acts on complete requests only: if that check meets the head of an upload to a
  stream route, or bytes the parser refuses, the upload or the error answer waits until more bytes arrive (lemmas
  \<open>upload_not_dispatched\<close> and \<open>refused_not_answered\<close>). (llhttp announces the head of a message once.)
\<close>

theorem no_request_stranded:
  assumes "one_head lib" "conn_reachable lib stream s c" "\<not> closing c" "conn_state c \<in> {HTTP, HTTP_STREAMING_BODY}"
    and "reader c = RIdle" "handler c = HNone" "rechecking c = 0" "claiming c = 0"
  shows "is_reading c \<and> \<not> request_complete c \<and> \<not> is_processing c \<and>
    (read_buffer c = [] \<and> fed c = received c \<or> streaming_request c \<or> failed (impl (parser c)))"
proof -
  have k: "conn_ok c" by (rule reachable_conn_ok [OF assms(2)])
  have l: "live c" using assms(3,4) by (auto simp: live_def upgraded_def)
  have np: "\<not> is_processing c" using k l assms(6) by (auto simp: conn_ok_def owner_ok_def)
  have a: "is_reading c \<and> \<not> request_complete c" using k l assms(5-8) by (auto simp: conn_ok_def awake_ok_def)
  with reachable_heard [OF assms(1,2)] l np assms(5,7) have "read_buffer c = [] \<or> streaming_request c \<or> failed (impl (parser c))"
    by (auto simp: heard_ok_def heard_def)
  with a np k l show ?thesis by (auto simp: conn_ok_def bytes_ok_def)
qed

lemma streaming_data_parser:
  "parser (process_streaming_data lib c) =
     (if body_owner c \<noteq> None \<and> streaming_request c \<and> \<not> request_complete c \<and> read_buffer c \<noteq> []
      then snd (snd (feed lib (read_buffer c) (set_body_handler (parser c)))) else parser c)"
proof -
  obtain ev used s where f: "feed lib (read_buffer c) (set_body_handler (parser c)) = (ev, used, s)" by (metis prod_cases3)
  show ?thesis
    by (cases "body_owner c"; cases ev)
       (simp_all add: process_streaming_data_def drop_used_def send_error_def Let_def f)
qed

lemma check_parser:
  "request_complete c \<or> streaming_request c \<Longrightarrow> check_request_state lib stream c = (st, d) \<Longrightarrow> parser d = parser c"
  by (auto simp: check_request_state_def split: if_splits)

text \<open>
  C14: While a handler runs, no thread touches the request it was given: whatever step is taken next, the parser that holds the request is
  as it was, unless the request's body is being streamed, and then it was fed the buffered bytes for the body callback.
\<close>

theorem running_request_untouched:
  assumes "conn_reachable lib stream s c" "handler c = HRunning" "conn_do lib stream a c = Some d" "parser d \<noteq> parser c"
  shows "streaming_request c \<and> \<not> request_complete c \<and>
    parser d = snd (snd (feed lib (read_buffer c) (set_body_handler (parser c))))"
proof -
  have "request_complete c \<or> streaming_request c" using reachable_conn_ok [OF assms(1)] assms(2) by (simp add: conn_ok_def owner_ok_def)
  then have ch: "case check_request_state lib stream c of (st, e) \<Rightarrow> parser e = parser c" using check_parser by fastforce
  have "parser d = parser c \<or> parser d = parser (process_streaming_data lib c) \<or>
      parser d = parser (process_streaming_data lib (c\<lparr>body_owner := Some (message_no c)\<rparr>))"
    using assms(2,3) ch
    by (cases a) (auto simp: bytes_arrive_def reader_decides_def upgraded_data_def reader_checks_def reader_acts_def dispatch_request_def
        trigger_read_def send_error_def read_body_stream_def keep_reading_def respond_def upgrade_to_websocket_def
        upgrade_to_raw_stream_def continue_rechecks_def continue_claims_def Let_def
        split: if_splits prod.splits reader_at.splits)
  with assms(4) show ?thesis by (auto simp: streaming_data_parser split: if_splits)
qed


section \<open>Examples\<close>

text \<open>
  A parser library for examples, in which one letter stands for a piece of a message: \<^verbatim>\<open>G\<close> is a whole request without a body,
  \<^verbatim>\<open>E\<close> is not HTTP, \<^verbatim>\<open>P\<close> is the head of an upload to a stream route, and any letter after it the upload's body.
\<close>

definition letter_head :: "bool \<Rightarrow> head_info" where
  "letter_head body = \<lparr>http_major = 1, http_minor = 1, f_chunked = body, f_content_length = False, content_length = 0\<rparr>"

definition letter_llhttp :: "bool llhttp" where
  "letter_llhttp =
     \<lparr>ll_run = (\<lambda>in_body data.
        case data of
          [] \<Rightarrow> ([], HPE_OK, 0, in_body)
        | ch # _ \<Rightarrow>
            if in_body then ([(OnBody [ch], 1, True), (OnMessageComplete False, 1, False)], HPE_OK, 1, False)
            else if ch = CHR ''E'' then ([], HPE_OTHER 1, 0, False)
            else if ch = CHR ''G''
            then ([(OnMethod ''GET'', 0, False), (OnUrl ''/'', 0, False), (OnHeadersComplete (letter_head False), 1, False),
                   (OnMessageComplete False, 1, False)], HPE_OK, 1, False)
            else ([(OnMethod ''POST'', 0, False), (OnUrl ''/up'', 0, False), (OnHeadersComplete (letter_head True), 1, True)],
                  HPE_OK, 1, True)),
      ll_reason = (\<lambda>_ _. ''error'')\<rparr>"

text \<open>The library announces a head only outside a body, and is in one after it did.\<close>

lemma letters_pause:
  "fst (on_method m p) \<noteq> Pause" "fst (on_url u p) \<noteq> Pause" "fst (on_body b p) \<noteq> Pause"
  "fst (on_headers_complete (letter_head False) p) \<noteq> Pause"
  by (auto simp: on_method_def on_url_def on_body_def on_headers_complete_def letter_head_def fail_def Let_def
      split: sum.splits option.splits)

lemma letters_no_pause:
  "on_method m p \<noteq> (Pause, q)" "on_url u p \<noteq> (Pause, q)" "on_body b p \<noteq> (Pause, q)"
  "on_headers_complete (letter_head False) p \<noteq> (Pause, q)"
  using letters_pause by (metis fst_conv)+

lemma letters_execute:
  assumes "llhttp_execute letter_llhttp data s = (err, pos, s')" "ll_errno s = HPE_OK"
  shows "err \<noteq> HPE_PAUSED_UPGRADE \<and> (err = HPE_PAUSED \<and> ll s \<longrightarrow> message_done (impl s')) \<and>
    (err = HPE_PAUSED \<and> \<not> message_done (impl s') \<longrightarrow> ll s')"
  using assms
  by (cases data; cases "ll s")
     (auto simp: llhttp_execute_def letter_llhttp_def on_message_complete_def letters_no_pause
        split: if_splits prod.splits cb_result.splits)

lemma letters_feed_execute:
  assumes "feed_execute letter_llhttp data s = (err, pos, s')"
  shows "err = HPE_PAUSED_UPGRADE \<Longrightarrow> message_done (impl s')" "err = HPE_PAUSED \<Longrightarrow> ll s \<Longrightarrow> message_done (impl s')"
    "err = HPE_PAUSED \<Longrightarrow> \<not> message_done (impl s') \<Longrightarrow> ll s'"
proof -
  let ?r = "llhttp_resume s"
  obtain err1 pos1 s1 where 1: "llhttp_execute letter_llhttp data ?r = (err1, pos1, s1)" by (metis prod_cases3)
  obtain err2 pos2 s2 where 2: "llhttp_execute letter_llhttp data (llhttp_resume_after_upgrade s1) = (err2, pos2, s2)" by (metis prod_cases3)
  have r: "ll ?r = ll s" "ll_errno ?r \<noteq> HPE_PAUSED" by (simp_all add: llhttp_resume_def)
  show "err = HPE_PAUSED_UPGRADE \<Longrightarrow> message_done (impl s')" "err = HPE_PAUSED \<Longrightarrow> ll s \<Longrightarrow> message_done (impl s')"
    "err = HPE_PAUSED \<Longrightarrow> \<not> message_done (impl s') \<Longrightarrow> ll s'"
  proof (atomize (full), cases "ll_errno ?r = HPE_OK")
    case True
    with assms 1 letters_execute [OF 1] r
    show "(err = HPE_PAUSED_UPGRADE \<longrightarrow> message_done (impl s')) \<and> (err = HPE_PAUSED \<longrightarrow> ll s \<longrightarrow> message_done (impl s')) \<and>
      (err = HPE_PAUSED \<longrightarrow> \<not> message_done (impl s') \<longrightarrow> ll s')"
      by (auto simp: feed_execute_def)
  next
    case False
    then have "err1 = ll_errno ?r" "s1 = ?r" using 1 by (auto simp: llhttp_execute_def)
    moreover from this have "ll_errno (llhttp_resume_after_upgrade s1) = HPE_OK" "ll (llhttp_resume_after_upgrade s1) = ll s"
      if "err1 = HPE_PAUSED_UPGRADE" using that r(1) by (simp_all add: llhttp_resume_after_upgrade_def)
    ultimately show "(err = HPE_PAUSED_UPGRADE \<longrightarrow> message_done (impl s')) \<and> (err = HPE_PAUSED \<longrightarrow> ll s \<longrightarrow> message_done (impl s')) \<and>
      (err = HPE_PAUSED \<longrightarrow> \<not> message_done (impl s') \<longrightarrow> ll s')"
      using assms 1 2 letters_execute [OF 2] r by (auto simp: feed_execute_def split: if_splits)
  qed
qed

lemma count_header_keeps: "message_done (impl (count_header_bytes b err n s)) = message_done (impl s)" "ll (count_header_bytes b err n s) = ll s"
  by (simp_all add: count_header_bytes_def parser_fail_def fail_def Let_def)

lemma letters_one_head: "one_head letter_llhttp"
  unfolding one_head_def
proof (intro allI impI)
  have ev: "fst (feed letter_llhttp data s) = HeadersComplete \<Longrightarrow> \<not> ll s \<and> ll (snd (snd (feed letter_llhttp data s)))"
    for data and s :: "bool Http1Parser"
  proof -
    obtain err pos s1 where e: "feed_execute letter_llhttp data s = (err, pos, s1)" by (metis prod_cases3)
    assume "fst (feed letter_llhttp data s) = HeadersComplete"
    with letters_feed_execute [OF e] show ?thesis
      by (auto simp: feed_def e Let_def count_header_keeps split: if_splits)
  qed
  fix data data' and s :: "bool Http1Parser" and used s'
  assume "feed letter_llhttp data s = (HeadersComplete, used, s')"
  then have "ll s'" using ev [of data s] by simp
  then show "fst (feed letter_llhttp data' s') \<noteq> HeadersComplete" using ev [of data' s'] by blast
qed

definition uploads :: "HttpMethod \<Rightarrow> string \<Rightarrow> bool" where
  "uploads m uri \<longleftrightarrow> uri = ''/up''"

abbreviation letter_conn :: "bool conn" where
  "letter_conn \<equiv> new_conn (new_parser False demo_limits)"

abbreviation run_letters :: "conn_action list \<Rightarrow> bool conn option" where
  "run_letters as \<equiv> conn_run letter_llhttp uploads as letter_conn"

lemma run_letters_reachable: "run_letters as = Some c \<Longrightarrow> conn_reachable letter_llhttp uploads (new_parser False demo_limits) c"
  by (rule conn_run_reachable)

text \<open>Two pipelined requests, up to the point where the second one runs; and an upload whose body has begun to arrive.\<close>

definition two_requests :: "conn_action list" where
  "two_requests = [Arrives ''GG'', Decides, Checks, Acts, Starts, Responds, Resets, Continues, Starts]"

definition one_upload :: "conn_action list" where
  "one_upload = [Arrives ''P'', Decides, Checks, Acts, Starts, Arrives ''x'']"

lemma two_requests_run:
  "map_option (\<lambda>c. (handled c, handler c, closing c, conn_state c, received c)) (run_letters two_requests) =
   Some ([0, 1], HRunning, False, HTTP, ''GG'')"
  by code_simp

theorem requests_in_order_witness:
  "\<exists>c. run_letters two_requests = Some c \<and> handler c = HRunning \<and> handled c = [0, 1] \<and> handled c = [0..<Suc (message_no c)]"
proof -
  obtain c where c: "run_letters two_requests = Some c" "handler c = HRunning" "handled c = [0, 1]" using two_requests_run by auto
  with requests_in_order [OF run_letters_reachable [OF c(1)]] show ?thesis by auto
qed

theorem bytes_conserved_witness:
  "\<exists>c. run_letters two_requests = Some c \<and> received c = ''GG'' \<and> received c = fed c @ read_buffer c"
proof -
  obtain c where c: "run_letters two_requests = Some c" "\<not> closing c" "conn_state c = HTTP" "received c = ''GG''"
    using two_requests_run by auto
  with bytes_conserved [OF run_letters_reachable [OF c(1)]] show ?thesis by auto
qed

theorem no_request_stranded_witness:
  "\<exists>c. run_letters (two_requests @ [Responds, Resets, Continues, Releases, Rechecks]) = Some c \<and>
       handled c = [0, 1] \<and> received c = ''GG'' \<and> is_reading c \<and> \<not> request_complete c \<and> \<not> is_processing c \<and> fed c = ''GG''"
proof -
  have "map_option (\<lambda>c. (received c, streaming_request c, failed (impl (parser c)), handled c, closing c, conn_state c, reader c, handler c, rechecking c, claiming c))
      (run_letters (two_requests @ [Responds, Resets, Continues, Releases, Rechecks])) =
      Some (''GG'', False, False, [0, 1], False, HTTP, RIdle, HNone, 0, 0)" by code_simp
  then obtain c where c: "run_letters (two_requests @ [Responds, Resets, Continues, Releases, Rechecks]) = Some c"
    "handled c = [0, 1]" "\<not> closing c" "conn_state c = HTTP" "reader c = RIdle" "handler c = HNone" "rechecking c = 0" "claiming c = 0"
    "received c = ''GG''" "\<not> streaming_request c" "\<not> failed (impl (parser c))"
    by auto
  with no_request_stranded [OF letters_one_head run_letters_reachable [OF c(1)]] show ?thesis by auto
qed

theorem running_request_untouched_witness:
  "\<exists>c d. run_letters one_upload = Some c \<and> conn_do letter_llhttp uploads Streams c = Some d \<and> request_complete d \<and>
     parser d = snd (snd (feed letter_llhttp (read_buffer c) (set_body_handler (parser c))))"
proof -
  have "map_option (\<lambda>c. (handler c, message_done (impl (parser c)),
      map_option (\<lambda>d. (request_complete d, message_done (impl (parser d)))) (conn_do letter_llhttp uploads Streams c)))
      (run_letters one_upload) = Some (HRunning, False, Some (True, True))" by code_simp
  then obtain c d where c: "run_letters one_upload = Some c" "handler c = HRunning" "conn_do letter_llhttp uploads Streams c = Some d"
    "request_complete d" "message_done (impl (parser d)) \<noteq> message_done (impl (parser c))" by auto
  then have "parser d \<noteq> parser c" by auto
  from running_request_untouched [OF run_letters_reachable [OF c(1)] c(2,3) this] c show ?thesis by blast
qed

text \<open>
  Three interleavings the code does not mean to allow. In the first, the event loop has found a request and is about to claim it, while
  a thread that leaves \<^verbatim>\<open>continue_after_response\<close> finds the same request, has it handled, and releases the connection: the event
  loop's claim then succeeds although there is no request, and the client, which sent two requests and got two answers, is sent a
  third, 400, and disconnected.
\<close>

lemma stale_claim_sends_400:
  "map_option (\<lambda>c. (received c, handled c, events c))
     (run_letters [Arrives ''G'', Decides, Checks, Acts, Starts, KeepsReading, Responds, Resets, Continues,
        Arrives ''G'', Releases, Decides, Checks, Rechecks, Claims, Starts, Responds, Resets, Continues, Releases, Acts, Starts]) =
   Some (''GG'', [0, 1], [SentError 400])"
  by code_simp

text \<open>
  In the second, the head of an upload is found by the last check of \<^verbatim>\<open>continue_after_response\<close>, which knows only complete
  requests: nobody handles the upload, although all of it has been received, and the connection just waits for more.
\<close>

lemma upload_not_dispatched:
  "map_option (\<lambda>c. (received c, streaming_request c, handled c, is_processing c, reader c, handler c, rechecking c, claiming c))
     (run_letters [Arrives ''G'', Decides, Checks, Acts, Starts, KeepsReading, Responds, Resets, Continues,
        Arrives ''Px'', Decides, Releases, Rechecks]) =
   Some (''GPx'', True, [0], False, RIdle, HNone, 0, 0)"
  by code_simp

text \<open>Bytes the parser refuses, found by the same check: no error is sent, and the connection waits for more.\<close>

lemma refused_not_answered:
  "map_option (\<lambda>c. (received c, failed (impl (parser c)), events c, is_processing c, reader c, handler c, rechecking c, claiming c))
     (run_letters [Arrives ''G'', Decides, Checks, Acts, Starts, KeepsReading, Responds, Resets, Continues,
        Arrives ''E'', Decides, Releases, Rechecks]) =
   Some (''GE'', True, [], False, RIdle, HNone, 0, 0)"
  by code_simp

text \<open>
  In the third, the body of a second upload arrives before its handler has asked for it, and goes to the callback
  that the first upload's handler installed.
\<close>

lemma body_goes_to_old_callback:
  "map_option (\<lambda>c. (body_log c, handled c))
     (run_letters [Arrives ''P'', Decides, Checks, Acts, Starts, Streams, Arrives ''x'', Decides, Responds, Resets, Continues, Releases,
        Rechecks, Arrives ''P'', Decides, Checks, Acts, Arrives ''y'', Decides]) =
   Some ([(0, 0), (0, 1)], [0])"
  by code_simp

end
