(* ===== verification/Json_Values.thy ===== *)
theory Json_Values
  imports C_Numbers
begin

text \<open>
  JSON values as \<^verbatim>\<open>include/orbit/http/json.hpp\<close> has them (\<^verbatim>\<open>value_t\<close>, less binary values, which no caller uses; a value
  that was \<^verbatim>\<open>discarded\<close> is the result \<open>None\<close> of parsing). Parsing and printing are the library's and parameters of the code
  that calls them. An object is the list of its fields in the order of its \<^verbatim>\<open>std::map\<close>.
\<close>

datatype json =
    JNull
  | JObject "(string \<times> json) list"
  | JArray "json list"
  | JString string
  | JBool bool
  | JInt int
  | JUnsigned nat
  | JFloat double

fun json_field :: "string \<Rightarrow> json \<Rightarrow> json option" where
  "json_field k (JObject fs) = map_of fs k"
| "json_field k _ = None"

fun json_string :: "json \<Rightarrow> string option" where
  "json_string (JString s) = Some s"
| "json_string _ = None"

definition json_string_field :: "string \<Rightarrow> json \<Rightarrow> string option" where
  "json_string_field k j = Option.bind (json_field k j) json_string"

fun is_object :: "json \<Rightarrow> bool" where
  "is_object (JObject _) = True"
| "is_object _ = False"

text \<open>\<^verbatim>\<open>j[k] = v\<close> on the fields of an object: a field that is there is replaced, a new one goes to its place in the order.\<close>

fun str_less :: "string \<Rightarrow> string \<Rightarrow> bool" where
  "str_less a [] \<longleftrightarrow> False"
| "str_less [] (d # b) \<longleftrightarrow> True"
| "str_less (c # a) (d # b) \<longleftrightarrow> byte_of c < byte_of d \<or> c = d \<and> str_less a b"

fun fields_put :: "string \<Rightarrow> json \<Rightarrow> (string \<times> json) list \<Rightarrow> (string \<times> json) list" where
  "fields_put k v [] = [(k, v)]"
| "fields_put k v ((k', v') # fs) =
     (if k = k' then (k, v) # fs else if str_less k k' then (k, v) # (k', v') # fs else (k', v') # fields_put k v fs)"

definition fields_erase :: "string \<Rightarrow> (string \<times> json) list \<Rightarrow> (string \<times> json) list" where
  "fields_erase k fs = filter (\<lambda>f. fst f \<noteq> k) fs"

lemma map_of_fields_put [simp]: "map_of (fields_put k v fs) = (map_of fs)(k \<mapsto> v)"
  by (induction fs) auto

lemma map_of_fields_erase [simp]: "map_of (fields_erase k fs) = (map_of fs)(k := None)"
  by (induction fs) (auto simp: fields_erase_def)

lemma fst_fields_put [simp]: "fst ` set (fields_put k v fs) = insert k (fst ` set fs)"
  by (induction k v fs rule: fields_put.induct) (simp_all add: insert_commute)

end
