(* ===== verification/Query_Builder.thy ===== *)
theory Query_Builder
  imports Json_Values "HOL-Library.Word"
begin

text \<open>
  The query builder of the object-relational mapper (\<^verbatim>\<open>include/orbit/orm/QueryBuilder.hpp\<close>) and the rows it reads
  (\<^verbatim>\<open>include/orbit/database/ResultSet.hpp\<close>): identifiers and operators that are checked before they become part of a
  statement, conditions, the five statements, and how a statement and its values are sent to PostgreSQL (bound parameters) or
  to MySQL (escaped literals; the client's \<^verbatim>\<open>escape\<close> is a parameter). An exception is a value of \<open>orm_error\<close>. A model is the
  JSON object it serialises to.

  The theorems: a statement has as many placeholders as values; what MySQL reads back from the text it is sent is the
  statement as it was built and the values as they were given, whatever they contain, and PostgreSQL's numbered
  placeholders are the values in order; an update or delete has a condition unless all rows were asked for; and
  a row is read by the types of the model's fields.
\<close>

section \<open>Identifiers and operators\<close>

datatype orm_error = InvalidArgument string | LogicError string | DatabaseError string

type_synonym Params = "string option list"

fun ident_scan :: "bool \<Rightarrow> string \<Rightarrow> bool" where
  "ident_scan part_start [] \<longleftrightarrow> \<not> part_start"
| "ident_scan part_start (c # cs) \<longleftrightarrow>
     (if c = CHR ''.'' then \<not> part_start \<and> ident_scan True cs
      else (isalpha c \<or> c = CHR ''_'' \<or> isdigit c \<and> \<not> part_start) \<and> ident_scan False cs)"

definition is_identifier :: "string \<Rightarrow> bool" where
  "is_identifier s \<longleftrightarrow> s \<noteq> [] \<and> ident_scan True s"

definition checked_identifier :: "string \<Rightarrow> orm_error + string" where
  "checked_identifier s =
     (if is_identifier s then Inr s else Inl (InvalidArgument (''Invalid SQL identifier: '' @ s)))"

definition reserved_words :: "string list" where
  "reserved_words =
     [''all'', ''and'', ''any'', ''as'', ''asc'', ''between'', ''both'', ''by'', ''case'', ''check'', ''column'', ''constraint'',
      ''create'', ''cross'', ''current_date'', ''current_time'', ''current_timestamp'', ''current_user'', ''default'',
      ''delete'', ''desc'', ''distinct'', ''do'', ''else'', ''end'', ''except'', ''exists'', ''false'', ''fetch'', ''for'',
      ''foreign'', ''from'', ''full'', ''grant'', ''group'', ''having'', ''in'', ''index'', ''inner'', ''insert'', ''intersect'',
      ''into'', ''is'', ''join'', ''key'', ''leading'', ''left'', ''like'', ''limit'', ''natural'', ''not'', ''null'', ''offset'',
      ''on'', ''only'', ''or'', ''order'', ''outer'', ''primary'', ''references'', ''returning'', ''right'', ''select'',
      ''session_user'', ''set'', ''some'', ''table'', ''then'', ''to'', ''trailing'', ''true'', ''union'', ''unique'', ''update'',
      ''user'', ''using'', ''values'', ''when'', ''where'', ''window'', ''with'']"

definition is_reserved_word :: "string \<Rightarrow> bool" where
  "is_reserved_word s \<longleftrightarrow> map tolower s \<in> set reserved_words"

abbreviation kQuoteMark :: char where
  "kQuoteMark \<equiv> CHR 0x01"

definition mark_part :: "string \<Rightarrow> string" where
  "mark_part part = (if is_reserved_word part then kQuoteMark # part @ [kQuoteMark] else part)"

definition ident :: "string \<Rightarrow> orm_error + string" where
  "ident name =
     (case checked_identifier name of
        Inl e \<Rightarrow> Inl e
      | Inr s \<Rightarrow> Inr (join ''.'' (map mark_part (split_on (CHR ''.'') s))))"

definition render_identifiers :: "bool \<Rightarrow> string \<Rightarrow> string" where
  "render_identifiers mysql sql =
     map (\<lambda>c. if c = kQuoteMark then (if mysql then CHR 0x60 else CHR 0x22) else c) sql"

definition allowed_operators :: "string list" where
  "allowed_operators = [''='', ''!='', ''<>'', ''<'', ''<='', ''>'', ''>='', ''LIKE'', ''NOT LIKE'', ''ILIKE'', ''NOT ILIKE'']"

definition checked_operator :: "string \<Rightarrow> orm_error + string" where
  "checked_operator op =
     (if op \<in> set allowed_operators then Inr op
      else Inl (InvalidArgument (''Unsupported SQL comparison operator: '' @ op)))"


section \<open>Values\<close>

text \<open>The types a value may have; a floating-point value is the text the stream prints for it.\<close>

datatype bindable = BBool bool | BInteger int | BFloat string | BText string

fun to_param :: "bindable \<Rightarrow> string option" where
  "to_param (BBool b) = Some (if b then ''1'' else ''0'')"
| "to_param (BInteger i) = Some (show_int i)"
| "to_param (BFloat text) = Some text"
| "to_param (BText s) = Some s"

fun json_to_param :: "(json \<Rightarrow> string) \<Rightarrow> json \<Rightarrow> string option" where
  "json_to_param dump JNull = None"
| "json_to_param dump (JString s) = Some s"
| "json_to_param dump (JBool b) = Some (if b then ''1'' else ''0'')"
| "json_to_param dump v = Some (dump v)"

fun number_placeholders_from :: "nat \<Rightarrow> string \<Rightarrow> string" where
  "number_placeholders_from n [] = []"
| "number_placeholders_from n (c # cs) =
     (if c = CHR ''?'' then CHR ''$'' # show_nat (n + 1) @ number_placeholders_from (n + 1) cs
      else c # number_placeholders_from n cs)"

definition number_placeholders :: "string \<Rightarrow> string" where
  "number_placeholders sql = number_placeholders_from 0 sql"

definition literal :: "(string \<Rightarrow> string) \<Rightarrow> string option \<Rightarrow> string" where
  "literal escape p = (case p of Some v \<Rightarrow> CHR 0x27 # escape v @ [CHR 0x27] | None \<Rightarrow> ''NULL'')"

fun inline_literals :: "(string \<Rightarrow> string) \<Rightarrow> string \<Rightarrow> Params \<Rightarrow> orm_error + string" where
  "inline_literals escape [] ps = Inr []"
| "inline_literals escape (c # cs) ps =
     (if c \<noteq> CHR ''?'' then map_sum id ((#) c) (inline_literals escape cs ps)
      else (case ps of
              [] \<Rightarrow> Inl (LogicError ''Fewer parameters than placeholders'')
            | p # ps' \<Rightarrow> map_sum id ((@) (literal escape p)) (inline_literals escape cs ps')))"


section \<open>Conditions and queries\<close>

record Expr =
  expr_sql :: string
  expr_params :: Params

definition Expr_and :: "Expr \<Rightarrow> Expr \<Rightarrow> Expr" where
  "Expr_and a b = \<lparr>expr_sql = ''('' @ expr_sql a @ '' AND '' @ expr_sql b @ '')'', expr_params = expr_params a @ expr_params b\<rparr>"

definition Expr_or :: "Expr \<Rightarrow> Expr \<Rightarrow> Expr" where
  "Expr_or a b = \<lparr>expr_sql = ''('' @ expr_sql a @ '' OR '' @ expr_sql b @ '')'', expr_params = expr_params a @ expr_params b\<rparr>"

text \<open>A column compared with a value; the class has one operator for each of \<open>Col_op\<close>.\<close>

datatype Col_op = Eq | Ne | Gt | Lt | Ge | Le

fun op_text :: "Col_op \<Rightarrow> string" where
  "op_text Eq = ''=''"
| "op_text Ne = ''!=''"
| "op_text Gt = ''>''"
| "op_text Lt = ''<''"
| "op_text Ge = ''>=''"
| "op_text Le = ''<=''"

definition Col_make :: "string \<Rightarrow> Col_op \<Rightarrow> bindable \<Rightarrow> orm_error + Expr" where
  "Col_make name op v = map_sum id (\<lambda>n. \<lparr>expr_sql = n @ '' '' @ op_text op @ '' ?'', expr_params = [to_param v]\<rparr>) (ident name)"

record Statement =
  st_sql :: string
  st_params :: Params

datatype Order = Asc | Desc

record QueryBuilder =
  mysql_client :: bool
  table :: string
  wheres :: "Expr list"
  orders :: "string list"
  limit :: "64 word option"
  offset :: "64 word option"
  all_rows :: bool
  primary_key :: string

definition new_query :: "bool \<Rightarrow> string \<Rightarrow> orm_error + QueryBuilder" where
  "new_query mysql t =
     map_sum id (\<lambda>n. \<lparr>mysql_client = mysql, table = n, wheres = [], orders = [], limit = None, offset = None, all_rows = False,
                     primary_key = ''id''\<rparr>) (ident t)"

definition where_field :: "string \<Rightarrow> string \<Rightarrow> string \<Rightarrow> QueryBuilder \<Rightarrow> orm_error + QueryBuilder" where
  "where_field field op v q =
     (case ident field of
        Inl e \<Rightarrow> Inl e
      | Inr n \<Rightarrow>
          map_sum id (\<lambda>o'. q\<lparr>wheres := wheres q @ [\<lparr>expr_sql = n @ '' '' @ o' @ '' ?'', expr_params = [Some v]\<rparr>]\<rparr>)
            (checked_operator op))"

definition where_expr :: "Expr \<Rightarrow> QueryBuilder \<Rightarrow> QueryBuilder" where
  "where_expr e q = q\<lparr>wheres := wheres q @ [e]\<rparr>"

definition order_by :: "string \<Rightarrow> Order \<Rightarrow> QueryBuilder \<Rightarrow> orm_error + QueryBuilder" where
  "order_by field d q =
     map_sum id (\<lambda>n. q\<lparr>orders := orders q @ [n @ (if d = Desc then '' DESC'' else '' ASC'')]\<rparr>) (ident field)"

definition set_limit :: "64 word \<Rightarrow> QueryBuilder \<Rightarrow> QueryBuilder" where
  "set_limit n q = q\<lparr>limit := Some n\<rparr>"

definition set_offset :: "64 word \<Rightarrow> QueryBuilder \<Rightarrow> QueryBuilder" where
  "set_offset n q = q\<lparr>offset := Some n\<rparr>"

definition all :: "QueryBuilder \<Rightarrow> QueryBuilder" where
  "all q = q\<lparr>all_rows := True\<rparr>"

definition set_primary_key :: "string \<Rightarrow> QueryBuilder \<Rightarrow> orm_error + QueryBuilder" where
  "set_primary_key column q = map_sum id (\<lambda>_. q\<lparr>primary_key := column\<rparr>) (ident column)"


section \<open>Statements\<close>

definition append_where :: "QueryBuilder \<Rightarrow> Statement \<Rightarrow> Statement" where
  "append_where q st =
     (if wheres q = [] then st
      else \<lparr>st_sql = st_sql st @ '' WHERE '' @ join '' AND '' (map expr_sql (wheres q)),
            st_params = st_params st @ concat (map expr_params (wheres q))\<rparr>)"

definition require_condition :: "string \<Rightarrow> QueryBuilder \<Rightarrow> orm_error + unit" where
  "require_condition what q =
     (if wheres q = [] \<and> \<not> all_rows q
      then Inl (LogicError (what @ '' without a where() condition; call all() to affect every row'')) else Inr ())"

definition finish_statement :: "QueryBuilder \<Rightarrow> Statement \<Rightarrow> Statement" where
  "finish_statement q st = st\<lparr>st_sql := render_identifiers (mysql_client q) (st_sql st)\<rparr>"

fun is_unset_key :: "json \<Rightarrow> bool" where
  "is_unset_key JNull = True"
| "is_unset_key (JInt i) = (i = 0)"
| "is_unset_key (JUnsigned n) = (n = 0)"
| "is_unset_key (JString s) = (s = [])"
| "is_unset_key _ = False"

fun idents :: "string list \<Rightarrow> orm_error + string list" where
  "idents [] = Inr []"
| "idents (n # ns) =
     (case ident n of Inl e \<Rightarrow> Inl e | Inr i \<Rightarrow> map_sum id ((#) i) (idents ns))"

definition insert_fields :: "QueryBuilder \<Rightarrow> (string \<times> json) list \<Rightarrow> (string \<times> json) list" where
  "insert_fields q fs =
     (case map_of fs (primary_key q) of
        Some v \<Rightarrow> if is_unset_key v then fields_erase (primary_key q) fs else fs
      | None \<Rightarrow> fs)"

definition insert_statement :: "(json \<Rightarrow> string) \<Rightarrow> json \<Rightarrow> bool \<Rightarrow> QueryBuilder \<Rightarrow> orm_error + Statement" where
  "insert_statement dump model returning q =
     (case model of
        JObject fs0 \<Rightarrow>
          (let fs = insert_fields q fs0
           in if fs = [] then Inl (InvalidArgument ''insert needs at least one column besides an unset primary key'')
              else map_sum id
                     (\<lambda>cols. finish_statement q
                        \<lparr>st_sql = ''INSERT INTO '' @ table q @ '' ('' @ join '', '' cols @ '') VALUES ('' @
                           join '', '' (map (\<lambda>_. ''?'') cols) @ '')'' @ (if returning then '' RETURNING *'' else []),
                         st_params = map (\<lambda>f. json_to_param dump (snd f)) fs\<rparr>)
                     (idents (map fst fs)))
      | _ \<Rightarrow> Inl (InvalidArgument ''a model must serialise to a JSON object''))"

definition select_statement :: "QueryBuilder \<Rightarrow> Statement" where
  "select_statement q =
     (let st = append_where q \<lparr>st_sql = ''SELECT * FROM '' @ table q, st_params = []\<rparr>;
          s1 = st_sql st @ (if orders q = [] then [] else '' ORDER BY '' @ join '', '' (orders q));
          s2 = s1 @ (case limit q of
                       Some n \<Rightarrow> '' LIMIT '' @ show_nat (unat n)
                     | None \<Rightarrow> if offset q \<noteq> None \<and> mysql_client q then '' LIMIT 18446744073709551615'' else []);
          s3 = s2 @ (case offset q of Some n \<Rightarrow> '' OFFSET '' @ show_nat (unat n) | None \<Rightarrow> [])
      in finish_statement q (st\<lparr>st_sql := s3\<rparr>))"

definition count_statement :: "QueryBuilder \<Rightarrow> Statement" where
  "count_statement q =
     finish_statement q (append_where q \<lparr>st_sql = ''SELECT COUNT(*) AS n FROM '' @ table q, st_params = []\<rparr>)"

definition update_statement :: "(json \<Rightarrow> string) \<Rightarrow> json \<Rightarrow> QueryBuilder \<Rightarrow> orm_error + Statement" where
  "update_statement dump changes q =
     (case changes of
        JObject (f # fs) \<Rightarrow>
          (case require_condition ''update'' q of
             Inl e \<Rightarrow> Inl e
           | Inr _ \<Rightarrow>
               map_sum id
                 (\<lambda>cols. finish_statement q (append_where q
                    \<lparr>st_sql = ''UPDATE '' @ table q @ '' SET '' @ join '', '' (map (\<lambda>c. c @ '' = ?'') cols),
                     st_params = map (\<lambda>g. json_to_param dump (snd g)) (f # fs)\<rparr>))
                 (idents (map fst (f # fs))))
      | _ \<Rightarrow> Inl (InvalidArgument ''update needs a JSON object with at least one column''))"

definition update_model_statement :: "(json \<Rightarrow> string) \<Rightarrow> json \<Rightarrow> QueryBuilder \<Rightarrow> orm_error + Statement" where
  "update_model_statement dump model q =
     update_statement dump (case model of JObject fs \<Rightarrow> JObject (fields_erase (primary_key q) fs) | _ \<Rightarrow> model) q"

definition delete_statement :: "QueryBuilder \<Rightarrow> orm_error + Statement" where
  "delete_statement q =
     map_sum id (\<lambda>_. finish_statement q (append_where q \<lparr>st_sql = ''DELETE FROM '' @ table q, st_params = []\<rparr>))
       (require_condition ''delete'' q)"

text \<open>What is sent: text only (MySQL), or text and the values bound to it (PostgreSQL).\<close>

datatype sent_query = SentText string | SentBound string Params

definition do_query_async :: "bool \<Rightarrow> (string \<Rightarrow> string) \<Rightarrow> Statement \<Rightarrow> orm_error + sent_query" where
  "do_query_async mysql escape st =
     (let rendered = render_identifiers mysql (st_sql st)
      in if mysql then map_sum id SentText (inline_literals escape rendered (st_params st))
         else Inr (SentBound (number_placeholders rendered) (st_params st)))"


section \<open>Rows\<close>

record Row =
  row_values :: "string option list"
  col_map :: "(string \<times> nat) list"

definition Row_get_index :: "nat \<Rightarrow> Row \<Rightarrow> string option" where
  "Row_get_index i row = (if i < length (row_values row) then row_values row ! i else None)"

definition Row_get :: "string \<Rightarrow> Row \<Rightarrow> string option" where
  "Row_get name row = (case map_of (col_map row) name of Some i \<Rightarrow> Row_get_index i row | None \<Rightarrow> None)"

definition Row_is_null :: "string \<Rightarrow> Row \<Rightarrow> bool" where
  "Row_is_null name row \<longleftrightarrow>
     (case map_of (col_map row) name of Some i \<Rightarrow> i < length (row_values row) \<and> row_values row ! i = None | None \<Rightarrow> False)"

text \<open>The guess \<^verbatim>\<open>to_json\<close> makes of a column's type.\<close>

definition guess_json :: "string \<Rightarrow> json" where
  "guess_json v =
     (if v = [] then JString []
      else if v \<in> {''true'', ''t'', ''TRUE''} then JBool True
      else if v \<in> {''false'', ''f'', ''FALSE''} then JBool False
      else case stoll v of
             Some (i, []) \<Rightarrow> JInt i
           | _ \<Rightarrow> (case stod v of
                     Some (d, r) \<Rightarrow> if r = [] \<and> NUL \<notin> set v then JFloat d else JString v
                   | None \<Rightarrow> JString v))"

definition row_to_json :: "Row \<Rightarrow> json" where
  "row_to_json row =
     JObject (fold (\<lambda>(name, i). fields_put name (case row_values row ! i of None \<Rightarrow> JNull | Some v \<Rightarrow> guess_json v)) (col_map row) [])"

fun typed_value :: "(string \<Rightarrow> json option) \<Rightarrow> string \<Rightarrow> json \<Rightarrow> json" where
  "typed_value parse s (JString _) = JString s"
| "typed_value parse s (JBool _) =
     (if s \<in> {''t'', ''true'', ''TRUE'', ''1''} then JBool True
      else if s \<in> {''f'', ''false'', ''FALSE'', ''0''} then JBool False else JString s)"
| "typed_value parse s (JInt _) =
     (case from_chars_signed (- (2 ^ 63)) (2 ^ 63 - 1) s of Some (v, []) \<Rightarrow> JInt v | _ \<Rightarrow> JString s)"
| "typed_value parse s (JUnsigned _) =
     (case from_chars_unsigned (2 ^ 64 - 1) s of Some (v, []) \<Rightarrow> JUnsigned v | _ \<Rightarrow> JString s)"
| "typed_value parse s (JFloat _) =
     (case strtod (c_str s) of Some (v, r) \<Rightarrow> if r = [] \<and> NUL \<notin> set s then JFloat v else JString s | None \<Rightarrow> JString s)"
| "typed_value parse s (JObject _) = (case parse s of Some j \<Rightarrow> j | None \<Rightarrow> JString s)"
| "typed_value parse s (JArray _) = (case parse s of Some j \<Rightarrow> j | None \<Rightarrow> JString s)"
| "typed_value parse s JNull = JString s"

definition type_field :: "(string \<Rightarrow> json option) \<Rightarrow> Row \<Rightarrow> string \<times> json \<Rightarrow> (string \<times> json) list \<Rightarrow> (string \<times> json) list" where
  "type_field parse row f j =
     (case f of (key, proto) \<Rightarrow>
        (case map_of j key of
           None \<Rightarrow> fields_put key proto j
         | Some JNull \<Rightarrow> j
         | Some _ \<Rightarrow> (case Row_get key row of Some s \<Rightarrow> fields_put key (typed_value parse s proto) j | None \<Rightarrow> j)))"

definition row_model :: "(string \<Rightarrow> json option) \<Rightarrow> json \<Rightarrow> Row \<Rightarrow> json" where
  "row_model parse shape row =
     (case (shape, row_to_json row) of
        (JObject fs, JObject j) \<Rightarrow> JObject (fold (type_field parse row) fs j)
      | (_, j) \<Rightarrow> j)"

text \<open>\<open>from_json\<close> is the model's own conversion, which may throw.\<close>

fun rows_to_models :: "(string \<Rightarrow> json option) \<Rightarrow> (json \<Rightarrow> string + 'm) \<Rightarrow> json \<Rightarrow> Row list \<Rightarrow> orm_error + 'm list" where
  "rows_to_models parse from_json shape [] = Inr []"
| "rows_to_models parse from_json shape (row # rows) =
     (case from_json (row_model parse shape row) of
        Inl what \<Rightarrow> Inl (DatabaseError (''row does not fit the model: '' @ what))
      | Inr m \<Rightarrow> map_sum id ((#) m) (rows_to_models parse from_json shape rows))"

record ResultSet =
  rs_rows :: "Row list"
  affected_rows :: "64 word"
  rs_error :: string

definition ResultSet_failure :: "string \<Rightarrow> ResultSet" where
  "ResultSet_failure message =
     \<lparr>rs_rows = [], affected_rows = 0, rs_error = (if message = [] then ''unknown database error'' else message)\<rparr>"

definition throw_if_failed :: "ResultSet \<Rightarrow> orm_error + unit" where
  "throw_if_failed rs = (if rs_error rs = [] then Inr () else Inl (DatabaseError (rs_error rs)))"

text \<open>What each awaiter resumes with.\<close>

definition get_resume :: "(string \<Rightarrow> json option) \<Rightarrow> (json \<Rightarrow> string + 'm) \<Rightarrow> json \<Rightarrow> ResultSet \<Rightarrow> orm_error + 'm list" where
  "get_resume parse from_json shape rs =
     (case throw_if_failed rs of Inl e \<Rightarrow> Inl e | Inr _ \<Rightarrow> rows_to_models parse from_json shape (rs_rows rs))"

definition insert_resume :: "ResultSet \<Rightarrow> orm_error + 64 word" where
  "insert_resume rs = map_sum id (\<lambda>_. affected_rows rs) (throw_if_failed rs)"

definition count_resume :: "ResultSet \<Rightarrow> orm_error + nat" where
  "count_resume rs =
     map_sum id
       (\<lambda>_. case rs_rows rs of
              [] \<Rightarrow> 0
            | row # _ \<Rightarrow>
                (case from_chars_unsigned (2 ^ 64 - 1) (case Row_get_index 0 row of Some s \<Rightarrow> s | None \<Rightarrow> ''0'') of
                   Some (n, _) \<Rightarrow> n | None \<Rightarrow> 0))
       (throw_if_failed rs)"

definition create_resume :: "(string \<Rightarrow> json option) \<Rightarrow> (json \<Rightarrow> string + 'm) \<Rightarrow> json \<Rightarrow> ResultSet \<Rightarrow> orm_error + 'm" where
  "create_resume parse from_json shape rs =
     (case get_resume parse from_json shape rs of
        Inl e \<Rightarrow> Inl e
      | Inr [] \<Rightarrow> Inl (DatabaseError ''INSERT ... RETURNING returned no row'')
      | Inr (m # _) \<Rightarrow> Inr m)"


section \<open>What a built statement looks like\<close>

text \<open>
  The queries an application can build with the class, from conditions built with columns. The text of such a
  statement has no quote, dollar or backslash, and after a placeholder comes a blank, a comma, a parenthesis or nothing.
\<close>

inductive expr_built :: "Expr \<Rightarrow> bool" where
  column: "Col_make name op v = Inr e \<Longrightarrow> expr_built e"
| both: "expr_built a \<Longrightarrow> expr_built b \<Longrightarrow> expr_built (Expr_and a b)"
| either: "expr_built a \<Longrightarrow> expr_built b \<Longrightarrow> expr_built (Expr_or a b)"

inductive query_built :: "bool \<Rightarrow> QueryBuilder \<Rightarrow> bool" for mysql where
  start: "new_query mysql t = Inr q \<Longrightarrow> query_built mysql q"
| condition: "query_built mysql q \<Longrightarrow> where_field f op v q = Inr q' \<Longrightarrow> query_built mysql q'"
| expression: "query_built mysql q \<Longrightarrow> expr_built e \<Longrightarrow> query_built mysql (where_expr e q)"
| order: "query_built mysql q \<Longrightarrow> order_by f d q = Inr q' \<Longrightarrow> query_built mysql q'"
| limit: "query_built mysql q \<Longrightarrow> query_built mysql (set_limit n q)"
| offset: "query_built mysql q \<Longrightarrow> query_built mysql (set_offset n q)"
| all_rows: "query_built mysql q \<Longrightarrow> query_built mysql (all q)"
| key: "query_built mysql q \<Longrightarrow> set_primary_key k q = Inr q' \<Longrightarrow> query_built mysql q'"

inductive statement_built :: "(json \<Rightarrow> string) \<Rightarrow> QueryBuilder \<Rightarrow> Statement \<Rightarrow> bool" for dump q where
  select: "statement_built dump q (select_statement q)"
| count: "statement_built dump q (count_statement q)"
| insert: "insert_statement dump model returning q = Inr st \<Longrightarrow> statement_built dump q st"
| update: "update_statement dump changes q = Inr st \<Longrightarrow> statement_built dump q st"
| delete: "delete_statement q = Inr st \<Longrightarrow> statement_built dump q st"

definition name_char :: "char \<Rightarrow> bool" where
  "name_char c \<longleftrightarrow> isalnum c \<or> c = CHR ''_'' \<or> c = CHR ''.'' \<or> c = kQuoteMark"

definition sql_char :: "char \<Rightarrow> bool" where
  "sql_char c \<longleftrightarrow> name_char c \<or> c \<in> set ''()=!<>?,* '' \<or> c = CHR 0x60 \<or> c = CHR 0x22"

abbreviation ends_placeholder :: "char \<Rightarrow> bool" where
  "ends_placeholder c \<equiv> c = CHR '' '' \<or> c = CHR '')'' \<or> c = CHR '',''"

fun apart :: "string \<Rightarrow> bool" where
  "apart [] \<longleftrightarrow> True"
| "apart (c # s) \<longleftrightarrow> (c = CHR ''?'' \<and> s \<noteq> [] \<longrightarrow> ends_placeholder (hd s)) \<and> apart s"

definition template :: "string \<Rightarrow> nat \<Rightarrow> bool" where
  "template s n \<longleftrightarrow> list_all sql_char s \<and> apart s \<and> count_list s (CHR ''?'') = n"

definition name_text :: "string \<Rightarrow> bool" where
  "name_text s \<longleftrightarrow> list_all name_char s"

definition expr_ok :: "Expr \<Rightarrow> bool" where
  "expr_ok e \<longleftrightarrow> template (expr_sql e) (length (expr_params e))"

definition query_ok :: "QueryBuilder \<Rightarrow> bool" where
  "query_ok q \<longleftrightarrow> name_text (table q) \<and> list_all expr_ok (wheres q) \<and> list_all (\<lambda>o'. template o' 0) (orders q)"

definition statement_ok :: "Statement \<Rightarrow> bool" where
  "statement_ok st \<longleftrightarrow> template (st_sql st) (length (st_params st))"

lemma apart_append: "apart (a @ b) \<longleftrightarrow> apart a \<and> apart b \<and> (a \<noteq> [] \<and> last a = CHR ''?'' \<and> b \<noteq> [] \<longrightarrow> ends_placeholder (hd b))"
  by (induction a) auto

lemma name_char_chars [simp]: "name_char (CHR ''?'') \<longleftrightarrow> False"
  by code_simp

lemma name_sql_char: "name_char c \<Longrightarrow> sql_char c"
  by (simp add: sql_char_def)

lemma isalnum_sql_char: "isalnum c \<Longrightarrow> sql_char c"
  by (simp add: sql_char_def name_char_def)

lemma template_Nil [simp]: "template [] n \<longleftrightarrow> n = 0"
  by (auto simp: template_def)

lemma template_plain: "list_all sql_char s \<Longrightarrow> CHR ''?'' \<notin> set s \<Longrightarrow> template s 0"
proof (induction s)
  case (Cons c s) then show ?case by (auto simp: template_def)
qed simp

lemma template_name: "name_text s \<Longrightarrow> template s 0"
  by (rule template_plain) (auto simp: name_text_def list_all_iff name_sql_char)

lemma template_Cons:
  "template (c # s) n \<longleftrightarrow>
     sql_char c \<and> (if c = CHR ''?'' then 0 < n \<and> template s (n - 1) \<and> (s = [] \<or> ends_placeholder (hd s)) else template s n)"
  by (auto simp: template_def)

lemma template_app:
  assumes "template a k" "b = [] \<or> ends_placeholder (hd b) \<or> a = [] \<or> last a \<noteq> CHR ''?''"
  shows "template (a @ b) n \<longleftrightarrow> k \<le> n \<and> template b (n - k)"
  using assms by (auto simp: template_def apart_append)

lemma template_zero_app: "template a 0 \<Longrightarrow> template (a @ b) n \<longleftrightarrow> template b n"
proof -
  assume a: "template a 0"
  then have "CHR ''?'' \<notin> set a" by (simp add: template_def count_list_0_iff)
  then have "a = [] \<or> last a \<noteq> CHR ''?''" by (metis last_in_set)
  with template_app [OF a, of b n] show ?thesis by auto
qed

lemma template_tail: "template a k \<Longrightarrow> template b 0 \<Longrightarrow> b = [] \<or> ends_placeholder (hd b) \<Longrightarrow> template (a @ b) k"
  using template_app [of a k b k] by auto

lemma template_name_app: "name_text a \<Longrightarrow> template (a @ b) n \<longleftrightarrow> template b n"
  by (rule template_zero_app [OF template_name])

lemma template_show_nat: "template (show_nat n) 0"
proof (rule template_plain)
  have d: "isdigit c" if "c \<in> set (show_nat n)" for c using show_nat_digits [of n] that by (simp add: list_all_iff)
  then show "list_all sql_char (show_nat n)" by (auto simp: list_all_iff isalnum_sql_char isalnum_def)
  have "\<not> isdigit (CHR ''?'')" by code_simp
  with d show "CHR ''?'' \<notin> set (show_nat n)" by blast
qed

text \<open>Pieces joined by a separator that may follow a placeholder.\<close>

lemma template_join:
  assumes "list_all (\<lambda>(s, k). template s k) ps" "template sep 0" "sep \<noteq> []" "ends_placeholder (hd sep)"
  shows "template (join sep (map fst ps)) (sum_list (map snd ps))"
  using assms(1)
proof (induction ps rule: induct_list012)
  case (3 p p' ps)
  have "template (fst p @ (sep @ join sep (map fst (p' # ps)))) (snd p + sum_list (map snd (p' # ps)))"
    using 3 assms(2-4) template_app [of "fst p" "snd p" "sep @ join sep (map fst (p' # ps))"]
    by (auto simp: template_zero_app split: prod.splits)
  then show ?case by simp
qed auto

lemma template_join_placeholders: "template (join '', '' (map (\<lambda>_. ''?'') xs)) (length xs)"
proof -
  have "template ''?'' 1" "template '', '' 0" by code_simp+
  then show ?thesis using template_join [of "map (\<lambda>_. (''?'', 1)) xs" "'', ''"]
    by (simp add: comp_def list_all_iff sum_list_triv)
qed

lemma scan_chars: "ident_scan b s \<Longrightarrow> list_all name_char s"
proof (induction b s rule: ident_scan.induct)
  case (2 b c cs) then show ?case by (auto simp: name_char_def isalnum_def split: if_splits)
qed simp

lemma ident_name: "ident s = Inr n \<Longrightarrow> name_text n"
proof -
  assume i: "ident s = Inr n"
  then have s: "list_all name_char s" "n = join ''.'' (map mark_part (split_on (CHR ''.'') s))"
    by (auto simp: ident_def checked_identifier_def is_identifier_def scan_chars split: if_splits sum.splits)
  have dot: "name_char (CHR ''.'')" "name_char kQuoteMark" by (simp_all add: name_char_def)
  have j: "name_text (join ''.'' ps)" if "list_all name_text ps" for ps
    using that dot by (induction ps rule: induct_list012) (auto simp: name_text_def)
  have "name_text (mark_part p)" if "p \<in> set (split_on (CHR ''.'') s)" for p
    using split_on_sep [OF that] s(1) dot by (auto simp: name_text_def mark_part_def list_all_iff)
  then show ?thesis using j s(2) by (auto simp: list_all_iff)
qed

lemmas char_evals = sql_char_def name_char_def isalnum_def isalpha_def isdigit_def byte_of_def

lemma op_text_name [simp]: "template (op_text op @ b) n = template b n"
  by (cases op) (simp_all add: template_Cons char_evals)

lemma comparison_ok: "name_text n \<Longrightarrow> (\<And>b k. template (o' @ b) k = template b k) \<Longrightarrow> template (n @ '' '' @ o' @ '' ?'') 1"
  by (simp add: template_name_app template_Cons char_evals)

lemma operator_template: "checked_operator op = Inr o' \<Longrightarrow> template (o' @ b) k = template b k"
proof (rule template_zero_app)
  assume "checked_operator op = Inr o'"
  then have "o' \<in> set allowed_operators" by (auto simp: checked_operator_def split: if_splits)
  moreover have "list_all (\<lambda>x. template x 0) allowed_operators" by code_simp
  ultimately show "template o' 0" by (simp add: list_all_iff)
qed

lemma Col_make_ok: "Col_make name op v = Inr e \<Longrightarrow> expr_ok e"
  using comparison_ok [OF ident_name, of name _ "op_text op"] by (cases "ident name") (auto simp: Col_make_def expr_ok_def)

lemma Expr_combined_ok:
  assumes "expr_ok a" "expr_ok b"
  shows "expr_ok (Expr_and a b)" "expr_ok (Expr_or a b)"
  using template_app [of "expr_sql a" "length (expr_params a)"] template_app [of "expr_sql b" "length (expr_params b)" "'')''"] assms
  by (simp_all add: expr_ok_def Expr_and_def Expr_or_def template_Cons char_evals)

lemma expr_built_ok: "expr_built e \<Longrightarrow> expr_ok e"
  by (induction rule: expr_built.induct) (simp_all add: Col_make_ok Expr_combined_ok)

lemma query_built_mysql: "query_built mysql q \<Longrightarrow> mysql_client q = mysql"
  by (induction rule: query_built.induct)
     (auto simp: new_query_def where_field_def where_expr_def order_by_def set_limit_def set_offset_def all_def set_primary_key_def
       map_sum_def split: sum.splits)

lemma query_built_ok: "query_built mysql q \<Longrightarrow> query_ok q"
proof (induction rule: query_built.induct)
  case (start t q)
  then show ?case by (auto simp: new_query_def query_ok_def map_sum_def ident_name split: sum.splits)
next
  case (condition q f op v q')
  then obtain n o' where n: "ident f = Inr n" "checked_operator op = Inr o'"
    "q' = q\<lparr>wheres := wheres q @ [\<lparr>expr_sql = n @ '' '' @ o' @ '' ?'', expr_params = [Some v]\<rparr>]\<rparr>"
    by (auto simp: where_field_def map_sum_def split: sum.splits)
  have "template (n @ '' '' @ o' @ '' ?'') 1" by (rule comparison_ok [OF ident_name [OF n(1)] operator_template [OF n(2)]])
  with n(3) condition.IH show ?case by (simp add: query_ok_def expr_ok_def)
next
  case (order q f d q')
  then obtain n where n: "ident f = Inr n" "q' = q\<lparr>orders := orders q @ [n @ (if d = Desc then '' DESC'' else '' ASC'')]\<rparr>"
    by (auto simp: order_by_def map_sum_def split: sum.splits)
  have "template (n @ (if d = Desc then '' DESC'' else '' ASC'')) 0"
    using ident_name [OF n(1)] by (simp add: template_name_app template_Cons char_evals)
  with n(2) order.IH show ?case by (simp add: query_ok_def)
next
  case (key q k q')
  then show ?case by (auto simp: set_primary_key_def query_ok_def map_sum_def split: sum.splits)
qed (auto simp: query_ok_def where_expr_def set_limit_def set_offset_def all_def expr_built_ok)

lemma idents_names: "idents ns = Inr cols \<Longrightarrow> list_all name_text cols \<and> length cols = length ns"
  by (induction ns arbitrary: cols) (auto simp: map_sum_def ident_name split: sum.splits)

lemma conditions_ok:
  assumes "query_ok q"
  shows "template (join '' AND '' (map expr_sql (wheres q))) (length (concat (map expr_params (wheres q))))"
proof -
  have "template '' AND '' 0" by code_simp
  moreover have "list_all (\<lambda>(s, k). template s k) (map (\<lambda>e. (expr_sql e, length (expr_params e))) (wheres q))"
    using assms by (simp add: query_ok_def expr_ok_def list_all_iff)
  ultimately have "template (join '' AND '' (map fst (map (\<lambda>e. (expr_sql e, length (expr_params e))) (wheres q))))
      (sum_list (map snd (map (\<lambda>e. (expr_sql e, length (expr_params e))) (wheres q))))"
    by (intro template_join) simp_all
  then show ?thesis by (simp add: comp_def length_concat)
qed

lemma append_where_ok:
  assumes "query_ok q" "statement_ok st"
  shows "statement_ok (append_where q st)"
  using conditions_ok [OF assms(1)] template_app [of "st_sql st" "length (st_params st)"] assms(2)
  by (simp add: append_where_def statement_ok_def template_Cons char_evals)

lemma render_Cons: "render_identifiers mysql (c # s) = (if c = kQuoteMark then (if mysql then CHR 0x60 else CHR 0x22) else c) # render_identifiers mysql s"
  by (simp add: render_identifiers_def)

lemma render_Nil [simp]: "render_identifiers mysql s = [] \<longleftrightarrow> s = []"
  by (simp add: render_identifiers_def)

lemma render_hd: "s \<noteq> [] \<Longrightarrow> ends_placeholder (hd s) \<Longrightarrow> ends_placeholder (hd (render_identifiers mysql s))"
  by (cases s) (auto simp: render_Cons)

lemma render_template: "template s n \<Longrightarrow> template (render_identifiers mysql s) n"
proof (induction s arbitrary: n)
  case (Cons c s)
  show ?case
  proof (cases "c = CHR ''?''")
    case True
    with Cons.prems have s: "template s (n - 1)" "0 < n" "s = [] \<or> ends_placeholder (hd s)" "sql_char c" by (auto simp: template_Cons)
    have "s = [] \<or> ends_placeholder (hd (render_identifiers mysql s))" using s(3) render_hd by blast
    with Cons.IH [OF s(1)] s True show ?thesis unfolding render_Cons template_Cons by simp
  next
    case False
    with Cons.prems have "sql_char c" "template s n" by (auto simp: template_Cons)
    with False Cons.IH [of n] show ?thesis unfolding render_Cons template_Cons by (simp add: sql_char_def)
  qed
qed (simp add: render_identifiers_def)

lemma finish_ok: "statement_ok st \<Longrightarrow> statement_ok (finish_statement q st)"
  by (simp add: statement_ok_def finish_statement_def render_template)

lemma orders_ok: "query_ok q \<Longrightarrow> template (join '', '' (orders q)) 0"
proof -
  assume "query_ok q"
  then have "list_all (\<lambda>(s, k). template s k) (map (\<lambda>o'. (o', 0)) (orders q))" by (simp add: query_ok_def list_all_iff)
  from template_join [OF this, of "'', ''"] show ?thesis by (simp add: comp_def template_Cons char_evals)
qed

lemma statement_ok_tail:
  "statement_ok st \<Longrightarrow> template tail 0 \<Longrightarrow> tail = [] \<or> ends_placeholder (hd tail) \<Longrightarrow> statement_ok (st\<lparr>st_sql := st_sql st @ tail\<rparr>)"
  by (cases st) (simp add: statement_ok_def template_tail)

lemma select_ok: "query_ok q \<Longrightarrow> statement_ok (select_statement q)"
proof -
  assume q: "query_ok q"
  let ?st = "append_where q \<lparr>st_sql = ''SELECT * FROM '' @ table q, st_params = []\<rparr>"
  have st: "statement_ok ?st"
    using q by (intro append_where_ok) (auto simp: statement_ok_def query_ok_def template_Cons char_evals template_name)
  define tail where "tail = (if orders q = [] then [] else '' ORDER BY '' @ join '', '' (orders q)) @
    (case limit q of Some n \<Rightarrow> '' LIMIT '' @ show_nat (unat n)
     | None \<Rightarrow> if offset q \<noteq> None \<and> mysql_client q then '' LIMIT 18446744073709551615'' else []) @
    (case offset q of Some n \<Rightarrow> '' OFFSET '' @ show_nat (unat n) | None \<Rightarrow> [])"
  have "template (if orders q = [] then [] else '' ORDER BY '' @ join '', '' (orders q)) 0"
    by (simp add: template_Cons char_evals orders_ok [OF q])
  moreover have "template (case limit q of Some n \<Rightarrow> '' LIMIT '' @ show_nat (unat n)
     | None \<Rightarrow> if offset q \<noteq> None \<and> mysql_client q then '' LIMIT 18446744073709551615'' else []) 0"
    by (cases "limit q") (simp_all add: template_Cons char_evals template_show_nat)
  moreover have "template (case offset q of Some n \<Rightarrow> '' OFFSET '' @ show_nat (unat n) | None \<Rightarrow> []) 0"
    by (cases "offset q") (simp_all add: template_Cons char_evals template_show_nat)
  ultimately have t: "template tail 0" unfolding tail_def by (simp only: template_zero_app)
  have "tail = [] \<or> ends_placeholder (hd tail)" by (cases "limit q"; cases "offset q") (simp_all add: tail_def)
  then have "statement_ok (?st\<lparr>st_sql := st_sql ?st @ tail\<rparr>)"
    using st t by (intro statement_ok_tail)
  moreover have "select_statement q = finish_statement q (?st\<lparr>st_sql := st_sql ?st @ tail\<rparr>)"
    by (simp add: select_statement_def Let_def tail_def)
  ultimately show ?thesis by (simp only: finish_ok)
qed

lemma names_join: "list_all name_text cols \<Longrightarrow> template (join '', '' cols) 0"
proof -
  assume "list_all name_text cols"
  then have "list_all (\<lambda>(s, k). template s k) (map (\<lambda>c. (c, 0)) cols)" by (simp add: list_all_iff template_name)
  from template_join [OF this, of "'', ''"] show ?thesis by (simp add: comp_def template_Cons char_evals)
qed

lemma assignments_join: "list_all name_text cols \<Longrightarrow> template (join '', '' (map (\<lambda>c. c @ '' = ?'') cols)) (length cols)"
proof -
  assume "list_all name_text cols"
  then have "list_all (\<lambda>(s, k). template s k) (map (\<lambda>c. (c @ '' = ?'', 1)) cols)"
    by (simp add: list_all_iff template_name_app template_Cons char_evals)
  from template_join [OF this, of "'', ''"] show ?thesis by (simp add: comp_def template_Cons char_evals sum_list_triv)
qed

lemma insert_ok:
  assumes "query_ok q" "insert_statement dump model returning q = Inr st"
  shows "statement_ok st"
proof -
  obtain fs cols where c: "idents (map fst fs) = Inr cols" and st: "st = finish_statement q
      \<lparr>st_sql = ''INSERT INTO '' @ table q @ '' ('' @ join '', '' cols @ '') VALUES ('' @
          join '', '' (map (\<lambda>_. ''?'') cols) @ '')'' @ (if returning then '' RETURNING *'' else []),
       st_params = map (\<lambda>f. json_to_param dump (snd f)) fs\<rparr>"
    using assms(2) by (auto simp: insert_statement_def Let_def map_sum_def split: json.splits if_splits sum.splits)
  note n = idents_names [OF c]
  have p: "template (join '', '' (map (\<lambda>_. ''?'') cols) @ b) k \<longleftrightarrow> length cols \<le> k \<and> template b (k - length cols)"
    if "b = [] \<or> ends_placeholder (hd b)" for b k
    by (rule template_app [OF template_join_placeholders]) (use that in auto)
  have "template (''INSERT INTO '' @ table q @ '' ('' @ join '', '' cols @ '') VALUES ('' @
          join '', '' (map (\<lambda>_. ''?'') cols) @ '')'' @ (if returning then '' RETURNING *'' else [])) (length fs)"
    using assms(1) n p
    by (auto simp: query_ok_def template_Cons char_evals template_name_app template_zero_app [OF names_join])
  then show ?thesis unfolding st by (intro finish_ok) (simp add: statement_ok_def)
qed

lemma update_ok:
  assumes "query_ok q" "update_statement dump changes q = Inr st"
  shows "statement_ok st"
proof -
  obtain fs cols where c: "idents (map fst fs) = Inr cols" and st: "st = finish_statement q (append_where q
      \<lparr>st_sql = ''UPDATE '' @ table q @ '' SET '' @ join '', '' (map (\<lambda>c. c @ '' = ?'') cols),
       st_params = map (\<lambda>g. json_to_param dump (snd g)) fs\<rparr>)"
  proof -
    obtain f fs where ch: "changes = JObject (f # fs)"
      using assms(2) by (cases changes) (auto simp: update_statement_def split: list.splits)
    obtain u where u: "require_condition ''update'' q = Inr u"
      using assms(2) ch by (cases "require_condition ''update'' q") (simp_all add: update_statement_def)
    obtain cols where c: "idents (map fst (f # fs)) = Inr cols"
      using assms(2) ch u by (cases "idents (map fst (f # fs))") (simp_all add: update_statement_def)
    show thesis by (rule that [OF c]) (use assms(2) ch u c in \<open>simp add: update_statement_def\<close>)
  qed
  note n = idents_names [OF c]
  have "template (''UPDATE '' @ table q @ '' SET '' @ join '', '' (map (\<lambda>c. c @ '' = ?'') cols)) (length fs)"
    using assms(1) n assignments_join [of cols] by (auto simp: query_ok_def template_Cons char_evals template_name_app)
  then have "statement_ok \<lparr>st_sql = ''UPDATE '' @ table q @ '' SET '' @ join '', '' (map (\<lambda>c. c @ '' = ?'') cols),
       st_params = map (\<lambda>g. json_to_param dump (snd g)) fs\<rparr>" by (simp add: statement_ok_def)
  with assms(1) show ?thesis unfolding st by (intro finish_ok append_where_ok)
qed

lemma statement_built_ok:
  assumes "query_ok q" "statement_built dump q st"
  shows "statement_ok st"
  using assms(2)
proof cases
  case select with assms(1) select_ok show ?thesis by simp
next
  case count
  have "statement_ok \<lparr>st_sql = ''SELECT COUNT(*) AS n FROM '' @ table q, st_params = []\<rparr>"
    using assms(1) by (simp add: statement_ok_def query_ok_def template_Cons char_evals template_name)
  with count assms(1) show ?thesis by (simp add: count_statement_def finish_ok append_where_ok)
next
  case insert with assms(1) insert_ok show ?thesis by blast
next
  case update with assms(1) update_ok show ?thesis by blast
next
  case delete
  have "statement_ok \<lparr>st_sql = ''DELETE FROM '' @ table q, st_params = []\<rparr>"
    using assms(1) by (simp add: statement_ok_def query_ok_def template_Cons char_evals template_name)
  with delete assms(1) show ?thesis
    by (auto simp: delete_statement_def map_sum_def finish_ok append_where_ok split: sum.splits)
qed



section \<open>How the database reads what is sent\<close>

text \<open>
  A string literal as MySQL reads it, after the opening quote: a backslash escapes the next character, two quotes are one, one
  quote ends it. The result is the string and what is left. \<open>mysql_escape\<close> is \<^verbatim>\<open>mysql_real_escape_string\<close> as
  MySQL's manual describes it; the code relies on no more than \<open>escape_ok\<close>.
\<close>

fun unescape :: "char \<Rightarrow> char" where
  "unescape c =
     (if c = CHR ''0'' then NUL else if c = CHR ''n'' then LF else if c = CHR ''r'' then CR else if c = CHR ''Z'' then CHR 0x1A
      else if c = CHR ''b'' then CHR 0x08 else if c = CHR ''t'' then CHR 0x09 else c)"

fun read_string :: "string \<Rightarrow> (string \<times> string) option" where
  "read_string [] = None"
| "read_string (c # cs) =
     (if c = CHR 0x27 then
        (case cs of
           d # ds \<Rightarrow> if d = CHR 0x27 then map_option (map_prod ((#) c) id) (read_string ds) else Some ([], cs)
         | [] \<Rightarrow> Some ([], []))
      else if c = CHR 0x5C then
        (case cs of d # ds \<Rightarrow> map_option (map_prod ((#) (unescape d)) id) (read_string ds) | [] \<Rightarrow> None)
      else map_option (map_prod ((#) c) id) (read_string cs))"

definition escape_ok :: "(string \<Rightarrow> string) \<Rightarrow> bool" where
  "escape_ok escape \<longleftrightarrow>
     (\<forall>v rest. rest = [] \<or> hd rest \<noteq> CHR 0x27 \<longrightarrow> read_string (escape v @ CHR 0x27 # rest) = Some (v, rest))"

fun escape_char :: "char \<Rightarrow> string" where
  "escape_char c =
     (if c = NUL then [CHR 0x5C, CHR ''0''] else if c = LF then [CHR 0x5C, CHR ''n''] else if c = CR then [CHR 0x5C, CHR ''r'']
      else if c = CHR 0x1A then [CHR 0x5C, CHR ''Z'']
      else if c = CHR 0x27 \<or> c = CHR 0x22 \<or> c = CHR 0x5C then [CHR 0x5C, c] else [c])"

definition mysql_escape :: "string \<Rightarrow> string" where
  "mysql_escape v = concat (map escape_char v)"

lemma mysql_escape_ok: "escape_ok mysql_escape"
proof -
  have "read_string (concat (map escape_char v) @ CHR 0x27 # rest) = Some (v, rest)" if "rest = [] \<or> hd rest \<noteq> CHR 0x27" for v rest
  proof (induction v)
    case Nil show ?case using that by (cases rest) auto
  next
    case (Cons c v)
    then show ?case by simp
  qed
  then show ?thesis by (simp add: escape_ok_def mysql_escape_def)
qed

text \<open>
  A whole statement: every string literal becomes a placeholder again and its string is set aside. A placeholder whose value is
  NULL reads as the keyword.
\<close>

lemma read_string_shrinks: "read_string s = Some (v, rest) \<Longrightarrow> length rest < length s"
proof (induction s arbitrary: v rest rule: read_string.induct)
  case (2 c cs)
  then show ?case by (auto split: if_splits list.splits) (fastforce dest: less_SucI)+
qed simp

function read_sql :: "string \<Rightarrow> (string \<times> string list) option" where
  "read_sql [] = Some ([], [])"
| "read_sql (c # cs) =
     (if c = CHR 0x27
      then case read_string cs of
             Some (v, rest) \<Rightarrow> map_option (map_prod ((#) (CHR ''?'')) ((#) v)) (read_sql rest)
           | None \<Rightarrow> None
      else map_option (map_prod ((#) c) id) (read_sql cs))"
  by pat_completeness auto
termination
  by (relation "measure length") (auto dest: read_string_shrinks)

declare read_sql.simps [simp del]

fun fill_nulls :: "string \<Rightarrow> Params \<Rightarrow> string" where
  "fill_nulls [] ps = []"
| "fill_nulls (c # cs) ps =
     (if c = CHR ''?'' then (case ps of None # ps' \<Rightarrow> ''NULL'' @ fill_nulls cs ps' | _ \<Rightarrow> c # fill_nulls cs (tl ps))
      else c # fill_nulls cs ps)"

definition bound_values :: "Params \<Rightarrow> string list" where
  "bound_values ps = map the (filter (\<lambda>p. p \<noteq> None) ps)"

text \<open>PostgreSQL: a dollar and the digits after it are a placeholder with that number.\<close>

function read_numbered :: "string \<Rightarrow> string \<times> nat list" where
  "read_numbered [] = ([], [])"
| "read_numbered (c # cs) =
     (if c = CHR ''$'' then map_prod ((#) (CHR ''?'')) ((#) (dec_value (takeWhile isdigit cs))) (read_numbered (dropWhile isdigit cs))
      else map_prod ((#) c) id (read_numbered cs))"
  by pat_completeness auto
termination
  by (relation "measure length") (auto simp: le_imp_less_Suc length_dropWhile_le)

declare read_numbered.simps [simp del]

lemma plain_not_special: "sql_char c \<Longrightarrow> c \<noteq> CHR 0x27 \<and> c \<noteq> CHR ''$'' \<and> c \<noteq> CHR 0x5C"
proof -
  have "\<not> sql_char (CHR 0x27)" "\<not> sql_char (CHR ''$'')" "\<not> sql_char (CHR 0x5C)" by code_simp+
  then show "sql_char c \<Longrightarrow> ?thesis" by auto
qed

lemma read_sql_null: "read_sql (''NULL'' @ s) = map_option (map_prod ((@) ''NULL'') id) (read_sql s)"
  by (cases "read_sql s") (auto simp: read_sql.simps(2))

lemma inline_reads:
  assumes "escape_ok escape" "template sql (length ps)"
  shows "\<exists>text. inline_literals escape sql ps = Inr text \<and> read_sql text = Some (fill_nulls sql ps, bound_values ps) \<and>
    (sql = [] \<longrightarrow> text = []) \<and> (sql \<noteq> [] \<and> hd sql \<noteq> CHR ''?'' \<longrightarrow> text \<noteq> [] \<and> hd text = hd sql)"
  using assms(2)
proof (induction sql arbitrary: ps)
  case Nil then show ?case by (simp add: read_sql.simps bound_values_def)
next
  case (Cons c cs)
  show ?case
  proof (cases "c = CHR ''?''")
    case False
    with Cons.prems have "template cs (length ps)" "c \<noteq> CHR 0x27" by (auto simp: template_Cons plain_not_special)
    with Cons.IH [of ps] False show ?thesis by (auto simp: read_sql.simps(2))
  next
    case True
    with Cons.prems obtain p ps' where p: "ps = p # ps'" "template cs (length ps')" "cs = [] \<or> ends_placeholder (hd cs)"
      by (cases ps) (auto simp: template_Cons)
    then have nq: "cs \<noteq> [] \<longrightarrow> hd cs \<noteq> CHR ''?'' \<and> hd cs \<noteq> CHR 0x27" by auto
    from Cons.IH [OF p(2)] obtain out where out: "inline_literals escape cs ps' = Inr out"
      "read_sql out = Some (fill_nulls cs ps', bound_values ps')" "out = [] \<or> hd out \<noteq> CHR 0x27"
      using nq by (metis list.sel(1))
    show ?thesis
    proof (cases p)
      case None
      with out p True show ?thesis using read_sql_null [of out] by (simp add: literal_def bound_values_def)
    next
      case (Some v)
      have "read_string (escape v @ CHR 0x27 # out) = Some (v, out)" using assms(1) out(3) unfolding escape_ok_def by blast
      with Some out p True show ?thesis by (simp add: literal_def bound_values_def read_sql.simps(2))
    qed
  qed
qed

lemma numbered_reads:
  assumes "template sql k"
  shows "read_numbered (number_placeholders_from n sql) = (sql, [Suc n..<Suc (n + k)])"
  using assms
proof (induction sql arbitrary: n k)
  case Nil then show ?case by (simp add: read_numbered.simps)
next
  case (Cons c cs)
  show ?case
  proof (cases "c = CHR ''?''")
    case False
    with Cons.prems have "template cs k" "c \<noteq> CHR ''$''" by (auto simp: template_Cons plain_not_special)
    with Cons.IH [of k n] False show ?thesis by (simp add: read_numbered.simps(2))
  next
    case True
    with Cons.prems obtain j where j: "k = Suc j" "template cs j" "cs = [] \<or> ends_placeholder (hd cs)"
      by (cases k) (auto simp: template_Cons)
    let ?rest = "number_placeholders_from (Suc n) cs"
    have nd: "\<not> isdigit (CHR '' '')" "\<not> isdigit (CHR '')'')" "\<not> isdigit (CHR '','')" by code_simp+
    have "?rest = [] \<or> \<not> isdigit (hd ?rest)" using j(3) nd by (cases cs) auto
    then have d: "takeWhile isdigit (show_nat (Suc n) @ ?rest) = show_nat (Suc n)" "dropWhile isdigit (show_nat (Suc n) @ ?rest) = ?rest"
      using takeWhile_show_nat [of ?rest "Suc n"] show_nat_digits [of "Suc n"]
      by (auto simp: list_all_iff takeWhile_append dropWhile_append dropWhile_eq_self_iff)
    have "[Suc n..<Suc (n + k)] = Suc n # [Suc (Suc n)..<Suc (Suc n + j)]" using j(1) upt_conv_Cons by simp
    with Cons.IH [OF j(2), of "Suc n"] d True show ?thesis by (simp add: read_numbered.simps(2))
  qed
qed

lemma render_rendered: "render_identifiers m (render_identifiers m' s) = render_identifiers m' s"
  by (auto simp: render_identifiers_def)

lemma statement_rendered:
  assumes "statement_built dump q st"
  shows "render_identifiers m (st_sql st) = st_sql st"
proof -
  have "\<exists>q' st'. st = finish_statement q' st'"
    using assms
    by (cases rule: statement_built.cases)
       (auto simp: select_statement_def count_statement_def insert_statement_def update_statement_def delete_statement_def Let_def
          map_sum_def split: json.splits list.splits sum.splits if_splits)
  then show ?thesis by (auto simp: finish_statement_def render_rendered)
qed


section \<open>Properties\<close>

text \<open>
  C10: Values never become part of a MySQL statement. Whatever the values of a statement are, sending it succeeds, and the server
  reads the text as the statement that was built, with a string literal in place of each placeholder (or NULL, for a null value),
  and reads each literal as the value that was given, in order.
\<close>

theorem mysql_values_stay_values:
  assumes "query_built True q" "statement_built dump q st" "escape_ok escape"
  shows "\<exists>text. do_query_async True escape st = Inr (SentText text) \<and>
    read_sql text = Some (fill_nulls (st_sql st) (st_params st), bound_values (st_params st))"
proof -
  have "statement_ok st" by (rule statement_built_ok [OF query_built_ok [OF assms(1)] assms(2)])
  with inline_reads [OF assms(3)] show ?thesis
    by (fastforce simp: do_query_async_def statement_rendered [OF assms(2)] statement_ok_def)
qed

text \<open>
  On PostgreSQL the values are bound: the text sent is the statement that was built with the placeholders numbered from 1 up to
  the number of values, in order, and the values go with it unchanged.
\<close>

theorem postgres_placeholders_numbered:
  assumes "query_built False q" "statement_built dump q st"
  shows "\<exists>text. do_query_async False escape st = Inr (SentBound text (st_params st)) \<and>
    read_numbered text = (st_sql st, [1..<Suc (length (st_params st))])"
proof -
  have "statement_ok st" by (rule statement_built_ok [OF query_built_ok [OF assms(1)] assms(2)])
  then show ?thesis
    using numbered_reads [of "st_sql st" "length (st_params st)" 0]
    by (simp add: do_query_async_def statement_rendered [OF assms(2)] statement_ok_def number_placeholders_def)
qed

text \<open>
  A forgotten condition cannot rewrite or empty a table: an update or delete that is built either was told to affect all rows or
  ends in the conditions of the query, joined by AND, with their values last; with neither, both throw.
\<close>

theorem no_unconditional_write:
  assumes "update_statement dump changes q = Inr st \<or> delete_statement q = Inr st" "\<not> all_rows q"
  shows "wheres q \<noteq> [] \<and>
    suffix (render_identifiers (mysql_client q) ('' WHERE '' @ join '' AND '' (map expr_sql (wheres q)))) (st_sql st) \<and>
    suffix (concat (map expr_params (wheres q))) (st_params st)"
proof -
  have "require_condition w q = Inr () \<Longrightarrow> wheres q \<noteq> []" for w
    using assms(2) by (auto simp: require_condition_def split: if_splits)
  then have w: "wheres q \<noteq> []"
    using assms(1)
    by (auto simp: update_statement_def delete_statement_def map_sum_def split: json.splits list.splits sum.splits)
  obtain st' where "st = finish_statement q (append_where q st')"
    using assms(1)
    by (auto simp: update_statement_def delete_statement_def map_sum_def split: json.splits list.splits sum.splits)
  with w show ?thesis by (auto simp: finish_statement_def append_where_def render_identifiers_def suffix_def)
qed

text \<open>A row is well formed when its columns have distinct names and values.\<close>

definition row_ok :: "Row \<Rightarrow> bool" where
  "row_ok row \<longleftrightarrow> distinct (map fst (col_map row)) \<and> list_all (\<lambda>(_, i). i < length (row_values row)) (col_map row)"

lemma map_of_row_json:
  assumes "distinct (map fst cs)"
  shows "map_of (fold (\<lambda>(name, i). fields_put name (g i)) cs fs) k =
    (case map_of cs k of Some i \<Rightarrow> Some (g i) | None \<Rightarrow> map_of fs k)"
  using assms
proof (induction cs arbitrary: fs)
  case (Cons c cs)
  then show ?case by (cases c) (auto simp: map_of_eq_None_iff [THEN iffD2] split: option.split)
qed simp

definition typed_entry :: "(string \<Rightarrow> json option) \<Rightarrow> Row \<Rightarrow> string \<Rightarrow> json \<Rightarrow> json option \<Rightarrow> json" where
  "typed_entry parse row key proto m =
     (case m of
        None \<Rightarrow> proto
      | Some v \<Rightarrow> if v = JNull then JNull else case Row_get key row of Some s \<Rightarrow> typed_value parse s proto | None \<Rightarrow> v)"

lemma map_of_type_field:
  "map_of (type_field parse row (key, proto) j) = (map_of j)(key \<mapsto> typed_entry parse row key proto (map_of j key))"
proof (cases "map_of j key")
  case None then show ?thesis by (simp add: type_field_def typed_entry_def)
next
  case (Some v)
  then show ?thesis by (cases v; cases "Row_get key row") (auto simp: type_field_def typed_entry_def)
qed

lemma map_of_type_fields:
  assumes "distinct (map fst fs)"
  shows "map_of (fold (type_field parse row) fs j) k =
    (case map_of fs k of Some proto \<Rightarrow> Some (typed_entry parse row k proto (map_of j k)) | None \<Rightarrow> map_of j k)"
  using assms
proof (induction fs arbitrary: j)
  case (Cons f fs)
  obtain key proto where f: "f = (key, proto)" by fastforce
  with Cons have "key \<notin> fst ` set fs" by simp
  then have "map_of fs key = None" by (simp add: map_of_eq_None_iff)
  with Cons f show ?case by (simp add: map_of_type_field split: option.split)
qed simp

lemma guess_not_null: "guess_json v \<noteq> JNull"
  by (auto simp: guess_json_def split: option.split list.split)

text \<open>
  A row is read by the types of the model's fields and not by the look of the text: a field with a column holds that
  column's text converted to the field's type, null if the column is null, and a field without a column keeps the
  default of the model.
\<close>

theorem row_read_by_field_types:
  assumes "row_ok row" "distinct (map fst fs)" "(key, proto) \<in> set fs"
  shows "json_field key (row_model parse (JObject fs) row) =
    Some (if key \<notin> fst ` set (col_map row) then proto
          else case Row_get key row of None \<Rightarrow> JNull | Some s \<Rightarrow> typed_value parse s proto)"
proof -
  let ?g = "\<lambda>i. case row_values row ! i of None \<Rightarrow> JNull | Some v \<Rightarrow> guess_json v"
  let ?j = "fold (\<lambda>(name, i). fields_put name (?g i)) (col_map row) []"
  have d: "distinct (map fst (col_map row))" and i: "\<And>n i. map_of (col_map row) n = Some i \<Longrightarrow> i < length (row_values row)"
    using assms(1) map_of_SomeD by (fastforce simp: row_ok_def list_all_iff)+
  have j: "map_of ?j key = (case map_of (col_map row) key of Some i \<Rightarrow> Some (?g i) | None \<Rightarrow> None)"
    using map_of_row_json [OF d, of ?g "[]" key] by (simp split: option.split)
  have "json_field key (row_model parse (JObject fs) row) = Some (typed_entry parse row key proto (map_of ?j key))"
    using map_of_type_fields [OF assms(2), of parse row ?j key] map_of_is_SomeI [OF assms(2,3)]
    by (simp add: row_model_def row_to_json_def)
  also have "\<dots> = Some (if key \<notin> fst ` set (col_map row) then proto
          else case Row_get key row of None \<Rightarrow> JNull | Some s \<Rightarrow> typed_value parse s proto)"
  proof (cases "map_of (col_map row) key")
    case None
    then have "key \<notin> fst ` set (col_map row)" by (simp add: map_of_eq_None_iff)
    with None j show ?thesis by (simp add: typed_entry_def)
  next
    case (Some n)
    then have k: "key \<in> fst ` set (col_map row)" by (metis map_of_eq_None_iff option.distinct(1))
    have g: "Row_get key row = row_values row ! n" using Some i by (simp add: Row_get_def Row_get_index_def)
    show ?thesis using Some j k g guess_not_null
      by (cases "row_values row ! n") (auto simp: typed_entry_def)
  qed
  finally show ?thesis .
qed



section \<open>Examples\<close>

text \<open>A query for MySQL and one for PostgreSQL, with a value that tries to end the literal it is sent in.\<close>

definition demo_query :: "bool \<Rightarrow> QueryBuilder" where
  "demo_query mysql =
     \<lparr>mysql_client = mysql, table = ''users'', wheres = [\<lparr>expr_sql = ''name = ?'', expr_params = [Some (CHR 0x27 # '' OR 1=1'')]\<rparr>],
      orders = [], limit = None, offset = None, all_rows = False, primary_key = ''id''\<rparr>"

lemma demo_query_built: "query_built mysql (demo_query mysql)"
proof -
  have n: "ident ''users'' = Inr ''users''" "ident ''name'' = Inr ''name''" "checked_operator ''='' = Inr ''=''" by code_simp+
  then obtain q where q: "new_query mysql ''users'' = Inr q" by (simp add: new_query_def)
  then have "where_field ''name'' ''='' (CHR 0x27 # '' OR 1=1'') q = Inr (demo_query mysql)"
    using n by (auto simp: new_query_def where_field_def demo_query_def)
  with query_built.start [OF q] show ?thesis by (rule query_built.condition)
qed

theorem mysql_values_stay_values_witness:
  "\<exists>text. do_query_async True mysql_escape (select_statement (demo_query True)) = Inr (SentText text) \<and>
     read_sql text = Some (''SELECT * FROM users WHERE name = ?'', [CHR 0x27 # '' OR 1=1''])"
proof -
  have "fill_nulls (st_sql (select_statement (demo_query True))) (st_params (select_statement (demo_query True))) =
      ''SELECT * FROM users WHERE name = ?''"
    "bound_values (st_params (select_statement (demo_query True))) = [CHR 0x27 # '' OR 1=1'']" by code_simp+
  with mysql_values_stay_values [OF demo_query_built statement_built.select mysql_escape_ok] show ?thesis by simp
qed

theorem postgres_placeholders_numbered_witness:
  "\<exists>text. do_query_async False id (select_statement (demo_query False)) = Inr (SentBound text [Some (CHR 0x27 # '' OR 1=1'')]) \<and>
     read_numbered text = (''SELECT * FROM users WHERE name = ?'', [1..<2])"
proof -
  have "st_sql (select_statement (demo_query False)) = ''SELECT * FROM users WHERE name = ?''"
    "st_params (select_statement (demo_query False)) = [Some (CHR 0x27 # '' OR 1=1'')]" by code_simp+
  with postgres_placeholders_numbered [OF demo_query_built statement_built.select, where escape = id] show ?thesis
    by (simp add: numeral_2_eq_2)
qed

theorem no_unconditional_write_witness:
  "\<exists>st. delete_statement (demo_query True) = Inr st \<and>
     suffix (render_identifiers True ('' WHERE '' @ join '' AND '' [''name = ?''])) (st_sql st)"
proof -
  obtain st where st: "delete_statement (demo_query True) = Inr st"
    by (simp add: delete_statement_def require_condition_def demo_query_def)
  from no_unconditional_write [of undefined undefined "demo_query True" st] st show ?thesis by (simp add: demo_query_def)
qed

theorem row_read_by_field_types_witness:
  "json_field ''code'' (row_model (\<lambda>_. None) (JObject [(''code'', JString [])])
     \<lparr>row_values = [Some ''007''], col_map = [(''code'', 0)]\<rparr>) = Some (JString ''007'')"
  using row_read_by_field_types
    [of "\<lparr>row_values = [Some ''007''], col_map = [(''code'', 0)]\<rparr>" "[(''code'', JString [])]" "''code''" "JString []" "\<lambda>_. None"]
  by (simp add: row_ok_def Row_get_def Row_get_index_def)

end
