(* ===== verification/Migrations.thy ===== *)
theory Migrations
  imports Query_Builder
begin

text \<open>
  The migration runner (\<^verbatim>\<open>include/orbit/orm/MigrationRunner.hpp\<close>): it takes the advisory lock, reads which files were
  applied, and runs the others in the order of their names, each in a transaction together with its tracking row. The database
  is a parameter: its answer to a query, given all the queries sent so far. So are the directory and the files.
  \<^verbatim>\<open>migrate_sync\<close>, which connects and runs an event loop around it, is not modelled.

  The theorems: what the run reports as applied is what was committed, all of it and in that order, with one tracking row
  each, and the rest of a file that failed is gone; files are applied in order and never twice; and the lock that was
  taken is given back.
\<close>

section \<open>The runner\<close>

record MigrationResult =
  applied :: "string list"
  mig_error :: string
  directory_missing :: bool

definition mig_ok :: "MigrationResult \<Rightarrow> bool" where
  "mig_ok r \<longleftrightarrow> mig_error r = []"

definition summary :: "MigrationResult \<Rightarrow> string" where
  "summary r =
     (if \<not> mig_ok r then mig_error r
      else if directory_missing r then ''Migrations skipped - no directory''
      else if applied r = [] then ''Database is up to date''
      else ''Successfully applied '' @ show_nat (length (applied r)) @ '' migrations.'')"

type_synonym db_query = "string \<times> Params"

type_synonym database = "db_query list \<Rightarrow> ResultSet"

definition db_ok :: "database \<Rightarrow> db_query list \<Rightarrow> bool" where
  "db_ok db h \<longleftrightarrow> rs_error (db h) = []"

definition plain :: "string \<Rightarrow> db_query" where
  "plain sql = (sql, [])"

definition lock_query :: db_query where
  "lock_query = plain ''SELECT pg_advisory_lock(478660422004);''"

definition unlock_query :: db_query where
  "unlock_query = plain ''SELECT pg_advisory_unlock(478660422004);''"

definition create_query :: db_query where
  "create_query = plain (''CREATE TABLE IF NOT EXISTS orbit_migrations ('' @ ''id SERIAL PRIMARY KEY, '' @
     ''version VARCHAR(255) UNIQUE NOT NULL, '' @ ''applied_at TIMESTAMP DEFAULT CURRENT_TIMESTAMP);'')"

definition versions_query :: db_query where
  "versions_query = plain ''SELECT version FROM orbit_migrations ORDER BY version ASC;''"

definition track_query :: "string \<Rightarrow> db_query" where
  "track_query name = (''INSERT INTO orbit_migrations (version) VALUES ($1);'', [Some name])"

text \<open>Paths: the part after the last slash, and its extension, which a name that only starts with a dot does not have.\<close>

definition filename :: "string \<Rightarrow> string" where
  "filename p = rev (takeWhile (\<lambda>c. c \<noteq> CHR ''/'') (rev p))"

definition extension :: "string \<Rightarrow> string" where
  "extension p =
     (let n = filename p; r = takeWhile (\<lambda>c. c \<noteq> CHR ''.'') (rev n)
      in if length r + 1 < length n \<and> n \<noteq> ''..'' then CHR ''.'' # rev r else [])"

fun insert_path :: "string \<Rightarrow> string list \<Rightarrow> string list" where
  "insert_path p [] = [p]"
| "insert_path p (q # qs) = (if str_less q p then q # insert_path p qs else p # q # qs)"

definition pending_files :: "string list \<Rightarrow> string list" where
  "pending_files entries = foldr insert_path (filter (\<lambda>p. extension p = ''.sql'') entries) []"

text \<open>One file; the flag says whether the loop goes on.\<close>

definition apply_file :: "database \<Rightarrow> string \<Rightarrow> string \<Rightarrow> db_query list \<Rightarrow> MigrationResult \<Rightarrow> bool \<times> db_query list \<times> MigrationResult" where
  "apply_file db name sql h0 r =
     (let h1 = h0 @ [plain ''BEGIN;'']
      in if \<not> db_ok db h1 then (False, h1, r\<lparr>mig_error := ''BEGIN failed: '' @ rs_error (db h1)\<rparr>)
         else let h2 = h1 @ [plain sql]; h3 = (if db_ok db h2 then h2 @ [track_query name] else h2)
              in if \<not> db_ok db h2 \<or> \<not> db_ok db h3
                 then (False, h3 @ [plain ''ROLLBACK;''],
                       r\<lparr>mig_error := name @ '' failed and was rolled back: '' @ rs_error (db (if db_ok db h2 then h3 else h2))\<rparr>)
                 else let h4 = h3 @ [plain ''COMMIT;'']
                      in if \<not> db_ok db h4
                         then (False, h4, r\<lparr>mig_error := ''COMMIT of '' @ name @ '' failed: '' @ rs_error (db h4)\<rparr>)
                         else (True, h4, r\<lparr>applied := applied r @ [name]\<rparr>))"

fun apply_files ::
  "database \<Rightarrow> (string \<rightharpoonup> string) \<Rightarrow> string list \<Rightarrow> string list \<Rightarrow> db_query list \<Rightarrow> MigrationResult \<Rightarrow> db_query list \<times> MigrationResult" where
  "apply_files db files versions [] h r = (h, r)"
| "apply_files db files versions (p # ps) h r =
     (if filename p \<in> set versions then apply_files db files versions ps h r
      else case files p of
             None \<Rightarrow> (h, r\<lparr>mig_error := ''Failed to open '' @ p\<rparr>)
           | Some sql \<Rightarrow>
               (case apply_file db (filename p) sql h r of
                  (True, h', r') \<Rightarrow> apply_files db files versions ps h' r'
                | (False, h', r') \<Rightarrow> (h', r')))"

definition applied_versions :: "ResultSet \<Rightarrow> string list" where
  "applied_versions rs = map (\<lambda>row. case Row_get_index 0 row of Some s \<Rightarrow> s | None \<Rightarrow> []) (rs_rows rs)"

definition migrate_locked ::
  "database \<Rightarrow> string list option \<Rightarrow> (string \<rightharpoonup> string) \<Rightarrow> db_query list \<Rightarrow> MigrationResult \<Rightarrow> db_query list \<times> MigrationResult" where
  "migrate_locked db dir files h0 r =
     (let h1 = h0 @ [create_query]
      in if \<not> db_ok db h1 then (h1, r\<lparr>mig_error := ''Could not create orbit_migrations: '' @ rs_error (db h1)\<rparr>)
         else let h2 = h1 @ [versions_query]
              in if \<not> db_ok db h2 then (h2, r\<lparr>mig_error := ''Could not read orbit_migrations: '' @ rs_error (db h2)\<rparr>)
                 else case dir of
                        None \<Rightarrow> (h2, r\<lparr>directory_missing := True\<rparr>)
                      | Some entries \<Rightarrow> apply_files db files (applied_versions (db h2)) (pending_files entries) h2 r)"

definition run_migration :: "database \<Rightarrow> string list option \<Rightarrow> (string \<rightharpoonup> string) \<Rightarrow> db_query list \<times> MigrationResult" where
  "run_migration db dir files =
     (let r = \<lparr>applied = [], mig_error = [], directory_missing = False\<rparr>; h = [lock_query]
      in if \<not> db_ok db h then (h, r\<lparr>mig_error := ''Could not take the migration lock: '' @ rs_error (db h)\<rparr>)
         else case migrate_locked db dir files h r of (h', r') \<Rightarrow> (h' @ [unlock_query], r'))"

definition run_migrations_response :: "MigrationResult \<Rightarrow> nat \<times> string" where
  "run_migrations_response r = (if mig_ok r then (200, summary r) else (500, ''Migrations failed; see server log''))"


section \<open>Transactions\<close>

text \<open>
  What PostgreSQL keeps of a list of queries: a query that succeeds takes effect, at once or with the transaction it is in; one that
  fails does not, and a transaction whose COMMIT fails is gone. A file that ends the transaction it runs in by itself is not
  covered: its text is one query here, and not BEGIN, COMMIT or ROLLBACK.
\<close>

record tx =
  committed :: "db_query list"
  open_tx :: "db_query list option"

definition tx_step :: "db_query \<Rightarrow> bool \<Rightarrow> tx \<Rightarrow> tx" where
  "tx_step q ok s =
     (if q = plain ''BEGIN;'' then (if ok then s\<lparr>open_tx := Some []\<rparr> else s)
      else if q = plain ''COMMIT;'' then
        (case open_tx s of
           Some qs \<Rightarrow> (if ok then s\<lparr>committed := committed s @ qs, open_tx := None\<rparr> else s\<lparr>open_tx := None\<rparr>)
         | None \<Rightarrow> s)
      else if q = plain ''ROLLBACK;'' then s\<lparr>open_tx := None\<rparr>
      else if \<not> ok then s
      else case open_tx s of Some qs \<Rightarrow> s\<lparr>open_tx := Some (qs @ [q])\<rparr> | None \<Rightarrow> s\<lparr>committed := committed s @ [q]\<rparr>)"

definition tx_after :: "database \<Rightarrow> db_query list \<Rightarrow> tx" where
  "tx_after db h = fold (\<lambda>n. tx_step (h ! n) (db_ok db (take (Suc n) h))) [0..<length h] \<lparr>committed = [], open_tx = None\<rparr>"

lemma tx_after_Nil [simp]: "tx_after db [] = \<lparr>committed = [], open_tx = None\<rparr>"
  by (simp add: tx_after_def)

lemma tx_after_snoc: "tx_after db (h @ [q]) = tx_step q (db_ok db (h @ [q])) (tx_after db h)"
proof -
  have "fold (\<lambda>n. tx_step ((h @ [q]) ! n) (db_ok db (take (Suc n) (h @ [q])))) [0..<length h] s =
      fold (\<lambda>n. tx_step (h ! n) (db_ok db (take (Suc n) h))) [0..<length h] s" for s
    by (intro fold_cong) (auto simp: nth_append)
  then show ?thesis by (simp add: tx_after_def)
qed

lemma tx_after_snocs:
  "tx_after db (h @ [q]) = tx_step q (db_ok db (h @ [q])) (tx_after db h)"
  "tx_after db (h @ [a, q]) = tx_step q (db_ok db (h @ [a, q])) (tx_after db (h @ [a]))"
  "tx_after db (h @ [a, b, q]) = tx_step q (db_ok db (h @ [a, b, q])) (tx_after db (h @ [a, b]))"
  "tx_after db (h @ [a, b, c, q]) = tx_step q (db_ok db (h @ [a, b, c, q])) (tx_after db (h @ [a, b, c]))"
  using tx_after_snoc [of db h q] tx_after_snoc [of db "h @ [a]" q] tx_after_snoc [of db "h @ [a, b]" q]
    tx_after_snoc [of db "h @ [a, b, c]" q] by simp_all

definition ordinary :: "db_query \<Rightarrow> bool" where
  "ordinary q \<longleftrightarrow> q \<noteq> plain ''BEGIN;'' \<and> q \<noteq> plain ''COMMIT;'' \<and> q \<noteq> plain ''ROLLBACK;''"

lemma tx_step_ordinary:
  "ordinary q \<Longrightarrow> tx_step q ok s =
     (if \<not> ok then s
      else case open_tx s of Some qs \<Rightarrow> s\<lparr>open_tx := Some (qs @ [q])\<rparr> | None \<Rightarrow> s\<lparr>committed := committed s @ [q]\<rparr>)"
  by (simp add: tx_step_def ordinary_def)

lemma tx_step_control:
  "tx_step (plain ''BEGIN;'') ok s = (if ok then s\<lparr>open_tx := Some []\<rparr> else s)"
  "tx_step (plain ''ROLLBACK;'') ok s = s\<lparr>open_tx := None\<rparr>"
  "tx_step (plain ''COMMIT;'') ok s =
     (case open_tx s of
        Some qs \<Rightarrow> (if ok then s\<lparr>committed := committed s @ qs, open_tx := None\<rparr> else s\<lparr>open_tx := None\<rparr>)
      | None \<Rightarrow> s)"
  by (simp_all add: tx_step_def plain_def)

lemma ordinary_queries [simp]:
  "ordinary (track_query name)" "ordinary lock_query" "ordinary unlock_query" "ordinary create_query" "ordinary versions_query"
  by (simp_all add: ordinary_def plain_def track_query_def lock_query_def unlock_query_def create_query_def versions_query_def)

text \<open>The two queries of a file, and those of all the files that were applied.\<close>

definition effect :: "(string \<rightharpoonup> string) \<Rightarrow> string \<Rightarrow> db_query list" where
  "effect files p = [plain (the (files p)), track_query (filename p)]"

lemma apply_file_tx:
  assumes "ordinary (plain sql)" "open_tx (tx_after db h) = None" "apply_file db name sql h r = (go, h', r')"
  shows "open_tx (tx_after db h') = None \<and>
    (if go then committed (tx_after db h') = committed (tx_after db h) @ [plain sql, track_query name] \<and> applied r' = applied r @ [name] \<and>
            mig_error r' = mig_error r
     else tx_after db h' = tx_after db h \<and> applied r' = applied r \<and> mig_error r' \<noteq> []) \<and>
    directory_missing r' = directory_missing r"
proof -
  have s: "tx_after db h\<lparr>open_tx := None\<rparr> = tx_after db h" using assms(2) by (cases "tx_after db h") simp
  show ?thesis using assms s
    by (auto simp: apply_file_def Let_def tx_after_snocs tx_step_ordinary tx_step_control split: if_splits)
qed

lemma apply_files_tx:
  assumes "\<And>sql. sql \<in> ran files \<Longrightarrow> ordinary (plain sql)" "open_tx (tx_after db h) = None" "mig_error r = []"
    and "apply_files db files versions ps h r = (h', r')"
  shows "open_tx (tx_after db h') = None \<and> directory_missing r' = directory_missing r \<and>
    (\<exists>did rest. filter (\<lambda>p. filename p \<notin> set versions) ps = did @ rest \<and> applied r' = applied r @ map filename did \<and>
       committed (tx_after db h') = committed (tx_after db h) @ concat (map (effect files) did) \<and> (mig_error r' = [] \<longleftrightarrow> rest = []))"
  using assms(2-4)
proof (induction ps arbitrary: h r)
  case Nil then show ?case by simp
next
  case (Cons p ps)
  show ?case
  proof (cases "filename p \<in> set versions")
    case True with Cons show ?thesis by simp
  next
    case new: False
    show ?thesis
    proof (cases "files p")
      case None
      with Cons.prems new show ?thesis by auto
    next
      case (Some sql)
      obtain go h1 r1 where a: "apply_file db (filename p) sql h r = (go, h1, r1)" by (metis prod_cases3)
      have o: "ordinary (plain sql)" using assms(1) Some by (auto simp: ran_def)
      note f = apply_file_tx [OF o Cons.prems(1) a]
      show ?thesis
      proof (cases go)
        case True
        with Cons.prems Some new a have "apply_files db files versions ps h1 r1 = (h', r')" by simp
        with True f Cons.prems(2) have "open_tx (tx_after db h') = None \<and> directory_missing r' = directory_missing r1 \<and>
          (\<exists>did rest. filter (\<lambda>p. filename p \<notin> set versions) ps = did @ rest \<and> applied r' = applied r1 @ map filename did \<and>
             committed (tx_after db h') = committed (tx_after db h1) @ concat (map (effect files) did) \<and> (mig_error r' = [] \<longleftrightarrow> rest = []))"
          by (intro Cons.IH) simp_all
        then obtain did rest where d: "filter (\<lambda>p. filename p \<notin> set versions) ps = did @ rest"
          "applied r' = applied r1 @ map filename did" "mig_error r' = [] \<longleftrightarrow> rest = []" "open_tx (tx_after db h') = None"
          "committed (tx_after db h') = committed (tx_after db h1) @ concat (map (effect files) did)"
          "directory_missing r' = directory_missing r1" by blast
        moreover have "effect files p = [plain sql, track_query (filename p)]" using Some by (simp add: effect_def)
        ultimately have "filter (\<lambda>p. filename p \<notin> set versions) (p # ps) = (p # did) @ rest \<and>
          applied r' = applied r @ map filename (p # did) \<and>
          committed (tx_after db h') = committed (tx_after db h) @ concat (map (effect files) (p # did)) \<and> (mig_error r' = [] \<longleftrightarrow> rest = [])"
          using True f new by simp
        then have "\<exists>did rest. filter (\<lambda>p. filename p \<notin> set versions) (p # ps) = did @ rest \<and> applied r' = applied r @ map filename did \<and>
          committed (tx_after db h') = committed (tx_after db h) @ concat (map (effect files) did) \<and> (mig_error r' = [] \<longleftrightarrow> rest = [])"
          by blast
        with d f True show ?thesis by simp
      next
        case False
        with Cons.prems Some new a f show ?thesis by (auto intro!: exI [of _ "[]"])
      qed
    qed
  qed
qed

lemma insert_path_props: "set (insert_path p ps) = insert p (set ps)" "distinct (p # ps) \<Longrightarrow> distinct (insert_path p ps)"
  by (induction ps) auto

lemma str_less_total: "\<not> str_less a b \<Longrightarrow> \<not> str_less b c \<Longrightarrow> \<not> str_less a c"
proof (induction a b arbitrary: c rule: str_less.induct)
  case (1 a) then show ?case by (cases c; cases a) auto
next
  case (3 a as b bs)
  then show ?case by (cases c) (auto simp: byte_of_inj intro: byte_of_inj [THEN iffD1])
qed (auto elim: str_less.elims)

lemma str_less_asym: "str_less a b \<Longrightarrow> \<not> str_less b a"
  by (induction a b rule: str_less.induct) (auto simp: byte_of_inj)

lemma pending_sorted: "sorted_wrt (\<lambda>a b. \<not> str_less b a) (pending_files entries)"
proof -
  have "sorted_wrt (\<lambda>a b. \<not> str_less b a) ps \<Longrightarrow> sorted_wrt (\<lambda>a b. \<not> str_less b a) (insert_path p ps)" for p ps
  proof (induction ps)
    case (Cons q qs)
    show ?case
    proof (cases "str_less q p")
      case True with Cons str_less_asym show ?thesis by (auto simp: insert_path_props)
    next
      case False
      moreover have "\<not> str_less x p" if "x \<in> set qs" for x using Cons.prems that False str_less_total by auto
      ultimately show ?thesis using Cons.prems by auto
    qed
  qed simp
  then have "sorted_wrt (\<lambda>a b. \<not> str_less b a) (foldr insert_path ps [])" for ps by (induction ps) auto
  then show ?thesis by (simp add: pending_files_def)
qed

lemma set_pending: "set (pending_files entries) = {p \<in> set entries. extension p = ''.sql''}"
proof -
  have "set (foldr insert_path ps []) = set ps" for ps by (induction ps) (simp_all add: insert_path_props)
  then show ?thesis by (auto simp: pending_files_def)
qed

text \<open>The files a run has to apply, in order, when the database answers as \<open>db\<close> does.\<close>

definition due_files :: "database \<Rightarrow> string list \<Rightarrow> string list" where
  "due_files db entries =
     filter (\<lambda>p. filename p \<notin> set (applied_versions (db [lock_query, create_query, versions_query]))) (pending_files entries)"

lemma migrate_locked_tx:
  assumes "\<And>sql. sql \<in> ran files \<Longrightarrow> ordinary (plain sql)" "db_ok db [lock_query]"
    and "migrate_locked db dir files [lock_query] \<lparr>applied = [], mig_error = [], directory_missing = False\<rparr> = (h, r)"
  shows "open_tx (tx_after db h) = None \<and>
    (\<exists>pre did rest. committed (tx_after db h) = pre @ concat (map (effect files) did) \<and>
      set pre \<subseteq> {lock_query, create_query, versions_query} \<and> applied r = map filename did \<and>
      (case dir of None \<Rightarrow> did = [] | Some entries \<Rightarrow> due_files db entries = did @ rest \<and> (mig_error r = [] \<longrightarrow> rest = [])))"
proof -
  let ?r = "\<lparr>applied = [], mig_error = [], directory_missing = False\<rparr>"
  have l: "tx_after db [lock_query] = \<lparr>committed = [lock_query], open_tx = None\<rparr>"
    using tx_after_snoc [of db "[]" lock_query] assms(2) by (simp add: tx_step_ordinary)
  have c: "tx_after db [lock_query, create_query] = tx_step create_query (db_ok db [lock_query, create_query]) (tx_after db [lock_query])"
    using tx_after_snoc [of db "[lock_query]" create_query] by simp
  have v: "tx_after db [lock_query, create_query, versions_query] =
      tx_step versions_query (db_ok db [lock_query, create_query, versions_query]) (tx_after db [lock_query, create_query])"
    using tx_after_snoc [of db "[lock_query, create_query]" versions_query] by simp
  consider "\<not> db_ok db [lock_query, create_query]" | "db_ok db [lock_query, create_query]" "\<not> db_ok db [lock_query, create_query, versions_query]"
    | "db_ok db [lock_query, create_query]" "db_ok db [lock_query, create_query, versions_query]" by blast
  then show ?thesis
  proof cases
    case 1
    with assms(3) have "h = [lock_query, create_query]" "applied r = []" "mig_error r \<noteq> []"
      by (auto simp: migrate_locked_def Let_def)
    with 1 l c show ?thesis by (cases dir) (auto simp: tx_step_ordinary intro!: exI [of _ "[lock_query]"])
  next
    case 2
    with assms(3) have "h = [lock_query, create_query, versions_query]" "applied r = []" "mig_error r \<noteq> []"
      by (auto simp: migrate_locked_def Let_def)
    with 2 l c v show ?thesis
      by (cases dir) (auto simp: tx_step_ordinary intro!: exI [of _ "[lock_query, create_query]"])
  next
    case 3
    have t: "tx_after db [lock_query, create_query, versions_query] =
        \<lparr>committed = [lock_query, create_query, versions_query], open_tx = None\<rparr>" using 3 l c v by (simp add: tx_step_ordinary)
    show ?thesis
    proof (cases dir)
      case None
      with assms(3) 3 have "h = [lock_query, create_query, versions_query]" "applied r = []" by (auto simp: migrate_locked_def Let_def)
      with t None show ?thesis by (auto intro!: exI [of _ "[lock_query, create_query, versions_query]"])
    next
      case (Some entries)
      with assms(3) 3 have "apply_files db files (applied_versions (db [lock_query, create_query, versions_query]))
          (pending_files entries) [lock_query, create_query, versions_query] ?r = (h, r)" by (simp add: migrate_locked_def Let_def)
      from apply_files_tx [OF assms(1) _ _ this] t obtain did rest where "open_tx (tx_after db h) = None"
        "due_files db entries = did @ rest" "applied r = map filename did" "mig_error r = [] \<longleftrightarrow> rest = []"
        "committed (tx_after db h) = [lock_query, create_query, versions_query] @ concat (map (effect files) did)"
        by (auto simp: due_files_def)
      with Some show ?thesis by (auto intro!: exI [of _ "[lock_query, create_query, versions_query]"])
    qed
  qed
qed


section \<open>Properties\<close>

text \<open>
  C24: A run is all or nothing for each file, and goes through the files in order: besides the queries for the lock and the table,
  exactly the files it reports as applied are committed, each with its tracking row and in that order; they are the first of the files
  that are due, all of them when the run reports no error; no transaction is left open; and the lock, if it was taken, is given
  back last.
\<close>

theorem migrations_all_or_nothing:
  assumes "\<And>sql. sql \<in> ran files \<Longrightarrow> ordinary (plain sql)" "run_migration db (Some entries) files = (h, r)"
  shows "open_tx (tx_after db h) = None \<and> (db_ok db [lock_query] \<longrightarrow> last h = unlock_query) \<and>
    (\<exists>pre did rest post. committed (tx_after db h) = pre @ concat (map (effect files) did) @ post \<and>
      set pre \<subseteq> {lock_query, create_query, versions_query} \<and> set post \<subseteq> {unlock_query} \<and> applied r = map filename did \<and>
      due_files db entries = did @ rest \<and> (mig_ok r \<longrightarrow> rest = []))"
proof (cases "db_ok db [lock_query]")
  case False
  then have "h = [lock_query]" "applied r = []" "\<not> mig_ok r" using assms(2) by (auto simp: run_migration_def Let_def mig_ok_def)
  moreover have "tx_after db [lock_query] = \<lparr>committed = [], open_tx = None\<rparr>"
    using tx_after_snoc [of db "[]" lock_query] False by (simp add: tx_step_ordinary)
  ultimately show ?thesis using False by auto
next
  case True
  obtain h' where m: "migrate_locked db (Some entries) files [lock_query] \<lparr>applied = [], mig_error = [], directory_missing = False\<rparr> = (h', r)"
    "h = h' @ [unlock_query]" using assms(2) True by (auto simp: run_migration_def Let_def split: prod.splits)
  from migrate_locked_tx [OF assms(1) True m(1)] obtain pre did rest where p: "open_tx (tx_after db h') = None"
    "committed (tx_after db h') = pre @ concat (map (effect files) did)" "set pre \<subseteq> {lock_query, create_query, versions_query}"
    "applied r = map filename did" "due_files db entries = did @ rest" "mig_ok r \<longrightarrow> rest = []"
    by (auto simp: mig_ok_def)
  have "tx_after db h = (if db_ok db h then (tx_after db h')\<lparr>committed := committed (tx_after db h') @ [unlock_query]\<rparr> else tx_after db h')"
    using p(1) m(2) by (simp add: tx_after_snoc tx_step_ordinary)
  then have "open_tx (tx_after db h) = None" "\<exists>post. committed (tx_after db h) = pre @ concat (map (effect files) did) @ post \<and> set post \<subseteq> {unlock_query}"
    using p(1,2) by auto
  with p m(2) show ?thesis by auto
qed

text \<open>The files that are due are those with the extension that have not been applied, in the order of their paths.\<close>

lemma due_files_sorted:
  "sorted_wrt (\<lambda>a b. \<not> str_less b a) (due_files db entries)"
  "p \<in> set (due_files db entries) \<longleftrightarrow>
     p \<in> set entries \<and> extension p = ''.sql'' \<and>
     filename p \<notin> set (applied_versions (db [lock_query, create_query, versions_query]))"
  using pending_sorted by (auto simp: due_files_def sorted_wrt_filter set_pending)

definition demo_files :: "string \<rightharpoonup> string" where
  "demo_files = [''m/1.sql'' \<mapsto> ''CREATE TABLE a;'', ''m/2.sql'' \<mapsto> ''bad'']"

text \<open>A database that refuses the second file.\<close>

definition demo_db :: database where
  "demo_db h = (if last h = plain ''bad'' then ResultSet_failure ''syntax error'' else \<lparr>rs_rows = [], affected_rows = 0, rs_error = []\<rparr>)"

theorem migrations_all_or_nothing_witness:
  "\<exists>pre did rest post h r. run_migration demo_db (Some [''m/2.sql'', ''m/1.sql'']) demo_files = (h, r) \<and> applied r = [''1.sql''] \<and> \<not> mig_ok r \<and>
     committed (tx_after demo_db h) = pre @ concat (map (effect demo_files) did) @ post \<and> map filename did = [''1.sql''] \<and>
     due_files demo_db [''m/2.sql'', ''m/1.sql''] = did @ rest"
proof -
  obtain h r where m: "run_migration demo_db (Some [''m/2.sql'', ''m/1.sql'']) demo_files = (h, r)" by fastforce
  have "applied (snd (run_migration demo_db (Some [''m/2.sql'', ''m/1.sql'']) demo_files)) = [''1.sql'']"
    "\<not> mig_ok (snd (run_migration demo_db (Some [''m/2.sql'', ''m/1.sql'']) demo_files))" by code_simp+
  then have a: "applied r = [''1.sql'']" "\<not> mig_ok r" using m by simp_all
  have "ordinary (plain sql)" if "sql \<in> ran demo_files" for sql
    using that by (auto simp: demo_files_def ordinary_def plain_def ran_def split: if_splits)
  from migrations_all_or_nothing [OF this m] obtain pre did rest post where
    "committed (tx_after demo_db h) = pre @ concat (map (effect demo_files) did) @ post" "applied r = map filename did"
    "due_files demo_db [''m/2.sql'', ''m/1.sql''] = did @ rest" by blast
  moreover from this a have "map filename did = [''1.sql'']" by simp
  ultimately show ?thesis using m a by (intro exI conjI)
qed

end
