(* ===== verification/Jwt_Auth.thy ===== *)
theory Jwt_Auth
  imports Json_Values Http_Text
begin

text \<open>
  JSON Web Tokens (\<^verbatim>\<open>src/middleware/JwtAuth.cpp\<close>): the verification of a bearer token by \<^verbatim>\<open>jwt_auth\<close>, the cache of published keys
  it takes keys from, and \<^verbatim>\<open>jwt::sign\<close>, which issues tokens. OpenSSL (base64, HMAC, keys and signatures) and the JSON parser and
  printer are parameters; what a theorem relies on of them is a hypothesis. Times are seconds.

  The theorems: a request passes only with a token whose signature verifies under a configured key, of that key's own algorithm,
  and whose claims are valid; a token issued by \<^verbatim>\<open>sign\<close> is accepted by a verifier with the same secret, with its claims as
  they were; and tokens with unknown key ids cannot make the cache fetch more often than its minimum interval.
\<close>

section \<open>OpenSSL\<close>

datatype key_kind = RsaKey nat | EcKey string | OtherKey

record 'k openssl =
  encode_block :: "string \<Rightarrow> string"
  decode_block :: "string \<Rightarrow> string option"
  hmac_sha256 :: "string \<Rightarrow> string \<Rightarrow> string"
  read_public_pem :: "string \<Rightarrow> 'k option"
  read_private_pem :: "string \<Rightarrow> 'k option"
  rsa_public :: "string \<Rightarrow> string \<Rightarrow> 'k option"
  ec_public :: "string \<Rightarrow> 'k option"
  kind_of :: "'k \<Rightarrow> key_kind"
  digest_verify :: "'k \<Rightarrow> string \<Rightarrow> string \<Rightarrow> bool"
  digest_sign :: "'k \<Rightarrow> string \<Rightarrow> string option"
  d2i_sig :: "string \<Rightarrow> (nat \<times> nat) option"
  i2d_sig :: "nat \<times> nat \<Rightarrow> string option"
  bn_bin2bn :: "string \<Rightarrow> nat"
  bn_bn2binpad :: "nat \<Rightarrow> nat \<Rightarrow> string option"

definition base64url_encode :: "'k openssl \<Rightarrow> string \<Rightarrow> string" where
  "base64url_encode lib s =
     map (\<lambda>c. if c = CHR ''+'' then CHR ''-'' else if c = CHR ''/'' then CHR ''_'' else c)
       (rev (dropWhile (\<lambda>c. c = CHR ''='') (rev (encode_block lib s))))"

definition base64url_decode :: "'k openssl \<Rightarrow> string \<Rightarrow> string" where
  "base64url_decode lib s =
     (let b = map (\<lambda>c. if c = CHR ''-'' then CHR ''+'' else if c = CHR ''_'' then CHR ''/'' else c) s;
          b64 = b @ replicate ((4 - length b mod 4) mod 4) (CHR ''='');
          padding = (if b64 \<noteq> [] \<and> last b64 = CHR ''='' then 1 else 0) +
                    (if length b64 > 1 \<and> b64 ! (length b64 - 2) = CHR ''='' then 1 else 0 :: nat)
      in case decode_block lib b64 of None \<Rightarrow> [] | Some out \<Rightarrow> take (length out - padding) out)"

definition algorithm_for :: "'k openssl \<Rightarrow> 'k \<Rightarrow> string" where
  "algorithm_for lib k =
     (case kind_of lib k of
        RsaKey bits \<Rightarrow> if bits \<ge> 2048 then ''RS256'' else []
      | EcKey curve \<Rightarrow> if curve = ''prime256v1'' then ''ES256'' else []
      | OtherKey \<Rightarrow> [])"

record 'k PublicKey =
  pk_alg :: string
  pk_key :: 'k

definition usable_key :: "'k openssl \<Rightarrow> 'k option \<Rightarrow> 'k PublicKey option" where
  "usable_key lib raw =
     (case raw of
        None \<Rightarrow> None
      | Some k \<Rightarrow> if algorithm_for lib k = [] then None else Some \<lparr>pk_alg = algorithm_for lib k, pk_key = k\<rparr>)"

definition key_from_pem :: "'k openssl \<Rightarrow> string \<Rightarrow> 'k PublicKey option" where
  "key_from_pem lib pem = usable_key lib (read_public_pem lib pem)"

text \<open>
  A key from a JSON Web Key. \<^verbatim>\<open>jwk.value("crv", "")\<close> throws for a field that is there and not a string: the outer
  \<open>None\<close>.
\<close>

definition jwk_field :: "'k openssl \<Rightarrow> json \<Rightarrow> string \<Rightarrow> string" where
  "jwk_field lib jwk name = (case json_string_field name jwk of Some s \<Rightarrow> base64url_decode lib s | None \<Rightarrow> [])"

definition jwk_raw :: "'k openssl \<Rightarrow> json \<Rightarrow> string \<Rightarrow> 'k option option" where
  "jwk_raw lib jwk kty =
     (if kty = ''RSA'' then
        (let n = jwk_field lib jwk ''n''; e = jwk_field lib jwk ''e''
         in Some (if n \<noteq> [] \<and> e \<noteq> [] then rsa_public lib n e else None))
      else if kty = ''EC'' then
        (case json_field ''crv'' jwk of
           None \<Rightarrow> Some None
         | Some (JString crv) \<Rightarrow>
             (let x = jwk_field lib jwk ''x''; y = jwk_field lib jwk ''y''
              in Some (if crv = ''P-256'' \<and> length x = 32 \<and> length y = 32 then ec_public lib (CHR 0x04 # x @ y) else None))
         | Some _ \<Rightarrow> None)
      else Some None)"

definition key_from_jwk :: "'k openssl \<Rightarrow> json \<Rightarrow> 'k PublicKey option option" where
  "key_from_jwk lib jwk =
     (case json_string_field ''kty'' jwk of
        None \<Rightarrow> Some None
      | Some kty \<Rightarrow>
          if json_field ''use'' jwk \<notin> {None, Some (JString ''sig'')} then Some None
          else map_option
                 (\<lambda>raw. case usable_key lib raw of
                          None \<Rightarrow> None
                        | Some k \<Rightarrow> if json_field ''alg'' jwk \<notin> {None, Some (JString (pk_alg k))} then None else Some k)
                 (jwk_raw lib jwk kty))"

text \<open>
  A raw signature is two numbers of 32 bytes each, read by \<^verbatim>\<open>BN_bin2bn\<close> and written by \<^verbatim>\<open>BN_bn2binpad\<close>; the DER form is
  OpenSSL's (\<^verbatim>\<open>i2d_ECDSA_SIG\<close>, \<^verbatim>\<open>d2i_ECDSA_SIG\<close>).
\<close>

definition raw_to_der :: "'k openssl \<Rightarrow> string \<Rightarrow> string option" where
  "raw_to_der lib sig = i2d_sig lib (bn_bin2bn lib (take 32 sig), bn_bin2bn lib (drop 32 sig))"

definition der_to_raw :: "'k openssl \<Rightarrow> string \<Rightarrow> string option" where
  "der_to_raw lib der =
     Option.bind (d2i_sig lib der)
       (\<lambda>(r, s). case (bn_bn2binpad lib 32 r, bn_bn2binpad lib 32 s) of (Some a, Some b) \<Rightarrow> Some (a @ b) | _ \<Rightarrow> None)"

definition verify_with_key :: "'k openssl \<Rightarrow> 'k PublicKey \<Rightarrow> string \<Rightarrow> string \<Rightarrow> bool" where
  "verify_with_key lib key signed_part sig =
     (if pk_alg key = ''ES256''
      then length sig = 64 \<and> (case raw_to_der lib sig of Some der \<Rightarrow> digest_verify lib (pk_key key) der signed_part | None \<Rightarrow> False)
      else digest_verify lib (pk_key key) sig signed_part)"

definition verify_jwt_signature :: "'k openssl \<Rightarrow> string \<Rightarrow> string \<Rightarrow> string \<Rightarrow> string \<Rightarrow> bool" where
  "verify_jwt_signature lib header_b64 payload_b64 provided secret \<longleftrightarrow>
     provided = base64url_encode lib (hmac_sha256 lib secret (header_b64 @ ''.'' @ payload_b64))"


section \<open>Published keys\<close>

record 'k JwksCache =
  jwks_keys :: "(string \<times> 'k PublicKey) list"
  fetched :: bool
  attempted :: bool
  fetched_at :: int
  attempted_at :: int

definition new_cache :: "'k JwksCache" where
  "new_cache = \<lparr>jwks_keys = [], fetched = False, attempted = False, fetched_at = 0, attempted_at = 0\<rparr>"

definition lookup_locked :: "string \<Rightarrow> 'k JwksCache \<Rightarrow> 'k PublicKey option" where
  "lookup_locked kid c =
     (if kid = [] then (case jwks_keys c of [(_, k)] \<Rightarrow> Some k | _ \<Rightarrow> None) else map_of (jwks_keys c) kid)"

fun load_keys :: "'k openssl \<Rightarrow> json list \<Rightarrow> (string \<times> 'k PublicKey) list \<Rightarrow> (string \<times> 'k PublicKey) list option" where
  "load_keys lib [] keys = Some keys"
| "load_keys lib (jwk # rest) keys =
     (case key_from_jwk lib jwk of
        None \<Rightarrow> None
      | Some None \<Rightarrow> load_keys lib rest keys
      | Some (Some k) \<Rightarrow>
          (let kid = (case json_string_field ''kid'' jwk of Some s \<Rightarrow> s | None \<Rightarrow> [])
           in load_keys lib rest ((kid, k) # filter (\<lambda>e. fst e \<noteq> kid) keys)))"

text \<open>What a fetch of the key set ends with; the first component of the result says that an exception escaped.\<close>

datatype fetch_result = FetchFailed | Fetched nat string

definition fetch_locked ::
  "'k openssl \<Rightarrow> (string \<Rightarrow> json option) \<Rightarrow> int \<Rightarrow> fetch_result \<Rightarrow> 'k JwksCache \<Rightarrow> bool \<times> 'k JwksCache" where
  "fetch_locked lib parse now response c0 =
     (let c = c0\<lparr>attempted := True, attempted_at := now\<rparr>
      in case response of
           FetchFailed \<Rightarrow> (False, c)
         | Fetched status body \<Rightarrow>
             if status \<noteq> 200 then (False, c)
             else case Option.bind (parse body) (json_field ''keys'') of
                    Some (JArray jwks) \<Rightarrow>
                      (case load_keys lib jwks [] of
                         None \<Rightarrow> (True, c)
                       | Some keys \<Rightarrow> (False, c\<lparr>jwks_keys := keys, fetched := True, fetched_at := now\<rparr>))
                  | _ \<Rightarrow> (False, c))"

definition wants_fetch :: "int \<Rightarrow> int \<Rightarrow> int \<Rightarrow> string \<Rightarrow> 'k JwksCache \<Rightarrow> bool" where
  "wants_fetch refresh min_refetch now kid c \<longleftrightarrow>
     (\<not> fetched c \<or> now - fetched_at c \<ge> refresh \<or> lookup_locked kid c = None) \<and>
     (\<not> attempted c \<or> now - attempted_at c \<ge> min_refetch)"

definition jwks_find ::
  "'k openssl \<Rightarrow> (string \<Rightarrow> json option) \<Rightarrow> int \<Rightarrow> int \<Rightarrow> int \<Rightarrow> fetch_result \<Rightarrow> string \<Rightarrow> 'k JwksCache \<Rightarrow>
     'k PublicKey option option \<times> 'k JwksCache" where
  "jwks_find lib parse refresh min_refetch now response kid c =
     (case (if wants_fetch refresh min_refetch now kid c then fetch_locked lib parse now response c else (False, c)) of
        (threw, c') \<Rightarrow> (if threw then None else Some (lookup_locked kid c'), c'))"


section \<open>The middleware\<close>

record JwtOptions =
  secret :: string
  public_key_pem :: string
  jwks_url :: string
  jwks_refresh :: int
  jwks_min_refetch :: int
  opt_issuer :: string
  opt_audience :: string
  require_exp :: bool
  leeway :: int

text \<open>The construction: which keys there are, or the exception.\<close>

definition new_jwt_auth :: "'k openssl \<Rightarrow> JwtOptions \<Rightarrow> string + 'k PublicKey option" where
  "new_jwt_auth lib opts =
     (if secret opts = [] \<and> public_key_pem opts = [] \<and> jwks_url opts = []
      then Inl ''jwt_auth: configure a secret, public_key_pem or jwks_url''
      else if public_key_pem opts = [] then Inr None
      else case key_from_pem lib (public_key_pem opts) of
             None \<Rightarrow> Inl ''jwt_auth: public_key_pem must be an RSA (>= 2048 bits) or EC P-256 public key''
           | Some k \<Rightarrow> Inr (Some k))"

datatype jwt_outcome = Rejected string | Accepted json | Threw

definition audience_matches :: "json \<Rightarrow> string \<Rightarrow> bool" where
  "audience_matches aud expected =
     (case aud of
        JString s \<Rightarrow> s = expected
      | JArray as \<Rightarrow> list_ex (\<lambda>a. a = JString expected) as
      | _ \<Rightarrow> False)"

text \<open>
  \<^verbatim>\<open>get<long long>()\<close> of a number: an unsigned one wraps, a floating-point one is converted by the compiler's cast, a
  parameter, because the conversion of a value out of range is undefined.
\<close>

definition wrap64 :: "int \<Rightarrow> int" where
  "wrap64 i = (i + 2 ^ 63) mod 2 ^ 64 - 2 ^ 63"

fun as_int64 :: "(double \<Rightarrow> int) \<Rightarrow> json \<Rightarrow> int option" where
  "as_int64 cast (JInt i) = Some i"
| "as_int64 cast (JUnsigned n) = Some (wrap64 (int n))"
| "as_int64 cast (JFloat d) = Some (cast d)"
| "as_int64 cast _ = None"

definition check_exp :: "(double \<Rightarrow> int) \<Rightarrow> JwtOptions \<Rightarrow> int \<Rightarrow> json \<Rightarrow> string option" where
  "check_exp cast opts now claims =
     (case json_field ''exp'' claims of
        Some v \<Rightarrow>
          (case as_int64 cast v of
             None \<Rightarrow> Some ''Invalid exp claim''
           | Some e \<Rightarrow> if now > wrap64 (e + leeway opts) then Some ''Token expired'' else None)
      | None \<Rightarrow> if require_exp opts then Some ''Token has no expiry'' else None)"

definition check_nbf :: "(double \<Rightarrow> int) \<Rightarrow> JwtOptions \<Rightarrow> int \<Rightarrow> json \<Rightarrow> string option" where
  "check_nbf cast opts now claims =
     (case json_field ''nbf'' claims of
        Some v \<Rightarrow>
          (case as_int64 cast v of
             None \<Rightarrow> Some ''Invalid nbf claim''
           | Some e \<Rightarrow> if wrap64 (now + leeway opts) < e then Some ''Token not yet valid'' else None)
      | None \<Rightarrow> None)"

definition check_claims :: "(double \<Rightarrow> int) \<Rightarrow> JwtOptions \<Rightarrow> int \<Rightarrow> json \<Rightarrow> string option" where
  "check_claims cast opts now claims =
     (case check_exp cast opts now claims of
        Some e \<Rightarrow> Some e
      | None \<Rightarrow>
          (case check_nbf cast opts now claims of
             Some e \<Rightarrow> Some e
           | None \<Rightarrow>
               if opt_issuer opts \<noteq> [] \<and> json_string_field ''iss'' claims \<noteq> Some (opt_issuer opts) then Some ''Invalid issuer''
               else if opt_audience opts \<noteq> [] \<and>
                       (case json_field ''aud'' claims of Some a \<Rightarrow> \<not> audience_matches a (opt_audience opts) | None \<Rightarrow> True)
               then Some ''Invalid audience'' else None))"

text \<open>The key for a token of one of the two public-key algorithms.\<close>

definition token_key ::
  "'k openssl \<Rightarrow> (string \<Rightarrow> json option) \<Rightarrow> JwtOptions \<Rightarrow> 'k PublicKey option \<Rightarrow> int \<Rightarrow> fetch_result \<Rightarrow> string \<Rightarrow> 'k JwksCache \<Rightarrow>
     'k PublicKey option option \<times> 'k JwksCache" where
  "token_key lib parse opts static_key clock response kid c =
     (if jwks_url opts \<noteq> [] \<and> (kid \<noteq> [] \<or> static_key = None)
      then case jwks_find lib parse (jwks_refresh opts) (jwks_min_refetch opts) clock response kid c of
             (None, c') \<Rightarrow> (None, c')
           | (Some None, c') \<Rightarrow> (Some static_key, c')
           | (Some (Some k), c') \<Rightarrow> (Some (Some k), c')
      else (Some static_key, c))"

text \<open>The signature: verified or not, an error, or an exception (\<open>None\<close>).\<close>

definition check_signature ::
  "'k openssl \<Rightarrow> (string \<Rightarrow> json option) \<Rightarrow> JwtOptions \<Rightarrow> 'k PublicKey option \<Rightarrow> int \<Rightarrow> fetch_result \<Rightarrow>
     string \<times> string \<times> string \<Rightarrow> string \<Rightarrow> string \<Rightarrow> 'k JwksCache \<Rightarrow> (string + bool) option \<times> 'k JwksCache" where
  "check_signature lib parse opts static_key clock response token alg kid c =
     (case token of (h, p, s) \<Rightarrow>
        if alg = ''HS256'' then
          (Some (if secret opts = [] then Inl ''Unsupported JWT algorithm'' else Inr (verify_jwt_signature lib h p s (secret opts))), c)
        else if alg = ''RS256'' \<or> alg = ''ES256'' then
          (case token_key lib parse opts static_key clock response kid c of
             (None, c') \<Rightarrow> (None, c')
           | (Some None, c') \<Rightarrow> (Some (Inl ''Unknown signing key''), c')
           | (Some (Some k), c') \<Rightarrow>
               (Some (if pk_alg k \<noteq> alg then Inl ''Unsupported JWT algorithm''
                      else Inr (verify_with_key lib k (h @ ''.'' @ p) (base64url_decode lib s))), c'))
        else (Some (Inl ''Unsupported JWT algorithm''), c))"

definition check_token ::
  "'k openssl \<Rightarrow> (string \<Rightarrow> json option) \<Rightarrow> (double \<Rightarrow> int) \<Rightarrow> JwtOptions \<Rightarrow> 'k PublicKey option \<Rightarrow> int \<Rightarrow> int \<Rightarrow> fetch_result \<Rightarrow>
     string \<Rightarrow> 'k JwksCache \<Rightarrow> jwt_outcome \<times> 'k JwksCache" where
  "check_token lib parse cast opts static_key now clock response token c =
     (case split_on (CHR ''.'') token of
        [h, p, s] \<Rightarrow>
          (case Option.bind (parse (base64url_decode lib h)) (\<lambda>hj. map_option (Pair hj) (json_string_field ''alg'' hj)) of
             None \<Rightarrow> (Rejected ''Unsupported JWT algorithm'', c)
           | Some (hj, alg) \<Rightarrow>
               (let kid = (case json_string_field ''kid'' hj of Some k \<Rightarrow> k | None \<Rightarrow> [])
                in case check_signature lib parse opts static_key clock response (h, p, s) alg kid c of
                     (None, c') \<Rightarrow> (Threw, c')
                   | (Some (Inl e), c') \<Rightarrow> (Rejected e, c')
                   | (Some (Inr False), c') \<Rightarrow> (Rejected ''Invalid JWT signature'', c')
                   | (Some (Inr True), c') \<Rightarrow>
                       (case parse (base64url_decode lib p) of
                          Some (JObject fs) \<Rightarrow>
                            (case check_claims cast opts now (JObject fs) of
                               Some e \<Rightarrow> (Rejected e, c')
                             | None \<Rightarrow> (Accepted (JObject fs), c'))
                        | _ \<Rightarrow> (Rejected ''Payload is not a JSON object'', c'))))
      | _ \<Rightarrow> (Rejected ''Malformed JWT'', c))"

definition jwt_auth ::
  "'k openssl \<Rightarrow> (string \<Rightarrow> json option) \<Rightarrow> (double \<Rightarrow> int) \<Rightarrow> JwtOptions \<Rightarrow> 'k PublicKey option \<Rightarrow> int \<Rightarrow> int \<Rightarrow> fetch_result \<Rightarrow>
     headers \<Rightarrow> 'k JwksCache \<Rightarrow> jwt_outcome \<times> 'k JwksCache" where
  "jwt_auth lib parse cast opts static_key now clock response hs c =
     (case hdr_find ''Authorization'' hs of
        None \<Rightarrow> (Rejected ''Missing Authorization header'', c)
      | Some v \<Rightarrow>
          if \<not> prefix ''Bearer '' v then (Rejected ''Invalid Authorization scheme'', c)
          else check_token lib parse cast opts static_key now clock response (drop 7 v) c)"


section \<open>Issuing tokens\<close>

record SigningKey =
  sk_secret :: string
  private_key_pem :: string
  sk_kid :: string

record SignOptions =
  expires_in :: int
  not_before :: int
  so_issuer :: string
  so_audience :: string
  so_subject :: string

definition put_default :: "bool \<Rightarrow> string \<Rightarrow> json \<Rightarrow> (string \<times> json) list \<Rightarrow> (string \<times> json) list" where
  "put_default wanted k v fs = (if wanted \<and> map_of fs k = None then fields_put k v fs else fs)"

definition registered_claims :: "SignOptions \<Rightarrow> int \<Rightarrow> (string \<times> json) list \<Rightarrow> (string \<times> json) list" where
  "registered_claims so now fs =
     put_default (so_subject so \<noteq> []) ''sub'' (JString (so_subject so))
    (put_default (so_audience so \<noteq> []) ''aud'' (JString (so_audience so))
    (put_default (so_issuer so \<noteq> []) ''iss'' (JString (so_issuer so))
    (put_default (not_before so > 0) ''nbf'' (JInt (now + not_before so))
    (put_default (expires_in so > 0) ''exp'' (JInt (now + expires_in so))
    (put_default True ''iat'' (JInt now) fs)))))"

definition token_header :: "string \<Rightarrow> string \<Rightarrow> json" where
  "token_header alg kid =
     (let fs = [(''alg'', JString alg), (''typ'', JString ''JWT'')]
      in JObject (if kid \<noteq> [] then fields_put ''kid'' (JString kid) fs else fs))"

definition sign_with_private_key :: "'k openssl \<Rightarrow> 'k \<Rightarrow> string \<Rightarrow> string \<Rightarrow> string + string" where
  "sign_with_private_key lib k alg input =
     (case digest_sign lib k input of
        None \<Rightarrow> Inl ''jwt::sign: signing failed''
      | Some sig \<Rightarrow>
          if alg \<noteq> ''ES256'' then Inr sig
          else case der_to_raw lib sig of None \<Rightarrow> Inl ''jwt::sign: bad ECDSA signature'' | Some raw \<Rightarrow> Inr raw)"

text \<open>The private key and its algorithm; none for a secret.\<close>

definition signing_key :: "'k openssl \<Rightarrow> SigningKey \<Rightarrow> string + 'k option \<times> string" where
  "signing_key lib key =
     (if (sk_secret key = []) = (private_key_pem key = [])
      then Inl ''jwt::sign: set exactly one of secret and private_key_pem''
      else if private_key_pem key = [] then Inr (None, ''HS256'')
      else case read_private_pem lib (private_key_pem key) of
             None \<Rightarrow> Inl ''jwt::sign: private_key_pem is not a readable PEM private key''
           | Some k \<Rightarrow>
               if algorithm_for lib k = [] then Inl ''jwt::sign: unsupported key; use RSA (>= 2048 bits) or EC P-256''
               else Inr (Some k, algorithm_for lib k))"

definition sign_fields :: "json \<Rightarrow> (string \<times> json) list option" where
  "sign_fields claims = (case claims of JNull \<Rightarrow> Some [] | JObject fs \<Rightarrow> Some fs | _ \<Rightarrow> None)"

definition sign ::
  "'k openssl \<Rightarrow> (json \<Rightarrow> string) \<Rightarrow> int \<Rightarrow> json \<Rightarrow> SigningKey \<Rightarrow> SignOptions \<Rightarrow> string + string" where
  "sign lib dump now claims key so =
     (case sign_fields claims of
        None \<Rightarrow> Inl ''jwt::sign: claims must be a JSON object''
      | Some fs \<Rightarrow>
          (case signing_key lib key of
             Inl e \<Rightarrow> Inl e
           | Inr (k, alg) \<Rightarrow>
               (let input = base64url_encode lib (dump (token_header alg (sk_kid key))) @ ''.'' @
                            base64url_encode lib (dump (JObject (registered_claims so now fs)))
                in map_sum id (\<lambda>sig. input @ ''.'' @ base64url_encode lib sig)
                     (case k of
                        None \<Rightarrow> Inr (hmac_sha256 lib (sk_secret key) input)
                      | Some pk \<Rightarrow> sign_with_private_key lib pk alg input))))"


section \<open>Keys and their algorithms\<close>

definition key_ok :: "'k openssl \<Rightarrow> 'k PublicKey \<Rightarrow> bool" where
  "key_ok lib k \<longleftrightarrow> pk_alg k = algorithm_for lib (pk_key k) \<and> pk_alg k \<noteq> []"

definition cache_ok :: "'k openssl \<Rightarrow> 'k JwksCache \<Rightarrow> bool" where
  "cache_ok lib c \<longleftrightarrow> (\<forall>k \<in> snd ` set (jwks_keys c). key_ok lib k)"

inductive cache_reachable :: "'k openssl \<Rightarrow> (string \<Rightarrow> json option) \<Rightarrow> 'k JwksCache \<Rightarrow> bool" for lib parse where
  fresh: "cache_reachable lib parse new_cache"
| found: "cache_reachable lib parse c \<Longrightarrow>
     cache_reachable lib parse (snd (jwks_find lib parse refresh min_refetch now response kid c))"

lemma usable_key_ok: "usable_key lib raw = Some k \<Longrightarrow> key_ok lib k"
  by (auto simp: usable_key_def key_ok_def split: option.splits if_splits)

lemma key_from_jwk_ok: "key_from_jwk lib jwk = Some (Some k) \<Longrightarrow> key_ok lib k"
  by (auto simp: key_from_jwk_def usable_key_ok split: option.splits if_splits)

lemma load_keys_ok:
  "load_keys lib jwks keys = Some keys' \<Longrightarrow> \<forall>k \<in> snd ` set keys. key_ok lib k \<Longrightarrow> \<forall>k \<in> snd ` set keys'. key_ok lib k"
proof (induction lib jwks keys rule: load_keys.induct)
  case (2 lib jwk rest keys)
  show ?case
  proof (cases "key_from_jwk lib jwk")
    case (Some r)
    with 2 show ?thesis by (cases r) (auto simp: Let_def key_from_jwk_ok)
  qed (use 2 in simp)
qed simp

lemma fetch_ok: "cache_ok lib c \<Longrightarrow> cache_ok lib (snd (fetch_locked lib parse now response c))"
proof (cases response)
  case (Fetched status body)
  assume c: "cache_ok lib c"
  show ?thesis
  proof (cases "Option.bind (parse body) (json_field ''keys'')")
    case None with Fetched c show ?thesis by (simp add: fetch_locked_def cache_ok_def Let_def)
  next
    case (Some j)
    with Fetched c show ?thesis
      by (cases j) (use load_keys_ok [of lib _ "[]"] in \<open>auto simp: fetch_locked_def cache_ok_def Let_def split: option.split\<close>)
  qed
qed (simp add: fetch_locked_def cache_ok_def Let_def)

lemma find_ok:
  assumes "cache_ok lib c"
  shows "cache_ok lib (snd (jwks_find lib parse refresh min_refetch now response kid c))"
  using fetch_ok [OF assms] assms by (auto simp: jwks_find_def split: prod.split) (metis snd_conv)

lemma reachable_cache_ok: "cache_reachable lib parse c \<Longrightarrow> cache_ok lib c"
  by (induction rule: cache_reachable.induct) (auto simp: find_ok, simp add: cache_ok_def new_cache_def)

lemma lookup_mem: "lookup_locked kid c = Some k \<Longrightarrow> k \<in> snd ` set (jwks_keys c)"
  by (auto simp: lookup_locked_def split: if_splits list.splits dest!: map_of_SomeD) force

lemma token_key_mem:
  assumes "token_key lib parse opts static_key clock response kid c = (Some (Some k), c')"
  shows "static_key = Some k \<or> k \<in> snd ` set (jwks_keys c')"
  using assms lookup_mem
  by (auto simp: token_key_def jwks_find_def split: if_splits prod.splits option.splits)

lemma token_key_ok: "cache_ok lib c \<Longrightarrow> cache_ok lib (snd (token_key lib parse opts static_key clock response kid c))"
  using find_ok [of lib c parse "jwks_refresh opts" "jwks_min_refetch opts" clock response kid]
  by (auto simp: token_key_def split: prod.split option.split)

lemma key_ok_kind:
  "key_ok lib k \<Longrightarrow> pk_alg k = ''RS256'' \<Longrightarrow> \<exists>bits \<ge> 2048. kind_of lib (pk_key k) = RsaKey bits"
  "key_ok lib k \<Longrightarrow> pk_alg k = ''ES256'' \<Longrightarrow> kind_of lib (pk_key k) = EcKey ''prime256v1''"
  by (auto simp: key_ok_def algorithm_for_def split: key_kind.splits if_splits)

lemma split_three:
  assumes "split_on c t = [a, b, d]"
  shows "t = a @ c # b @ c # d \<and> c \<notin> set a \<and> c \<notin> set b \<and> c \<notin> set d"
  using join_split_on [of c t] split_on_sep [of _ c t] assms by auto

lemma check_claims_None:
  assumes "check_claims cast opts now claims = None"
  shows "(case json_field ''exp'' claims of
            Some v \<Rightarrow> (\<exists>e. as_int64 cast v = Some e \<and> now \<le> wrap64 (e + leeway opts)) | None \<Rightarrow> \<not> require_exp opts) \<and>
    (case json_field ''nbf'' claims of
       Some v \<Rightarrow> (\<exists>e. as_int64 cast v = Some e \<and> e \<le> wrap64 (now + leeway opts)) | None \<Rightarrow> True) \<and>
    (opt_issuer opts = [] \<or> json_field ''iss'' claims = Some (JString (opt_issuer opts))) \<and>
    (opt_audience opts = [] \<or> (\<exists>a. json_field ''aud'' claims = Some a \<and> audience_matches a (opt_audience opts)))"
proof -
  have str: "json_string_field k j = Some s \<longleftrightarrow> json_field k j = Some (JString s)" for k j s
    by (cases "json_field k j") (auto simp: json_string_field_def elim: json_string.elims)
  have e: "check_exp cast opts now claims = None" and n: "check_nbf cast opts now claims = None"
    using assms by (auto simp: check_claims_def split: option.splits)
  from assms e n have i: "opt_issuer opts = [] \<or> json_field ''iss'' claims = Some (JString (opt_issuer opts))"
    "opt_audience opts = [] \<or> (\<exists>a. json_field ''aud'' claims = Some a \<and> audience_matches a (opt_audience opts))"
    by (auto simp: check_claims_def str split: if_splits option.splits)
  with e n show ?thesis
    by (auto simp: check_exp_def check_nbf_def not_less split: option.splits if_splits)
qed



section \<open>What is accepted\<close>

text \<open>A time in the claims that needs no conversion: an integer of 64 signed bits.\<close>

definition in64 :: "int \<Rightarrow> bool" where
  "in64 i \<longleftrightarrow> - (2 ^ 63) \<le> i \<and> i < 2 ^ 63"

definition is_number :: "json \<Rightarrow> bool" where
  "is_number v \<longleftrightarrow> (case v of JInt _ \<Rightarrow> True | JUnsigned _ \<Rightarrow> True | JFloat _ \<Rightarrow> True | _ \<Rightarrow> False)"

definition time_claim :: "string \<Rightarrow> json \<Rightarrow> int option" where
  "time_claim name claims =
     (case json_field name claims of
        Some (JInt i) \<Rightarrow> Some i
      | Some (JUnsigned n) \<Rightarrow> if n < 2 ^ 63 then Some (int n) else None
      | _ \<Rightarrow> None)"

lemma wrap64_in64: "in64 i \<Longrightarrow> wrap64 i = i"
  by (simp add: wrap64_def in64_def)

lemma as_int64_number: "as_int64 cast v = Some e \<Longrightarrow> is_number v"
  by (cases v) (simp_all add: is_number_def)

lemma as_int64_time: "json_field name claims = Some v \<Longrightarrow> time_claim name claims = Some e \<Longrightarrow> as_int64 cast v = Some e"
  by (cases v) (auto simp: time_claim_def wrap64_in64 in64_def split: if_splits)

lemma time_claim_field: "time_claim name claims = Some e \<Longrightarrow> \<exists>v. json_field name claims = Some v"
  by (cases "json_field name claims") (auto simp: time_claim_def)

lemma check_claims_times:
  assumes "check_claims cast opts now claims = None"
  shows "require_exp opts \<longrightarrow> json_field ''exp'' claims \<noteq> None"
    "json_field ''exp'' claims = Some v \<Longrightarrow> is_number v" "json_field ''nbf'' claims = Some v \<Longrightarrow> is_number v"
    "time_claim ''exp'' claims = Some e \<Longrightarrow> in64 (e + leeway opts) \<Longrightarrow> now \<le> e + leeway opts"
    "time_claim ''nbf'' claims = Some e \<Longrightarrow> in64 (now + leeway opts) \<Longrightarrow> e \<le> now + leeway opts"
  using check_claims_None [OF assms] as_int64_number as_int64_time [of _ claims _ e cast] time_claim_field [of _ claims e]
  by (fastforce simp: wrap64_in64 split: option.splits)+


text \<open>
  C5: A request passes only with a token of three parts whose signature verifies, in the algorithm that its header names, and whose
  claims are valid. With HS256 there is a secret and the signature is its HMAC; otherwise the signature verifies under the configured
  key or one that is published, and that key's type is the one of the named algorithm: RSA of at least 2048 bits for RS256, EC P-256
  for ES256. No other algorithm passes. The claims are those of the payload, of the issuer and audience that were asked for, with an
  expiry where one is demanded; an expiry or a start that is there is a number, and one that is an integer of 64 signed bits is not
  past, or not in the future, by more than the leeway (the sum with the leeway not overflowing). Nothing is said of a number outside
  that range or with a fraction, which the code converts by a cast: lemma \<open>far_nbf_accepted\<close>.
\<close>

theorem jwt_accepts_only_signed:
  assumes "new_jwt_auth lib opts = Inr static_key" "cache_reachable lib parse c"
    and "jwt_auth lib parse cast opts static_key now clock response hs c = (Accepted claims, c')"
  shows "\<exists>h p s header alg. hdr_find ''Authorization'' hs = Some (''Bearer '' @ h @ ''.'' @ p @ ''.'' @ s) \<and>
    parse (base64url_decode lib h) = Some header \<and> json_field ''alg'' header = Some (JString alg) \<and>
    parse (base64url_decode lib p) = Some claims \<and> is_object claims \<and>
    (alg = ''HS256'' \<and> secret opts \<noteq> [] \<and> s = base64url_encode lib (hmac_sha256 lib (secret opts) (h @ ''.'' @ p)) \<or>
     (\<exists>k. (static_key = Some k \<or> k \<in> snd ` set (jwks_keys c')) \<and> verify_with_key lib k (h @ ''.'' @ p) (base64url_decode lib s) \<and>
        pk_alg k = alg \<and>
        (alg = ''RS256'' \<and> (\<exists>bits \<ge> 2048. kind_of lib (pk_key k) = RsaKey bits) \<or>
         alg = ''ES256'' \<and> kind_of lib (pk_key k) = EcKey ''prime256v1''))) \<and>
    (require_exp opts \<longrightarrow> json_field ''exp'' claims \<noteq> None) \<and>
    (\<forall>v. json_field ''exp'' claims = Some v \<longrightarrow> is_number v) \<and> (\<forall>v. json_field ''nbf'' claims = Some v \<longrightarrow> is_number v) \<and>
    (\<forall>e. time_claim ''exp'' claims = Some e \<and> in64 (e + leeway opts) \<longrightarrow> now \<le> e + leeway opts) \<and>
    (\<forall>e. time_claim ''nbf'' claims = Some e \<and> in64 (now + leeway opts) \<longrightarrow> e \<le> now + leeway opts) \<and>
    (opt_issuer opts = [] \<or> json_field ''iss'' claims = Some (JString (opt_issuer opts))) \<and>
    (opt_audience opts = [] \<or> (\<exists>a. json_field ''aud'' claims = Some a \<and> audience_matches a (opt_audience opts)))"
proof -
  obtain v where v: "hdr_find ''Authorization'' hs = Some v" "prefix ''Bearer '' v"
    "check_token lib parse cast opts static_key now clock response (drop 7 v) c = (Accepted claims, c')"
    using assms(3) by (auto simp: jwt_auth_def split: option.splits if_splits)
  then obtain h p s where sp: "split_on (CHR ''.'') (drop 7 v) = [h, p, s]"
    by (auto simp: check_token_def split: list.splits)
  obtain alg kid header where c: "check_signature lib parse opts static_key clock response (h, p, s) alg kid c = (Some (Inr True), c')"
    "parse (base64url_decode lib h) = Some header" "json_string_field ''alg'' header = Some alg"
    "parse (base64url_decode lib p) = Some claims" "is_object claims" "check_claims cast opts now claims = None"
    using v(3) sp
    by (auto simp: check_token_def Let_def bind_eq_Some_conv split: option.splits prod.splits sum.splits bool.splits json.splits)
  have a: "json_field ''alg'' header = Some (JString alg)"
    using c(3) by (cases "json_field ''alg'' header") (auto simp: json_string_field_def elim: json_string.elims)
  have tok: "v = ''Bearer '' @ h @ ''.'' @ p @ ''.'' @ s" using v(2) split_three [OF sp] by (auto simp: prefix_def)
  have st: "static_key = Some k \<Longrightarrow> key_ok lib k" for k
    using assms(1) usable_key_ok by (auto simp: new_jwt_auth_def key_from_pem_def split: if_splits option.splits)
  have "alg = ''HS256'' \<and> secret opts \<noteq> [] \<and> s = base64url_encode lib (hmac_sha256 lib (secret opts) (h @ ''.'' @ p)) \<or>
     (\<exists>k. (static_key = Some k \<or> k \<in> snd ` set (jwks_keys c')) \<and> verify_with_key lib k (h @ ''.'' @ p) (base64url_decode lib s) \<and>
        key_ok lib k \<and> pk_alg k = alg \<and> (alg = ''RS256'' \<or> alg = ''ES256''))"
  proof (cases "alg = ''HS256''")
    case True
    with c(1) show ?thesis by (auto simp: check_signature_def verify_jwt_signature_def split: if_splits)
  next
    case False
    with c(1) obtain k where k: "token_key lib parse opts static_key clock response kid c = (Some (Some k), c')" "pk_alg k = alg"
      "alg = ''RS256'' \<or> alg = ''ES256''" "verify_with_key lib k (h @ ''.'' @ p) (base64url_decode lib s)"
      by (auto simp: check_signature_def split: if_splits prod.splits option.splits)
    have "cache_ok lib c'" using token_key_ok [OF reachable_cache_ok [OF assms(2)]] k(1) by (metis snd_conv)
    then have "key_ok lib k" using token_key_mem [OF k(1)] st by (auto simp: cache_ok_def)
    with k token_key_mem [OF k(1)] show ?thesis by blast
  qed
  with key_ok_kind have "alg = ''HS256'' \<and> secret opts \<noteq> [] \<and> s = base64url_encode lib (hmac_sha256 lib (secret opts) (h @ ''.'' @ p)) \<or>
     (\<exists>k. (static_key = Some k \<or> k \<in> snd ` set (jwks_keys c')) \<and> verify_with_key lib k (h @ ''.'' @ p) (base64url_decode lib s) \<and>
        pk_alg k = alg \<and> (alg = ''RS256'' \<and> (\<exists>bits \<ge> 2048. kind_of lib (pk_key k) = RsaKey bits) \<or>
         alg = ''ES256'' \<and> kind_of lib (pk_key k) = EcKey ''prime256v1''))" by metis
  with v(1) tok c(2,4,5) a check_claims_times [OF c(6)] check_claims_None [OF c(6)] show ?thesis by blast
qed


section \<open>How often keys are fetched\<close>

text \<open>Lookups one after another, each with its time, the outcome of a fetch at that time, and a key id; the times of the fetches.\<close>

fun fetch_times ::
  "'k openssl \<Rightarrow> (string \<Rightarrow> json option) \<Rightarrow> int \<Rightarrow> int \<Rightarrow> (int \<times> fetch_result \<times> string) list \<Rightarrow> 'k JwksCache \<Rightarrow> int list" where
  "fetch_times lib parse refresh min_refetch [] c = []"
| "fetch_times lib parse refresh min_refetch ((now, response, kid) # qs) c =
     (if wants_fetch refresh min_refetch now kid c then [now] else []) @
     fetch_times lib parse refresh min_refetch qs (snd (jwks_find lib parse refresh min_refetch now response kid c))"

lemma fetch_attempted:
  "attempted (snd (fetch_locked lib parse now response c))" "attempted_at (snd (fetch_locked lib parse now response c)) = now"
  by (cases response; simp add: fetch_locked_def Let_def split: option.split json.split)+

lemma find_attempted:
  "attempted (snd (jwks_find lib parse refresh m now response kid c)) \<longleftrightarrow> attempted c \<or> wants_fetch refresh m now kid c"
  "attempted_at (snd (jwks_find lib parse refresh m now response kid c)) =
     (if wants_fetch refresh m now kid c then now else attempted_at c)"
  using fetch_attempted [of lib parse now response c] by (auto simp: jwks_find_def split: prod.split)

lemma fetch_times_spaced:
  assumes "sorted (map fst qs)" "0 \<le> m"
  shows "sorted_wrt (\<lambda>a b. a + m \<le> b) (fetch_times lib parse refresh m qs c) \<and> set (fetch_times lib parse refresh m qs c) \<subseteq> fst ` set qs \<and>
    (attempted c \<longrightarrow> (\<forall>t \<in> set (fetch_times lib parse refresh m qs c). attempted_at c + m \<le> t))"
  using assms(1)
proof (induction qs arbitrary: c)
  case (Cons q qs)
  obtain now response kid where q: "q = (now, response, kid)" by (metis prod_cases3)
  let ?c = "snd (jwks_find lib parse refresh m now response kid c)"
  have IH: "sorted_wrt (\<lambda>a b. a + m \<le> b) (fetch_times lib parse refresh m qs ?c)"
    "set (fetch_times lib parse refresh m qs ?c) \<subseteq> fst ` set qs"
    "attempted ?c \<longrightarrow> (\<forall>t \<in> set (fetch_times lib parse refresh m qs ?c). attempted_at ?c + m \<le> t)"
    using Cons by simp_all
  show ?case
  proof (cases "wants_fetch refresh m now kid c")
    case True
    then have "attempted c \<longrightarrow> attempted_at c + m \<le> now" by (auto simp: wants_fetch_def)
    with True IH q assms(2) show ?thesis by (fastforce simp: find_attempted)
  next
    case False with IH q show ?thesis by (auto simp: find_attempted)
  qed
qed simp

lemma spaced_span:
  "sorted_wrt (\<lambda>a b. a + m \<le> b) ts \<Longrightarrow> ts \<noteq> [] \<Longrightarrow> int (length ts - 1) * m \<le> last ts - hd (ts :: int list)"
proof (induction ts rule: induct_list012)
  case (3 a b ts)
  then have "int (length (b # ts) - 1) * m \<le> last (b # ts) - b" "a + m \<le> b" by auto
  then show ?case by (simp add: algebra_simps)
qed simp_all

text \<open>
  Tokens with key ids nobody knows do not turn into a stream of requests to the issuer: however many lookups there are in a span of
  time, for whatever key ids and whatever the fetches return, the key set is fetched at most once, and once more for each
  minimum interval the span contains.
\<close>

theorem jwks_fetches_bounded:
  assumes "sorted (map fst qs)" "0 < m" "0 \<le> w" "fst ` set qs \<subseteq> {t..t + w}"
  shows "int (length (fetch_times lib parse refresh m qs c)) \<le> w div m + 1"
proof (cases "fetch_times lib parse refresh m qs c = []")
  case True with assms(2,3) show ?thesis by (simp add: pos_imp_zdiv_nonneg_iff)
next
  case False
  let ?ts = "fetch_times lib parse refresh m qs c"
  note s = fetch_times_spaced [OF assms(1), of m lib parse refresh c]
  have "hd ?ts \<in> set ?ts" "last ?ts \<in> set ?ts" using False by simp_all
  then have "hd ?ts \<in> {t..t + w}" "last ?ts \<in> {t..t + w}" using s assms(2,4) by (meson less_imp_le subsetD)+
  then have "int (length ?ts - 1) * m \<le> w" using spaced_span [of m ?ts] s assms(2) False by auto
  then have "int (length ?ts - 1) \<le> w div m"
    using zdiv_mono1 [OF _ assms(2), of "int (length ?ts - 1) * m" w] assms(2) by simp
  with False show ?thesis by (simp add: of_nat_diff Suc_leI)
qed


section \<open>Tokens that were issued here\<close>

text \<open>
  What OpenSSL documents of \<^verbatim>\<open>EVP_EncodeBlock\<close> and \<^verbatim>\<open>EVP_DecodeBlock\<close>: base64 with padding, and zero bytes for the padding.
\<close>

definition padding_of :: "string \<Rightarrow> nat" where
  "padding_of s = (3 - length s mod 3) mod 3"

definition base64_ok :: "'k openssl \<Rightarrow> bool" where
  "base64_ok lib \<longleftrightarrow>
     (\<forall>s. \<exists>body. encode_block lib s = body @ replicate (padding_of s) (CHR ''='') \<and> length (encode_block lib s) mod 4 = 0 \<and>
        (body = [] \<longleftrightarrow> s = []) \<and> set body \<inter> set ''=-_.'' = {} \<and>
        decode_block lib (encode_block lib s) = Some (s @ replicate (padding_of s) NUL))"

lemma dropWhile_padding:
  "CHR ''='' \<notin> set body \<Longrightarrow> rev (dropWhile (\<lambda>c. c = CHR ''='') (rev (body @ replicate n (CHR ''='')))) = body"
proof (induction n)
  case 0 then show ?case by (cases body rule: rev_cases) (auto simp: dropWhile_eq_self_iff)
next
  case (Suc n)
  have "body @ replicate (Suc n) (CHR ''='') = (body @ replicate n (CHR ''='')) @ [CHR ''='']" by (simp add: replicate_append_same)
  then have "rev (body @ replicate (Suc n) (CHR ''='')) = CHR ''='' # rev (body @ replicate n (CHR ''=''))" by (simp only: rev_append) simp
  with Suc show ?case by simp
qed

lemma base64url_body:
  assumes "base64_ok lib"
  obtains body where "encode_block lib s = body @ replicate (padding_of s) (CHR ''='')" "length (encode_block lib s) mod 4 = 0"
    "set body \<inter> set ''=-_.'' = {}" "decode_block lib (encode_block lib s) = Some (s @ replicate (padding_of s) NUL)" "body = [] \<longleftrightarrow> s = []"
    "base64url_encode lib s = map (\<lambda>c. if c = CHR ''+'' then CHR ''-'' else if c = CHR ''/'' then CHR ''_'' else c) body"
proof -
  obtain body where b: "encode_block lib s = body @ replicate (padding_of s) (CHR ''='')" "length (encode_block lib s) mod 4 = 0"
    "set body \<inter> set ''=-_.'' = {}" "decode_block lib (encode_block lib s) = Some (s @ replicate (padding_of s) NUL)" "body = [] \<longleftrightarrow> s = []"
    using assms [unfolded base64_ok_def, THEN spec [of _ s]] by (elim exE conjE) (rule that)
  from b(3) have n: "CHR ''='' \<notin> set body" by auto
  show thesis by (rule that [OF b]) (simp only: base64url_encode_def b(1) dropWhile_padding [OF n])
qed

lemma missing_padding:
  assumes "p < 3" "(n + p) mod 4 = 0"
  shows "(4 - n mod 4) mod 4 = (p :: nat)"
proof -
  have "list_all (\<lambda>r. list_all (\<lambda>p. (r + p) mod 4 = 0 \<longrightarrow> (4 - r) mod 4 = p) [0..<3]) [0..<4 :: nat]" by code_simp
  then have all: "\<forall>r \<in> {..<4 :: nat}. \<forall>p \<in> {..<3}. (r + p) mod 4 = 0 \<longrightarrow> (4 - r) mod 4 = p"
    by (simp only: list_all_iff set_upt atLeast0LessThan)
  have "n mod 4 \<in> {..<4}" "p \<in> {..<3}" using assms(1) by simp_all
  from all [THEN bspec, OF this(1), THEN bspec, OF this(2)] assms(2) show ?thesis by (simp add: mod_add_left_eq)
qed

lemma base64url_no_dot: "base64_ok lib \<Longrightarrow> CHR ''.'' \<notin> set (base64url_encode lib s)"
  by (erule base64url_body [of lib s]) auto

lemma base64url_roundtrip:
  assumes "base64_ok lib"
  shows "base64url_decode lib (base64url_encode lib s) = s"
proof -
  obtain body where b: "encode_block lib s = body @ replicate (padding_of s) (CHR ''='')" "length (encode_block lib s) mod 4 = 0"
    "set body \<inter> set ''=-_.'' = {}" "decode_block lib (encode_block lib s) = Some (s @ replicate (padding_of s) NUL)" "body = [] \<longleftrightarrow> s = []"
    "base64url_encode lib s = map (\<lambda>c. if c = CHR ''+'' then CHR ''-'' else if c = CHR ''/'' then CHR ''_'' else c) body"
    by (rule base64url_body [OF assms, of s])
  have m: "map (\<lambda>c. if c = CHR ''-'' then CHR ''+'' else if c = CHR ''_'' then CHR ''/'' else c) (base64url_encode lib s) = body"
    using b(3) unfolding b(6) by (auto intro!: map_idI)
  have p: "padding_of s < 3" by (simp add: padding_of_def)
  have "(length body + padding_of s) mod 4 = 0" using b(1,2) by simp
  then have r: "(4 - length body mod 4) mod 4 = padding_of s" by (rule missing_padding [OF p])
  have e: "body @ replicate (padding_of s) (CHR ''='') = encode_block lib s" using b(1) by simp
  have pads: "(if encode_block lib s \<noteq> [] \<and> last (encode_block lib s) = CHR ''='' then 1 else 0) +
      (if length (encode_block lib s) > 1 \<and> encode_block lib s ! (length (encode_block lib s) - 2) = CHR ''='' then 1 else 0 :: nat) = padding_of s"
  proof (cases "s = []")
    case True with b(1,5) show ?thesis by (simp add: padding_of_def)
  next
    case False
    then obtain bs x where bx: "body = bs @ [x]" using b(5) by (cases body rule: rev_cases) auto
    have nx: "y \<noteq> CHR ''=''" if "y \<in> set body" for y using b(3) that by auto
    have last2: "(bs @ [x]) ! (length bs - 1) \<noteq> CHR ''=''" if "bs \<noteq> []" using nx [of "(bs @ [x]) ! (length bs - 1)"] bx that
      by (metis diff_less length_append_singleton length_greater_0_conv less_SucI less_numeral_extra(1) nth_mem)
    from p consider "padding_of s = 0" | "padding_of s = 1" | "padding_of s = 2" by linarith
    then show ?thesis
    proof cases
      case 1 then show ?thesis using b(1) bx nx last2 by (cases "bs = []") auto
    next
      case 2 then show ?thesis using b(1) bx nx by (auto simp: nth_append)
    next
      case 3 then show ?thesis using b(1) bx by (auto simp: nth_append numeral_2_eq_2)
    qed
  qed
  show ?thesis unfolding base64url_decode_def m r Let_def e pads b(4) by simp
qed

text \<open>
  What reading a printed value gives back: the value, with integers that are not negative as unsigned ones, as the library's
  parser has them.
\<close>

fun json_norm :: "json \<Rightarrow> json" where
  "json_norm (JInt i) = (if i < 0 then JInt i else JUnsigned (nat i))"
| "json_norm (JObject fs) = JObject (map (\<lambda>(k, v). (k, json_norm v)) fs)"
| "json_norm (JArray vs) = JArray (map json_norm vs)"
| "json_norm j = j"

lemma map_of_norm: "map_of (map (\<lambda>(k, v). (k, json_norm v)) fs) k = map_option json_norm (map_of fs k)"
  by (induction fs) auto

lemma token_header_fields:
  "json_norm (token_header alg kid) = token_header alg kid"
  "json_string_field ''alg'' (token_header alg kid) = Some alg"
  "(case json_string_field ''kid'' (token_header alg kid) of Some k \<Rightarrow> k | None \<Rightarrow> []) = kid"
proof -
  have l: "str_less ''kid'' ''alg'' = False" "str_less ''kid'' ''typ''" by code_simp+
  show "json_norm (token_header alg kid) = token_header alg kid" "json_string_field ''alg'' (token_header alg kid) = Some alg"
    "(case json_string_field ''kid'' (token_header alg kid) of Some k \<Rightarrow> k | None \<Rightarrow> []) = kid"
    by (simp_all add: token_header_def json_string_field_def l Let_def)
qed

text \<open>
  What OpenSSL documents of a public key that goes with a private one: they are of the same type, a signature that
  \<^verbatim>\<open>EVP_DigestSign\<close> makes with the one is verified by \<^verbatim>\<open>EVP_DigestVerify\<close> with the other, the DER form of a signature that
  was decoded is encoded again as it was, and a number written in a number of bytes is read back from them. The conversions between
  the DER form and the raw one are the repository's.
\<close>

definition key_pair :: "'k openssl \<Rightarrow> 'k \<Rightarrow> 'k \<Rightarrow> bool" where
  "key_pair lib priv pub \<longleftrightarrow>
     kind_of lib pub = kind_of lib priv \<and>
     (\<forall>k n s. bn_bn2binpad lib k n = Some s \<longrightarrow> length s = k \<and> bn_bin2bn lib s = n) \<and>
     (\<forall>input sig. digest_sign lib priv input = Some sig \<longrightarrow>
        digest_verify lib pub sig input \<and> (\<forall>rs. d2i_sig lib sig = Some rs \<longrightarrow> i2d_sig lib rs = Some sig))"

text \<open>A verifier that has the secret, or the public key that goes with the private one, for a token that names no published key.\<close>

definition verifier_for :: "'k openssl \<Rightarrow> SigningKey \<Rightarrow> JwtOptions \<Rightarrow> bool" where
  "verifier_for lib key opts \<longleftrightarrow>
     (if private_key_pem key = [] then secret opts = sk_secret key
      else (jwks_url opts = [] \<or> sk_kid key = []) \<and> public_key_pem opts \<noteq> [] \<and>
           (\<exists>priv pub. read_private_pem lib (private_key_pem key) = Some priv \<and>
              read_public_pem lib (public_key_pem opts) = Some pub \<and> key_pair lib priv pub))"

text \<open>A signature that was converted from DER is converted back to the same one.\<close>

lemma der_raw_der:
  assumes "key_pair lib priv pub" "der_to_raw lib der = Some raw"
  obtains rs where "d2i_sig lib der = Some rs" "length raw = 64" "raw_to_der lib raw = i2d_sig lib rs"
proof -
  obtain r s a b where rs: "d2i_sig lib der = Some (r, s)" "bn_bn2binpad lib 32 r = Some a" "bn_bn2binpad lib 32 s = Some b" "raw = a @ b"
    using assms(2) by (auto simp: der_to_raw_def bind_eq_Some_conv split: option.splits)
  with assms(1) have "length a = 32" "length b = 32" "bn_bin2bn lib a = r" "bn_bin2bn lib b = s"
    unfolding key_pair_def by blast+
  with rs have "raw_to_der lib raw = i2d_sig lib (r, s)" "length raw = 64"
    by (simp_all add: raw_to_der_def)
  with rs(1) show thesis by (intro that [of "(r, s)"])
qed

lemma private_signature_verifies:
  assumes "key_pair lib priv pub" "sign_with_private_key lib priv (algorithm_for lib priv) input = Inr sig"
    and "algorithm_for lib priv \<noteq> []"
  shows "verify_with_key lib \<lparr>pk_alg = algorithm_for lib priv, pk_key = pub\<rparr> input sig"
proof -
  obtain der where d: "digest_sign lib priv input = Some der" using assms(2) by (auto simp: sign_with_private_key_def split: option.splits)
  with assms(1) have v: "digest_verify lib pub der input" "\<And>rs. d2i_sig lib der = Some rs \<Longrightarrow> i2d_sig lib rs = Some der"
    by (auto simp: key_pair_def)
  show ?thesis
  proof (cases "algorithm_for lib priv = ''ES256''")
    case True
    then have "der_to_raw lib der = Some sig" using assms(2) d by (auto simp: sign_with_private_key_def split: option.splits)
    then obtain rs where "d2i_sig lib der = Some rs" "length sig = 64" "raw_to_der lib sig = i2d_sig lib rs" by (rule der_raw_der [OF assms(1)])
    with v True show ?thesis by (simp add: verify_with_key_def)
  next
    case False
    with assms(2) d v show ?thesis by (simp add: sign_with_private_key_def verify_with_key_def)
  qed
qed

lemma key_pair_algorithm: "key_pair lib priv pub \<Longrightarrow> algorithm_for lib pub = algorithm_for lib priv"
  by (simp add: key_pair_def algorithm_for_def)

lemma algorithm_cases: "algorithm_for lib k \<in> {[], ''RS256'', ''ES256''}"
  by (auto simp: algorithm_for_def split: key_kind.split)

lemma signed_verifies:
  assumes "base64_ok lib" "new_jwt_auth lib opts = Inr static_key" "verifier_for lib key opts" "signing_key lib key = Inr (k, alg)"
    and "(case k of None \<Rightarrow> Inr (hmac_sha256 lib (sk_secret key) (h @ ''.'' @ p)) | Some pk \<Rightarrow> sign_with_private_key lib pk alg (h @ ''.'' @ p)) = Inr sig"
  shows "check_signature lib parse opts static_key clock response (h, p, base64url_encode lib sig) alg (sk_kid key) c = (Some (Inr True), c)"
proof (cases "private_key_pem key = []")
  case True
  then have "k = None" "alg = ''HS256''" "secret opts = sk_secret key" "sk_secret key \<noteq> []"
    using assms(3,4) by (auto simp: signing_key_def verifier_for_def split: if_splits)
  with assms(5) show ?thesis by (simp add: check_signature_def verify_jwt_signature_def)
next
  case False
  then obtain priv pub where v: "read_private_pem lib (private_key_pem key) = Some priv"
    "read_public_pem lib (public_key_pem opts) = Some pub" "key_pair lib priv pub"
    "jwks_url opts = [] \<or> sk_kid key = []" "public_key_pem opts \<noteq> []"
    using assms(3) by (auto simp: verifier_for_def)
  then have a: "k = Some priv" "alg = algorithm_for lib priv" "alg \<noteq> []"
    using assms(4) False by (auto simp: signing_key_def split: if_splits)
  have st: "static_key = Some \<lparr>pk_alg = alg, pk_key = pub\<rparr>"
    using assms(2) v(2,5) a key_pair_algorithm [OF v(3)]
    by (auto simp: new_jwt_auth_def key_from_pem_def usable_key_def split: if_splits)
  have "verify_with_key lib \<lparr>pk_alg = alg, pk_key = pub\<rparr> (h @ ''.'' @ p) sig"
    using private_signature_verifies [OF v(3), of "h @ ''.'' @ p" sig] assms(5) a by simp
  moreover have "token_key lib parse opts static_key clock response (sk_kid key) c = (Some static_key, c)"
    using v(4) st by (auto simp: token_key_def)
  ultimately show ?thesis
    using a st algorithm_cases [of lib priv]
    by (auto simp: check_signature_def base64url_roundtrip [OF assms(1)])
qed

lemma wrap64_small: "- (2 ^ 63) \<le> i \<Longrightarrow> i < 2 ^ 63 \<Longrightarrow> wrap64 i = i"
  by (simp add: wrap64_def)

text \<open>The claims of a token, for the fields that are checked.\<close>

lemma put_default_at: "map_of (put_default w k v fs) k' = (if k' = k \<and> w \<and> map_of fs k = None then Some v else map_of fs k')"
  by (simp add: put_default_def)

lemma registered_fields:
  assumes "\<forall>n \<in> {''exp'', ''nbf'', ''iss'', ''aud''}. map_of fs n = None"
  shows "map_of (registered_claims so now fs) ''exp'' = (if expires_in so > 0 then Some (JInt (now + expires_in so)) else None)"
    "map_of (registered_claims so now fs) ''nbf'' = (if not_before so > 0 then Some (JInt (now + not_before so)) else None)"
    "map_of (registered_claims so now fs) ''iss'' = (if so_issuer so = [] then None else Some (JString (so_issuer so)))"
    "map_of (registered_claims so now fs) ''aud'' = (if so_audience so = [] then None else Some (JString (so_audience so)))"
  using assms by (simp_all add: registered_claims_def put_default_at)

text \<open>
  A token is in its time, for a verifier's options: an expiry is there if one is demanded, it is not past, a start is not in the
  future, and the sums are within 64 bits.
\<close>

definition in_time :: "SignOptions \<Rightarrow> JwtOptions \<Rightarrow> int \<Rightarrow> int \<Rightarrow> bool" where
  "in_time so opts issued now \<longleftrightarrow>
     0 \<le> issued \<and> 0 \<le> leeway opts \<and> 0 \<le> now \<and> now + leeway opts < 2 ^ 63 \<and>
     (if expires_in so > 0 then now \<le> issued + expires_in so + leeway opts \<and> issued + expires_in so + leeway opts < 2 ^ 63
      else \<not> require_exp opts) \<and>
     (not_before so > 0 \<longrightarrow> issued + not_before so \<le> now + leeway opts)"

lemma registered_checked:
  assumes "\<forall>n \<in> {''exp'', ''nbf'', ''iss'', ''aud''}. map_of fs n = None" "in_time so opts issued now"
    and "opt_issuer opts \<in> {[], so_issuer so}" "opt_audience opts \<in> {[], so_audience so}"
  shows "check_claims cast opts now (json_norm (JObject (registered_claims so issued fs))) = None"
proof -
  note f = registered_fields [OF assms(1), of so issued]
  have e: "check_exp cast opts now (json_norm (JObject (registered_claims so issued fs))) = None"
    using assms(2) by (auto simp: check_exp_def map_of_norm f in_time_def wrap64_small not_less split: if_splits)
  have w: "wrap64 (issued + not_before so) = issued + not_before so" "wrap64 (now + leeway opts) = now + leeway opts"
    if "not_before so > 0"
    using that assms(2) by (auto simp: in_time_def intro!: wrap64_small)
  have n: "check_nbf cast opts now (json_norm (JObject (registered_claims so issued fs))) = None"
    using assms(2) w by (cases "not_before so > 0") (simp_all add: check_nbf_def map_of_norm f in_time_def not_less)
  show ?thesis using e n assms(3,4)
    by (auto simp: check_claims_def json_string_field_def map_of_norm f audience_matches_def)
qed

lemma check_token_issued:
  assumes "base64_ok lib" "sign lib dump issued claims key so = Inr token" "sign_fields claims = Some fs"
    and "new_jwt_auth lib opts = Inr static_key" "verifier_for lib key opts" "signing_key lib key = Inr (k, alg)"
    and "\<And>j. j = token_header alg (sk_kid key) \<or> j = JObject (registered_claims so issued fs) \<Longrightarrow> parse (dump j) = Some (json_norm j)"
    and "\<forall>n \<in> {''exp'', ''nbf'', ''iss'', ''aud''}. map_of fs n = None" "in_time so opts issued now"
    and "opt_issuer opts \<in> {[], so_issuer so}" "opt_audience opts \<in> {[], so_audience so}"
  shows "check_token lib parse cast opts static_key now clock response token c =
    (Accepted (json_norm (JObject (registered_claims so issued fs))), c)"
proof -
  let ?h = "base64url_encode lib (dump (token_header alg (sk_kid key)))" and ?p = "base64url_encode lib (dump (JObject (registered_claims so issued fs)))"
  let ?s = "case k of None \<Rightarrow> Inr (hmac_sha256 lib (sk_secret key) (?h @ ''.'' @ ?p)) | Some pk \<Rightarrow> sign_with_private_key lib pk alg (?h @ ''.'' @ ?p)"
  have t: "map_sum id (\<lambda>sig. (?h @ ''.'' @ ?p) @ ''.'' @ base64url_encode lib sig) ?s = Inr token"
    using assms(2,3,6) by (cases k) (simp_all add: sign_def Let_def)
  obtain sig where s: "(case k of None \<Rightarrow> Inr (hmac_sha256 lib (sk_secret key) (?h @ ''.'' @ ?p)) | Some pk \<Rightarrow> sign_with_private_key lib pk alg (?h @ ''.'' @ ?p)) = Inr sig"
    "token = ?h @ ''.'' @ ?p @ ''.'' @ base64url_encode lib sig"
    using t by (cases ?s) simp_all
  have sp: "split_on (CHR ''.'') token = [?h, ?p, base64url_encode lib sig]"
    using base64url_no_dot [OF assms(1)] s(2) by (simp add: split_on_append split_on_notin)
  have j: "parse (dump (token_header alg (sk_kid key))) = Some (json_norm (token_header alg (sk_kid key)))"
    "parse (dump (JObject (registered_claims so issued fs))) = Some (json_norm (JObject (registered_claims so issued fs)))"
    by (rule assms(7); simp)+
  have "check_claims cast opts now (json_norm (JObject (registered_claims so issued fs))) = None"
    by (rule registered_checked [OF assms(8-11)])
  then show ?thesis
    using j signed_verifies [OF assms(1,4-6) s(1), of parse clock response c]
    by (simp add: check_token_def sp base64url_roundtrip [OF assms(1)] token_header_fields)
qed

text \<open>
  C39: A token that \<^verbatim>\<open>sign\<close> issues is accepted by a verifier with the same secret, or one configured with the public key of the private
  key it was signed with, from its start until it expires (if it has a start, or an expiry), and the handler gets the claims that were
  signed. The token is meant for the verifier: of the issuer and audience it asks for, with an expiry if it demands one, and, if it
  also takes published keys and the token is signed with a private key, without a key id. The claims handed to \<^verbatim>\<open>sign\<close> do not
  themselves set the fields that are checked, times are within 64 bits, and OpenSSL and the JSON library read back what they
  wrote: base64, the printed header and claims, the DER form of a signature, its numbers as bytes, and a signature of \<^verbatim>\<open>EVP_DigestSign\<close> under the
  matching public key. That the code's conversion of an ECDSA signature to the raw form and back loses nothing is proved.
\<close>

theorem signed_token_accepted:
  assumes "base64_ok lib" "sign lib dump issued claims key so = Inr token" "sign_fields claims = Some fs"
    and "new_jwt_auth lib opts = Inr static_key" "verifier_for lib key opts" "signing_key lib key = Inr (k, alg)"
    and "\<And>j. j = token_header alg (sk_kid key) \<or> j = JObject (registered_claims so issued fs) \<Longrightarrow> parse (dump j) = Some (json_norm j)"
    and "\<forall>n \<in> {''exp'', ''nbf'', ''iss'', ''aud''}. map_of fs n = None" "in_time so opts issued now"
    and "opt_issuer opts \<in> {[], so_issuer so}" "opt_audience opts \<in> {[], so_audience so}"
  shows "jwt_auth lib parse cast opts static_key now clock response [(''Authorization'', ''Bearer '' @ token)] c =
    (Accepted (json_norm (JObject (registered_claims so issued fs))), c)"
  using check_token_issued [OF assms(1-6) _ assms(8-11)] assms(7) by (simp add: jwt_auth_def)

section \<open>Examples\<close>

text \<open>
  A library for examples: four letters for each byte and padding as base64 has it, one HMAC and one ECDSA signature for everything, and
  one pair of keys (\<open>True\<close> the private one); and a printer and parser for the two JSON objects of one token.
\<close>

definition demo_letter :: "nat \<Rightarrow> char" where
  "demo_letter n = char_of (65 + n)"

definition demo_encode :: "string \<Rightarrow> string" where
  "demo_encode s =
     concat (map (\<lambda>c. [demo_letter (byte_of c div 16), demo_letter (byte_of c mod 16), CHR ''z'', CHR ''z'']) s) @
     replicate (if padding_of s = 0 then 0 else 4 - padding_of s) (CHR ''z'') @ replicate (padding_of s) (CHR ''='')"

fun demo_groups :: "string \<Rightarrow> string" where
  "demo_groups (h # l # x # y # r) =
     (if h = CHR ''z'' then [] else char_of ((byte_of h - 65) * 16 + (byte_of l - 65)) # demo_groups r)"
| "demo_groups _ = []"

definition demo_decode :: "string \<Rightarrow> string option" where
  "demo_decode b = Some (demo_groups b @ replicate (count_list b (CHR ''='')) NUL)"

fun demo_bytes :: "nat \<Rightarrow> nat \<Rightarrow> string" where
  "demo_bytes 0 n = []"
| "demo_bytes (Suc k) n = demo_bytes k (n div 256) @ [char_of (n mod 256)]"

definition demo_number :: "string \<Rightarrow> nat" where
  "demo_number s = foldl (\<lambda>n c. 256 * n + byte_of c) 0 s"

lemma demo_bytes_number: "length (demo_bytes k n) = k" "demo_number (demo_bytes k n) = n mod 256 ^ k"
proof -
  show "length (demo_bytes k n) = k" by (induction k arbitrary: n) simp_all
  show "demo_number (demo_bytes k n) = n mod 256 ^ k"
  proof (induction k arbitrary: n)
    case (Suc k)
    have "demo_number (demo_bytes (Suc k) n) = 256 * (n div 256 mod 256 ^ k) + n mod 256"
      using Suc by (simp add: demo_number_def byte_of_def)
    also have "\<dots> = n mod 256 ^ Suc k" by (simp add: mod_mult2_eq)
    finally show ?case .
  qed (simp add: demo_number_def)
qed

definition demo_ssl :: "bool openssl" where
  "demo_ssl =
     \<lparr>encode_block = demo_encode, decode_block = demo_decode, hmac_sha256 = (\<lambda>_ _. ''mac''), read_public_pem = (\<lambda>_. Some False),
      read_private_pem = (\<lambda>_. Some True), rsa_public = (\<lambda>_ _. None), ec_public = (\<lambda>_. None), kind_of = (\<lambda>_. EcKey ''prime256v1''),
      digest_verify = (\<lambda>k sig _. \<not> k \<and> sig = ''der''), digest_sign = (\<lambda>k _. if k then Some ''der'' else None),
      d2i_sig = (\<lambda>der. if der = ''der'' then Some (7, 9) else None), i2d_sig = (\<lambda>rs. if rs = (7, 9) then Some ''der'' else None),
      bn_bin2bn = demo_number, bn_bn2binpad = (\<lambda>k n. if n < 256 ^ k then Some (demo_bytes k n) else None)\<rparr>"

lemma demo_letters:
  assumes "n < 16"
  shows "byte_of (demo_letter n) = 65 + n" "demo_letter n \<noteq> CHR ''z''" "demo_letter n \<notin> set ''=-_.''"
proof -
  show b: "byte_of (demo_letter n) = 65 + n" using assms by (simp add: demo_letter_def)
  have o: "byte_of (CHR ''z'') = 122" "byte_of (CHR ''='') = 61" "byte_of (CHR ''-'') = 45" "byte_of (CHR ''_'') = 95" "byte_of (CHR ''.'') = 46"
    by code_simp+
  show "demo_letter n \<noteq> CHR ''z''" using assms b o(1) by auto
  show "demo_letter n \<notin> set ''=-_.''"
  proof
    assume "demo_letter n \<in> set ''=-_.''"
    then have "byte_of (demo_letter n) \<in> {61, 45, 95, 46}" using o by auto
    with b assms show False by auto
  qed
qed

lemma demo_groups_encode:
  "demo_groups (concat (map (\<lambda>c. [demo_letter (byte_of c div 16), demo_letter (byte_of c mod 16), CHR ''z'', CHR ''z'']) s) @ r) = s @ demo_groups r"
proof (induction s)
  case (Cons c s)
  have h: "byte_of c div 16 < 16" "byte_of c mod 16 < 16" using byte_of_less [of c] by auto
  then show ?case using Cons demo_letters [OF h(1)] demo_letters [OF h(2)] by simp
qed simp

lemma demo_ssl_base64: "base64_ok demo_ssl"
  unfolding base64_ok_def
proof
  fix s :: string
  let ?g = "concat (map (\<lambda>c. [demo_letter (byte_of c div 16), demo_letter (byte_of c mod 16), CHR ''z'', CHR ''z'']) s)"
  let ?z = "replicate (if padding_of s = 0 then 0 else 4 - padding_of s) (CHR ''z'')"
  let ?p = "replicate (padding_of s) (CHR ''='')"
  have p: "padding_of s < 3" "padding_of s = 0 \<longleftrightarrow> length s mod 3 = 0"
  proof -
    show "padding_of s < 3" by (simp add: padding_of_def)
    have "length s mod 3 < 3" by simp
    then show "padding_of s = 0 \<longleftrightarrow> length s mod 3 = 0" unfolding padding_of_def by (cases "length s mod 3 = 0") auto
  qed
  have hc: "byte_of c div 16 < 16" "byte_of c mod 16 < 16" for c using byte_of_less [of c] by auto
  have lg: "length ?g = 4 * length s" by (induction s) simp_all
  have sg: "set ?g \<inter> set ''=-_.'' = {}"
    using demo_letters(3) [OF hc(1)] demo_letters(3) [OF hc(2)] by fastforce
  have e: "demo_encode s = (?g @ ?z) @ ?p" by (simp add: demo_encode_def)
  have len: "length (demo_encode s) mod 4 = 0" using p(1) unfolding e by (simp add: lg)
  have sz: "set ?z \<inter> set ''=-_.'' = {}" by simp
  have nil: "?g @ ?z = [] \<longleftrightarrow> s = []" by (cases s) (simp_all add: padding_of_def)
  have cnt: "count_list (demo_encode s) (CHR ''='') = padding_of s"
  proof -
    have "count_list (?g @ ?z) (CHR ''='') = 0" using sg sz by (auto simp: count_list_0_iff)
    moreover have "count_list (replicate n (CHR ''='')) (CHR ''='') = n" for n by (induction n) simp_all
    ultimately show ?thesis unfolding e by simp
  qed
  have zz: "demo_groups (?z @ ?p) = []"
  proof -
    from p(1) consider "padding_of s = 0" | "padding_of s = 1" | "padding_of s = 2" by linarith
    then show ?thesis by cases (simp_all add: numeral_eq_Suc)
  qed
  have "demo_groups (demo_encode s) = s" using demo_groups_encode [of s "?z @ ?p"] zz unfolding e by simp
  with cnt have d: "demo_decode (demo_encode s) = Some (s @ replicate (padding_of s) NUL)" by (simp add: demo_decode_def)
  show "\<exists>body. encode_block demo_ssl s = body @ ?p \<and> length (encode_block demo_ssl s) mod 4 = 0 \<and> (body = [] \<longleftrightarrow> s = []) \<and>
      set body \<inter> set ''=-_.'' = {} \<and> decode_block demo_ssl (encode_block demo_ssl s) = Some (s @ replicate (padding_of s) NUL)"
    using e len nil sg sz d by (intro exI [of _ "?g @ ?z"]) (simp add: demo_ssl_def)
qed

definition demo_key :: SigningKey where
  "demo_key = \<lparr>sk_secret = ''s'', private_key_pem = [], sk_kid = []\<rparr>"

definition demo_ec_key :: SigningKey where
  "demo_ec_key = \<lparr>sk_secret = [], private_key_pem = ''private'', sk_kid = ''k1''\<rparr>"

definition demo_so :: SignOptions where
  "demo_so = \<lparr>expires_in = 60, not_before = 10, so_issuer = [], so_audience = [], so_subject = []\<rparr>"

definition demo_opts :: JwtOptions where
  "demo_opts = \<lparr>secret = ''s'', public_key_pem = [], jwks_url = [], jwks_refresh = 3600, jwks_min_refetch = 30, opt_issuer = [],
     opt_audience = [], require_exp = True, leeway = 0\<rparr>"

definition demo_ec_opts :: JwtOptions where
  "demo_ec_opts = demo_opts\<lparr>secret := [], public_key_pem := ''public''\<rparr>"

definition demo_dump :: "json \<Rightarrow> json \<Rightarrow> string" where
  "demo_dump header j = (if j = header then ''h'' else ''c'')"

definition demo_parse :: "json \<Rightarrow> string \<Rightarrow> json option" where
  "demo_parse header s =
     (if s = ''h'' then Some (json_norm header) else Some (json_norm (JObject (registered_claims demo_so 100 []))))"

definition demo_token :: "string \<Rightarrow> SigningKey \<Rightarrow> string" where
  "demo_token alg key =
     (case sign demo_ssl (demo_dump (token_header alg (sk_kid key))) 100 JNull key demo_so of Inr t \<Rightarrow> t | Inl e \<Rightarrow> [])"

lemma demo_signing_key:
  "signing_key demo_ssl demo_key = Inr (None, ''HS256'')" "signing_key demo_ssl demo_ec_key = Inr (Some True, ''ES256'')"
  by (simp_all add: signing_key_def demo_key_def demo_ec_key_def demo_ssl_def algorithm_for_def)

lemma demo_token_signed:
  "sign demo_ssl (demo_dump (token_header ''HS256'' (sk_kid demo_key))) 100 JNull demo_key demo_so = Inr (demo_token ''HS256'' demo_key)"
  "sign demo_ssl (demo_dump (token_header ''ES256'' (sk_kid demo_ec_key))) 100 JNull demo_ec_key demo_so = Inr (demo_token ''ES256'' demo_ec_key)"
proof -
  have "sign_with_private_key demo_ssl True ''ES256'' input = Inr (demo_bytes 32 7 @ demo_bytes 32 9)" for input
    by (simp add: sign_with_private_key_def demo_ssl_def der_to_raw_def)
  then show
    "sign demo_ssl (demo_dump (token_header ''HS256'' (sk_kid demo_key))) 100 JNull demo_key demo_so = Inr (demo_token ''HS256'' demo_key)"
    "sign demo_ssl (demo_dump (token_header ''ES256'' (sk_kid demo_ec_key))) 100 JNull demo_ec_key demo_so = Inr (demo_token ''ES256'' demo_ec_key)"
    by (simp_all add: demo_token_def sign_def sign_fields_def demo_signing_key Let_def)
qed

lemma demo_json:
  "j = token_header alg kid \<or> j = JObject (registered_claims demo_so 100 []) \<Longrightarrow>
     demo_parse (token_header alg kid) (demo_dump (token_header alg kid) j) = Some (json_norm j)"
proof -
  have "map_of (registered_claims demo_so 100 []) ''exp'' \<noteq> None" by (simp add: registered_fields demo_so_def)
  moreover have "map_of (case token_header alg kid of JObject fs \<Rightarrow> fs) ''exp'' = None" by (simp add: token_header_def Let_def)
  ultimately have "JObject (registered_claims demo_so 100 []) \<noteq> token_header alg kid" by (auto simp: token_header_def Let_def)
  then show "j = token_header alg kid \<or> j = JObject (registered_claims demo_so 100 []) \<Longrightarrow> ?thesis"
    by (auto simp: demo_parse_def demo_dump_def)
qed

lemma demo_verifiers:
  "new_jwt_auth demo_ssl demo_opts = Inr None" "verifier_for demo_ssl demo_key demo_opts"
  "new_jwt_auth demo_ssl demo_ec_opts = Inr (Some \<lparr>pk_alg = ''ES256'', pk_key = False\<rparr>)" "verifier_for demo_ssl demo_ec_key demo_ec_opts"
  "in_time demo_so demo_opts 100 120" "in_time demo_so demo_ec_opts 100 120"
  by (simp_all add: new_jwt_auth_def demo_opts_def demo_ec_opts_def verifier_for_def demo_key_def demo_ec_key_def key_from_pem_def
      usable_key_def algorithm_for_def key_pair_def demo_ssl_def in_time_def demo_so_def ex_bool_eq demo_bytes_number)

lemma demo_checked:
  "check_token demo_ssl (demo_parse (token_header ''HS256'' (sk_kid demo_key))) (\<lambda>_. 0) demo_opts None 120 0 FetchFailed (demo_token ''HS256'' demo_key) new_cache =
   (Accepted (json_norm (JObject (registered_claims demo_so 100 []))), new_cache)"
  by (rule check_token_issued [OF demo_ssl_base64 demo_token_signed(1) _ demo_verifiers(1,2) demo_signing_key(1) demo_json _ demo_verifiers(5)])
     (simp_all add: sign_fields_def demo_opts_def)

text \<open>One token signed with a secret and one with a private EC key; both are valid from the second 110 to the second 160.\<close>

theorem signed_token_accepted_witness:
  "jwt_auth demo_ssl (demo_parse (token_header ''HS256'' [])) (\<lambda>_. 0) demo_opts None 120 0 FetchFailed
     [(''Authorization'', ''Bearer '' @ demo_token ''HS256'' demo_key)] new_cache =
   (Accepted (json_norm (JObject (registered_claims demo_so 100 []))), new_cache) \<and>
   jwt_auth demo_ssl (demo_parse (token_header ''ES256'' ''k1'')) (\<lambda>_. 0) demo_ec_opts (Some \<lparr>pk_alg = ''ES256'', pk_key = False\<rparr>) 120 0 FetchFailed
     [(''Authorization'', ''Bearer '' @ demo_token ''ES256'' demo_ec_key)] new_cache =
   (Accepted (json_norm (JObject (registered_claims demo_so 100 []))), new_cache)"
proof -
  have kid: "sk_kid demo_key = []" "sk_kid demo_ec_key = ''k1''" by (simp_all add: demo_key_def demo_ec_key_def)
  note hs = signed_token_accepted [OF demo_ssl_base64 demo_token_signed(1) _ demo_verifiers(1,2) demo_signing_key(1) demo_json _ demo_verifiers(5)]
  note ec = signed_token_accepted [OF demo_ssl_base64 demo_token_signed(2) _ demo_verifiers(3,4) demo_signing_key(2) demo_json _ demo_verifiers(6)]
  show ?thesis
    using hs [of "[]"] ec [of "[]"] by (simp add: kid sign_fields_def demo_opts_def demo_ec_opts_def)
qed

theorem jwt_accepts_only_signed_witness:
  "\<exists>h p s header. hdr_find ''Authorization'' [(''Authorization'', ''Bearer '' @ demo_token ''HS256'' demo_key)] = Some (''Bearer '' @ h @ ''.'' @ p @ ''.'' @ s) \<and>
     demo_parse (token_header ''HS256'' (sk_kid demo_key)) (base64url_decode demo_ssl h) = Some header \<and> json_field ''alg'' header = Some (JString ''HS256'') \<and>
     s = base64url_encode demo_ssl (hmac_sha256 demo_ssl ''s'' (h @ ''.'' @ p))"
proof -
  have "jwt_auth demo_ssl (demo_parse (token_header ''HS256'' (sk_kid demo_key))) (\<lambda>_. 0) demo_opts None 120 0 FetchFailed
      [(''Authorization'', ''Bearer '' @ demo_token ''HS256'' demo_key)] new_cache =
    (Accepted (json_norm (JObject (registered_claims demo_so 100 []))), new_cache)" by (simp add: jwt_auth_def demo_checked)
  from jwt_accepts_only_signed [OF demo_verifiers(1) cache_reachable.fresh this] show ?thesis
    by (auto simp: demo_opts_def new_cache_def)
qed

theorem jwks_fetches_bounded_witness:
  "int (length (fetch_times demo_ssl (demo_parse JNull) 3600 30 [(0, FetchFailed, ''a''), (10, FetchFailed, ''b''), (29, FetchFailed, ''c'')] new_cache)) \<le> 1"
  using jwks_fetches_bounded [of "[(0, FetchFailed, ''a''), (10, FetchFailed, ''b''), (29, FetchFailed, ''c'')]" 30 29 0 demo_ssl "demo_parse JNull" 3600 new_cache]
  by simp

text \<open>
  Two cases the code does not handle as it says. A time that needs the 64th bit is converted to a negative number: a token that is
  not valid for ages is accepted. And a published key whose curve is not a string is not skipped: the exception leaves the lookup,
  and the other keys of the set are not loaded.
\<close>

lemma far_nbf_accepted: "0 \<le> now \<Longrightarrow> now < 2 ^ 62 \<Longrightarrow> leeway opts = 0 \<Longrightarrow> check_nbf cast opts now (JObject [(''nbf'', JUnsigned (2 ^ 63))]) = None"
  by (simp add: check_nbf_def wrap64_def)

lemma bad_curve_throws:
  "fetch_locked lib (\<lambda>_. Some (JObject [(''keys'', JArray (JObject [(''crv'', JInt 1), (''kty'', JString ''EC'')] # rest))])) now (Fetched 200 body) c =
   (True, c\<lparr>attempted := True, attempted_at := now\<rparr>)"
  by (simp add: fetch_locked_def key_from_jwk_def jwk_raw_def json_string_field_def Let_def)

end
