(* ===== verification/Proxy.thy ===== *)
theory Proxy
  imports Connection_Output "HOL-Library.Word"
begin

text \<open>
  The reverse proxy and load balancer (\<^verbatim>\<open>src/middleware/Proxy.cpp\<close>): the request sent upstream, the decoder of chunked
  bodies, and the relay of the upstream's response to the client, from the bytes that are read to the calls of the response
  writer. Sockets, TLS and name resolution are left out: the bytes of the upstream arrive in pieces, as they were decrypted.

  The theorems: the upstream reads one request with the body of the client's, in which the forwarding fields are those of the
  proxy and no hop-by-hop field of the client's is left; a chunked body, however it is cut into pieces, decodes to what an
  Orbit server put into it; a body with a length is relayed up to that length and ended once.
\<close>

section \<open>The request sent upstream\<close>

definition to_lower :: "string \<Rightarrow> string" where
  "to_lower s = map tolower s"

definition trim_token :: "string \<Rightarrow> string" where
  "trim_token s = rev (dropWhile (\<lambda>c. is_ows c \<or> c = CR) (rev (dropWhile is_ows s)))"

definition lower_tokens :: "string \<Rightarrow> string list" where
  "lower_tokens v = map to_lower (filter (\<lambda>t. t \<noteq> []) (map trim_token (split_on (CHR '','') v)))"

definition hop_by_hop_names :: "string list" where
  "hop_by_hop_names =
     [''connection'', ''keep-alive'', ''proxy-connection'', ''transfer-encoding'', ''te'', ''trailer'', ''upgrade'',
      ''proxy-authorization'', ''proxy-authenticate'', ''host'', ''content-length'']"

definition is_hop_by_hop :: "string \<Rightarrow> bool" where
  "is_hop_by_hop n \<longleftrightarrow> n \<in> set hop_by_hop_names"

definition is_forwarding_header :: "string \<Rightarrow> bool" where
  "is_forwarding_header n \<longleftrightarrow> n \<in> {''x-forwarded-for'', ''x-forwarded-host'', ''x-forwarded-proto'', ''x-real-ip'', ''forwarded''}"

fun method_name :: "HttpMethod \<Rightarrow> string option" where
  "method_name GET = Some ''GET''"
| "method_name POST = Some ''POST''"
| "method_name PUT = Some ''PUT''"
| "method_name PATCH = Some ''PATCH''"
| "method_name DELETE = Some ''DELETE''"
| "method_name OPTIONS = Some ''OPTIONS''"
| "method_name HEAD = Some ''HEAD''"
| "method_name _ = None"

record ProxiedRequest =
  px_method :: string
  px_target :: string
  px_headers :: "(string \<times> string) list"
  px_body :: string
  px_client_ip :: string

definition snapshot_request :: "HttpRequest \<Rightarrow> ProxiedRequest" where
  "snapshot_request req =
     \<lparr>px_method = (case method_name (req_method req) of Some m \<Rightarrow> m | None \<Rightarrow> []),
      px_target = (if req_target req = [] then req_uri req else req_target req),
      px_headers = req_headers req, px_body = req_body req, px_client_ip = client_ip req\<rparr>"

definition upstream_target :: "string \<Rightarrow> string \<Rightarrow> string" where
  "upstream_target strip_prefix t =
     (let target = (if t = [] then ''/'' else t)
      in if strip_prefix \<noteq> [] \<and> prefix strip_prefix target
         then let r = drop (length strip_prefix) target in if r = [] \<or> hd r \<noteq> CHR ''/'' then CHR ''/'' # r else r
         else target)"

text \<open>The last value of a field, empty without one; the loop overwrites what it found before.\<close>

definition prior_value :: "string \<Rightarrow> (string \<times> string) list \<Rightarrow> string" where
  "prior_value name hs = (let vs = filter (\<lambda>h. to_lower (fst h) = name) hs in if vs = [] then [] else snd (last vs))"

definition connection_tokens :: "(string \<times> string) list \<Rightarrow> string list" where
  "connection_tokens hs = concat (map (\<lambda>h. if to_lower (fst h) = ''connection'' then lower_tokens (snd h) else []) hs)"

definition kept_headers :: "(string \<times> string) list \<Rightarrow> (string \<times> string) list" where
  "kept_headers hs =
     filter (\<lambda>h. let lk = to_lower (fst h)
                 in \<not> (is_hop_by_hop lk \<or> lk \<in> set (connection_tokens hs) \<or> is_forwarding_header lk)) hs"

definition forwarding_fields :: "bool \<Rightarrow> ProxiedRequest \<Rightarrow> (string \<times> string) list" where
  "forwarding_fields trust r =
     (let prior = (\<lambda>name. prior_value name (px_headers r));
          xff = (if trust \<and> prior ''x-forwarded-for'' \<noteq> []
                 then prior ''x-forwarded-for'' @ (if px_client_ip r = [] then [] else '', '' @ px_client_ip r) else px_client_ip r);
          real_ip = (if trust \<and> prior ''x-real-ip'' \<noteq> [] then prior ''x-real-ip'' else px_client_ip r);
          fwd_host = (if trust \<and> prior ''x-forwarded-host'' \<noteq> [] then prior ''x-forwarded-host'' else prior ''host'')
      in (if xff = [] then [] else [(''X-Forwarded-For'', xff)]) @ (if real_ip = [] then [] else [(''X-Real-IP'', real_ip)]) @
         (if fwd_host = [] then [] else [(''X-Forwarded-Host'', fwd_host)]))"

definition is_upgrade :: "ProxiedRequest \<Rightarrow> bool" where
  "is_upgrade r \<longleftrightarrow> prior_value ''upgrade'' (px_headers r) \<noteq> [] \<and> ''upgrade'' \<in> set (connection_tokens (px_headers r))"

definition upstream_fields :: "string \<Rightarrow> int \<Rightarrow> bool \<Rightarrow> ProxiedRequest \<Rightarrow> (string \<times> string) list" where
  "upstream_fields host port trust r =
     [(''Host'', host @ '':'' @ show_int port)] @ kept_headers (px_headers r) @ forwarding_fields trust r @
     (if px_body r \<noteq> [] \<or> px_method r \<in> {''POST'', ''PUT'', ''PATCH''} then [(''Content-Length'', show_nat (length (px_body r)))] else []) @
     (if is_upgrade r then [(''Upgrade'', prior_value ''upgrade'' (px_headers r)), (''Connection'', ''Upgrade'')]
      else [(''Connection'', ''keep-alive'')])"

definition field_text :: "string \<times> string \<Rightarrow> string" where
  "field_text f = fst f @ '': '' @ snd f"

definition build_upstream_request :: "ProxiedRequest \<Rightarrow> string \<Rightarrow> int \<Rightarrow> string \<Rightarrow> bool \<Rightarrow> string" where
  "build_upstream_request r host port strip_prefix trust =
     px_method r @ '' '' @ upstream_target strip_prefix (px_target r) @ '' HTTP/1.1'' @ CRLF @
     concat (map (\<lambda>f. field_text f @ CRLF) (upstream_fields host port trust r)) @ CRLF @ px_body r"


section \<open>The decoder of chunked bodies\<close>

datatype cd_phase = SizeLine | ChunkData | DataEnd | Trailer | Finished

datatype cd_result = CdNeedMore | CdDone | CdError

record ChunkedDecoder =
  cd_phase :: cd_phase
  cd_line :: string
  cd_remaining :: nat

definition new_decoder :: ChunkedDecoder where
  "new_decoder = \<lparr>cd_phase = SizeLine, cd_line = [], cd_remaining = 0\<rparr>"

definition chunk_size :: "string \<Rightarrow> nat option" where
  "chunk_size l =
     (let line = trim_token l; hex = trim_token (takeWhile (\<lambda>c. c \<noteq> CHR '';'') line)
      in if hex = [] \<or> length hex > 15 \<or> list_ex (\<lambda>c. hexval c = None) hex then None else Some (hex_value hex))"

definition add_to_line :: "nat \<Rightarrow> char \<Rightarrow> ChunkedDecoder \<Rightarrow> bool \<times> ChunkedDecoder" where
  "add_to_line m c d = (length (cd_line d) + 1 \<le> m, d\<lparr>cd_line := cd_line d @ [c]\<rparr>)"

text \<open>One pass of the loop: a result, or the decoder, the input left and the output.\<close>

definition cd_pass :: "ChunkedDecoder \<Rightarrow> string \<Rightarrow> string \<Rightarrow> (cd_result option) \<times> ChunkedDecoder \<times> string \<times> string" where
  "cd_pass d data out =
     (let c = hd data; cs = tl data
      in case cd_phase d of
           SizeLine \<Rightarrow>
             if c \<noteq> LF then (case add_to_line 1024 c d of (ok, d') \<Rightarrow> (if ok then None else Some CdError, d', cs, out))
             else (case chunk_size (cd_line d) of
                     None \<Rightarrow> (Some CdError, d, cs, out)
                   | Some n \<Rightarrow> (None, \<lparr>cd_phase = (if n = 0 then Trailer else ChunkData), cd_line = [], cd_remaining = n\<rparr>, cs, out))
         | ChunkData \<Rightarrow>
             (let n = min (cd_remaining d) (length data); left = cd_remaining d - n
              in (None, d\<lparr>cd_remaining := left, cd_phase := (if left = 0 then DataEnd else ChunkData)\<rparr>, drop n data, out @ take n data))
         | DataEnd \<Rightarrow>
             if c = LF then (None, d\<lparr>cd_phase := SizeLine\<rparr>, cs, out)
             else if c \<noteq> CR then (Some CdError, d, cs, out) else (None, d, cs, out)
         | Trailer \<Rightarrow>
             if c \<noteq> LF then (case add_to_line 8192 c d of (ok, d') \<Rightarrow> (if ok then None else Some CdError, d', cs, out))
             else if trim_token (cd_line d) = [] then (Some CdDone, d\<lparr>cd_line := [], cd_phase := Finished\<rparr>, cs, out)
             else (None, d\<lparr>cd_line := []\<rparr>, cs, out)
         | Finished \<Rightarrow> (Some CdDone, d, data, out))"

lemma cd_pass_progress:
  assumes "cd_pass d data out = (None, d', data', out')" "data \<noteq> []"
  shows "length data' < length data \<or> length data' = length data \<and> cd_phase d = ChunkData \<and> cd_phase d' \<noteq> ChunkData"
  using assms
  by (cases data; cases "cd_phase d")
     (auto simp: cd_pass_def add_to_line_def Let_def min_def split: if_splits option.splits)

function cd_feed :: "ChunkedDecoder \<Rightarrow> string \<Rightarrow> string \<Rightarrow> cd_result \<times> ChunkedDecoder \<times> string" where
  "cd_feed d data out =
     (if data = [] then (if cd_phase d = Finished then CdDone else CdNeedMore, d, out)
      else case cd_pass d data out of
             (Some r, d', _, out') \<Rightarrow> (r, d', out')
           | (None, d', data', out') \<Rightarrow> cd_feed d' data' out')"
  by pat_completeness auto
termination
  by (relation "measures [\<lambda>(d, data, out). length data, \<lambda>(d, data, out). if cd_phase d = ChunkData then 1 else 0]")
     (auto dest: cd_pass_progress [OF sym])

declare cd_feed.simps [simp del]

lemma cd_pass_append:
  assumes "a \<noteq> []" "cd_phase d \<noteq> ChunkData \<or> cd_remaining d \<le> length a"
  shows "cd_pass d (a @ b) out = (case cd_pass d a out of (r, d', a', out') \<Rightarrow> (r, d', a' @ b, out'))"
  using assms
  by (cases "cd_phase d") (auto simp: cd_pass_def Let_def min_def split: option.split prod.split)

lemma cd_feed_short:
  assumes "cd_phase d = ChunkData" "length a < cd_remaining d"
  shows "cd_feed d (a @ b) out = cd_feed (d\<lparr>cd_remaining := cd_remaining d - length a\<rparr>) b (out @ a)"
proof (cases "b = []")
  case True
  show ?thesis
  proof (cases "a = []")
    case False
    then have "cd_pass d a out = (None, d\<lparr>cd_remaining := cd_remaining d - length a\<rparr>, [], out @ a)"
      using assms by (auto simp: cd_pass_def Let_def)
    with True False show ?thesis by (simp add: cd_feed.simps [of d])
  qed (use assms True in simp)
next
  case False
  let ?d = "d\<lparr>cd_remaining := cd_remaining d - length a\<rparr>"
  have "cd_pass d (a @ b) out = cd_pass ?d b (out @ a)"
    using assms False by (cases "cd_remaining d \<le> length a + length b") (auto simp: cd_pass_def Let_def min_def)
  with False show ?thesis by (simp add: cd_feed.simps [of d] cd_feed.simps [of ?d])
qed

lemma cd_feed_append:
  "cd_feed d (a @ b) out =
     (case cd_feed d a out of (r, d', out') \<Rightarrow> if r = CdNeedMore then cd_feed d' b out' else (r, d', out'))"
proof (induction d a out rule: cd_feed.induct)
  case (1 d a out)
  consider "a = []" | "a \<noteq> []" "cd_phase d = ChunkData" "length a < cd_remaining d"
    | "a \<noteq> []" "cd_phase d \<noteq> ChunkData \<or> cd_remaining d \<le> length a" by linarith
  then show ?case
  proof cases
    case 1
    then show ?thesis by (cases b) (auto simp: cd_feed.simps [of d] cd_pass_def Let_def)
  next
    case 2
    then show ?thesis using cd_feed_short [OF 2(2,3), of b out] cd_feed_short [OF 2(2,3), of "[]" out]
      by (simp add: cd_feed.simps [of _ "[]"])
  next
    case 3
    obtain r d' a' out' where p: "cd_pass d a out = (r, d', a', out')" by (metis prod_cases4)
    with cd_pass_append [OF 3, of b out] have q: "cd_pass d (a @ b) out = (r, d', a' @ b, out')" by simp
    have done_phase: "x = CdDone \<or> x = CdError" if "r = Some x" for x
      using p that by (cases "cd_phase d") (auto simp: cd_pass_def Let_def add_to_line_def split: if_splits option.splits)
    show ?thesis
    proof (cases r)
      case None
      with 1 3 p have "cd_feed d' (a' @ b) out' = (case cd_feed d' a' out' of (r, d', out') \<Rightarrow> if r = CdNeedMore then cd_feed d' b out' else (r, d', out'))"
        by simp
      with None 3 p q show ?thesis by (simp add: cd_feed.simps [of d "a @ b"] cd_feed.simps [of d a])
    next
      case (Some x)
      with done_phase [OF Some] 3 p q show ?thesis by (auto simp: cd_feed.simps [of d "a @ b"] cd_feed.simps [of d a])
    qed
  qed
qed

text \<open>Reading a line of hexadecimal digits, and a chunk as the server formats it.\<close>

lemma cd_size_line:
  assumes "LF \<notin> set l" "length (cd_line d) + length l \<le> 1024" "cd_phase d = SizeLine"
  shows "cd_feed d (l @ s) out = cd_feed (d\<lparr>cd_line := cd_line d @ l\<rparr>) s out"
  using assms
proof (induction l arbitrary: d)
  case (Cons c l)
  have "cd_pass d (c # l @ s) out = (None, d\<lparr>cd_line := cd_line d @ [c]\<rparr>, l @ s, out)"
    using Cons.prems by (auto simp: cd_pass_def add_to_line_def Let_def)
  with Cons.IH [of "d\<lparr>cd_line := cd_line d @ [c]\<rparr>"] Cons.prems show ?case by (simp add: cd_feed.simps [of d])
qed simp

lemma hex_digits_props:
  assumes "c \<in> set (show_hex n)"
  shows "hexval c \<noteq> None" "\<not> is_ows c" "c \<noteq> CR" "c \<noteq> LF" "c \<noteq> CHR '';''"
proof -
  have "set (show_hex n) \<subseteq> hex_lower ` {..<16}"
    by (induction n rule: show_hex.induct) (subst show_hex.simps, auto)
  then obtain i where i: "i < 16" "c = hex_lower i" using assms by auto
  have "\<forall>i \<in> set [0..<16]. hexval (hex_lower i) \<noteq> None \<and> \<not> is_ows (hex_lower i) \<and> hex_lower i \<noteq> CR \<and> hex_lower i \<noteq> LF \<and> hex_lower i \<noteq> CHR '';''"
    by code_simp
  with i show "hexval c \<noteq> None" "\<not> is_ows c" "c \<noteq> CR" "c \<noteq> LF" "c \<noteq> CHR '';''" by simp_all
qed

lemma length_show_hex: "n < 16 ^ k \<Longrightarrow> 0 < k \<Longrightarrow> length (show_hex n) \<le> k"
proof (induction n arbitrary: k rule: show_hex.induct)
  case (1 n)
  show ?case
  proof (cases "n < 16")
    case False
    then obtain j where j: "k = Suc j" "0 < j" using 1(2,3) by (cases k; cases "k - 1") auto
    then have "n div 16 < 16 ^ j" using 1(2) by (simp add: less_mult_imp_div_less mult.commute)
    with 1(1) [OF False this j(2)] j False show ?thesis by (simp add: show_hex.simps [of n])
  qed (use 1 in \<open>simp add: show_hex.simps [of n]\<close>)
qed

lemma trim_token_CR:
  assumes "\<And>c. c \<in> set s \<Longrightarrow> \<not> is_ows c \<and> c \<noteq> CR"
  shows "trim_token (s @ [CR]) = s" "trim_token s = s"
proof -
  have "\<not> is_ows CR" by code_simp
  then have "dropWhile is_ows (s @ [CR]) = s @ [CR]" "dropWhile is_ows s = s" using assms by (cases s; simp)+
  moreover have "dropWhile (\<lambda>c. is_ows c \<or> c = CR) (rev s) = rev s"
    using assms by (cases s rule: rev_cases) auto
  ultimately show "trim_token (s @ [CR]) = s" "trim_token s = s" by (simp_all add: trim_token_def)
qed

lemma chunk_size_hex:
  assumes "n < 16 ^ 15"
  shows "chunk_size (show_hex n @ [CR]) = Some n"
proof -
  have d: "\<not> is_ows c \<and> c \<noteq> CR" if "c \<in> set (show_hex n)" for c using hex_digits_props that by blast
  have tr: "trim_token (show_hex n @ [CR]) = show_hex n" "trim_token (show_hex n) = show_hex n" using trim_token_CR [OF d] by simp_all
  have tw: "takeWhile (\<lambda>c. c \<noteq> CHR '';'') (show_hex n) = show_hex n" using hex_digits_props(5) by (auto simp: takeWhile_eq_all_conv)
  have "\<not> list_ex (\<lambda>c. hexval c = None) (show_hex n)" using hex_digits_props(1) by (auto simp: list_ex_iff)
  moreover have "length (show_hex n) \<le> 15" using length_show_hex [OF assms] by simp
  ultimately show ?thesis unfolding chunk_size_def Let_def tr tw using show_hex_value [of n] by simp
qed

lemma cd_size: "n < 16 ^ 15 \<Longrightarrow> cd_feed new_decoder (show_hex n @ CRLF @ s) out =
    cd_feed \<lparr>cd_phase = (if n = 0 then Trailer else ChunkData), cd_line = [], cd_remaining = n\<rparr> s out"
proof -
  assume n: "n < 16 ^ 15"
  have "LF \<notin> set (show_hex n @ [CR])" "length (show_hex n @ [CR]) \<le> 1024"
    using hex_digits_props(4) [of LF n] length_show_hex [OF n] by auto
  then have "cd_feed new_decoder ((show_hex n @ [CR]) @ LF # s) out = cd_feed (new_decoder\<lparr>cd_line := show_hex n @ [CR]\<rparr>) (LF # s) out"
    using cd_size_line [of "show_hex n @ [CR]" new_decoder "LF # s" out] by (simp add: new_decoder_def)
  moreover have "cd_pass (new_decoder\<lparr>cd_line := show_hex n @ [CR]\<rparr>) (LF # s) out =
      (None, \<lparr>cd_phase = (if n = 0 then Trailer else ChunkData), cd_line = [], cd_remaining = n\<rparr>, s, out)"
    using chunk_size_hex [OF n] by (simp add: cd_pass_def new_decoder_def Let_def)
  ultimately show ?thesis by (simp add: cd_feed.simps [of "new_decoder\<lparr>cd_line := show_hex n @ [CR]\<rparr>"])
qed

lemma cd_format_chunk:
  assumes "chunk \<noteq> []" "length chunk < 16 ^ 15"
  shows "cd_feed new_decoder (format_chunk chunk @ s) out = cd_feed new_decoder s (out @ chunk)"
proof -
  let ?n = "length chunk"
  let ?d = "\<lparr>cd_phase = ChunkData, cd_line = [], cd_remaining = ?n\<rparr>" and ?e = "\<lparr>cd_phase = DataEnd, cd_line = [], cd_remaining = 0\<rparr>"
  have "cd_feed new_decoder (format_chunk chunk @ s) out = cd_feed ?d (chunk @ CRLF @ s) out"
    using cd_size [OF assms(2), of "chunk @ CRLF @ s" out] assms(1) by (simp add: format_chunk_def)
  also have "\<dots> = cd_feed ?e (CRLF @ s) (out @ chunk)"
    using assms(1) by (simp add: cd_feed.simps [of ?d] cd_pass_def Let_def)
  also have "\<dots> = cd_feed new_decoder s (out @ chunk)"
    by (simp add: cd_feed.simps [of ?e "CR # LF # s"] cd_feed.simps [of ?e "LF # s"] cd_pass_def Let_def new_decoder_def)
  finally show ?thesis .
qed

lemma cd_last_chunk: "cd_feed new_decoder (last_chunk @ s) out = (CdDone, \<lparr>cd_phase = Finished, cd_line = [], cd_remaining = 0\<rparr>, out)"
proof -
  let ?t = "\<lparr>cd_phase = Trailer, cd_line = [], cd_remaining = 0\<rparr>"
  have h: "show_hex 0 = ''0''" by code_simp
  have "trim_token [CR] = []" by code_simp
  then have "cd_feed ?t (CRLF @ s) out = (CdDone, \<lparr>cd_phase = Finished, cd_line = [], cd_remaining = 0\<rparr>, out)"
    by (simp add: cd_feed.simps [of ?t] cd_feed.simps [of "\<lparr>cd_phase = Trailer, cd_line = [CR], cd_remaining = 0\<rparr>"] cd_pass_def add_to_line_def Let_def)
  with cd_size [of 0 "CRLF @ s" out] h show ?thesis by (simp add: last_chunk_def)
qed

lemma cd_chunks:
  "list_all (\<lambda>c. c \<noteq> [] \<and> length c < 16 ^ 15) cs \<Longrightarrow>
     cd_feed new_decoder (concat (map format_chunk cs) @ s) out = cd_feed new_decoder s (out @ concat cs)"
  by (induction cs arbitrary: out) (simp_all add: cd_format_chunk)

fun cd_feed_all :: "ChunkedDecoder \<Rightarrow> string list \<Rightarrow> string \<Rightarrow> cd_result \<times> ChunkedDecoder \<times> string" where
  "cd_feed_all d [] out = (if cd_phase d = Finished then CdDone else CdNeedMore, d, out)"
| "cd_feed_all d (s # ss) out =
     (case cd_feed d s out of (r, d', out') \<Rightarrow> if r = CdNeedMore then cd_feed_all d' ss out' else (r, d', out'))"

lemma cd_feed_all_concat: "cd_feed_all d ss out = cd_feed d (concat ss) out"
  by (induction ss arbitrary: d out) (simp_all add: cd_feed_append cd_feed.simps [of _ "[]"] split: prod.split)


section \<open>The upstream's response\<close>

datatype BodyMode = NoBody | ContentLength | Chunked | CloseDelimited

text \<open>What the proxy tells the response writer.\<close>

datatype proxy_call = PSendHeaders int headers | PChunk string | PEnd | PSend int string | PRawStream

text \<open>The flag \<^verbatim>\<open>reading\<close> says that a read of the upstream's socket is pending, \<^verbatim>\<open>pooled\<close> that the socket went back to the pool.\<close>

record proxy =
  use_tls :: bool
  px_is_head :: bool
  headers_sent :: bool
  keep_alive :: bool
  is_websocket :: bool
  finished :: bool
  body_mode :: BodyMode
  px_content_length :: "64 word"
  body_bytes_read :: "64 word"
  chunk_decoder :: ChunkedDecoder
  response_accumulator :: string
  calls :: "proxy_call list"
  pooled :: bool
  reading :: bool

definition new_proxy :: "bool \<Rightarrow> ProxiedRequest \<Rightarrow> proxy" where
  "new_proxy tls r =
     \<lparr>use_tls = tls, px_is_head = (px_method r = ''HEAD''), headers_sent = False, keep_alive = False, is_websocket = False, finished = False,
      body_mode = CloseDelimited, px_content_length = 0, body_bytes_read = 0, chunk_decoder = new_decoder, response_accumulator = [],
      calls = [], pooled = False, reading = False\<rparr>"

definition proxy_fail :: "string \<Rightarrow> proxy \<Rightarrow> proxy" where
  "proxy_fail message p =
     (if headers_sent p then p\<lparr>calls := calls p @ [PEnd]\<rparr>
      else p\<lparr>headers_sent := True, calls := calls p @ [PSend 500 (''502 Bad Gateway: '' @ message)]\<rparr>)"

text \<open>The start of a request, with what became of the connection and of the write of the request.\<close>

datatype connect_outcome = Connected | ConnectFailed string

definition start_request :: "connect_outcome \<Rightarrow> ProxiedRequest \<Rightarrow> proxy \<Rightarrow> proxy" where
  "start_request c r p =
     (if px_method r = [] then proxy_fail ''Unsupported request method'' p
      else case c of ConnectFailed m \<Rightarrow> proxy_fail m p | Connected \<Rightarrow> p\<lparr>reading := True\<rparr>)"

definition complete :: "proxy \<Rightarrow> proxy" where
  "complete p = p\<lparr>finished := True, calls := calls p @ [PEnd], pooled := keep_alive p\<rparr>"

definition write_call :: "string \<Rightarrow> proxy \<Rightarrow> proxy" where
  "write_call s p = (if s = [] then p else p\<lparr>calls := calls p @ [PChunk s]\<rparr>)"

definition consume_body :: "string \<Rightarrow> proxy \<Rightarrow> proxy" where
  "consume_body body p =
     (if finished p then p
      else case body_mode p of
             NoBody \<Rightarrow> complete p
           | Chunked \<Rightarrow>
               (case cd_feed (chunk_decoder p) body [] of (r, d, decoded) \<Rightarrow>
                  let p' = write_call decoded (p\<lparr>chunk_decoder := d\<rparr>)
                  in if r = CdError then (proxy_fail ''Malformed chunked response from upstream'' (p'\<lparr>keep_alive := False\<rparr>))\<lparr>finished := True\<rparr>
                     else if r = CdDone then complete p' else p')
           | ContentLength \<Rightarrow>
               (let n = min (length body) (unat (px_content_length p - body_bytes_read p));
                    p' = (write_call (take n body) p)\<lparr>body_bytes_read := body_bytes_read p + of_nat n\<rparr>
                in if body_bytes_read p' \<ge> px_content_length p' then complete p' else p')
           | CloseDelimited \<Rightarrow> write_call body p)"

definition status_of :: "string \<Rightarrow> int" where
  "status_of line =
     (if length line \<ge> 12 \<and> take 5 line = ''HTTP/'' \<and> line ! 8 = CHR '' '' \<and> isdigit (line ! 9) \<and> isdigit (line ! 10) \<and> isdigit (line ! 11)
      then int (dec_value [line ! 9, line ! 10, line ! 11]) else 0)"

definition length_digits :: "string \<Rightarrow> 64 word option" where
  "length_digits v = (if v \<noteq> [] \<and> list_all isdigit v then Some (foldl (\<lambda>n c. n * 10 + of_nat (digit_val c)) 0 v) else None)"

text \<open>The fields of the head: the length, whether the body is chunked, the connection's tokens, and the fields to pass on.\<close>

record head_scan =
  sc_length :: "64 word option"
  sc_chunked :: bool
  sc_tokens :: "string list"
  sc_fields :: "(string \<times> string) list"

definition split_line :: "string \<Rightarrow> (string \<times> string) option" where
  "split_line line =
     (case split_at (CHR '':'') line of
        (k, Some v) \<Rightarrow> if k = [] then None else Some (k, trim_token v)
      | (_, None) \<Rightarrow> None)"

text \<open>The flag is false when the loop stopped at a length that is no number.\<close>

fun scan_fields :: "string list \<Rightarrow> head_scan \<Rightarrow> bool \<times> head_scan" where
  "scan_fields [] sc = (True, sc)"
| "scan_fields (line # ls) sc =
     (case split_line line of
        None \<Rightarrow> scan_fields ls sc
      | Some (k, v) \<Rightarrow>
          if to_lower k = ''content-length'' then
            (case length_digits v of
               None \<Rightarrow> (False, sc)
             | Some n \<Rightarrow> scan_fields ls (sc\<lparr>sc_length := Some n, sc_fields := sc_fields sc @ [(k, v)]\<rparr>))
          else if to_lower k = ''transfer-encoding'' then
            scan_fields ls (sc\<lparr>sc_chunked := (lower_tokens v \<noteq> [] \<and> last (lower_tokens v) = ''chunked'')\<rparr>)
          else if to_lower k = ''connection'' then scan_fields ls (sc\<lparr>sc_tokens := lower_tokens v\<rparr>)
          else scan_fields ls (sc\<lparr>sc_fields := sc_fields sc @ [(k, v)]\<rparr>))"

definition relayed_fields :: "int \<Rightarrow> head_scan \<Rightarrow> headers" where
  "relayed_fields st sc =
     fold (\<lambda>(k, v). hdr_set k v)
       (filter (\<lambda>f. let lk = to_lower (fst f)
                    in \<not> (lk \<in> {''keep-alive'', ''proxy-connection'', ''te'', ''trailer''} \<or> lk \<in> set (sc_tokens sc)) \<and>
                       (lk = ''upgrade'' \<longrightarrow> st = 101)) (sc_fields sc)) []"

function head_lines :: "string \<Rightarrow> string list" where
  "head_lines s =
     (case find_sub CRLF s of None \<Rightarrow> [s] | Some i \<Rightarrow> take i s # (if drop (i + 2) s = [] then [] else head_lines (drop (i + 2) s)))"
  by pat_completeness auto
termination
  by (relation "measure length") (auto dest: find_sub_Some)

declare head_lines.simps [simp del]

definition choose_mode :: "int \<Rightarrow> head_scan \<Rightarrow> bool \<Rightarrow> BodyMode" where
  "choose_mode st sc is_head =
     (if is_head \<or> st = 204 \<or> st = 304 \<or> 100 \<le> st \<and> st < 200 then NoBody
      else if sc_chunked sc then Chunked else if sc_length sc \<noteq> None then ContentLength else CloseDelimited)"

definition hdr_erase :: "string \<Rightarrow> headers \<Rightarrow> headers" where
  "hdr_erase k hs = filter (\<lambda>h. \<not> iequals (fst h) k) hs"

definition new_scan :: head_scan where
  "new_scan = \<lparr>sc_length = None, sc_chunked = False, sc_tokens = [], sc_fields = []\<rparr>"

text \<open>The flag says whether the response goes on.\<close>

definition parse_and_send_headers :: "string \<Rightarrow> proxy \<Rightarrow> bool \<times> proxy" where
  "parse_and_send_headers head p0 =
     (let status_line = hd (head_lines head); st = status_of status_line; is_11 = (take 3 (drop 5 status_line) = ''1.1'')
      in if st < 100 then (False, proxy_fail ''Malformed status line from upstream'' p0)
         else case scan_fields (tl (head_lines head)) new_scan of (ok, sc) \<Rightarrow>
                let p1 = p0\<lparr>keep_alive := is_11, px_content_length := (case sc_length sc of Some n \<Rightarrow> n | None \<Rightarrow> px_content_length p0)\<rparr>
                in if \<not> ok then (False, proxy_fail ''Invalid Content-Length from upstream'' p1)
                   else let fields = relayed_fields st sc; mode = choose_mode st sc (px_is_head p1); alive = (is_11 \<and> ''close'' \<notin> set (sc_tokens sc))
                        in if st = 101
                           then (True, p1\<lparr>is_websocket := True, keep_alive := False, headers_sent := True,
                                         calls := calls p1 @ [PSendHeaders st fields, PRawStream]\<rparr>)
                           else let p2 = p1\<lparr>body_mode := mode, keep_alive := (alive \<and> mode \<noteq> CloseDelimited), headers_sent := True,
                                         calls := calls p1 @ [PSendHeaders st (if mode = Chunked then hdr_erase ''Content-Length'' fields else fields)]\<rparr>
                                in (True, if mode = ContentLength \<and> px_content_length p2 = 0 then complete p2 else p2))"

text \<open>On a plain connection \<^verbatim>\<open>process_cleartext\<close> asks for the next read itself.\<close>

definition read_more :: "proxy \<Rightarrow> proxy" where
  "read_more p = (if use_tls p then p else p\<lparr>reading := True\<rparr>)"

definition relay_body :: "string \<Rightarrow> proxy \<Rightarrow> proxy" where
  "relay_body body p = (let q = consume_body body p in if finished q then q else read_more q)"

definition process_cleartext :: "string \<Rightarrow> proxy \<Rightarrow> proxy" where
  "process_cleartext data p =
     (if is_websocket p then read_more (p\<lparr>calls := calls p @ [PChunk data]\<rparr>)
      else if headers_sent p then relay_body data p
      else let acc = response_accumulator p @ data; p1 = p\<lparr>response_accumulator := acc\<rparr>
           in case find_sub (CRLF @ CRLF) acc of
                None \<Rightarrow> if length acc > 64 * 1024 then proxy_fail ''Upstream response headers too large'' p1 else read_more p1
              | Some i \<Rightarrow>
                  (case parse_and_send_headers (take i acc) p1 of (goes_on, p2) \<Rightarrow>
                     if \<not> goes_on then p2
                     else let p3 = p2\<lparr>response_accumulator := []\<rparr>
                          in if is_websocket p3 then read_more (write_call (drop (i + 4) acc) p3)
                             else relay_body (drop (i + 4) acc) p3))"

fun process_tls_read :: "string list \<Rightarrow> proxy \<Rightarrow> proxy" where
  "process_tls_read [] p = p\<lparr>reading := True\<rparr>"
| "process_tls_read (s # ss) p = (let p' = process_cleartext s p in if finished p' then p' else process_tls_read ss p')"

text \<open>What a completed read brings: pieces of cleartext (on a plain connection one, over TLS as many as can be decrypted), or the end.\<close>

datatype upstream_event = Received "string list" | Closed

definition on_read :: "upstream_event \<Rightarrow> proxy \<Rightarrow> proxy" where
  "on_read ev p =
     (if \<not> reading p then p
      else let p = p\<lparr>reading := False\<rparr>
           in if finished p then p
              else case ev of
                     Received ss \<Rightarrow> if use_tls p then process_tls_read ss p else process_cleartext (concat ss) p
                   | Closed \<Rightarrow>
                       if is_websocket p then p
                       else if \<not> headers_sent p then proxy_fail ''Upstream closed the connection before sending a response'' p
                       else p\<lparr>finished := True, calls := calls p @ [PEnd]\<rparr>)"


section \<open>The load balancer\<close>

record Upstream =
  up_host :: string
  up_port :: int
  up_tls :: bool

definition load_balancer_node :: "Upstream \<Rightarrow> Upstream" where
  "load_balancer_node n = n\<lparr>up_tls := (up_tls n \<or> up_port n = 443)\<rparr>"

definition new_load_balancer :: "Upstream list \<Rightarrow> Upstream list option" where
  "new_load_balancer nodes = (if nodes = [] then None else Some (map load_balancer_node nodes))"

text \<open>The atomic counter of the balancer, and the upstream of the next request.\<close>

definition next_node :: "Upstream list \<Rightarrow> 64 word \<Rightarrow> Upstream \<times> 64 word" where
  "next_node upstreams current_node = (upstreams ! (unat current_node mod length upstreams), current_node + 1)"


section \<open>The relay does not depend on how the response was cut\<close>

fun merged :: "proxy_call list \<Rightarrow> proxy_call list" where
  "merged (PChunk a # PChunk b # cs) = merged (PChunk (a @ b) # cs)"
| "merged (c # cs) = c # merged cs"
| "merged [] = []"

lemma merged_two: "merged (c # PChunk a # PChunk b # ds) = merged (c # PChunk (a @ b) # ds)"
  by (cases c) simp_all

lemma merged_chunks: "merged (cs @ PChunk a # PChunk b # ds) = merged (cs @ PChunk (a @ b) # ds)"
  by (induction cs rule: merged.induct) (simp_all add: merged_two)

lemma cd_pass_out: "cd_pass d data out = (case cd_pass d data [] of (r, d', data', x) \<Rightarrow> (r, d', data', out @ x))"
  by (cases "cd_phase d") (simp_all add: cd_pass_def add_to_line_def Let_def split: option.split)

lemma cd_feed_out: "cd_feed d data (out @ x) = (case cd_feed d data x of (r, d', y) \<Rightarrow> (r, d', out @ y))"
proof (induction d data x rule: cd_feed.induct)
  case (1 d data x)
  obtain r d' data' y where p: "cd_pass d data x = (r, d', data', y)" by (metis prod_cases4)
  then have q: "cd_pass d data (out @ x) = (r, d', data', out @ y)"
    using cd_pass_out [of d data "out @ x"] cd_pass_out [of d data x] by (auto split: prod.splits)
  show ?case
    using 1 p q by (cases r) (auto simp: cd_feed.simps [of d data])
qed

lemma cd_feed_more:
  assumes "cd_feed d a [] = (CdNeedMore, d', x)" "cd_feed d' b [] = (r, e, y)"
  shows "cd_feed d (a @ b) [] = (r, e, x @ y)"
  using assms cd_feed_append [of d a b "[]"] cd_feed_out [of d' b x "[]"] by simp

definition settled :: "proxy \<Rightarrow> proxy" where
  "settled p = p\<lparr>calls := merged (calls p), response_accumulator := []\<rparr>"

text \<open>The response's head has been passed on, and its body is being read.\<close>

definition relaying :: "proxy \<Rightarrow> bool" where
  "relaying p \<longleftrightarrow>
     headers_sent p \<and> \<not> is_websocket p \<and> \<not> use_tls p \<and>
     (body_mode p = ContentLength \<and> \<not> finished p \<longrightarrow> body_bytes_read p < px_content_length p)"

lemma write_call_sel [simp]:
  "headers_sent (write_call s p) = headers_sent p" "is_websocket (write_call s p) = is_websocket p" "use_tls (write_call s p) = use_tls p"
  "finished (write_call s p) = finished p" "body_mode (write_call s p) = body_mode p" "keep_alive (write_call s p) = keep_alive p"
  "px_content_length (write_call s p) = px_content_length p" "body_bytes_read (write_call s p) = body_bytes_read p"
  "chunk_decoder (write_call s p) = chunk_decoder p" "response_accumulator (write_call s p) = response_accumulator p"
  "px_is_head (write_call s p) = px_is_head p" "pooled (write_call s p) = pooled p" "reading (write_call s p) = reading p"
  by (simp_all add: write_call_def)

lemma relaying_consume: "relaying p \<Longrightarrow> relaying (consume_body s p)"
  by (auto simp: relaying_def consume_body_def complete_def proxy_fail_def Let_def split: BodyMode.split prod.split)

lemma merged_writes [simp]:
  "merged (calls (write_call b (write_call a p)) @ ds) = merged (calls (write_call (a @ b) p) @ ds)"
  "merged (calls (write_call b (write_call a p))) = merged (calls (write_call (a @ b) p))"
  using merged_chunks [of "calls p" a b ds] merged_chunks [of "calls p" a b "[]"] by (simp_all add: write_call_def)

lemma write_call_update [simp]:
  "calls (write_call s (p\<lparr>chunk_decoder := d\<rparr>)) = calls (write_call s p)"
  "calls (write_call s (p\<lparr>body_bytes_read := n\<rparr>)) = calls (write_call s p)"
  "calls (write_call s ((write_call t p)\<lparr>body_bytes_read := n\<rparr>)) = calls (write_call s (write_call t p))"
  by (simp_all add: write_call_def)

text \<open>The body in two pieces, or in one.\<close>

lemma consume_chunked_finished:
  assumes "body_mode p = Chunked" "\<not> finished p" "finished (consume_body a p)"
  shows "consume_body (a @ b) p = consume_body a p"
proof -
  obtain r d x where "cd_feed (chunk_decoder p) a [] = (r, d, x)" by (metis prod_cases3)
  moreover from this have "r \<noteq> CdNeedMore" using assms by (auto simp: consume_body_def Let_def)
  ultimately show ?thesis using assms cd_feed_append [of "chunk_decoder p" a b "[]"] by (simp add: consume_body_def)
qed

lemma consume_chunked_more:
  assumes "body_mode p = Chunked" "\<not> finished p" "headers_sent p" "\<not> finished (consume_body a p)"
  shows "settled (consume_body b (consume_body a p)) = settled (consume_body (a @ b) p)"
proof -
  obtain r d x where a: "cd_feed (chunk_decoder p) a [] = (r, d, x)" by (metis prod_cases3)
  have r: "r = CdNeedMore" using a assms by (cases r) (auto simp: consume_body_def Let_def complete_def)
  obtain q e y where b: "cd_feed d b [] = (q, e, y)" by (metis prod_cases3)
  have ab: "cd_feed (chunk_decoder p) (a @ b) [] = (q, e, x @ y)" using cd_feed_more a r b by blast
  have 1: "consume_body a p = write_call x (p\<lparr>chunk_decoder := d\<rparr>)" using a r assms by (simp add: consume_body_def)
  have c: "calls (write_call y ((write_call x (p\<lparr>chunk_decoder := d\<rparr>))\<lparr>chunk_decoder := e\<rparr>)) = calls (write_call y (write_call x p))"
    by (simp add: write_call_def)
  show ?thesis
    unfolding 1 using assms(1-3) b ab c
    by (cases q) (auto simp: consume_body_def settled_def complete_def proxy_fail_def Let_def intro!: proxy.equality)
qed

lemma consume_length:
  assumes "body_mode p = ContentLength" "\<not> finished p"
  shows "consume_body a p =
    (let n = min (length a) (unat (px_content_length p - body_bytes_read p));
         p' = (write_call (take n a) p)\<lparr>body_bytes_read := body_bytes_read p + of_nat n\<rparr>
     in if body_bytes_read p + of_nat n \<ge> px_content_length p then complete p' else p')"
  using assms by (simp add: consume_body_def Let_def)

lemma word_fill:
  fixes r l :: "64 word"
  assumes "r < l"
  shows "r + of_nat (min k (unat (l - r))) \<ge> l \<longleftrightarrow> unat (l - r) \<le> k"
    "k < unat (l - r) \<Longrightarrow> unat (l - (r + of_nat k)) = unat (l - r) - k"
    "k < unat (l - r) \<Longrightarrow> r + of_nat k < l"
proof -
  have d: "unat (l - r) = unat l - unat r" and lt: "unat r < unat l" using assms by (simp_all add: unat_sub less_imp_le word_less_nat_alt)
  have u: "unat (r + of_nat m) = unat r + m" if "m \<le> unat l - unat r" for m
  proof -
    have "unat r + m < 2 ^ 64" using that lt unsigned_less [of l, where ?'a = nat] by simp
    then show ?thesis by (simp add: unat_word_ariths unat_of_nat take_bit_nat_eq_self_iff)
  qed
  show "r + of_nat (min k (unat (l - r))) \<ge> l \<longleftrightarrow> unat (l - r) \<le> k"
    using u [of "min k (unat (l - r))"] d lt by (auto simp: word_le_nat_alt)
  show less: "r + of_nat k < l" if "k < unat (l - r)" using u [of k] that d lt by (simp add: word_less_nat_alt)
  show "unat (l - (r + of_nat k)) = unat (l - r) - k" if "k < unat (l - r)"
    using less [OF that] u [of k] that d by (simp add: unat_sub less_imp_le)
qed

lemma consume_length_finished:
  assumes "body_mode p = ContentLength" "relaying p" "\<not> finished p" "finished (consume_body a p)"
  shows "consume_body (a @ b) p = consume_body a p"
proof -
  have lt: "body_bytes_read p < px_content_length p" using assms by (simp add: relaying_def)
  have "unat (px_content_length p - body_bytes_read p) \<le> length a"
    using assms(4) word_fill(1) [OF lt, of "length a"] assms(3) by (auto simp: consume_length [OF assms(1,3)] Let_def split: if_splits)
  then show ?thesis by (simp add: consume_length [OF assms(1,3)] min_def)
qed

lemma consume_length_more:
  assumes "body_mode p = ContentLength" "relaying p" "\<not> finished p" "\<not> finished (consume_body a p)"
  shows "settled (consume_body b (consume_body a p)) = settled (consume_body (a @ b) p)"
proof -
  let ?l = "px_content_length p" and ?r = "body_bytes_read p"
  have lt: "?r < ?l" using assms by (simp add: relaying_def)
  have short: "length a < unat (?l - ?r)"
    using assms(4) word_fill(1) [OF lt, of "length a"] by (auto simp: consume_length [OF assms(1,3)] Let_def complete_def split: if_splits)
  let ?p = "(write_call a p)\<lparr>body_bytes_read := ?r + of_nat (length a)\<rparr>"
  have p: "consume_body a p = ?p"
    using short word_fill(1) [OF lt, of "length a"] by (auto simp: consume_length [OF assms(1,3)] Let_def min_def)
  have m: "min (length (a @ b)) (unat (?l - ?r)) = length a + min (length b) (unat (?l - (?r + of_nat (length a))))"
    using word_fill(2) [OF lt short] short by simp
  have f: "\<not> finished ?p" "body_mode ?p = ContentLength" using assms(1,3) by simp_all
  let ?n = "min (length b) (unat (?l - (?r + of_nat (length a))))"
  have t: "take (length a + ?n) (a @ b) = a @ take ?n b" by simp
  have "consume_body (a @ b) p =
      (let p' = (write_call (a @ take ?n b) p)\<lparr>body_bytes_read := ?r + of_nat (length a) + of_nat ?n\<rparr>
       in if ?r + of_nat (length a) + of_nat ?n \<ge> ?l then complete p' else p')"
    unfolding consume_length [OF assms(1,3)] Let_def m t by (simp add: add.assoc)
  moreover have "consume_body b ?p =
      (let p' = (write_call (take ?n b) ?p)\<lparr>body_bytes_read := ?r + of_nat (length a) + of_nat ?n\<rparr>
       in if ?r + of_nat (length a) + of_nat ?n \<ge> ?l then complete p' else p')"
    unfolding consume_length [OF f(2,1)] Let_def by simp
  ultimately show ?thesis
    unfolding p Let_def by (simp add: settled_def complete_def proxy.equality)
qed

lemma consume_body_append:
  assumes "relaying p" "\<not> finished p"
  shows "finished (consume_body a p) \<Longrightarrow> consume_body (a @ b) p = consume_body a p"
    "\<not> finished (consume_body a p) \<Longrightarrow> settled (consume_body b (consume_body a p)) = settled (consume_body (a @ b) p)"
proof -
  assume "finished (consume_body a p)"
  then show "consume_body (a @ b) p = consume_body a p"
    using assms consume_chunked_finished [of p a b] consume_length_finished [of p a b]
    by (cases "body_mode p") (simp_all, simp_all add: consume_body_def)
next
  assume f: "\<not> finished (consume_body a p)"
  show "settled (consume_body b (consume_body a p)) = settled (consume_body (a @ b) p)"
  proof (cases "body_mode p")
    case NoBody
    with f assms(2) show ?thesis by (simp add: consume_body_def complete_def)
  next
    case CloseDelimited
    with assms(2) show ?thesis by (simp add: consume_body_def settled_def proxy.equality)
  qed (use f assms consume_chunked_more [of p a b] consume_length_more [of p a b] in \<open>simp_all add: relaying_def\<close>)
qed

text \<open>All pieces that arrive, on a plain connection.\<close>

definition arrive :: "string list \<Rightarrow> proxy \<Rightarrow> proxy" where
  "arrive ss p = fold (\<lambda>s. on_read (Received [s])) ss p"



lemma arrive_simps [simp]: "arrive [] p = p" "arrive (s # ss) p = arrive ss (on_read (Received [s]) p)"
  by (simp_all add: arrive_def)

lemma arrive_stopped [simp]: "\<not> reading p \<Longrightarrow> arrive ss p = p"
  by (induction ss) (simp_all add: on_read_def)

lemma consume_body_sel [simp]: "use_tls (consume_body s p) = use_tls p" "reading (consume_body s p) = reading p" 
  by (auto simp: consume_body_def complete_def proxy_fail_def Let_def split: BodyMode.split prod.split)

lemma settled_relay:
  "settled (relay_body a p) = (let q = settled (consume_body a p) in if finished q \<or> use_tls q then q else q\<lparr>reading := True\<rparr>)"
  by (simp add: relay_body_def read_more_def settled_def Let_def)

lemma settled_relay_cong: "settled (consume_body a p) = settled (consume_body b q) \<Longrightarrow> settled (relay_body a p) = settled (relay_body b q)"
  by (simp add: settled_relay)

lemma reading_off [simp]: "\<not> reading p \<Longrightarrow> p\<lparr>reading := False\<rparr> = p"
  by (cases p) simp

lemma arrive_body:
  assumes "relaying p" "\<not> finished p" "\<not> reading p" "ss \<noteq> []"
  shows "settled (arrive ss (read_more p)) = settled (relay_body (concat ss) p)"
  using assms
proof (induction ss arbitrary: p)
  case (Cons s ss)
  let ?q = "consume_body s p"
  have r: "on_read (Received [s]) (read_more p) = relay_body s p"
    using Cons.prems by (simp add: on_read_def read_more_def process_cleartext_def relaying_def)
  show ?case
  proof (cases "finished ?q")
    case True
    with r consume_body_append(1) [OF Cons.prems(1,2) True] Cons.prems(3) show ?thesis by (simp add: relay_body_def)
  next
    case False
    then have q: "relay_body s p = read_more ?q" by (simp add: relay_body_def)
    show ?thesis
    proof (cases "ss = []")
      case False
      then show ?thesis
        using Cons.IH [of ?q] relaying_consume [OF Cons.prems(1)] \<open>\<not> finished ?q\<close> Cons.prems(3) r q
          settled_relay_cong [OF consume_body_append(2) [OF Cons.prems(1,2) \<open>\<not> finished ?q\<close>, of "concat ss"]] by simp
    qed (use r q in simp)
  qed
qed simp

lemma arrive_websocket:
  assumes "is_websocket p" "\<not> finished p" "reading p" "\<not> use_tls p" "[] \<notin> set ss"
  shows "settled (arrive ss p) = settled (write_call (concat ss) p)"
  using assms
proof (induction ss arbitrary: p)
  case Nil
  then show ?case by (simp add: write_call_def)
next
  case (Cons s ss)
  have "on_read (Received [s]) p = write_call s p"
    using Cons.prems by (auto simp: on_read_def process_cleartext_def read_more_def write_call_def intro!: proxy.equality)
  with Cons show ?case by (simp add: settled_def proxy.equality)
qed

lemma find_sub_more:
  assumes "find_sub n x = Some i"
  shows "find_sub n (x @ y) = Some i"
proof (rule find_sub_eqI)
  note i = find_sub_Some [OF assms]
  have in_x: "prefix n (drop j x)" if "prefix n (drop j (x @ y))" "j \<le> i" for j
    using that i by (intro prefix_length_prefix [OF that(1)]) auto
  show "prefix n (drop i (x @ y))" using i by (simp add: prefix_def) (metis append_assoc append_take_drop_id)
  show "i \<le> length (x @ y)" using i by simp
  show "\<not> prefix n (drop j (x @ y))" if "j < i" for j using in_x [of j] that find_sub_first [OF assms that] by auto
qed

lemma find_sub_cut:
  assumes "find_sub n (x @ y) = Some i"
  shows "find_sub n x = None \<Longrightarrow> length x < i + length n" "find_sub n x = Some j \<Longrightarrow> j = i"
proof -
  have here: "prefix n (drop i x)" if "i + length n \<le> length x"
    using find_sub_Some [OF assms] that by (simp add: prefix_def) (metis append_take_drop_id)
  show "length x < i + length n" if "find_sub n x = None" using here that unfolding find_sub_None by (metis add_leD1 not_le)
  show "j = i" if "find_sub n x = Some j" using find_sub_more [OF that, of y] assms by simp
qed

lemma parse_accumulator:
  "parse_and_send_headers h (p\<lparr>response_accumulator := x\<rparr>) =
     (case parse_and_send_headers h p of (g, q) \<Rightarrow> (g, q\<lparr>response_accumulator := x\<rparr>))"
proof -
  obtain ok sc where sc: "scan_fields (tl (head_lines h)) new_scan = (ok, sc)" by fastforce
  let ?st = "status_of (hd (head_lines h))"
  consider "?st < 100" | "\<not> ?st < 100" "\<not> ok" | "ok" "?st = 101" | "\<not> ?st < 100" "ok" "?st \<noteq> 101" by blast
  then show ?thesis
  proof cases
    case 4
    then show ?thesis
      by (cases "choose_mode ?st sc (px_is_head p)"; cases "sc_length sc") (simp_all add: parse_and_send_headers_def sc complete_def Let_def)
  qed (cases "sc_length sc"; simp add: parse_and_send_headers_def sc proxy_fail_def Let_def)+
qed

text \<open>Before the head is complete.\<close>

definition awaiting_head :: "proxy \<Rightarrow> bool" where
  "awaiting_head p \<longleftrightarrow>
     reading p \<and> \<not> headers_sent p \<and> \<not> is_websocket p \<and> \<not> finished p \<and> \<not> use_tls p \<and> body_bytes_read p = 0 \<and>
     find_sub (CRLF @ CRLF) (response_accumulator p) = None"

lemma parse_sel:
  assumes "parse_and_send_headers h p = (g, q)"
  shows "use_tls q = use_tls p" "reading q = reading p" "headers_sent q" "is_websocket q \<Longrightarrow> \<not> is_websocket p \<Longrightarrow> finished q = finished p"
    "body_bytes_read q = body_bytes_read p"
    "body_mode q = ContentLength \<Longrightarrow> g \<Longrightarrow> \<not> is_websocket q \<Longrightarrow> \<not> finished q \<Longrightarrow> px_content_length q \<noteq> 0"
  using assms
  by (auto simp: parse_and_send_headers_def proxy_fail_def complete_def Let_def split: if_splits prod.splits)

lemma on_read_head:
  assumes "awaiting_head p" "find_sub (CRLF @ CRLF) (response_accumulator p @ s) = Some i"
    "parse_and_send_headers (take i (response_accumulator p @ s)) (p\<lparr>reading := False\<rparr>) = (g, q)"
  shows "on_read (Received [s]) p =
    (if \<not> g then q\<lparr>response_accumulator := response_accumulator p @ s\<rparr>
     else if is_websocket q then read_more (write_call (drop (i + 4) (response_accumulator p @ s)) (q\<lparr>response_accumulator := []\<rparr>))
     else relay_body (drop (i + 4) (response_accumulator p @ s)) (q\<lparr>response_accumulator := []\<rparr>))"
  using assms
  by (simp add: on_read_def awaiting_head_def process_cleartext_def parse_accumulator Let_def)

lemma on_read_wait:
  assumes "awaiting_head p" "find_sub (CRLF @ CRLF) (response_accumulator p @ s) = None" "length (response_accumulator p @ s) \<le> 64 * 1024"
  shows "on_read (Received [s]) p = p\<lparr>response_accumulator := response_accumulator p @ s\<rparr>"
  using assms
  by (auto simp: on_read_def awaiting_head_def process_cleartext_def read_more_def Let_def intro!: proxy.equality)

text \<open>Once the head is there: the rest of the pieces.\<close>

lemma arrive_rest:
  assumes "parse_and_send_headers h p = (True, q)" "\<not> reading p" "\<not> is_websocket p" "\<not> finished p" "\<not> use_tls p" "body_bytes_read p = 0"
    "[] \<notin> set ss"
  shows "\<not> is_websocket q \<Longrightarrow> settled (arrive ss (relay_body b (q\<lparr>response_accumulator := []\<rparr>))) =
      settled (relay_body (b @ concat ss) (q\<lparr>response_accumulator := []\<rparr>))"
    "is_websocket q \<Longrightarrow> settled (arrive ss (read_more (write_call b (q\<lparr>response_accumulator := []\<rparr>)))) =
      settled (read_more (write_call (b @ concat ss) (q\<lparr>response_accumulator := []\<rparr>)))"
proof -
  note q = parse_sel [OF assms(1)]
  let ?q = "q\<lparr>response_accumulator := []\<rparr>"
  assume w: "\<not> is_websocket q"
  have rel: "relaying ?q" using w assms(2-6) q by (auto simp: relaying_def word_gt_0)
  let ?c = "consume_body b ?q"
  consider "finished q" | "\<not> finished q" "finished ?c" | "\<not> finished ?c" "ss = []" | "\<not> finished q" "\<not> finished ?c" "ss \<noteq> []"
    by (metis consume_body_def proxy.select_convs(6) proxy.surjective proxy.update_convs(11))
  then show "settled (arrive ss (relay_body b ?q)) = settled (relay_body (b @ concat ss) ?q)"
  proof cases
    case 1
    then show ?thesis using q assms(2) by (simp add: relay_body_def consume_body_def)
  next
    case 2
    then show ?thesis using consume_body_append(1) [OF rel _ 2(2), of "concat ss"] q assms(2) by (simp add: relay_body_def)
  next
    case 4
    have "settled (arrive ss (read_more ?c)) = settled (relay_body (concat ss) ?c)"
      using arrive_body [of ?c ss] relaying_consume [OF rel] 4 q assms(2) by simp
    also have "\<dots> = settled (relay_body (b @ concat ss) ?q)"
      using settled_relay_cong [OF consume_body_append(2) [OF rel _ 4(2)]] 4(1) by simp
    finally show ?thesis using 4(2) by (simp add: relay_body_def)
  qed simp
next
  note q = parse_sel [OF assms(1)]
  let ?q = "q\<lparr>response_accumulator := []\<rparr>"
  assume w: "is_websocket q"
  have "settled (arrive ss (read_more (write_call b ?q))) = settled (write_call (concat ss) (read_more (write_call b ?q)))"
    by (rule arrive_websocket) (use w q assms in \<open>simp_all add: read_more_def\<close>)
  also have "write_call (concat ss) (read_more (write_call b ?q)) = read_more (write_call (concat ss) (write_call b ?q))"
    by (simp add: read_more_def write_call_def)
  also have "settled (read_more (write_call (concat ss) (write_call b ?q))) = settled (read_more (write_call (b @ concat ss) ?q))"
    by (simp add: settled_def read_more_def proxy.equality)
  finally show "settled (arrive ss (read_more (write_call b ?q))) = settled (read_more (write_call (b @ concat ss) ?q))" .
qed

lemma arrive_head:
  assumes "awaiting_head p" "find_sub (CRLF @ CRLF) (response_accumulator p @ concat ss) = Some i" "i + 3 \<le> 64 * 1024" "[] \<notin> set ss"
  shows "settled (arrive ss p) = settled (on_read (Received [concat ss]) p)"
  using assms
proof (induction ss arbitrary: p)
  case Nil
  then show ?case by (simp add: awaiting_head_def)
next
  case (Cons s ss)
  let ?acc = "response_accumulator p @ s"
  have found: "find_sub (CRLF @ CRLF) (?acc @ concat ss) = Some i" using Cons.prems(2) by simp
  show ?case
  proof (cases "find_sub (CRLF @ CRLF) ?acc")
    case None
    then have "length ?acc \<le> 64 * 1024" using find_sub_cut(1) [OF found None] Cons.prems(3) by simp
    with None have r: "on_read (Received [s]) p = p\<lparr>response_accumulator := ?acc\<rparr>" (is "_ = ?p") using on_read_wait Cons.prems(1) by blast
    have p: "awaiting_head ?p" using Cons.prems(1) None by (simp add: awaiting_head_def)
    have "on_read (Received [concat ss]) ?p = on_read (Received [concat (s # ss)]) p"
      using Cons.prems(1) by (simp add: on_read_def process_cleartext_def awaiting_head_def Let_def)
    with Cons.IH [OF p] found Cons.prems(3,4) r show ?thesis by simp
  next
    case (Some j)
    with find_sub_cut(2) [OF found Some] have here: "find_sub (CRLF @ CRLF) ?acc = Some i" by simp
    have len: "i + 4 \<le> length ?acc" using find_sub_Some [OF here] by simp
    let ?p = "p\<lparr>reading := False\<rparr>"
    obtain g q where gq: "parse_and_send_headers (take i ?acc) ?p = (g, q)" by fastforce
    have gq': "parse_and_send_headers (take i (?acc @ concat ss)) ?p = (g, q)" using gq len by simp
    note one = on_read_head [OF Cons.prems(1) here gq] and whole = on_read_head [OF Cons.prems(1), of "concat (s # ss)" i g q]
    have d: "drop (i + 4) (?acc @ concat ss) = drop (i + 4) ?acc @ concat ss" using len by simp
    note rest = arrive_rest [of "take i ?acc" ?p q ss "drop (i + 4) ?acc"]
    have ws: "[] \<notin> set ss" using Cons.prems(4) by simp
    show ?thesis
    proof (cases g)
      case False
      then show ?thesis using one whole found gq' parse_sel(2) [OF gq] by (simp add: settled_def)
    next
      case True
      then show ?thesis using one whole found gq gq' d rest ws Cons.prems(1) by (simp add: awaiting_head_def)
    qed
  qed
qed

section \<open>What the proxy guarantees\<close>

definition clean :: "string \<Rightarrow> bool" where
  "clean s \<longleftrightarrow> CR \<notin> set s \<and> LF \<notin> set s"

definition clean_request :: "ProxiedRequest \<Rightarrow> bool" where
  "clean_request r \<longleftrightarrow>
     clean (px_method r) \<and> clean (px_target r) \<and> clean (px_client_ip r) \<and> list_all (\<lambda>h. clean (fst h) \<and> clean (snd h)) (px_headers r)"

lemma clean_append [simp]: "clean (s @ t) \<longleftrightarrow> clean s \<and> clean t"
  by (auto simp: clean_def)

lemma clean_simps [simp]: "clean []" "clean (c # s) \<longleftrightarrow> c \<noteq> CR \<and> c \<noteq> LF \<and> clean s"
  by (auto simp: clean_def)

lemma clean_prior: "list_all (\<lambda>h. clean (fst h) \<and> clean (snd h)) hs \<Longrightarrow> clean (prior_value name hs)"
  using last_in_set [of "filter (\<lambda>h. to_lower (fst h) = name) hs"] by (auto simp: prior_value_def Let_def list_all_iff)

lemma clean_target: "clean t \<Longrightarrow> clean (upstream_target sp t)"
  by (auto simp: upstream_target_def clean_def Let_def dest: in_set_dropD)

lemma clean_show: "clean (show_nat n)" "clean (show_int i)"
  by (simp_all add: clean_def show_nat_plain show_int_plain)

lemma clean_fields:
  assumes "clean_request r" "clean host" "f \<in> set (upstream_fields host port trust r)"
  shows "clean (field_text f)"
proof -
  have h: "clean (prior_value name (px_headers r))" for name using assms(1) clean_prior by (simp add: clean_request_def)
  have k: "clean (fst f) \<and> clean (snd f)" if "f \<in> set (kept_headers (px_headers r))"
    using assms(1) that by (auto simp: kept_headers_def clean_request_def list_all_iff)
  have ip: "clean (px_client_ip r)" using assms(1) by (simp add: clean_request_def)
  have "list_all (\<lambda>g. clean (fst g) \<and> clean (snd g)) (forwarding_fields trust r)"
    by (simp add: forwarding_fields_def Let_def h ip)
  then have fw: "clean (fst f) \<and> clean (snd f)" if "f \<in> set (forwarding_fields trust r)" using that by (simp add: list_all_iff)
  let ?own = "[(''Host'', host @ '':'' @ show_int port), (''Content-Length'', show_nat (length (px_body r))),
      (''Upgrade'', prior_value ''upgrade'' (px_headers r)), (''Connection'', ''Upgrade''), (''Connection'', ''keep-alive'')]"
  have own: "list_all (\<lambda>g. clean (fst g) \<and> clean (snd g)) ?own" using h assms(2) clean_show by simp
  have "set (upstream_fields host port trust r) \<subseteq> set ?own \<union> set (kept_headers (px_headers r)) \<union> set (forwarding_fields trust r)"
    unfolding upstream_fields_def by simp blast
  with assms(3) have "f \<in> set ?own \<or> f \<in> set (kept_headers (px_headers r)) \<or> f \<in> set (forwarding_fields trust r)" by blast
  then have "clean (fst f) \<and> clean (snd f)" using k fw own [unfolded list_all_iff] by blast
  then show ?thesis by (simp add: field_text_def)
qed

lemma lower_names [simp]:
  "to_lower ''Host'' = ''host''" "to_lower ''X-Forwarded-For'' = ''x-forwarded-for''" "to_lower ''X-Real-IP'' = ''x-real-ip''"
  "to_lower ''X-Forwarded-Host'' = ''x-forwarded-host''" "to_lower ''Content-Length'' = ''content-length''" "to_lower ''Upgrade'' = ''upgrade''"
  "to_lower ''Connection'' = ''connection''"
  by code_simp+

text \<open>
  The names of the fields that say whom a request is forwarded for, and the value of a field as the last line of that name gives it,
  empty when there is none.
\<close>

definition forwarding_names :: "string list" where
  "forwarding_names = [''x-forwarded-for'', ''x-forwarded-host'', ''x-forwarded-proto'', ''x-real-ip'', ''forwarded'']"

fun last_field :: "string \<Rightarrow> (string \<times> string) list \<Rightarrow> string" where
  "last_field name [] = []"
| "last_field name ((n, v) # hs) =
     (if to_lower n = name \<and> \<not> list_ex (\<lambda>f. to_lower (fst f) = name) hs then v else last_field name hs)"

lemma kept_names:
  "filter (\<lambda>f. to_lower (fst f) \<in> {''content-length'', ''transfer-encoding''}) (kept_headers hs) = []"
  "filter (\<lambda>f. to_lower (fst f) \<in> set forwarding_names) (kept_headers hs) = []"
  "filter (\<lambda>f. to_lower (fst f) = ''host'') (kept_headers hs) = []"
  by (auto simp: kept_headers_def is_hop_by_hop_def hop_by_hop_names_def is_forwarding_header_def forwarding_names_def
      filter_empty_conv Let_def)

lemma prior_value_last: "prior_value name hs = last_field name hs"
proof (induction hs)
  case (Cons h hs)
  obtain n v where h: "h = (n, v)" by fastforce
  have "filter (\<lambda>h. to_lower (fst h) = name) hs = [] \<longleftrightarrow> \<not> list_ex (\<lambda>f. to_lower (fst f) = name) hs"
    by (auto simp: filter_empty_conv list_ex_iff)
  then show ?case using Cons h by (auto simp: prior_value_def Let_def)
qed (simp add: prior_value_def)

text \<open>
  C9: The upstream server reads exactly one request: if no name or value of the client's request holds a line break, then the bytes the
  proxy sends upstream consist of its request line, its fields and the client's body; the only field that frames the body is the
  length of that body, when there is one (so no Content-Length or Transfer-Encoding of the client's gets through); there is one Host, the
  upstream's; and unless the client is trusted, the only forwarding fields are the proxy's own: the client's address as
  X-Forwarded-For and X-Real-IP (when it is known), and the Host the client asked for as X-Forwarded-Host (when it sent one).
\<close>

theorem upstream_request_framed:
  assumes "clean_request r" "clean host"
  shows "\<exists>fields.
    read_head (build_upstream_request r host port strip_prefix trust) =
      Some ((px_method r @ '' '' @ upstream_target strip_prefix (px_target r) @ '' HTTP/1.1'') # map (\<lambda>f. fst f @ '': '' @ snd f) fields,
            px_body r) \<and>
    filter (\<lambda>f. to_lower (fst f) \<in> {''content-length'', ''transfer-encoding''}) fields =
      (if px_body r \<noteq> [] \<or> px_method r \<in> {''POST'', ''PUT'', ''PATCH''} then [(''Content-Length'', show_nat (length (px_body r)))] else []) \<and>
    filter (\<lambda>f. to_lower (fst f) = ''host'') fields = [(''Host'', host @ '':'' @ show_int port)] \<and>
    (\<not> trust \<longrightarrow> filter (\<lambda>f. to_lower (fst f) \<in> set forwarding_names) fields =
       (if px_client_ip r = [] then [] else [(''X-Forwarded-For'', px_client_ip r), (''X-Real-IP'', px_client_ip r)]) @
       (if last_field ''host'' (px_headers r) = [] then [] else [(''X-Forwarded-Host'', last_field ''host'' (px_headers r))]))"
proof (intro exI conjI)
  let ?fs = "upstream_fields host port trust r"
  let ?ls = "(px_method r @ '' '' @ upstream_target strip_prefix (px_target r) @ '' HTTP/1.1'') # map field_text ?fs"
  have "clean (px_method r @ '' '' @ upstream_target strip_prefix (px_target r) @ '' HTTP/1.1'')"
    using assms(1) clean_target by (simp add: clean_request_def)
  with clean_fields [OF assms] have "list_all plain_line ?ls"
    by (auto simp: list_all_iff plain_line_def clean_def field_text_def)
  moreover have "build_upstream_request r host port strip_prefix trust = concat (map out_line ?ls) @ CRLF @ px_body r"
    by (simp add: build_upstream_request_def out_line_def comp_def)
  ultimately have "read_head (build_upstream_request r host port strip_prefix trust) = Some (?ls, px_body r)"
    using read_head_lines by metis
  then show "read_head (build_upstream_request r host port strip_prefix trust) =
      Some ((px_method r @ '' '' @ upstream_target strip_prefix (px_target r) @ '' HTTP/1.1'') # map (\<lambda>f. fst f @ '': '' @ snd f) ?fs, px_body r)"
    by (simp add: field_text_def)
  show "filter (\<lambda>f. to_lower (fst f) \<in> {''content-length'', ''transfer-encoding''}) ?fs =
      (if px_body r \<noteq> [] \<or> px_method r \<in> {''POST'', ''PUT'', ''PATCH''} then [(''Content-Length'', show_nat (length (px_body r)))] else [])"
    using kept_names(1) by (simp add: upstream_fields_def forwarding_fields_def Let_def)
  show "filter (\<lambda>f. to_lower (fst f) = ''host'') ?fs = [(''Host'', host @ '':'' @ show_int port)]"
    using kept_names(3) by (simp add: upstream_fields_def forwarding_fields_def Let_def)
  show "\<not> trust \<longrightarrow> filter (\<lambda>f. to_lower (fst f) \<in> set forwarding_names) ?fs =
      (if px_client_ip r = [] then [] else [(''X-Forwarded-For'', px_client_ip r), (''X-Real-IP'', px_client_ip r)]) @
      (if last_field ''host'' (px_headers r) = [] then [] else [(''X-Forwarded-Host'', last_field ''host'' (px_headers r))])"
    using kept_names(2) by (simp add: upstream_fields_def forwarding_fields_def prior_value_last forwarding_names_def Let_def)
qed

definition sample_request :: ProxiedRequest where
  "sample_request =
     \<lparr>px_method = ''GET'', px_target = ''/api/x'',
      px_headers = [(''Host'', ''a''), (''Transfer-Encoding'', ''chunked''), (''X-Real-IP'', ''6.6.6.6'')], px_body = [], px_client_ip = ''9.9.9.9''\<rparr>"

theorem upstream_request_framed_witness:
  "\<exists>fields. read_head (build_upstream_request sample_request ''up'' 80 [] False) =
     Some (''GET /api/x HTTP/1.1'' # map (\<lambda>f. fst f @ '': '' @ snd f) fields, []) \<and>
   filter (\<lambda>f. to_lower (fst f) \<in> {''content-length'', ''transfer-encoding''}) fields = [] \<and>
   filter (\<lambda>f. to_lower (fst f) \<in> set forwarding_names) fields =
     [(''X-Forwarded-For'', ''9.9.9.9''), (''X-Real-IP'', ''9.9.9.9''), (''X-Forwarded-Host'', ''a'')]"
proof -
  have r: "clean_request sample_request" and h: "clean ''up''" by (simp_all add: clean_request_def sample_request_def)
  have "last_field ''host'' (px_headers sample_request) = ''a''" "px_client_ip sample_request = ''9.9.9.9''" "px_body sample_request = []"
    "px_method sample_request = ''GET''" "upstream_target [] (px_target sample_request) = ''/api/x''"
    by code_simp+
  with upstream_request_framed [OF r h, of 80 "[]" False] show ?thesis by (simp cong: conj_cong) blast
qed

text \<open>
  C22: What the client gets from an upstream spoken to without TLS does not depend on how the network cut the upstream's response: if
  the response's head ends within the first 64 KiB, then the calls of the response writer for any sequence of reads are, up to the
  cutting of the body into chunks, those for a single read of all the bytes, and so is the rest of the proxy's state (whether it is
  done, whether the connection went back to the pool, whether it still reads). Over TLS it does not hold: after a head that is
  refused the proxy goes on relaying what follows (lemma \<open>tls_failure_keeps_relaying\<close>).
\<close>

theorem response_cut_irrelevant:
  assumes "find_sub (CRLF @ CRLF) (concat ss) = Some i" "i + 3 \<le> 64 * 1024" "[] \<notin> set ss"
  shows "settled (arrive ss (start_request Connected r (new_proxy False r))) =
         settled (on_read (Received [concat ss]) (start_request Connected r (new_proxy False r)))"
proof (cases "px_method r = []")
  case True
  then show ?thesis by (simp add: start_request_def new_proxy_def proxy_fail_def on_read_def)
next
  case False
  then have "awaiting_head (start_request Connected r (new_proxy False r))" "response_accumulator (start_request Connected r (new_proxy False r)) = []"
    by (simp_all add: awaiting_head_def start_request_def new_proxy_def find_sub_None)
  with arrive_head assms show ?thesis by simp
qed

theorem response_cut_irrelevant_witness:
  "settled (arrive [''HTTP/1.1 200 OK'' @ CRLF, CRLF @ ''a'', ''b''] (start_request Connected sample_request (new_proxy False sample_request))) =
   settled (on_read (Received [''HTTP/1.1 200 OK'' @ CRLF @ CRLF @ ''ab'']) (start_request Connected sample_request (new_proxy False sample_request)))"
proof -
  have "find_sub (CRLF @ CRLF) (concat [''HTTP/1.1 200 OK'' @ CRLF, CRLF @ ''a'', ''b'']) = Some 15" by simp
  from response_cut_irrelevant [OF this, of sample_request] show ?thesis by simp
qed

text \<open>The calls that pass on a body, however it was cut.\<close>

definition body_calls :: "string \<Rightarrow> proxy_call list" where
  "body_calls s = (if s = [] then [] else [PChunk s])"

lemma whole_response:
  assumes "find_sub (CRLF @ CRLF) (head @ CRLF @ CRLF) = Some (length head)" "px_method r \<notin> {[], ''HEAD''}"
    "status_of (hd (head_lines head)) = st" "200 \<le> st" "st \<notin> {204, 304}" "scan_fields (tl (head_lines head)) new_scan = (True, sc)"
    "sc_chunked sc \<or> sc_length sc = Some n \<and> n \<noteq> 0"
  obtains q where
    "on_read (Received [head @ CRLF @ CRLF @ b]) (start_request Connected r (new_proxy False r)) = relay_body b q"
    "calls q = [PSendHeaders st (if sc_chunked sc then hdr_erase ''Content-Length'' (relayed_fields st sc) else relayed_fields st sc)]"
    "body_mode q = (if sc_chunked sc then Chunked else ContentLength)" "\<not> finished q" "chunk_decoder q = new_decoder"
    "\<not> sc_chunked sc \<Longrightarrow> px_content_length q = n" "body_bytes_read q = 0"
proof -
  let ?p = "start_request Connected r (new_proxy False r)"
  have p: "awaiting_head ?p" "response_accumulator ?p = []"
    using assms(2) by (simp_all add: awaiting_head_def start_request_def new_proxy_def find_sub_None)
  have here: "find_sub (CRLF @ CRLF) (head @ CRLF @ CRLF @ b) = Some (length head)"
    using find_sub_more [OF assms(1), of b] by simp
  have mode: "choose_mode st sc False = (if sc_chunked sc then Chunked else ContentLength)"
    using assms(4,5,7) by (auto simp: choose_mode_def)
  let ?p' = "?p\<lparr>reading := False\<rparr>"
  obtain q where q: "parse_and_send_headers head ?p' = (True, q)" "calls q = [PSendHeaders st (if sc_chunked sc then hdr_erase ''Content-Length'' (relayed_fields st sc) else relayed_fields st sc)]"
    "body_mode q = (if sc_chunked sc then Chunked else ContentLength)" "\<not> finished q" "chunk_decoder q = new_decoder"
    "\<not> sc_chunked sc \<Longrightarrow> px_content_length q = n" "body_bytes_read q = 0" "\<not> is_websocket q"
    using assms(2-7) mode
    by (cases "sc_chunked sc") (simp_all add: parse_and_send_headers_def start_request_def new_proxy_def Let_def)
  show thesis
  proof (rule that [of "q\<lparr>response_accumulator := []\<rparr>"])
    show "on_read (Received [head @ CRLF @ CRLF @ b]) ?p = relay_body b (q\<lparr>response_accumulator := []\<rparr>)"
      using on_read_head [OF p(1), of "head @ CRLF @ CRLF @ b" "length head" True q] p(2) here q by simp
  qed (use q in simp_all)
qed

lemma merged_body: "merged (PSendHeaders st fs # body_calls s @ [PEnd]) = PSendHeaders st fs # body_calls s @ [PEnd]"
  by (simp add: body_calls_def)

lemma calls_settled: "settled p = settled q \<Longrightarrow> merged (calls p) = merged (calls q)"
  by (metis proxy.select_convs(12) proxy.surjective proxy.update_convs(11) proxy.update_convs(12) settled_def)

text \<open>
  C40: A chunked response of the upstream reaches the client whole: if the upstream sent a head that announces a chunked body, any
  chunks that are not empty in the form this library's own server sends them, and the last chunk, then however these bytes are cut
  into reads the proxy sends the head on, then the bytes of the chunks, and then ends the response, once; nothing that follows the
  last chunk is sent on.
\<close>

theorem chunked_response_relayed:
  assumes "find_sub (CRLF @ CRLF) (head @ CRLF @ CRLF) = Some (length head)" "length head + 3 \<le> 64 * 1024" "px_method r \<notin> {[], ''HEAD''}"
    "status_of (hd (head_lines head)) = st" "200 \<le> st" "st \<notin> {204, 304}" "scan_fields (tl (head_lines head)) new_scan = (True, sc)"
    "sc_chunked sc" "list_all (\<lambda>c. c \<noteq> [] \<and> length c < 16 ^ 15) cs" "[] \<notin> set ss"
    "concat ss = head @ CRLF @ CRLF @ concat (map format_chunk cs) @ last_chunk @ extra"
  shows "merged (calls (arrive ss (start_request Connected r (new_proxy False r)))) =
         PSendHeaders st (hdr_erase ''Content-Length'' (relayed_fields st sc)) # body_calls (concat cs) @ [PEnd]"
proof -
  let ?b = "concat (map format_chunk cs) @ last_chunk @ extra"
  obtain q where q: "on_read (Received [head @ CRLF @ CRLF @ ?b]) (start_request Connected r (new_proxy False r)) = relay_body ?b q"
    "calls q = [PSendHeaders st (hdr_erase ''Content-Length'' (relayed_fields st sc))]" "body_mode q = Chunked" "\<not> finished q"
    "chunk_decoder q = new_decoder"
    by (rule whole_response [OF assms(1,3-7), of undefined ?b]) (use assms(8) that in auto)
  have "cd_feed new_decoder ?b [] = (CdDone, \<lparr>cd_phase = Finished, cd_line = [], cd_remaining = 0\<rparr>, concat cs)"
    using cd_chunks [OF assms(9)] cd_last_chunk by simp
  then have "calls (relay_body ?b q) = PSendHeaders st (hdr_erase ''Content-Length'' (relayed_fields st sc)) # body_calls (concat cs) @ [PEnd]"
    using q by (simp add: relay_body_def consume_body_def complete_def write_call_def body_calls_def Let_def)
  moreover have "find_sub (CRLF @ CRLF) (concat ss) = Some (length head)" using find_sub_more [OF assms(1), of ?b] assms(11) by simp
  ultimately show ?thesis
    using calls_settled [OF response_cut_irrelevant [of ss _ r]] assms(2,10,11) q(1) merged_body by simp
qed

text \<open>
  A response with a length: the client gets exactly that many bytes of the body and one end, however the upstream's bytes were cut
  and whatever follows them.
\<close>

theorem length_response_relayed:
  assumes "find_sub (CRLF @ CRLF) (head @ CRLF @ CRLF) = Some (length head)" "length head + 3 \<le> 64 * 1024" "px_method r \<notin> {[], ''HEAD''}"
    "status_of (hd (head_lines head)) = st" "200 \<le> st" "st \<notin> {204, 304}" "scan_fields (tl (head_lines head)) new_scan = (True, sc)"
    "\<not> sc_chunked sc" "sc_length sc = Some n" "n \<noteq> 0" "[] \<notin> set ss"
    "concat ss = head @ CRLF @ CRLF @ body @ extra" "length body = unat n"
  shows "merged (calls (arrive ss (start_request Connected r (new_proxy False r)))) =
         PSendHeaders st (relayed_fields st sc) # body_calls body @ [PEnd]"
proof -
  let ?b = "body @ extra"
  obtain q where q: "on_read (Received [head @ CRLF @ CRLF @ ?b]) (start_request Connected r (new_proxy False r)) = relay_body ?b q"
    "calls q = [PSendHeaders st (relayed_fields st sc)]" "body_mode q = ContentLength" "\<not> finished q"
    "px_content_length q = n" "body_bytes_read q = 0"
    by (rule whole_response [OF assms(1,3-7), of n ?b]) (use assms(8-10) that in auto)
  have m: "min (length ?b) (unat (px_content_length q - body_bytes_read q)) = unat n" "take (unat n) ?b = body"
    using assms(13) q(5,6) by simp_all
  have "consume_body ?b q = complete ((write_call body q)\<lparr>body_bytes_read := n\<rparr>)"
    unfolding consume_length [OF q(3,4)] Let_def m using q(5,6) by simp
  then have "calls (relay_body ?b q) = PSendHeaders st (relayed_fields st sc) # body_calls body @ [PEnd]"
    using q(2) by (simp add: relay_body_def complete_def write_call_def body_calls_def)
  moreover have "find_sub (CRLF @ CRLF) (concat ss) = Some (length head)" using find_sub_more [OF assms(1), of ?b] assms(12) by simp
  ultimately show ?thesis
    using calls_settled [OF response_cut_irrelevant [of ss _ r]] assms(2,11,12) q(1) merged_body by simp
qed

definition sample_head :: "string \<Rightarrow> string" where
  "sample_head field = ''HTTP/1.1 200 OK'' @ CRLF @ field"

lemma sample_head_read:
  "find_sub (CRLF @ CRLF) (sample_head ''Transfer-Encoding: chunked'' @ CRLF @ CRLF) = Some (length (sample_head ''Transfer-Encoding: chunked''))"
  "hd (head_lines (sample_head ''Transfer-Encoding: chunked'')) = ''HTTP/1.1 200 OK''"
  "scan_fields (tl (head_lines (sample_head ''Transfer-Encoding: chunked''))) new_scan = (True, new_scan\<lparr>sc_chunked := True\<rparr>)"
  "find_sub (CRLF @ CRLF) (sample_head ''Content-Length: 2'' @ CRLF @ CRLF) = Some (length (sample_head ''Content-Length: 2''))"
  "hd (head_lines (sample_head ''Content-Length: 2'')) = ''HTTP/1.1 200 OK''"
  "scan_fields (tl (head_lines (sample_head ''Content-Length: 2''))) new_scan =
     (True, new_scan\<lparr>sc_length := Some 2, sc_fields := [(''Content-Length'', ''2'')]\<rparr>)"
  "status_of ''HTTP/1.1 200 OK'' = 200"
  by code_simp+

theorem chunked_response_relayed_witness:
  "merged (calls (arrive [sample_head ''Transfer-Encoding: chunked'' @ CRLF, CRLF @ format_chunk ''hi'', last_chunk]
     (start_request Connected sample_request (new_proxy False sample_request)))) =
   [PSendHeaders 200 (hdr_erase ''Content-Length'' (relayed_fields 200 (new_scan\<lparr>sc_chunked := True\<rparr>))), PChunk ''hi'', PEnd]"
proof -
  let ?head = "sample_head ''Transfer-Encoding: chunked''"
  have "merged (calls (arrive [?head @ CRLF, CRLF @ format_chunk ''hi'', last_chunk] (start_request Connected sample_request (new_proxy False sample_request)))) =
     PSendHeaders 200 (hdr_erase ''Content-Length'' (relayed_fields 200 (new_scan\<lparr>sc_chunked := True\<rparr>))) # body_calls (concat [''hi'']) @ [PEnd]"
    by (rule chunked_response_relayed [of ?head _ 200 _ "[''hi'']" _ "[]"])
       (simp_all add: sample_head_read, simp_all add: sample_head_def sample_request_def last_chunk_def format_chunk_def)
  then show ?thesis by (simp add: body_calls_def)
qed

theorem length_response_relayed_witness:
  "merged (calls (arrive [sample_head ''Content-Length: 2'' @ CRLF @ CRLF @ ''o'', ''k!''] (start_request Connected sample_request (new_proxy False sample_request)))) =
   [PSendHeaders 200 (relayed_fields 200 (new_scan\<lparr>sc_length := Some 2, sc_fields := [(''Content-Length'', ''2'')]\<rparr>)), PChunk ''ok'', PEnd]"
proof -
  let ?head = "sample_head ''Content-Length: 2''"
  have "merged (calls (arrive [?head @ CRLF @ CRLF @ ''o'', ''k!''] (start_request Connected sample_request (new_proxy False sample_request)))) =
     PSendHeaders 200 (relayed_fields 200 (new_scan\<lparr>sc_length := Some 2, sc_fields := [(''Content-Length'', ''2'')]\<rparr>)) # body_calls ''ok'' @ [PEnd]"
    by (rule length_response_relayed [of ?head _ 200 _ 2 _ "''ok''" "''!''"])
       (simp_all add: sample_head_read, simp_all add: sample_head_def sample_request_def new_scan_def)
  then show ?thesis by (simp add: body_calls_def)
qed

text \<open>
  Behaviour that is not what the code or its documentation means: an interim response of the upstream ends the exchange (the final
  response that follows is never read, and stays on the connection that goes back to the pool); a bad gateway is reported with status
  500; over TLS the proxy goes on reading after it has failed, and passes on what comes; and a trusted client's scheme
  (\<^verbatim>\<open>X-Forwarded-Proto\<close>) is dropped although trusted fields are documented as kept.
\<close>

lemma interim_response_ends_exchange:
  "let p = on_read (Received [''HTTP/1.1 100 Continue'' @ CRLF @ CRLF]) (start_request Connected sample_request (new_proxy False sample_request))
   in calls p = [PSendHeaders 100 [], PEnd] \<and> finished p \<and> pooled p"
  by code_simp

lemma bad_gateway_is_500: "calls (start_request (ConnectFailed m) sample_request (new_proxy tls sample_request)) = [PSend 500 (''502 Bad Gateway: '' @ m)]"
  by (simp add: start_request_def sample_request_def new_proxy_def proxy_fail_def)

lemma tls_failure_keeps_relaying:
  "calls (on_read (Received [''x'']) (on_read (Received [''bad'' @ CRLF @ CRLF]) (start_request Connected sample_request (new_proxy True sample_request)))) =
     [PSend 500 (''502 Bad Gateway: Malformed status line from upstream''), PChunk ''x'']"
  by code_simp

lemma trusted_scheme_dropped: "filter (\<lambda>f. to_lower (fst f) = ''x-forwarded-proto'') (upstream_fields host port True r) = []"
proof -
  have "filter (\<lambda>f. to_lower (fst f) = ''x-forwarded-proto'') (kept_headers (px_headers r)) = []"
    by (auto simp: kept_headers_def is_forwarding_header_def filter_empty_conv Let_def)
  then show ?thesis by (simp add: upstream_fields_def forwarding_fields_def Let_def)
qed

end
