(* ===== verification/Http2_Session.thy ===== *)
theory Http2_Session
  imports Http1_Parser Connection_Output "HOL-Library.AList" "HOL-Library.Multiset" "HOL-Library.Word"
begin

text \<open>
  HTTP/2 (\<^verbatim>\<open>src/http/Http2Session.cpp\<close>): the streams of a connection, how the callbacks of nghttp2 build their requests,
  and how the response writers put responses on them. The library nghttp2 is not modelled: it is the environment that makes the
  callbacks and asks for the bytes of a response, in any order, and what the session asks of it is recorded. A session is a state
  with one operation per callback and per call of a writer; all of them run under the session's mutex, so they are atomic.

  The theorems: what happens on one stream does not depend on the others; a request is the one that HTTP/1.1 with the same fields
  and body would have given, or a 413 or 400; the bytes of a streamed response are those that were written, in order, and its end
  is sent; every file handed to a stream is closed once.
\<close>

section \<open>Names, fields and the head of a response\<close>

definition forbidden_names :: "string list" where
  "forbidden_names = [''connection'', ''transfer-encoding'', ''keep-alive'', ''proxy-connection'', ''upgrade'']"

definition is_connection_specific_header :: "string \<Rightarrow> bool" where
  "is_connection_specific_header name \<longleftrightarrow> map tolower name \<in> set forbidden_names"

text \<open>\<^verbatim>\<open>parse_method\<close> leaves the method as it is when it does not know the name.\<close>

definition h2_parse_method :: "string \<Rightarrow> HttpMethod \<Rightarrow> HttpMethod" where
  "h2_parse_method v m =
     (if v = ''GET'' then GET else if v = ''POST'' then POST else if v = ''PUT'' then PUT else if v = ''DELETE'' then DELETE
      else if v = ''PATCH'' then PATCH else if v = ''OPTIONS'' then OPTIONS else if v = ''HEAD'' then HEAD else m)"

definition build_response_headers :: "string \<Rightarrow> HttpResponse \<Rightarrow> (string \<times> string) list" where
  "build_response_headers now r =
     ('':status'', show_int (status_code r)) #
     map (\<lambda>(k, v). (map tolower k, v)) (filter (\<lambda>h. \<not> is_connection_specific_header (fst h)) (res_headers r)) @
     (if hdr_find ''Date'' (res_headers r) = None then [(''date'', now)] else [])"

definition apply_request_target :: "string \<Rightarrow> HttpRequest \<Rightarrow> HttpRequest option" where
  "apply_request_target target req =
     (case split_at (CHR ''?'') target of (path, q) \<Rightarrow>
        (case percent_decode False True path of
           None \<Rightarrow> None
         | Some uri \<Rightarrow>
             (let r = req\<lparr>req_target := target, req_uri := uri\<rparr>
              in case q of
                   None \<Rightarrow> Some r
                 | Some query \<Rightarrow> map_option (\<lambda>fs. r\<lparr>req_query := fs\<rparr>) (parse_urlencoded query (req_query r)))))"

text \<open>One pair of a Cookie field, and all of them.\<close>

function h2_parse_cookies :: "string \<Rightarrow> fields \<Rightarrow> fields" where
  "h2_parse_cookies s out =
     (if s = [] then out
      else case split_at (CHR '';'') (dropWhile (\<lambda>c. c = CHR '' '') s) of (pair, rest) \<Rightarrow>
             (let out' = (case split_at (CHR ''='') pair of (k, Some v) \<Rightarrow> out(k \<mapsto> v) | (_, None) \<Rightarrow> out)
              in case rest of None \<Rightarrow> out' | Some r \<Rightarrow> h2_parse_cookies r out'))"
  by pat_completeness auto
termination
proof (relation "measure (\<lambda>(s, out). length s)", simp, clarsimp)
  fix s pair rest
  assume "(pair, Some rest) = split_at (CHR '';'') (dropWhile (\<lambda>c. c = CHR '' '') s)"
  then have "length rest < length (dropWhile (\<lambda>c. c = CHR '' '') s)" by (metis split_at_shrinks)
  with length_dropWhile_le [of "\<lambda>c. c = CHR '' ''" s] show "length rest < length s" by simp
qed

declare h2_parse_cookies.simps [simp del]


section \<open>The session\<close>

record StreamContext =
  ctx_request :: HttpRequest
  backing_uri :: string
  backing_body :: string
  backing_headers :: "(string \<times> string) list"
  response_body :: string
  response_offset :: nat
  streaming :: bool
  stream_ended :: bool
  ctx_file_fd :: int
  ctx_file_size :: int
  ctx_file_offset :: int
  body_too_large :: bool
  has_writer :: bool

definition new_stream :: StreamContext where
  "new_stream =
     \<lparr>ctx_request = empty_request, backing_uri = [], backing_body = [], backing_headers = [], response_body = [], response_offset = 0,
      streaming = False, stream_ended = False, ctx_file_fd = - 1, ctx_file_size = 0, ctx_file_offset = 0, body_too_large = False,
      has_writer = False\<rparr>"

record h2_writer = writer +
  h2_headers_sent :: bool
  suppress_body :: bool
  writer_body :: string

definition new_h2_writer :: "bool \<Rightarrow> string \<Rightarrow> h2_writer" where
  "new_h2_writer head body = writer.extend new_writer \<lparr>h2_headers_sent = False, suppress_body = head, writer_body = body\<rparr>"

text \<open>
  What the session asks of nghttp2, of the thread pool and of the operating system, each entry with its stream. A submitted response
  says whether it comes with a data provider.
\<close>

datatype h2_call = SubmitResponse "(string \<times> string) list" bool | ResumeData

datatype pool_task = RunHandler HttpRequest | MarkClosed

text \<open>What a read of the data provider gives: nothing for now, bytes (and whether they are the last), or an error.\<close>

datatype read_result = Deferred | Bytes string bool | ReadFailure

record h2_session =
  streams :: "(int \<times> StreamContext) list"
  writers :: "(int \<times> h2_writer) list"
  h2_calls :: "(int \<times> h2_call) list"
  pool :: "(int \<times> pool_task) list"
  wire :: "(int \<times> read_result) list"
  closed_fds :: "(int \<times> int) list"
  h2_max_body_size :: nat
  h2_client_ip :: string

definition new_session :: "string \<Rightarrow> nat \<Rightarrow> h2_session" where
  "new_session ip limit_bytes =
     \<lparr>streams = [], writers = [], h2_calls = [], pool = [], wire = [], closed_fds = [], h2_max_body_size = limit_bytes, h2_client_ip = ip\<rparr>"

abbreviation stream_at :: "h2_session \<Rightarrow> int \<Rightarrow> StreamContext option" where
  "stream_at s i \<equiv> map_of (streams s) i"

abbreviation writer_at :: "h2_session \<Rightarrow> int \<Rightarrow> h2_writer option" where
  "writer_at s i \<equiv> map_of (writers s) i"

definition set_stream :: "int \<Rightarrow> StreamContext \<Rightarrow> h2_session \<Rightarrow> h2_session" where
  "set_stream i c s = s\<lparr>streams := AList.update i c (streams s)\<rparr>"

definition set_writer :: "int \<Rightarrow> h2_writer \<Rightarrow> h2_session \<Rightarrow> h2_session" where
  "set_writer i w s = s\<lparr>writers := AList.update i w (writers s)\<rparr>"

definition h2_call :: "int \<Rightarrow> h2_call \<Rightarrow> h2_session \<Rightarrow> h2_session" where
  "h2_call i c s = s\<lparr>h2_calls := h2_calls s @ [(i, c)]\<rparr>"

definition h2_enqueue :: "int \<Rightarrow> pool_task \<Rightarrow> h2_session \<Rightarrow> h2_session" where
  "h2_enqueue i t s = s\<lparr>pool := pool s @ [(i, t)]\<rparr>"

definition close_fd :: "int \<Rightarrow> int \<Rightarrow> h2_session \<Rightarrow> h2_session" where
  "close_fd i fd s = (if fd = - 1 then s else s\<lparr>closed_fds := closed_fds s @ [(i, fd)]\<rparr>)"


section \<open>The callbacks of nghttp2\<close>

datatype frame_type = HEADERS | DATA | OTHER

definition on_begin_headers :: "frame_type \<Rightarrow> bool \<Rightarrow> int \<Rightarrow> h2_session \<Rightarrow> h2_session" where
  "on_begin_headers ty is_request i s = (if ty = HEADERS \<and> is_request then set_stream i new_stream s else s)"

definition put_field :: "string \<Rightarrow> string \<Rightarrow> StreamContext \<Rightarrow> StreamContext" where
  "put_field key val c =
     (if key = '':method'' then c\<lparr>ctx_request := (ctx_request c)\<lparr>req_method := h2_parse_method val (req_method (ctx_request c))\<rparr>\<rparr>
      else if key = '':path'' then c\<lparr>backing_uri := val, ctx_request := (ctx_request c)\<lparr>req_uri := val, req_target := val\<rparr>\<rparr>
      else if key = '':authority'' then c\<lparr>backing_headers := backing_headers c @ [(''Host'', val)]\<rparr>
      else if key \<noteq> [] \<and> hd key \<noteq> CHR '':'' then c\<lparr>backing_headers := backing_headers c @ [(key, val)]\<rparr>
      else c)"

definition h2_on_header :: "frame_type \<Rightarrow> bool \<Rightarrow> int \<Rightarrow> string \<Rightarrow> string \<Rightarrow> h2_session \<Rightarrow> h2_session" where
  "h2_on_header ty is_request i key val s =
     (if ty \<noteq> HEADERS \<or> \<not> is_request then s
      else case stream_at s i of None \<Rightarrow> s | Some c \<Rightarrow> set_stream i (put_field key val c) s)"

definition submit_status_locked :: "string \<Rightarrow> int \<Rightarrow> int \<Rightarrow> h2_session \<Rightarrow> h2_session" where
  "submit_status_locked now i st s = h2_call i (SubmitResponse (build_response_headers now (new_response\<lparr>status_code := st\<rparr>)) False) s"

definition join_cookies :: "(string \<times> string) list \<Rightarrow> string" where
  "join_cookies hs =
     fold (\<lambda>(k, v) acc. if k = ''cookie'' then (if acc \<noteq> [] then acc @ ''; '' else acc) @ v else acc) hs []"

definition gather_fields :: "StreamContext \<Rightarrow> HttpRequest" where
  "gather_fields c =
     (let r1 = (ctx_request c)\<lparr>req_body := backing_body c\<rparr>;
          r2 = r1\<lparr>req_headers := fold (\<lambda>(k, v) hs. if k = ''cookie'' then hs else hdr_set k v hs) (backing_headers c) (req_headers r1)\<rparr>;
          cookie = join_cookies (backing_headers c)
      in if cookie \<noteq> []
         then r2\<lparr>req_headers := hdr_set ''cookie'' cookie (req_headers r2), req_cookies := h2_parse_cookies cookie (req_cookies r2)\<rparr>
         else r2)"

text \<open>After a target that does not decode, the request is not looked at again: the stream keeps it as it was before the target.\<close>

definition dispatch_stream :: "string \<Rightarrow> int \<Rightarrow> StreamContext \<Rightarrow> h2_session \<Rightarrow> h2_session" where
  "dispatch_stream now i c s =
     (let req = gather_fields c
      in case apply_request_target (backing_uri c) req of
           None \<Rightarrow> submit_status_locked now i 400 (set_stream i (c\<lparr>ctx_request := req\<rparr>) s)
         | Some req' \<Rightarrow>
             (let req'' = req'\<lparr>http_version := ''HTTP/2'', client_ip := h2_client_ip s, peer_ip := h2_client_ip s\<rparr>
              in h2_enqueue i (RunHandler req'')
                   (set_writer i (new_h2_writer (req_method req'' = HEAD) (backing_body c))
                     (set_stream i (c\<lparr>ctx_request := req'', has_writer := True\<rparr>) s))))"

definition on_frame_recv :: "string \<Rightarrow> frame_type \<Rightarrow> bool \<Rightarrow> int \<Rightarrow> h2_session \<Rightarrow> h2_session" where
  "on_frame_recv now ty end_stream_flag i s =
     (case stream_at s i of
        None \<Rightarrow> s
      | Some c \<Rightarrow>
          if end_stream_flag \<and> (ty = HEADERS \<or> ty = DATA)
          then (if body_too_large c then submit_status_locked now i 413 s else dispatch_stream now i c s)
          else s)"

definition add_body :: "nat \<Rightarrow> string \<Rightarrow> StreamContext \<Rightarrow> StreamContext" where
  "add_body max_size data c =
     (if body_too_large c then c
      else if length (backing_body c) + length data > max_size then c\<lparr>body_too_large := True, backing_body := []\<rparr>
      else c\<lparr>backing_body := backing_body c @ data\<rparr>)"

definition on_data_chunk_recv :: "int \<Rightarrow> string \<Rightarrow> h2_session \<Rightarrow> h2_session" where
  "on_data_chunk_recv i data s =
     (case stream_at s i of None \<Rightarrow> s | Some c \<Rightarrow> set_stream i (add_body (h2_max_body_size s) data c) s)"

text \<open>Streams and writers are erased by their number; a writer lives as long as a handler has it, so it stays here.\<close>

definition on_stream_close :: "int \<Rightarrow> h2_session \<Rightarrow> h2_session" where
  "on_stream_close i s =
     (case stream_at s i of
        None \<Rightarrow> s
      | Some c \<Rightarrow>
          (let s1 = close_fd i (ctx_file_fd c) s;
               s2 = (if has_writer c then h2_enqueue i MarkClosed s1 else s1)
           in s2\<lparr>streams := AList.delete i (streams s2)\<rparr>))"


section \<open>The bytes of a response\<close>

text \<open>The file is read through \<^verbatim>\<open>pread\<close>, a parameter: the bytes of a descriptor from an offset, or an error.\<close>

definition data_provider_read :: "(int \<Rightarrow> int \<Rightarrow> nat \<Rightarrow> string option) \<Rightarrow> nat \<Rightarrow> StreamContext \<Rightarrow> read_result \<times> StreamContext" where
  "data_provider_read pread len c =
     (if ctx_file_fd c \<noteq> - 1
      then let to_read = min len (unat (word_of_int (ctx_file_size c - ctx_file_offset c) :: 64 word))
           in if to_read = 0 then (Bytes [] True, c)
              else case pread (ctx_file_fd c) (ctx_file_offset c) to_read of
                     None \<Rightarrow> (ReadFailure, c)
                   | Some b \<Rightarrow>
                       (let c' = c\<lparr>ctx_file_offset := ctx_file_offset c + int (length b)\<rparr>
                        in (Bytes b (ctx_file_offset c' \<ge> ctx_file_size c'), c'))
      else let more_to_come = (streaming c \<and> \<not> stream_ended c);
               to_read = min len (length (response_body c) - response_offset c)
           in if to_read = 0 then (if more_to_come then (Deferred, c) else (Bytes [] True, c))
              else let b = take to_read (drop (response_offset c) (response_body c));
                       c' = c\<lparr>response_offset := response_offset c + to_read\<rparr>
                   in if response_offset c' \<ge> length (response_body c')
                      then (if more_to_come then (Bytes b False, c'\<lparr>response_body := [], response_offset := 0\<rparr>) else (Bytes b True, c'))
                      else (Bytes b False, c'))"

definition provider_read :: "(int \<Rightarrow> int \<Rightarrow> nat \<Rightarrow> string option) \<Rightarrow> int \<Rightarrow> nat \<Rightarrow> h2_session \<Rightarrow> h2_session" where
  "provider_read pread i len s =
     (case stream_at s i of
        None \<Rightarrow> s
      | Some c \<Rightarrow> (case data_provider_read pread len c of (r, c') \<Rightarrow> (set_stream i c' s)\<lparr>wire := wire s @ [(i, r)]\<rparr>))"


section \<open>The writers\<close>

text \<open>What is left of the response is destroyed by the caller, which closes a file it still holds.\<close>

definition submit_response :: "string \<Rightarrow> int \<Rightarrow> HttpResponse \<Rightarrow> bool \<Rightarrow> bool \<Rightarrow> h2_session \<Rightarrow> h2_session" where
  "submit_response now i r with_body is_streaming s =
     (case stream_at s i of
        None \<Rightarrow> close_fd i (file_fd r) s
      | Some c \<Rightarrow>
          if with_body
          then h2_call i (SubmitResponse (build_response_headers now r) True)
                 (set_stream i (c\<lparr>response_body := res_body r, response_offset := 0, streaming := is_streaming, ctx_file_fd := file_fd r,
                                 ctx_file_size := file_size r, ctx_file_offset := file_offset r\<rparr>) s)
          else close_fd i (file_fd r) (h2_call i (SubmitResponse (build_response_headers now r) False) s))"

definition submit_data :: "int \<Rightarrow> string \<Rightarrow> h2_session \<Rightarrow> h2_session" where
  "submit_data i chunk s =
     (case stream_at s i of
        None \<Rightarrow> s
      | Some c \<Rightarrow>
          if \<not> streaming c \<or> stream_ended c then s
          else h2_call i ResumeData (set_stream i (c\<lparr>response_body := response_body c @ chunk\<rparr>) s))"

definition end_stream :: "int \<Rightarrow> h2_session \<Rightarrow> h2_session" where
  "end_stream i s =
     (case stream_at s i of
        None \<Rightarrow> s
      | Some c \<Rightarrow>
          if \<not> streaming c \<or> stream_ended c then s
          else h2_call i ResumeData (set_stream i (c\<lparr>stream_ended := True\<rparr>) s))"

definition with_writer :: "int \<Rightarrow> (h2_writer \<Rightarrow> h2_session \<Rightarrow> h2_session) \<Rightarrow> h2_session \<Rightarrow> h2_session" where
  "with_writer i f s = (case writer_at s i of None \<Rightarrow> s | Some w \<Rightarrow> f w s)"

definition h2_send :: "string \<Rightarrow> HttpResponse \<Rightarrow> int \<Rightarrow> h2_writer \<Rightarrow> h2_session \<Rightarrow> h2_session" where
  "h2_send now res i w s =
     (let w1 = w\<lparr>responded := True\<rparr>
      in if h2_headers_sent w1 then close_fd i (file_fd res) (set_writer i w1 s)
         else let r = prepare_response w1 res;
                  code = status_code r;
                  bodiless = (suppress_body w1 \<or> code < 200 \<or> code = 204 \<or> code = 304);
                  with_body = (\<not> bodiless \<and> (res_body r \<noteq> [] \<or> file_fd r \<noteq> - 1))
              in submit_response now i r with_body False (set_writer i (w1\<lparr>h2_headers_sent := True\<rparr>) s))"

definition h2_send_headers :: "string \<Rightarrow> HttpResponse \<Rightarrow> int \<Rightarrow> h2_writer \<Rightarrow> h2_session \<Rightarrow> h2_session" where
  "h2_send_headers now res i w s =
     (let w1 = w\<lparr>responded := True\<rparr>
      in if h2_headers_sent w1 then close_fd i (file_fd res) (set_writer i w1 s)
         else submit_response now i (prepare_response w1 res) (\<not> suppress_body w1) (\<not> suppress_body w1)
                (set_writer i (w1\<lparr>h2_headers_sent := True\<rparr>) s))"

definition h2_write_chunk :: "string \<Rightarrow> int \<Rightarrow> h2_writer \<Rightarrow> h2_session \<Rightarrow> h2_session" where
  "h2_write_chunk chunk i w s =
     (let s1 = set_writer i (w\<lparr>responded := True\<rparr>) s in if chunk = [] then s1 else submit_data i chunk s1)"

definition h2_end :: "int \<Rightarrow> h2_writer \<Rightarrow> h2_session \<Rightarrow> h2_session" where
  "h2_end i w s = end_stream i (set_writer i (w\<lparr>responded := True\<rparr>) s)"

definition h2_send_sse_event :: "string \<Rightarrow> string \<Rightarrow> string \<Rightarrow> int \<Rightarrow> h2_writer \<Rightarrow> h2_session \<Rightarrow> h2_session" where
  "h2_send_sse_event data event ident i w s = h2_write_chunk (sse_message data event ident) i w s"

text \<open>\<^verbatim>\<open>read_body_stream\<close> gives the whole body at once, and then its end.\<close>

definition h2_read_body_stream :: "h2_writer \<Rightarrow> string list" where
  "h2_read_body_stream w = (if writer_body w = [] then [] else [writer_body w])"

definition run_mark_closed :: "int \<Rightarrow> h2_session \<Rightarrow> h2_session" where
  "run_mark_closed i s = with_writer i (\<lambda>w. set_writer i (mark_closed w)) s"

definition close_streams :: "h2_session \<Rightarrow> h2_session" where
  "close_streams s = fold (\<lambda>(i, c). if has_writer c then run_mark_closed i else id) (streams s) s"

definition destroy_session :: "h2_session \<Rightarrow> h2_session" where
  "destroy_session s = fold (\<lambda>(i, c) s. close_fd i (ctx_file_fd c) (if has_writer c then run_mark_closed i s else s)) (streams s) s"

definition h2_idle :: "h2_session \<Rightarrow> bool" where
  "h2_idle s \<longleftrightarrow> streams s = []"


section \<open>Runs of a session\<close>

text \<open>
  Everything that happens to a session, in the order in which its mutex is taken: the callbacks, the reads of response bytes, the
  calls of the writers, and the tasks that mark a writer closed. The first number is the stream; the text in some events is the
  current date.
\<close>

datatype h2_event =
    BeginHeaders int frame_type bool
  | Header int frame_type bool string string
  | FrameRecv int string frame_type bool
  | DataChunk int string
  | StreamClose int
  | ProviderRead int nat
  | WSend int string HttpResponse
  | WSendHeaders int string HttpResponse
  | WChunk int string
  | WEnd int
  | WSse int string string string
  | WClosed int

fun event_stream :: "h2_event \<Rightarrow> int" where
  "event_stream (BeginHeaders i _ _) = i"
| "event_stream (Header i _ _ _ _) = i"
| "event_stream (FrameRecv i _ _ _) = i"
| "event_stream (DataChunk i _) = i"
| "event_stream (StreamClose i) = i"
| "event_stream (ProviderRead i _) = i"
| "event_stream (WSend i _ _) = i"
| "event_stream (WSendHeaders i _ _) = i"
| "event_stream (WChunk i _) = i"
| "event_stream (WEnd i) = i"
| "event_stream (WSse i _ _ _) = i"
| "event_stream (WClosed i) = i"

fun h2_step :: "(int \<Rightarrow> int \<Rightarrow> nat \<Rightarrow> string option) \<Rightarrow> h2_event \<Rightarrow> h2_session \<Rightarrow> h2_session" where
  "h2_step pread (BeginHeaders i ty q) s = on_begin_headers ty q i s"
| "h2_step pread (Header i ty q k v) s = h2_on_header ty q i k v s"
| "h2_step pread (FrameRecv i now ty e) s = on_frame_recv now ty e i s"
| "h2_step pread (DataChunk i d) s = on_data_chunk_recv i d s"
| "h2_step pread (StreamClose i) s = on_stream_close i s"
| "h2_step pread (ProviderRead i n) s = provider_read pread i n s"
| "h2_step pread (WSend i now r) s = with_writer i (h2_send now r i) s"
| "h2_step pread (WSendHeaders i now r) s = with_writer i (h2_send_headers now r i) s"
| "h2_step pread (WChunk i c) s = with_writer i (h2_write_chunk c i) s"
| "h2_step pread (WEnd i) s = with_writer i (h2_end i) s"
| "h2_step pread (WSse i d e n) s = with_writer i (h2_send_sse_event d e n i) s"
| "h2_step pread (WClosed i) s = run_mark_closed i s"

definition h2_run :: "(int \<Rightarrow> int \<Rightarrow> nat \<Rightarrow> string option) \<Rightarrow> h2_event list \<Rightarrow> h2_session \<Rightarrow> h2_session" where
  "h2_run pread es s = fold (h2_step pread) es s"

lemma h2_run_simps [simp]:
  "h2_run pread [] s = s" "h2_run pread (e # es) s = h2_run pread es (h2_step pread e s)"
  "h2_run pread (es @ fs) s = h2_run pread fs (h2_run pread es s)"
  by (simp_all add: h2_run_def)


section \<open>Streams do not see each other\<close>

definition of_stream :: "int \<Rightarrow> (int \<times> 'a) list \<Rightarrow> 'a list" where
  "of_stream i xs = map snd (filter (\<lambda>x. fst x = i) xs)"

record stream_view =
  v_stream :: "StreamContext option"
  v_writer :: "h2_writer option"
  v_calls :: "h2_call list"
  v_pool :: "pool_task list"
  v_wire :: "read_result list"
  v_closed :: "int list"
  v_max :: nat
  v_ip :: string

definition view :: "int \<Rightarrow> h2_session \<Rightarrow> stream_view" where
  "view i s =
     \<lparr>v_stream = stream_at s i, v_writer = writer_at s i, v_calls = of_stream i (h2_calls s), v_pool = of_stream i (pool s),
      v_wire = of_stream i (wire s), v_closed = of_stream i (closed_fds s), v_max = h2_max_body_size s, v_ip = h2_client_ip s\<rparr>"

lemma of_stream_append [simp]: "of_stream i (xs @ [(j, x)]) = of_stream i xs @ (if j = i then [x] else [])"
  by (simp add: of_stream_def)

text \<open>What the primitive updates do to the view of a stream.\<close>

lemma view_set_stream [simp]: "view i (set_stream j c s) = (if i = j then (view i s)\<lparr>v_stream := Some c\<rparr> else view i s)"
  by (simp add: view_def set_stream_def update_conv')

lemma view_set_writer [simp]: "view i (set_writer j w s) = (if i = j then (view i s)\<lparr>v_writer := Some w\<rparr> else view i s)"
  by (simp add: view_def set_writer_def update_conv')

lemma view_h2_call [simp]: "view i (h2_call j c s) = (if i = j then (view i s)\<lparr>v_calls := v_calls (view i s) @ [c]\<rparr> else view i s)"
  by (simp add: view_def h2_call_def)

lemma view_h2_enqueue [simp]: "view i (h2_enqueue j c s) = (if i = j then (view i s)\<lparr>v_pool := v_pool (view i s) @ [c]\<rparr> else view i s)"
  by (simp add: view_def h2_enqueue_def)

lemma view_close_fd [simp]:
  "view i (close_fd j fd s) = (if i = j \<and> fd \<noteq> - 1 then (view i s)\<lparr>v_closed := v_closed (view i s) @ [fd]\<rparr> else view i s)"
  by (simp add: view_def close_fd_def)

lemma view_wire [simp]:
  "view i (s\<lparr>wire := wire t @ [(j, r)]\<rparr>) = (if i = j then (view i s)\<lparr>v_wire := of_stream i (wire t) @ [r]\<rparr> else (view i s)\<lparr>v_wire := of_stream i (wire t)\<rparr>)"
  by (simp add: view_def)

lemma view_delete [simp]:
  "view i (s\<lparr>streams := AList.delete j (streams s)\<rparr>) = (if i = j then (view i s)\<lparr>v_stream := None\<rparr> else view i s)"
  by (simp add: view_def delete_conv')

lemma view_sel:
  "stream_at s i = v_stream (view i s)" "writer_at s i = v_writer (view i s)" "h2_max_body_size s = v_max (view i s)" "h2_client_ip s = v_ip (view i s)"
  "of_stream i (wire s) = v_wire (view i s)"
  by (simp_all add: view_def)

lemma sel_primitives [simp]:
  "stream_at (set_writer j w s) i = stream_at s i" "stream_at (h2_call j c s) i = stream_at s i" "stream_at (close_fd j fd s) i = stream_at s i"
  "stream_at (h2_enqueue j t s) i = stream_at s i" "wire (set_stream j x s) = wire s"
  by (simp_all add: set_writer_def h2_call_def close_fd_def h2_enqueue_def set_stream_def)

lemmas h2_ops = on_begin_headers_def h2_on_header_def on_frame_recv_def on_data_chunk_recv_def on_stream_close_def provider_read_def
  submit_status_locked_def dispatch_stream_def submit_response_def submit_data_def end_stream_def with_writer_def h2_send_def
  h2_send_headers_def h2_write_chunk_def h2_end_def h2_send_sse_event_def run_mark_closed_def

lemma view_other:
  assumes "event_stream e \<noteq> i"
  shows "view i (h2_step pread e s) = view i s"
  using assms
  by (cases e) (auto simp: h2_ops Let_def view_sel(5) split: option.split prod.split)

lemma view_same:
  assumes "view (event_stream e) s = view (event_stream e) t"
  shows "view (event_stream e) (h2_step pread e s) = view (event_stream e) (h2_step pread e t)"
proof -
  let ?i = "event_stream e"
  have v: "stream_at s ?i = stream_at t ?i" "writer_at s ?i = writer_at t ?i" "h2_max_body_size s = h2_max_body_size t" "h2_client_ip s = h2_client_ip t"
    "of_stream ?i (wire s) = of_stream ?i (wire t)"
    using assms by (simp_all add: view_sel [where i = ?i])
  show ?thesis
    using assms v
    by (cases "stream_at t ?i"; cases "writer_at t ?i"; cases e) (auto simp: h2_ops Let_def split: option.split prod.split)
qed

lemma view_run:
  assumes "view i s = view i t"
  shows "view i (h2_run pread es s) = view i (h2_run pread (filter (\<lambda>e. event_stream e = i) es) t)"
  using assms
proof (induction es arbitrary: s t)
  case (Cons e es)
  show ?case
  proof (cases "event_stream e = i")
    case True
    with Cons.prems view_same [of e s t pread] have "view i (h2_step pread e s) = view i (h2_step pread e t)" by simp
    with Cons.IH True show ?thesis by simp
  next
    case False
    with Cons.prems view_other [OF False, of pread s] have "view i (h2_step pread e s) = view i t" by simp
    with Cons.IH False show ?thesis by simp
  qed
qed simp

text \<open>
  The streams of an HTTP/2 connection do not influence each other: whatever happens on the connection, in any interleaving, the
  state of a stream, its response writer, what was asked of nghttp2 and of the thread pool for it, the bytes it gave to the wire and
  the files it closed are those of a connection on which only that stream's events happen.
\<close>

theorem h2_streams_independent:
  "view i (h2_run pread es (new_session ip limit_bytes)) =
   view i (h2_run pread (filter (\<lambda>e. event_stream e = i) es) (new_session ip limit_bytes))"
  by (rule view_run) simp


section \<open>Requests\<close>

text \<open>
  The callbacks for a request with the given fields, whose body arrives in pieces; the last frame may be one with trailers. The
  frame of the header fields ends the stream when there is nothing else.
\<close>

definition request_events :: "int \<Rightarrow> string \<Rightarrow> (string \<times> string) list \<Rightarrow> string list \<Rightarrow> frame_type \<Rightarrow> h2_event list" where
  "request_events i now fs cs ty =
     BeginHeaders i HEADERS True # map (\<lambda>(k, v). Header i HEADERS True k v) fs @
     (if cs = [] then [] else [FrameRecv i now HEADERS False]) @
     concat (map (\<lambda>c. [DataChunk i c, FrameRecv i now DATA False]) cs) @ [FrameRecv i now ty True]"

lemma view_stream_update: "v_stream (view i s) = Some c \<Longrightarrow> (view i s)\<lparr>v_stream := Some c\<rparr> = view i s"
  by (cases "view i s") simp

lemma run_fields:
  assumes "stream_at s i = Some c"
  shows "view i (h2_run pread (map (\<lambda>(k, v). Header i HEADERS True k v) fs) s) =
         (view i s)\<lparr>v_stream := Some (fold (\<lambda>(k, v). put_field k v) fs c)\<rparr>"
  using assms
proof (induction fs arbitrary: s c)
  case Nil
  then show ?case by (simp add: view_stream_update view_sel)
next
  case (Cons f fs)
  obtain k v where f: "f = (k, v)" by fastforce
  have "stream_at (h2_on_header HEADERS True i k v s) i = Some (put_field k v c)" "view i (h2_on_header HEADERS True i k v s) = (view i s)\<lparr>v_stream := Some (put_field k v c)\<rparr>"
    using Cons.prems by (simp_all add: h2_on_header_def view_sel)
  with Cons.IH f show ?case by simp
qed

lemma frame_goes_on [simp]: "on_frame_recv now ty False i s = s"
  by (simp add: on_frame_recv_def split: option.split)

lemma run_data:
  assumes "stream_at s i = Some c"
  shows "view i (h2_run pread (concat (map (\<lambda>d. [DataChunk i d, FrameRecv i now DATA False]) cs)) s) =
         (view i s)\<lparr>v_stream := Some (fold (add_body (h2_max_body_size s)) cs c)\<rparr>"
  using assms
proof (induction cs arbitrary: s c)
  case Nil
  then show ?case by (simp add: view_stream_update view_sel)
next
  case (Cons d cs)
  let ?s = "on_data_chunk_recv i d s"
  have "stream_at ?s i = Some (add_body (h2_max_body_size s) d c)" "view i ?s = (view i s)\<lparr>v_stream := Some (add_body (h2_max_body_size s) d c)\<rparr>"
    "h2_max_body_size ?s = h2_max_body_size s"
    using Cons.prems by (simp_all add: on_data_chunk_recv_def view_sel [where i = i])
  with Cons.IH show ?case by simp
qed

lemma add_bodies:
  assumes "\<not> body_too_large c" "length (backing_body c) \<le> m"
  shows "fold (add_body m) cs c =
    (if length (backing_body c) + length (concat cs) > m then c\<lparr>body_too_large := True, backing_body := []\<rparr>
     else c\<lparr>backing_body := backing_body c @ concat cs\<rparr>)"
  using assms
proof (induction cs arbitrary: c)
  case Nil
  then show ?case by (cases c) simp
next
  case (Cons d cs)
  show ?case
  proof (cases "length (backing_body c) + length d > m")
    case True
    have big: "fold (add_body m) xs (c\<lparr>body_too_large := True, backing_body := []\<rparr>) = c\<lparr>body_too_large := True, backing_body := []\<rparr>" for xs
      by (induction xs) (simp_all add: add_body_def)
    from True Cons.prems have "add_body m d c = c\<lparr>body_too_large := True, backing_body := []\<rparr>" by (simp add: add_body_def)
    with True big show ?thesis by simp
  next
    case False
    with Cons.prems have "add_body m d c = c\<lparr>backing_body := backing_body c @ d\<rparr>" by (simp add: add_body_def)
    with False Cons.prems Cons.IH [of "c\<lparr>backing_body := backing_body c @ d\<rparr>"] show ?thesis by simp
  qed
qed

lemma run_request:
  assumes "ty \<noteq> OTHER"
  shows "view i (h2_run pread (request_events i now fs cs ty) s) =
    (let c = fold (\<lambda>(k, v). put_field k v) fs new_stream;
         c' = fold (add_body (h2_max_body_size s)) cs c
     in view i (if body_too_large c' then submit_status_locked now i 413 (set_stream i c' s) else dispatch_stream now i c' (set_stream i c' s)))"
proof -
  let ?c = "fold (\<lambda>(k, v). put_field k v) fs new_stream"
  let ?c' = "fold (add_body (h2_max_body_size s)) cs ?c"
  let ?s1 = "h2_run pread (map (\<lambda>(k, v). Header i HEADERS True k v) fs) (set_stream i new_stream s)"
  have 1: "view i ?s1 = (view i s)\<lparr>v_stream := Some ?c\<rparr>" by (subst run_fields) (simp_all add: view_sel)
  have s1: "stream_at ?s1 i = Some ?c" "h2_max_body_size ?s1 = h2_max_body_size s" using 1 by (simp_all add: view_sel [where i = i])
  let ?s2 = "h2_run pread (concat (map (\<lambda>d. [DataChunk i d, FrameRecv i now DATA False]) cs)) ?s1"
  have 2: "view i ?s2 = view i (set_stream i ?c' s)" using run_data [OF s1(1), of pread now cs] 1 s1(2) by simp
  have "h2_run pread (request_events i now fs cs ty) s = h2_step pread (FrameRecv i now ty True) ?s2"
    by (simp add: request_events_def on_begin_headers_def)
  also have "view i \<dots> = view i (h2_step pread (FrameRecv i now ty True) (set_stream i ?c' s))"
    using view_same [of "FrameRecv i now ty True" ?s2 "set_stream i ?c' s" pread] 2 by simp
  also have "stream_at (set_stream i ?c' s) i = Some ?c'" by (simp add: view_sel)
  then have "h2_step pread (FrameRecv i now ty True) (set_stream i ?c' s) =
      (if body_too_large ?c' then submit_status_locked now i 413 (set_stream i ?c' s) else dispatch_stream now i ?c' (set_stream i ?c' s))"
    using assms by (cases ty) (simp_all add: on_frame_recv_def)
  finally show ?thesis by (simp add: Let_def)
qed

text \<open>Fields of a request: the pseudo-fields, other fields, and a field for each cookie.\<close>

definition plain_name :: "string \<Rightarrow> bool" where
  "plain_name k \<longleftrightarrow> k \<noteq> [] \<and> hd k \<noteq> CHR '':'' \<and> \<not> iequals k ''cookie''"

definition h2_cookie_ok :: "string \<times> string \<Rightarrow> bool" where
  "h2_cookie_ok kv \<longleftrightarrow> cookie_ok kv \<and> CHR '';'' \<notin> set (fst kv)"

definition crumb :: "string \<times> string \<Rightarrow> string \<times> string" where
  "crumb kv = (''cookie'', fst kv @ ''='' @ snd kv)"

definition h2_fields :: "string \<Rightarrow> string \<Rightarrow> string \<Rightarrow> string \<Rightarrow> (string \<times> string) list \<Rightarrow> (string \<times> string) list \<Rightarrow> (string \<times> string) list" where
  "h2_fields m scheme path authority hs cks =
     [('':method'', m), ('':scheme'', scheme), ('':path'', path), ('':authority'', authority)] @ hs @ map crumb cks"

text \<open>The same request in HTTP/1.1.\<close>

definition h1_headers :: "string \<Rightarrow> (string \<times> string) list \<Rightarrow> (string \<times> string) list \<Rightarrow> (string \<times> string) list" where
  "h1_headers authority hs cks = (''Host'', authority) # hs @ (if cks = [] then [] else [(''cookie'', cookie_encode cks)])"

definition h1_request :: "string \<Rightarrow> string \<Rightarrow> string \<Rightarrow> (string \<times> string) list \<Rightarrow> (string \<times> string) list \<Rightarrow> string \<Rightarrow> string + HttpRequest" where
  "h1_request m path authority hs cks body =
     map_sum id (\<lambda>req. (put_cookies (put_headers (h1_headers authority hs cks) req))\<lparr>req_body := body, owned_header_storage := []\<rparr>)
       (put_target m path empty_request)"

lemma put_plain_fields:
  "list_all (\<lambda>f. fst f \<noteq> [] \<and> hd (fst f) \<noteq> CHR '':'') hs \<Longrightarrow>
     fold (\<lambda>(k, v). put_field k v) hs c = c\<lparr>backing_headers := backing_headers c @ hs\<rparr>"
  by (induction hs arbitrary: c) (auto simp: put_field_def split: prod.split)

lemma put_h2_fields:
  assumes "list_all (\<lambda>f. plain_name (fst f)) hs"
  shows "fold (\<lambda>(k, v). put_field k v) (h2_fields m scheme path authority hs cks) new_stream =
    new_stream\<lparr>backing_uri := path, backing_headers := (''Host'', authority) # hs @ map crumb cks,
               ctx_request := empty_request\<lparr>req_method := parse_method m, req_uri := path, req_target := path\<rparr>\<rparr>"
proof -
  have "list_all (\<lambda>f. fst f \<noteq> [] \<and> hd (fst f) \<noteq> CHR '':'') (hs @ map crumb cks)"
    using assms by (auto simp: list_all_iff plain_name_def crumb_def)
  note rest = put_plain_fields [OF this]
  have m: "h2_parse_method m UNKNOWN = parse_method m" by (simp add: h2_parse_method_def parse_method_def)
  have "fold (\<lambda>(k, v). put_field k v) (h2_fields m scheme path authority hs cks) new_stream =
      fold (\<lambda>(k, v). put_field k v) (hs @ map crumb cks) (fold (\<lambda>(k, v). put_field k v)
        [('':method'', m), ('':scheme'', scheme), ('':path'', path), ('':authority'', authority)] new_stream)"
    by (simp only: h2_fields_def fold_append comp_apply)
  then show ?thesis unfolding rest by (simp add: put_field_def new_stream_def empty_request_def m)
qed

lemma h2_cookie_last: "h2_cookie_ok (k, v) \<Longrightarrow> h2_parse_cookies (k @ CHR ''='' # v) out = out(k \<mapsto> v)"
  by (subst h2_parse_cookies.simps) (simp add: h2_cookie_ok_def cookie_ok_def dropWhile_key split_at_app)

lemma h2_cookie_more:
  "h2_cookie_ok (k, v) \<Longrightarrow> h2_parse_cookies (k @ CHR ''='' # v @ CHR '';'' # r) out = h2_parse_cookies r (out(k \<mapsto> v))"
proof -
  assume ok: "h2_cookie_ok (k, v)"
  then have "split_at (CHR '';'') ((k @ CHR ''='' # v) @ CHR '';'' # r) = (k @ CHR ''='' # v, Some r)"
    by (intro split_at_append_mem) (simp add: h2_cookie_ok_def cookie_ok_def)
  with ok show ?thesis by (subst h2_parse_cookies.simps) (simp add: h2_cookie_ok_def cookie_ok_def dropWhile_key)
qed

lemma h2_cookie_space: "h2_parse_cookies (CHR '' '' # r) out = h2_parse_cookies r out"
  by (cases r) (simp_all add: h2_parse_cookies.simps [of "_ # _"] h2_parse_cookies.simps [of "[]"])

lemma cookie_encode_Nil [simp]: "cookie_encode [] = []"
  by (simp add: cookie_encode_def)

lemma cookie_encode_Cons: "cookie_encode (kv # cks) = fst kv @ CHR ''='' # snd kv @ (if cks = [] then [] else ''; '' @ cookie_encode cks)"
  by (cases cks) (auto simp: cookie_encode_def split: prod.split)

lemma h2_parse_cookie_encode: "list_all h2_cookie_ok cks \<Longrightarrow> h2_parse_cookies (cookie_encode cks) out = put_all out cks"
proof (induction cks arbitrary: out)
  case Nil
  then show ?case by (simp add: cookie_encode_def h2_parse_cookies.simps)
next
  case (Cons kv cks)
  obtain k v where kv: "kv = (k, v)" by fastforce
  with Cons show ?case
    by (cases "cks = []") (simp_all add: cookie_encode_Cons h2_cookie_last h2_cookie_more h2_cookie_space)
qed

lemma join_crumbs:
  "fold (\<lambda>(k, v) acc. if k = ''cookie'' then (if acc \<noteq> [] then acc @ ''; '' else acc) @ v else acc) (map crumb cks) acc =
     acc @ (if acc = [] \<or> cks = [] then cookie_encode cks else ''; '' @ cookie_encode cks)"
  by (induction cks arbitrary: acc) (simp_all add: crumb_def cookie_encode_Cons)

lemma join_cookies_fields:
  assumes "list_all (\<lambda>f. plain_name (fst f)) hs"
  shows "join_cookies ((''Host'', a) # hs @ map crumb cks) = cookie_encode cks"
proof -
  have "fold (\<lambda>(k, v) acc. if k = ''cookie'' then (if acc \<noteq> [] then acc @ ''; '' else acc) @ v else acc) hs acc = acc" for acc
    using assms by (induction hs) (auto simp: plain_name_def split: prod.split)
  then show ?thesis by (simp add: join_cookies_def join_crumbs)
qed

lemma gather_headers:
  assumes "list_all (\<lambda>f. plain_name (fst f)) hs"
  shows "fold (\<lambda>(k, v) hs. if k = ''cookie'' then hs else hdr_set k v hs) ((''Host'', a) # hs @ map crumb cks) acc =
         fold (\<lambda>(k, v). hdr_set k v) ((''Host'', a) # hs) acc"
proof -
  have "fold (\<lambda>(k, v) hs. if k = ''cookie'' then hs else hdr_set k v hs) (map crumb cks) acc = acc" for acc
    by (induction cks) (simp_all add: crumb_def)
  moreover have "fold (\<lambda>(k, v) hs. if k = ''cookie'' then hs else hdr_set k v hs) hs acc = fold (\<lambda>(k, v). hdr_set k v) hs acc" for acc
    using assms by (induction hs arbitrary: acc) (auto simp: plain_name_def split: prod.split)
  ultimately show ?thesis by simp
qed

lemma put_headers_alt:
  "\<exists>st. put_headers hs r = r\<lparr>owned_header_storage := st, req_headers := fold (\<lambda>(k, v). hdr_set k v) hs (req_headers r)\<rparr>"
proof (induction hs arbitrary: r)
  case Nil
  have "put_headers [] r = r\<lparr>owned_header_storage := owned_header_storage r, req_headers := fold (\<lambda>(k, v). hdr_set k v) [] (req_headers r)\<rparr>"
    by (simp add: put_headers_def)
  then show ?case by blast
next
  case (Cons h hs)
  obtain k v where h: "h = (k, v)" by fastforce
  obtain st where "put_headers hs (set_header k v r) =
      (set_header k v r)\<lparr>owned_header_storage := st, req_headers := fold (\<lambda>(k, v). hdr_set k v) hs (req_headers (set_header k v r))\<rparr>"
    using Cons by blast
  with h show ?case by (intro exI [of _ st]) (simp add: put_headers_def set_header_def)
qed

lemma iequals_Cookie: "iequals k ''Cookie'' \<longleftrightarrow> iequals k ''cookie''"
proof -
  have "map tolower ''Cookie'' = map tolower ''cookie''" by code_simp
  then show ?thesis by (simp only: iequals_iff)
qed

lemma no_cookie_found:
  assumes "list_all (\<lambda>f. plain_name (fst f)) hs" "hdr_find ''Cookie'' acc = None"
  shows "hdr_find ''Cookie'' (fold (\<lambda>(k, v). hdr_set k v) hs acc) = None"
  using assms
proof (induction hs arbitrary: acc)
  case (Cons h hs)
  have "\<not> iequals (fst h) ''Cookie''" using Cons.prems(1) by (simp add: plain_name_def iequals_Cookie)
  with Cons show ?case by (cases h) simp
qed simp

text \<open>The target is decoded as in HTTP/1.1.\<close>

lemma same_target:
  "apply_request_target u (empty_request\<lparr>req_method := parse_method m, req_uri := u, req_target := u, req_body := b, req_headers := hs, req_cookies := ck\<rparr>) =
     (case put_target m u empty_request of Inl _ \<Rightarrow> None | Inr r \<Rightarrow> Some (r\<lparr>req_body := b, req_headers := hs, req_cookies := ck\<rparr>))"
proof -
  obtain path q where "split_at (CHR ''?'') u = (path, q)" by fastforce
  then show ?thesis
    by (cases "percent_decode False True path"; cases q; cases "parse_urlencoded (the q) Map.empty")
       (simp_all add: apply_request_target_def put_target_def empty_request_def)
qed

lemma gather_h2_fields:
  assumes "list_all (\<lambda>f. plain_name (fst f)) hs" "list_all h2_cookie_ok cks"
  shows "gather_fields (new_stream\<lparr>backing_uri := path, backing_headers := (''Host'', a) # hs @ map crumb cks,
           ctx_request := empty_request\<lparr>req_method := m, req_uri := path, req_target := path\<rparr>, backing_body := b\<rparr>) =
    empty_request\<lparr>req_method := m, req_uri := path, req_target := path, req_body := b,
      req_headers := fold (\<lambda>(k, v). hdr_set k v) (h1_headers a hs cks) [], req_cookies := put_all Map.empty cks\<rparr>"
proof -
  have e: "cookie_encode cks = [] \<longleftrightarrow> cks = []" by (cases cks) (simp_all add: cookie_encode_Cons)
  show ?thesis
    unfolding gather_fields_def Let_def
    using join_cookies_fields [OF assms(1), of a cks] gather_headers [OF assms(1), of a cks "[]"] h2_parse_cookie_encode [OF assms(2), of Map.empty] e
    by (cases "cks = []") (simp_all add: h1_headers_def empty_request_def)
qed

lemma h1_cookies:
  assumes "list_all (\<lambda>f. plain_name (fst f)) hs" "list_all h2_cookie_ok cks" "req_headers r = []" "req_cookies r = Map.empty"
  shows "(put_cookies (put_headers (h1_headers a hs cks) r))\<lparr>owned_header_storage := []\<rparr> =
    r\<lparr>owned_header_storage := [], req_headers := fold (\<lambda>(k, v). hdr_set k v) (h1_headers a hs cks) [], req_cookies := put_all Map.empty cks\<rparr>"
proof -
  obtain st where st: "put_headers (h1_headers a hs cks) r =
      r\<lparr>owned_header_storage := st, req_headers := fold (\<lambda>(k, v). hdr_set k v) (h1_headers a hs cks) []\<rparr>"
    using put_headers_alt [of "h1_headers a hs cks" r] assms(3) by auto
  have host: "\<not> iequals ''Host'' ''Cookie''" by (simp add: iequals_iff)
  have ok: "list_all cookie_ok cks" using assms(2) by (auto simp: list_all_iff h2_cookie_ok_def)
  show ?thesis
  proof (cases "cks = []")
    case True
    have "hdr_find ''Cookie'' (fold (\<lambda>(k, v). hdr_set k v) hs [(''Host'', a)]) = None"
      by (rule no_cookie_found [OF assms(1)]) (simp add: host)
    with True st assms(3,4) show ?thesis by (simp add: put_cookies_def h1_headers_def)
  next
    case False
    have "hdr_find ''Cookie'' (fold (\<lambda>(k, v). hdr_set k v) (h1_headers a hs cks) []) = Some (cookie_encode cks)"
      using False by (simp add: h1_headers_def iequals_Cookie iequals_sym)
    with st assms(3,4) parse_cookie_encode [OF ok, of Map.empty] show ?thesis by (simp add: put_cookies_def)
  qed
qed

definition refusal :: "string \<Rightarrow> int \<Rightarrow> h2_call" where
  "refusal now st = SubmitResponse (build_response_headers now (new_response\<lparr>status_code := st\<rparr>)) False"

lemma dispatched_request:
  assumes "list_all (\<lambda>f. plain_name (fst f)) hs" "list_all h2_cookie_ok cks"
    "c = new_stream\<lparr>backing_uri := path, backing_headers := (''Host'', a) # hs @ map crumb cks,
           ctx_request := empty_request\<lparr>req_method := parse_method m, req_uri := path, req_target := path\<rparr>, backing_body := b\<rparr>"
  shows "view i (dispatch_stream now i c s) =
    (case h1_request m path a hs cks b of
       Inl _ \<Rightarrow> view i (h2_call i (refusal now 400) (set_stream i (c\<lparr>ctx_request := gather_fields c\<rparr>) s))
     | Inr r \<Rightarrow>
         (let r' = r\<lparr>http_version := ''HTTP/2'', client_ip := h2_client_ip s, peer_ip := h2_client_ip s\<rparr>
          in view i (h2_enqueue i (RunHandler r') (set_writer i (new_h2_writer (req_method r' = HEAD) b)
               (set_stream i (c\<lparr>ctx_request := r', has_writer := True\<rparr>) s)))))"
proof -
  let ?H = "fold (\<lambda>(k, v). hdr_set k v) (h1_headers a hs cks) []" and ?K = "put_all Map.empty cks"
  have g: "gather_fields c = empty_request\<lparr>req_method := parse_method m, req_uri := path, req_target := path, req_body := b, req_headers := ?H, req_cookies := ?K\<rparr>"
    unfolding assms(3) by (rule gather_h2_fields [OF assms(1,2)])
  have c: "backing_uri c = path" "backing_body c = b" using assms(3) by simp_all
  show ?thesis
  proof (cases "put_target m path empty_request")
    case (Inl e)
    then show ?thesis using same_target [where u = path and m = m and b = b and hs = ?H and ck = ?K]
      by (simp add: dispatch_stream_def Let_def g c h1_request_def submit_status_locked_def refusal_def)
  next
    case (Inr r)
    have r: "req_headers r = []" "req_cookies r = Map.empty" "owned_header_storage r = []"
      using Inr by (auto simp: put_target_def empty_request_def Let_def split: option.splits prod.splits)
    then have o: "r\<lparr>owned_header_storage := []\<rparr> = r" by (cases r) simp
    let ?X = "put_cookies (put_headers (h1_headers a hs cks) r)"
    have "?X\<lparr>req_body := b, owned_header_storage := []\<rparr> = (?X\<lparr>owned_header_storage := []\<rparr>)\<lparr>req_body := b\<rparr>" by simp
    also have "\<dots> = (r\<lparr>req_headers := ?H, req_cookies := ?K\<rparr>)\<lparr>req_body := b\<rparr>"
      unfolding h1_cookies [OF assms(1,2) r(1,2)] o ..
    finally have "?X\<lparr>req_body := b, owned_header_storage := []\<rparr> = r\<lparr>req_body := b, req_headers := ?H, req_cookies := ?K\<rparr>" by simp
    with Inr same_target [where u = path and m = m and b = b and hs = ?H and ck = ?K] show ?thesis
      by (simp add: dispatch_stream_def Let_def g c h1_request_def)
  qed
qed

text \<open>
  C2: A request over HTTP/2 is the one that HTTP/1.1 would have given. However its frames are interleaved with those of other streams
  and its body is cut into pieces, the request with a method, target, authority, header fields and one field per cookie reaches the
  router exactly once, with the decoded path and query, header fields, cookies and body that the HTTP/1.1 parser makes of the same
  method, target, fields and joined Cookie field (and the version, client and peer address of the connection); unless its body is
  over the limit (then it is refused with 413 and not dispatched) or its target does not decode (then with 400).
\<close>

theorem h2_request_as_http1:
  assumes "filter (\<lambda>e. event_stream e = i) es = request_events i now (h2_fields m scheme path a hs cks) cs ty" "ty \<noteq> OTHER"
    "list_all (\<lambda>f. plain_name (fst f)) hs" "list_all h2_cookie_ok cks"
  shows "(let v = view i (h2_run pread es (new_session ip limit_bytes)) in (v_pool v, v_calls v)) =
    (if length (concat cs) > limit_bytes then ([], [refusal now 413])
     else case h1_request m path a hs cks (concat cs) of
            Inl _ \<Rightarrow> ([], [refusal now 400])
          | Inr r \<Rightarrow> ([RunHandler (r\<lparr>http_version := ''HTTP/2'', client_ip := ip, peer_ip := ip\<rparr>)], []))"
proof -
  let ?s = "new_session ip limit_bytes"
  let ?c = "new_stream\<lparr>backing_uri := path, backing_headers := (''Host'', a) # hs @ map crumb cks,
               ctx_request := empty_request\<lparr>req_method := parse_method m, req_uri := path, req_target := path\<rparr>\<rparr>"
  have c: "\<not> body_too_large ?c" "length (backing_body ?c) \<le> limit_bytes" by (simp_all add: new_stream_def)
  have s: "h2_max_body_size ?s = limit_bytes" "h2_client_ip ?s = ip" "v_pool (view i ?s) = []" "v_calls (view i ?s) = []"
    by (simp_all add: new_session_def view_def of_stream_def)
  have "view i (h2_run pread es ?s) = view i (h2_run pread (request_events i now (h2_fields m scheme path a hs cks) cs ty) ?s)"
    using view_run [of i ?s ?s pread es] assms(1) by simp
  then have v: "view i (h2_run pread es ?s) = view i (let c' = fold (add_body limit_bytes) cs ?c
      in if body_too_large c' then submit_status_locked now i 413 (set_stream i c' ?s) else dispatch_stream now i c' (set_stream i c' ?s))"
    using run_request [OF assms(2), of i pread now "h2_fields m scheme path a hs cks" cs ?s] put_h2_fields [OF assms(3)] s(1) by (simp add: Let_def)
  show ?thesis
  proof (cases "length (concat cs) > limit_bytes")
    case True
    with v add_bodies [OF c, of cs] s show ?thesis by (simp add: submit_status_locked_def refusal_def new_stream_def)
  next
    case False
    let ?d = "?c\<lparr>backing_body := concat cs\<rparr>"
    have b: "fold (add_body limit_bytes) cs ?c = ?d" using add_bodies [OF c, of cs] False by (simp add: new_stream_def)
    have ip: "h2_client_ip (set_stream i ?d ?s) = ip" using s by (simp add: set_stream_def)
    show ?thesis
      unfolding v b Let_def using False s ip c(1) dispatched_request [OF assms(3,4), where c = ?d and path = path and a = a and m = m and b = "concat cs" and i = i and now = now and s = "set_stream i ?d ?s"]
      by (cases "h1_request m path a hs cks (concat cs)") (simp_all add: Let_def)
  qed
qed

definition h2_sample :: "h2_event list" where
  "h2_sample =
     [BeginHeaders 1 HEADERS True, Header 1 HEADERS True '':method'' ''POST'', BeginHeaders 3 HEADERS True, Header 1 HEADERS True '':scheme'' ''https'',
      Header 1 HEADERS True '':path'' ''/a%20b?x=1'', Header 1 HEADERS True '':authority'' ''h'', Header 1 HEADERS True ''accept'' ''*/*'',
      Header 1 HEADERS True ''cookie'' ''u=v'', FrameRecv 1 [] HEADERS False, DataChunk 1 ''ab'', FrameRecv 1 [] DATA False, StreamClose 3,
      DataChunk 1 ''c'', FrameRecv 1 [] DATA False, FrameRecv 1 [] DATA True]"

theorem h2_request_as_http1_witness:
  "(let v = view 1 (h2_run (\<lambda>_ _ _. None) h2_sample (new_session ''ip'' 10)) in (v_pool v, v_calls v)) =
    (case h1_request ''POST'' ''/a%20b?x=1'' ''h'' [(''accept'', ''*/*'')] [(''u'', ''v'')] ''abc'' of
       Inl _ \<Rightarrow> ([], [refusal [] 400])
     | Inr r \<Rightarrow> ([RunHandler (r\<lparr>http_version := ''HTTP/2'', client_ip := ''ip'', peer_ip := ''ip''\<rparr>)], []))"
proof -
  have n: "\<not> iequals ''accept'' ''cookie''" by (simp add: iequals_iff) code_simp
  have "filter (\<lambda>e. event_stream e = 1) h2_sample =
      request_events 1 [] (h2_fields ''POST'' ''https'' ''/a%20b?x=1'' ''h'' [(''accept'', ''*/*'')] [(''u'', ''v'')]) [''ab'', ''c''] DATA"
    by (simp add: h2_sample_def request_events_def h2_fields_def crumb_def)
  from h2_request_as_http1 [OF this, of "\<lambda>_ _ _. None" "''ip''" 10] show ?thesis
    by (simp add: plain_name_def h2_cookie_ok_def cookie_ok_def n)
qed


section \<open>Streamed responses\<close>

text \<open>The bytes that are left to send, and those that were sent.\<close>

definition unsent :: "StreamContext \<Rightarrow> string" where
  "unsent c = drop (response_offset c) (response_body c)"

fun result_text :: "read_result \<Rightarrow> string" where
  "result_text (Bytes b _) = b"
| "result_text _ = []"

definition wire_text :: "read_result list \<Rightarrow> string" where
  "wire_text rs = concat (map result_text rs)"

definition says_last :: "read_result list \<Rightarrow> bool" where
  "says_last rs \<longleftrightarrow> (\<exists>b. Bytes b True \<in> set rs)"

text \<open>
  What the handler may do to a response it streams, and what it writes up to the end. nghttp2 asks for the bytes of a frame it has
  room for, never for none.
\<close>

fun body_event :: "h2_event \<Rightarrow> bool" where
  "body_event (ProviderRead _ n) = (n > 0)"
| "body_event (WSend _ _ _) = True"
| "body_event (WSendHeaders _ _ _) = True"
| "body_event (WChunk _ _) = True"
| "body_event (WEnd _) = True"
| "body_event (WSse _ _ _ _) = True"
| "body_event (WClosed _) = True"
| "body_event _ = False"

fun written :: "h2_event list \<Rightarrow> string" where
  "written [] = []"
| "written (WChunk _ s # es) = s @ written es"
| "written (WSse _ d e n # es) = sse_message d e n @ written es"
| "written (WEnd _ # es) = []"
| "written (_ # es) = written es"

fun is_end :: "h2_event \<Rightarrow> bool" where
  "is_end (WEnd _) = True"
| "is_end _ = False"

definition streams_body :: "int \<Rightarrow> StreamContext \<Rightarrow> h2_session \<Rightarrow> bool" where
  "streams_body i c s \<longleftrightarrow>
     stream_at s i = Some c \<and> streaming c \<and> ctx_file_fd c = - 1 \<and> response_offset c \<le> length (response_body c) \<and>
     (\<exists>w. writer_at s i = Some w \<and> h2_headers_sent w)"

definition sends :: "int \<Rightarrow> StreamContext \<Rightarrow> h2_session \<Rightarrow> string \<Rightarrow> bool \<Rightarrow> h2_session \<Rightarrow> bool" where
  "sends i c s text_written ends s' \<longleftrightarrow>
     (\<exists>c' rs. streams_body i c' s' \<and> stream_ended c' = (stream_ended c \<or> ends) \<and> v_wire (view i s') = v_wire (view i s) @ rs \<and>
        wire_text rs @ unsent c' = unsent c @ (if stream_ended c then [] else text_written) \<and> (says_last rs \<longrightarrow> stream_ended c' \<and> unsent c' = []))"

lemma read_streamed:
  assumes "data_provider_read pread n c = (r, c')" "streaming c" "ctx_file_fd c = - 1" "response_offset c \<le> length (response_body c)" "n > 0"
  shows "streaming c' \<and> ctx_file_fd c' = - 1 \<and> response_offset c' \<le> length (response_body c') \<and> stream_ended c' = stream_ended c \<and>
    result_text r @ unsent c' = unsent c \<and> (\<forall>b. r = Bytes b True \<longrightarrow> stream_ended c \<and> unsent c' = [])"
proof -
  define k where "k = min n (length (response_body c) - response_offset c)"
  consider "k = 0" | "k \<noteq> 0" "response_offset c + k \<ge> length (response_body c)" | "k \<noteq> 0" "response_offset c + k < length (response_body c)" by linarith
  then show ?thesis
  proof cases
    case 1
    then have e: "unsent c = []" using assms(4,5) by (simp add: k_def unsent_def min_def split: if_splits)
    have "data_provider_read pread n c = (if stream_ended c then (Bytes [] True, c) else (Deferred, c))"
      using 1 assms(2,3) by (simp add: data_provider_read_def k_def [symmetric] Let_def)
    with e assms(1-4) show ?thesis by (auto split: if_splits)
  next
    case 2
    then have "data_provider_read pread n c = (if stream_ended c then (Bytes (take k (unsent c)) True, c\<lparr>response_offset := response_offset c + k\<rparr>)
        else (Bytes (take k (unsent c)) False, c\<lparr>response_body := [], response_offset := 0\<rparr>))"
      using assms(2,3) by (simp add: data_provider_read_def k_def [symmetric] Let_def unsent_def)
    moreover have "take k (unsent c) = unsent c" "response_offset c + k = length (response_body c)"
      using 2 assms(4) by (auto simp: k_def unsent_def)
    ultimately show ?thesis using assms by (auto simp: unsent_def split: if_splits)
  next
    case 3
    then have "data_provider_read pread n c = (Bytes (take k (unsent c)) False, c\<lparr>response_offset := response_offset c + k\<rparr>)"
      using assms(2,3) by (simp add: data_provider_read_def k_def [symmetric] Let_def unsent_def)
    moreover have "take k (unsent c) @ drop (response_offset c + k) (response_body c) = unsent c"
      by (metis add.commute append_take_drop_id drop_drop unsent_def)
    ultimately show ?thesis using assms 3 by (auto simp: unsent_def)
  qed
qed

lemma sends_same: "stream_at s i = Some c \<Longrightarrow> streams_body i c s' \<Longrightarrow> v_wire (view i s') = v_wire (view i s) \<Longrightarrow> sends i c s [] False s'"
  unfolding sends_def by (intro exI [of _ c] exI [of _ "[]"]) (simp add: wire_text_def says_last_def)

lemma sends_step:
  assumes "streams_body i c s" "body_event e" "event_stream e = i"
  shows "sends i c s (written [e]) (is_end e) (h2_step pread e s)"
proof -
  from assms(1) obtain w where c: "stream_at s i = Some c" "streaming c" "ctx_file_fd c = - 1" "response_offset c \<le> length (response_body c)"
    and w: "writer_at s i = Some w" "h2_headers_sent w"
    by (auto simp: streams_body_def)
  have ends: "streams_body i c' s'" if "v_stream (view i s') = Some c'" "v_writer (view i s') = Some w'" "h2_headers_sent w'" "streaming c'"
    "ctx_file_fd c' = - 1" "response_offset c' \<le> length (response_body c')" for c' s' w'
    using that by (auto simp: streams_body_def view_sel)
  have chunk: "sends i c s x False (h2_write_chunk x i w s)" for x
  proof (cases "x = [] \<or> stream_ended c")
    case True
    then have "view i (h2_write_chunk x i w s) = (view i s)\<lparr>v_writer := Some (w\<lparr>responded := True\<rparr>)\<rparr>"
      using c by (auto simp: h2_write_chunk_def submit_data_def Let_def)
    then have "streams_body i c (h2_write_chunk x i w s)" "v_wire (view i (h2_write_chunk x i w s)) = v_wire (view i s)"
      using c w by (auto intro!: ends simp: view_sel)
    with sends_same c(1) True show ?thesis
      unfolding sends_def by (intro exI [of _ c] exI [of _ "[]"]) (auto simp: wire_text_def says_last_def)
  next
    case False
    let ?c = "c\<lparr>response_body := response_body c @ x\<rparr>"
    have "view i (h2_write_chunk x i w s) = (view i s)\<lparr>v_writer := Some (w\<lparr>responded := True\<rparr>), v_stream := Some ?c, v_calls := v_calls (view i s) @ [ResumeData]\<rparr>"
      using c False by (simp add: h2_write_chunk_def submit_data_def Let_def)
    then have "streams_body i ?c (h2_write_chunk x i w s)" "v_wire (view i (h2_write_chunk x i w s)) = v_wire (view i s)"
      using c w by (auto intro!: ends simp: view_sel)
    with False c show ?thesis
      unfolding sends_def by (intro exI [of _ ?c] exI [of _ "[]"]) (simp add: wire_text_def says_last_def unsent_def)
  qed
  show ?thesis
  proof (cases e)
    case (ProviderRead j n)
    obtain r c' where r: "data_provider_read pread n c = (r, c')" by fastforce
    have "n > 0" using assms(2) ProviderRead by simp
    note p = read_streamed [OF r c(2-4) this]
    have "view i (h2_step pread e s) = (view i s)\<lparr>v_stream := Some c', v_wire := v_wire (view i s) @ [r]\<rparr>"
      using ProviderRead assms(3) c(1) r by (simp add: provider_read_def view_sel)
    then have "streams_body i c' (h2_step pread e s)" "v_wire (view i (h2_step pread e s)) = v_wire (view i s) @ [r]"
      using p w by (auto intro!: ends simp: view_sel)
    with p ProviderRead show ?thesis
      unfolding sends_def by (intro exI [of _ c'] exI [of _ "[r]"]) (auto simp: wire_text_def says_last_def)
  next
    case (WSend j now x)
    have "view i (h2_step pread e s) = view i (close_fd i (file_fd x) (set_writer i (w\<lparr>responded := True\<rparr>) s))"
      using WSend assms(3) w by (simp add: with_writer_def h2_send_def)
    then have "streams_body i c (h2_step pread e s)" "v_wire (view i (h2_step pread e s)) = v_wire (view i s)"
      using c w by (auto intro!: ends simp: view_sel)
    with sends_same c(1) WSend show ?thesis by simp
  next
    case (WSendHeaders j now x)
    have "view i (h2_step pread e s) = view i (close_fd i (file_fd x) (set_writer i (w\<lparr>responded := True\<rparr>) s))"
      using WSendHeaders assms(3) w by (simp add: with_writer_def h2_send_headers_def)
    then have "streams_body i c (h2_step pread e s)" "v_wire (view i (h2_step pread e s)) = v_wire (view i s)"
      using c w by (auto intro!: ends simp: view_sel)
    with sends_same c(1) WSendHeaders show ?thesis by simp
  next
    case (WClosed j)
    have "view i (h2_step pread e s) = view i (set_writer i (mark_closed w) s)" "h2_headers_sent (mark_closed w)"
      using WClosed assms(3) w by (simp_all add: run_mark_closed_def with_writer_def mark_closed_def)
    then have "streams_body i c (h2_step pread e s)" "v_wire (view i (h2_step pread e s)) = v_wire (view i s)"
      using c w by (auto intro!: ends simp: view_sel)
    with sends_same c(1) WClosed show ?thesis by simp
  next
    case (WEnd j)
    have v: "view i (h2_step pread e s) = (if stream_ended c then (view i s)\<lparr>v_writer := Some (w\<lparr>responded := True\<rparr>)\<rparr>
        else (view i s)\<lparr>v_writer := Some (w\<lparr>responded := True\<rparr>), v_stream := Some (c\<lparr>stream_ended := True\<rparr>), v_calls := v_calls (view i s) @ [ResumeData]\<rparr>)"
      using WEnd assms(3) c w by (simp add: with_writer_def h2_end_def end_stream_def)
    let ?c = "if stream_ended c then c else c\<lparr>stream_ended := True\<rparr>"
    have "streams_body i ?c (h2_step pread e s)" "v_wire (view i (h2_step pread e s)) = v_wire (view i s)"
      using v c w by (auto intro!: ends simp: view_sel)
    with WEnd show ?thesis
      unfolding sends_def by (intro exI [of _ ?c] exI [of _ "[]"]) (simp add: wire_text_def says_last_def unsent_def)
  next
    case (WChunk j x)
    then show ?thesis using chunk assms(3) w by (simp add: with_writer_def)
  next
    case (WSse j d ev n)
    then show ?thesis using chunk assms(3) w by (simp add: with_writer_def h2_send_sse_event_def)
  qed (use assms(2) in simp_all)
qed

lemma sends_run:
  assumes "streams_body i c s" "list_all (\<lambda>e. body_event e \<and> event_stream e = i) es"
  shows "sends i c s (written es) (list_ex is_end es) (h2_run pread es s)"
  using assms
proof (induction es arbitrary: c s)
  case Nil
  then have "stream_at s i = Some c" by (simp add: streams_body_def)
  with Nil show ?case by (simp add: sends_same)
next
  case (Cons e es)
  let ?s = "h2_step pread e s"
  obtain c1 rs1 where 1: "streams_body i c1 ?s" "stream_ended c1 = (stream_ended c \<or> is_end e)" "v_wire (view i ?s) = v_wire (view i s) @ rs1"
    "wire_text rs1 @ unsent c1 = unsent c @ (if stream_ended c then [] else written [e])" "says_last rs1 \<Longrightarrow> stream_ended c1 \<and> unsent c1 = []"
    using sends_step [of i c s e pread] Cons.prems by (auto simp: sends_def)
  obtain c2 rs2 where 2: "streams_body i c2 (h2_run pread es ?s)" "stream_ended c2 = (stream_ended c1 \<or> list_ex is_end es)"
    "v_wire (view i (h2_run pread es ?s)) = v_wire (view i ?s) @ rs2"
    "wire_text rs2 @ unsent c2 = unsent c1 @ (if stream_ended c1 then [] else written es)" "says_last rs2 \<Longrightarrow> stream_ended c2 \<and> unsent c2 = []"
    using Cons.IH [OF 1(1)] Cons.prems by (auto simp: sends_def)
  have w: "(if stream_ended c then [] else written [e]) @ (if stream_ended c1 then [] else written es) = (if stream_ended c then [] else written (e # es))"
    using 1(2) Cons.prems(2) by (cases e) auto
  have "wire_text (rs1 @ rs2) @ unsent c2 = wire_text rs1 @ unsent c1 @ (if stream_ended c1 then [] else written es)"
    using 2(4) by (simp add: wire_text_def)
  also have "\<dots> = (unsent c @ (if stream_ended c then [] else written [e])) @ (if stream_ended c1 then [] else written es)"
    unfolding 1(4) [symmetric] by (simp only: append.assoc)
  also have "\<dots> = unsent c @ (if stream_ended c then [] else written (e # es))" unfolding append.assoc w ..
  finally have t: "wire_text (rs1 @ rs2) @ unsent c2 = unsent c @ (if stream_ended c then [] else written (e # es))" .
  have l: "stream_ended c2 \<and> unsent c2 = []" if "says_last (rs1 @ rs2)"
  proof (cases "says_last rs2")
    case False
    with that have "says_last rs1" by (auto simp: says_last_def)
    with 1(5) have "stream_ended c1" "unsent c1 = []" by simp_all
    with 2(2,4) show ?thesis by simp
  qed (use 2(5) in simp)
  show ?case
    unfolding sends_def by (intro exI [of _ c2] exI [of _ "rs1 @ rs2"]) (use 1 2 t l in auto)
qed

lemma streams_body_view:
  "streams_body i c s \<longleftrightarrow>
     v_stream (view i s) = Some c \<and> streaming c \<and> ctx_file_fd c = - 1 \<and> response_offset c \<le> length (response_body c) \<and>
     (\<exists>w. v_writer (view i s) = Some w \<and> h2_headers_sent w)"
  by (simp add: streams_body_def view_def)

text \<open>Reads alone, once the response has ended.\<close>

lemma read_ended_progress:
  assumes "data_provider_read pread n c = (r, c')" "ctx_file_fd c = - 1" "stream_ended c" "n > 0"
  shows "(\<exists>b. r = Bytes b True) \<or> result_text r \<noteq> []"
  using assms by (auto simp: data_provider_read_def Let_def min_def split: if_splits)

lemma reads_reach_end:
  assumes "streams_body i c s" "stream_ended c" "list_all (\<lambda>n. n > 0) ns" "length ns > length (unsent c)"
  shows "\<exists>rs. v_wire (view i (h2_run pread (map (ProviderRead i) ns) s)) = v_wire (view i s) @ rs \<and> says_last rs"
  using assms
proof (induction ns arbitrary: c s)
  case (Cons n ns)
  let ?s = "h2_step pread (ProviderRead i n) s"
  obtain r c' where r: "data_provider_read pread n c = (r, c')" by fastforce
  have c: "stream_at s i = Some c" "streaming c" "ctx_file_fd c = - 1" "response_offset c \<le> length (response_body c)"
    using Cons.prems(1) by (auto simp: streams_body_def)
  have n: "n > 0" using Cons.prems(3) by simp
  note p = read_streamed [OF r c(2-4) n]
  have v: "view i ?s = (view i s)\<lparr>v_stream := Some c', v_wire := v_wire (view i s) @ [r]\<rparr>"
    using c(1) r by (simp add: provider_read_def view_sel)
  have sb: "streams_body i c' ?s" using p v Cons.prems(1) by (auto simp: streams_body_def view_sel [where i = i])
  have w: "v_wire (view i ?s) = v_wire (view i s) @ [r]" using v by simp
  obtain rs' where rest: "v_wire (view i (h2_run pread (map (ProviderRead i) ns) ?s)) = v_wire (view i ?s) @ rs'"
  proof -
    have "sends i c' ?s (written (map (ProviderRead i) ns)) (list_ex is_end (map (ProviderRead i) ns)) (h2_run pread (map (ProviderRead i) ns) ?s)"
      using Cons.prems(3) by (intro sends_run [OF sb]) (simp add: list_all_iff)
    with that show ?thesis by (auto simp: sends_def)
  qed
  show ?case
  proof (cases "\<exists>b. r = Bytes b True")
    case True
    with rest w show ?thesis by (intro exI [of _ "r # rs'"]) (auto simp: says_last_def)
  next
    case False
    with read_ended_progress [OF r c(3) Cons.prems(2) n] have "result_text r \<noteq> []" by blast
    with p have "length (unsent c') < length (unsent c)" by (metis length_append length_greater_0_conv less_add_same_cancel2)
    with Cons.IH [OF sb] Cons.prems p obtain rs where
      "v_wire (view i (h2_run pread (map (ProviderRead i) ns) ?s)) = v_wire (view i ?s) @ rs" "says_last rs" by auto
    with w show ?thesis by (intro exI [of _ "r # rs"]) (auto simp: says_last_def)
  qed
qed simp

text \<open>
  C16: A response streamed over HTTP/2 arrives whole and in order. From the moment its head is submitted, whatever else happens on
  the connection and however the handler's writes and nghttp2's reads are interleaved: the bytes handed to nghttp2, followed by those
  not handed over yet, are the body the head came with followed by everything written before the end, in order; the end of the stream
  is not announced before the handler has ended the response and all bytes are handed over; and once it has ended it, every sequence
  of reads longer than what is left announces it.
\<close>

theorem h2_streamed_body_delivered:
  assumes "stream_at s i = Some c" "\<not> stream_ended c" "writer_at s i = Some w" "\<not> h2_headers_sent w" "\<not> suppress_body w"
    "file_fd (prepare_response (w\<lparr>responded := True\<rparr>) res) = - 1" "v_wire (view i s) = []"
    "list_all body_event (filter (\<lambda>e. event_stream e = i) es)" "list_all (\<lambda>n. n > 0) ns"
  shows "let body = res_body (prepare_response (w\<lparr>responded := True\<rparr>) res) @ written (filter (\<lambda>e. event_stream e = i) es);
             s' = h2_run pread (WSendHeaders i now res # es) s; rs = v_wire (view i s');
             rs' = v_wire (view i (h2_run pread (map (ProviderRead i) ns) s'))
         in (\<exists>left. wire_text rs @ left = body \<and> (says_last rs \<longrightarrow> left = [] \<and> list_ex is_end (filter (\<lambda>e. event_stream e = i) es)) \<and>
               (list_ex is_end (filter (\<lambda>e. event_stream e = i) es) \<and> length ns > length left \<longrightarrow> says_last rs' \<and> wire_text rs' = body))"
proof -
  let ?mine = "filter (\<lambda>e. event_stream e = i) es" and ?r = "prepare_response (w\<lparr>responded := True\<rparr>) res"
  let ?c = "c\<lparr>response_body := res_body ?r, response_offset := 0, streaming := True, ctx_file_fd := - 1, ctx_file_size := file_size ?r, ctx_file_offset := file_offset ?r\<rparr>"
  let ?s1 = "h2_step pread (WSendHeaders i now res) s"
  have "view i ?s1 = (view i s)\<lparr>v_writer := Some (w\<lparr>responded := True, h2_headers_sent := True\<rparr>), v_stream := Some ?c,
      v_calls := v_calls (view i s) @ [SubmitResponse (build_response_headers now ?r) True]\<rparr>"
    using assms(1-6) by (simp add: with_writer_def h2_send_headers_def submit_response_def Let_def)
  then have s1: "streams_body i ?c ?s1" "v_wire (view i ?s1) = []"
    using assms(7) by (auto simp: streams_body_def view_sel [where i = i])
  have mine: "list_all (\<lambda>e. body_event e \<and> event_stream e = i) ?mine" using assms(8) by (auto simp: list_all_iff)
  obtain c2 rs where 2: "streams_body i c2 (h2_run pread ?mine ?s1)" "stream_ended c2 = list_ex is_end ?mine" "v_wire (view i (h2_run pread ?mine ?s1)) = rs"
    "wire_text rs @ unsent c2 = res_body ?r @ written ?mine" "says_last rs \<Longrightarrow> stream_ended c2 \<and> unsent c2 = []"
    using sends_run [OF s1(1) mine, of pread] s1(2) assms(2) by (auto simp: sends_def unsent_def)
  let ?s' = "h2_run pread (WSendHeaders i now res # es) s"
  have v: "view i ?s' = view i (h2_run pread ?mine ?s1)" using view_run [OF refl, of i pread es ?s1] by simp
  have s': "streams_body i c2 ?s'" using 2(1) unfolding streams_body_view v .
  let ?s'' = "h2_run pread (map (ProviderRead i) ns) ?s'"
  have "sends i c2 ?s' [] False ?s''"
  proof -
    have w: "written (map (ProviderRead i) ns) = []" "\<not> list_ex is_end (map (ProviderRead i) ns)" by (induction ns) simp_all
    have "list_all (\<lambda>e. body_event e \<and> event_stream e = i) (map (ProviderRead i) ns)" using assms(9) by (simp add: list_all_iff)
    from sends_run [OF s' this, of pread] w show ?thesis by simp
  qed
  then obtain c3 rs3 where 3: "v_wire (view i ?s'') = rs @ rs3" "wire_text rs3 @ unsent c3 = unsent c2" "says_last rs3 \<Longrightarrow> unsent c3 = []"
    using v 2(3) by (auto simp: sends_def)
  have last: "says_last (rs @ rs3) \<and> wire_text (rs @ rs3) = res_body ?r @ written ?mine"
    if e: "list_ex is_end ?mine" "length ns > length (unsent c2)"
  proof -
    obtain rs4 where "v_wire (view i ?s'') = v_wire (view i ?s') @ rs4" "says_last rs4"
      using reads_reach_end [OF s' _ assms(9) e(2)] e(1) 2(2) by auto
    then have "says_last rs3" using 3(1) v 2(3) by simp
    with 2(4) 3(2,3) show ?thesis by (auto simp: says_last_def wire_text_def)
  qed
  show ?thesis
    unfolding Let_def using 2 3(1) v last by (intro exI [of _ "unsent c2"]) auto
qed

theorem h2_streamed_body_delivered_witness:
  "let s = set_writer 1 (new_h2_writer False []) (set_stream 1 new_stream (new_session ''ip'' 10));
       s' = h2_run (\<lambda>_ _ _. None) [WSendHeaders 1 [] new_response, ProviderRead 1 5, WChunk 1 ''hello'', ProviderRead 1 2, WChunk 3 ''x'', WChunk 1 ''!'', WEnd 1] s
   in wire_text (v_wire (view 1 (h2_run (\<lambda>_ _ _. None) (map (ProviderRead 1) (replicate 9 3)) s'))) = ''hello!''"
proof -
  let ?s = "set_writer 1 (new_h2_writer False []) (set_stream 1 new_stream (new_session ''ip'' 10))"
  let ?es = "[ProviderRead 1 5, WChunk 1 ''hello'', ProviderRead 1 2, WChunk 3 ''x'', WChunk 1 ''!'', WEnd 1]"
  have s: "stream_at ?s 1 = Some new_stream" "\<not> stream_ended new_stream" "writer_at ?s 1 = Some (new_h2_writer False [])"
    "\<not> h2_headers_sent (new_h2_writer False [])" "\<not> suppress_body (new_h2_writer False [])"
    "prepare_response ((new_h2_writer False [])\<lparr>responded := True\<rparr>) new_response = new_response" "file_fd new_response = - 1"
    "v_wire (view 1 ?s) = []" "res_body new_response = []"
    by (simp_all add: update_conv' new_stream_def new_h2_writer_def writer.defs prepare_response_def new_writer_def new_response_def
      view_def of_stream_def new_session_def set_stream_def set_writer_def)
  have f: "filter (\<lambda>e. event_stream e = 1) ?es = [ProviderRead 1 5, WChunk 1 ''hello'', ProviderRead 1 2, WChunk 1 ''!'', WEnd 1]" (is "_ = ?mine") by simp
  have m: "list_all body_event ?mine" "written ?mine = ''hello!''" "list_ex is_end ?mine" by simp_all
  have n: "list_all (\<lambda>n. n > 0) (replicate 9 (3 :: nat))" by (simp add: list_all_iff)
  have fd: "file_fd (prepare_response ((new_h2_writer False [])\<lparr>responded := True\<rparr>) new_response) = - 1" using s(6,7) by simp
  obtain left where l: "wire_text (v_wire (view 1 (h2_run (\<lambda>_ _ _. None) (WSendHeaders 1 [] new_response # ?es) ?s))) @ left = ''hello!''"
    "length (replicate 9 (3 :: nat)) > length left \<longrightarrow>
      wire_text (v_wire (view 1 (h2_run (\<lambda>_ _ _. None) (map (ProviderRead 1) (replicate 9 3)) (h2_run (\<lambda>_ _ _. None) (WSendHeaders 1 [] new_response # ?es) ?s)))) = ''hello!''"
    using h2_streamed_body_delivered [OF s(1-5) fd s(8) m(1) [folded f] n, of "\<lambda>_ _ _. None" "[]", unfolded f Let_def s(6,9) m(2) append_Nil] m(3)
    by blast
  have "length left \<le> length ''hello!''" using l(1) by (metis length_append le_add2)
  with l(2) show ?thesis unfolding Let_def by simp
qed


section \<open>Files\<close>

text \<open>
  The files a response brings to a stream. A writer that has sent its head refuses another response, whose file is closed with it.
\<close>

definition fd_set :: "int \<Rightarrow> int multiset" where
  "fd_set fd = (if fd = - 1 then {#} else {#fd#})"

definition handed_to :: "h2_session \<Rightarrow> int \<Rightarrow> HttpResponse \<Rightarrow> int multiset" where
  "handed_to s i r =
     (case writer_at s i of
        None \<Rightarrow> {#}
      | Some w \<Rightarrow> fd_set (file_fd (if h2_headers_sent w then r else prepare_response (w\<lparr>responded := True\<rparr>) r)))"

fun handed :: "h2_event \<Rightarrow> h2_session \<Rightarrow> int multiset" where
  "handed (WSend i _ r) s = handed_to s i r"
| "handed (WSendHeaders i _ r) s = handed_to s i r"
| "handed _ _ = {#}"

fun handed_all :: "(int \<Rightarrow> int \<Rightarrow> nat \<Rightarrow> string option) \<Rightarrow> int \<Rightarrow> h2_event list \<Rightarrow> h2_session \<Rightarrow> int multiset" where
  "handed_all pread i [] s = {#}"
| "handed_all pread i (e # es) s = (if event_stream e = i then handed e s else {#}) + handed_all pread i es (h2_step pread e s)"

text \<open>Promised by nghttp2: a new stream has a new number, and a request ends once.\<close>

fun nghttp2_ok :: "h2_event \<Rightarrow> h2_session \<Rightarrow> bool" where
  "nghttp2_ok (BeginHeaders i _ _) s \<longleftrightarrow> stream_at s i = None \<and> writer_at s i = None"
| "nghttp2_ok (FrameRecv i _ _ fin) s \<longleftrightarrow> (fin \<longrightarrow> writer_at s i = None)"
| "nghttp2_ok _ _ \<longleftrightarrow> True"

fun nghttp2_run_ok :: "(int \<Rightarrow> int \<Rightarrow> nat \<Rightarrow> string option) \<Rightarrow> h2_event list \<Rightarrow> h2_session \<Rightarrow> bool" where
  "nghttp2_run_ok pread [] s = True"
| "nghttp2_run_ok pread (e # es) s \<longleftrightarrow> nghttp2_ok e s \<and> nghttp2_run_ok pread es (h2_step pread e s)"

definition open_fds :: "int \<Rightarrow> h2_session \<Rightarrow> int multiset" where
  "open_fds i s = (case stream_at s i of None \<Rightarrow> {#} | Some c \<Rightarrow> fd_set (ctx_file_fd c))"

definition fds_inv :: "int \<Rightarrow> h2_session \<Rightarrow> bool" where
  "fds_inv i s \<longleftrightarrow>
     (case stream_at s i of
        None \<Rightarrow> True
      | Some c \<Rightarrow> ctx_file_fd c = - 1 \<or> (case writer_at s i of None \<Rightarrow> False | Some w \<Rightarrow> h2_headers_sent w))"

definition all_fds :: "int \<Rightarrow> h2_session \<Rightarrow> int multiset" where
  "all_fds i s = mset (v_closed (view i s)) + open_fds i s"

lemma fds_by_view:
  "open_fds i s = (case v_stream (view i s) of None \<Rightarrow> {#} | Some c \<Rightarrow> fd_set (ctx_file_fd c))"
  "fds_inv i s \<longleftrightarrow> (case v_stream (view i s) of None \<Rightarrow> True
      | Some c \<Rightarrow> ctx_file_fd c = - 1 \<or> (case v_writer (view i s) of None \<Rightarrow> False | Some w \<Rightarrow> h2_headers_sent w))"
  by (simp add: open_fds_def view_def) (cases "stream_at s i"; simp add: fds_inv_def view_def)

lemma provider_keeps_fd: "data_provider_read pread n c = (r, c') \<Longrightarrow> ctx_file_fd c' = ctx_file_fd c"
  by (auto simp: data_provider_read_def Let_def split: if_splits option.splits)

lemma put_field_fd [simp]: "ctx_file_fd (put_field k v c) = ctx_file_fd c"
  by (simp add: put_field_def)

lemma add_body_fd [simp]: "ctx_file_fd (add_body m d c) = ctx_file_fd c"
  by (simp add: add_body_def)

lemma fds_step:
  assumes "nghttp2_ok e s" "fds_inv i s" "event_stream e = i"
  shows "fds_inv i (h2_step pread e s) \<and> all_fds i (h2_step pread e s) = all_fds i s + handed e s"
proof -
  have st: "stream_at s i = v_stream (view i s)" "writer_at s i = v_writer (view i s)" by (simp_all add: view_sel)
  show ?thesis
    using assms
    by (cases e; cases "v_stream (view i s)"; cases "v_writer (view i s)")
       (auto simp: h2_ops Let_def all_fds_def fds_by_view handed_to_def st fd_set_def new_stream_def new_h2_writer_def writer.defs mark_closed_def
          dest: provider_keeps_fd split: option.split prod.split if_splits)
qed

lemma fds_other:
  assumes "event_stream e \<noteq> i"
  shows "fds_inv i (h2_step pread e s) = fds_inv i s \<and> all_fds i (h2_step pread e s) = all_fds i s"
  unfolding all_fds_def fds_by_view view_other [OF assms] by simp

lemma fds_run:
  assumes "nghttp2_run_ok pread es s" "fds_inv i s"
  shows "all_fds i (h2_run pread es s) = all_fds i s + handed_all pread i es s"
  using assms
proof (induction es arbitrary: s)
  case (Cons e es)
  then show ?case
    using fds_step [of e s i pread] fds_other [of e i pread s] by (cases "event_stream e = i") (auto simp: add.assoc)
qed simp

text \<open>
  Every file given to a stream is closed exactly once: after any events in which nghttp2 numbers streams and ends requests as it
  promises, the files closed for a stream, together with the one it still has open, are exactly the files of the responses it was
  given; and when the stream is closed none is left open.
\<close>

theorem h2_files_closed_once:
  assumes "nghttp2_run_ok pread es (new_session ip limit_bytes)"
  shows "mset (v_closed (view i (h2_run pread es (new_session ip limit_bytes)))) + open_fds i (h2_run pread es (new_session ip limit_bytes)) =
           handed_all pread i es (new_session ip limit_bytes) \<and>
         open_fds i (h2_run pread (es @ [StreamClose i]) (new_session ip limit_bytes)) = {#}"
proof
  show "mset (v_closed (view i (h2_run pread es (new_session ip limit_bytes)))) + open_fds i (h2_run pread es (new_session ip limit_bytes)) =
      handed_all pread i es (new_session ip limit_bytes)"
    using fds_run [OF assms, of i]
    by (simp add: all_fds_def fds_by_view) (simp add: new_session_def view_def of_stream_def)
  show "open_fds i (h2_run pread (es @ [StreamClose i]) (new_session ip limit_bytes)) = {#}"
    by (cases "stream_at (h2_run pread es (new_session ip limit_bytes)) i")
       (simp_all add: on_stream_close_def Let_def fds_by_view(1), simp_all add: view_def)
qed

theorem h2_files_closed_once_witness:
  "let res = new_response\<lparr>file_fd := 7, file_size := 3\<rparr>;
       es = [BeginHeaders 1 HEADERS True, Header 1 HEADERS True '':path'' ''/'', FrameRecv 1 [] HEADERS True, WSend 1 [] res, WSend 1 [] res]
   in nghttp2_run_ok (\<lambda>_ _ _. None) es (new_session [] 10) \<and>
      mset (v_closed (view 1 (h2_run (\<lambda>_ _ _. None) es (new_session [] 10)))) + open_fds 1 (h2_run (\<lambda>_ _ _. None) es (new_session [] 10)) = {#7, 7#}"
proof -
  let ?res = "new_response\<lparr>file_fd := 7, file_size := 3\<rparr>"
  let ?es = "[BeginHeaders 1 HEADERS True, Header 1 HEADERS True '':path'' ''/'', FrameRecv 1 [] HEADERS True, WSend 1 [] ?res, WSend 1 [] ?res]"
  have ok: "nghttp2_run_ok (\<lambda>_ _ _. None) ?es (new_session [] 10)" by code_simp
  have "handed_all (\<lambda>_ _ _. None) 1 ?es (new_session [] 10) = {#7, 7#}" by code_simp
  with ok h2_files_closed_once [OF ok, of 1] show ?thesis by (simp add: Let_def)
qed

text \<open>
  Behaviour that is not what is meant: the cookies of a response are not among the fields built for HTTP/2 (HTTP/1.1 sends them as
  Set-Cookie fields); and a file that has become shorter than its size gives empty reads that are never the last.
\<close>

lemma h2_cookies_lost: "build_response_headers now (set_cookie c r) = build_response_headers now r"
  by (simp add: build_response_headers_def set_cookie_def)

lemma h2_short_file_never_ends:
  assumes "ctx_file_fd c \<noteq> - 1" "0 \<le> ctx_file_offset c" "ctx_file_offset c < ctx_file_size c" "ctx_file_size c < 2 ^ 63" "n > 0"
    "pread (ctx_file_fd c) (ctx_file_offset c) = (\<lambda>_. Some [])"
  shows "data_provider_read pread n c = (Bytes [] False, c)"
proof -
  have "uint (word_of_int (ctx_file_size c - ctx_file_offset c) :: 64 word) = ctx_file_size c - ctx_file_offset c"
    using assms(2-4) by (subst uint_word_of_int) simp
  then have "unat (word_of_int (ctx_file_size c - ctx_file_offset c) :: 64 word) \<noteq> 0"
    using assms(3) by (subst nat_uint_eq [symmetric]) simp
  with assms show ?thesis by (simp add: data_provider_read_def Let_def)
qed

end
