(* ===== verification/Http3_Session.thy ===== *)
theory Http3_Session
  imports Http2_Session
begin

text \<open>
  HTTP/3 (\<^verbatim>\<open>src/server/QuicHttp3Session.cpp\<close>): the streams of a QUIC connection, how the callbacks of nghttp3 build their requests,
  and how response bytes are handed to nghttp3 and kept until the peer has acknowledged them. nghttp3 and the QUIC connection are
  the environment: they make the callbacks, and what the session asks of them is recorded. Everything runs under the connection's
  mutex. A session has one cell per stream: the stream, its writer, and what was asked for it.

  The theorems: a request is the one HTTP/2 gives for the same fields and body; bytes that nghttp3 still refers to are kept, and freed
  when they are acknowledged; and a streamed body is read in order and to its end.
\<close>

section \<open>Bytes handed out and acknowledged\<close>

record SentChunks =
  chunks :: "string list"
  handed_out :: nat
  front_acked :: nat

definition no_chunks :: SentChunks where
  "no_chunks = \<lparr>chunks = [], handed_out = 0, front_acked = 0\<rparr>"

definition chunks_push :: "string \<Rightarrow> SentChunks \<Rightarrow> SentChunks" where
  "chunks_push c q = (if c \<noteq> [] then q\<lparr>chunks := chunks q @ [c]\<rparr> else q)"

definition hand_out :: "nat \<Rightarrow> SentChunks \<Rightarrow> string list \<times> SentChunks" where
  "hand_out n q =
     (let given = take n (drop (handed_out q) (chunks q)) in (given, q\<lparr>handed_out := handed_out q + length given\<rparr>))"

function free_acked :: "SentChunks \<Rightarrow> SentChunks" where
  "free_acked q =
     (if handed_out q > 0 \<and> front_acked q \<ge> length (hd (chunks q))
      then free_acked (q\<lparr>front_acked := front_acked q - length (hd (chunks q)), chunks := tl (chunks q), handed_out := handed_out q - 1\<rparr>)
      else q)"
  by pat_completeness auto
termination
  by (relation "measure handed_out") auto

declare free_acked.simps [simp del]

definition chunks_ack :: "nat \<Rightarrow> SentChunks \<Rightarrow> SentChunks" where
  "chunks_ack n q = free_acked (q\<lparr>front_acked := front_acked q + n\<rparr>)"

definition has_unsent :: "SentChunks \<Rightarrow> bool" where
  "has_unsent q \<longleftrightarrow> handed_out q < length (chunks q)"


section \<open>Streams\<close>

record Http3Stream =
  h3_request :: HttpRequest
  h3_path :: string
  h3_body :: string
  h3_cookie :: string
  headers_complete :: bool
  dispatched :: bool
  h3_body_too_large :: bool
  h3_chunks :: SentChunks
  h3_streaming :: bool
  h3_ended :: bool
  h3_file_fd :: int
  h3_file_offset :: int
  h3_file_end :: int
  h3_has_writer :: bool

definition new_h3_stream :: Http3Stream where
  "new_h3_stream =
     \<lparr>h3_request = empty_request, h3_path = [], h3_body = [], h3_cookie = [], headers_complete = False, dispatched = False,
      h3_body_too_large = False, h3_chunks = no_chunks, h3_streaming = False, h3_ended = False, h3_file_fd = - 1, h3_file_offset = 0,
      h3_file_end = 0, h3_has_writer = False\<rparr>"

datatype h3_call = H3SubmitResponse "(string \<times> string) list" bool | H3ResumeStream

text \<open>A read by nghttp3: nothing yet, the chunks it may refer to (and whether they are the last), or a failure that resets the stream.\<close>

datatype h3_read = WouldBlock | H3Bytes "string list" bool | H3Failure

text \<open>The writer has the fields of the HTTP/2 one.\<close>

record h3_cell =
  c_stream :: "Http3Stream option"
  c_writer :: "h2_writer option"
  c_calls :: "h3_call list"
  c_tasks :: "pool_task list"
  c_reads :: "h3_read list"
  c_credit :: "nat list"
  c_closed :: "int list"

definition empty_cell :: h3_cell where
  "empty_cell = \<lparr>c_stream = None, c_writer = None, c_calls = [], c_tasks = [], c_reads = [], c_credit = [], c_closed = []\<rparr>"

text \<open>The context: whether there are a router and a pool, the limit of a body (0 is none) and the peer's address.\<close>

record Http3Context =
  ctx_ready :: bool
  ctx_max_body :: nat
  ctx_ip :: string

definition cell_stream :: "h3_cell \<Rightarrow> Http3Stream" where
  "cell_stream c = (case c_stream c of Some st \<Rightarrow> st | None \<Rightarrow> new_h3_stream)"

definition put_cell_stream :: "Http3Stream \<Rightarrow> h3_cell \<Rightarrow> h3_cell" where
  "put_cell_stream st c = c\<lparr>c_stream := Some st\<rparr>"

definition cell_close :: "int \<Rightarrow> h3_cell \<Rightarrow> h3_cell" where
  "cell_close fd c = (if fd = - 1 then c else c\<lparr>c_closed := c_closed c @ [fd]\<rparr>)"

definition h3_response_headers :: "string \<Rightarrow> HttpResponse \<Rightarrow> (string \<times> string) list" where
  "h3_response_headers now r =
     ('':status'', show_int (status_code r)) #
     map (\<lambda>(k, v). (map tolower k, v)) (filter (\<lambda>h. \<not> is_connection_specific_header (fst h)) (res_headers r)) @
     (if hdr_find ''Date'' (res_headers r) = None then [(''date'', now)] else [])"

text \<open>The file of a response that is not taken over is closed with the response.\<close>

definition h3_submit_response :: "string \<Rightarrow> HttpResponse \<Rightarrow> bool \<Rightarrow> bool \<Rightarrow> h3_cell \<Rightarrow> h3_cell" where
  "h3_submit_response now r with_body is_streaming c =
     (case c_stream c of
        None \<Rightarrow> cell_close (file_fd r) c
      | Some st \<Rightarrow>
          (let asked = c\<lparr>c_calls := c_calls c @ [H3SubmitResponse (h3_response_headers now r) with_body]\<rparr>
           in if with_body
              then put_cell_stream
                     (let st1 = st\<lparr>h3_streaming := is_streaming, h3_chunks := chunks_push (res_body r) (h3_chunks st)\<rparr>
                      in if file_fd r \<noteq> - 1
                         then st1\<lparr>h3_file_fd := file_fd r, h3_file_offset := file_offset r, h3_file_end := file_size r\<rparr>
                         else st1) asked
              else cell_close (file_fd r) asked))"

definition h3_submit_status :: "string \<Rightarrow> int \<Rightarrow> h3_cell \<Rightarrow> h3_cell" where
  "h3_submit_status now st = h3_submit_response now (res_header ''Content-Length'' ''0'' (new_response\<lparr>status_code := st\<rparr>)) False False"

definition h3_put_field :: "string \<Rightarrow> string \<Rightarrow> Http3Stream \<Rightarrow> Http3Stream" where
  "h3_put_field key val st =
     (if headers_complete st then st
      else if key = '':method'' then st\<lparr>h3_request := (h3_request st)\<lparr>req_method := h2_parse_method val (req_method (h3_request st))\<rparr>\<rparr>
      else if key = '':path'' then st\<lparr>h3_path := val\<rparr>
      else if key = '':authority'' then st\<lparr>h3_request := set_header ''Host'' val (h3_request st)\<rparr>
      else if key = ''cookie'' then st\<lparr>h3_cookie := (if h3_cookie st \<noteq> [] then h3_cookie st @ ''; '' else h3_cookie st) @ val\<rparr>
      else if key \<noteq> [] \<and> hd key \<noteq> CHR '':'' then st\<lparr>h3_request := set_header key val (h3_request st)\<rparr>
      else st)"

definition h3_add_body :: "nat \<Rightarrow> string \<Rightarrow> Http3Stream \<Rightarrow> Http3Stream" where
  "h3_add_body limit d st =
     (if h3_body_too_large st then st
      else if limit \<noteq> 0 \<and> length (h3_body st) + length d > limit then st\<lparr>h3_body_too_large := True, h3_body := []\<rparr>
      else st\<lparr>h3_body := h3_body st @ d\<rparr>)"

definition h3_gather :: "Http3Stream \<Rightarrow> HttpRequest" where
  "h3_gather st =
     (let r = (h3_request st)\<lparr>http_version := ''HTTP/3'', req_body := h3_body st\<rparr>
      in if h3_cookie st \<noteq> []
         then (let r2 = set_header ''cookie'' (h3_cookie st) r in r2\<lparr>req_cookies := h2_parse_cookies (h3_cookie st) (req_cookies r2)\<rparr>)
         else r)"

definition handle_request :: "Http3Context \<Rightarrow> string \<Rightarrow> Http3Stream \<Rightarrow> h3_cell \<Rightarrow> h3_cell" where
  "handle_request ctx now st c =
     (let st1 = st\<lparr>dispatched := True\<rparr>
      in if \<not> ctx_ready ctx then h3_submit_status now 503 (put_cell_stream st1 c)
         else if h3_body_too_large st then h3_submit_status now 413 (put_cell_stream st1 c)
         else case apply_request_target (h3_path st) (h3_gather st) of
                None \<Rightarrow> h3_submit_status now 400 (put_cell_stream (st1\<lparr>h3_request := h3_gather st\<rparr>) c)
              | Some r \<Rightarrow>
                  (let req = r\<lparr>client_ip := ctx_ip ctx, peer_ip := ctx_ip ctx\<rparr>
                   in c\<lparr>c_stream := Some (st1\<lparr>h3_request := req, h3_has_writer := True\<rparr>),
                        c_writer := Some (new_h2_writer (req_method req = HEAD) (h3_body st)),
                        c_tasks := c_tasks c @ [RunHandler req]\<rparr>))"

definition h3_end_headers :: "Http3Context \<Rightarrow> string \<Rightarrow> bool \<Rightarrow> h3_cell \<Rightarrow> h3_cell" where
  "h3_end_headers ctx now fin c =
     (let st = (cell_stream c)\<lparr>headers_complete := True\<rparr>
      in if fin \<and> \<not> dispatched st then handle_request ctx now st c else put_cell_stream st c)"

definition h3_recv_data :: "Http3Context \<Rightarrow> string \<Rightarrow> h3_cell \<Rightarrow> h3_cell" where
  "h3_recv_data ctx d c =
     (put_cell_stream (h3_add_body (ctx_max_body ctx) d (cell_stream c)) c)\<lparr>c_credit := c_credit c @ [length d]\<rparr>"

definition on_end_stream :: "Http3Context \<Rightarrow> string \<Rightarrow> h3_cell \<Rightarrow> h3_cell" where
  "on_end_stream ctx now c =
     (let st = cell_stream c
      in if headers_complete st \<and> \<not> dispatched st then handle_request ctx now st c else put_cell_stream st c)"

text \<open>A stream that is closed is forgotten; its file is closed when the last owner, perhaps the handler, lets it go.\<close>

definition h3_stream_close :: "h3_cell \<Rightarrow> h3_cell" where
  "h3_stream_close c =
     (case c_stream c of
        None \<Rightarrow> c
      | Some st \<Rightarrow>
          cell_close (h3_file_fd st)
            (c\<lparr>c_stream := None, c_tasks := c_tasks c @ (if h3_has_writer st then [MarkClosed] else [])\<rparr>))"

definition on_acked_stream_data :: "nat \<Rightarrow> h3_cell \<Rightarrow> h3_cell" where
  "on_acked_stream_data n c =
     (case c_stream c of None \<Rightarrow> c | Some st \<Rightarrow> put_cell_stream (st\<lparr>h3_chunks := chunks_ack n (h3_chunks st)\<rparr>) c)"

definition kFileChunk :: nat where
  "kFileChunk = 64 * 1024"

text \<open>The next piece of a file is read when all before it has been handed out.\<close>

definition fill_from_file :: "(int \<Rightarrow> int \<Rightarrow> nat \<Rightarrow> string option) \<Rightarrow> Http3Stream \<Rightarrow> Http3Stream option" where
  "fill_from_file pread st =
     (if h3_file_fd st \<noteq> - 1 \<and> \<not> has_unsent (h3_chunks st) \<and> h3_file_offset st < h3_file_end st
      then (case pread (h3_file_fd st) (h3_file_offset st) (min kFileChunk (nat (h3_file_end st - h3_file_offset st))) of
              Some b \<Rightarrow>
                if b = [] then None
                else Some (st\<lparr>h3_file_offset := h3_file_offset st + int (length b), h3_chunks := chunks_push b (h3_chunks st)\<rparr>)
            | None \<Rightarrow> None)
      else Some st)"

definition read_data :: "(int \<Rightarrow> int \<Rightarrow> nat \<Rightarrow> string option) \<Rightarrow> nat \<Rightarrow> Http3Stream \<Rightarrow> h3_read \<times> Http3Stream" where
  "read_data pread n st =
     (case fill_from_file pread st of
        None \<Rightarrow> (H3Failure, st)
      | Some st1 \<Rightarrow>
          (case hand_out n (h3_chunks st1) of
             (given, q) \<Rightarrow>
               (let more_follows = (has_unsent q \<or> h3_file_fd st1 \<noteq> - 1 \<and> h3_file_offset st1 < h3_file_end st1 \<or> h3_streaming st1 \<and> \<not> h3_ended st1)
                in (if \<not> more_follows then H3Bytes given True else if given = [] then WouldBlock else H3Bytes given False,
                    st1\<lparr>h3_chunks := q\<rparr>))))"

definition h3_provider_read :: "(int \<Rightarrow> int \<Rightarrow> nat \<Rightarrow> string option) \<Rightarrow> nat \<Rightarrow> h3_cell \<Rightarrow> h3_cell" where
  "h3_provider_read pread n c =
     (case c_stream c of
        None \<Rightarrow> c
      | Some st \<Rightarrow> (case read_data pread n st of (r, st') \<Rightarrow> (put_cell_stream st' c)\<lparr>c_reads := c_reads c @ [r]\<rparr>))"

definition stream_submit_data :: "string \<Rightarrow> Http3Stream \<Rightarrow> Http3Stream" where
  "stream_submit_data chunk st =
     (if \<not> h3_streaming st \<or> h3_ended st \<or> chunk = [] then st else st\<lparr>h3_chunks := chunks_push chunk (h3_chunks st)\<rparr>)"

definition h3_submit_data :: "string \<Rightarrow> h3_cell \<Rightarrow> h3_cell" where
  "h3_submit_data chunk c =
     (case c_stream c of
        None \<Rightarrow> c
      | Some st \<Rightarrow>
          if \<not> h3_streaming st \<or> h3_ended st \<or> chunk = [] then c
          else (put_cell_stream (stream_submit_data chunk st) c)\<lparr>c_calls := c_calls c @ [H3ResumeStream]\<rparr>)"

definition stream_end :: "Http3Stream \<Rightarrow> Http3Stream" where
  "stream_end st = (if \<not> h3_streaming st \<or> h3_ended st then st else st\<lparr>h3_ended := True\<rparr>)"

definition h3_end_stream :: "h3_cell \<Rightarrow> h3_cell" where
  "h3_end_stream c =
     (case c_stream c of
        None \<Rightarrow> c
      | Some st \<Rightarrow>
          if \<not> h3_streaming st \<or> h3_ended st then c
          else (put_cell_stream (stream_end st) c)\<lparr>c_calls := c_calls c @ [H3ResumeStream]\<rparr>)"


section \<open>Writers\<close>

text \<open>A call reaches the session only while the connection is there and open; \<open>up\<close> says so. A file of a response is closed otherwise.\<close>

definition on_writer :: "(h2_writer \<Rightarrow> h3_cell \<Rightarrow> h3_cell) \<Rightarrow> h3_cell \<Rightarrow> h3_cell" where
  "on_writer f c = (case c_writer c of None \<Rightarrow> c | Some w \<Rightarrow> f w (c\<lparr>c_writer := Some (w\<lparr>responded := True\<rparr>)\<rparr>))"

definition h3_send :: "bool \<Rightarrow> string \<Rightarrow> HttpResponse \<Rightarrow> h3_cell \<Rightarrow> h3_cell" where
  "h3_send up now res =
     on_writer (\<lambda>w c.
       if h2_headers_sent w then cell_close (file_fd res) c
       else let r = prepare_response w res; code = status_code r;
                bodiless = (suppress_body w \<or> code < 200 \<or> code = 204 \<or> code = 304);
                with_body = (\<not> bodiless \<and> (res_body r \<noteq> [] \<or> file_fd r \<noteq> - 1));
                c1 = c\<lparr>c_writer := Some (w\<lparr>responded := True, h2_headers_sent := True\<rparr>)\<rparr>
            in if up then h3_submit_response now r with_body False c1 else cell_close (file_fd r) c1)"

definition h3_send_headers :: "bool \<Rightarrow> string \<Rightarrow> HttpResponse \<Rightarrow> h3_cell \<Rightarrow> h3_cell" where
  "h3_send_headers up now res =
     on_writer (\<lambda>w c.
       if h2_headers_sent w then cell_close (file_fd res) c
       else let r = prepare_response w res; c1 = c\<lparr>c_writer := Some (w\<lparr>responded := True, h2_headers_sent := True\<rparr>)\<rparr>
            in if up then h3_submit_response now r (\<not> suppress_body w) (\<not> suppress_body w) c1 else cell_close (file_fd r) c1)"

definition h3_write_chunk :: "bool \<Rightarrow> string \<Rightarrow> h3_cell \<Rightarrow> h3_cell" where
  "h3_write_chunk up chunk = on_writer (\<lambda>w c. if chunk = [] \<or> \<not> up then c else h3_submit_data chunk c)"

definition h3_end :: "bool \<Rightarrow> h3_cell \<Rightarrow> h3_cell" where
  "h3_end up = on_writer (\<lambda>w c. if up then h3_end_stream c else c)"

definition h3_send_sse_event :: "bool \<Rightarrow> string \<Rightarrow> string \<Rightarrow> string \<Rightarrow> h3_cell \<Rightarrow> h3_cell" where
  "h3_send_sse_event up d event ident = h3_write_chunk up (sse_message d event ident)"

definition h3_read_body_stream :: "h2_writer \<Rightarrow> string list" where
  "h3_read_body_stream w = (if writer_body w = [] then [] else [writer_body w])"

definition h3_mark_closed :: "h3_cell \<Rightarrow> h3_cell" where
  "h3_mark_closed c = c\<lparr>c_writer := map_option mark_closed (c_writer c)\<rparr>"


section \<open>Runs\<close>

datatype h3_event =
    H3BeginHeaders
  | H3Header string string
  | H3EndHeaders string bool
  | H3Data string
  | H3EndStream string
  | H3Close
  | H3Acked nat
  | H3Read nat
  | H3Send string HttpResponse
  | H3SendHeaders string HttpResponse
  | H3Chunk string
  | H3End
  | H3Sse string string string
  | H3Closed

record h3_session =
  cells :: "int \<Rightarrow> h3_cell"
  conn_up :: bool

definition new_h3_session :: h3_session where
  "new_h3_session = \<lparr>cells = (\<lambda>_. empty_cell), conn_up = True\<rparr>"

fun cell_step :: "(int \<Rightarrow> int \<Rightarrow> nat \<Rightarrow> string option) \<Rightarrow> Http3Context \<Rightarrow> bool \<Rightarrow> h3_event \<Rightarrow> h3_cell \<Rightarrow> h3_cell" where
  "cell_step pread ctx up H3BeginHeaders c = put_cell_stream (cell_stream c) c"
| "cell_step pread ctx up (H3Header k v) c = put_cell_stream (h3_put_field k v (cell_stream c)) c"
| "cell_step pread ctx up (H3EndHeaders now fin) c = h3_end_headers ctx now fin c"
| "cell_step pread ctx up (H3Data d) c = h3_recv_data ctx d c"
| "cell_step pread ctx up (H3EndStream now) c = on_end_stream ctx now c"
| "cell_step pread ctx up H3Close c = h3_stream_close c"
| "cell_step pread ctx up (H3Acked n) c = on_acked_stream_data n c"
| "cell_step pread ctx up (H3Read n) c = h3_provider_read pread n c"
| "cell_step pread ctx up (H3Send now r) c = h3_send up now r c"
| "cell_step pread ctx up (H3SendHeaders now r) c = h3_send_headers up now r c"
| "cell_step pread ctx up (H3Chunk d) c = h3_write_chunk up d c"
| "cell_step pread ctx up H3End c = h3_end up c"
| "cell_step pread ctx up (H3Sse d e n) c = h3_send_sse_event up d e n c"
| "cell_step pread ctx up H3Closed c = h3_mark_closed c"

text \<open>An event of a stream, or (\<open>None\<close>) the end of the connection.\<close>

fun h3_step :: "(int \<Rightarrow> int \<Rightarrow> nat \<Rightarrow> string option) \<Rightarrow> Http3Context \<Rightarrow> (int \<times> h3_event) option \<Rightarrow> h3_session \<Rightarrow> h3_session" where
  "h3_step pread ctx None s = s\<lparr>conn_up := False\<rparr>"
| "h3_step pread ctx (Some (i, e)) s = s\<lparr>cells := (cells s)(i := cell_step pread ctx (conn_up s) e (cells s i))\<rparr>"

definition h3_run ::
  "(int \<Rightarrow> int \<Rightarrow> nat \<Rightarrow> string option) \<Rightarrow> Http3Context \<Rightarrow> (int \<times> h3_event) option list \<Rightarrow> h3_session \<Rightarrow> h3_session" where
  "h3_run pread ctx es s = fold (h3_step pread ctx) es s"

text \<open>While the connection is up, a cell sees the events of its stream only.\<close>

definition events_of :: "int \<Rightarrow> (int \<times> h3_event) option list \<Rightarrow> h3_event list" where
  "events_of i es = map (\<lambda>e. snd (the e)) (filter (\<lambda>e. e \<noteq> None \<and> fst (the e) = i) es)"

lemma h3_run_cell:
  "None \<notin> set es \<Longrightarrow> conn_up s \<Longrightarrow> cells (h3_run pread ctx es s) i = fold (cell_step pread ctx True) (events_of i es) (cells s i)"
proof (induction es arbitrary: s)
  case (Cons e es)
  obtain j x where e: "e = Some (j, x)" using Cons.prems(1) by (cases e) auto
  with Cons show ?case by (auto simp: h3_run_def events_of_def)
qed (simp add: h3_run_def events_of_def)


section \<open>What nghttp3 refers to is kept\<close>

text \<open>
  A run of a stream's chunks: what was pushed, what was handed out, and how many bytes were acknowledged, which are never more than were
  handed out.
\<close>

inductive chunk_run :: "string list \<Rightarrow> string list \<Rightarrow> nat \<Rightarrow> SentChunks \<Rightarrow> bool" where
  run_start: "chunk_run [] [] 0 no_chunks"
| run_push: "chunk_run P G A q \<Longrightarrow> chunk_run (P @ [c]) G A (chunks_push c q)"
| run_hand_out: "chunk_run P G A q \<Longrightarrow> hand_out n q = (given, q') \<Longrightarrow> chunk_run P (G @ given) A q'"
| run_ack: "chunk_run P G A q \<Longrightarrow> A + n \<le> length (concat G) \<Longrightarrow> chunk_run P G (A + n) (chunks_ack n q)"

lemma free_acked_frees:
  assumes "front_acked q \<le> length (concat (take (handed_out q) (chunks q)))" "handed_out q \<le> length (chunks q)"
  shows "\<exists>f. chunks q = f @ chunks (free_acked q) \<and> handed_out q = length f + handed_out (free_acked q) \<and>
    front_acked q = length (concat f) + front_acked (free_acked q) \<and>
    (if handed_out (free_acked q) = 0 then front_acked (free_acked q) = 0 else front_acked (free_acked q) < length (hd (chunks (free_acked q))))"
  using assms
proof (induction q rule: free_acked.induct)
  case (1 q)
  show ?case
  proof (cases "handed_out q > 0 \<and> front_acked q \<ge> length (hd (chunks q))")
    case True
    then obtain c cs k where c: "chunks q = c # cs" "handed_out q = Suc k" using "1.prems"(2) by (cases "chunks q"; cases "handed_out q") auto
    let ?q = "q\<lparr>front_acked := front_acked q - length (hd (chunks q)), chunks := tl (chunks q), handed_out := handed_out q - 1\<rparr>"
    have pre: "front_acked ?q \<le> length (concat (take (handed_out ?q) (chunks ?q)))" "handed_out ?q \<le> length (chunks ?q)"
      using "1.prems" True c by auto
    obtain f where f: "chunks ?q = f @ chunks (free_acked ?q)" "handed_out ?q = length f + handed_out (free_acked ?q)"
      "front_acked ?q = length (concat f) + front_acked (free_acked ?q)"
      "if handed_out (free_acked ?q) = 0 then front_acked (free_acked ?q) = 0 else front_acked (free_acked ?q) < length (hd (chunks (free_acked ?q)))"
      using "1.IH" [OF True pre] by blast
    have e: "free_acked q = free_acked ?q" using True by (subst free_acked.simps) simp
    show ?thesis unfolding e using f c True by (intro exI [of _ "c # f"]) auto
  next
    case False
    then have e: "free_acked q = q" by (subst free_acked.simps) argo
    with False "1.prems" show ?thesis by (intro exI [of _ "[]"]) auto
  qed
qed

lemma chunk_run_inv:
  assumes "chunk_run P G A q"
  shows "\<exists>f. filter (\<lambda>c. c \<noteq> []) P = f @ chunks q \<and> G = f @ take (handed_out q) (chunks q) \<and> handed_out q \<le> length (chunks q) \<and>
    A = length (concat f) + front_acked q \<and>
    (if handed_out q = 0 then front_acked q = 0 else front_acked q < length (hd (chunks q)))"
  using assms
proof induction
  case run_start
  show ?case by (simp add: no_chunks_def)
next
  case (run_push P G A q c)
  then obtain f where f: "filter (\<lambda>c. c \<noteq> []) P = f @ chunks q" "G = f @ take (handed_out q) (chunks q)" "handed_out q \<le> length (chunks q)"
    "A = length (concat f) + front_acked q" "if handed_out q = 0 then front_acked q = 0 else front_acked q < length (hd (chunks q))" by blast
  then have "handed_out q \<noteq> 0 \<Longrightarrow> chunks q \<noteq> []" by auto
  with f show ?case by (intro exI [of _ f]) (auto simp: chunks_push_def split: if_splits)
next
  case (run_hand_out P G A q n given q')
  then obtain f where f: "filter (\<lambda>c. c \<noteq> []) P = f @ chunks q" "G = f @ take (handed_out q) (chunks q)" "handed_out q \<le> length (chunks q)"
    "A = length (concat f) + front_acked q" "if handed_out q = 0 then front_acked q = 0 else front_acked q < length (hd (chunks q))" by blast
  have g: "given = take n (drop (handed_out q) (chunks q))" "q' = q\<lparr>handed_out := handed_out q + length given\<rparr>"
    using run_hand_out.hyps(2) by (auto simp: hand_out_def Let_def)
  have t: "take (handed_out q) (chunks q) @ given = take (handed_out q + length given) (chunks q)"
    by (simp add: g(1) take_add min_def)
  have nz: "hd (chunks q) \<noteq> [] \<or> chunks q = []"
  proof -
    have "list_all (\<lambda>c. c \<noteq> []) (f @ chunks q)" unfolding f(1) [symmetric] by (simp add: list_all_iff)
    then show ?thesis by (cases "chunks q") simp_all
  qed
  show ?case using f t nz by (intro exI [of _ f]) (auto simp: g split: if_splits)
next
  case (run_ack P G A q n)
  then obtain f where f: "filter (\<lambda>c. c \<noteq> []) P = f @ chunks q" "G = f @ take (handed_out q) (chunks q)" "handed_out q \<le> length (chunks q)"
    "A = length (concat f) + front_acked q" by blast
  let ?q = "q\<lparr>front_acked := front_acked q + n\<rparr>"
  have "front_acked ?q \<le> length (concat (take (handed_out ?q) (chunks ?q)))" "handed_out ?q \<le> length (chunks ?q)"
    using run_ack.hyps(2) f by simp_all
  then obtain g where g: "chunks q = g @ chunks (free_acked ?q)" "handed_out q = length g + handed_out (free_acked ?q)"
    "front_acked q + n = length (concat g) + front_acked (free_acked ?q)"
    "if handed_out (free_acked ?q) = 0 then front_acked (free_acked ?q) = 0 else front_acked (free_acked ?q) < length (hd (chunks (free_acked ?q)))"
    using free_acked_frees [of ?q] by auto
  have "take (handed_out q) (chunks q) = g @ take (handed_out (free_acked ?q)) (chunks (free_acked ?q))" using g(1,2) by simp
  with f g show ?case by (intro exI [of _ "f @ g"]) (auto simp: chunks_ack_def)
qed

text \<open>
  C17: The bytes nghttp3 was given stay where they are until the peer has them: the chunks are handed out in the order in which they were
  written, and at any time those that were freed are exactly the handed-out chunks all of whose bytes are acknowledged; every other
  one that was handed out, and all that were not, are still held.
\<close>

theorem h3_unacked_bytes_kept:
  assumes "chunk_run P G A q"
  shows "\<exists>k. prefix G (filter (\<lambda>c. c \<noteq> []) P) \<and> chunks q = drop k (filter (\<lambda>c. c \<noteq> []) P) \<and> k + handed_out q = length G \<and>
    length (concat (take k G)) \<le> A \<and> (k < length G \<longrightarrow> A < length (concat (take (Suc k) G)))"
proof -
  obtain f where f: "filter (\<lambda>c. c \<noteq> []) P = f @ chunks q" "G = f @ take (handed_out q) (chunks q)" "handed_out q \<le> length (chunks q)"
    "A = length (concat f) + front_acked q" "if handed_out q = 0 then front_acked q = 0 else front_acked q < length (hd (chunks q))"
    using chunk_run_inv [OF assms] by blast
  have p: "prefix G (filter (\<lambda>c. c \<noteq> []) P)" unfolding f(1) f(2) by (simp add: take_is_prefix)
  have l: "length G = length f + handed_out q" using f(3) by (simp add: f(2))
  have s: "length (concat (take (Suc (length f)) G)) = length (concat f) + length (hd (chunks q))" if "handed_out q \<noteq> 0"
    using that f(3) by (cases "chunks q"; cases "handed_out q") (simp_all add: f(2))
  have "take (length f) G = f" by (simp add: f(2))
  with p l s f(1,4,5) show ?thesis by (intro exI [of _ "length f"]) (auto split: if_splits)
qed

theorem h3_unacked_bytes_kept_witness:
  "\<exists>q. chunk_run [''ab'', ''c''] [''ab'', ''c''] 2 q \<and> chunks q = [''c'']"
proof -
  let ?q = "chunks_push ''c'' (chunks_push ''ab'' no_chunks)"
  have p: "chunk_run [''ab'', ''c''] [] 0 ?q" using run_push [OF run_push [OF run_start, of "''ab''"], of "''c''"] by simp
  obtain given q' where h: "hand_out 2 ?q = (given, q')" by fastforce
  then have g: "given = [''ab'', ''c'']" by (auto simp: hand_out_def Let_def chunks_push_def no_chunks_def)
  have r: "chunk_run [''ab'', ''c''] [''ab'', ''c''] 2 (chunks_ack 2 q')"
    using run_ack [OF run_hand_out [OF p h], of 2] unfolding g by (simp del: One_nat_def Suc_1 add: numeral_2_eq_2 [symmetric])
  then obtain k where k: "chunks (chunks_ack 2 q') = drop k [''ab'', ''c'']" "length (concat (take k [''ab'', ''c''])) \<le> 2"
    "k < 2 \<longrightarrow> 2 < length (concat (take (Suc k) [''ab'', ''c'']))"
    using h3_unacked_bytes_kept [OF r] by auto
  have "k = 1" using k(2,3) by (cases k; cases "k - 1") (auto split: if_splits)
  with r k(1) show ?thesis by (intro exI [of _ "chunks_ack 2 q'"]) simp
qed


section \<open>A streamed body\<close>

text \<open>What a handler writes until it ends the body, and the bytes nghttp3 has read.\<close>

fun written :: "h3_event list \<Rightarrow> string" where
  "written [] = []"
| "written (H3End # es) = []"
| "written (H3Chunk d # es) = d @ written es"
| "written (H3Sse d e n # es) = sse_message d e n @ written es"
| "written (_ # es) = written es"

fun read_bytes :: "h3_read \<Rightarrow> string" where
  "read_bytes (H3Bytes cs _) = concat cs"
| "read_bytes _ = []"

definition bytes_read :: "h3_cell \<Rightarrow> string" where
  "bytes_read c = concat (map read_bytes (c_reads c))"

definition body_event :: "h3_event \<Rightarrow> bool" where
  "body_event e \<longleftrightarrow> (case e of H3Chunk _ \<Rightarrow> True | H3Sse _ _ _ \<Rightarrow> True | H3End \<Rightarrow> True | H3Read _ \<Rightarrow> True | H3Acked _ \<Rightarrow> True | _ \<Rightarrow> False)"

definition unsent :: "SentChunks \<Rightarrow> string list" where
  "unsent q = drop (handed_out q) (chunks q)"

lemma unsent_simps:
  "unsent (chunks_push d q) = (if handed_out q \<le> length (chunks q) \<and> d \<noteq> [] then unsent q @ [d] else unsent (chunks_push d q))"
  "unsent (snd (hand_out n q)) = drop n (unsent q)" "fst (hand_out n q) = take n (unsent q)"
  "handed_out (snd (hand_out n q)) \<le> length (chunks (snd (hand_out n q))) \<longleftrightarrow> handed_out q \<le> length (chunks q)"
  by (auto simp: unsent_def chunks_push_def hand_out_def Let_def min_def add.commute)

lemma unsent_free_acked: "handed_out q \<le> length (chunks q) \<Longrightarrow>
  unsent (free_acked q) = unsent q \<and> handed_out (free_acked q) \<le> length (chunks (free_acked q))"
proof (induction q rule: free_acked.induct)
  case (1 q)
  show ?case
  proof (cases "handed_out q > 0 \<and> front_acked q \<ge> length (hd (chunks q))")
    case True
    then obtain c cs k where c: "chunks q = c # cs" "handed_out q = Suc k" using "1.prems" by (cases "chunks q"; cases "handed_out q") auto
    let ?q = "q\<lparr>front_acked := front_acked q - length (hd (chunks q)), chunks := tl (chunks q), handed_out := handed_out q - 1\<rparr>"
    have e: "free_acked q = free_acked ?q" using True by (subst free_acked.simps) simp
    have "handed_out ?q \<le> length (chunks ?q)" "unsent ?q = unsent q" using "1.prems" c by (simp_all add: unsent_def)
    with "1.IH" [OF True] show ?thesis unfolding e by metis
  next
    case False
    then have "free_acked q = q" by (subst free_acked.simps) argo
    with "1.prems" show ?thesis by simp
  qed
qed

text \<open>The state of a stream whose body is streamed: what was read and what waits are what was written, and only an ended body has been read to its end.\<close>

definition body_state :: "h3_cell \<Rightarrow> string \<Rightarrow> bool \<Rightarrow> bool" where
  "body_state c out over \<longleftrightarrow>
     (\<exists>st w. c_stream c = Some st \<and> c_writer c = Some w \<and> h3_streaming st \<and> h3_file_fd st = - 1 \<and> h3_ended st = over \<and>
        handed_out (h3_chunks st) \<le> length (chunks (h3_chunks st)) \<and>
        bytes_read c @ concat (unsent (h3_chunks st)) = out \<and>
        (\<forall>cs. H3Bytes cs True \<in> set (c_reads c) \<longrightarrow> over \<and> unsent (h3_chunks st) = []))"

lemma body_state_read:
  assumes "body_state c out over"
  shows "body_state (cell_step pread ctx True (H3Read n) c) out over"
proof -
  obtain st w where st: "c_stream c = Some st" "c_writer c = Some w" "h3_streaming st" "h3_file_fd st = - 1" "h3_ended st = over"
    "handed_out (h3_chunks st) \<le> length (chunks (h3_chunks st))" "bytes_read c @ concat (unsent (h3_chunks st)) = out"
    "\<forall>cs. H3Bytes cs True \<in> set (c_reads c) \<longrightarrow> over \<and> unsent (h3_chunks st) = []"
    using assms by (auto simp: body_state_def)
  obtain given q where q: "hand_out n (h3_chunks st) = (given, q)" by fastforce
  have u: "given = take n (unsent (h3_chunks st))" "unsent q = drop n (unsent (h3_chunks st))" "handed_out q \<le> length (chunks q)"
    using unsent_simps(2-4) [of n "h3_chunks st"] st(6) by (simp_all add: q)
  let ?m = "has_unsent q \<or> \<not> over"
  let ?r = "if \<not> ?m then H3Bytes given True else if given = [] then WouldBlock else H3Bytes given False"
  have e: "cell_step pread ctx True (H3Read n) c = (put_cell_stream (st\<lparr>h3_chunks := q\<rparr>) c)\<lparr>c_reads := c_reads c @ [?r]\<rparr>"
    using st(1,3,4,5) by (simp add: h3_provider_read_def read_data_def fill_from_file_def q Let_def)
  have "read_bytes ?r = concat given" by simp
  then have b: "bytes_read (cell_step pread ctx True (H3Read n) c) @ concat (unsent q) = out"
    using st(7) concat_append [of "take n (unsent (h3_chunks st))" "drop n (unsent (h3_chunks st))"]
    unfolding e by (simp add: bytes_read_def u(1,2) put_cell_stream_def)
  have "unsent q = [] \<longleftrightarrow> \<not> has_unsent q" using u(3) by (auto simp: unsent_def has_unsent_def)
  with st u b [unfolded e] show ?thesis unfolding e body_state_def
    by (intro exI [of _ "st\<lparr>h3_chunks := q\<rparr>"] exI [of _ w]) (auto simp: put_cell_stream_def split: if_splits)
qed

lemma body_state_write:
  assumes "body_state c out over"
  shows "body_state (cell_step pread ctx True (H3Chunk d) c) (out @ (if over then [] else d)) over"
proof -
  obtain st w where st: "c_stream c = Some st" "c_writer c = Some w" "h3_streaming st" "h3_file_fd st = - 1" "h3_ended st = over"
    "handed_out (h3_chunks st) \<le> length (chunks (h3_chunks st))" "bytes_read c @ concat (unsent (h3_chunks st)) = out"
    "\<forall>cs. H3Bytes cs True \<in> set (c_reads c) \<longrightarrow> over \<and> unsent (h3_chunks st) = []"
    using assms by (auto simp: body_state_def)
  show ?thesis
  proof (cases "over \<or> d = []")
    case True
    then have "(if over then [] else d) = []" by auto
    with True st show ?thesis unfolding body_state_def
      by (intro exI [of _ st]) (auto simp: h3_write_chunk_def on_writer_def h3_submit_data_def bytes_read_def)
  next
    case False
    let ?q = "chunks_push d (h3_chunks st)"
    have u: "unsent ?q = unsent (h3_chunks st) @ [d]" "handed_out ?q \<le> length (chunks ?q)"
      using unsent_simps(1) [of d "h3_chunks st"] st(6) False by (simp_all add: chunks_push_def)
    have "bytes_read c @ concat (unsent ?q) = out @ d" using st(7) by (simp add: u(1) flip: append_assoc)
    with False st u(2) show ?thesis unfolding body_state_def
      by (intro exI [of _ "st\<lparr>h3_chunks := ?q\<rparr>"])
        (auto simp: h3_write_chunk_def on_writer_def h3_submit_data_def stream_submit_data_def put_cell_stream_def bytes_read_def)
  qed
qed

lemma body_state_step:
  assumes "body_state c out over" "body_event e"
  shows "body_state (cell_step pread ctx True e c) (out @ (if over then [] else written [e])) (over \<or> e = H3End)"
proof (cases e)
  case (H3Read n)
  with body_state_read [OF assms(1), of pread ctx n] show ?thesis by (cases over) simp_all
next
  case (H3Chunk d)
  with body_state_write [OF assms(1), of pread ctx d] show ?thesis by (cases over) simp_all
next
  case (H3Sse d ev n)
  have "cell_step pread ctx True e c = cell_step pread ctx True (H3Chunk (sse_message d ev n)) c"
    by (simp add: H3Sse h3_send_sse_event_def)
  with body_state_write [OF assms(1), of pread ctx "sse_message d ev n"] show ?thesis by (cases over) (simp_all add: H3Sse)
next
  case H3End
  from assms(1) show ?thesis unfolding body_state_def
    by (force simp: H3End h3_end_def on_writer_def h3_end_stream_def stream_end_def put_cell_stream_def bytes_read_def)
next
  case (H3Acked n)
  from assms(1) obtain st w where st: "c_stream c = Some st" "c_writer c = Some w" "h3_streaming st" "h3_file_fd st = - 1" "h3_ended st = over"
    "handed_out (h3_chunks st) \<le> length (chunks (h3_chunks st))" "bytes_read c @ concat (unsent (h3_chunks st)) = out"
    "\<forall>cs. H3Bytes cs True \<in> set (c_reads c) \<longrightarrow> over \<and> unsent (h3_chunks st) = []"
    by (auto simp: body_state_def)
  let ?q = "(h3_chunks st)\<lparr>front_acked := front_acked (h3_chunks st) + n\<rparr>"
  have "unsent (free_acked ?q) = unsent (h3_chunks st) \<and> handed_out (free_acked ?q) \<le> length (chunks (free_acked ?q))"
    using unsent_free_acked [of ?q] st(6) by (simp add: unsent_def)
  with st show ?thesis unfolding body_state_def
    by (intro exI [of _ "st\<lparr>h3_chunks := chunks_ack n (h3_chunks st)\<rparr>"])
      (auto simp: H3Acked on_acked_stream_data_def put_cell_stream_def chunks_ack_def bytes_read_def)
qed (use assms(2) in \<open>simp_all add: body_event_def\<close>)

lemma body_state_run:
  assumes "body_state c out over" "list_all body_event es"
  shows "body_state (fold (cell_step pread ctx True) es c) (out @ (if over then [] else written es)) (over \<or> H3End \<in> set es)"
  using assms
proof (induction es arbitrary: c out over)
  case (Cons e es)
  have "written (e # es) = written [e] @ (if e = H3End then [] else written es)" using Cons.prems(2) by (cases e) simp_all
  then have w: "out @ (if over then [] else written (e # es)) =
      (out @ (if over then [] else written [e])) @ (if over \<or> e = H3End then [] else written es)" by simp
  have "body_state (cell_step pread ctx True e c) (out @ (if over then [] else written [e])) (over \<or> e = H3End)"
    using body_state_step Cons.prems by simp
  from Cons.IH [OF this] Cons.prems(2) show ?case unfolding w by (simp add: disj_assoc eq_commute)
next
  case Nil
  then show ?case by (cases over) simp_all
qed

lemma read_once:
  assumes "body_state c out True" "c_stream c = Some st"
  shows "\<exists>st' r. c_stream (cell_step pread ctx True (H3Read n) c) = Some st' \<and> unsent (h3_chunks st') = drop n (unsent (h3_chunks st)) \<and>
    c_reads (cell_step pread ctx True (H3Read n) c) = c_reads c @ [r] \<and> (unsent (h3_chunks st') = [] \<longrightarrow> (\<exists>cs. r = H3Bytes cs True))"
proof -
  have st: "h3_streaming st" "h3_file_fd st = - 1" "h3_ended st" "handed_out (h3_chunks st) \<le> length (chunks (h3_chunks st))"
    using assms by (auto simp: body_state_def)
  obtain given q where q: "hand_out n (h3_chunks st) = (given, q)" by fastforce
  have u: "unsent q = drop n (unsent (h3_chunks st))" "handed_out q \<le> length (chunks q)"
    using unsent_simps(2-4) [of n "h3_chunks st"] st(4) by (simp_all add: q)
  have "unsent q = [] \<Longrightarrow> \<not> has_unsent q" by (simp add: unsent_def has_unsent_def)
  with u(1) show ?thesis using assms(2) st
    by (simp add: h3_provider_read_def read_data_def fill_from_file_def q Let_def put_cell_stream_def)
qed

lemma reads_finish:
  assumes "body_state c out True" "c_stream c = Some st" "0 < n" "length (unsent (h3_chunks st)) < k"
  shows "bytes_read (fold (cell_step pread ctx True) (replicate k (H3Read n)) c) = out \<and>
    (\<exists>cs. last (c_reads (fold (cell_step pread ctx True) (replicate k (H3Read n)) c)) = H3Bytes cs True)"
  using assms
proof (induction k arbitrary: c st)
  case (Suc k)
  let ?c = "cell_step pread ctx True (H3Read n) c"
  obtain st' r where r: "c_stream ?c = Some st'" "unsent (h3_chunks st') = drop n (unsent (h3_chunks st))" "c_reads ?c = c_reads c @ [r]"
    "unsent (h3_chunks st') = [] \<longrightarrow> (\<exists>cs. r = H3Bytes cs True)"
    using read_once [OF Suc.prems(1,2), of pread ctx n] by blast
  have b: "body_state ?c out True" by (rule body_state_read [OF Suc.prems(1)])
  show ?case
  proof (cases "k = 0")
    case True
    with Suc.prems(4) r(2) have e: "unsent (h3_chunks st') = []" by simp
    with b r(1) have "bytes_read ?c = out" by (auto simp: body_state_def)
    with e r(3,4) True show ?thesis by auto
  next
    case False
    with Suc.prems(3,4) have "length (unsent (h3_chunks st')) < k" unfolding r(2) length_drop by linarith
    from Suc.IH [OF b r(1) Suc.prems(3) this] show ?thesis by simp
  qed
qed simp

text \<open>
  A streamed response arrives whole: whatever the interleaving of the handler's writes, the reads and the acknowledgements, what nghttp3
  was given is at any time the beginning of the response's body followed by what the handler wrote before it ended the body, in
  that order; and when the handler has ended it, finitely many reads give all of it, the last one with the end mark.
\<close>

theorem h3_streamed_body_delivered:
  assumes "c_stream c = Some st" "h3_chunks st = no_chunks" "h3_file_fd st = - 1" "\<not> h3_ended st" "c_writer c = Some w"
    "\<not> h2_headers_sent w" "\<not> suppress_body w" "c_reads c = []" "file_fd (prepare_response w res) = - 1" "list_all body_event es" "0 < n"
  shows "let out = res_body (prepare_response w res) @ written es; c' = fold (cell_step pread ctx True) (H3SendHeaders now res # es) c
    in prefix (bytes_read c') out \<and>
       (H3End \<in> set es \<longrightarrow>
         (\<exists>m. \<forall>k\<ge>m. bytes_read (fold (cell_step pread ctx True) (replicate k (H3Read n)) c') = out \<and>
           (\<exists>cs. last (c_reads (fold (cell_step pread ctx True) (replicate k (H3Read n)) c')) = H3Bytes cs True)))"
proof -
  let ?b = "res_body (prepare_response w res)"
  let ?c1 = "cell_step pread ctx True (H3SendHeaders now res) c"
  let ?c' = "fold (cell_step pread ctx True) es ?c1"
  have "concat (unsent (chunks_push ?b no_chunks)) = ?b" "handed_out (chunks_push ?b no_chunks) \<le> length (chunks (chunks_push ?b no_chunks))"
    by (simp_all add: chunks_push_def no_chunks_def unsent_def)
  then have "body_state ?c1 ?b False"
    using assms(1-9) unfolding body_state_def
    by (simp add: h3_send_headers_def on_writer_def h3_submit_response_def put_cell_stream_def bytes_read_def Let_def)
  from body_state_run [OF this assms(10), of pread ctx]
  have s: "body_state ?c' (?b @ written es) (H3End \<in> set es)" by simp
  then obtain st' where st': "c_stream ?c' = Some st'" "bytes_read ?c' @ concat (unsent (h3_chunks st')) = ?b @ written es"
    unfolding body_state_def by blast
  have p: "prefix (bytes_read ?c') (?b @ written es)" by (metis prefixI st'(2))
  have "\<exists>m. \<forall>k\<ge>m. bytes_read (fold (cell_step pread ctx True) (replicate k (H3Read n)) ?c') = ?b @ written es \<and>
      (\<exists>cs. last (c_reads (fold (cell_step pread ctx True) (replicate k (H3Read n)) ?c')) = H3Bytes cs True)" if "H3End \<in> set es"
    using reads_finish [of ?c' "?b @ written es" st' n _ pread ctx] s that st'(1) assms(11)
    by (intro exI [of _ "Suc (length (unsent (h3_chunks st')))"]) auto
  with p show ?thesis unfolding Let_def fold_simps by blast
qed

theorem h3_streamed_body_delivered_witness:
  "\<exists>c m. bytes_read (fold (cell_step (\<lambda>_ _ _. None) ctx True) (replicate m (H3Read 1))
      (fold (cell_step (\<lambda>_ _ _. None) ctx True) [H3SendHeaders now new_response, H3Chunk ''ab'', H3Read 1, H3Acked 2, H3Chunk ''c'', H3End] c)) = ''abc''"
proof -
  let ?c = "empty_cell\<lparr>c_stream := Some new_h3_stream, c_writer := Some (new_h2_writer False [])\<rparr>"
  let ?w = "new_h2_writer False []"
  let ?es = "[H3Chunk ''ab'', H3Read 1, H3Acked 2, H3Chunk ''c'', H3End]"
  have p: "prepare_response ?w new_response = new_response"
    by (simp add: prepare_response_def new_h2_writer_def new_writer_def writer.defs)
  have w: "\<not> h2_headers_sent ?w" "\<not> suppress_body ?w" "file_fd (prepare_response ?w new_response) = - 1"
    unfolding p by (simp_all add: new_h2_writer_def writer.defs new_response_def)
  have c: "c_stream ?c = Some new_h3_stream" "h3_chunks new_h3_stream = no_chunks" "h3_file_fd new_h3_stream = - 1" "\<not> h3_ended new_h3_stream"
    "c_writer ?c = Some ?w" "c_reads ?c = []"
    by (simp_all add: empty_cell_def new_h3_stream_def)
  have e: "list_all body_event ?es" "(0::nat) < 1" by (simp_all add: body_event_def)
  have o: "res_body (prepare_response ?w new_response) @ written ?es = ''abc''" unfolding p by (simp add: new_response_def)
  have "H3End \<in> set ?es" by simp
  with h3_streamed_body_delivered [OF c(1-5) w(1,2) c(6) w(3) e, of "\<lambda>_ _ _. None" ctx now] o show ?thesis
    unfolding Let_def o by blast
qed


section \<open>Requests\<close>

text \<open>The callbacks for a request with the given fields, whose body arrives in pieces.\<close>

definition h3_request_events :: "string \<Rightarrow> (string \<times> string) list \<Rightarrow> string list \<Rightarrow> h3_event list" where
  "h3_request_events now fs cs =
     H3BeginHeaders # map (\<lambda>(k, v). H3Header k v) fs @ [H3EndHeaders now (cs = [])] @ map H3Data cs @ [H3EndStream now]"

text \<open>A request without its version and the owner of its field texts, and the status of a response.\<close>

definition plain_request :: "HttpRequest \<Rightarrow> HttpRequest" where
  "plain_request r = r\<lparr>http_version := [], owned_header_storage := []\<rparr>"

fun plain_task :: "pool_task \<Rightarrow> pool_task" where
  "plain_task (RunHandler r) = RunHandler (plain_request r)"
| "plain_task MarkClosed = MarkClosed"

fun h2_call_status :: "h2_call \<Rightarrow> string option" where
  "h2_call_status (SubmitResponse hs _) = map_of hs '':status''"
| "h2_call_status ResumeData = None"

fun h3_call_status :: "h3_call \<Rightarrow> string option" where
  "h3_call_status (H3SubmitResponse hs _) = map_of hs '':status''"
| "h3_call_status H3ResumeStream = None"

lemma join_cookies_snoc:
  "join_cookies (hs @ [(k, v)]) = (if k = ''cookie'' then (if join_cookies hs \<noteq> [] then join_cookies hs @ ''; '' else join_cookies hs) @ v else join_cookies hs)"
  by (simp add: join_cookies_def)

definition header_fold :: "(string \<times> string) list \<Rightarrow> headers" where
  "header_fold hs = fold (\<lambda>(k, v) hs. if k = ''cookie'' then hs else hdr_set k v hs) hs []"

lemma header_fold_snoc: "header_fold (hs @ [(k, v)]) = (if k = ''cookie'' then header_fold hs else hdr_set k v (header_fold hs))"
  by (simp add: header_fold_def)

definition fields_related :: "Http3Stream \<Rightarrow> StreamContext \<Rightarrow> bool" where
  "fields_related st c \<longleftrightarrow>
     \<not> headers_complete st \<and> \<not> dispatched st \<and> h3_body st = [] \<and> \<not> h3_body_too_large st \<and> backing_body c = [] \<and> \<not> body_too_large c \<and>
     h3_path st = backing_uri c \<and> h3_cookie st = join_cookies (backing_headers c) \<and>
     (\<exists>os m u. h3_request st = empty_request\<lparr>req_method := m, req_headers := header_fold (backing_headers c), owned_header_storage := os\<rparr> \<and>
        ctx_request c = empty_request\<lparr>req_method := m, req_uri := u, req_target := u\<rparr>)"

lemma fields_related_step: "fields_related st c \<Longrightarrow> fields_related (h3_put_field k v st) (put_field k v c)"
proof -
  assume r: "fields_related st c"
  then obtain os m u where q: "h3_request st = empty_request\<lparr>req_method := m, req_headers := header_fold (backing_headers c), owned_header_storage := os\<rparr>"
    "ctx_request c = empty_request\<lparr>req_method := m, req_uri := u, req_target := u\<rparr>" by (auto simp: fields_related_def)
  have f: "\<not> headers_complete st" using r by (simp add: fields_related_def)
  have e: "set_header n v (empty_request\<lparr>req_method := m, req_headers := hs, owned_header_storage := os\<rparr>) =
      empty_request\<lparr>req_method := m, req_headers := hdr_set n v hs, owned_header_storage := os @ [n, v]\<rparr>" for n hs
    by (simp add: set_header_def empty_request_def)
  consider "k = '':method''" | "k = '':path''" | "k = '':authority''" | "k = ''cookie''" | "k = [] \<or> hd k = CHR '':''" "k \<noteq> '':method''" "k \<noteq> '':path''" "k \<noteq> '':authority''" "k \<noteq> ''cookie''"
    | "k \<noteq> []" "hd k \<noteq> CHR '':''" "k \<noteq> ''cookie''" by argo
  then show ?thesis
  proof cases
    case 1
    with r q f show ?thesis by (simp add: fields_related_def h3_put_field_def put_field_def empty_request_def)
  next
    case 2
    have "(empty_request\<lparr>req_method := m, req_uri := u, req_target := u\<rparr>)\<lparr>req_uri := v, req_target := v\<rparr> = empty_request\<lparr>req_method := m, req_uri := v, req_target := v\<rparr>"
      by (simp add: empty_request_def)
    with 2 r q f show ?thesis by (auto simp: fields_related_def h3_put_field_def put_field_def)
  next
    case 3
    with r q f show ?thesis by (auto simp: fields_related_def h3_put_field_def put_field_def e header_fold_snoc join_cookies_snoc)
  next
    case 4
    with r q f show ?thesis by (auto simp: fields_related_def h3_put_field_def put_field_def e header_fold_snoc join_cookies_snoc)
  next
    case 5
    with r f show ?thesis by (auto simp: h3_put_field_def put_field_def)
  next
    case 6
    then have "k \<noteq> '':method''" "k \<noteq> '':path''" "k \<noteq> '':authority''" by fastforce+
    with 6 r q f show ?thesis by (auto simp: fields_related_def h3_put_field_def put_field_def e header_fold_snoc join_cookies_snoc)
  qed
qed

lemma fields_related_fold:
  "fields_related (fold (\<lambda>(k, v). h3_put_field k v) fs new_h3_stream) (fold (\<lambda>(k, v). put_field k v) fs new_stream)"
proof (induction fs rule: rev_induct)
  case Nil
  have "empty_request = empty_request\<lparr>req_method := UNKNOWN, req_headers := [], owned_header_storage := []\<rparr>"
    "empty_request = empty_request\<lparr>req_method := UNKNOWN, req_uri := [], req_target := []\<rparr>" by (simp_all add: empty_request_def)
  then show ?case unfolding fields_related_def
    by (simp add: new_h3_stream_def new_stream_def join_cookies_def header_fold_def) blast
next
  case (snoc f fs)
  then show ?case by (cases f) (simp add: fields_related_step)
qed

lemma target_alt:
  "apply_request_target p r =
     map_option (\<lambda>(u, q). r\<lparr>req_target := p, req_uri := u, req_query := q\<rparr>)
       (Option.bind (percent_decode False True (fst (split_at (CHR ''?'') p)))
         (\<lambda>u. map_option (Pair u) (case snd (split_at (CHR ''?'') p) of None \<Rightarrow> Some (req_query r) | Some q \<Rightarrow> parse_urlencoded q (req_query r))))"
  by (cases "split_at (CHR ''?'') p"; cases "percent_decode False True (fst (split_at (CHR ''?'') p))")
    (auto simp: apply_request_target_def Let_def option.map_comp comp_def split: option.split)

lemma gathers_related:
  assumes "fields_related st c"
  shows "\<exists>r2. gather_fields (c\<lparr>backing_body := b\<rparr>) = r2 \<and>
    plain_request (h3_gather (st\<lparr>h3_body := b\<rparr>)) = plain_request (r2\<lparr>req_uri := [], req_target := []\<rparr>) \<and> req_query r2 = Map.empty \<and>
    req_query (h3_gather (st\<lparr>h3_body := b\<rparr>)) = Map.empty"
proof -
  obtain os m u where q: "h3_request st = empty_request\<lparr>req_method := m, req_headers := header_fold (backing_headers c), owned_header_storage := os\<rparr>"
    "ctx_request c = empty_request\<lparr>req_method := m, req_uri := u, req_target := u\<rparr>" "h3_cookie st = join_cookies (backing_headers c)"
    using assms by (auto simp: fields_related_def)
  then show ?thesis
    by (simp add: gather_fields_def h3_gather_def Let_def plain_request_def set_header_def header_fold_def empty_request_def)
qed

text \<open>What a request comes to: a refusal with a status, or the request that is handled.\<close>

definition h3_outcome :: "Http3Stream \<Rightarrow> int + HttpRequest" where
  "h3_outcome st =
     (if h3_body_too_large st then Inl 413
      else case apply_request_target (h3_path st) (h3_gather st) of None \<Rightarrow> Inl 400 | Some r \<Rightarrow> Inr r)"

definition h2_outcome :: "StreamContext \<Rightarrow> int + HttpRequest" where
  "h2_outcome c =
     (if body_too_large c then Inl 413
      else case apply_request_target (backing_uri c) (gather_fields c) of None \<Rightarrow> Inl 400 | Some r \<Rightarrow> Inr r)"

lemma outcomes_same:
  assumes "fields_related st c"
  shows "map_sum id plain_request (h3_outcome (st\<lparr>h3_body := b\<rparr>)) = map_sum id plain_request (h2_outcome (c\<lparr>backing_body := b\<rparr>))"
proof -
  let ?r3 = "h3_gather (st\<lparr>h3_body := b\<rparr>)" and ?r2 = "gather_fields (c\<lparr>backing_body := b\<rparr>)"
  have g: "plain_request ?r3 = plain_request (?r2\<lparr>req_uri := [], req_target := []\<rparr>)" "req_query ?r2 = Map.empty" "req_query ?r3 = Map.empty"
    using gathers_related [OF assms, of b] by auto
  have p: "plain_request (?r3\<lparr>req_target := p, req_uri := x, req_query := y\<rparr>) = plain_request (?r2\<lparr>req_target := p, req_uri := x, req_query := y\<rparr>)" for p x y
    using g(1) unfolding plain_request_def by (cases ?r3; cases ?r2) simp
  have "h3_path st = backing_uri c" "\<not> h3_body_too_large st" "\<not> body_too_large c" using assms by (simp_all add: fields_related_def)
  then show ?thesis
    by (simp add: h3_outcome_def h2_outcome_def target_alt [of _ ?r3] target_alt [of _ ?r2] g(2,3) p split: option.split)
qed

lemma cell_fields:
  "c_stream c = Some st \<Longrightarrow> fold (cell_step pread ctx True) (map (\<lambda>(k, v). H3Header k v) fs) c =
     c\<lparr>c_stream := Some (fold (\<lambda>(k, v). h3_put_field k v) fs st)\<rparr>"
proof (induction fs arbitrary: c st)
  case (Cons f fs)
  obtain k v where f: "f = (k, v)" by fastforce
  let ?c = "c\<lparr>c_stream := Some (h3_put_field k v st)\<rparr>"
  have "cell_step pread ctx True (H3Header k v) c = ?c" using Cons.prems by (simp add: put_cell_stream_def cell_stream_def)
  with Cons.IH [of ?c] f show ?case by simp
qed simp

lemma cell_data:
  "c_stream c = Some st \<Longrightarrow> fold (cell_step pread ctx True) (map H3Data cs) c =
     c\<lparr>c_stream := Some (fold (h3_add_body (ctx_max_body ctx)) cs st), c_credit := c_credit c @ map length cs\<rparr>"
proof (induction cs arbitrary: c st)
  case (Cons d cs)
  let ?c = "c\<lparr>c_stream := Some (h3_add_body (ctx_max_body ctx) d st), c_credit := c_credit c @ [length d]\<rparr>"
  have "cell_step pread ctx True (H3Data d) c = ?c" using Cons.prems by (simp add: h3_recv_data_def put_cell_stream_def cell_stream_def)
  with Cons.IH [of ?c] show ?case by simp
qed simp

lemma h3_add_bodies:
  assumes "limit_bytes \<noteq> 0" "\<not> h3_body_too_large st" "length (h3_body st) \<le> limit_bytes"
  shows "fold (h3_add_body limit_bytes) cs st =
    (if length (h3_body st) + length (concat cs) > limit_bytes then st\<lparr>h3_body_too_large := True, h3_body := []\<rparr>
     else st\<lparr>h3_body := h3_body st @ concat cs\<rparr>)"
  using assms
proof (induction cs arbitrary: st)
  case (Cons d cs)
  show ?case
  proof (cases "length (h3_body st) + length d > limit_bytes")
    case True
    have big: "fold (h3_add_body limit_bytes) xs (st\<lparr>h3_body_too_large := True, h3_body := []\<rparr>) = st\<lparr>h3_body_too_large := True, h3_body := []\<rparr>" for xs
      by (induction xs) (simp_all add: h3_add_body_def)
    from True Cons.prems have "h3_add_body limit_bytes d st = st\<lparr>h3_body_too_large := True, h3_body := []\<rparr>" by (simp add: h3_add_body_def)
    with True big show ?thesis by simp
  next
    case False
    with Cons.prems have "h3_add_body limit_bytes d st = st\<lparr>h3_body := h3_body st @ d\<rparr>" by (simp add: h3_add_body_def)
    with False Cons.prems Cons.IH [of "st\<lparr>h3_body := h3_body st @ d\<rparr>"] show ?thesis by simp
  qed
qed simp

text \<open>
  A limit of 0 means no limit to HTTP/3; the limit under which HTTP/2 takes the same bodies is then
  one that the body just fits.
\<close>

definition h2_equal_limit :: "nat \<Rightarrow> string list \<Rightarrow> nat" where
  "h2_equal_limit limit_bytes cs = (if limit_bytes = 0 then length (concat cs) else limit_bytes)"

lemma h3_add_bodies_unlimited:
  "\<not> h3_body_too_large st \<Longrightarrow> fold (h3_add_body 0) cs st = st\<lparr>h3_body := h3_body st @ concat cs\<rparr>"
  by (induction cs arbitrary: st) (simp_all add: h3_add_body_def)

lemma h3_add_bodies_equal_limit:
  assumes "\<not> h3_body_too_large st" "h3_body st = []"
  shows "fold (h3_add_body limit_bytes) cs st =
    (if length (concat cs) > h2_equal_limit limit_bytes cs then st\<lparr>h3_body_too_large := True, h3_body := []\<rparr>
     else st\<lparr>h3_body := concat cs\<rparr>)"
  using assms h3_add_bodies [of limit_bytes st cs] h3_add_bodies_unlimited [of st cs]
  by (cases "limit_bytes = 0") (simp_all add: h2_equal_limit_def)

lemma submit_status_cell:
  assumes "c_stream c = Some st"
  shows "c_tasks (h3_submit_status now n c) = c_tasks c \<and> c_stream (h3_submit_status now n c) = Some st \<and>
    map h3_call_status (c_calls (h3_submit_status now n c)) = map h3_call_status (c_calls c) @ [Some (show_int n)]"
  using assms
  by (simp add: h3_submit_status_def h3_submit_response_def Let_def cell_close_def res_header_def new_response_def h3_response_headers_def)

lemma handle_outcome:
  assumes "ctx_ready ctx"
  shows "c_tasks (handle_request ctx now st c) =
      c_tasks c @ (case h3_outcome st of Inl _ \<Rightarrow> [] | Inr r \<Rightarrow> [RunHandler (r\<lparr>client_ip := ctx_ip ctx, peer_ip := ctx_ip ctx\<rparr>)]) \<and>
    map h3_call_status (c_calls (handle_request ctx now st c)) =
      map h3_call_status (c_calls c) @ (case h3_outcome st of Inl n \<Rightarrow> [Some (show_int n)] | Inr _ \<Rightarrow> []) \<and>
    (\<exists>st'. c_stream (handle_request ctx now st c) = Some st' \<and> dispatched st')"
proof -
  have put: "c_stream (put_cell_stream x c) = Some x" "c_tasks (put_cell_stream x c) = c_tasks c" "c_calls (put_cell_stream x c) = c_calls c" for x
    by (simp_all add: put_cell_stream_def)
  show ?thesis
  proof (cases "h3_body_too_large st")
    case True
    with assms submit_status_cell [OF put(1), of now 413 "st\<lparr>dispatched := True\<rparr>"] show ?thesis
      by (simp add: handle_request_def Let_def h3_outcome_def put)
  next
    case False
    show ?thesis
    proof (cases "apply_request_target (h3_path st) (h3_gather st)")
      case None
      with False assms submit_status_cell [OF put(1), of now 400 "st\<lparr>dispatched := True, h3_request := h3_gather st\<rparr>"] show ?thesis
        by (simp add: handle_request_def Let_def h3_outcome_def put)
    next
      case (Some r)
      with False assms show ?thesis by (simp add: handle_request_def Let_def h3_outcome_def)
    qed
  qed
qed

lemma end_after_dispatch: "c_stream c = Some st \<Longrightarrow> dispatched st \<Longrightarrow> cell_step pread ctx True (H3EndStream now) c = c"
  by (simp add: on_end_stream_def Let_def cell_stream_def put_cell_stream_def)

lemma h3_outcome_flag [simp]: "h3_outcome (st\<lparr>headers_complete := b\<rparr>) = h3_outcome st"
proof -
  have "h3_gather (st\<lparr>headers_complete := b\<rparr>) = h3_gather st" by (simp add: h3_gather_def Let_def)
  then show ?thesis by (simp add: h3_outcome_def)
qed

lemma h3_request_outcome:
  fixes fs cs ctx pread now
  defines "st \<equiv> fold (\<lambda>(k, v). h3_put_field k v) fs new_h3_stream"
  assumes "ctx_ready ctx"
  defines "o' \<equiv> h3_outcome (if length (concat cs) > h2_equal_limit (ctx_max_body ctx) cs then st\<lparr>h3_body_too_large := True, h3_body := []\<rparr> else st\<lparr>h3_body := concat cs\<rparr>)"
  shows "c_tasks (fold (cell_step pread ctx True) (h3_request_events now fs cs) empty_cell) =
      (case o' of Inl _ \<Rightarrow> [] | Inr r \<Rightarrow> [RunHandler (r\<lparr>client_ip := ctx_ip ctx, peer_ip := ctx_ip ctx\<rparr>)]) \<and>
    map h3_call_status (c_calls (fold (cell_step pread ctx True) (h3_request_events now fs cs) empty_cell)) =
      (case o' of Inl n \<Rightarrow> [Some (show_int n)] | Inr _ \<Rightarrow> [])"
proof -
  have st: "\<not> headers_complete st" "\<not> dispatched st" "h3_body st = []" "\<not> h3_body_too_large st"
    using fields_related_fold [of fs] by (simp_all add: st_def fields_related_def)
  let ?c0 = "empty_cell\<lparr>c_stream := Some new_h3_stream\<rparr>"
  let ?c1 = "?c0\<lparr>c_stream := Some st\<rparr>" and ?st' = "st\<lparr>headers_complete := True\<rparr>"
  have b: "cell_step pread ctx True H3BeginHeaders empty_cell = ?c0" by (simp add: put_cell_stream_def cell_stream_def empty_cell_def)
  have f: "fold (cell_step pread ctx True) (map (\<lambda>(k, v). H3Header k v) fs) ?c0 = ?c1"
    using cell_fields [of ?c0 new_h3_stream pread ctx fs] by (simp add: st_def)
  have run: "fold (cell_step pread ctx True) (h3_request_events now fs cs) empty_cell =
      cell_step pread ctx True (H3EndStream now) (fold (cell_step pread ctx True) (map H3Data cs) (cell_step pread ctx True (H3EndHeaders now (cs = [])) ?c1))"
    by (simp only: h3_request_events_def fold_append fold_simps append_Cons o_apply b f)
  have e: "c_tasks ?c1 = []" "c_calls ?c1 = []" "cell_stream ?c1 = st" by (simp_all add: empty_cell_def cell_stream_def)
  show ?thesis
  proof (cases "cs = []")
    case True
    have "cell_step pread ctx True (H3EndHeaders now True) ?c1 = handle_request ctx now ?st' ?c1"
      using st e(3) by (simp add: h3_end_headers_def Let_def)
    moreover have "st = st\<lparr>h3_body := []\<rparr>" using st(3) by simp
    then have "h3_outcome ?st' = o'" using True by (simp add: o'_def)
    ultimately show ?thesis
      using handle_outcome [OF assms(2), of now ?st' ?c1] end_after_dispatch [of "handle_request ctx now ?st' ?c1" _ pread ctx now] True e
      unfolding run by (auto simp del: cell_step.simps)
  next
    case False
    let ?c2 = "?c1\<lparr>c_stream := Some ?st'\<rparr>"
    let ?st2 = "if length (concat cs) > h2_equal_limit (ctx_max_body ctx) cs then ?st'\<lparr>h3_body_too_large := True, h3_body := []\<rparr> else ?st'\<lparr>h3_body := concat cs\<rparr>"
    let ?c3 = "?c2\<lparr>c_stream := Some ?st2, c_credit := c_credit ?c2 @ map length cs\<rparr>"
    have h: "cell_step pread ctx True (H3EndHeaders now False) ?c1 = ?c2"
      using e(3) by (simp add: h3_end_headers_def Let_def put_cell_stream_def)
    have d: "fold (cell_step pread ctx True) (map H3Data cs) ?c2 = ?c3"
      using cell_data [of ?c2 ?st' pread ctx cs] h3_add_bodies_equal_limit [of ?st' "ctx_max_body ctx" cs] st by simp
    have n: "cell_step pread ctx True (H3EndStream now) ?c3 = handle_request ctx now ?st2 ?c3"
      using st by (simp add: on_end_stream_def Let_def cell_stream_def)
    have o2: "h3_outcome ?st2 = o'"
    proof -
      have "?st2 = (if length (concat cs) > h2_equal_limit (ctx_max_body ctx) cs then st\<lparr>h3_body_too_large := True, h3_body := []\<rparr> else st\<lparr>h3_body := concat cs\<rparr>)
          \<lparr>headers_complete := True\<rparr>" by simp
      then show ?thesis unfolding o'_def by (simp only: h3_outcome_flag)
    qed
    have t: "c_tasks ?c3 = []" "c_calls ?c3 = []" using e by simp_all
    have c: "(cs = []) = False" using False by simp
    have "fold (cell_step pread ctx True) (h3_request_events now fs cs) empty_cell = handle_request ctx now ?st2 ?c3"
      unfolding run c h d n ..
    then show ?thesis using handle_outcome [OF assms(2), of now ?st2 ?c3] unfolding o2 t by (simp only: append_Nil list.map(1) simp_thms)
  qed
qed

lemma h2_request_outcome:
  fixes fs cs m i now ty ip pread
  defines "c \<equiv> fold (\<lambda>(k, v). put_field k v) fs new_stream"
  assumes "ty \<noteq> OTHER"
  defines "o' \<equiv> h2_outcome (if length (concat cs) > m then c\<lparr>body_too_large := True, backing_body := []\<rparr> else c\<lparr>backing_body := concat cs\<rparr>)"
  defines "v \<equiv> view i (h2_run pread (request_events i now fs cs ty) (new_session ip m))"
  shows "v_pool v = (case o' of Inl _ \<Rightarrow> [] | Inr r \<Rightarrow> [RunHandler (r\<lparr>http_version := ''HTTP/2'', client_ip := ip, peer_ip := ip\<rparr>)]) \<and>
    map h2_call_status (v_calls v) = (case o' of Inl n \<Rightarrow> [Some (show_int n)] | Inr _ \<Rightarrow> [])"
proof -
  let ?c' = "if length (concat cs) > m then c\<lparr>body_too_large := True, backing_body := []\<rparr> else c\<lparr>backing_body := concat cs\<rparr>"
  let ?s = "set_stream i ?c' (new_session ip m)"
  have "\<not> body_too_large c" "backing_body c = []"
    using fields_related_fold [of fs] by (simp_all add: c_def fields_related_def)
  then have "fold (add_body m) cs c = ?c'" using add_bodies [of c m cs] by simp
  moreover have "h2_max_body_size (new_session ip m) = m" by (simp add: new_session_def)
  ultimately have v: "v = view i (if body_too_large ?c' then submit_status_locked now i 413 ?s else dispatch_stream now i ?c' ?s)"
    unfolding v_def by (subst run_request [OF assms(2)]) (simp only: Let_def c_def [symmetric])
  have n: "v_pool (view i ?s) = []" "v_calls (view i ?s) = []" "h2_client_ip ?s = ip"
    by (simp_all add: view_def new_session_def set_stream_def of_stream_def)
  show ?thesis
  proof (cases "body_too_large ?c'")
    case True
    then have "o' = Inl 413" unfolding o'_def h2_outcome_def by simp
    with True n show ?thesis unfolding v by (simp add: submit_status_locked_def build_response_headers_def new_response_def)
  next
    case False
    show ?thesis
    proof (cases "apply_request_target (backing_uri ?c') (gather_fields ?c')")
      case None
      then have "o' = Inl 400" using False unfolding o'_def h2_outcome_def by simp
      with False None n show ?thesis
        unfolding v by (simp add: dispatch_stream_def Let_def submit_status_locked_def build_response_headers_def new_response_def)
    next
      case (Some r)
      then have "o' = Inr r" using False unfolding o'_def h2_outcome_def by simp
      with False Some n show ?thesis unfolding v by (simp add: dispatch_stream_def Let_def)
    qed
  qed
qed

text \<open>A limit of 0, which HTTP/3 takes as no limit, makes HTTP/2 refuse every request with a body.\<close>

lemma h2_limit_zero_refuses:
  assumes "ty \<noteq> OTHER" "concat cs \<noteq> []"
  shows "let v = view i (h2_run pread (request_events i now fs cs ty) (new_session ip 0))
    in v_pool v = [] \<and> map h2_call_status (v_calls v) = [Some (show_int 413)]"
  using h2_request_outcome [OF assms(1), where m = 0 and fs = fs and cs = cs and i = i and pread = pread and now = now and ip = ip] assms(2)
  by (simp add: Let_def h2_outcome_def)

text \<open>
  C3: A request over HTTP/3 is the one that HTTP/2 gives: for any header fields and any body in any pieces, interleaved with other
  streams, the request that is handed to the router is that of an HTTP/2 stream with the same fields and body, apart from the version,
  and when one of the two refuses a request (a body over the limit, a target that does not decode) the other does, with the same
  status. The two sides have the same \<open>max_body_size\<close> unless it is 0: HTTP/3 then has no limit and gives what HTTP/2 gives under
  a limit that the body just fits, whereas HTTP/2 with the limit 0 refuses every request with a body, with 413.
\<close>

theorem h3_request_as_http2:
  assumes "ctx_ready ctx" "ty \<noteq> OTHER" "None \<notin> set es" "events_of j es = h3_request_events now fs cs"
  shows "let c = cells (h3_run pread ctx es new_h3_session) j;
             v = \<lambda>limit_bytes. view i (h2_run pread' (request_events i now' fs cs ty) (new_session (ctx_ip ctx) limit_bytes));
             m = (if ctx_max_body ctx = 0 then length (concat cs) else ctx_max_body ctx)
    in map plain_task (c_tasks c) = map plain_task (v_pool (v m)) \<and> map h3_call_status (c_calls c) = map h2_call_status (v_calls (v m)) \<and>
       (ctx_max_body ctx = 0 \<and> concat cs \<noteq> [] \<longrightarrow>
          v_pool (v (ctx_max_body ctx)) = [] \<and> map h2_call_status (v_calls (v (ctx_max_body ctx))) = [Some ''413''])"
proof -
  let ?m = "h2_equal_limit (ctx_max_body ctx) cs"
  let ?st = "fold (\<lambda>(k, v). h3_put_field k v) fs new_h3_stream" and ?c = "fold (\<lambda>(k, v). put_field k v) fs new_stream"
  let ?o3 = "h3_outcome (if length (concat cs) > ?m then ?st\<lparr>h3_body_too_large := True, h3_body := []\<rparr> else ?st\<lparr>h3_body := concat cs\<rparr>)"
  let ?o2 = "h2_outcome (if length (concat cs) > ?m then ?c\<lparr>body_too_large := True, backing_body := []\<rparr> else ?c\<lparr>backing_body := concat cs\<rparr>)"
  have o: "map_sum id plain_request ?o3 = map_sum id plain_request ?o2"
    using outcomes_same [OF fields_related_fold [of fs], of "concat cs"]
    by (cases "length (concat cs) > ?m") (simp_all add: h3_outcome_def [of "_\<lparr>h3_body_too_large := True, h3_body := _\<rparr>"] h2_outcome_def [of "_\<lparr>body_too_large := True, backing_body := _\<rparr>"])
  have run: "cells (h3_run pread ctx es new_h3_session) j = fold (cell_step pread ctx True) (h3_request_events now fs cs) empty_cell"
    using h3_run_cell [OF assms(3), of new_h3_session pread ctx j] assms(4) by (simp add: new_h3_session_def)
  have p: "plain_request (r\<lparr>http_version := v, client_ip := a, peer_ip := a\<rparr>) = (plain_request r)\<lparr>client_ip := a, peer_ip := a\<rparr>"
    "plain_request (r\<lparr>client_ip := a, peer_ip := a\<rparr>) = (plain_request r)\<lparr>client_ip := a, peer_ip := a\<rparr>"
    "plain_request (r\<lparr>http_version := v\<rparr>) = plain_request r" for r v a
    by (simp_all add: plain_request_def)
  have m: "(if ctx_max_body ctx = 0 then length (concat cs) else ctx_max_body ctx) = ?m" by (simp add: h2_equal_limit_def)
  let ?v = "view i (h2_run pread' (request_events i now' fs cs ty) (new_session (ctx_ip ctx) ?m))"
  let ?h = "cells (h3_run pread ctx es new_h3_session) j"
  have s: "map plain_task (c_tasks ?h) = map plain_task (v_pool ?v) \<and> map h3_call_status (c_calls ?h) = map h2_call_status (v_calls ?v)"
    unfolding run
    using h3_request_outcome [OF assms(1), where pread = pread and now = now and fs = fs and cs = cs]
      h2_request_outcome [OF assms(2), where m = ?m and fs = fs and cs = cs and i = i and pread = pread' and now = now' and ip = "ctx_ip ctx"] o
    by (cases ?o3; cases ?o2) (simp_all add: p)
  have "show_int 413 = ''413''" by code_simp
  with s h2_limit_zero_refuses [OF assms(2), of cs i pread' now' fs "ctx_ip ctx"] show ?thesis
    unfolding Let_def m by simp
qed

theorem h3_request_as_http2_witness:
  "\<exists>r r'. c_tasks (cells (h3_run (\<lambda>_ _ _. None) \<lparr>ctx_ready = True, ctx_max_body = 10, ctx_ip = ''9''\<rparr>
         (map (\<lambda>e. Some (4, e)) (h3_request_events [] [('':method'', ''POST''), ('':path'', ''/a'')] [''b''])) new_h3_session) 4) = [RunHandler r] \<and>
     v_pool (view 1 (h2_run (\<lambda>_ _ _. None) (request_events 1 [] [('':method'', ''POST''), ('':path'', ''/a'')] [''b''] DATA) (new_session ''9'' 10))) = [RunHandler r'] \<and>
     plain_request r = plain_request r'"
proof -
  let ?fs = "[('':method'', ''POST''), ('':path'', ''/a'')]"
  let ?ctx = "\<lparr>ctx_ready = True, ctx_max_body = 10, ctx_ip = ''9''\<rparr>"
  let ?es = "map (\<lambda>e. Some (4, e)) (h3_request_events [] ?fs [''b''])"
  let ?v = "view 1 (h2_run (\<lambda>_ _ _. None) (request_events 1 [] ?fs [''b''] DATA) (new_session ''9'' 10))"
  let ?t = "c_tasks (cells (h3_run (\<lambda>_ _ _. None) ?ctx ?es new_h3_session) 4)"
  have e: "ctx_ready ?ctx" "DATA \<noteq> OTHER" "None \<notin> set ?es" "events_of 4 ?es = h3_request_events [] ?fs [''b'']"
    by (auto simp: events_of_def comp_def)
  have t: "map plain_task ?t = map plain_task (v_pool ?v)"
    using h3_request_as_http2 [OF e, of "\<lambda>_ _ _. None" 1 "\<lambda>_ _ _. None" "[]"] by (simp add: Let_def)
  let ?c = "fold (\<lambda>(k, v). put_field k v) ?fs new_stream\<lparr>backing_body := ''b''\<rparr>"
  have "percent_decode False True ''/a'' = Some ''/a''" "split_at (CHR ''?'') ''/a'' = (''/a'', None)" by code_simp+
  then obtain r2 where "h2_outcome ?c = Inr r2"
    by (simp add: h2_outcome_def put_field_def new_stream_def apply_request_target_def)
  then obtain r' where r': "v_pool ?v = [RunHandler r']"
    using h2_request_outcome [OF e(2), where m = 10 and fs = ?fs and cs = "[''b'']" and i = 1 and pread = "\<lambda>_ _ _. None" and now = "[]" and ip = "''9''"] by simp
  with t obtain x where x: "?t = [x]" "plain_task x = RunHandler (plain_request r')" by (cases ?t) auto
  then obtain r where "x = RunHandler r" "plain_request r = plain_request r'" by (cases x) auto
  with x(1) r' show ?thesis by blast
qed

text \<open>As over HTTP/2, the cookies of a response are not sent.\<close>

lemma h3_cookies_lost: "h3_response_headers now (set_cookie k r) = h3_response_headers now r"
  by (simp add: h3_response_headers_def set_cookie_def)

end
