(* ===== verification/Server_Config.thy ===== *)
theory Server_Config
  imports Json_Values
begin

text \<open>
  The server's configuration (\<^verbatim>\<open>src/config/ConfigFile.cpp\<close>, \<^verbatim>\<open>src/config/Config.cpp\<close>): the keys of the file's server section, the
  environment variables laid over it, and the command line. Reading the file, and parsing and printing of JSON, are outside: a
  document is a JSON value, the environment a list of entries. Of an error only the path that names the key is kept, not the text
  that describes the value.

  The theorems: the server section is accepted exactly when every key is known and has a value it may have, and then the
  configuration is within its bounds; an error names the key; a later source wins; and the flag suggested for one that is not known
  is chosen by the edit distance of the textbook.
\<close>

section \<open>The configuration\<close>

datatype EventEngine = Epoll | IoUring | EngineAuto

datatype HttpVersion = Http1_1 | Http2 | Http3

type_synonym TlsCertificate = "string \<times> string"

record ServerConfig =
  port :: nat
  host :: string
  backlog :: nat
  max_connections :: nat
  worker_threads :: nat
  event_loops :: nat
  cpu_affinity :: bool
  log_level :: string
  log_format :: string
  static_dir :: string
  cfg_max_body_size :: nat
  ssl_cert :: string
  ssl_key :: string
  sni_certificates :: "TlsCertificate list"
  tls_reload_interval :: nat
  engine :: EventEngine
  cfg_http_version :: HttpVersion
  header_timeout :: nat
  keep_alive_timeout :: nat
  idle_timeout :: nat
  websocket_idle_timeout :: nat
  websocket_ping_interval :: nat
  max_header_bytes :: nat
  cfg_max_request_line :: nat
  cfg_max_headers :: nat
  websocket_max_message_size :: nat
  shutdown_timeout :: nat

definition default_config :: ServerConfig where
  "default_config =
     \<lparr>port = 8080, host = ''0.0.0.0'', backlog = 0, max_connections = 0, worker_threads = 4, event_loops = 0, cpu_affinity = False,
      log_level = ''INFO'', log_format = ''text'', static_dir = ''./public'', cfg_max_body_size = 10485760, ssl_cert = [], ssl_key = [],
      sni_certificates = [], tls_reload_interval = 0, engine = Epoll, cfg_http_version = Http1_1, header_timeout = 10,
      keep_alive_timeout = 10, idle_timeout = 30, websocket_idle_timeout = 0, websocket_ping_interval = 0, max_header_bytes = 8192,
      cfg_max_request_line = 4096, cfg_max_headers = 100, websocket_max_message_size = 16 * 1024 * 1024, shutdown_timeout = 30\<rparr>"


section \<open>Values of keys\<close>

text \<open>An error is the path of the key.\<close>

fun is_count :: "json \<Rightarrow> nat option" where
  "is_count (JUnsigned n) = Some n"
| "is_count (JInt i) = (if i \<ge> 0 then Some (nat i) else None)"
| "is_count _ = None"

definition as_count :: "string \<Rightarrow> json \<Rightarrow> nat \<Rightarrow> nat \<Rightarrow> string + nat" where
  "as_count path v lo hi = (case is_count v of Some n \<Rightarrow> if n < lo \<or> n > hi then Inl path else Inr n | None \<Rightarrow> Inl path)"

fun is_number_integer :: "json \<Rightarrow> bool" where
  "is_number_integer (JInt _) = True"
| "is_number_integer (JUnsigned _) = True"
| "is_number_integer _ = False"

definition count_or_auto :: "string \<Rightarrow> json \<Rightarrow> nat \<Rightarrow> nat \<Rightarrow> string + nat" where
  "count_or_auto path v lo hi =
     (if v = JString ''auto'' then Inr 0 else if \<not> is_number_integer v then Inl path else as_count path v lo hi)"

definition as_string :: "string \<Rightarrow> json \<Rightarrow> string + string" where
  "as_string path v = (case v of JString s \<Rightarrow> Inr s | _ \<Rightarrow> Inl path)"

definition as_bool :: "string \<Rightarrow> json \<Rightarrow> string + bool" where
  "as_bool path v = (case v of JBool b \<Rightarrow> Inr b | _ \<Rightarrow> Inl path)"

definition as_seconds :: "string \<Rightarrow> json \<Rightarrow> string + nat" where
  "as_seconds path v = as_count path v 0 (2 ^ 31 - 1)"

definition one_of :: "string \<Rightarrow> string \<Rightarrow> string list \<Rightarrow> string + string" where
  "one_of path v allowed = (if v \<in> set allowed then Inr v else Inl path)"

definition bind_result :: "'e + 'a \<Rightarrow> ('a \<Rightarrow> 'e + 'b) \<Rightarrow> 'e + 'b" where
  "bind_result r f = (case r of Inl e \<Rightarrow> Inl e | Inr a \<Rightarrow> f a)"

definition map_result :: "('a \<Rightarrow> 'b) \<Rightarrow> 'e + 'a \<Rightarrow> 'e + 'b" where
  "map_result f r = bind_result r (\<lambda>a. Inr (f a))"

text \<open>One certificate of \<^verbatim>\<open>sni_certificates\<close>: the first unknown key is refused, then a missing one, then a value that is no string.\<close>

definition sni_entry :: "string \<Rightarrow> json \<Rightarrow> string + TlsCertificate" where
  "sni_entry item entry =
     (case entry of
        JObject fs \<Rightarrow>
          (case filter (\<lambda>k. k \<noteq> ''cert'' \<and> k \<noteq> ''key'') (map fst fs) of
             k # _ \<Rightarrow> Inl (item @ ''.'' @ k)
           | [] \<Rightarrow>
               (case (map_of fs ''cert'', map_of fs ''key'') of
                  (Some c, Some k) \<Rightarrow>
                    bind_result (as_string (item @ ''.cert'') c) (\<lambda>cert. bind_result (as_string (item @ ''.key'') k) (\<lambda>key. Inr (cert, key)))
                | _ \<Rightarrow> Inl item))
      | _ \<Rightarrow> Inl item)"

fun sni_list :: "string \<Rightarrow> nat \<Rightarrow> json list \<Rightarrow> string + TlsCertificate list" where
  "sni_list p i [] = Inr []"
| "sni_list p i (e # es) =
     bind_result (sni_entry (p @ ''['' @ show_nat i @ '']'') e) (\<lambda>c. map_result ((#) c) (sni_list p (i + 1) es))"

definition engine_of :: "string \<Rightarrow> EventEngine" where
  "engine_of e = (if e = ''epoll'' then Epoll else if e = ''iouring'' then IoUring else EngineAuto)"

definition version_of :: "string \<Rightarrow> HttpVersion" where
  "version_of s = (if s = ''1.1'' then Http1_1 else if s = ''2'' then Http2 else Http3)"

definition kMax :: nat where
  "kMax = 2 ^ 63 - 1"

text \<open>The text of a number is the JSON library's; for the others the value has to be a string.\<close>

definition version_text_of :: "(json \<Rightarrow> string) \<Rightarrow> string \<Rightarrow> json \<Rightarrow> string + string" where
  "version_text_of dump p v =
     (case v of
        JString s \<Rightarrow> Inr s | JInt _ \<Rightarrow> Inr (dump v) | JUnsigned _ \<Rightarrow> Inr (dump v) | JFloat _ \<Rightarrow> Inr (dump v) | _ \<Rightarrow> as_string p v)"

definition toupper :: "char \<Rightarrow> char" where
  "toupper c = (if 97 \<le> byte_of c \<and> byte_of c \<le> 122 then char_of (byte_of c - 32) else c)"

text \<open>The known keys with their setters.\<close>

type_synonym setter = "json \<Rightarrow> string \<Rightarrow> ServerConfig \<Rightarrow> string + ServerConfig"

definition server_keys :: "(json \<Rightarrow> string) \<Rightarrow> (string \<times> setter) list" where
  "server_keys dump =
     [(''port'', \<lambda>v p c. map_result (\<lambda>n. c\<lparr>port := n\<rparr>) (as_count p v 0 65535)),
      (''host'', \<lambda>v p c. map_result (\<lambda>s. c\<lparr>host := s\<rparr>) (as_string p v)),
      (''backlog'', \<lambda>v p c. map_result (\<lambda>n. c\<lparr>backlog := n\<rparr>) (as_count p v 0 (2 ^ 31 - 1))),
      (''max_connections'', \<lambda>v p c. map_result (\<lambda>n. c\<lparr>max_connections := n\<rparr>) (as_count p v 0 kMax)),
      (''worker_threads'', \<lambda>v p c. map_result (\<lambda>n. c\<lparr>worker_threads := n\<rparr>) (count_or_auto p v 1 4096)),
      (''event_loops'', \<lambda>v p c. map_result (\<lambda>n. c\<lparr>event_loops := n\<rparr>) (count_or_auto p v 1 1024)),
      (''cpu_affinity'', \<lambda>v p c. map_result (\<lambda>b. c\<lparr>cpu_affinity := b\<rparr>) (as_bool p v)),
      (''log_level'', \<lambda>v p c. bind_result (as_string p v) (\<lambda>s.
          map_result (\<lambda>l. c\<lparr>log_level := l\<rparr>) (one_of p (map toupper s) [''DEBUG'', ''INFO'', ''WARN'', ''ERROR'']))),
      (''log_format'', \<lambda>v p c. bind_result (as_string p v) (\<lambda>s. map_result (\<lambda>f. c\<lparr>log_format := f\<rparr>) (one_of p s [''text'', ''json'']))),
      (''static_dir'', \<lambda>v p c. map_result (\<lambda>s. c\<lparr>static_dir := s\<rparr>) (as_string p v)),
      (''max_body_size'', \<lambda>v p c. map_result (\<lambda>n. c\<lparr>cfg_max_body_size := n\<rparr>) (as_count p v 0 kMax)),
      (''ssl_cert'', \<lambda>v p c. map_result (\<lambda>s. c\<lparr>ssl_cert := s\<rparr>) (as_string p v)),
      (''ssl_key'', \<lambda>v p c. map_result (\<lambda>s. c\<lparr>ssl_key := s\<rparr>) (as_string p v)),
      (''sni_certificates'', \<lambda>v p c. case v of JArray es \<Rightarrow> map_result (\<lambda>cs. c\<lparr>sni_certificates := cs\<rparr>) (sni_list p 0 es) | _ \<Rightarrow> Inl p),
      (''tls_reload_interval'', \<lambda>v p c. map_result (\<lambda>n. c\<lparr>tls_reload_interval := n\<rparr>) (as_seconds p v)),
      (''engine'', \<lambda>v p c. bind_result (as_string p v) (\<lambda>s. map_result (\<lambda>e. c\<lparr>engine := engine_of e\<rparr>) (one_of p s [''epoll'', ''iouring'', ''auto'']))),
      (''http_version'', \<lambda>v p c. bind_result (version_text_of dump p v) (\<lambda>s.
          map_result (\<lambda>t. c\<lparr>cfg_http_version := version_of t\<rparr>) (one_of p s [''1.1'', ''2'', ''3'']))),
      (''header_timeout'', \<lambda>v p c. map_result (\<lambda>n. c\<lparr>header_timeout := n\<rparr>) (as_seconds p v)),
      (''keep_alive_timeout'', \<lambda>v p c. map_result (\<lambda>n. c\<lparr>keep_alive_timeout := n\<rparr>) (as_seconds p v)),
      (''idle_timeout'', \<lambda>v p c. map_result (\<lambda>n. c\<lparr>idle_timeout := n\<rparr>) (as_seconds p v)),
      (''websocket_idle_timeout'', \<lambda>v p c. map_result (\<lambda>n. c\<lparr>websocket_idle_timeout := n\<rparr>) (as_seconds p v)),
      (''websocket_ping_interval'', \<lambda>v p c. map_result (\<lambda>n. c\<lparr>websocket_ping_interval := n\<rparr>) (as_seconds p v)),
      (''shutdown_timeout'', \<lambda>v p c. map_result (\<lambda>n. c\<lparr>shutdown_timeout := n\<rparr>) (as_seconds p v)),
      (''max_header_bytes'', \<lambda>v p c. map_result (\<lambda>n. c\<lparr>max_header_bytes := n\<rparr>) (as_count p v 1 kMax)),
      (''max_request_line'', \<lambda>v p c. map_result (\<lambda>n. c\<lparr>cfg_max_request_line := n\<rparr>) (as_count p v 1 kMax)),
      (''max_headers'', \<lambda>v p c. map_result (\<lambda>n. c\<lparr>cfg_max_headers := n\<rparr>) (as_count p v 1 kMax)),
      (''websocket_max_message_size'', \<lambda>v p c. map_result (\<lambda>n. c\<lparr>websocket_max_message_size := n\<rparr>) (as_count p v 1 kMax))]"

definition server_key :: "(json \<Rightarrow> string) \<Rightarrow> string \<Rightarrow> setter option" where
  "server_key dump key = map_of (server_keys dump) key"

fun server_items :: "(json \<Rightarrow> string) \<Rightarrow> (string \<times> json) list \<Rightarrow> ServerConfig \<Rightarrow> string + ServerConfig" where
  "server_items dump [] c = Inr c"
| "server_items dump ((k, v) # fs) c =
     (case server_key dump k of
        None \<Rightarrow> Inl (''server.'' @ k)
      | Some set_key \<Rightarrow> bind_result (set_key v (''server.'' @ k) c) (server_items dump fs))"

definition server_from_json :: "(json \<Rightarrow> string) \<Rightarrow> json \<Rightarrow> string + ServerConfig" where
  "server_from_json dump section_value =
     (case section_value of
        JNull \<Rightarrow> Inr default_config
      | JObject fs \<Rightarrow> server_items dump fs default_config
      | _ \<Rightarrow> Inl ''server'')"


section \<open>The environment\<close>

definition to_lower_text :: "string \<Rightarrow> string" where
  "to_lower_text s = map tolower s"

definition env_value :: "(string \<Rightarrow> json option) \<Rightarrow> string \<Rightarrow> json" where
  "env_value parse raw = (case parse raw of None \<Rightarrow> JString raw | Some JNull \<Rightarrow> JString raw | Some v \<Rightarrow> v)"

function split_levels :: "string \<Rightarrow> string list" where
  "split_levels s = (case find_sub ''__'' s of None \<Rightarrow> [s] | Some i \<Rightarrow> take i s # split_levels (drop (i + 2) s))"
  by pat_completeness auto
termination
  by (relation "measure length") (auto dest: find_sub_Some)

declare split_levels.simps [simp del]

fun set_path :: "string list \<Rightarrow> json \<Rightarrow> (string \<times> json) list \<Rightarrow> (string \<times> json) list" where
  "set_path [] v fs = fs"
| "set_path [k] v fs = fields_put k v fs"
| "set_path (k # ks) v fs = fields_put k (JObject (set_path ks v (case map_of fs k of Some (JObject gs) \<Rightarrow> gs | _ \<Rightarrow> []))) fs"

text \<open>The path an entry sets, and its value; none for an entry that is not for the server.\<close>

definition env_setting :: "(json \<Rightarrow> string) \<Rightarrow> (string \<Rightarrow> json option) \<Rightarrow> string \<Rightarrow> (string list \<times> json) option" where
  "env_setting dump parse entry =
     (case split_at (CHR ''='') entry of
        (_, None) \<Rightarrow> None
      | (name, Some val) \<Rightarrow>
          if length name \<le> 6 \<or> to_lower_text (take 6 name) \<noteq> ''orbit_'' then None
          else let rest = to_lower_text (drop 6 name)
               in if find_sub ''__'' rest = None
                  then (case server_key dump rest of None \<Rightarrow> None | Some _ \<Rightarrow> Some ([''server'', rest], env_value parse val))
                  else if [] \<in> set (split_levels rest) then None
                  else Some (split_levels rest, env_value parse val))"

definition apply_entry :: "(json \<Rightarrow> string) \<Rightarrow> (string \<Rightarrow> json option) \<Rightarrow> string \<Rightarrow> (string \<times> json) list \<Rightarrow> (string \<times> json) list" where
  "apply_entry dump parse entry doc =
     (case env_setting dump parse entry of None \<Rightarrow> doc | Some (path, v) \<Rightarrow> set_path path v doc)"

definition apply_environment :: "(json \<Rightarrow> string) \<Rightarrow> (string \<Rightarrow> json option) \<Rightarrow> string list \<Rightarrow> (string \<times> json) list \<Rightarrow> (string \<times> json) list" where
  "apply_environment dump parse entries doc = fold (apply_entry dump parse) entries doc"


section \<open>The command line\<close>

definition kSwitches :: "string list" where
  "kSwitches = [''--cpu-affinity'', ''-h'', ''--help'']"

definition kValueFlags :: "string list" where
  "kValueFlags =
     [''-p'', ''--port'', ''-b'', ''--bind'', ''--host'', ''--backlog'', ''--max-connections'', ''-t'', ''--threads'',
      ''--event-loops'', ''--log-format'', ''-l'', ''--log-level'', ''-s'', ''--static-dir'', ''-m'', ''--max-body-size'',
      ''-c'', ''--ssl-cert'', ''-k'', ''--ssl-key'', ''--sni-cert'', ''--tls-reload-interval'', ''-e'', ''--engine'',
      ''-v'', ''--http-version'']"

definition takes_value :: "string \<Rightarrow> bool" where
  "takes_value arg \<longleftrightarrow> arg \<in> set kValueFlags"

definition parse_integer :: "string \<Rightarrow> nat \<Rightarrow> nat \<Rightarrow> nat option" where
  "parse_integer v lo hi =
     (case from_chars_signed (- (2 ^ 63)) (2 ^ 63 - 1) v of
        Some (n, []) \<Rightarrow> if v = [] \<or> n < int lo \<or> n > int hi then None else Some (nat n)
      | _ \<Rightarrow> None)"

text \<open>The edit distance, by one row of the table: the row above, the value to the left and the one diagonally above.\<close>

fun lev_row :: "char \<Rightarrow> string \<Rightarrow> nat \<Rightarrow> nat \<Rightarrow> nat list \<Rightarrow> nat list" where
  "lev_row x (y # ys) diagonal left (up # row) =
     (let new = min (up + 1) (min (left + 1) (diagonal + (if x = y then 0 else 1)))
      in new # lev_row x ys up new row)"
| "lev_row x _ _ _ _ = []"

fun lev_rows :: "nat \<Rightarrow> string \<Rightarrow> string \<Rightarrow> nat list \<Rightarrow> nat list" where
  "lev_rows i [] b row = row"
| "lev_rows i (x # a) b row = lev_rows (i + 1) a b (i # lev_row x b (hd row) i (tl row))"

definition distance :: "string \<Rightarrow> string \<Rightarrow> nat" where
  "distance a b = lev_rows 1 a b [0..<length b + 1] ! length b"

definition consider_flag :: "string \<Rightarrow> string \<Rightarrow> string \<times> nat \<Rightarrow> string \<times> nat" where
  "consider_flag arg candidate best =
     (if \<not> prefix ''--'' candidate then best
      else let d = distance arg candidate
           in if d < snd best \<and> d * 2 \<le> length candidate - 2 then (candidate, d) else best)"

definition closest_flag :: "string \<Rightarrow> string" where
  "closest_flag arg = (if \<not> prefix ''--'' arg then [] else fst (fold (consider_flag arg) (kValueFlags @ kSwitches) ([], 3)))"

text \<open>
  The process prints its help and ends, or prints an error and ends, or goes on with a configuration and the reports it printed of
  unknown arguments (each with the flag it suggests).
\<close>

datatype cli_result = ExitHelp | ExitError string | Parsed ServerConfig "(string \<times> string) list"

datatype ParseMode = Lenient | Strict

definition auto_or :: "string \<Rightarrow> nat \<Rightarrow> nat option" where
  "auto_or v hi = (if v = ''auto'' then Some 0 else parse_integer v 1 hi)"

text \<open>A flag with one value: nothing for another argument, else the configuration or an error.\<close>

definition value_flag :: "string \<Rightarrow> string \<Rightarrow> ServerConfig \<Rightarrow> ServerConfig option option" where
  "value_flag arg v c =
     (if arg \<in> {''-p'', ''--port''} then Some (map_option (\<lambda>n. c\<lparr>port := n\<rparr>) (parse_integer v 0 65535))
      else if arg \<in> {''-b'', ''--bind'', ''--host''} then Some (Some (c\<lparr>host := v\<rparr>))
      else if arg = ''--backlog'' then Some (map_option (\<lambda>n. c\<lparr>backlog := n\<rparr>) (parse_integer v 0 (2 ^ 31 - 1)))
      else if arg = ''--max-connections'' then Some (map_option (\<lambda>n. c\<lparr>max_connections := n\<rparr>) (parse_integer v 0 kMax))
      else if arg \<in> {''-t'', ''--threads''} then Some (map_option (\<lambda>n. c\<lparr>worker_threads := n\<rparr>) (auto_or v kMax))
      else if arg = ''--event-loops'' then Some (map_option (\<lambda>n. c\<lparr>event_loops := n\<rparr>) (auto_or v 1024))
      else if arg = ''--log-format'' then Some (Some (c\<lparr>log_format := v\<rparr>))
      else if arg \<in> {''-l'', ''--log-level''} then Some (Some (c\<lparr>log_level := v\<rparr>))
      else if arg \<in> {''-s'', ''--static-dir''} then Some (Some (c\<lparr>static_dir := v\<rparr>))
      else if arg \<in> {''-m'', ''--max-body-size''} then Some (map_option (\<lambda>n. c\<lparr>cfg_max_body_size := n\<rparr>) (parse_integer v 0 kMax))
      else if arg \<in> {''-c'', ''--ssl-cert''} then Some (Some (c\<lparr>ssl_cert := v\<rparr>))
      else if arg \<in> {''-k'', ''--ssl-key''} then Some (Some (c\<lparr>ssl_key := v\<rparr>))
      else if arg = ''--tls-reload-interval'' then Some (map_option (\<lambda>n. c\<lparr>tls_reload_interval := n\<rparr>) (parse_integer v 0 kMax))
      else if arg \<in> {''-e'', ''--engine''} then Some (if v \<in> {''epoll'', ''iouring'', ''auto''} then Some (c\<lparr>engine := engine_of v\<rparr>) else None)
      else if arg \<in> {''-v'', ''--http-version''} then Some (if v \<in> {''1.1'', ''2'', ''3''} then Some (c\<lparr>cfg_http_version := version_of v\<rparr>) else None)
      else None)"

function parse_args :: "ParseMode \<Rightarrow> string list \<Rightarrow> ServerConfig \<Rightarrow> (string \<times> string) list \<Rightarrow> cli_result" where
  "parse_args mode [] c out = Parsed c out"
| "parse_args mode (arg # rest) c out =
     (if arg \<in> {''-h'', ''--help''} then ExitHelp
      else if arg = ''--cpu-affinity'' then parse_args mode rest (c\<lparr>cpu_affinity := True\<rparr>) out
      else if arg = ''--sni-cert'' \<and> length rest \<ge> 2
           then parse_args mode (drop 2 rest) (c\<lparr>sni_certificates := sni_certificates c @ [(rest ! 0, rest ! 1)]\<rparr>) out
      else case (if rest = [] then None else value_flag arg (hd rest) c) of
             Some (Some c') \<Rightarrow> parse_args mode (tl rest) c' out
           | Some None \<Rightarrow> ExitError arg
           | None \<Rightarrow>
               if takes_value arg \<or> mode = Strict then ExitError arg
               else parse_args mode rest c (out @ [(arg, closest_flag arg)]))"
  by pat_completeness auto
termination
  by (relation "measure (\<lambda>(mode, args, c, out). length args)") auto

section \<open>All sources\<close>

datatype config_result = ConfigError string | Exits cli_result | Config ServerConfig "(string \<times> json) list" "(string \<times> string) list"

text \<open>\<^verbatim>\<open>from_json\<close>: the document, the environment, then the command line (none when there are no arguments at all).\<close>

definition config_from_json ::
  "(json \<Rightarrow> string) \<Rightarrow> (string \<Rightarrow> json option) \<Rightarrow> string list \<Rightarrow> json \<Rightarrow> string list option \<Rightarrow> ParseMode \<Rightarrow> config_result" where
  "config_from_json dump parse env document args mode =
     (case (case document of JNull \<Rightarrow> Some [] | JObject fs \<Rightarrow> Some fs | _ \<Rightarrow> None) of
        None \<Rightarrow> ConfigError ''configuration''
      | Some fs0 \<Rightarrow>
          (let fs = apply_environment dump parse env fs0
           in case server_from_json dump (case map_of fs ''server'' of Some j \<Rightarrow> j | None \<Rightarrow> JNull) of
                Inl path \<Rightarrow> ConfigError path
              | Inr c \<Rightarrow>
                  (case args of
                     None \<Rightarrow> Config c fs []
                   | Some as \<Rightarrow> (case parse_args mode as c [] of Parsed c' out \<Rightarrow> Config c' fs out | r \<Rightarrow> Exits r))))"

definition config_section :: "string \<Rightarrow> (string \<times> json) list \<Rightarrow> json" where
  "config_section name fs = (case map_of fs name of None \<Rightarrow> JObject [] | Some j \<Rightarrow> j)"


section \<open>The edit distance\<close>

text \<open>
  The reference: an edit script turns one string into another by keeping, deleting, inserting and replacing characters from left to
  right; all but keeping cost one.
\<close>

inductive edits :: "nat \<Rightarrow> string \<Rightarrow> string \<Rightarrow> bool" where
  edits_nil: "edits 0 [] []"
| edits_keep: "edits n a b \<Longrightarrow> edits n (a @ [x]) (b @ [x])"
| edits_delete: "edits n a b \<Longrightarrow> edits (n + 1) (a @ [x]) b"
| edits_insert: "edits n a b \<Longrightarrow> edits (n + 1) a (b @ [y])"
| edits_replace: "edits n a b \<Longrightarrow> edits (n + 1) (a @ [x]) (b @ [y])"

fun lev_rev :: "string \<Rightarrow> string \<Rightarrow> nat" where
  "lev_rev [] t = length t"
| "lev_rev s [] = length s"
| "lev_rev (x # s) (y # t) = min (lev_rev s (y # t) + 1) (min (lev_rev (x # s) t + 1) (lev_rev s t + (if x = y then 0 else 1)))"

lemma lev_rev_bounds: "lev_rev (x # s) t \<le> lev_rev s t + 1" "lev_rev s (y # t) \<le> lev_rev s t + 1" "lev_rev (x # s) (y # t) \<le> lev_rev s t + (if x = y then 0 else 1)"
  by (cases t; simp) (cases s; simp)+

lemma edits_lower: "edits n a b \<Longrightarrow> lev_rev (rev a) (rev b) \<le> n"
proof (induction rule: edits.induct)
  case (edits_keep n a b x)
  then show ?case using lev_rev_bounds(3) [of x "rev a" x "rev b"] by simp
next
  case (edits_delete n a b x)
  then show ?case using lev_rev_bounds(1) [of x "rev a" "rev b"] by simp
next
  case (edits_insert n a b y)
  then show ?case using lev_rev_bounds(2) [of "rev a" y "rev b"] by simp
next
  case (edits_replace n a b x y)
  then show ?case using lev_rev_bounds(3) [of x "rev a" y "rev b"] by (simp split: if_splits)
qed simp

lemma edits_insert_all: "edits (length t) [] (rev t)"
  by (induction t) (use edits.intros(1,4) in auto)

lemma edits_delete_all: "edits (length s) (rev s) []"
  by (induction s) (use edits.intros(1,3) in auto)

lemma edits_upper: "edits (lev_rev s t) (rev s) (rev t)"
proof (induction s t rule: lev_rev.induct)
  case (1 t)
  then show ?case by (simp add: edits_insert_all)
next
  case (2 x s)
  then show ?case using edits_delete_all [of "x # s"] by simp
next
  case (3 x s y t)
  note ih = 3
  have "lev_rev (x # s) (y # t) \<in> {lev_rev s (y # t) + 1, lev_rev (x # s) t + 1, lev_rev s t + (if x = y then 0 else 1)}"
    unfolding lev_rev.simps min_def by simp
  then consider "lev_rev (x # s) (y # t) = lev_rev s (y # t) + 1" | "lev_rev (x # s) (y # t) = lev_rev (x # s) t + 1"
    | "x = y" "lev_rev (x # s) (y # t) = lev_rev s t" | "lev_rev (x # s) (y # t) = lev_rev s t + 1"
    by (cases "x = y") (auto simp del: lev_rev.simps)
  then show ?case
  proof cases
    case 1
    with edits_delete [OF ih(1), of x] show ?thesis by simp
  next
    case 2
    with edits_insert [OF ih(2), of y] show ?thesis by simp
  next
    case 3
    with edits_keep [OF ih(3), of x] show ?thesis by simp
  next
    case 4
    with edits_replace [OF ih(3), of x y] show ?thesis by simp
  qed
qed

definition lev_of :: "string \<Rightarrow> string \<Rightarrow> nat" where
  "lev_of a b = lev_rev (rev a) (rev b)"

lemma lev_of_snoc:
  "lev_of (a @ [x]) (b @ [y]) = min (lev_of a (b @ [y]) + 1) (min (lev_of (a @ [x]) b + 1) (lev_of a b + (if x = y then 0 else 1)))"
  "lev_of [] b = length b" "lev_of a [] = length a"
  by (simp_all add: lev_of_def) (cases "rev a"; simp)

lemma lev_row_correct:
  "lev_row x ys (lev_of a q) (lev_of (a @ [x]) q) (map (\<lambda>j. lev_of a (q @ take (Suc j) ys)) [0..<length ys]) =
     map (\<lambda>j. lev_of (a @ [x]) (q @ take (Suc j) ys)) [0..<length ys]"
proof (induction ys arbitrary: q)
  case (Cons y ys)
  have m: "map (\<lambda>j. f (q @ take (Suc j) (y # ys))) [0..<length (y # ys)] = f (q @ [y]) # map (\<lambda>j. f ((q @ [y]) @ take (Suc j) ys)) [0..<length ys]"
    for f :: "string \<Rightarrow> nat"
    by (simp add: map_upt_Suc del: upt_Suc)
  have "min (lev_of a (q @ [y]) + 1) (min (lev_of (a @ [x]) q + 1) (lev_of a q + (if x = y then 0 else 1))) = lev_of (a @ [x]) (q @ [y])"
    by (simp add: lev_of_snoc(1))
  with Cons.IH [of "q @ [y]"] show ?case unfolding m by (simp add: Let_def)
qed simp

lemma lev_rows_correct:
  "lev_rows (length p + 1) a b (map (\<lambda>j. lev_of p (take j b)) [0..<length b + 1]) = map (\<lambda>j. lev_of (p @ a) (take j b)) [0..<length b + 1]"
proof (induction a arbitrary: p)
  case (Cons x a)
  have m: "map (\<lambda>j. f (take j b)) [0..<length b + 1] = f [] # map (\<lambda>j. f ([] @ take (Suc j) b)) [0..<length b]" for f :: "string \<Rightarrow> nat"
    by (simp add: map_upt_Suc del: upt_Suc)
  have "lev_row x b (lev_of p []) (lev_of (p @ [x]) []) (map (\<lambda>j. lev_of p ([] @ take (Suc j) b)) [0..<length b]) =
      map (\<lambda>j. lev_of (p @ [x]) ([] @ take (Suc j) b)) [0..<length b]"
    by (rule lev_row_correct)
  then have "(length p + 1) # lev_row x b (hd (map (\<lambda>j. lev_of p (take j b)) [0..<length b + 1])) (length p + 1) (tl (map (\<lambda>j. lev_of p (take j b)) [0..<length b + 1])) =
      map (\<lambda>j. lev_of (p @ [x]) (take j b)) [0..<length b + 1]"
    unfolding m by (simp add: lev_of_snoc(3))
  with Cons.IH [of "p @ [x]"] show ?case by simp
qed simp

lemma distance_lev: "distance a b = lev_of a b"
proof -
  have e: "[0..<length b + 1] = map (\<lambda>j. lev_of [] (take j b)) [0..<length b + 1]"
    by (rule nth_equalityI) (auto simp: lev_of_snoc(2) less_Suc_eq_le simp del: upt_Suc)
  have "lev_rows 1 a b [0..<length b + 1] = map (\<lambda>j. lev_of a (take j b)) [0..<length b + 1]"
    using lev_rows_correct [of "[]" a b, unfolded append_Nil list.size(3) add_0 e [symmetric]] .
  then show ?thesis unfolding distance_def by (simp del: upt_Suc)
qed

text \<open>
  The distance by which a suggestion is chosen, computed row by row in place, is the least number of characters to insert, delete and
  replace.
\<close>

theorem distance_is_least_edits: "edits (distance a b) a b \<and> distance a b = (LEAST n. edits n a b)"
proof
  show e: "edits (distance a b) a b" using edits_upper [of "rev a" "rev b"] by (simp add: distance_lev lev_of_def)
  show "distance a b = (LEAST n. edits n a b)"
    by (rule sym, rule Least_equality [where P = "\<lambda>n. edits n a b"]) (use e in \<open>auto simp: distance_lev lev_of_def dest: edits_lower\<close>)
qed


section \<open>What is accepted\<close>

definition config_ok :: "ServerConfig \<Rightarrow> bool" where
  "config_ok c \<longleftrightarrow>
     port c \<le> 65535 \<and> backlog c < 2 ^ 31 \<and> worker_threads c \<le> 4096 \<and> event_loops c \<le> 1024 \<and>
     log_level c \<in> {''DEBUG'', ''INFO'', ''WARN'', ''ERROR''} \<and> log_format c \<in> {''text'', ''json''} \<and>
     (\<forall>n \<in> {max_connections c, cfg_max_body_size c}. n \<le> kMax) \<and>
     (\<forall>n \<in> {max_header_bytes c, cfg_max_request_line c, cfg_max_headers c, websocket_max_message_size c}. 1 \<le> n \<and> n \<le> kMax) \<and>
     (\<forall>n \<in> {tls_reload_interval c, header_timeout c, keep_alive_timeout c, idle_timeout c, websocket_idle_timeout c, websocket_ping_interval c,
            shutdown_timeout c}. n < 2 ^ 31)"

text \<open>
  What the documentation says of the section (\<^verbatim>\<open>docs/getting_started.md\<close> and the comments of \<^verbatim>\<open>Config.hpp\<close>): the kind of value
  each key takes. A count is a whole number between two bounds; a count of threads or loops may also be \<open>"auto"\<close>; a level
  is one of four words in any case; the version may be written as a string or a number.
\<close>

datatype value_kind =
    Count nat nat | AutoCount nat | Text | Switch | OneOf "string list" | Level | Version | Certificates

definition key_table :: "(string \<times> value_kind) list" where
  "key_table =
     [(''port'', Count 0 65535), (''host'', Text), (''backlog'', Count 0 2147483647), (''max_connections'', Count 0 9223372036854775807),
      (''worker_threads'', AutoCount 4096), (''event_loops'', AutoCount 1024), (''cpu_affinity'', Switch), (''log_level'', Level),
      (''log_format'', OneOf [''text'', ''json'']), (''static_dir'', Text), (''max_body_size'', Count 0 9223372036854775807),
      (''ssl_cert'', Text), (''ssl_key'', Text), (''sni_certificates'', Certificates), (''tls_reload_interval'', Count 0 2147483647),
      (''engine'', OneOf [''epoll'', ''iouring'', ''auto'']), (''http_version'', Version), (''header_timeout'', Count 0 2147483647),
      (''keep_alive_timeout'', Count 0 2147483647), (''idle_timeout'', Count 0 2147483647), (''websocket_idle_timeout'', Count 0 2147483647),
      (''websocket_ping_interval'', Count 0 2147483647), (''shutdown_timeout'', Count 0 2147483647),
      (''max_header_bytes'', Count 1 9223372036854775807), (''max_request_line'', Count 1 9223372036854775807),
      (''max_headers'', Count 1 9223372036854775807), (''websocket_max_message_size'', Count 1 9223372036854775807)]"

definition certificate_entry :: "json \<Rightarrow> bool" where
  "certificate_entry e \<longleftrightarrow>
     (\<exists>fs cert key. e = JObject fs \<and> fst ` set fs = {''cert'', ''key''} \<and> map_of fs ''cert'' = Some (JString cert) \<and>
        map_of fs ''key'' = Some (JString key))"

fun may_have :: "(json \<Rightarrow> string) \<Rightarrow> value_kind \<Rightarrow> json \<Rightarrow> bool" where
  "may_have dump (Count lo hi) v \<longleftrightarrow> (\<exists>n. (v = JUnsigned n \<or> v = JInt (int n)) \<and> lo \<le> n \<and> n \<le> hi)"
| "may_have dump (AutoCount hi) v \<longleftrightarrow> v = JString ''auto'' \<or> (\<exists>n. (v = JUnsigned n \<or> v = JInt (int n)) \<and> 1 \<le> n \<and> n \<le> hi)"
| "may_have dump Text v \<longleftrightarrow> (\<exists>s. v = JString s)"
| "may_have dump Switch v \<longleftrightarrow> v = JBool True \<or> v = JBool False"
| "may_have dump (OneOf words) v \<longleftrightarrow> (\<exists>w \<in> set words. v = JString w)"
| "may_have dump Level v \<longleftrightarrow> (\<exists>s. v = JString s \<and> map toupper s \<in> {''DEBUG'', ''INFO'', ''WARN'', ''ERROR''})"
| "may_have dump Version v \<longleftrightarrow>
     v \<in> {JString ''1.1'', JString ''2'', JString ''3''} \<or>
     (case v of JInt _ \<Rightarrow> True | JUnsigned _ \<Rightarrow> True | JFloat _ \<Rightarrow> True | _ \<Rightarrow> False) \<and> dump v \<in> {''1.1'', ''2'', ''3''}"
| "may_have dump Certificates v \<longleftrightarrow> (\<exists>es. v = JArray es \<and> list_all certificate_entry es)"

definition may_stand :: "(json \<Rightarrow> string) \<Rightarrow> string \<times> json \<Rightarrow> bool" where
  "may_stand dump kv \<longleftrightarrow> (case map_of key_table (fst kv) of None \<Rightarrow> False | Some kind \<Rightarrow> may_have dump kind (snd kv))"

text \<open>The configuration, key by key as the file would have it, and what a value of the file means.\<close>

definition config_view :: "ServerConfig \<Rightarrow> (string \<times> json) list" where
  "config_view c =
     [(''port'', JUnsigned (port c)), (''host'', JString (host c)), (''backlog'', JUnsigned (backlog c)),
      (''max_connections'', JUnsigned (max_connections c)), (''worker_threads'', JUnsigned (worker_threads c)),
      (''event_loops'', JUnsigned (event_loops c)), (''cpu_affinity'', JBool (cpu_affinity c)), (''log_level'', JString (log_level c)),
      (''log_format'', JString (log_format c)), (''static_dir'', JString (static_dir c)), (''max_body_size'', JUnsigned (cfg_max_body_size c)),
      (''ssl_cert'', JString (ssl_cert c)), (''ssl_key'', JString (ssl_key c)),
      (''sni_certificates'', JArray (map (\<lambda>(cert, key). JArray [JString cert, JString key]) (sni_certificates c))),
      (''tls_reload_interval'', JUnsigned (tls_reload_interval c)),
      (''engine'', JString (case engine c of Epoll \<Rightarrow> ''epoll'' | IoUring \<Rightarrow> ''iouring'' | EngineAuto \<Rightarrow> ''auto'')),
      (''http_version'', JString (case cfg_http_version c of Http1_1 \<Rightarrow> ''1.1'' | Http2 \<Rightarrow> ''2'' | Http3 \<Rightarrow> ''3'')),
      (''header_timeout'', JUnsigned (header_timeout c)), (''keep_alive_timeout'', JUnsigned (keep_alive_timeout c)),
      (''idle_timeout'', JUnsigned (idle_timeout c)), (''websocket_idle_timeout'', JUnsigned (websocket_idle_timeout c)),
      (''websocket_ping_interval'', JUnsigned (websocket_ping_interval c)), (''shutdown_timeout'', JUnsigned (shutdown_timeout c)),
      (''max_header_bytes'', JUnsigned (max_header_bytes c)), (''max_request_line'', JUnsigned (cfg_max_request_line c)),
      (''max_headers'', JUnsigned (cfg_max_headers c)), (''websocket_max_message_size'', JUnsigned (websocket_max_message_size c))]"

definition certificate_of :: "json \<Rightarrow> json" where
  "certificate_of e =
     (case e of JObject fs \<Rightarrow> JArray [the (map_of fs ''cert''), the (map_of fs ''key'')] | _ \<Rightarrow> JNull)"

fun meaning :: "(json \<Rightarrow> string) \<Rightarrow> value_kind \<Rightarrow> json \<Rightarrow> json" where
  "meaning dump (Count lo hi) v = (case v of JInt i \<Rightarrow> JUnsigned (nat i) | _ \<Rightarrow> v)"
| "meaning dump (AutoCount hi) v = (case v of JInt i \<Rightarrow> JUnsigned (nat i) | JString _ \<Rightarrow> JUnsigned 0 | _ \<Rightarrow> v)"
| "meaning dump Level v = (case v of JString s \<Rightarrow> JString (map toupper s) | _ \<Rightarrow> v)"
| "meaning dump Version v = (case v of JString s \<Rightarrow> v | _ \<Rightarrow> JString (dump v))"
| "meaning dump Certificates v = (case v of JArray es \<Rightarrow> JArray (map certificate_of es) | _ \<Rightarrow> v)"
| "meaning dump _ v = v"

definition put_view :: "string \<Rightarrow> json \<Rightarrow> (string \<times> json) list \<Rightarrow> (string \<times> json) list" where
  "put_view k x view = map (\<lambda>(k', y). (k', if k' = k then x else y)) view"

text \<open>The section read entry by entry: each sets what its key names, and nothing else.\<close>

definition read_entry :: "(json \<Rightarrow> string) \<Rightarrow> string \<times> json \<Rightarrow> (string \<times> json) list \<Rightarrow> (string \<times> json) list" where
  "read_entry dump kv view =
     (case map_of key_table (fst kv) of None \<Rightarrow> view | Some kind \<Rightarrow> put_view (fst kv) (meaning dump kind (snd kv)) view)"

text \<open>What a setter has to do for a key and the kind of value it takes.\<close>

definition setter_ok :: "(json \<Rightarrow> string) \<Rightarrow> string \<times> value_kind \<Rightarrow> string \<times> setter \<Rightarrow> bool" where
  "setter_ok dump entry known \<longleftrightarrow>
     fst entry = fst known \<and>
     (\<forall>v p c. case snd known v p c of
        Inl e \<Rightarrow> \<not> may_have dump (snd entry) v \<and> prefix p e
      | Inr c' \<Rightarrow> may_have dump (snd entry) v \<and> config_view c' = put_view (fst entry) (meaning dump (snd entry) v) (config_view c) \<and>
          (config_ok c \<longrightarrow> config_ok c'))"

lemma bind_result_simps [simp]: "bind_result (Inl e) f = Inl e" "bind_result (Inr a) f = f a"
  by (simp_all add: bind_result_def)

lemma as_count_cases:
  obtains n where "\<And>p. as_count p v lo hi = Inr n" "lo \<le> n" "n \<le> hi" "v = JUnsigned n \<or> v = JInt (int n)"
  | "\<And>p. as_count p v lo hi = Inl p" "\<not> (\<exists>n. (v = JUnsigned n \<or> v = JInt (int n)) \<and> lo \<le> n \<and> n \<le> hi)"
proof (cases "\<exists>n. (v = JUnsigned n \<or> v = JInt (int n)) \<and> lo \<le> n \<and> n \<le> hi")
  case True
  with that(1) show ?thesis by (auto simp: as_count_def)
next
  case False
  then have "as_count p v lo hi = Inl p" for p
    by (cases v) (auto simp: as_count_def not_le intro: ccontr dest: spec [of _ "nat _"])
  with that(2) False show ?thesis by blast
qed

lemma setter_count:
  assumes "\<And>n c. config_view (f n c) = put_view k (JUnsigned n) (config_view c)"
    and "\<And>n c. lo \<le> n \<Longrightarrow> n \<le> hi \<Longrightarrow> config_ok c \<Longrightarrow> config_ok (f n c)"
  shows "setter_ok dump (k, Count lo hi) (k, \<lambda>v p c. map_result (\<lambda>n. f n c) (as_count p v lo hi))"
  unfolding setter_ok_def fst_conv snd_conv
proof (intro conjI refl allI)
  fix v p c
  show "case map_result (\<lambda>n. f n c) (as_count p v lo hi) of
      Inl e \<Rightarrow> \<not> may_have dump (Count lo hi) v \<and> prefix p e
    | Inr c' \<Rightarrow> may_have dump (Count lo hi) v \<and> config_view c' = put_view k (meaning dump (Count lo hi) v) (config_view c) \<and>
        (config_ok c \<longrightarrow> config_ok c')"
    by (cases rule: as_count_cases [of v lo hi]) (auto simp: map_result_def assms)
qed

lemma setter_auto:
  assumes "\<And>n c. config_view (f n c) = put_view k (JUnsigned n) (config_view c)"
    and "\<And>n c. n \<le> hi \<Longrightarrow> config_ok c \<Longrightarrow> config_ok (f n c)"
  shows "setter_ok dump (k, AutoCount hi) (k, \<lambda>v p c. map_result (\<lambda>n. f n c) (count_or_auto p v 1 hi))"
  unfolding setter_ok_def fst_conv snd_conv
proof (intro conjI refl allI)
  fix v p c
  have auto: "count_or_auto p v 1 hi = (if v = JString ''auto'' then Inr 0 else as_count p v 1 hi)"
    by (cases v) (auto simp: count_or_auto_def as_count_def)
  show "case map_result (\<lambda>n. f n c) (count_or_auto p v 1 hi) of
      Inl e \<Rightarrow> \<not> may_have dump (AutoCount hi) v \<and> prefix p e
    | Inr c' \<Rightarrow> may_have dump (AutoCount hi) v \<and> config_view c' = put_view k (meaning dump (AutoCount hi) v) (config_view c) \<and>
        (config_ok c \<longrightarrow> config_ok c')"
  proof (cases "v = JString ''auto''")
    case True
    then show ?thesis unfolding auto by (simp add: map_result_def assms)
  next
    case False
    then show ?thesis unfolding auto
      by (cases rule: as_count_cases [of v 1 hi]) (auto simp: map_result_def assms)
  qed
qed

lemma setter_string:
  assumes "\<And>s c. config_view (f s c) = put_view k (JString s) (config_view c)" "\<And>s c. config_ok c \<Longrightarrow> config_ok (f s c)"
  shows "setter_ok dump (k, Text) (k, \<lambda>v p c. map_result (\<lambda>s. f s c) (as_string p v))"
  by (simp add: setter_ok_def as_string_def map_result_def assms split: json.split)

lemma setter_bool:
  assumes "\<And>b c. config_view (f b c) = put_view k (JBool b) (config_view c)" "\<And>b c. config_ok c \<Longrightarrow> config_ok (f b c)"
  shows "setter_ok dump (k, Switch) (k, \<lambda>v p c. map_result (\<lambda>b. f b c) (as_bool p v))"
  by (auto simp: setter_ok_def as_bool_def map_result_def assms split: json.split)

lemma setter_choice:
  assumes "\<And>s c. s \<in> set words \<Longrightarrow> config_view (f s c) = put_view k (JString s) (config_view c)"
    and "\<And>s c. s \<in> set words \<Longrightarrow> config_ok c \<Longrightarrow> config_ok (f s c)"
  shows "setter_ok dump (k, OneOf words)
    (k, \<lambda>v p c. bind_result (as_string p v) (\<lambda>s. map_result (\<lambda>x. f x c) (one_of p s words)))"
  by (auto simp: setter_ok_def as_string_def one_of_def map_result_def assms split: json.split)

lemma setter_level:
  assumes "\<And>s c. config_view (f s c) = put_view k (JString s) (config_view c)"
    and "\<And>s c. s \<in> {''DEBUG'', ''INFO'', ''WARN'', ''ERROR''} \<Longrightarrow> config_ok c \<Longrightarrow> config_ok (f s c)"
  shows "setter_ok dump (k, Level)
    (k, \<lambda>v p c. bind_result (as_string p v) (\<lambda>s. map_result (\<lambda>x. f x c) (one_of p (map toupper s) [''DEBUG'', ''INFO'', ''WARN'', ''ERROR''])))"
  by (auto simp: setter_ok_def as_string_def one_of_def map_result_def assms split: json.split)

lemma setter_version:
  assumes "\<And>s c. s \<in> {''1.1'', ''2'', ''3''} \<Longrightarrow> config_view (f s c) = put_view k (JString s) (config_view c)"
    and "\<And>s c. config_ok c \<Longrightarrow> config_ok (f s c)"
  shows "setter_ok dump (k, Version)
    (k, \<lambda>v p c. bind_result (version_text_of dump p v) (\<lambda>s. map_result (\<lambda>x. f x c) (one_of p s [''1.1'', ''2'', ''3''])))"
  by (auto simp: setter_ok_def version_text_of_def as_string_def one_of_def map_result_def assms split: json.split)

lemma sni_entry_spec:
  "case sni_entry item e of
     Inl q \<Rightarrow> \<not> certificate_entry e \<and> prefix item q
   | Inr (cert, key) \<Rightarrow> certificate_entry e \<and> certificate_of e = JArray [JString cert, JString key]"
proof (cases e)
  case (JObject fs)
  show ?thesis
  proof (cases "filter (\<lambda>k. k \<noteq> ''cert'' \<and> k \<noteq> ''key'') (map fst fs)")
    case (Cons k ks)
    then have "k \<in> set (filter (\<lambda>k. k \<noteq> ''cert'' \<and> k \<noteq> ''key'') (map fst fs))" by simp
    then have "k \<in> fst ` set fs" "k \<notin> {''cert'', ''key''}" by auto
    then have "\<not> certificate_entry e" using JObject by (auto simp: certificate_entry_def)
    with Cons JObject show ?thesis by (simp add: sni_entry_def)
  next
    case Nil
    then have keys: "fst ` set fs \<subseteq> {''cert'', ''key''}" by (auto simp: filter_empty_conv)
    show ?thesis
    proof (cases "map_of fs ''cert'' = None \<or> map_of fs ''key'' = None")
      case True
      then have "\<not> certificate_entry e" unfolding certificate_entry_def JObject json.inject by (metis option.distinct(1))
      moreover have "sni_entry item e = Inl item" unfolding sni_entry_def JObject json.case Nil list.case using True by (auto split: option.split)
      ultimately show ?thesis by simp
    next
      case False
      then obtain a b where ab: "map_of fs ''cert'' = Some a" "map_of fs ''key'' = Some b" by auto
      then have "''cert'' \<in> fst ` set fs" "''key'' \<in> fst ` set fs" by (force dest: map_of_SomeD)+
      with keys have "fst ` set fs = {''cert'', ''key''}" by blast
      with ab JObject have "certificate_entry e \<longleftrightarrow> (\<exists>s. a = JString s) \<and> (\<exists>s. b = JString s)" by (simp add: certificate_entry_def)
      moreover have "sni_entry item e =
          bind_result (as_string (item @ ''.cert'') a) (\<lambda>cert. bind_result (as_string (item @ ''.key'') b) (\<lambda>key. Inr (cert, key)))"
        unfolding sni_entry_def JObject json.case Nil list.case ab by simp
      moreover have "certificate_of e = JArray [a, b]" using ab JObject by (simp add: certificate_of_def)
      ultimately show ?thesis by (cases a; cases b) (simp_all add: as_string_def)
    qed
  qed
qed (simp_all add: sni_entry_def certificate_entry_def)

lemma sni_list_spec:
  "case sni_list p i es of
     Inl q \<Rightarrow> \<not> list_all certificate_entry es \<and> prefix p q
   | Inr cs \<Rightarrow> list_all certificate_entry es \<and> map certificate_of es = map (\<lambda>(cert, key). JArray [JString cert, JString key]) cs"
proof (induction p i es rule: sni_list.induct)
  case (2 p i e es)
  let ?e = "sni_entry (p @ ''['' @ show_nat i @ '']'') e"
  note spec = sni_entry_spec [where item = "p @ ''['' @ show_nat i @ '']''" and e = e]
  show ?case
  proof (cases ?e)
    case (Inl a)
    with spec show ?thesis by (auto simp: prefix_def)
  next
    case (Inr c)
    with spec 2 show ?thesis by (cases "sni_list p (i + 1) es") (auto simp: map_result_def split: prod.splits)
  qed
qed simp

lemma setter_sni:
  assumes "\<And>cs c. config_view (f cs c) = put_view k (JArray (map (\<lambda>(cert, key). JArray [JString cert, JString key]) cs)) (config_view c)"
    and "\<And>cs c. config_ok c \<Longrightarrow> config_ok (f cs c)"
  shows "setter_ok dump (k, Certificates) (k, \<lambda>v p c. case v of JArray es \<Rightarrow> map_result (\<lambda>cs. f cs c) (sni_list p 0 es) | _ \<Rightarrow> Inl p)"
  unfolding setter_ok_def fst_conv snd_conv
proof (intro conjI refl allI)
  fix v p c
  show "case (case v of JArray es \<Rightarrow> map_result (\<lambda>cs. f cs c) (sni_list p 0 es) | _ \<Rightarrow> Inl p) of
      Inl e \<Rightarrow> \<not> may_have dump Certificates v \<and> prefix p e
    | Inr c' \<Rightarrow> may_have dump Certificates v \<and> config_view c' = put_view k (meaning dump Certificates v) (config_view c) \<and>
        (config_ok c \<longrightarrow> config_ok c')"
  proof (cases v)
    case (JArray es)
    with sni_list_spec [where p = p and i = 0 and es = es] show ?thesis by (cases "sni_list p 0 es") (simp_all add: map_result_def assms)
  qed simp_all
qed

lemma bounds_of_kinds: "(2147483647 :: nat) = 2 ^ 31 - 1" "(9223372036854775807 :: nat) = kMax"
  by (simp_all add: kMax_def)

lemma server_keys_ok: "list_all2 (setter_ok dump) key_table (server_keys dump)"
  unfolding key_table_def server_keys_def list.rel_inject as_seconds_def bounds_of_kinds
  by (intro conjI TrueI setter_count setter_string setter_choice setter_level setter_auto setter_bool setter_version setter_sni)
     (auto simp: config_ok_def config_view_def put_view_def engine_of_def version_of_def)

lemma keys_agree:
  "list_all2 (setter_ok dump) table known \<Longrightarrow>
   (case map_of known k of None \<Rightarrow> map_of table k = None
    | Some g \<Rightarrow> \<exists>kind. map_of table k = Some kind \<and> setter_ok dump (k, kind) (k, g))"
proof (induction rule: list_all2_induct)
  case (Cons x xs y ys)
  then show ?case by (cases x; cases y) (auto simp: setter_ok_def split: option.splits)
qed simp

text \<open>
  C36: The server section is read strictly: it is accepted exactly when every key is one of the documented ones and has a value of the
  kind documented for it (\<open>key_table\<close>, \<open>may_have\<close>); then the configuration is what the entries say, one after
  the other, over the defaults, and nothing else, and it is within its bounds. Otherwise the error names the path of a key that is
  unknown or has a value it may not have.
\<close>

theorem config_read_strictly:
  "case server_from_json dump (JObject fs) of
     Inr c \<Rightarrow> list_all (may_stand dump) fs \<and> config_view c = fold (read_entry dump) fs (config_view default_config) \<and> config_ok c
   | Inl path \<Rightarrow> list_ex (\<lambda>kv. \<not> may_stand dump kv \<and> prefix (''server.'' @ fst kv) path) fs"
proof -
  have d: "config_ok default_config" by (simp add: config_ok_def default_config_def kMax_def)
  have "case server_items dump fs c of
     Inr c' \<Rightarrow> list_all (may_stand dump) fs \<and> config_view c' = fold (read_entry dump) fs (config_view c) \<and> config_ok c'
   | Inl path \<Rightarrow> list_ex (\<lambda>kv. \<not> may_stand dump kv \<and> prefix (''server.'' @ fst kv) path) fs" if "config_ok c" for c
    using that
  proof (induction fs arbitrary: c)
    case (Cons kv fs)
    obtain k v where kv: "kv = (k, v)" by fastforce
    note agree = keys_agree [OF server_keys_ok, of k dump]
    show ?case
    proof (cases "server_key dump k")
      case None
      with kv agree show ?thesis by (simp add: may_stand_def server_key_def)
    next
      case (Some g)
      with agree obtain kind where kind: "map_of key_table k = Some kind" "setter_ok dump (k, kind) (k, g)" by (auto simp: server_key_def)
      note g = kind(2) [unfolded setter_ok_def fst_conv snd_conv, THEN conjunct2, rule_format, of v "''server.'' @ k" c]
      show ?thesis
      proof (cases "g v (''server.'' @ k) c")
        case (Inl e)
        with g Some kv kind show ?thesis by (simp add: may_stand_def)
      next
        case (Inr c')
        with g Cons.prems have c': "config_ok c'" "may_have dump kind v" "config_view c' = put_view k (meaning dump kind v) (config_view c)"
          by auto
        with Cons.IH [OF c'(1)] Inr Some kv kind show ?thesis by (auto simp: may_stand_def read_entry_def split: sum.splits)
      qed
    qed
  qed simp
  from this [OF d] show ?thesis by (simp add: server_from_json_def)
qed

text \<open>One section that is accepted, and one with an engine that does not exist.\<close>

theorem config_read_strictly_witness:
  "(\<exists>c. server_from_json (\<lambda>_. []) (JObject [(''port'', JUnsigned 443), (''engine'', JString ''auto'')]) = Inr c \<and>
      map_of (config_view c) ''port'' = Some (JUnsigned 443) \<and> map_of (config_view c) ''engine'' = Some (JString ''auto'') \<and>
      map_of (config_view c) ''backlog'' = Some (JUnsigned 0) \<and> config_ok c) \<and>
   (\<exists>path. server_from_json (\<lambda>_. []) (JObject [(''port'', JUnsigned 443), (''engine'', JString ''kqueue'')]) = Inl path \<and>
      prefix ''server.engine'' path)"
proof
  let ?good = "[(''port'', JUnsigned 443), (''engine'', JString ''auto'')]" and ?bad = "[(''port'', JUnsigned 443), (''engine'', JString ''kqueue'')]"
  have m: "may_stand (\<lambda>_. []) (''port'', JUnsigned 443)" "may_stand (\<lambda>_. []) (''engine'', JString ''auto'')"
    "\<not> may_stand (\<lambda>_. []) (''engine'', JString ''kqueue'')"
    by (simp_all add: may_stand_def key_table_def)
  then obtain c where c: "server_from_json (\<lambda>_. []) (JObject ?good) = Inr c"
    using config_read_strictly [of "\<lambda>_. []" ?good] by (cases "server_from_json (\<lambda>_. []) (JObject ?good)") auto
  have "map_of (fold (read_entry (\<lambda>_. [])) ?good (config_view default_config)) ''port'' = Some (JUnsigned 443)"
    "map_of (fold (read_entry (\<lambda>_. [])) ?good (config_view default_config)) ''engine'' = Some (JString ''auto'')"
    "map_of (fold (read_entry (\<lambda>_. [])) ?good (config_view default_config)) ''backlog'' = Some (JUnsigned 0)"
    by (simp_all add: read_entry_def key_table_def put_view_def config_view_def default_config_def)
  with c config_read_strictly [of "\<lambda>_. []" ?good]
  show "\<exists>c. server_from_json (\<lambda>_. []) (JObject ?good) = Inr c \<and>
      map_of (config_view c) ''port'' = Some (JUnsigned 443) \<and> map_of (config_view c) ''engine'' = Some (JString ''auto'') \<and>
      map_of (config_view c) ''backlog'' = Some (JUnsigned 0) \<and> config_ok c" by auto
  obtain path where p: "server_from_json (\<lambda>_. []) (JObject ?bad) = Inl path"
    using m config_read_strictly [of "\<lambda>_. []" ?bad] by (cases "server_from_json (\<lambda>_. []) (JObject ?bad)") auto
  with m config_read_strictly [of "\<lambda>_. []" ?bad]
  show "\<exists>path. server_from_json (\<lambda>_. []) (JObject ?bad) = Inl path \<and> prefix ''server.engine'' path" by auto
qed

text \<open>A later source wins over an earlier one.\<close>

fun json_at :: "string list \<Rightarrow> (string \<times> json) list \<Rightarrow> json option" where
  "json_at [] fs = None"
| "json_at [k] fs = map_of fs k"
| "json_at (k # ks) fs = (case map_of fs k of Some (JObject gs) \<Rightarrow> json_at ks gs | _ \<Rightarrow> None)"

lemma json_at_set_path: "ks \<noteq> [] \<Longrightarrow> json_at ks (set_path ks v fs) = Some v"
  by (induction ks v fs rule: set_path.induct) simp_all

lemma last_entry_wins:
  "env_setting dump parse entry = Some (ks, v) \<Longrightarrow> ks \<noteq> [] \<Longrightarrow> json_at ks (apply_environment dump parse (es @ [entry]) doc) = Some v"
  by (simp add: apply_environment_def apply_entry_def json_at_set_path)

text \<open>
  The file checks the log level and format against the values they may have; the command line takes any text, although a malformed
  value of a flag is documented as fatal.
\<close>

lemma cli_log_format_unchecked: "parse_args Strict [''--log-format'', v] c [] = Parsed (c\<lparr>log_format := v\<rparr>) []"
  by (simp add: value_flag_def)

end
