(* ===== verification/OAuth2_Flow.thy ===== *)
theory OAuth2_Flow
  imports Response_Writer Json_Values
begin

text \<open>
  The OAuth2 authorization-code flow (\<^verbatim>\<open>src/middleware/OAuth2.cpp\<close>): the redirect to the provider and the callback. Random bytes,
  OpenSSL's base64 and SHA-256, the JSON parser and the HTTP client are parameters; a call of the client is a request and its
  answer, and the callback gives the requests it made besides its outcome.

  The theorems: the provider is asked only in answer to a callback whose state is that of the browser's cookie, and then with a
  form that decodes to the flow's fields; what a login asks for comes back to its callback.
\<close>

section \<open>The flow\<close>

record OAuth2Config =
  client_id :: string
  client_secret :: string
  redirect_uri :: string
  authorization_endpoint :: string
  token_endpoint :: string
  userinfo_endpoint :: string
  scopes :: "string list"
  use_pkce :: bool
  secure_cookies :: bool

definition kStateCookie :: string where
  "kStateCookie = ''oauth_state''"

definition kVerifierCookie :: string where
  "kVerifierCookie = ''oauth_pkce''"

definition kFlowCookieSeconds :: int where
  "kFlowCookieSeconds = 600"

record crypto =
  encode_block_text :: "string \<Rightarrow> string"
  sha256 :: "string \<Rightarrow> string"

definition base64url_text :: "crypto \<Rightarrow> string \<Rightarrow> string" where
  "base64url_text lib s =
     map (\<lambda>c. if c = CHR ''+'' then CHR ''-'' else if c = CHR ''/'' then CHR ''_'' else c)
       (rev (dropWhile (\<lambda>c. c = CHR ''='') (rev (encode_block_text lib s))))"

text \<open>The random bytes are those the call gets, or none, and then it throws.\<close>

definition random_token :: "crypto \<Rightarrow> string option \<Rightarrow> string option" where
  "random_token lib bytes = map_option (base64url_text lib) bytes"

definition pkce_challenge :: "crypto \<Rightarrow> string \<Rightarrow> string" where
  "pkce_challenge lib verifier = base64url_text lib (sha256 lib verifier)"

definition flow_cookie :: "OAuth2Config \<Rightarrow> string \<Rightarrow> string \<Rightarrow> int \<Rightarrow> Cookie" where
  "flow_cookie config name val max_age =
     default_cookie\<lparr>cookie_name := name, cookie_value := val, cookie_path := ''/'', cookie_http_only := True,
                    cookie_secure := secure_cookies config, cookie_same_site := ''Lax'', cookie_max_age := max_age\<rparr>"

definition authorization_url :: "OAuth2Config \<Rightarrow> string \<Rightarrow> string" where
  "authorization_url config state =
     authorization_endpoint config @ (if CHR ''?'' \<notin> set (authorization_endpoint config) then ''?'' else ''&'') @
     ''client_id='' @ url_encode (client_id config) @ ''&redirect_uri='' @ url_encode (redirect_uri config) @ ''&response_type=code'' @
     ''&scope='' @ url_encode (join '' '' (scopes config)) @ ''&state='' @ url_encode state"

definition login_handler :: "OAuth2Config \<Rightarrow> crypto \<Rightarrow> string option \<Rightarrow> string option \<Rightarrow> HttpResponse option" where
  "login_handler config lib random1 random2 =
     (case random_token lib random1 of
        None \<Rightarrow> None
      | Some state \<Rightarrow>
          (let url = authorization_url config state;
               res = set_cookie (flow_cookie config kStateCookie state kFlowCookieSeconds) (status 302 new_response)
           in if use_pkce config
              then (case random_token lib random2 of
                      None \<Rightarrow> None
                    | Some verifier \<Rightarrow>
                        Some (res_header ''Location'' (url @ ''&code_challenge='' @ pkce_challenge lib verifier @ ''&code_challenge_method=S256'')
                               (set_cookie (flow_cookie config kVerifierCookie verifier kFlowCookieSeconds) res)))
              else Some (res_header ''Location'' url res)))"


section \<open>The callback\<close>

record ProviderRequest =
  pr_method :: string
  pr_url :: string
  pr_headers :: "(string \<times> string) list"
  pr_body :: string

text \<open>A failure of the transfer, or the provider's status and body.\<close>

datatype provider_answer = ClientFailed string | Answered int string

definition provider_request :: "string \<Rightarrow> string \<Rightarrow> string option \<Rightarrow> ProviderRequest" where
  "provider_request url post_body auth =
     \<lparr>pr_method = (if post_body \<noteq> [] then ''POST'' else ''GET''), pr_url = url,
      pr_headers = [(''Accept'', ''application/json'')] @ (case auth of Some v \<Rightarrow> [(''Authorization'', v)] | None \<Rightarrow> []) @
        (if post_body \<noteq> [] then [(''Content-Type'', ''application/x-www-form-urlencoded'')] else []),
      pr_body = post_body\<rparr>"

fun fetch_outcome :: "provider_answer \<Rightarrow> string + string" where
  "fetch_outcome (ClientFailed e) = Inl e"
| "fetch_outcome (Answered st body) = (if 200 \<le> st \<and> st < 300 then Inr body else Inl (''HTTP '' @ show_int st))"

definition token_body :: "OAuth2Config \<Rightarrow> string \<Rightarrow> string option \<Rightarrow> string" where
  "token_body config code verifier =
     ''grant_type=authorization_code&code='' @ url_encode code @ ''&redirect_uri='' @ url_encode (redirect_uri config) @
     ''&client_id='' @ url_encode (client_id config) @ ''&client_secret='' @ url_encode (client_secret config) @
     (case verifier of Some v \<Rightarrow> ''&code_verifier='' @ url_encode v | None \<Rightarrow> [])"

datatype oauth_outcome = OnError string | OnSuccess json

definition clear_flow_cookies :: "OAuth2Config \<Rightarrow> HttpResponse \<Rightarrow> HttpResponse" where
  "clear_flow_cookies config res =
     (let r = set_cookie (flow_cookie config kStateCookie [] 0) res
      in if use_pkce config then set_cookie (flow_cookie config kVerifierCookie [] 0) r else r)"

text \<open>The part of the callback that asks the provider; \<^verbatim>\<open>client\<close> answers a request, \<^verbatim>\<open>parse\<close> is the JSON parser.\<close>

definition exchange_code ::
  "OAuth2Config \<Rightarrow> (ProviderRequest \<Rightarrow> provider_answer) \<Rightarrow> (string \<Rightarrow> json option) \<Rightarrow> string \<Rightarrow> oauth_outcome \<times> ProviderRequest list" where
  "exchange_code config client parse body =
     (let r1 = provider_request (token_endpoint config) body None
      in case fetch_outcome (client r1) of
           Inl e \<Rightarrow> (OnError (''Token request failed: '' @ e), [r1])
         | Inr text1 \<Rightarrow>
             (case Option.bind (parse text1) (json_string_field ''access_token'') of
                None \<Rightarrow> (OnError ''Token response did not contain an access token'', [r1])
              | Some token \<Rightarrow>
                  (let r2 = provider_request (userinfo_endpoint config) [] (Some (''Bearer '' @ token))
                   in case fetch_outcome (client r2) of
                        Inl e \<Rightarrow> (OnError (''User info request failed: '' @ e), [r1, r2])
                      | Inr text2 \<Rightarrow>
                          (case parse text2 of
                             None \<Rightarrow> (OnError ''User info response is not JSON'', [r1, r2])
                           | Some info \<Rightarrow> (OnSuccess info, [r1, r2])))))"

definition callback_handler ::
  "OAuth2Config \<Rightarrow> (ProviderRequest \<Rightarrow> provider_answer) \<Rightarrow> (string \<Rightarrow> json option) \<Rightarrow> fields \<Rightarrow> fields \<Rightarrow> oauth_outcome \<times> ProviderRequest list" where
  "callback_handler config client parse query ck =
     (case query ''error'' of
        Some e \<Rightarrow> (OnError (''Authorization failed: '' @ url_decode e), [])
      | None \<Rightarrow>
          (let state = (case query ''state'' of None \<Rightarrow> [] | Some s \<Rightarrow> url_decode s);
               expected = (case ck kStateCookie of None \<Rightarrow> [] | Some s \<Rightarrow> s)
           in if state = [] \<or> expected = [] \<or> length state \<noteq> length expected \<or> state \<noteq> expected
              then (OnError ''Invalid OAuth2 state'', [])
              else case query ''code'' of
                     None \<Rightarrow> (OnError ''Authorization code missing'', [])
                   | Some c \<Rightarrow>
                       (let code = url_decode c
                        in if use_pkce config
                           then (case ck kVerifierCookie of
                                   None \<Rightarrow> (OnError ''PKCE verifier missing'', [])
                                 | Some v \<Rightarrow>
                                     if v = [] then (OnError ''PKCE verifier missing'', [])
                                     else exchange_code config client parse (token_body config code (Some v)))
                           else exchange_code config client parse (token_body config code None))))"

definition google :: "string \<Rightarrow> string \<Rightarrow> string \<Rightarrow> OAuth2Config" where
  "google i s u =
     \<lparr>client_id = i, client_secret = s, redirect_uri = u, authorization_endpoint = ''https://accounts.google.com/o/oauth2/v2/auth'',
      token_endpoint = ''https://oauth2.googleapis.com/token'', userinfo_endpoint = ''https://www.googleapis.com/oauth2/v3/userinfo'',
      scopes = [''openid'', ''profile'', ''email''], use_pkce = True, secure_cookies = False\<rparr>"

definition github :: "string \<Rightarrow> string \<Rightarrow> string \<Rightarrow> OAuth2Config" where
  "github i s u =
     \<lparr>client_id = i, client_secret = s, redirect_uri = u, authorization_endpoint = ''https://github.com/login/oauth/authorize'',
      token_endpoint = ''https://github.com/login/oauth/access_token'', userinfo_endpoint = ''https://api.github.com/user'',
      scopes = [''read:user'', ''user:email''], use_pkce = True, secure_cookies = False\<rparr>"


section \<open>What the flow guarantees\<close>

definition token_fields :: "OAuth2Config \<Rightarrow> string \<Rightarrow> string option \<Rightarrow> (string \<times> string) list" where
  "token_fields config code verifier =
     [(''grant_type'', ''authorization_code''), (''code'', code), (''redirect_uri'', redirect_uri config), (''client_id'', client_id config),
      (''client_secret'', client_secret config)] @ (case verifier of Some v \<Rightarrow> [(''code_verifier'', v)] | None \<Rightarrow> [])"

lemma plain_keys:
  "url_encode ''grant_type'' = ''grant_type''" "url_encode ''authorization_code'' = ''authorization_code''" "url_encode ''code'' = ''code''"
  "url_encode ''redirect_uri'' = ''redirect_uri''" "url_encode ''client_id'' = ''client_id''" "url_encode ''client_secret'' = ''client_secret''"
  "url_encode ''code_verifier'' = ''code_verifier''" "url_encode ''response_type'' = ''response_type''" "url_encode ''scope'' = ''scope''"
  "url_encode ''state'' = ''state''"
  by code_simp+

lemma token_body_form: "token_body config code verifier = form_encode (token_fields config code verifier)"
  by (cases verifier) (simp_all add: token_body_def token_fields_def form_encode_def plain_keys)

lemma exchange_requests:
  "\<exists>rest. snd (exchange_code config client parse body) = provider_request (token_endpoint config) body None # rest \<and>
     (\<forall>r \<in> set rest. pr_url r = userinfo_endpoint config \<and> pr_body r = [])"
  by (auto simp: exchange_code_def provider_request_def Let_def split: sum.split option.split)

text \<open>
  C8: The provider is asked only for a callback that this browser's login started: whenever the callback makes a request, the query
  had no error, its decoded state is not empty and is the value of the state cookie, a code was given, and with PKCE the verifier cookie
  is there and not empty. The first request then posts to the token endpoint a form that decodes to exactly the flow's fields (the
  code, the redirect URI, the client's id and secret, and the verifier), and any other only reads the user info, with no body.
\<close>

theorem oauth_exchange_guarded:
  assumes "callback_handler config client parse query ck = (out, reqs)" "reqs \<noteq> []"
  shows "\<exists>s c v. query ''error'' = None \<and> query ''state'' = Some s \<and> url_decode s \<noteq> [] \<and> ck kStateCookie = Some (url_decode s) \<and>
    query ''code'' = Some c \<and> v = (if use_pkce config then ck kVerifierCookie else None) \<and> (use_pkce config \<longrightarrow> v \<notin> {None, Some []}) \<and>
    pr_method (hd reqs) = ''POST'' \<and> pr_url (hd reqs) = token_endpoint config \<and>
    parse_urlencoded (pr_body (hd reqs)) Map.empty = Some (put_all Map.empty (token_fields config (url_decode c) v)) \<and>
    (\<forall>r \<in> set (tl reqs). pr_url r = userinfo_endpoint config \<and> pr_body r = [])"
proof -
  have e: "query ''error'' = None" using assms by (auto simp: callback_handler_def split: option.splits)
  have reqs: "snd (callback_handler config client parse query ck) \<noteq> []" using assms by simp
  let ?state = "case query ''state'' of None \<Rightarrow> [] | Some s \<Rightarrow> url_decode s" and ?expected = "case ck kStateCookie of None \<Rightarrow> [] | Some s \<Rightarrow> s"
  have "?state \<noteq> [] \<and> ?expected = ?state"
  proof (rule ccontr)
    assume "\<not> (?state \<noteq> [] \<and> ?expected = ?state)"
    then have "?state = [] \<or> ?expected = [] \<or> length ?state \<noteq> length ?expected \<or> ?state \<noteq> ?expected" by argo
    then have "snd (callback_handler config client parse query ck) = []"
      unfolding callback_handler_def e option.case(1) Let_def by simp
    with reqs show False by simp
  qed
  then obtain s where s: "query ''state'' = Some s" "url_decode s \<noteq> []" "ck kStateCookie = Some (url_decode s)"
    by (cases "query ''state''"; cases "ck kStateCookie") auto
  have "query ''code'' \<noteq> None"
  proof
    assume "query ''code'' = None"
    then have "snd (callback_handler config client parse query ck) = []" by (simp add: callback_handler_def e s)
    with reqs show False by simp
  qed
  then obtain c where c: "query ''code'' = Some c" by (cases "query ''code''") simp_all
  let ?v = "if use_pkce config then ck kVerifierCookie else None"
  have v: "use_pkce config \<longrightarrow> ?v \<notin> {None, Some []}"
  proof (intro impI notI)
    assume "use_pkce config" "?v \<in> {None, Some []}"
    then have "snd (callback_handler config client parse query ck) = []" by (auto simp add: callback_handler_def e s c)
    with reqs show False by simp
  qed
  then have "callback_handler config client parse query ck = exchange_code config client parse (token_body config (url_decode c) ?v)"
    by (cases "ck kVerifierCookie") (simp_all add: callback_handler_def e s c)
  then have x: "exchange_code config client parse (token_body config (url_decode c) ?v) = (out, reqs)"
    using assms(1) by simp
  obtain rest where r: "reqs = provider_request (token_endpoint config) (token_body config (url_decode c) ?v) None # rest"
    "\<forall>r \<in> set rest. pr_url r = userinfo_endpoint config \<and> pr_body r = []"
    using exchange_requests [of config client parse "token_body config (url_decode c) ?v"] x by auto
  have "token_body config (url_decode c) ?v \<noteq> []" by (simp add: token_body_def)
  with r have p: "pr_method (hd reqs) = ''POST''" "pr_url (hd reqs) = token_endpoint config" "pr_body (hd reqs) = token_body config (url_decode c) ?v"
    by (simp_all add: provider_request_def)
  have "parse_urlencoded (pr_body (hd reqs)) Map.empty = Some (put_all Map.empty (token_fields config (url_decode c) ?v))"
    unfolding p(3) token_body_form by (rule parse_urlencoded_form_encode)
  with e s c v p(1,2) r show ?thesis by (intro exI [of _ s] exI [of _ c] exI [of _ ?v]) simp
qed

definition demo_config :: OAuth2Config where
  "demo_config = (github ''id'' ''secret'' ''https://a/cb'')\<lparr>use_pkce := False\<rparr>"

theorem oauth_exchange_guarded_witness:
  "\<exists>out reqs. callback_handler demo_config (\<lambda>_. ClientFailed ''down'') (\<lambda>_. None) [''state'' \<mapsto> ''s1'', ''code'' \<mapsto> ''c1''] [kStateCookie \<mapsto> ''s1''] = (out, reqs) \<and>
     pr_method (hd reqs) = ''POST'' \<and> pr_url (hd reqs) = token_endpoint demo_config"
proof -
  have d: "url_decode ''s1'' = ''s1''" "url_decode ''c1'' = ''c1''" by code_simp+
  obtain out reqs where r: "callback_handler demo_config (\<lambda>_. ClientFailed ''down'') (\<lambda>_. None) [''state'' \<mapsto> ''s1'', ''code'' \<mapsto> ''c1''] [kStateCookie \<mapsto> ''s1''] = (out, reqs)"
    by fastforce
  then have "reqs \<noteq> []" by (auto simp: callback_handler_def exchange_code_def demo_config_def Let_def d)
  from oauth_exchange_guarded [OF r this] r show ?thesis by blast
qed

text \<open>The base64 text of OpenSSL consists of letters, digits, and three signs; then a token survives the encodings of a URL.\<close>

definition base64_chars :: "crypto \<Rightarrow> bool" where
  "base64_chars lib \<longleftrightarrow> (\<forall>s. \<forall>c \<in> set (encode_block_text lib s). isalnum c \<or> c \<in> {CHR ''+'', CHR ''/'', CHR ''=''})"

lemma set_dropWhile_rev: "set (rev (dropWhile P (rev s))) \<subseteq> set s"
  by (auto dest: set_dropWhileD)

lemma dropWhile_rev_mid:
  "list_all (\<lambda>c. isalnum c \<or> c \<in> {CHR ''+'', CHR ''/'', CHR ''=''}) s \<Longrightarrow>
   \<forall>c \<in> set (rev (dropWhile (\<lambda>c. c = CHR ''='') (rev s))). isalnum c \<or> c \<in> {CHR ''+'', CHR ''/'', CHR ''=''}"
  using set_dropWhile_rev [of "\<lambda>c. c = CHR ''=''" s] by (auto simp: list_all_iff)

lemma url_decode_plain: "CHR ''+'' \<notin> set s \<Longrightarrow> CHR ''%'' \<notin> set s \<Longrightarrow> url_decode s = s"
  by (induction s) auto

lemma token_plain:
  assumes "base64_chars lib"
  shows "url_decode (base64url_text lib s) = base64url_text lib s"
proof (rule url_decode_plain)
  have a: "\<not> isalnum (CHR ''%'')" "\<not> isalnum (CHR ''+'')" by code_simp+
  have "\<forall>c \<in> set (rev (dropWhile (\<lambda>c. c = CHR ''='') (rev (encode_block_text lib s)))). isalnum c \<or> c \<in> {CHR ''+'', CHR ''/'', CHR ''=''}"
    using assms by (intro dropWhile_rev_mid) (auto simp: base64_chars_def list_all_iff)
  with a show "CHR ''+'' \<notin> set (base64url_text lib s)" "CHR ''%'' \<notin> set (base64url_text lib s)"
    by (auto simp: base64url_text_def split: if_splits)
qed

lemma location_set: "hdr_find ''Location'' (res_headers (res_header ''Location'' v r)) = Some v"
  by (simp add: res_header_def)

lemma cookies_of_header: "cookies (res_header n v r) = cookies r"
  by (simp add: res_header_def)

text \<open>
  A login comes back: the redirect of a login asks the provider, in a query that decodes to the client's id, the redirect URI, the
  scopes and a state (and with PKCE the challenge of a verifier), and sets cookies with that state and verifier that scripts cannot
  read; and a callback of the same browser with that state and a code, for which the provider reports no error, is not refused: the
  code is exchanged with the verifier whose challenge the provider was shown.
\<close>

theorem oauth_login_comes_back:
  assumes "base64_chars lib" "login_handler config lib (Some b1) (Some b2) = Some res" "base64url_text lib b1 \<noteq> []" "base64url_text lib b2 \<noteq> []"
    "use_pkce config" "query ''error'' = None" "query ''state'' = Some (base64url_text lib b1)" "query ''code'' = Some c"
    "ck kStateCookie = Some (base64url_text lib b1)" "ck kVerifierCookie = Some (base64url_text lib b2)"
  shows "\<exists>asked. hdr_find ''Location'' (res_headers res) =
        Some (authorization_endpoint config @ (if CHR ''?'' \<notin> set (authorization_endpoint config) then ''?'' else ''&'') @ form_encode asked @
              ''&code_challenge='' @ pkce_challenge lib (base64url_text lib b2) @ ''&code_challenge_method=S256'') \<and>
      asked = [(''client_id'', client_id config), (''redirect_uri'', redirect_uri config), (''response_type'', ''code''),
               (''scope'', join '' '' (scopes config)), (''state'', base64url_text lib b1)] \<and>
      map (\<lambda>k. (cookie_name k, cookie_value k)) (cookies res) =
        [(kStateCookie, base64url_text lib b1), (kVerifierCookie, base64url_text lib b2)] \<and>
      list_all cookie_http_only (cookies res) \<and>
      callback_handler config client parse query ck =
        exchange_code config client parse (token_body config (url_decode c) (Some (base64url_text lib b2)))"
proof -
  let ?asked = "[(''client_id'', client_id config), (''redirect_uri'', redirect_uri config), (''response_type'', ''code''),
               (''scope'', join '' '' (scopes config)), (''state'', base64url_text lib b1)]"
  have u: "authorization_url config (base64url_text lib b1) =
      authorization_endpoint config @ (if CHR ''?'' \<notin> set (authorization_endpoint config) then ''?'' else ''&'') @ form_encode ?asked"
    by (simp add: authorization_url_def form_encode_def plain_keys)
  have exch: "callback_handler config client parse query ck =
      exchange_code config client parse (token_body config (url_decode c) (Some (base64url_text lib b2)))"
    using assms(3-10) token_plain [OF assms(1), of b1] by (simp add: callback_handler_def Let_def)
  have res: "res = res_header ''Location''
      (authorization_url config (base64url_text lib b1) @ ''&code_challenge='' @ pkce_challenge lib (base64url_text lib b2) @ ''&code_challenge_method=S256'')
      (set_cookie (flow_cookie config kVerifierCookie (base64url_text lib b2) kFlowCookieSeconds)
        (set_cookie (flow_cookie config kStateCookie (base64url_text lib b1) kFlowCookieSeconds) (status 302 new_response)))"
    using assms(2,5) by (simp add: login_handler_def random_token_def)
  have loc: "hdr_find ''Location'' (res_headers res) = Some (authorization_url config (base64url_text lib b1) @
      ''&code_challenge='' @ pkce_challenge lib (base64url_text lib b2) @ ''&code_challenge_method=S256'')"
    unfolding res by (rule location_set)
  have "cookies res = [flow_cookie config kStateCookie (base64url_text lib b1) kFlowCookieSeconds,
      flow_cookie config kVerifierCookie (base64url_text lib b2) kFlowCookieSeconds]"
    unfolding res cookies_of_header by (simp add: set_cookie_def status_def new_response_def)
  then have cks: "map (\<lambda>k. (cookie_name k, cookie_value k)) (cookies res) = [(kStateCookie, base64url_text lib b1), (kVerifierCookie, base64url_text lib b2)]"
    "list_all cookie_http_only (cookies res)"
    by (simp_all add: flow_cookie_def)
  show ?thesis
    using loc cks exch unfolding u append.assoc by (intro exI [of _ ?asked] conjI refl)
qed

definition demo_crypto :: crypto where
  "demo_crypto = \<lparr>encode_block_text = (\<lambda>_. ''Ab''), sha256 = (\<lambda>s. s)\<rparr>"

theorem oauth_login_comes_back_witness:
  "\<exists>res. login_handler (github ''id'' ''secret'' ''https://a/cb'') demo_crypto (Some ''x'') (Some ''y'') = Some res \<and>
     map (\<lambda>k. (cookie_name k, cookie_value k)) (cookies res) = [(kStateCookie, ''Ab''), (kVerifierCookie, ''Ab'')] \<and>
     callback_handler (github ''id'' ''secret'' ''https://a/cb'') (\<lambda>_. ClientFailed ''down'') (\<lambda>_. None)
         [''state'' \<mapsto> ''Ab'', ''code'' \<mapsto> ''c1''] [kStateCookie \<mapsto> ''Ab'', kVerifierCookie \<mapsto> ''Ab''] =
       exchange_code (github ''id'' ''secret'' ''https://a/cb'') (\<lambda>_. ClientFailed ''down'') (\<lambda>_. None)
         (token_body (github ''id'' ''secret'' ''https://a/cb'') (url_decode ''c1'') (Some ''Ab''))"
proof -
  let ?config = "github ''id'' ''secret'' ''https://a/cb''"
  have t: "base64url_text demo_crypto b = ''Ab''" for b by (simp add: base64url_text_def demo_crypto_def)
  have "isalnum (CHR ''A'')" "isalnum (CHR ''b'')" by code_simp+
  then have c: "base64_chars demo_crypto" by (simp add: base64_chars_def demo_crypto_def)
  have p: "use_pkce ?config" by (simp add: github_def)
  then obtain res where r: "login_handler ?config demo_crypto (Some ''x'') (Some ''y'') = Some res"
    by (simp add: login_handler_def random_token_def)
  have "kVerifierCookie \<noteq> kStateCookie" by code_simp
  then show ?thesis
    using oauth_login_comes_back [OF c r _ _ p, of "[''state'' \<mapsto> ''Ab'', ''code'' \<mapsto> ''c1'']" "''c1''"
        "[kStateCookie \<mapsto> ''Ab'', kVerifierCookie \<mapsto> ''Ab'']" "\<lambda>_. ClientFailed ''down''" "\<lambda>_. None"] r
    by (simp add: t)
qed

text \<open>
  The query the callback gets is decoded already by the request parser, and decoded once more: a code that holds a plus sign or a
  percent sign does not reach the provider as it was issued.
\<close>

lemma oauth_code_decoded_twice:
  "fst (callback_handler demo_config (\<lambda>r. ClientFailed (pr_body r)) (\<lambda>_. None) [''state'' \<mapsto> ''s1'', ''code'' \<mapsto> ''4/a+b''] [kStateCookie \<mapsto> ''s1'']) =
   OnError (''Token request failed: '' @ token_body demo_config ''4/a b'' None)"
proof -
  have d: "url_decode ''s1'' = ''s1''" "url_decode ''4/a+b'' = ''4/a b''" by code_simp+
  show ?thesis by (simp add: callback_handler_def exchange_code_def provider_request_def demo_config_def Let_def d token_body_def)
qed

end
