(* ===== verification/Event_Router.thy ===== *)
theory Event_Router
  imports Json_Values
begin

text \<open>
  The event router above WebSocket connections (\<^verbatim>\<open>include/orbit/websocket/EventRouter.hpp\<close>): sockets with names, rooms, events
  emitted to a socket or a room, and the dispatch of messages to the handler of their event. What the code does under the
  router's mutex is one step; the threads that run handlers, and those that close connections, take their steps in any order.
  The connection below is its life: open, closed, destroyed, and whether a close handler was registered with it.

  The theorems: the rooms are those of the sockets' joins and leaves, and what is sent to a room goes to each member once;
  a connection that was closed after its handler was in place is not used again; and an emitted event reaches the handler of
  its name with its data.
\<close>

section \<open>Sockets and rooms\<close>

datatype raw_life = Unborn | Open | Closed | Destroyed

text \<open>
  The fields of the router, and of the sockets by name: \<open>es_rooms\<close> is \<^verbatim>\<open>rooms_\<close> of an \<^verbatim>\<open>EventSocket\<close>, which lives on after the
  router has forgotten it. \<open>closing\<close> are the runs of close handlers under way, each with whether it found its socket, and
  \<open>router_sends\<close> the calls of \<^verbatim>\<open>raw_.send\<close>.
\<close>

record event_router =
  counter :: nat
  sockets :: "string set"
  es_rooms :: "string \<Rightarrow> string set"
  rooms :: "string \<Rightarrow> string set option"
  life :: "string \<Rightarrow> raw_life"
  hooked :: "string set"
  closing :: "(string \<times> bool) list"
  disconnects :: "string list"
  router_sends :: "(string \<times> string) list"

definition initial_router :: event_router where
  "initial_router =
     \<lparr>counter = 0, sockets = {}, es_rooms = (\<lambda>_. {}), rooms = Map.empty, life = (\<lambda>_. Unborn), hooked = {}, closing = [],
      disconnects = [], router_sends = []\<rparr>"

definition members_of :: "event_router \<Rightarrow> string \<Rightarrow> string set" where
  "members_of s r = (case rooms s r of None \<Rightarrow> {} | Some m \<Rightarrow> m)"

text \<open>The name of a socket: the count of sockets so far and the address of the connection.\<close>

definition socket_id :: "nat \<Rightarrow> nat \<Rightarrow> string" where
  "socket_id n pointer = ''ws_'' @ show_nat n @ ''_'' @ show_nat pointer"

definition attach :: "nat \<Rightarrow> event_router \<Rightarrow> event_router" where
  "attach pointer s =
     (let n = counter s + 1; i = socket_id n pointer
      in s\<lparr>counter := n, sockets := insert i (sockets s), es_rooms := (es_rooms s)(i := {}), life := (life s)(i := Open)\<rparr>)"

definition join_room :: "string \<Rightarrow> string \<Rightarrow> event_router \<Rightarrow> event_router" where
  "join_room i r s =
     (if i \<in> sockets s
      then s\<lparr>es_rooms := (es_rooms s)(i := insert r (es_rooms s i)), rooms := (rooms s)(r \<mapsto> insert i (members_of s r))\<rparr>
      else s)"

definition leave_room :: "string \<Rightarrow> string \<Rightarrow> event_router \<Rightarrow> event_router" where
  "leave_room i r s =
     (if i \<in> sockets s
      then s\<lparr>es_rooms := (es_rooms s)(i := es_rooms s i - {r}), rooms := (rooms s)(r \<mapsto> members_of s r - {i})\<rparr>
      else s)"

text \<open>The set is iterated in an order of its own, which is an argument.\<close>

definition broadcast_to_room :: "string \<Rightarrow> string list \<Rightarrow> string \<Rightarrow> event_router \<Rightarrow> event_router" where
  "broadcast_to_room r order msg s =
     (case rooms s r of
        None \<Rightarrow> s
      | Some _ \<Rightarrow> s\<lparr>router_sends := router_sends s @ map (\<lambda>i. (i, msg)) (filter (\<lambda>i. i \<in> sockets s) order)\<rparr>)"

definition event_payload :: "string \<Rightarrow> json \<Rightarrow> json" where
  "event_payload event d = JObject [(''data'', d), (''event'', JString event)]"

text \<open>The JSON library may refuse to print (a string that is not UTF-8), and then \<^verbatim>\<open>emit\<close> throws.\<close>

definition socket_emit :: "(json \<Rightarrow> string option) \<Rightarrow> string \<Rightarrow> string \<Rightarrow> json \<Rightarrow> event_router \<Rightarrow> event_router option" where
  "socket_emit dump i event d s =
     (case dump (event_payload event d) of None \<Rightarrow> None | Some msg \<Rightarrow> Some (s\<lparr>router_sends := router_sends s @ [(i, msg)]\<rparr>))"

definition room_emit :: "(json \<Rightarrow> string option) \<Rightarrow> string \<Rightarrow> string list \<Rightarrow> string \<Rightarrow> json \<Rightarrow> event_router \<Rightarrow> event_router option" where
  "room_emit dump r order event d s =
     (case dump (event_payload event d) of None \<Rightarrow> None | Some msg \<Rightarrow> Some (broadcast_to_room r order msg s))"

text \<open>A message: the event it names and its data; nothing for one that is malformed, whose exception is dropped.\<close>

definition message_event :: "(string \<Rightarrow> json option) \<Rightarrow> string \<Rightarrow> (string \<times> json) option" where
  "message_event parse msg =
     (case parse msg of
        None \<Rightarrow> None
      | Some j \<Rightarrow>
          (case json_string_field ''event'' j of
             None \<Rightarrow> None
           | Some event \<Rightarrow> Some (event, case json_field ''data'' j of Some d \<Rightarrow> d | None \<Rightarrow> JNull)))"

text \<open>The handler a message is given to, for a socket the router still knows, with its data.\<close>

definition on_message_call :: "(string \<Rightarrow> json option) \<Rightarrow> (string \<Rightarrow> 'h option) \<Rightarrow> string \<Rightarrow> string \<Rightarrow> event_router \<Rightarrow> ('h \<times> json) option" where
  "on_message_call parse handlers i msg s =
     (case message_event parse msg of
        None \<Rightarrow> None
      | Some (event, d) \<Rightarrow> if i \<in> sockets s then map_option (\<lambda>h. (h, d)) (handlers event) else None)"

text \<open>The close handler: it looks the socket up and reports it, and then, under the mutex, takes it out of its rooms and the router.\<close>

definition close_lookup :: "string \<Rightarrow> event_router \<Rightarrow> event_router" where
  "close_lookup i s =
     s\<lparr>closing := closing s @ [(i, i \<in> sockets s)], disconnects := disconnects s @ (if i \<in> sockets s then [i] else [])\<rparr>"

definition close_erase :: "string \<Rightarrow> bool \<Rightarrow> event_router \<Rightarrow> event_router" where
  "close_erase i found s =
     s\<lparr>closing := remove1 (i, found) (closing s), sockets := sockets s - {i},
       rooms := (if found then (\<lambda>r. if r \<in> es_rooms s i then Some (members_of s r - {i}) else rooms s r) else rooms s)\<rparr>"


section \<open>Runs\<close>

text \<open>
  A step and what it does. A connection may close at any time while it is open, by any thread; its handler runs, if there is one,
  and may run again when the peer's answer arrives. It is destroyed when nobody uses it.
\<close>

datatype router_event =
    Attached string
  | Joined string string
  | Left string string
  | Broadcast string "string list" string
  | Emitted string string
  | Hooked string
  | RawClosed string
  | CloseLooked string
  | CloseErased string
  | RawDestroyed string

inductive router_step :: "router_event \<Rightarrow> event_router \<Rightarrow> event_router \<Rightarrow> bool" where
  attached: "router_step (Attached (socket_id (counter s + 1) pointer)) s (attach pointer s)"
| joined: "life s i \<noteq> Unborn \<Longrightarrow> router_step (Joined i r) s (join_room i r s)"
| left: "life s i \<noteq> Unborn \<Longrightarrow> router_step (Left i r) s (leave_room i r s)"
| broadcast: "distinct order \<Longrightarrow> set order = members_of s r \<Longrightarrow> room_emit dump r order event d s = Some t \<Longrightarrow>
    dump (event_payload event d) = Some msg \<Longrightarrow> router_step (Broadcast r order msg) s t"
| emitted: "life s i \<in> {Open, Closed} \<Longrightarrow> socket_emit dump i event d s = Some t \<Longrightarrow> dump (event_payload event d) = Some msg \<Longrightarrow>
    router_step (Emitted i msg) s t"
| hooked: "life s i \<in> {Open, Closed} \<Longrightarrow> router_step (Hooked i) s (s\<lparr>hooked := insert i (hooked s)\<rparr>)"
| raw_closed: "life s i = Open \<Longrightarrow> router_step (RawClosed i) s
    (let t = s\<lparr>life := (life s)(i := Closed)\<rparr> in if i \<in> hooked s then close_lookup i t else t)"
| close_looked: "life s i = Closed \<Longrightarrow> i \<in> hooked s \<Longrightarrow> router_step (CloseLooked i) s (close_lookup i s)"
| close_erased: "(i, found) \<in> set (closing s) \<Longrightarrow> router_step (CloseErased i) s (close_erase i found s)"
| raw_destroyed: "life s i = Closed \<Longrightarrow> i \<notin> fst ` set (closing s) \<Longrightarrow>
    router_step (RawDestroyed i) s (s\<lparr>life := (life s)(i := Destroyed)\<rparr>)"

inductive router_reachable :: "event_router \<Rightarrow> bool" where
  started: "router_reachable initial_router"
| stepped: "router_reachable s \<Longrightarrow> router_step l s t \<Longrightarrow> router_reachable t"

inductive_cases router_stepE: "router_step l s t"


section \<open>Rooms are memberships\<close>

text \<open>The specification: who is connected, and who is a member of what.\<close>

definition membership :: "event_router \<Rightarrow> string set \<times> (string \<times> string) set" where
  "membership s = (sockets s, {(i, r). i \<in> members_of s r})"

fun spec_step :: "router_event \<Rightarrow> string set \<times> (string \<times> string) set \<Rightarrow> string set \<times> (string \<times> string) set" where
  "spec_step (Attached i) (c, m) = (insert i c, m)"
| "spec_step (Joined i r) (c, m) = (c, if i \<in> c then insert (i, r) m else m)"
| "spec_step (Left i r) (c, m) = (c, m - {(i, r)})"
| "spec_step (CloseErased i) (c, m) = (c - {i}, {p \<in> m. fst p \<noteq> i})"
| "spec_step _ cm = cm"

text \<open>What a step sends: to a room, one message to each member, in some order.\<close>

fun spec_sends :: "router_event \<Rightarrow> (string \<times> string) set \<Rightarrow> (string \<times> string) list \<Rightarrow> bool" where
  "spec_sends (Broadcast r order msg) m out \<longleftrightarrow> distinct order \<and> set order = {i. (i, r) \<in> m} \<and> out = map (\<lambda>i. (i, msg)) order"
| "spec_sends (Emitted i msg) m out \<longleftrightarrow> out = [(i, msg)]"
| "spec_sends _ m out \<longleftrightarrow> out = []"

lemma socket_id_inj: "socket_id n p = socket_id k q \<Longrightarrow> n = k"
proof -
  assume "socket_id n p = socket_id k q"
  then have e: "show_nat n @ ''_'' @ show_nat p = show_nat k @ ''_'' @ show_nat q" by (simp add: socket_id_def)
  have d: "\<not> isdigit (CHR ''_'')" by code_simp
  have "takeWhile isdigit (show_nat n @ ''_'' @ show_nat p) = show_nat n" "takeWhile isdigit (show_nat k @ ''_'' @ show_nat q) = show_nat k"
    using d by (simp_all add: takeWhile_show_nat)
  with e have "show_nat n = show_nat k" by metis
  then show "n = k" by (metis dec_value_show_nat)
qed

text \<open>The invariant: rooms and sockets agree, and every name was given by the counter.\<close>

definition router_inv :: "event_router \<Rightarrow> bool" where
  "router_inv s \<longleftrightarrow>
     (\<forall>i r. i \<in> members_of s r \<longleftrightarrow> i \<in> sockets s \<and> r \<in> es_rooms s i) \<and>
     (\<forall>i. life s i \<noteq> Unborn \<longrightarrow> (\<exists>n p. n \<le> counter s \<and> i = socket_id n p)) \<and>
     (\<forall>i \<in> sockets s. life s i \<noteq> Unborn) \<and>
     (\<forall>i \<in> hooked s. life s i \<noteq> Unborn) \<and>
     (\<forall>i. (i, False) \<in> set (closing s) \<longrightarrow> i \<notin> sockets s) \<and>
     (\<forall>i f. (i, f) \<in> set (closing s) \<longrightarrow> life s i = Closed)"

lemma router_inv_new: "router_inv s \<Longrightarrow> life s (socket_id (Suc (counter s)) p) = Unborn"
  unfolding router_inv_def by (metis socket_id_inj Suc_n_not_le_n)

lemma members_simps:
  "members_of (join_room i r s) q = (if i \<in> sockets s \<and> q = r then insert i (members_of s r) else members_of s q)"
  "members_of (leave_room i r s) q = (if i \<in> sockets s \<and> q = r then members_of s r - {i} else members_of s q)"
  "members_of (close_erase i f s) q = (if f \<and> q \<in> es_rooms s i then members_of s q - {i} else members_of s q)"
  "members_of (attach p s) q = members_of s q"
  by (auto simp: members_of_def join_room_def leave_room_def close_erase_def attach_def Let_def)

lemma members_upd [simp]:
  "members_of (s\<lparr>router_sends := o'\<rparr>) = members_of s" "members_of (s\<lparr>life := f\<rparr>) = members_of s" "members_of (s\<lparr>hooked := h\<rparr>) = members_of s"
  "members_of (close_lookup i s) = members_of s"
  by (simp_all add: members_of_def close_lookup_def fun_eq_iff)

lemma sockets_simps [simp]:
  "sockets (join_room i r s) = sockets s" "sockets (leave_room i r s) = sockets s" "sockets (close_lookup i s) = sockets s"
  "router_sends (join_room i r s) = router_sends s" "router_sends (leave_room i r s) = router_sends s"
  "router_sends (close_lookup i s) = router_sends s" "router_sends (attach p s) = router_sends s" "router_sends (close_erase i f s) = router_sends s"
  "sockets (attach p s) = insert (socket_id (Suc (counter s)) p) (sockets s)"
  by (simp_all add: join_room_def leave_room_def close_lookup_def attach_def close_erase_def Let_def)

lemma router_inv_same:
  "router_inv s \<Longrightarrow> rooms t = rooms s \<Longrightarrow> sockets t = sockets s \<Longrightarrow> es_rooms t = es_rooms s \<Longrightarrow> life t = life s \<Longrightarrow> hooked t = hooked s \<Longrightarrow>
   counter t = counter s \<Longrightarrow> closing t = closing s \<Longrightarrow> router_inv t"
  by (simp add: router_inv_def members_of_def)

lemma router_inv_attach: "router_inv s \<Longrightarrow> router_inv (attach p s)"
  using router_inv_new [of s p] unfolding router_inv_def members_simps
  by (auto simp: attach_def Let_def) (metis le_SucI)+

lemma router_inv_join: "router_inv s \<Longrightarrow> router_inv (join_room i r s)"
  unfolding router_inv_def members_simps by (auto simp: join_room_def)

lemma router_inv_leave: "router_inv s \<Longrightarrow> router_inv (leave_room i r s)"
  unfolding router_inv_def members_simps by (auto simp: leave_room_def)

lemma router_inv_look:
  "router_inv s \<Longrightarrow> life s i \<noteq> Unborn \<Longrightarrow> router_inv (close_lookup i (s\<lparr>life := (life s)(i := Closed)\<rparr>))"
  unfolding router_inv_def members_upd by (auto simp: close_lookup_def)

lemma router_inv_erase:
  assumes "router_inv s" "(i, f) \<in> set (closing s)"
  shows "router_inv (close_erase i f s)"
proof -
  let ?t = "close_erase i f s"
  have sub: "set (closing ?t) \<subseteq> set (closing s)" by (simp add: close_erase_def set_remove1_subset)
  have same: "sockets ?t = sockets s - {i}" "es_rooms ?t = es_rooms s" "life ?t = life s" "hooked ?t = hooked s" "counter ?t = counter s"
    by (simp_all add: close_erase_def)
  have "(j \<in> members_of ?t r) = (j \<in> sockets ?t \<and> r \<in> es_rooms ?t j)" for j r
    using assms unfolding members_simps same router_inv_def by (cases f) auto
  then show ?thesis using assms(1) sub unfolding router_inv_def same by blast
qed

lemma router_inv_life:
  assumes "router_inv s" "life s i \<noteq> Unborn" "k = Closed \<or> k = Destroyed \<and> i \<notin> fst ` set (closing s)"
  shows "router_inv (s\<lparr>life := (life s)(i := k)\<rparr>)"
proof -
  have "k \<noteq> Unborn" "k \<noteq> Closed \<Longrightarrow> (i, f) \<notin> set (closing s)" for f using assms(3) by (auto simp: image_iff)
  with assms(1,2) show ?thesis unfolding router_inv_def by auto
qed

lemma room_emit_same:
  "room_emit dump r order event d s = Some t \<Longrightarrow>
   \<exists>out. t = s\<lparr>router_sends := router_sends s @ out\<rparr> \<and>
     (\<forall>msg. dump (event_payload event d) = Some msg \<longrightarrow> out = (if rooms s r = None then [] else map (\<lambda>i. (i, msg)) (filter (\<lambda>i. i \<in> sockets s) order)))"
  by (auto simp: room_emit_def broadcast_to_room_def split: option.splits)

lemma router_inv_step: "router_inv s \<Longrightarrow> router_step l s t \<Longrightarrow> router_inv t"
proof (erule router_step.cases, goal_cases)
  case (4 order u r dump event d v msg)
  then show ?case using room_emit_same by (fastforce intro: router_inv_same [of s])
next
  case (5 u i dump event d v msg)
  then show ?case by (auto simp: socket_emit_def split: option.splits intro: router_inv_same [of s])
next
  case (6 u i)
  then show ?case by (auto simp: router_inv_def)
next
  case (7 u i)
  then show ?case by (auto simp: Let_def intro: router_inv_look router_inv_life)
next
  case (8 u i)
  then have "router_inv (close_lookup i (u\<lparr>life := (life u)(i := Closed)\<rparr>))" by (intro router_inv_look) auto
  moreover have "(life u)(i := Closed) = life u" using 8 by auto
  ultimately show ?case using 8 by (simp add: close_lookup_def)
next
  case (10 u i)
  then show ?case by (auto intro!: router_inv_life)
qed (auto simp: router_inv_attach router_inv_join router_inv_leave router_inv_erase)

lemma router_inv_reachable: "router_reachable s \<Longrightarrow> router_inv s"
proof (induction rule: router_reachable.induct)
  case started
  show ?case by (simp add: router_inv_def initial_router_def members_of_def)
qed (rule router_inv_step)

text \<open>Runs in which no connection closes before its close handler is in place.\<close>

inductive orderly :: "event_router \<Rightarrow> bool" where
  orderly_start: "orderly initial_router"
| orderly_step: "orderly s \<Longrightarrow> router_step l s t \<Longrightarrow> (\<forall>i. l = RawClosed i \<longrightarrow> i \<in> hooked s) \<Longrightarrow> orderly t"

lemma orderly_reachable: "orderly s \<Longrightarrow> router_reachable s"
  by (induction rule: orderly.induct) (auto intro: router_reachable.intros)

definition tracked :: "event_router \<Rightarrow> bool" where
  "tracked s \<longleftrightarrow> (\<forall>i \<in> sockets s. life s i = Open \<or> (i, True) \<in> set (closing s))"

lemma tracked_step: "router_inv s \<Longrightarrow> tracked s \<Longrightarrow> router_step l s t \<Longrightarrow> (\<forall>i. l = RawClosed i \<longrightarrow> i \<in> hooked s) \<Longrightarrow> tracked t"
proof (erule router_step.cases, goal_cases)
  case (1 u p)
  then show ?case by (auto simp: tracked_def attach_def Let_def router_inv_def)
next
  case (4 order u r dump event d v msg)
  then show ?case using room_emit_same by (fastforce simp: tracked_def)
next
  case (5 u i dump event d v msg)
  then show ?case by (auto simp: tracked_def socket_emit_def split: option.splits)
next
  case (9 i found u)
  then show ?case by (auto simp: tracked_def close_erase_def in_set_remove1)
next
  case (10 u i)
  then show ?case by (force simp: tracked_def)
qed (auto simp: tracked_def join_room_def leave_room_def close_lookup_def Let_def)

lemma orderly_tracked: "orderly s \<Longrightarrow> tracked s"
proof (induction rule: orderly.induct)
  case orderly_start
  show ?case by (simp add: tracked_def initial_router_def)
next
  case (orderly_step s l t)
  then show ?case using tracked_step router_inv_reachable orderly_reachable by blast
qed

text \<open>
  C37: The rooms of the router are a relation between the sockets it knows and names: joining adds a pair, leaving removes it, and the
  close handler of a connection removes its socket with all its pairs; nothing else changes the relation, in particular not the
  closing of a connection as such. Whatever threads do in between, a message to a room is sent once to each socket that is in
  the relation with it, and to no other, and an event emitted to a socket once to that socket; no other step sends anything. As
  long as no connection closes before its close handler was registered, every socket in the relation has an open connection or a
  close handler under way that removes it; a connection that closes earlier is never removed (lemma
  \<open>early_close_leaves_dead_socket\<close>).
\<close>

theorem rooms_refine_membership:
  assumes "router_reachable s" "router_step l s t"
  shows "membership t = spec_step l (membership s) \<and>
    (\<exists>out. router_sends t = router_sends s @ out \<and> spec_sends l (snd (membership s)) out) \<and>
    fst ` snd (membership s) \<subseteq> fst (membership s) \<and>
    (orderly s \<longrightarrow> (\<forall>i \<in> fst (membership s). life s i = Open \<or> (i, True) \<in> set (closing s)))"
proof -
  have i: "router_inv s" using assms(1) by (rule router_inv_reachable)
  have "fst ` snd (membership s) \<subseteq> fst (membership s)" using i by (auto simp: membership_def router_inv_def)
  moreover have "orderly s \<longrightarrow> (\<forall>i \<in> fst (membership s). life s i = Open \<or> (i, True) \<in> set (closing s))"
    using orderly_tracked [of s] by (simp add: tracked_def membership_def)
  moreover from assms(2) have "membership t = spec_step l (membership s) \<and>
    (\<exists>out. router_sends t = router_sends s @ out \<and> spec_sends l (snd (membership s)) out)"
  proof (cases rule: router_step.cases)
    case (broadcast order r dump event d msg)
    then have "rooms s r = None \<Longrightarrow> order = []" by (simp add: members_of_def)
    moreover have "filter (\<lambda>j. j \<in> sockets s) order = order"
      using broadcast(3) i by (auto simp: filter_id_conv router_inv_def)
    ultimately have "t = s\<lparr>router_sends := router_sends s @ map (\<lambda>j. (j, msg)) order\<rparr>"
      using room_emit_same [OF broadcast(4)] broadcast(5) by (auto split: if_splits)
    with broadcast show ?thesis by (simp add: membership_def)
  next
    case (close_erased j found)
    with i have "membership t = spec_step l (membership s)"
      unfolding membership_def close_erased(2) members_simps by (auto simp: close_erased(1) close_erase_def router_inv_def)
    with close_erased show ?thesis by (simp add: close_erase_def)
  qed (use i in \<open>auto simp: membership_def members_simps router_inv_def socket_emit_def Let_def split: option.splits\<close>)
  ultimately show ?thesis by blast
qed

text \<open>A room with one member, for concrete runs.\<close>

definition demo_id :: string where
  "demo_id = socket_id 1 0"

definition demo_room :: event_router where
  "demo_room = join_room demo_id ''r'' (attach 0 initial_router)"

lemma demo_room_simps: "life demo_room demo_id = Open" "members_of demo_room r = (if r = ''r'' then {demo_id} else {})" "hooked demo_room = {}" "closing demo_room = []"
  by (simp_all add: demo_room_def demo_id_def join_room_def attach_def initial_router_def members_of_def Let_def)

lemma demo_attached: "router_step (Attached demo_id) initial_router (attach 0 initial_router)"
  using attached [of initial_router 0] by (simp add: demo_id_def initial_router_def)

lemma demo_joined: "router_step (Joined demo_id ''r'') (attach 0 initial_router) demo_room"
  unfolding demo_room_def by (rule joined) (simp add: attach_def demo_id_def initial_router_def Let_def)

lemma demo_broadcast:
  "members_of s ''r'' = {demo_id} \<Longrightarrow> \<exists>t. router_step (Broadcast ''r'' [demo_id] ''m'') s t"
  using broadcast [of "[demo_id]" s "''r''" "\<lambda>_. Some ''m''" "''e''" JNull] by (auto simp: room_emit_def)

text \<open>A message to the room of one member; and that member's connection closed, with a close handler that removes it.\<close>

theorem rooms_refine_membership_witness:
  "(\<exists>t. router_step (Broadcast ''r'' [demo_id] ''m'') demo_room t \<and> membership t = membership demo_room \<and>
      router_sends t = router_sends demo_room @ [(demo_id, ''m'')]) \<and>
   (\<exists>s t. router_reachable s \<and> life s demo_id = Closed \<and> membership s = ({demo_id}, {(demo_id, ''r'')}) \<and>
      router_step (CloseErased demo_id) s t \<and> membership t = ({}, {}))"
proof
  have r: "router_reachable demo_room" by (rule stepped [OF stepped [OF started demo_attached] demo_joined])
  obtain t where t: "router_step (Broadcast ''r'' [demo_id] ''m'') demo_room t"
    using demo_broadcast [of demo_room] by (auto simp: demo_room_simps)
  from rooms_refine_membership [OF r this] t
  show "\<exists>t. router_step (Broadcast ''r'' [demo_id] ''m'') demo_room t \<and> membership t = membership demo_room \<and>
      router_sends t = router_sends demo_room @ [(demo_id, ''m'')]" by (auto simp: membership_def)
  have m: "membership demo_room = ({demo_id}, {(demo_id, ''r'')})"
    by (auto simp: membership_def demo_room_simps, auto simp: demo_room_def demo_id_def initial_router_def)
  let ?h = "demo_room\<lparr>hooked := insert demo_id (hooked demo_room)\<rparr>"
  have h: "router_step (Hooked demo_id) demo_room ?h" by (rule hooked) (simp add: demo_room_simps)
  let ?c = "close_lookup demo_id (?h\<lparr>life := (life ?h)(demo_id := Closed)\<rparr>)"
  have c: "router_step (RawClosed demo_id) ?h ?c" using raw_closed [of ?h demo_id] by (simp add: demo_room_simps)
  have rc: "router_reachable ?c" by (rule stepped [OF stepped [OF r h] c])
  have mc: "membership ?c = ({demo_id}, {(demo_id, ''r'')})" using m by (simp add: membership_def)
  have "demo_id \<in> sockets demo_room" using m by (simp add: membership_def)
  then have "(demo_id, True) \<in> set (closing ?c)" by (simp add: close_lookup_def)
  then have e: "router_step (CloseErased demo_id) ?c (close_erase demo_id True ?c)" by (rule close_erased)
  have "life ?c demo_id = Closed" by (simp add: close_lookup_def)
  moreover have "membership (close_erase demo_id True ?c) = ({}, {})" using rooms_refine_membership [OF rc e] mc by auto
  ultimately show "\<exists>s t. router_reachable s \<and> life s demo_id = Closed \<and> membership s = ({demo_id}, {(demo_id, ''r'')}) \<and>
      router_step (CloseErased demo_id) s t \<and> membership t = ({}, {})"
    using rc mc e by blast
qed

text \<open>
  As long as no connection closes before its close handler is in place, a message to a room goes only to connections that are still there:
  none of the sockets a room sends to has a connection that was destroyed.
\<close>

theorem rooms_hold_no_dead_connection:
  assumes "orderly s" "router_step (Broadcast r order msg) s t"
  shows "list_all (\<lambda>i. life s i = Open \<or> life s i = Closed) order"
proof -
  have i: "router_inv s" using assms(1) by (intro router_inv_reachable orderly_reachable)
  have "set order = members_of s r" using assms(2) by (auto elim: router_stepE)
  with i orderly_tracked [OF assms(1)] show ?thesis
    unfolding router_inv_def tracked_def list_all_iff by blast
qed

theorem rooms_hold_no_dead_connection_witness:
  "\<exists>t. router_step (Broadcast ''r'' [demo_id] ''m'') demo_room t \<and> list_all (\<lambda>i. life demo_room i = Open \<or> life demo_room i = Closed) [demo_id]"
proof -
  have o: "orderly demo_room"
    by (rule orderly_step [OF orderly_step [OF orderly_start demo_attached] demo_joined]) simp_all
  obtain t where t: "router_step (Broadcast ''r'' [demo_id] ''m'') demo_room t"
    using demo_broadcast [of demo_room] by (auto simp: demo_room_simps)
  from rooms_hold_no_dead_connection [OF o this] t show ?thesis by blast
qed

text \<open>
  Without that assumption it fails: the socket is in the router before the connection has the close handler, and \<^verbatim>\<open>on_connect\<close> runs
  in between. A connection that closes there (the server shuts down, a timer fires, \<^verbatim>\<open>on_connect\<close> closes it or throws) is never
  taken out, and a message to a room it had joined is sent through a reference to the destroyed connection.
\<close>

lemma early_close_leaves_dead_socket:
  "\<exists>s t. router_reachable s \<and> life s demo_id = Destroyed \<and> router_step (Broadcast ''r'' [demo_id] ''m'') s t"
proof -
  let ?c = "demo_room\<lparr>life := (life demo_room)(demo_id := Closed)\<rparr>"
  let ?d = "?c\<lparr>life := (life ?c)(demo_id := Destroyed)\<rparr>"
  have c: "router_step (RawClosed demo_id) demo_room ?c"
    using raw_closed [OF demo_room_simps(1)] by (simp add: demo_room_simps)
  have "router_step (RawDestroyed demo_id) ?c ?d" by (rule raw_destroyed) (simp_all add: demo_room_simps)
  then have "router_reachable ?d"
    by (rule stepped [OF stepped [OF stepped [OF stepped [OF started demo_attached] demo_joined] c]])
  moreover have "life ?d demo_id = Destroyed" by simp
  moreover obtain t where "router_step (Broadcast ''r'' [demo_id] ''m'') ?d t"
    using demo_broadcast [of ?d] by (auto simp: demo_room_simps)
  ultimately show ?thesis by blast
qed

text \<open>The router keeps an entry for every room name that was ever used, also when its last member is gone.\<close>

lemma rooms_never_forgotten: "router_step l s t \<Longrightarrow> rooms s r \<noteq> None \<Longrightarrow> rooms t r \<noteq> None"
  by (erule router_step.cases)
    (auto simp: attach_def join_room_def leave_room_def room_emit_def broadcast_to_room_def socket_emit_def close_lookup_def close_erase_def Let_def split: option.splits)

text \<open>What one side emits the other side's handler of that event gets.\<close>

lemma emitted_event_dispatched:
  assumes "dump (event_payload event d) = Some msg" "parse msg = Some (event_payload event d)" "handlers event = Some h" "i \<in> sockets s"
  shows "on_message_call parse handlers i msg s = Some (h, d)"
  using assms by (simp add: on_message_call_def message_event_def event_payload_def json_string_field_def)

end
