(* ===== verification/Prometheus.thy ===== *)
theory Prometheus
  imports Response_Writer C_Numbers
begin

text \<open>
  The metrics registry (\<^verbatim>\<open>src/utils/PrometheusRegistry.cpp\<close>) and the middleware that counts requests in it
  (\<^verbatim>\<open>src/middleware/Metrics.cpp\<close>). Every operation runs under the registry's mutex. Values, \<^verbatim>\<open>double\<close>s in the code, are rationals:
  rounding, NaN and infinities are left out, and the text of a value is the parameter \<open>fmt\<close>. An \<^verbatim>\<open>unordered_map\<close> is a list of
  its entries in the order of iteration, in which a new key comes last.

  The theorems: the registry's counters, gauges and histograms are the sums and counts of what was reported, a histogram is exposed
  with cumulative buckets, and the gauge of requests in flight is their number.
\<close>

section \<open>The registry\<close>

record Metric =
  m_value :: rat
  m_count :: nat
  m_sum :: rat
  m_buckets :: "nat list"

type_synonym metric_map = "(string \<times> (string \<times> Metric) list) list"

record PrometheusRegistry =
  counters :: metric_map
  gauges :: metric_map
  histograms :: metric_map
  type_text :: "(string \<times> string) list"

definition new_metric :: Metric where
  "new_metric = \<lparr>m_value = 0, m_count = 0, m_sum = 0, m_buckets = []\<rparr>"

definition empty_registry :: PrometheusRegistry where
  "empty_registry = \<lparr>counters = [], gauges = [], histograms = [], type_text = []\<rparr>"

text \<open>\<^verbatim>\<open>map[key]\<close>, changed: an entry that is not there is made first.\<close>

fun at_key :: "string \<Rightarrow> 'v \<Rightarrow> ('v \<Rightarrow> 'v) \<Rightarrow> (string \<times> 'v) list \<Rightarrow> (string \<times> 'v) list" where
  "at_key k d f [] = [(k, f d)]"
| "at_key k d f ((k', v) # es) = (if k' = k then (k', f v) # es else (k', v) # at_key k d f es)"

definition at_metric :: "string \<Rightarrow> string \<Rightarrow> (Metric \<Rightarrow> Metric) \<Rightarrow> metric_map \<Rightarrow> metric_map" where
  "at_metric name labels f = at_key name [] (at_key labels new_metric f)"

definition ensure_type :: "string \<Rightarrow> string \<Rightarrow> PrometheusRegistry \<Rightarrow> PrometheusRegistry" where
  "ensure_type name t r = (if map_of (type_text r) name = None then r\<lparr>type_text := type_text r @ [(name, t)]\<rparr> else r)"

text \<open>The bounds of the buckets, with the text a stream prints for each.\<close>

definition kHistogramBounds :: "(rat \<times> string) list" where
  "kHistogramBounds =
     [(5 / 1000, ''0.005''), (1 / 100, ''0.01''), (25 / 1000, ''0.025''), (5 / 100, ''0.05''), (1 / 10, ''0.1''), (25 / 100, ''0.25''),
      (5 / 10, ''0.5''), (1, ''1''), (25 / 10, ''2.5''), (5, ''5''), (10, ''10'')]"

definition inc_counter :: "string \<Rightarrow> string \<Rightarrow> rat \<Rightarrow> PrometheusRegistry \<Rightarrow> PrometheusRegistry" where
  "inc_counter name labels v r =
     ensure_type name ''counter'' (r\<lparr>counters := at_metric name labels (\<lambda>m. m\<lparr>m_value := m_value m + v\<rparr>) (counters r)\<rparr>)"

definition set_gauge :: "string \<Rightarrow> string \<Rightarrow> rat \<Rightarrow> PrometheusRegistry \<Rightarrow> PrometheusRegistry" where
  "set_gauge name labels v r =
     ensure_type name ''gauge'' (r\<lparr>gauges := at_metric name labels (\<lambda>m. m\<lparr>m_value := v\<rparr>) (gauges r)\<rparr>)"

definition inc_gauge :: "string \<Rightarrow> string \<Rightarrow> rat \<Rightarrow> PrometheusRegistry \<Rightarrow> PrometheusRegistry" where
  "inc_gauge name labels v r =
     ensure_type name ''gauge'' (r\<lparr>gauges := at_metric name labels (\<lambda>m. m\<lparr>m_value := m_value m + v\<rparr>) (gauges r)\<rparr>)"

definition dec_gauge :: "string \<Rightarrow> string \<Rightarrow> rat \<Rightarrow> PrometheusRegistry \<Rightarrow> PrometheusRegistry" where
  "dec_gauge name labels v r = r\<lparr>gauges := at_metric name labels (\<lambda>m. m\<lparr>m_value := m_value m - v\<rparr>) (gauges r)\<rparr>"

text \<open>The first bucket whose bound is not below the value.\<close>

fun bump :: "rat \<Rightarrow> (rat \<times> string) list \<Rightarrow> nat list \<Rightarrow> nat list" where
  "bump v (b # bs) (n # ns) = (if v \<le> fst b then (n + 1) # ns else n # bump v bs ns)"
| "bump v _ ns = ns"

definition observe_metric :: "rat \<Rightarrow> Metric \<Rightarrow> Metric" where
  "observe_metric v m =
     m\<lparr>m_count := m_count m + 1, m_sum := m_sum m + v,
       m_buckets := bump v kHistogramBounds (if m_buckets m = [] then replicate (length kHistogramBounds) 0 else m_buckets m)\<rparr>"

definition observe_histogram :: "string \<Rightarrow> string \<Rightarrow> rat \<Rightarrow> PrometheusRegistry \<Rightarrow> PrometheusRegistry" where
  "observe_histogram name labels v r =
     ensure_type name ''histogram'' (r\<lparr>histograms := at_metric name labels (observe_metric v) (histograms r)\<rparr>)"


section \<open>The exposition\<close>

definition braced :: "string \<Rightarrow> string" where
  "braced labels = (if labels = [] then [] else ''{'' @ labels @ ''}'')"

definition type_line :: "PrometheusRegistry \<Rightarrow> string \<Rightarrow> string" where
  "type_line r name = (case map_of (type_text r) name of Some t \<Rightarrow> ''# TYPE '' @ name @ '' '' @ t @ [LF] | None \<Rightarrow> [])"

definition metric_line :: "(rat \<Rightarrow> string) \<Rightarrow> string \<Rightarrow> string \<times> Metric \<Rightarrow> string" where
  "metric_line fmt name e = name @ braced (fst e) @ '' '' @ fmt (m_value (snd e)) @ [LF]"

fun bucket_lines :: "string \<Rightarrow> string \<Rightarrow> nat \<Rightarrow> (rat \<times> string) list \<Rightarrow> nat list \<Rightarrow> string" where
  "bucket_lines name lcomma c [] ns = []"
| "bucket_lines name lcomma c (b # bs) ns =
     (let c' = c + (case ns of [] \<Rightarrow> 0 | n # _ \<Rightarrow> n)
      in name @ ''_bucket{'' @ lcomma @ ''le='' @ [CHR 0x22] @ snd b @ [CHR 0x22] @ ''} '' @ show_nat c' @ [LF] @
         bucket_lines name lcomma c' bs (case ns of [] \<Rightarrow> [] | _ # ns' \<Rightarrow> ns'))"

definition histogram_lines :: "(rat \<Rightarrow> string) \<Rightarrow> string \<Rightarrow> string \<times> Metric \<Rightarrow> string" where
  "histogram_lines fmt name e =
     (let labels = fst e; m = snd e; lcomma = (if labels = [] then [] else labels @ '','')
      in bucket_lines name lcomma 0 kHistogramBounds (m_buckets m) @
         name @ ''_bucket{'' @ lcomma @ ''le='' @ [CHR 0x22] @ ''+Inf'' @ [CHR 0x22] @ ''} '' @ show_nat (m_count m) @ [LF] @
         name @ ''_sum'' @ braced labels @ '' '' @ fmt (m_sum m) @ [LF] @
         name @ ''_count'' @ braced labels @ '' '' @ show_nat (m_count m) @ [LF])"

definition expose :: "(rat \<Rightarrow> string) \<Rightarrow> PrometheusRegistry \<Rightarrow> string" where
  "expose fmt r =
     concat (map (\<lambda>(name, ms). type_line r name @ concat (map (metric_line fmt name) ms)) (counters r)) @
     concat (map (\<lambda>(name, ms). type_line r name @ concat (map (metric_line fmt name) ms)) (gauges r)) @
     concat (map (\<lambda>(name, ms). type_line r name @ concat (map (histogram_lines fmt name) ms)) (histograms r))"


section \<open>Counting requests\<close>

definition method_label :: "HttpMethod \<Rightarrow> string" where
  "method_label m =
     (case m of GET \<Rightarrow> ''GET'' | POST \<Rightarrow> ''POST'' | PUT \<Rightarrow> ''PUT'' | PATCH \<Rightarrow> ''PATCH'' | DELETE \<Rightarrow> ''DELETE'' | OPTIONS \<Rightarrow> ''OPTIONS''
      | HEAD \<Rightarrow> ''HEAD'' | UNKNOWN \<Rightarrow> ''UNKNOWN'')"

definition kInFlight :: string where
  "kInFlight = ''orbit_http_requests_in_flight''"

text \<open>The call of the middleware: nothing for an upgrade, else the label its interceptor will use.\<close>

definition track_begin :: "HttpRequest \<Rightarrow> PrometheusRegistry \<Rightarrow> string option \<times> PrometheusRegistry" where
  "track_begin req r =
     (if hdr_find ''Upgrade'' (req_headers req) \<noteq> None then (None, r)
      else (Some (''method='' @ [CHR 0x22] @ method_label (req_method req) @ [CHR 0x22]),
            inc_counter ''orbit_http_request_bytes_total'' [] (of_nat (length (req_body req))) (inc_gauge kInFlight [] 1 r)))"

text \<open>\<^verbatim>\<open>std::stoull\<close>: a minus sign negates modulo $2^{64}$.\<close>

definition stoull :: "string \<Rightarrow> nat option" where
  "stoull s =
     (let t = dropWhile isspace s;
          neg = (t \<noteq> [] \<and> hd t = CHR ''-'');
          u = (if t \<noteq> [] \<and> (hd t = CHR ''-'' \<or> hd t = CHR ''+'') then tl t else t);
          ds = takeWhile isdigit u;
          v = dec_value ds
      in if ds = [] \<or> v \<ge> 2 ^ 64 then None else Some (if neg then nat ((- int v) mod 2 ^ 64) else v))"

definition response_bytes :: "HttpResponse \<Rightarrow> nat" where
  "response_bytes res =
     (case hdr_find ''Content-Length'' (res_headers res) of
        None \<Rightarrow> length (res_body res)
      | Some cl \<Rightarrow> (case stoull cl of None \<Rightarrow> length (res_body res) | Some n \<Rightarrow> n))"

text \<open>The interceptor, with the label and the seconds since the request began.\<close>

definition track_end :: "string \<Rightarrow> HttpResponse \<Rightarrow> rat \<Rightarrow> PrometheusRegistry \<Rightarrow> PrometheusRegistry" where
  "track_end meth res seconds r =
     inc_counter ''orbit_http_response_bytes_total'' meth (of_nat (response_bytes res))
       (observe_histogram ''orbit_http_request_duration_seconds'' meth seconds
         (inc_counter ''orbit_http_requests_total'' (meth @ '',status='' @ [CHR 0x22] @ show_int (status_code res) @ [CHR 0x22]) 1
           (dec_gauge kInFlight [] 1 r)))"


section \<open>Sums and counts\<close>

datatype registry_op =
    IncCounter string string rat
  | SetGauge string string rat
  | IncGauge string string rat
  | DecGauge string string rat
  | Observe string string rat

fun apply_op :: "registry_op \<Rightarrow> PrometheusRegistry \<Rightarrow> PrometheusRegistry" where
  "apply_op (IncCounter n l v) r = inc_counter n l v r"
| "apply_op (SetGauge n l v) r = set_gauge n l v r"
| "apply_op (IncGauge n l v) r = inc_gauge n l v r"
| "apply_op (DecGauge n l v) r = dec_gauge n l v r"
| "apply_op (Observe n l v) r = observe_histogram n l v r"

definition metric_at :: "metric_map \<Rightarrow> string \<Rightarrow> string \<Rightarrow> Metric option" where
  "metric_at ms name labels = Option.bind (map_of ms name) (\<lambda>ls. map_of ls labels)"

lemma map_of_at_key: "map_of (at_key k d f es) = (map_of es)(k \<mapsto> f (case map_of es k of Some v \<Rightarrow> v | None \<Rightarrow> d))"
  by (induction es) (auto simp: fun_eq_iff)

lemma metric_at_update:
  "metric_at (at_metric n l f ms) n' l' =
     (if n = n' \<and> l = l' then Some (f (case metric_at ms n l of Some m \<Rightarrow> m | None \<Rightarrow> new_metric)) else metric_at ms n' l')"
  by (auto simp: metric_at_def at_metric_def map_of_at_key split: option.splits)

lemma ensure_type_simps [simp]:
  "counters (ensure_type n t r) = counters r" "gauges (ensure_type n t r) = gauges r" "histograms (ensure_type n t r) = histograms r"
  by (simp_all add: ensure_type_def)

fun increments :: "string \<Rightarrow> string \<Rightarrow> registry_op list \<Rightarrow> rat list" where
  "increments n l [] = []"
| "increments n l (IncCounter n' l' v # ops) = (if n' = n \<and> l' = l then v # increments n l ops else increments n l ops)"
| "increments n l (_ # ops) = increments n l ops"

fun observations :: "string \<Rightarrow> string \<Rightarrow> registry_op list \<Rightarrow> rat list" where
  "observations n l [] = []"
| "observations n l (Observe n' l' v # ops) = (if n' = n \<and> l' = l then v # observations n l ops else observations n l ops)"
| "observations n l (_ # ops) = observations n l ops"

definition level :: "string \<Rightarrow> string \<Rightarrow> PrometheusRegistry \<Rightarrow> rat" where
  "level n l r = (case metric_at (gauges r) n l of Some m \<Rightarrow> m_value m | None \<Rightarrow> 0)"

lemma level_simps:
  "level n l (inc_counter n' l' v r) = level n l r"
  "level n l (set_gauge n' l' v r) = (if n' = n \<and> l' = l then v else level n l r)"
  "level n l (inc_gauge n' l' v r) = (if n' = n \<and> l' = l then level n l r + v else level n l r)"
  "level n l (dec_gauge n' l' v r) = (if n' = n \<and> l' = l then level n l r - v else level n l r)"
  "level n l (observe_histogram n' l' v r) = level n l r"
  by (auto simp: level_def inc_counter_def set_gauge_def inc_gauge_def dec_gauge_def observe_histogram_def metric_at_update new_metric_def split: option.splits)

lemmas registry_defs = inc_counter_def set_gauge_def inc_gauge_def dec_gauge_def observe_histogram_def

lemma increments_snoc:
  "increments n l (ops @ [op]) = increments n l ops @ increments n l [op]"
  by (induction n l ops rule: increments.induct) auto

lemma observations_snoc:
  "observations n l (ops @ [op]) = observations n l ops @ observations n l [op]"
  by (induction n l ops rule: observations.induct) auto

text \<open>
  A counter has the sum of its increments, whatever other operations came in between, and there is one exactly when it was
  incremented.
\<close>

theorem counter_is_sum:
  "case metric_at (counters (fold apply_op ops empty_registry)) n l of
     None \<Rightarrow> increments n l ops = []
   | Some m \<Rightarrow> increments n l ops \<noteq> [] \<and> m_value m = sum_list (increments n l ops)"
proof (induction ops rule: rev_induct)
  case Nil
  show ?case by (simp add: empty_registry_def metric_at_def)
next
  case (snoc op ops)
  show ?case
    by (cases op) (use snoc in \<open>auto simp: increments_snoc registry_defs metric_at_update new_metric_def split: option.splits\<close>)
qed


section \<open>Histograms\<close>

text \<open>How many values fall into each bucket, and what a histogram of the values is.\<close>

fun bucket_counts :: "(rat \<times> string) list \<Rightarrow> rat list \<Rightarrow> nat list" where
  "bucket_counts [] vs = []"
| "bucket_counts (b # bs) vs = length (filter (\<lambda>v. v \<le> fst b) vs) # bucket_counts bs (filter (\<lambda>v. \<not> v \<le> fst b) vs)"

lemma bump_counts: "bump v bs (bucket_counts bs vs) = bucket_counts bs (vs @ [v])"
  by (induction bs arbitrary: vs) auto

lemma bucket_counts_Nil: "bucket_counts bs [] = replicate (length bs) 0"
  by (induction bs) auto

definition histogram_of :: "rat list \<Rightarrow> Metric" where
  "histogram_of vs = \<lparr>m_value = 0, m_count = length vs, m_sum = sum_list vs, m_buckets = bucket_counts kHistogramBounds vs\<rparr>"

lemma kHistogramBounds_nonempty: "kHistogramBounds \<noteq> []" "bucket_counts kHistogramBounds vs \<noteq> []"
  by (simp_all add: kHistogramBounds_def)

lemma observe_histogram_of: "observe_metric v (histogram_of vs) = histogram_of (vs @ [v])"
  by (simp add: observe_metric_def histogram_of_def bump_counts kHistogramBounds_nonempty)

lemma observe_new: "observe_metric v new_metric = histogram_of [v]"
  using bump_counts [of v kHistogramBounds "[]"] by (simp add: observe_metric_def new_metric_def histogram_of_def bucket_counts_Nil)

lemma histogram_at:
  "metric_at (histograms (fold apply_op ops empty_registry)) n l =
     (if observations n l ops = [] then None else Some (histogram_of (observations n l ops)))"
proof (induction ops rule: rev_induct)
  case Nil
  show ?case by (simp add: empty_registry_def metric_at_def)
next
  case (snoc op ops)
  show ?case
    by (cases op) (use snoc in \<open>auto simp: observations_snoc registry_defs metric_at_update observe_histogram_of observe_new split: option.splits\<close>)
qed

lemma filter_split_count:
  "b \<le> c \<Longrightarrow> length (filter (\<lambda>v. v \<le> b) vs) + length (filter (\<lambda>v. v \<le> c) (filter (\<lambda>v. \<not> v \<le> b) vs)) = length (filter (\<lambda>v. v \<le> (c::rat)) vs)"
  by (induction vs) auto

definition bucket_line :: "string \<Rightarrow> string \<Rightarrow> string \<Rightarrow> nat \<Rightarrow> string" where
  "bucket_line name lcomma bound n = name @ ''_bucket{'' @ lcomma @ ''le='' @ [CHR 0x22] @ bound @ [CHR 0x22] @ ''} '' @ show_nat n @ [LF]"

lemma bucket_lines_cumulative:
  "sorted (map fst bs) \<Longrightarrow>
   bucket_lines name lcomma c bs (bucket_counts bs vs) =
     concat (map (\<lambda>(b, t). bucket_line name lcomma t (c + length (filter (\<lambda>v. v \<le> b) vs))) bs)"
proof (induction bs arbitrary: c vs)
  case (Cons b bs)
  let ?rest = "filter (\<lambda>v. \<not> v \<le> fst b) vs"
  have "bucket_lines name lcomma (c + length (filter (\<lambda>v. v \<le> fst b) vs)) bs (bucket_counts bs ?rest) =
      concat (map (\<lambda>(d, t). bucket_line name lcomma t (c + length (filter (\<lambda>v. v \<le> fst b) vs) + length (filter (\<lambda>v. v \<le> d) ?rest))) bs)"
    using Cons by simp
  also have "\<dots> = concat (map (\<lambda>(d, t). bucket_line name lcomma t (c + length (filter (\<lambda>v. v \<le> d) vs))) bs)"
    using Cons.prems filter_split_count [of "fst b" _ vs]
    by (intro arg_cong [where f = concat] map_cong) (fastforce simp del: filter_filter simp: add.assoc)+
  finally show ?case by (cases b) (simp add: bucket_line_def Let_def del: filter_filter)
qed simp

text \<open>
  A histogram is exposed as the format defines it: for every bound the number of values observed up to that bound, whatever other
  operations came in between, then under \<^verbatim>\<open>+Inf\<close> and as the count the number of all of them, and their sum.
\<close>

theorem histogram_exposed:
  "case metric_at (histograms (fold apply_op ops empty_registry)) n l of
     None \<Rightarrow> observations n l ops = []
   | Some m \<Rightarrow>
       (let vs = observations n l ops; lcomma = (if l = [] then [] else l @ '','')
        in vs \<noteq> [] \<and>
           histogram_lines fmt n (l, m) =
             concat (map (\<lambda>(b, t). bucket_line n lcomma t (length (filter (\<lambda>v. v \<le> b) vs))) kHistogramBounds) @
             bucket_line n lcomma ''+Inf'' (length vs) @
             n @ ''_sum'' @ braced l @ '' '' @ fmt (sum_list vs) @ [LF] @
             n @ ''_count'' @ braced l @ '' '' @ show_nat (length vs) @ [LF])"
proof -
  have "sorted (map fst kHistogramBounds)" by (simp add: kHistogramBounds_def)
  then show ?thesis
    by (simp add: histogram_at Let_def histogram_lines_def histogram_of_def bucket_lines_cumulative bucket_line_def case_prod_beta)
qed


section \<open>Requests in flight\<close>

text \<open>
  Requests begin and are answered, each once, in any order; a tracked one is remembered with its label, as the interceptor does.
\<close>

datatype metrics_event = Began nat HttpRequest | Answered nat HttpResponse rat

fun metrics_step :: "metrics_event \<Rightarrow> (nat \<times> string) list \<times> PrometheusRegistry \<Rightarrow> (nat \<times> string) list \<times> PrometheusRegistry" where
  "metrics_step (Began i req) (open_requests, r) =
     (case track_begin req r of (None, r') \<Rightarrow> (open_requests, r') | (Some meth, r') \<Rightarrow> (open_requests @ [(i, meth)], r'))"
| "metrics_step (Answered i res seconds) (open_requests, r) =
     (case map_of open_requests i of
        None \<Rightarrow> (open_requests, r)
      | Some meth \<Rightarrow> (remove1 (i, meth) open_requests, track_end meth res seconds r))"

lemma level_track:
  "level kInFlight [] (snd (track_begin req r)) = level kInFlight [] r + (if fst (track_begin req r) = None then 0 else 1)"
  "level kInFlight [] (track_end meth res seconds r) = level kInFlight [] r - 1"
  by (simp_all add: track_begin_def track_end_def level_simps kInFlight_def)

text \<open>
  The gauge of requests in flight is, after any sequence of requests that begin and are answered in any order, the number of
  those that were counted and are not answered yet.
\<close>

theorem in_flight_is_open_requests:
  "case fold metrics_step events ([], empty_registry) of
     (open_requests, r) \<Rightarrow> level kInFlight [] r = of_nat (length open_requests)"
proof (induction events rule: rev_induct)
  case Nil
  show ?case by (simp add: level_def metric_at_def empty_registry_def)
next
  case (snoc e events)
  obtain os r where f: "fold metrics_step events ([], empty_registry) = (os, r)" by fastforce
  with snoc have l: "level kInFlight [] r = of_nat (length os)" by simp
  show ?case
  proof (cases e)
    case (Began i req)
    show ?thesis
    proof (cases "track_begin req r")
      case (Pair x y)
      then show ?thesis using level_track(1) [of req r] l by (cases x) (simp_all add: f Began)
    qed
  next
    case (Answered i res seconds)
    show ?thesis
    proof (cases "map_of os i")
      case (Some meth)
      then have "(i, meth) \<in> set os" by (rule map_of_SomeD)
      then have "length os = Suc (length os - 1)" "length (remove1 (i, meth) os) = length os - 1"
        by (auto simp: length_remove1 dest: length_pos_if_in_set)
      then have "of_nat (length os) - 1 = (of_nat (length (remove1 (i, meth) os)) :: rat)"
        by (metis of_nat_Suc add_diff_cancel_left')
      with Some l show ?thesis by (simp add: f Answered level_track(2))
    qed (simp add: f Answered l)
  qed
qed

end
