(* ===== verification/Observability.thy ===== *)
theory Observability
  imports Prometheus Http_Dates Routing
begin

text \<open>
  What a server says of its requests: request ids, trace contexts and the access log (\<^verbatim>\<open>src/middleware/Observability.cpp\<close>), the lines
  of the logger (\<^verbatim>\<open>src/utils/Logger.cpp\<close>), and the constant headers of \<^verbatim>\<open>src/middleware/SecurityHeaders.cpp\<close>. Random
  identifiers and clocks are arguments; an interceptor that only reports leaves the response as it is, and what it reports is a
  definition of its own. Colours, the sink and the writing of a line are left out.

  The theorems: each middleware keeps the router's contract; an id is well-formed whatever the client sent; the trace a service passes
  on is continued by the next; a JSON log line is one line that reads back as its fields; and security headers are defaults.
\<close>

section \<open>Logging\<close>

datatype LogLevel = DEBUG | INFO | WARN | ERROR

definition level_rank :: "LogLevel \<Rightarrow> nat" where
  "level_rank l = (case l of DEBUG \<Rightarrow> 0 | INFO \<Rightarrow> 1 | WARN \<Rightarrow> 2 | ERROR \<Rightarrow> 3)"

definition level_name :: "LogLevel \<Rightarrow> string" where
  "level_name l = (case l of DEBUG \<Rightarrow> ''debug'' | INFO \<Rightarrow> ''info'' | WARN \<Rightarrow> ''warn'' | ERROR \<Rightarrow> ''error'')"

definition level_to_string :: "LogLevel \<Rightarrow> string" where
  "level_to_string l = (case l of DEBUG \<Rightarrow> ''DEBUG'' | INFO \<Rightarrow> ''INFO '' | WARN \<Rightarrow> ''WARN '' | ERROR \<Rightarrow> ''ERROR'')"

abbreviation QT :: char where "QT \<equiv> CHR 0x22"
abbreviation BS :: char where "BS \<equiv> CHR 0x5C"

definition escape_char :: "char \<Rightarrow> string" where
  "escape_char c =
     (if c = QT then [BS, QT] else if c = BS then [BS, BS] else if c = LF then [BS, CHR ''n''] else if c = CR then [BS, CHR ''r'']
      else if c = CHR 0x09 then [BS, CHR ''t'']
      else if byte_of c < 32 then [BS, CHR ''u'', CHR ''0'', CHR ''0'', hex_lower (byte_of c div 16), hex_lower (byte_of c mod 16)]
      else [c])"

definition json_escape :: "string \<Rightarrow> string" where
  "json_escape s = concat (map escape_char s)"

definition base_name :: "string \<Rightarrow> string" where
  "base_name f = rev (takeWhile (\<lambda>c. c \<noteq> CHR ''/'' \<and> c \<noteq> BS) (rev f))"

text \<open>\<^verbatim>\<open>put_time\<close> with \<^verbatim>\<open>%Y-%m-%dT%H:%M:%S\<close> (in text logs with a space), and the milliseconds with three digits.\<close>

definition put_time :: "string \<Rightarrow> tm \<Rightarrow> string" where
  "put_time sep t =
     show_int (tm_year t) @ ''-'' @ pad_int 2 (int (tm_mon t)) @ ''-'' @ pad_int 2 (tm_mday t) @ sep @
     pad_int 2 (tm_hour t) @ '':'' @ pad_int 2 (tm_min t) @ '':'' @ pad_int 2 (tm_sec t)"

definition json_field_text :: "string \<times> string \<Rightarrow> string" where
  "json_field_text kv = '','' @ [QT] @ json_escape (fst kv) @ [QT] @ '':'' @ [QT] @ json_escape (snd kv) @ [QT]"

definition json_line :: "int \<Rightarrow> nat \<Rightarrow> LogLevel \<Rightarrow> string \<Rightarrow> int \<Rightarrow> string \<Rightarrow> (string \<times> string) list \<Rightarrow> string" where
  "json_line now ms l file line msg fs =
     ''{'' @ [QT] @ ''ts'' @ [QT] @ '':'' @ [QT] @ put_time ''T'' (gmtime now) @ ''.'' @ pad_int 3 (int ms) @ ''Z'' @ [QT] @
     '','' @ [QT] @ ''level'' @ [QT] @ '':'' @ [QT] @ level_name l @ [QT] @
     '','' @ [QT] @ ''source'' @ [QT] @ '':'' @ [QT] @ json_escape (base_name file) @ '':'' @ show_int line @ [QT] @
     '','' @ [QT] @ ''msg'' @ [QT] @ '':'' @ [QT] @ json_escape msg @ [QT] @ concat (map json_field_text fs) @ ''}''"

definition text_field :: "string \<times> string \<Rightarrow> string" where
  "text_field kv =
     (let v = snd kv; quote = (v = [] \<or> (\<exists>c \<in> set v. c = CHR '' '' \<or> c = CHR 0x09 \<or> c = QT \<or> c = CHR ''=''))
      in '' '' @ fst kv @ ''='' @ (if quote then [QT] @ json_escape v @ [QT] else v))"

definition text_line :: "tm \<Rightarrow> nat \<Rightarrow> LogLevel \<Rightarrow> string \<Rightarrow> int \<Rightarrow> string \<Rightarrow> (string \<times> string) list \<Rightarrow> string" where
  "text_line t ms l file line msg fs =
     ''['' @ put_time '' '' t @ ''.'' @ pad_int 3 (int ms) @ ''] ['' @ level_to_string l @ ''] ['' @ base_name file @ '':'' @ show_int line @
     ''] '' @ msg @ concat (map text_field fs)"


section \<open>Request ids and traces\<close>

definition request_method_name :: "HttpMethod \<Rightarrow> string" where
  "request_method_name m =
     (case m of GET \<Rightarrow> ''GET'' | POST \<Rightarrow> ''POST'' | PUT \<Rightarrow> ''PUT'' | PATCH \<Rightarrow> ''PATCH'' | DELETE \<Rightarrow> ''DELETE'' | OPTIONS \<Rightarrow> ''OPTIONS''
      | HEAD \<Rightarrow> ''HEAD'' | UNKNOWN \<Rightarrow> ''UNKNOWN'')"

definition is_hex :: "string \<Rightarrow> nat \<Rightarrow> bool" where
  "is_hex s len \<longleftrightarrow> length s = len \<and> list_all (\<lambda>c. 48 \<le> byte_of c \<and> byte_of c \<le> 57 \<or> 97 \<le> byte_of c \<and> byte_of c \<le> 102) s"

definition all_zero :: "string \<Rightarrow> bool" where
  "all_zero s \<longleftrightarrow> list_all (\<lambda>c. c = CHR ''0'') s"

definition is_safe_request_id :: "string \<Rightarrow> bool" where
  "is_safe_request_id i \<longleftrightarrow>
     i \<noteq> [] \<and> length i \<le> 128 \<and> list_all (\<lambda>c. isalnum c \<or> c = CHR ''-'' \<or> c = CHR ''_'' \<or> c = CHR ''.'' \<or> c = CHR '':'') i"

definition access_bytes :: "HttpResponse \<Rightarrow> nat" where
  "access_bytes res =
     (case Option.bind (hdr_find ''Content-Length'' (res_headers res)) stoull of Some n \<Rightarrow> n | None \<Rightarrow> length (res_body res))"

definition random_failed :: exn where
  "random_failed = StdException ''RAND_bytes failed''"

text \<open>\<open>random\<close> is what \<^verbatim>\<open>secure_random_hex\<close> gives, \<open>None\<close> when it throws.\<close>

definition request_id_mw :: "string \<Rightarrow> bool \<Rightarrow> string option \<Rightarrow> 'x Middleware" where
  "request_id_mw header trust_incoming random req w =
     (let incoming = (if trust_incoming
                      then (case hdr_find header (req_headers req) of Some v \<Rightarrow> if is_safe_request_id v then v else [] | None \<Rightarrow> [])
                      else [])
      in if incoming \<noteq> []
         then (Return True, req\<lparr>request_id := incoming\<rparr>, writer_set_header header incoming w)
         else case random of
                None \<Rightarrow> (Throw random_failed, req, w)
              | Some r \<Rightarrow> (Return True, req\<lparr>request_id := r\<rparr>, writer_set_header header r w))"

text \<open>The trace and the parent span of a \<^verbatim>\<open>traceparent\<close> field, if it is well-formed.\<close>

definition parent_context :: "string \<Rightarrow> (string \<times> string) option" where
  "parent_context tp =
     (if length tp \<ge> 55 \<and> tp ! 2 = CHR ''-'' \<and> tp ! 35 = CHR ''-'' \<and> tp ! 52 = CHR ''-'' \<and> take 2 tp \<noteq> ''ff''
      then (let trace = take 32 (drop 3 tp); sid = take 16 (drop 36 tp)
            in if is_hex trace 32 \<and> is_hex sid 16 \<and> \<not> all_zero trace \<and> \<not> all_zero sid then Some (trace, sid) else None)
      else None)"

definition incoming_context :: "HttpRequest \<Rightarrow> (string \<times> string) option" where
  "incoming_context req = Option.bind (hdr_find ''traceparent'' (req_headers req)) parent_context"

definition tracing :: "bool \<Rightarrow> string option \<Rightarrow> string option \<Rightarrow> 'x Middleware" where
  "tracing has_callback random_trace random_span req w =
     (let req1 = (case incoming_context req of Some (trace, _) \<Rightarrow> req\<lparr>trace_id := trace\<rparr> | None \<Rightarrow> req)
      in case (if trace_id req1 = [] then random_trace else Some (trace_id req1)) of
           None \<Rightarrow> (Throw random_failed, req1, w)
         | Some trace \<Rightarrow>
             (let req2 = req1\<lparr>trace_id := trace\<rparr>
              in case random_span of
                   None \<Rightarrow> (Throw random_failed, req2, w)
                 | Some sid \<Rightarrow> (Return True, req2\<lparr>span_id := sid\<rparr>, if has_callback then add_interceptor (\<lambda>res. res) w else w)))"

record Span =
  sp_trace_id :: string
  sp_span_id :: string
  parent_span_id :: string
  sp_name :: string
  sp_status :: int
  sp_client_ip :: string

text \<open>The span that is reported when the response is sent: from the request as \<^verbatim>\<open>tracing\<close> left it, and the one it got.\<close>

definition finished_span :: "HttpRequest \<Rightarrow> HttpRequest \<Rightarrow> HttpResponse \<Rightarrow> Span" where
  "finished_span original req res =
     \<lparr>sp_trace_id = trace_id req, sp_span_id = span_id req,
      parent_span_id = (case incoming_context original of Some (_, sid) \<Rightarrow> sid | None \<Rightarrow> []),
      sp_name = request_method_name (req_method req) @ '' '' @ req_uri req, sp_status = status_code res, sp_client_ip = client_ip req\<rparr>"

definition access_log :: "LogLevel \<Rightarrow> LogLevel \<Rightarrow> 'x Middleware" where
  "access_log current_level l req w =
     (Return True, req, if level_rank current_level > level_rank l then w else add_interceptor (\<lambda>res. res) w)"

text \<open>The line of the access log; the duration in milliseconds is a text.\<close>

definition access_path :: "HttpRequest \<Rightarrow> string" where
  "access_path req = (if req_target req = [] then req_uri req else req_target req)"

definition access_message :: "HttpRequest \<Rightarrow> HttpResponse \<Rightarrow> string \<Rightarrow> string" where
  "access_message req res duration =
     request_method_name (req_method req) @ '' '' @ access_path req @ '' '' @ show_int (status_code res) @ '' '' @ duration @ ''ms''"

definition access_fields :: "HttpRequest \<Rightarrow> HttpResponse \<Rightarrow> string \<Rightarrow> (string \<times> string) list" where
  "access_fields req res duration =
     (let user_agent = (case hdr_find ''User-Agent'' (req_headers req) of Some v \<Rightarrow> v | None \<Rightarrow> [])
      in [(''method'', request_method_name (req_method req)), (''path'', access_path req), (''status'', show_int (status_code res)),
          (''bytes'', show_nat (access_bytes res)), (''duration_ms'', duration), (''client_ip'', client_ip req)] @
         (if user_agent \<noteq> [] then [(''user_agent'', user_agent)] else []) @
         (if request_id req \<noteq> [] then [(''request_id'', request_id req)] else []) @
         (if trace_id req \<noteq> [] then [(''trace_id'', trace_id req)] else []))"


section \<open>Security headers\<close>

record SecurityHeadersOptions =
  hsts_max_age :: int
  hsts_include_subdomains :: bool
  hsts_preload :: bool
  hsts :: bool
  content_type_options :: string
  frame_options :: string
  referrer_policy :: string
  cross_origin_opener_policy :: string
  content_security_policy :: string
  permissions_policy :: string

definition security_header_list :: "SecurityHeadersOptions \<Rightarrow> (string \<times> string) list" where
  "security_header_list opts =
     (if hsts opts
      then [(''Strict-Transport-Security'', ''max-age='' @ show_int (hsts_max_age opts) @
             (if hsts_include_subdomains opts then ''; includeSubDomains'' else []) @ (if hsts_preload opts then ''; preload'' else []))]
      else []) @
     filter (\<lambda>(_, v). v \<noteq> [])
       [(''X-Content-Type-Options'', content_type_options opts), (''X-Frame-Options'', frame_options opts),
        (''Referrer-Policy'', referrer_policy opts), (''Cross-Origin-Opener-Policy'', cross_origin_opener_policy opts),
        (''Content-Security-Policy'', content_security_policy opts), (''Permissions-Policy'', permissions_policy opts)]"

definition security_headers :: "SecurityHeadersOptions \<Rightarrow> 'x Middleware" where
  "security_headers opts req w = (Return True, req, fold (\<lambda>(n, v). writer_set_header n v) (security_header_list opts) w)"

interpretation request_ids: middleware_contract "request_id_mw header trust random"
  by (rule middleware_contractI) (auto simp: request_id_mw_def Let_def split: option.splits if_splits)

lemma tracing_outcome:
  "fst (tracing has_callback random_trace random_span req w) \<in> {Return True, Throw random_failed}"
  "fst (tracing has_callback random_trace random_span req w) = Throw random_failed \<longrightarrow> snd (snd (tracing has_callback random_trace random_span req w)) = w"
  "snd (snd (tracing has_callback random_trace random_span req w)) \<in> {w, add_interceptor (\<lambda>res. res) w}"
  unfolding tracing_def Let_def by (simp_all split: option.split)

interpretation traced: middleware_contract "tracing has_callback random_trace random_span"
proof (rule middleware_contractI)
  fix w :: "'x writer_scheme" and req req' out w'
  assume "fresh w" "tracing has_callback random_trace random_span req w = (out, req', w')"
  then have "out \<in> {Return True, Throw random_failed}" "fresh w'"
    using tracing_outcome [of has_callback random_trace random_span req w] by auto
  then show "mw_post out w'" by auto
qed

interpretation access_logged: middleware_contract "access_log current l"
  by (rule middleware_contractI) (auto simp: access_log_def split: if_splits)

lemma fresh_set_headers: "fresh (fold (\<lambda>(n, v). writer_set_header n v) hs w) = fresh w"
proof (induction hs arbitrary: w)
  case (Cons h hs)
  then show ?case by (cases h) simp
qed simp

interpretation secured: middleware_contract "security_headers opts"
  by (rule middleware_contractI) (auto simp: security_headers_def fresh_set_headers)


section \<open>Reading a log line back\<close>

text \<open>
  The reference: a reader of an object whose values are strings. Of the escapes \<^verbatim>\<open>\u\<close> it reads those of single bytes.
\<close>

definition json_read_char :: "string \<Rightarrow> (char \<times> string) option" where
  "json_read_char s =
     (case s of
        [] \<Rightarrow> None
      | c # t \<Rightarrow>
          if c = BS then
            (case t of
               [] \<Rightarrow> None
             | e # t' \<Rightarrow>
                 if e = QT \<or> e = BS then Some (e, t')
                 else if e = CHR ''n'' then Some (LF, t')
                 else if e = CHR ''r'' then Some (CR, t')
                 else if e = CHR ''t'' then Some (CHR 0x09, t')
                 else if e = CHR ''u'' \<and> length t' \<ge> 4 \<and> take 2 t' = ''00'' then
                   (case (hexval (t' ! 2), hexval (t' ! 3)) of
                      (Some x, Some y) \<Rightarrow> if x < 8 then Some (char_of (16 * x + y), drop 4 t') else None
                    | _ \<Rightarrow> None)
                 else None)
          else if byte_of c < 32 then None
          else Some (c, t))"

lemma json_read_char_shorter: "json_read_char s = Some (c, t) \<Longrightarrow> length t < length s"
  by (auto simp: json_read_char_def split: list.splits if_splits option.splits)

function json_read_string :: "string \<Rightarrow> (string \<times> string) option" where
  "json_read_string s =
     (if s = [] then None
      else if hd s = QT then Some ([], tl s)
      else case json_read_char s of None \<Rightarrow> None | Some (c, t) \<Rightarrow> map_option (apfst ((#) c)) (json_read_string t))"
  by pat_completeness auto
termination
  by (relation "measure length") (auto dest: json_read_char_shorter)

declare json_read_string.simps [simp del]

lemma json_read_string_shorter: "json_read_string s = Some (v, r) \<Longrightarrow> length r < length s"
proof (induction s arbitrary: v rule: json_read_string.induct)
  case (1 s)
  show ?case
  proof (cases "s = [] \<or> hd s = QT")
    case True
    with "1.prems" show ?thesis by (auto simp: json_read_string.simps [of s] split: if_splits)
  next
    case False
    with "1.prems" obtain c t v' where t: "json_read_char s = Some (c, t)" "json_read_string t = Some (v', r)"
      by (auto simp: json_read_string.simps [of s] split: option.splits)
    with False "1.IH" [of "(c, t)" c t v'] json_read_char_shorter [OF t(1)] show ?thesis by simp
  qed
qed

definition json_read_member :: "string \<Rightarrow> ((string \<times> string) \<times> string) option" where
  "json_read_member s =
     (case s of
        q # r \<Rightarrow>
          if q \<noteq> QT then None
          else (case json_read_string r of
                  Some (k, c # q' # r') \<Rightarrow>
                    if c = CHR '':'' \<and> q' = QT then map_option (\<lambda>(v, t). ((k, v), t)) (json_read_string r') else None
                | _ \<Rightarrow> None)
      | [] \<Rightarrow> None)"

lemma json_read_member_shorter: "json_read_member s = Some (m, r) \<Longrightarrow> length r < length s"
  by (auto simp: json_read_member_def split: list.splits if_splits option.splits dest!: json_read_string_shorter)

function json_read_members :: "string \<Rightarrow> (string \<times> string) list option" where
  "json_read_members s =
     (case json_read_member s of
        None \<Rightarrow> None
      | Some (m, r) \<Rightarrow>
          (case r of
             d # r' \<Rightarrow>
               if d = CHR ''}'' then (if r' = [] then Some [m] else None)
               else if d = CHR '','' then map_option ((#) m) (json_read_members r')
               else None
           | [] \<Rightarrow> None))"
  by pat_completeness auto
termination
  by (relation "measure length") (auto dest!: json_read_member_shorter)

declare json_read_members.simps [simp del]

fun json_read_object :: "string \<Rightarrow> (string \<times> string) list option" where
  "json_read_object [] = None"
| "json_read_object (c # s) = (if c = CHR ''{'' then json_read_members s else None)"

lemma hexval_hex_lower: "n < 16 \<Longrightarrow> hexval (hex_lower n) = Some n"
proof -
  have "list_all (\<lambda>n. hexval (hex_lower n) = Some n) [0..<16]" by code_simp
  then show "n < 16 \<Longrightarrow> ?thesis" by (simp add: list_all_iff)
qed

lemma json_read_escape_char: "json_read_string (escape_char c @ s) = map_option (apfst ((#) c)) (json_read_string s)"
proof -
  have "json_read_char (escape_char c @ s) = Some (c, s)"
  proof (cases "c \<in> {QT, BS, LF, CR, CHR 0x09}")
    case True
    then show ?thesis by (auto simp: json_read_char_def escape_char_def)
  next
    case False
    have h: "hexval (hex_lower (byte_of c mod 16)) = Some (byte_of c mod 16)" by (simp add: hexval_hex_lower)
    show ?thesis
    proof (cases "byte_of c < 32")
      case True
      then have "byte_of c div 16 < 8" by simp
      moreover have "hexval (hex_lower (byte_of c div 16)) = Some (byte_of c div 16)" using True by (intro hexval_hex_lower) simp
      ultimately show ?thesis using False True h by (simp add: json_read_char_def escape_char_def byte_of_def)
    next
      case b: False
      with False show ?thesis by (simp add: json_read_char_def escape_char_def)
    qed
  qed
  moreover have "hd (escape_char c @ s) \<noteq> QT" "escape_char c \<noteq> []" by (auto simp: escape_char_def)
  ultimately show ?thesis by (subst json_read_string.simps) simp
qed

lemma json_read_escape: "json_read_string (json_escape v @ QT # r) = Some (v, r)"
  by (induction v) (simp_all add: json_escape_def json_read_escape_char json_read_string.simps [of "QT # r"])

lemma json_read_member_text: "json_read_member ([QT] @ json_escape k @ [QT] @ '':'' @ [QT] @ json_escape v @ [QT] @ r) = Some ((k, v), r)"
  by (simp add: json_read_member_def json_read_escape)

lemma json_read_members_text:
  "json_read_members (tl (json_field_text m) @ concat (map json_field_text ms) @ ''}'') = Some (m # ms)"
proof (induction ms arbitrary: m)
  case Nil
  show ?case
    using json_read_member_text [of "fst m" "snd m" "''}''"] by (subst json_read_members.simps) (simp add: json_field_text_def)
next
  case (Cons n ms)
  have "json_read_member (tl (json_field_text m) @ concat (map json_field_text (n # ms)) @ ''}'') =
      Some (m, CHR '','' # tl (json_field_text n) @ concat (map json_field_text ms) @ ''}'')"
    using json_read_member_text [of "fst m" "snd m"] by (simp add: json_field_text_def)
  with Cons show ?case by (subst json_read_members.simps) simp
qed

text \<open>Characters that need no escape.\<close>

definition plain_json :: "string \<Rightarrow> bool" where
  "plain_json s \<longleftrightarrow> list_all (\<lambda>c. 32 \<le> byte_of c \<and> c \<noteq> QT \<and> c \<noteq> BS) s"

lemma json_escape_append: "json_escape (a @ b) = json_escape a @ json_escape b"
  by (simp add: json_escape_def)

lemma json_escape_plain: "plain_json s \<Longrightarrow> json_escape s = s"
proof (induction s)
  case (Cons c s)
  then have "byte_of c \<ge> 32" by (simp add: plain_json_def)
  then have "c \<noteq> LF" "c \<noteq> CR" "c \<noteq> CHR 0x09" by (auto simp: byte_of_def)
  with Cons show ?case by (simp add: json_escape_def plain_json_def escape_char_def)
qed (simp add: json_escape_def)

lemma plain_json_append: "plain_json (a @ b) \<longleftrightarrow> plain_json a \<and> plain_json b"
  by (simp add: plain_json_def)

lemma plain_json_show: "plain_json (show_nat n)" "plain_json (show_int i)" "plain_json (pad_int w i)"
proof -
  show n: "plain_json (show_nat n)" for n
    using show_nat_digits [of n] by (auto simp: plain_json_def list_all_iff isdigit_def byte_of_def)
  show "plain_json (show_int i)" using n by (simp add: show_int_def plain_json_def byte_of_def)
  have "plain_json (replicate k (CHR ''0''))" "plain_json ''-''" "plain_json []" for k by (simp_all add: plain_json_def byte_of_def list_all_iff)
  with n show "plain_json (pad_int w i)" unfolding pad_int_def Let_def plain_json_append by simp
qed

lemma plain_json_time: "plain_json (put_time ''T'' t)"
  unfolding put_time_def plain_json_append by (simp add: plain_json_show) (simp add: plain_json_def byte_of_def)

lemma plain_json_level: "plain_json (level_name l)"
  by (cases l) (simp_all add: level_name_def plain_json_def byte_of_def)

lemma escaped_unbroken: "LF \<notin> set (json_escape s)"
proof -
  have h: "list_all (\<lambda>n. hex_lower n \<noteq> LF) [0..<16]" by code_simp
  have "LF \<notin> set (escape_char c)" for c
  proof -
    have "hex_lower (byte_of c div 16) \<noteq> LF" "hex_lower (byte_of c mod 16) \<noteq> LF"
      using h byte_of_less [of c] by (auto simp: list_all_iff simp del: upt_Suc)
    then show ?thesis by (simp add: escape_char_def)
  qed
  then show ?thesis by (simp add: json_escape_def)
qed

text \<open>
  A line of the JSON log is one line, and reads back as an object with the time, the level, the source and, character for character, the
  message and the fields it was given, whatever they contain.
\<close>

theorem json_line_reads_back:
  "json_read_object (json_line now ms l file line msg fs) =
     Some ([(''ts'', put_time ''T'' (gmtime now) @ ''.'' @ pad_int 3 (int ms) @ ''Z''), (''level'', level_name l),
            (''source'', base_name file @ '':'' @ show_int line), (''msg'', msg)] @ fs) \<and>
   LF \<notin> set (json_line now ms l file line msg fs)"
proof -
  let ?ts = "put_time ''T'' (gmtime now) @ ''.'' @ pad_int 3 (int ms) @ ''Z''"
  let ?m = "(''ts'', ?ts)"
  let ?ms = "[(''level'', level_name l), (''source'', base_name file @ '':'' @ show_int line), (''msg'', msg)] @ fs"
  have k: "json_escape ''ts'' = ''ts''" "json_escape ''level'' = ''level''" "json_escape ''source'' = ''source''" "json_escape ''msg'' = ''msg''" "json_escape '':'' = '':''"
    "json_escape ''.'' = ''.''" "json_escape ''Z'' = ''Z''"
    by code_simp+
  have e: "json_line now ms l file line msg fs = CHR ''{'' # tl (json_field_text ?m) @ concat (map json_field_text ?ms) @ ''}''"
    unfolding json_line_def json_field_text_def list.map concat.simps map_append concat_append fst_conv snd_conv k
      json_escape_plain [OF plain_json_time] json_escape_plain [OF plain_json_level] json_escape_append json_escape_plain [OF plain_json_show(2)] json_escape_plain [OF plain_json_show(3)]
    by simp
  have r: "json_read_object (json_line now ms l file line msg fs) = Some (?m # ?ms)"
    unfolding e json_read_object.simps json_read_members_text by simp
  have "LF \<notin> set (json_field_text kv)" for kv by (simp add: json_field_text_def escaped_unbroken)
  moreover have "set (tl (json_field_text ?m)) \<subseteq> set (json_field_text ?m)" by (cases "json_field_text ?m") auto
  ultimately have "LF \<notin> set (tl (json_field_text ?m))" "LF \<notin> set (concat (map json_field_text ?ms))"
    by (blast, simp)
  then have "LF \<notin> set (json_line now ms l file line msg fs)" unfolding e by simp
  with r show ?thesis by simp
qed

text \<open>In text logs a value is quoted for a blank, a quote or an equals sign, but not for a line break, which then ends the line.\<close>

lemma text_field_breaks_line: "text_field (''user'', ''bob'' @ [LF] @ ''admin'') = '' user=bob'' @ [LF] @ ''admin''"
  by (simp add: text_field_def Let_def)


section \<open>Identifiers\<close>

lemma hex_safe: "is_hex s n \<Longrightarrow> n \<noteq> 0 \<Longrightarrow> n \<le> 128 \<Longrightarrow> is_safe_request_id s"
  by (auto simp: is_hex_def is_safe_request_id_def list_all_iff isalnum_def isdigit_def isalpha_def)

text \<open>
  Whatever a client sends, the id of a request, which goes into the logs and back in a header, has 1 to 128 characters, all of
  them letters, digits and \<^verbatim>\<open>- _ . :\<close>; it is the client's only when that was trusted.
\<close>

theorem request_id_safe:
  assumes "request_id_mw header trust (Some random) req w = (out, req', w')" "is_hex random 32"
  shows "is_safe_request_id (request_id req') \<and> (header, request_id req') \<in> set (default_headers w') \<and>
    (request_id req' \<noteq> random \<longrightarrow> trust \<and> hdr_find header (req_headers req) = Some (request_id req'))"
proof -
  have s: "is_safe_request_id random" using assms(2) by (rule hex_safe) simp_all
  have d: "(header, i) \<in> set (assoc_set header i hs)" for i hs by (induction hs) auto
  define i where "i = (if trust then (case hdr_find header (req_headers req) of Some v \<Rightarrow> if is_safe_request_id v then v else [] | None \<Rightarrow> []) else [])"
  have i: "i \<noteq> [] \<longrightarrow> is_safe_request_id i \<and> trust \<and> hdr_find header (req_headers req) = Some i"
    by (simp add: i_def split: option.split)
  show ?thesis
  proof (cases "i = []")
    case True
    then show ?thesis using assms(1) s d by (auto simp: request_id_mw_def i_def [symmetric] writer_set_header_def)
  next
    case False
    then show ?thesis using assms(1) i d by (auto simp: request_id_mw_def i_def [symmetric] writer_set_header_def)
  qed
qed

text \<open>The \<^verbatim>\<open>traceparent\<close> that the documentation tells to pass on with calls to other services.\<close>

definition outgoing_context :: "HttpRequest \<Rightarrow> string" where
  "outgoing_context req = ''00-'' @ trace_id req @ ''-'' @ span_id req @ ''-01''"

lemma parent_context_outgoing:
  assumes "is_hex t 32" "is_hex s 16" "\<not> all_zero t" "\<not> all_zero s"
  shows "parent_context (''00-'' @ t @ ''-'' @ s @ ''-01'') = Some (t, s)"
proof -
  have l: "length t = 32" "length s = 16" using assms by (simp_all add: is_hex_def)
  have n: "(''00-'' @ t @ ''-'' @ s @ ''-01'') ! 35 = CHR ''-''" "(''00-'' @ t @ ''-'' @ s @ ''-01'') ! 52 = CHR ''-''"
    using l by (simp_all add: nth_append nth_Cons')
  have k: "take 32 (drop 3 (''00-'' @ t @ ''-'' @ s @ ''-01'')) = t" "take 16 (drop 36 (''00-'' @ t @ ''-'' @ s @ ''-01'')) = s"
    using l by (simp_all add: drop_Cons')
  show ?thesis unfolding parent_context_def Let_def n k using assms l by simp
qed

lemma parent_context_hex: "parent_context tp = Some (t, s) \<Longrightarrow> is_hex t 32 \<and> \<not> all_zero t \<and> is_hex s 16 \<and> \<not> all_zero s"
  by (auto simp: parent_context_def Let_def split: if_splits)

lemma incoming_context_hex: "incoming_context req = Some (t, s) \<Longrightarrow> is_hex t 32 \<and> \<not> all_zero t \<and> is_hex s 16 \<and> \<not> all_zero s"
  by (cases "hdr_find ''traceparent'' (req_headers req)") (simp_all add: incoming_context_def parent_context_hex)

lemma tracing_ids:
  assumes "tracing cb (Some random_trace) (Some random_span) req w = (out, req', w')" "trace_id req = []"
  shows "span_id req' = random_span \<and> trace_id req' = (case incoming_context req of Some (t, _) \<Rightarrow> t | None \<Rightarrow> random_trace)"
proof (cases "incoming_context req")
  case None
  then show ?thesis using assms by (auto simp: tracing_def)
next
  case (Some c)
  then obtain t s where c: "incoming_context req = Some (t, s)" by (cases c) simp
  then have "t \<noteq> []" using incoming_context_hex [OF c] by (auto simp: is_hex_def)
  then show ?thesis using assms c by (auto simp: tracing_def)
qed

text \<open>
  A trace goes through services: when one service calls another with the \<^verbatim>\<open>traceparent\<close> that the documentation describes, the span the
  other reports has the same trace, and as its parent the span of the first; and a service that gets no such field, or one that is not
  well-formed, starts a trace of its own.
\<close>

theorem trace_continues:
  assumes "tracing cb (Some r1) (Some r2) req1 w1 = (out1, req1', w1')" "trace_id req1 = []"
    "tracing cb (Some r3) (Some r4) req2 w2 = (out2, req2', w2')" "trace_id req2 = []"
    "is_hex r1 32" "\<not> all_zero r1" "is_hex r2 16" "\<not> all_zero r2"
    "hdr_find ''traceparent'' (req_headers req2) = Some (outgoing_context req1')"
  shows "sp_trace_id (finished_span req2 req2' res) = trace_id req1' \<and> parent_span_id (finished_span req2 req2' res) = span_id req1' \<and>
    is_hex (trace_id req1') 32 \<and> (incoming_context req1 = None \<longrightarrow> trace_id req1' = r1)"
proof -
  have 1: "span_id req1' = r2" "trace_id req1' = (case incoming_context req1 of Some (t, _) \<Rightarrow> t | None \<Rightarrow> r1)"
    using tracing_ids [OF assms(1,2)] by simp_all
  have t: "is_hex (trace_id req1') 32" "\<not> all_zero (trace_id req1')"
    using assms(5,6) incoming_context_hex [of req1] unfolding 1 by (auto split: option.split)
  have "incoming_context req2 = Some (trace_id req1', span_id req1')"
    using parent_context_outgoing [OF t(1) _ t(2), of r2] assms(7-9) 1(1) by (simp add: incoming_context_def outgoing_context_def)
  then show ?thesis using tracing_ids [OF assms(3,4)] t 1 by (simp add: finished_span_def)
qed

definition demo_trace :: string where
  "demo_trace = replicate 31 (CHR ''0'') @ ''1''"

definition demo_span :: string where
  "demo_span = replicate 15 (CHR ''0'') @ ''1''"

lemma demo_ids: "is_hex demo_trace 32" "\<not> all_zero demo_trace" "is_hex demo_span 16" "\<not> all_zero demo_span"
  by code_simp+

theorem trace_continues_witness:
  "\<exists>req1' req2'. trace_id req1' = demo_trace \<and> sp_trace_id (finished_span (empty_request\<lparr>req_headers := [(''traceparent'', outgoing_context req1')]\<rparr>) req2' new_response) = demo_trace"
proof -
  obtain out1 req1' w1' where 1: "tracing False (Some demo_trace) (Some demo_span) empty_request new_writer = (out1, req1', w1')"
    by (metis prod_cases3)
  let ?req2 = "empty_request\<lparr>req_headers := [(''traceparent'', outgoing_context req1')]\<rparr>"
  obtain out2 req2' w2' where 2: "tracing False (Some demo_trace) (Some demo_span) ?req2 new_writer = (out2, req2', w2')"
    by (metis prod_cases3)
  have h: "hdr_find ''traceparent'' (req_headers ?req2) = Some (outgoing_context req1')" by simp
  have e: "trace_id empty_request = []" "trace_id ?req2 = []" "incoming_context empty_request = None"
    by (simp_all add: empty_request_def incoming_context_def)
  note trace_continues [OF 1 e(1) 2 e(2) demo_ids h, of new_response]
  with e(3) have "trace_id req1' = demo_trace" "sp_trace_id (finished_span ?req2 req2' new_response) = demo_trace" by simp_all
  then show ?thesis by blast
qed

theorem request_id_safe_witness:
  "\<exists>req' w'. request_id_mw ''X-Request-ID'' True (Some demo_trace) empty_request new_writer = (Return True, req', w') \<and> is_safe_request_id (request_id req')"
proof -
  obtain req' w' where r: "request_id_mw ''X-Request-ID'' True (Some demo_trace) empty_request new_writer = (Return True, req', w')"
    by (simp add: request_id_mw_def empty_request_def)
  from request_id_safe [OF r demo_ids(1)] r show ?thesis by blast
qed


section \<open>Security headers are defaults\<close>

lemma foldl_defaults:
  "hdr_find n (res_headers (foldl (\<lambda>r (k, v). if hdr_find k (res_headers r) = None then res_header k v r else r) r hs)) =
    (case hdr_find n (res_headers r) of Some own \<Rightarrow> Some own | None \<Rightarrow> hdr_find n hs)"
proof (induction hs arbitrary: r)
  case (Cons h hs)
  obtain k v where h: "h = (k, v)" by fastforce
  have "iequals k n \<Longrightarrow> hdr_find k (res_headers r) = hdr_find n (res_headers r)" by (rule hdr_find_iequals)
  with Cons h show ?case by (auto simp: res_header_def split: option.splits)
qed (simp split: option.splits)

lemma assoc_set_fresh: "k \<notin> fst ` set es \<Longrightarrow> assoc_set k v es = es @ [(k, v)]"
  by (induction es) auto

lemma fold_set_header:
  "distinct (map fst (default_headers w @ hs)) \<Longrightarrow>
   default_headers (fold (\<lambda>(n, v). writer_set_header n v) hs w) = default_headers w @ hs \<and>
   interceptors (fold (\<lambda>(n, v). writer_set_header n v) hs w) = interceptors w"
proof (induction hs arbitrary: w)
  case (Cons h hs)
  obtain k v where h: "h = (k, v)" by fastforce
  have "k \<notin> fst ` set (default_headers w)" using Cons.prems by (auto simp: h)
  then have "default_headers (writer_set_header k v w) = default_headers w @ [(k, v)]" "interceptors (writer_set_header k v w) = interceptors w"
    by (simp_all add: writer_set_header_def assoc_set_fresh)
  with Cons h show ?case by simp
qed simp

lemma security_headers_distinct: "distinct (map fst (security_header_list opts))"
  by (simp add: security_header_list_def)

text \<open>
  A security header is in every response with the value of the options, unless the handler set that header itself, and then the handler's
  value stands; no other header changes.
\<close>

theorem security_headers_are_defaults:
  "hdr_find n (res_headers (prepare_response (snd (snd (security_headers opts req new_writer))) res)) =
     (case hdr_find n (res_headers res) of Some own \<Rightarrow> Some own | None \<Rightarrow> hdr_find n (security_header_list opts))"
proof -
  have "default_headers new_writer = []" "interceptors new_writer = []" by (simp_all add: new_writer_def)
  then have "default_headers (snd (snd (security_headers opts req new_writer))) = security_header_list opts"
    "interceptors (snd (snd (security_headers opts req new_writer))) = []"
    using fold_set_header [of new_writer "security_header_list opts"] security_headers_distinct [of opts] by (simp_all add: security_headers_def)
  then show ?thesis by (simp add: prepare_response_def foldl_defaults)
qed

end
