(* ===== verification/Spec2Isabelle.thy ===== *)
theory Spec2Isabelle
  imports WebSocket_Session Routing Multipart Request_Guards Trusted_Proxies Rate_Limit Scheduler Sessions Static_Files
    Http1_Parser Connection_Pool Thread_Pool Connection_Output Connection_Requests Migrations Jwt_Auth Proxy Http2_Session Http3_Session Server_Config OAuth2_Flow Event_Router Observability
begin

text \<open>
  Orbit is a C++ web framework: an HTTP server with HTTP/1.1, HTTP/2, HTTP/3 and WebSocket connections, a router with middleware, and
  around them a thread pool, timers, a scheduler, a database client pool, an object-relational mapper and a reverse proxy. This
  development translates the parts of it that carry logic of their own into HOL and proves what makes them correct. Paths are
  relative to the repository's \<^verbatim>\<open>src\<close> and \<^verbatim>\<open>include/orbit\<close> directories.

  \<^bold>\<open>How the program is put together.\<close> An event loop reads bytes of a connection into its buffer (\<^verbatim>\<open>server/Connection.cpp\<close>); the
  parser (\<^verbatim>\<open>http/Http1Parser.cpp\<close>, over llhttp) turns them into a request; a thread of the pool
  (\<^verbatim>\<open>concurrency/ThreadPool.cpp\<close>) runs the router on it (\<^verbatim>\<open>routing/Router.cpp\<close>), which runs the global middleware, matches
  the route, runs its middleware and its handler, and answers errors; the response passes the interceptors of the writer
  (\<^verbatim>\<open>http/ResponseWriter.cpp\<close>) in the order they were added and is serialised (\<^verbatim>\<open>http/HttpResponse.cpp\<close>) and queued on the connection,
  whose timers (\<^verbatim>\<open>server/TimerManager.cpp\<close>) close it when it is idle. HTTP/2 and HTTP/3 replace the parser and the writer, a WebSocket
  upgrade replaces both with the frame layer.

  \<^bold>\<open>Theories and the code they model.\<close>
  \<^item> \<open>Orbit_Prelude\<close>, \<open>C_Numbers\<close>, \<open>Json_Values\<close>: characters, searches, numbers and JSON values as C++ code has them, with the
    collections of rewrite rules that the components use.
  \<^item> \<open>Http_Text\<close>: percent-coding, form bodies, cookies, list headers, typed parameters (\<^verbatim>\<open>http/HttpParser.cpp\<close>,
    \<^verbatim>\<open>http/HttpRequest.hpp\<close>). The record \<open>HttpRequest\<close> is the class.
  \<^item> \<open>Http1_Parser\<close>: the callbacks of \<^verbatim>\<open>http/Http1Parser.cpp\<close> and the loop that feeds them.
  \<^item> \<open>Http_Response\<close>, \<open>Response_Writer\<close>, \<open>Http_Dates\<close>: responses and their serialisation, the writer with its interceptors and error
    sink, dates.
  \<^item> \<open>Routing\<close>: \<^verbatim>\<open>routing/Router.cpp\<close>. The interface \<open>middleware_contract\<close> is what the router relies on; each middleware that is
    modelled (\<open>Request_Guards\<close>, \<open>Trusted_Proxies\<close>, \<open>Rate_Limit\<close>, \<open>Sessions\<close>, \<open>Static_Files\<close>, \<open>Compress\<close>, \<open>Jwt_Auth\<close>, \<open>Observability\<close>) is shown to
    keep it or is a function of its own.
  \<^item> \<open>Connection_Requests\<close>, \<open>Connection_Output\<close>: the two halves of \<^verbatim>\<open>server/Connection.cpp\<close>.
  \<^item> \<open>Http2_Session\<close>: \<^verbatim>\<open>http/Http2Session.cpp\<close>, a session with one operation per callback of nghttp2 and call of a writer.
  \<^item> \<open>Http3_Session\<close>: \<^verbatim>\<open>server/QuicHttp3Session.cpp\<close>, with a cell for each stream of a QUIC connection and the chunks of its body that are
    kept until the peer has acknowledged them.
  \<^item> \<open>WebSocket_Frames\<close>, \<open>WebSocket_Session\<close>, \<open>Event_Router\<close>: the frame codec and the connection (\<^verbatim>\<open>http/WebSocketConnection.cpp\<close>), and
    the rooms of \<^verbatim>\<open>websocket/EventRouter.hpp\<close> above it.
  \<^item> \<open>Multipart\<close>: the streaming and the whole-body parser of uploads.
  \<^item> \<open>Thread_Pool\<close>, \<open>Scheduler\<close>, \<open>Timers\<close>, \<open>Connection_Pool\<close>: the concurrent parts, each with its locked sections.
  \<^item> \<open>Proxy\<close>, \<open>OAuth2_Flow\<close>: the clients of other servers (\<^verbatim>\<open>middleware/Proxy.cpp\<close>, \<^verbatim>\<open>middleware/OAuth2.cpp\<close>).
  \<^item> \<open>Query_Builder\<close>, \<open>Migrations\<close>: \<^verbatim>\<open>orm/QueryBuilder.hpp\<close> and \<^verbatim>\<open>orm/MigrationRunner.hpp\<close>.
  \<^item> \<open>Prometheus\<close>, \<open>Observability\<close>: the metrics registry (\<^verbatim>\<open>utils/PrometheusRegistry.cpp\<close>) and the middleware that fills it
    (\<^verbatim>\<open>middleware/Metrics.cpp\<close>); request ids, traces and the access log (\<^verbatim>\<open>middleware/Observability.cpp\<close>), the lines of the
    logger (\<^verbatim>\<open>utils/Logger.cpp\<close>), and \<^verbatim>\<open>middleware/SecurityHeaders.cpp\<close>.
  \<^item> \<open>Server_Config\<close>: \<^verbatim>\<open>config/ConfigFile.cpp\<close> and \<^verbatim>\<open>config/Config.cpp\<close>.

  \<^bold>\<open>How code becomes definitions.\<close> A class is a record with its fields, a method a definition on it, named as in the code; an
  exception is a value of a sum or option type; a loop over a string is a recursion over what is left of it. A component whose
  methods run on several threads has one definition per section between two accesses to shared state, and an inductive step relation
  that takes them in any order; its theorems are about every state that can be reached. Libraries (llhttp, nghttp2, nghttp3, zlib and the
  other encoders, OpenSSL, the JSON library, the HTTP client, the database, the file system, the clock, random bytes) are parameters;
  what a theorem relies on of them is a named hypothesis, with a witness at a concrete instance. Machine integers are words where
  they wrap or overflow (WebSocket lengths, timer ids, HTTP/2 identifiers), and elsewhere numbers with the bounds the code checks.

  \<^bold>\<open>What the lemmas show.\<close>
  \<^item> Requests and responses: requests of a connection are handled once each and in order, whatever the interleaving and however the
    bytes are cut; the limits hold; the route chosen is the most specific; every request is answered once, errors included; no
    header value splits a response; queued bytes leave in the order of the calls, and those of a file after what was queued when
    it was set (its own head is queued later, in a second critical section of \<^verbatim>\<open>send\<close>), and neither is stranded; HTTP/2 gives the handler the request HTTP/1.1
    would have, and HTTP/3 that of HTTP/2; bytes nghttp3 still refers to are kept.
  \<^item> Guards: static files stay in their directory; a token passes only with a signature of a configured key; sessions, the OAuth2
    flow and client addresses cannot be forged; the rate limits hold; SQL values stay values.
  \<^item> Data: round trips and reference definitions for percent-coding, dates, multipart bodies, chunked bodies, WebSocket frames,
    UTF-8, compression and tokens; the edit distance.
  \<^item> Concurrency: the pool, the scheduler, the timers and the connection pool neither lose nor repeat work and terminate.
  \<^item> What the code does not keep is proved too, on concrete inputs, by lemmas next to the theorem concerned; where a theorem has to
    leave such a case out, its text names the case and the lemma.

  \<^bold>\<open>Bounds and fuel.\<close> All recursions are total: structural, or with a measure on the input that is left. The only counter is that of
  \<open>check_passes\<close> in \<open>Connection_Requests\<close>, which makes the two passes the code makes; where a library may loop (nghttp2 asking for
  data that never ends, llhttp pausing) the caller's steps are a relation, and that an answer comes is a theorem of its own
  (\<open>no_request_stranded\<close>, \<open>output_never_stranded\<close>, \<open>h2_streamed_body_delivered\<close>, \<open>h3_streamed_body_delivered\<close>, \<open>thread_pool_shuts_down\<close>). Floating-point numbers are
  rationals, without rounding.

  \<^bold>\<open>Not modelled.\<close> The vendored JSON library. The application object, event loops, listeners and connection manager (they wire the
  components together), the proactors and sockets (system calls), TLS contexts, QUIC packets (glue around ngtcp2), gRPC,
  the HTTP client (libcurl) and the database drivers. OpenAPI documents and schema validation, and of the
  logger its sink and its global settings. Coroutine frames and type-indexed storage, which have no value semantics of their own. The WebSocket
  handshake (a hash from OpenSSL) and GraphQL. Of the modelled components: in \<open>Connection_Requests\<close> and \<open>Connection_Output\<close>, TLS and the
  switch to HTTP/2; in \<open>Sessions\<close>, the Redis store; in \<open>Proxy\<close>, connecting and pooling; in the mapper, the MongoDB builder; in
  \<open>Server_Config\<close>, opening the file.
\<close>

end
